(* ===== verification/Prelude.thy ===== *)
theory Prelude
  imports Complex_Main "HOL-Library.List_Lexorder" "HOL-Library.Char_ord"
begin

text \<open>
  What every component of the development shares: the result of a Go call
  (a value, an \<open>error\<close> value, or a run-time panic), the two's complement
  wrap-around of the 64-bit integers, the position of a first match in a slice,
  the slice splice, and the lemmas on them.  The component proofs use these through
  the simpset and through the collection \<open>outcome_simps\<close>.
\<close>

named_theorems outcome_simps
named_theorems go_defs

section \<open>Results of Go calls\<close>

text \<open>
  A Go function with an \<open>error\<close> result returns a value or a non-nil error; an index out of
  range, a negative \<open>make\<close> capacity or an explicit \<open>panic\<close> ends it with neither.
\<close>

datatype ('e, 'a) outcome = Ok 'a | Err 'e | Panic

primrec andThen :: "('e, 'a) outcome \<Rightarrow> ('a \<Rightarrow> ('e, 'b) outcome) \<Rightarrow> ('e, 'b) outcome" where
  "andThen (Ok x) f = f x"
| "andThen (Err e) f = Err e"
| "andThen Panic f = Panic"

definition guard_err :: "bool \<Rightarrow> 'e \<Rightarrow> ('e, unit) outcome" where
  "guard_err bad e = (if bad then Err e else Ok ())"

primrec map_err :: "('e \<Rightarrow> 'f) \<Rightarrow> ('e, 'a) outcome \<Rightarrow> ('f, 'a) outcome" where
  "map_err f (Ok x) = Ok x"
| "map_err f (Err e) = Err (f e)"
| "map_err f Panic = Panic"

primrec is_Ok :: "('e, 'a) outcome \<Rightarrow> bool" where
  "is_Ok (Ok x) = True"
| "is_Ok (Err e) = False"
| "is_Ok Panic = False"

lemma andThen_Ok_iff [outcome_simps]:
  "andThen m f = Ok y \<longleftrightarrow> (\<exists>x. m = Ok x \<and> f x = Ok y)"
  by (cases m) auto

lemma andThen_Err_iff [outcome_simps]:
  "andThen m f = Err e \<longleftrightarrow> m = Err e \<or> (\<exists>x. m = Ok x \<and> f x = Err e)"
  by (cases m) auto

lemma andThen_Panic_iff [outcome_simps]:
  "andThen m f = Panic \<longleftrightarrow> m = Panic \<or> (\<exists>x. m = Ok x \<and> f x = Panic)"
  by (cases m) auto

lemma guard_err_Ok_iff [outcome_simps]: "guard_err b e = Ok u \<longleftrightarrow> \<not> b"
  by (simp add: guard_err_def)

lemma guard_err_Err_iff [outcome_simps]: "guard_err b e = Err e' \<longleftrightarrow> b \<and> e' = e"
  by (auto simp: guard_err_def)

lemma guard_err_not_Panic [simp]: "guard_err b e \<noteq> Panic"
  by (simp add: guard_err_def)

lemma map_err_Ok_iff [outcome_simps]: "map_err f m = Ok x \<longleftrightarrow> m = Ok x"
  by (cases m) auto

lemma map_err_Err_iff [outcome_simps]: "map_err f m = Err e \<longleftrightarrow> (\<exists>e'. m = Err e' \<and> e = f e')"
  by (cases m) auto

lemma map_err_Panic_iff [outcome_simps]: "map_err f m = Panic \<longleftrightarrow> m = Panic"
  by (cases m) auto

lemma is_Ok_iff [outcome_simps]: "is_Ok m \<longleftrightarrow> (\<exists>x. m = Ok x)"
  by (cases m) auto

text \<open>Sequencing of a step that changes the state before it fails.\<close>

definition bindW :: "'w \<times> ('e, 'a) outcome \<Rightarrow> ('w \<Rightarrow> 'a \<Rightarrow> 'w \<times> ('e, 'b) outcome) \<Rightarrow> 'w \<times> ('e, 'b) outcome" where
  "bindW m f = (case m of (w, Ok x) \<Rightarrow> f w x | (w, Err e) \<Rightarrow> (w, Err e) | (w, Panic) \<Rightarrow> (w, Panic))"

lemma bindW_simps [simp]:
  "bindW (w, Ok x) f = f w x" "bindW (w, Err e) f = (w, Err e)" "bindW (w, Panic) f = (w, Panic)"
  by (simp_all add: bindW_def)

lemma bindW_Ok_iff [outcome_simps]: "bindW m f = (w', Ok y) \<longleftrightarrow> (\<exists>w x. m = (w, Ok x) \<and> f w x = (w', Ok y))"
  by (cases m rule: prod.exhaust; cases "snd m") auto

text \<open>Running a fallible step over a list, stopping at the first failure.\<close>

fun foldM :: "('s \<Rightarrow> 'a \<Rightarrow> ('e, 's) outcome) \<Rightarrow> 's \<Rightarrow> 'a list \<Rightarrow> ('e, 's) outcome" where
  "foldM f s [] = Ok s"
| "foldM f s (x # xs) = andThen (f s x) (\<lambda>s'. foldM f s' xs)"

lemma foldM_append: "foldM f s (xs @ ys) = andThen (foldM f s xs) (\<lambda>s'. foldM f s' ys)"
proof (induction xs arbitrary: s)
  case (Cons x xs)
  then show ?case by (cases "f s x") auto
qed simp

lemma foldM_invariant:
  assumes "foldM f s xs = Ok t" and "I s"
    and "\<And>s x t. x \<in> set xs \<Longrightarrow> I s \<Longrightarrow> f s x = Ok t \<Longrightarrow> I t"
  shows "I t"
  using assms
proof (induction xs arbitrary: s)
  case (Cons x xs)
  from Cons.prems(1) obtain u where u: "f s x = Ok u" and rest: "foldM f u xs = Ok t"
    by (auto simp: outcome_simps)
  have "I u" using Cons.prems(2,3) u by auto
  then show ?case using Cons.IH [OF rest] Cons.prems(3) by auto
qed simp

lemma foldM_cong_list:
  assumes "\<And>s x. x \<in> set xs \<Longrightarrow> f s x = g s x"
  shows "foldM f s xs = foldM g s xs"
  using assms
proof (induction xs arbitrary: s)
  case (Cons x xs)
  then show ?case by (cases "g s x") auto
qed simp

text \<open>Running a fallible function over a list, collecting the values.\<close>

fun mapM :: "('a \<Rightarrow> ('e, 'b) outcome) \<Rightarrow> 'a list \<Rightarrow> ('e, 'b list) outcome" where
  "mapM f [] = Ok []"
| "mapM f (x # xs) = andThen (f x) (\<lambda>y. andThen (mapM f xs) (\<lambda>ys. Ok (y # ys)))"

lemma mapM_list_all2: "list_all2 (\<lambda>x y. f x = Ok y) xs ys \<Longrightarrow> mapM f xs = Ok ys"
  by (induction rule: list_all2_induct) auto

lemma mapM_map: "mapM f (map g xs) = mapM (\<lambda>x. f (g x)) xs"
  by (induction xs) auto

lemma mapM_id: "(\<forall>x \<in> set xs. f (g x) = Ok x) \<Longrightarrow> mapM f (map g xs) = Ok xs"
  by (induction xs) auto

section \<open>64-bit integers\<close>

text \<open>
  Go's \<open>int64\<close> (and \<open>int\<close> on the supported platforms) is modelled by the mathematical
  integer it holds; every arithmetic step that can leave the range is wrapped by \<open>i64\<close>.
\<close>

definition max_int64 :: int where "max_int64 = 9223372036854775807"
definition min_int64 :: int where "min_int64 = - 9223372036854775808"

definition in_i64 :: "int \<Rightarrow> bool" where
  "in_i64 x \<longleftrightarrow> min_int64 \<le> x \<and> x \<le> max_int64"

definition i64 :: "int \<Rightarrow> int" where
  "i64 x = (x + 9223372036854775808) mod 18446744073709551616 - 9223372036854775808"

lemma i64_id [simp]: "in_i64 x \<Longrightarrow> i64 x = x"
  by (simp add: in_i64_def i64_def max_int64_def min_int64_def)

lemma in_i64_i64 [simp]: "in_i64 (i64 x)"
proof -
  have "0 \<le> (x + 9223372036854775808) mod 18446744073709551616"
    and "(x + 9223372036854775808) mod 18446744073709551616 < 18446744073709551616"
    by simp_all
  then show ?thesis
    unfolding in_i64_def i64_def max_int64_def min_int64_def by linarith
qed

lemma i64_eq_signed_take_bit: "i64 x = signed_take_bit 63 x"
  by (simp add: i64_def signed_take_bit_eq_take_bit_shift take_bit_eq_mod)

lemma i64_add_diff: "in_i64 b \<Longrightarrow> i64 (a + i64 (b - a)) = b"
proof -
  assume b: "in_i64 b"
  have "i64 (a + i64 (b - a)) = i64 (a + (b - a))"
    unfolding i64_def by (simp add: mod_simps algebra_simps)
  then show ?thesis using b by simp
qed

lemma zero_in_i64 [simp]: "in_i64 0"
  by (simp add: in_i64_def min_int64_def max_int64_def)

section \<open>Slices\<close>

text \<open>The index of the first element equal to a value, as a scan with a sentinel finds it.\<close>

fun index_of :: "'a \<Rightarrow> 'a list \<Rightarrow> nat option" where
  "index_of x [] = None"
| "index_of x (y # ys) = (if y = x then Some 0 else map_option Suc (index_of x ys))"

lemma index_of_SomeD: "index_of x xs = Some i \<Longrightarrow> i < length xs \<and> xs ! i = x"
  by (induction xs arbitrary: i) (auto split: if_splits)

lemma index_of_None_iff [simp]: "index_of x xs = None \<longleftrightarrow> x \<notin> set xs"
  by (induction xs) auto

lemma index_of_Some_ex: "x \<in> set xs \<Longrightarrow> \<exists>i. index_of x xs = Some i"
  by (cases "index_of x xs") auto

lemma index_of_first: "index_of x xs = Some i \<Longrightarrow> j < i \<Longrightarrow> xs ! j \<noteq> x"
proof (induction xs arbitrary: i j)
  case (Cons y ys)
  show ?case
  proof (cases j)
    case 0
    with Cons.prems show ?thesis by (auto split: if_splits)
  next
    case (Suc k)
    with Cons show ?thesis by (auto split: if_splits)
  qed
qed simp

lemma index_of_nth: "distinct xs \<Longrightarrow> i < length xs \<Longrightarrow> index_of (xs ! i) xs = Some i"
proof (induction xs arbitrary: i)
  case (Cons x xs)
  then show ?case by (cases i) auto
qed simp

text \<open>\<open>xs[:a] ++ ins ++ xs[a+d:]\<close>, the splice all list edits of the program reduce to.\<close>

definition splice_list :: "nat \<Rightarrow> nat \<Rightarrow> 'a list \<Rightarrow> 'a list \<Rightarrow> 'a list" where
  "splice_list a d ins xs = take a xs @ ins @ drop (a + d) xs"

lemma length_splice_list:
  "a + d \<le> length xs \<Longrightarrow> length (splice_list a d ins xs) = length xs - d + length ins"
  by (simp add: splice_list_def)

lemma set_splice_list_subset: "set (splice_list a d ins xs) \<subseteq> set xs \<union> set ins"
  by (auto simp: splice_list_def dest: in_set_takeD in_set_dropD)

lemma splice_list_split:
  "a + d \<le> length xs \<Longrightarrow> xs = take a xs @ take d (drop a xs) @ drop (a + d) xs"
  by (metis append_take_drop_id drop_drop add.commute)

lemma sorted_wrt_splice:
  assumes "sorted_wrt P xs" and "\<And>x. x \<in> set xs \<Longrightarrow> P x y"
    and "d > 0"
  shows "sorted_wrt P (take a xs @ [y])"
  using assms by (auto simp: sorted_wrt_append sorted_wrt_take dest: in_set_takeD)

lemma distinct_splice_fresh:
  assumes "distinct xs" and "y \<notin> set xs"
  shows "distinct (splice_list a d [y] xs)"
proof -
  have "set (take a xs) \<inter> set (drop (a + d) xs) = {}"
    using assms(1) set_take_disj_set_drop_if_distinct [of xs a "a + d"] by simp
  moreover have "y \<notin> set (take a xs)" "y \<notin> set (drop (a + d) xs)"
    using assms(2) by (auto dest: in_set_takeD in_set_dropD)
  ultimately show ?thesis
    using assms(1) by (auto simp: splice_list_def)
qed

lemma list_all2_last:
  assumes "list_all2 P xs ys" and "xs \<noteq> []"
  obtains us u vs v where "xs = us @ [u]" "ys = vs @ [v]" "list_all2 P us vs" "P u v"
proof -
  obtain us u where xs: "xs = us @ [u]" using assms(2) by (metis append_butlast_last_id)
  then obtain vs v where ys: "ys = vs @ [v]" using assms(1) by (metis append_butlast_last_id list_all2_Nil2 snoc_eq_iff_butlast)
  show ?thesis using that [of us u vs v] xs ys assms(1) list_all2_lengthD [OF assms(1)] by (simp add: list_all2_append)
qed

lemma list_all2_snoc: "list_all2 P us vs \<Longrightarrow> P u v \<Longrightarrow> list_all2 P (us @ [u]) (vs @ [v])"
  by (simp add: list_all2_appendI)

text \<open>Keeping the present values of a projection, in order.\<close>

lemma map_filter_append [simp]:
  "List.map_filter f (xs @ ys) = List.map_filter f xs @ List.map_filter f ys"
  by (simp add: List.map_filter_def)

lemma last_match_append:
  "find P (rev (xs @ ys)) = (case find P (rev ys) of None \<Rightarrow> find P (rev xs) | Some y \<Rightarrow> Some y)"
proof -
  have "find P (us @ vs) = (case find P us of None \<Rightarrow> find P vs | Some y \<Rightarrow> Some y)" for us vs
    by (induction us) auto
  then show ?thesis by simp
qed

end
