(* ===== verification/Go_Json.thy ===== *)
theory Go_Json
  imports Prelude "HOL-Library.Log_Nat"
begin

text \<open>
  The part of Go's \<open>encoding/json\<close>, \<open>strings\<close> and \<open>sort\<close> the program
  uses.  A JSON text is represented by the value it denotes: an object is the list of its
  members in textual order (with duplicates), an integer literal is kept apart from a literal
  with a fraction or an exponent (an \<open>int64\<close> field accepts only the former), and the latter
  is represented by the \<open>float64\<close> it denotes, a rational.  Two texts that differ only in
  white space or in the spelling of a string escape or of a float denote the same value.

  Decoding into a typed destination is modelled the way the library works: a decoder gets the
  old contents of the destination and a value, and returns the new contents and whether a type
  mismatch was met; JSON \<open>null\<close> leaves a non-pointer destination alone; the members of an
  object are stored one after the other, a member whose name matches no field is skipped, and
  names match exactly or else under the library's case folding.
\<close>

section \<open>Values\<close>

datatype json =
    JNull
  | JBool bool
  | JInt int
  | JFloat rat
  | JStr string
  | JArr "json list"
  | JObj "(string \<times> json) list"

lemma size_json_member [termination_simp]:
  "(k, x) \<in> set kvs \<Longrightarrow> size x < Suc (size_list (size_prod (\<lambda>_. 0) size) kvs)"
  by (induction kvs) auto

lemma size_json_element [termination_simp]:
  "x \<in> set js \<Longrightarrow> size (x :: json) < Suc (size_list size js)"
  by (induction js) auto

text \<open>\<open>map[string]any\<close>: of several members with one name the last one counts; reading an
  absent key gives \<open>nil\<close>, which is also what a JSON \<open>null\<close> decodes to.\<close>

definition obj_get :: "string \<Rightarrow> (string \<times> json) list \<Rightarrow> json option" where
  "obj_get k kvs = map_of (rev kvs) k"

definition obj_index :: "(string \<times> json) list \<Rightarrow> string \<Rightarrow> json" where
  "obj_index kvs k = (case obj_get k kvs of None \<Rightarrow> JNull | Some v \<Rightarrow> v)"

definition obj_keys :: "(string \<times> json) list \<Rightarrow> string list" where
  "obj_keys kvs = sort (remdups (map fst kvs))"

text \<open>\<open>json.Marshal\<close> of a value of dynamic type: the keys of every map sorted and unique.\<close>

fun marshal_any :: "json \<Rightarrow> json" where
  "marshal_any (JArr js) = JArr (map marshal_any js)"
| "marshal_any (JObj kvs) =
     (let kvs' = map (\<lambda>(k, x). (k, marshal_any x)) kvs
      in JObj (map (\<lambda>k. (k, obj_index kvs' k)) (obj_keys kvs')))"
| "marshal_any JNull = JNull"
| "marshal_any (JBool b) = JBool b"
| "marshal_any (JInt n) = JInt n"
| "marshal_any (JFloat q) = JFloat q"
| "marshal_any (JStr s) = JStr s"

lemma obj_get_None_iff: "obj_get k kvs = None \<longleftrightarrow> k \<notin> set (map fst kvs)"
  by (auto simp: obj_get_def map_of_eq_None_iff)

lemma set_obj_keys [simp]: "set (obj_keys kvs) = fst ` set kvs"
  by (simp add: obj_keys_def)

lemma distinct_obj_keys [simp]: "distinct (obj_keys kvs)"
  by (simp add: obj_keys_def)

lemma obj_get_map_snd: "obj_get k (map (\<lambda>(k, x). (k, f x)) kvs) = map_option f (obj_get k kvs)"
  by (simp add: obj_get_def rev_map map_of_map)

lemma map_of_pairs: "map_of (map (\<lambda>k. (k, f k)) ks) k = (if k \<in> set ks then Some (f k) else None)"
  by (induction ks) auto

lemma obj_get_keyed: "obj_get k (map (\<lambda>k. (k, f k)) ks) = (if k \<in> set ks then Some (f k) else None)"
  using map_of_pairs [of f "rev ks" k] by (simp add: obj_get_def rev_map)

text \<open>Marshalling an object changes no member but by marshalling it.\<close>

lemma obj_get_marshal:
  assumes "marshal_any (JObj kvs) = JObj kvs'"
  shows "obj_get k kvs' = map_option marshal_any (obj_get k kvs)"
proof -
  have "kvs' = map (\<lambda>k. (k, obj_index (map (\<lambda>(k, x). (k, marshal_any x)) kvs) k))
      (obj_keys (map (\<lambda>(k, x). (k, marshal_any x)) kvs))"
    using assms by (simp add: Let_def)
  moreover have "fst ` (\<lambda>(k, x). (k, marshal_any x)) ` set kvs = fst ` set kvs" by force
  ultimately show ?thesis
    using obj_get_None_iff [of k kvs]
    by (cases "obj_get k kvs") (auto simp: obj_get_keyed obj_index_def obj_get_map_snd)
qed

section \<open>Numbers\<close>

definition maxSafeInteger :: int where "maxSafeInteger = 9007199254740991"

text \<open>
  The \<open>float64\<close> nearest to an integer literal, ties to even; literals beyond the range of
  \<open>float64\<close> (more than 300 digits) are not considered.
\<close>

definition float_round :: "int \<Rightarrow> int" where
  "float_round n =
     (if \<bar>n\<bar> \<le> 9007199254740992 then n
      else let k = nat (bitlen \<bar>n\<bar>) - 53; q = \<bar>n\<bar> div 2 ^ k; r = 2 * (\<bar>n\<bar> mod 2 ^ k)
           in sgn n * (if r > 2 ^ k \<or> (r = 2 ^ k \<and> odd q) then q + 1 else q) * 2 ^ k)"

text \<open>How \<open>json.Marshal\<close> writes a whole \<open>float64\<close>: with digits only below the 21st power of ten.\<close>

definition print_whole :: "int \<Rightarrow> json" where
  "print_whole n = (if \<bar>n\<bar> < 10 ^ 21 then JInt n else JFloat (of_int n))"

text \<open>Decoding into a destination of dynamic type and marshalling the numbers again.\<close>

fun to_any :: "json \<Rightarrow> json" where
  "to_any (JArr js) = JArr (map to_any js)"
| "to_any (JObj kvs) = JObj (map (\<lambda>(k, x). (k, to_any x)) kvs)"
| "to_any (JInt n) = print_whole (float_round n)"
| "to_any (JFloat q) = (if q = of_int \<lfloor>q\<rfloor> then print_whole \<lfloor>q\<rfloor> else JFloat q)"
| "to_any JNull = JNull"
| "to_any (JBool b) = JBool b"
| "to_any (JStr s) = JStr s"

definition norm_any :: "json \<Rightarrow> json" where
  "norm_any j = marshal_any (to_any j)"

lemma print_safe [simp]: "\<bar>n\<bar> \<le> maxSafeInteger \<Longrightarrow> print_whole (float_round n) = JInt n"
  by (simp add: float_round_def print_whole_def maxSafeInteger_def)

lemma obj_get_norm:
  assumes "norm_any (JObj kvs) = JObj kvs'"
  shows "obj_get k kvs' = map_option norm_any (obj_get k kvs)"
  using assms obj_get_marshal [of "map (\<lambda>(k, x). (k, to_any x)) kvs" kvs' k]
  by (simp add: norm_any_def [abs_def] obj_get_map_snd option.map_comp comp_def)

text \<open>
  \<open>value.(float64)\<close> narrowed to a whole number in the safe range: an integer literal
  outside the range is rounded to a \<open>float64\<close> that is outside the range as well.
\<close>

definition float_integer :: "json \<Rightarrow> int option" where
  "float_integer j =
     (case j of
        JInt n \<Rightarrow> if \<bar>n\<bar> \<le> maxSafeInteger then Some n else None
      | JFloat q \<Rightarrow>
          if q = of_int \<lfloor>q\<rfloor> \<and> \<bar>\<lfloor>q\<rfloor>\<bar> \<le> maxSafeInteger then Some \<lfloor>q\<rfloor> else None
      | _ \<Rightarrow> None)"

lemma float_integer_bound: "float_integer j = Some n \<Longrightarrow> \<bar>n\<bar> \<le> maxSafeInteger"
  by (auto simp: float_integer_def split: json.splits if_splits)

lemma maxSafeInteger_in_i64: "\<bar>n\<bar> \<le> maxSafeInteger \<Longrightarrow> in_i64 n \<and> in_i64 (n + 1)"
  by (auto simp: in_i64_def maxSafeInteger_def max_int64_def min_int64_def)

section \<open>Strings\<close>

text \<open>
  The byte sequences of the runes \<open>unicode.IsSpace\<close> accepts, and \<open>strings.TrimSpace\<close> on
  UTF-8 text: no such sequence is a proper prefix or suffix of another one.
\<close>

definition space_runes :: "string list" where
  "space_runes =
     [[CHR 0x09], [CHR 0x0A], [CHR 0x0B], [CHR 0x0C], [CHR 0x0D], [CHR 0x20],
      [CHR 0xC2, CHR 0x85], [CHR 0xC2, CHR 0xA0], [CHR 0xE1, CHR 0x9A, CHR 0x80]]
     @ map (\<lambda>c. [CHR 0xE2, CHR 0x80, c])
         [CHR 0x80, CHR 0x81, CHR 0x82, CHR 0x83, CHR 0x84, CHR 0x85, CHR 0x86, CHR 0x87,
          CHR 0x88, CHR 0x89, CHR 0x8A, CHR 0xA8, CHR 0xA9, CHR 0xAF]
     @ [[CHR 0xE2, CHR 0x81, CHR 0x9F], [CHR 0xE3, CHR 0x80, CHR 0x80]]"

definition strip_one :: "string list \<Rightarrow> string \<Rightarrow> string option" where
  "strip_one ps s =
     (case find (\<lambda>p. take (length p) s = p) ps of
        None \<Rightarrow> None | Some p \<Rightarrow> Some (drop (length p) s))"

lemma strip_one_shorter:
  assumes "strip_one ps s = Some t" and "\<forall>p \<in> set ps. p \<noteq> []"
  shows "length t < length s"
proof -
  from assms(1) obtain p where p: "find (\<lambda>p. take (length p) s = p) ps = Some p"
    and t: "t = drop (length p) s"
    by (auto simp: strip_one_def split: option.splits)
  from p have "p \<in> set ps" and "take (length p) s = p"
    by (auto simp: find_Some_iff)
  with assms(2) have "p \<noteq> []" and "length p \<le> length s"
    by (auto, metis length_take min.cobounded1)
  with t show ?thesis by (simp, cases p, auto)
qed

function strip_all :: "string list \<Rightarrow> string \<Rightarrow> string" where
  "strip_all ps s =
     (case strip_one (filter (\<lambda>p. p \<noteq> []) ps) s of None \<Rightarrow> s | Some t \<Rightarrow> strip_all ps t)"
  by pat_completeness auto
termination
  by (relation "measure (\<lambda>(ps, s). length s)") (auto dest: strip_one_shorter)

declare strip_all.simps [simp del]

definition TrimSpace :: "string \<Rightarrow> string" where
  "TrimSpace s = rev (strip_all (map rev space_runes) (rev (strip_all space_runes s)))"

lemma strip_all_idem: "strip_all ps (strip_all ps s) = strip_all ps s"
proof (induction ps s rule: strip_all.induct)
  case (1 ps s)
  show ?case
  proof (cases "strip_one (filter (\<lambda>p. p \<noteq> []) ps) s")
    case None
    then show ?thesis by (simp add: strip_all.simps [of ps s])
  next
    case (Some t)
    with "1.IH" [OF Some] show ?thesis by (simp add: strip_all.simps [of ps s])
  qed
qed

lemma strip_all_fixed: "strip_one (filter (\<lambda>p. p \<noteq> []) ps) (strip_all ps s) = None"
proof (induction ps s rule: strip_all.induct)
  case (1 ps s)
  show ?case
  proof (cases "strip_one (filter (\<lambda>p. p \<noteq> []) ps) s")
    case None
    then show ?thesis by (simp add: strip_all.simps [of ps s])
  next
    case (Some t)
    with "1.IH" [OF Some] show ?thesis by (simp add: strip_all.simps [of ps s])
  qed
qed

lemma strip_all_suffix: "\<exists>pre. s = pre @ strip_all ps s"
proof (induction ps s rule: strip_all.induct)
  case (1 ps s)
  show ?case
  proof (cases "strip_one (filter (\<lambda>p. p \<noteq> []) ps) s")
    case None
    then show ?thesis by (simp add: strip_all.simps [of ps s])
  next
    case (Some t)
    then obtain n where t: "t = drop n s" by (auto simp: strip_one_def split: option.splits)
    obtain pre where "t = pre @ strip_all ps t" using "1.IH" [OF Some] by blast
    then have "s = (take n s @ pre) @ strip_all ps t" using t by (metis append.assoc append_take_drop_id)
    then show ?thesis using Some by (metis strip_all.simps option.simps(5))
  qed
qed

lemma strip_one_None_iff: "strip_one ps s = None \<longleftrightarrow> (\<forall>p \<in> set ps. take (length p) s \<noteq> p)"
  by (auto simp: strip_one_def find_None_iff find_Some_iff split: option.splits)

lemma TrimSpace_idem: "TrimSpace (TrimSpace s) = TrimSpace s"
proof -
  let ?l = "strip_all space_runes s" and ?r = "strip_all (map rev space_runes)"
  obtain pre where "rev ?l = pre @ ?r (rev ?l)" using strip_all_suffix by blast
  then have l: "?l = TrimSpace s @ rev pre" unfolding TrimSpace_def by (metis rev_append rev_rev_ident)
  have "strip_one (filter (\<lambda>p. p \<noteq> []) space_runes) (TrimSpace s) = None"
  proof -
    have "take (length p) (TrimSpace s) \<noteq> p" if "p \<in> set (filter (\<lambda>p. p \<noteq> []) space_runes)" for p
    proof
      assume eq: "take (length p) (TrimSpace s) = p"
      then have "length p \<le> length (TrimSpace s)" by (metis length_take min.cobounded1)
      then have "take (length p) ?l = p" using eq l by simp
      then show False using strip_all_fixed [of space_runes s] that by (simp add: strip_one_None_iff)
    qed
    then show ?thesis unfolding strip_one_None_iff by blast
  qed
  then have "strip_all space_runes (TrimSpace s) = TrimSpace s" by (simp add: strip_all.simps [of space_runes "TrimSpace s"])
  then show ?thesis using strip_all_idem [of "map rev space_runes" "rev ?l"] by (simp add: TrimSpace_def)
qed

text \<open>\<open>strings.Join\<close>.\<close>

fun join :: "string \<Rightarrow> string list \<Rightarrow> string" where
  "join sep [] = []"
| "join sep [x] = x"
| "join sep (x # y # ys) = x @ sep @ join sep (y # ys)"

text \<open>\<open>%d\<close>.\<close>

fun show_nat :: "nat \<Rightarrow> string" where
  "show_nat n =
     (if n < 10 then [char_of (48 + n)] else show_nat (n div 10) @ [char_of (48 + n mod 10)])"

declare show_nat.simps [simp del]

definition show_int :: "int \<Rightarrow> string" where
  "show_int n = (if n < 0 then CHR ''-'' # show_nat (nat (- n)) else show_nat (nat n))"

section \<open>Decoding into Go values\<close>

type_synonym 'a decoder = "'a \<Rightarrow> json \<Rightarrow> 'a \<times> bool"

text \<open>The case folding of field names: ASCII letters, and the two non-ASCII runes whose simple
  folding is an ASCII letter (the Kelvin sign and the long s).\<close>

definition upper :: "char \<Rightarrow> char" where
  "upper c = (if CHR ''a'' \<le> c \<and> c \<le> CHR ''z'' then char_of (of_char c - 32 :: nat) else c)"

text \<open>The same on the bits of the character, which is how the kernel evaluates it.\<close>

lemma upper_bits [code]:
  "upper (Char b0 b1 b2 b3 b4 b5 b6 b7) =
     (if \<not> b7 \<and> b6 \<and> b5 \<and> (b0 \<or> b1 \<or> b2 \<or> b3 \<or> b4) \<and> \<not> (b4 \<and> b3 \<and> (b2 \<or> b1 \<and> b0))
      then Char b0 b1 b2 b3 b4 False b6 b7 else Char b0 b1 b2 b3 b4 b5 b6 b7)"
proof -
  have "(CHR ''a'' \<le> Char b0 b1 b2 b3 b4 b5 b6 b7 \<and> Char b0 b1 b2 b3 b4 b5 b6 b7 \<le> CHR ''z'') \<longleftrightarrow>
      (\<not> b7 \<and> b6 \<and> b5 \<and> (b0 \<or> b1 \<or> b2 \<or> b3 \<or> b4) \<and> \<not> (b4 \<and> b3 \<and> (b2 \<or> b1 \<and> b0)))"
    by (cases b0; cases b1; cases b2; cases b3; cases b4; cases b5; cases b6; cases b7; simp add: less_eq_char_def)
  moreover have "b5 \<Longrightarrow> char_of (of_char (Char b0 b1 b2 b3 b4 b5 b6 b7) - 32 :: nat) = Char b0 b1 b2 b3 b4 False b6 b7"
    by (cases b0; cases b1; cases b2; cases b3; cases b4; cases b6; cases b7; simp add: char_of_def bit_Suc_0_iff)
  ultimately show ?thesis by (auto simp: upper_def)
qed

fun foldName :: "string \<Rightarrow> string" where
  "foldName (a # b # c # r) =
     (if a = CHR 0xE2 \<and> b = CHR 0x84 \<and> c = CHR 0xAA then CHR ''K'' # foldName r
      else if a = CHR 0xC5 \<and> b = CHR 0xBF then CHR ''S'' # foldName (c # r)
      else upper a # foldName (b # c # r))"
| "foldName [a, b] =
     (if a = CHR 0xC5 \<and> b = CHR 0xBF then ''S'' else [upper a, upper b])"
| "foldName [a] = [upper a]"
| "foldName [] = []"

definition find_field :: "(string \<times> 'f) list \<Rightarrow> string \<Rightarrow> 'f option" where
  "find_field fs k =
     (case map_of fs k of
        Some f \<Rightarrow> Some f
      | None \<Rightarrow> map_option snd (find (\<lambda>(n, _). foldName n = foldName k) fs))"

definition dec_string :: "string decoder" where
  "dec_string v j = (case j of JNull \<Rightarrow> (v, True) | JStr s \<Rightarrow> (s, True) | _ \<Rightarrow> (v, False))"

definition dec_bool :: "bool decoder" where
  "dec_bool v j = (case j of JNull \<Rightarrow> (v, True) | JBool b \<Rightarrow> (b, True) | _ \<Rightarrow> (v, False))"

definition dec_int64 :: "int decoder" where
  "dec_int64 v j =
     (case j of
        JNull \<Rightarrow> (v, True)
      | JInt n \<Rightarrow> if in_i64 n then (n, True) else (v, False)
      | _ \<Rightarrow> (v, False))"

definition dec_float64 :: "rat decoder" where
  "dec_float64 v j =
     (case j of
        JNull \<Rightarrow> (v, True) | JInt n \<Rightarrow> (of_int (float_round n), True) | JFloat q \<Rightarrow> (q, True)
      | _ \<Rightarrow> (v, False))"

definition dec_any :: "json decoder" where
  "dec_any v j = (j, True)"

definition dec_raw :: "json option decoder" where
  "dec_raw v j = (Some j, True)"

definition dec_ptr :: "'a \<Rightarrow> 'a decoder \<Rightarrow> 'a option decoder" where
  "dec_ptr zero d v j =
     (if j = JNull then (None, True)
      else let (x, ok) = d (case v of None \<Rightarrow> zero | Some y \<Rightarrow> y) j in (Some x, ok))"

text \<open>A slice destination: \<open>None\<close> is the nil slice, which is not the empty one.\<close>

definition dec_slice :: "'a \<Rightarrow> 'a decoder \<Rightarrow> 'a list option decoder" where
  "dec_slice zero d v j =
     (case j of
        JNull \<Rightarrow> (None, True)
      | JArr js \<Rightarrow> (Some (map (\<lambda>x. fst (d zero x)) js), list_all (\<lambda>x. snd (d zero x)) js)
      | _ \<Rightarrow> (v, False))"

text \<open>One field of a struct, given by its selector and its record update.\<close>

definition fld :: "('r \<Rightarrow> 'a) \<Rightarrow> (('a \<Rightarrow> 'a) \<Rightarrow> 'r \<Rightarrow> 'r) \<Rightarrow> 'a decoder \<Rightarrow> 'r decoder" where
  "fld get upd d v j = (let (x, ok) = d (get v) j in (upd (\<lambda>_. x) v, ok))"

fun dec_members :: "(string \<times> 'r decoder) list \<Rightarrow> 'r \<Rightarrow> (string \<times> json) list \<Rightarrow> 'r \<times> bool" where
  "dec_members fs v [] = (v, True)"
| "dec_members fs v ((k, x) # kvs) =
     (case find_field fs k of
        None \<Rightarrow> dec_members fs v kvs
      | Some d \<Rightarrow>
          let (v', ok) = d v x; (v'', ok') = dec_members fs v' kvs in (v'', ok \<and> ok'))"

definition dec_struct :: "(string \<times> 'r decoder) list \<Rightarrow> 'r decoder" where
  "dec_struct fs v j =
     (case j of
        JNull \<Rightarrow> (v, True) | JObj kvs \<Rightarrow> dec_members fs v kvs | _ \<Rightarrow> (v, False))"

text \<open>\<open>json.Unmarshal\<close> of a raw message: a text that is no JSON fails before anything is stored.\<close>

type_synonym raw = "json option"

definition unmarshal :: "'a decoder \<Rightarrow> 'a \<Rightarrow> raw \<Rightarrow> 'a \<times> bool" where
  "unmarshal d zero r = (case r of None \<Rightarrow> (zero, False) | Some j \<Rightarrow> d zero j)"

definition unmarshal_ok :: "'a decoder \<Rightarrow> 'a \<Rightarrow> raw \<Rightarrow> 'a option" where
  "unmarshal_ok d zero r = (let (v, ok) = unmarshal d zero r in if ok then Some v else None)"

lemmas dec_defs =
  dec_string_def dec_bool_def dec_int64_def dec_float64_def dec_any_def dec_raw_def
  dec_ptr_def dec_slice_def fld_def dec_struct_def unmarshal_def unmarshal_ok_def

section \<open>Encoding\<close>

text \<open>Members of an encoded struct: always present, or left out when empty (\<open>omitempty\<close>).\<close>

definition mem :: "string \<Rightarrow> json \<Rightarrow> (string \<times> json) list" where
  "mem k j = [(k, j)]"

definition mem_str :: "string \<Rightarrow> string \<Rightarrow> (string \<times> json) list" where
  "mem_str k s = (if s = [] then [] else [(k, JStr s)])"

definition mem_bool :: "string \<Rightarrow> bool \<Rightarrow> (string \<times> json) list" where
  "mem_bool k b = (if b then [(k, JBool True)] else [])"

definition mem_int :: "string \<Rightarrow> int \<Rightarrow> (string \<times> json) list" where
  "mem_int k n = (if n = 0 then [] else [(k, JInt n)])"

definition mem_opt :: "string \<Rightarrow> json option \<Rightarrow> (string \<times> json) list" where
  "mem_opt k x = (case x of None \<Rightarrow> [] | Some j \<Rightarrow> [(k, j)])"

definition mem_slice :: "string \<Rightarrow> ('a \<Rightarrow> json) \<Rightarrow> 'a list option \<Rightarrow> (string \<times> json) list" where
  "mem_slice k enc xs =
     (case xs of None \<Rightarrow> [] | Some ys \<Rightarrow> if ys = [] then [] else [(k, JArr (map enc ys))])"

text \<open>A slice without \<open>omitempty\<close>: the nil slice is \<open>null\<close>.\<close>

definition enc_slice :: "('a \<Rightarrow> json) \<Rightarrow> 'a list option \<Rightarrow> json" where
  "enc_slice enc xs = (case xs of None \<Rightarrow> JNull | Some ys \<Rightarrow> JArr (map enc ys))"

lemmas mem_defs = mem_def mem_str_def mem_bool_def mem_int_def mem_opt_def mem_slice_def

section \<open>Objects and their keys\<close>

lemma obj_keys_keyed:
  assumes "sorted ks" and "distinct ks"
  shows "obj_keys (map (\<lambda>k. (k, f k)) ks) = ks"
  using assms by (simp add: obj_keys_def comp_def sorted_sort_id)

lemma obj_keys_map_snd [simp]: "obj_keys (map (\<lambda>(k, x). (k, f x)) kvs) = obj_keys kvs"
  by (simp add: obj_keys_def comp_def case_prod_unfold)

lemma obj_index_map_snd:
  "k \<in> fst ` set kvs \<Longrightarrow> obj_index (map (\<lambda>(k, x). (k, f x)) kvs) k = f (obj_index kvs k)"
  by (cases "obj_get k kvs") (auto simp: obj_index_def obj_get_map_snd obj_get_None_iff)

lemma marshal_any_obj:
  "marshal_any (JObj kvs) = JObj (map (\<lambda>k. (k, marshal_any (obj_index kvs k))) (obj_keys kvs))"
  by (simp add: Let_def obj_index_map_snd cong: map_cong)

lemma norm_any_obj:
  "norm_any (JObj kvs) = JObj (map (\<lambda>k. (k, norm_any (obj_index kvs k))) (obj_keys kvs))"
  by (simp add: norm_any_def marshal_any_obj obj_index_map_snd del: marshal_any.simps(2) cong: map_cong)

lemma obj_index_keyed: "k \<in> set ks \<Longrightarrow> obj_index (map (\<lambda>k. (k, f k)) ks) k = f k"
  by (simp add: obj_index_def obj_get_keyed)

lemma sorted_obj_keys [simp]: "sorted (obj_keys kvs)"
  by (simp add: obj_keys_def)

lemma size_obj_index: "k \<in> fst ` set kvs \<Longrightarrow> size (obj_index kvs k) < size (JObj kvs)"
proof -
  assume "k \<in> fst ` set kvs"
  then obtain x where x: "obj_get k kvs = Some x" using obj_get_None_iff [of k kvs] by auto
  then have "(k, x) \<in> set kvs" by (auto simp: obj_get_def dest: map_of_SomeD)
  then show ?thesis using size_json_member [of k x kvs] x by (simp add: obj_index_def)
qed

lemma marshal_any_idem [simp]: "marshal_any (marshal_any j) = marshal_any j"
proof (induction "size j" arbitrary: j rule: less_induct)
  case less
  show ?case
  proof (cases j)
    case (JArr js)
    have "marshal_any (marshal_any x) = marshal_any x" if "x \<in> set js" for x
      using less size_json_element [OF that] JArr by auto
    then show ?thesis using JArr by simp
  next
    case (JObj kvs)
    have "marshal_any (marshal_any (obj_index kvs k)) = marshal_any (obj_index kvs k)"
      if "k \<in> set (obj_keys kvs)" for k
      using that size_obj_index [of k kvs] by (intro less) (auto simp: JObj)
    then show ?thesis
      by (simp add: JObj marshal_any_obj obj_keys_keyed obj_index_keyed del: marshal_any.simps(2) cong: map_cong)
  qed auto
qed

lemma marshal_norm [simp]: "marshal_any (norm_any j) = norm_any j"
  by (simp add: norm_any_def)

text \<open>Decoding one field of a struct from an object with distinct member names.\<close>

lemma obj_get_Cons: "k \<notin> fst ` set kvs \<Longrightarrow> obj_get k ((k', x) # kvs) = (if k = k' then Some x else None)"
  using obj_get_None_iff [of k kvs] by (auto simp: obj_get_def map_add_def)

lemma obj_get_Cons_other: "k \<noteq> k' \<Longrightarrow> obj_get k ((k', x) # kvs) = obj_get k kvs"
  by (simp add: obj_get_def map_add_def split: option.split)

lemma dec_members_other:
  assumes "\<forall>(k, x) \<in> set kvs. \<forall>d. find_field fs k = Some d \<longrightarrow> (\<forall>v. g (fst (d v x)) = g v)"
  shows "g (fst (dec_members fs v kvs)) = g v"
  using assms
proof (induction kvs arbitrary: v)
  case (Cons kx kvs)
  obtain k x where kx: "kx = (k, x)" by (cases kx)
  show ?case
  proof (cases "find_field fs k")
    case None
    then show ?thesis using Cons kx by simp
  next
    case (Some d)
    have "g (fst (d v x)) = g v" using Cons.prems Some kx by auto
    then show ?thesis using Cons Some kx by (simp add: case_prod_unfold Let_def)
  qed
qed simp

lemma dec_members_field:
  assumes "distinct (map fst kvs)" and "find_field fs f = Some d"
    and "\<And>v x. g (fst (d v x)) = h (g v) x"
    and "\<forall>k \<in> fst ` set kvs. k \<noteq> f \<longrightarrow> (\<forall>d'. find_field fs k = Some d' \<longrightarrow> (\<forall>v x. g (fst (d' v x)) = g v))"
  shows "g (fst (dec_members fs v kvs)) = (case obj_get f kvs of None \<Rightarrow> g v | Some x \<Rightarrow> h (g v) x)"
  using assms(1,4)
proof (induction kvs arbitrary: v)
  case Nil
  then show ?case by (simp add: obj_get_def)
next
  case (Cons kx kvs)
  obtain k x where kx: "kx = (k, x)" by (cases kx)
  show ?case
  proof (cases "k = f")
    case True
    then have nf: "f \<notin> fst ` set kvs" using Cons.prems kx by auto
    have "g (fst (dec_members fs (fst (d v x)) kvs)) = g (fst (d v x))"
      using Cons.prems nf kx by (intro dec_members_other) force
    then show ?thesis using True kx nf assms(2,3) by (simp add: obj_get_Cons case_prod_unfold Let_def)
  next
    case False
    then show ?thesis
      using Cons kx by (cases "find_field fs k") (auto simp: obj_get_Cons_other case_prod_unfold Let_def split: option.splits)
  qed
qed

end
