(* ===== verification/Llm_Types.thy ===== *)
theory Llm_Types
  imports Go_Json
begin

text \<open>
  The provider-neutral message vocabulary of \<open>llm/types.go\<close>: content blocks, message
  sources, messages, call configurations and tool schemas, with the wire decoders and encoders
  their struct tags describe.
\<close>

section \<open>Content blocks\<close>

definition BlockText :: string where "BlockText = ''text''"
definition BlockToolCall :: string where "BlockToolCall = ''tool-call''"
definition BlockToolResult :: string where "BlockToolResult = ''tool-result''"

text \<open>The struct is recursive through \<open>Content\<close>, so it is a datatype with the fields as
  selectors; \<open>None\<close> for \<open>Content\<close> is the nil slice.\<close>

datatype content_block =
  ContentBlock
    (cbType: string)
    (cbText: string)
    (cbAttachment: json)
    (cbID: string)
    (cbName: string)
    (cbArguments: string)
    (cbToolCallID: string)
    (cbContent: "content_block list option")
    (cbIsError: bool)

definition zero_block :: content_block where
  "zero_block = ContentBlock [] [] JNull [] [] [] [] None False"

fun setContent :: "content_block list option \<Rightarrow> content_block \<Rightarrow> content_block" where
  "setContent c (ContentBlock ty tx att i n ar tc _ e) = ContentBlock ty tx att i n ar tc c e"

lemma setContent_sel [simp]:
  "cbType (setContent c b) = cbType b" "cbToolCallID (setContent c b) = cbToolCallID b"
  "cbContent (setContent c b) = c"
  by (cases b; simp)+

text \<open>The members other than \<open>content\<close>.\<close>

definition dec_block_member :: "string \<Rightarrow> content_block decoder" where
  "dec_block_member k b j =
     (case b of ContentBlock ty tx att i n ar tc c e \<Rightarrow>
      (let f = foldName k in
       if f = foldName ''type'' then (let (x, ok) = dec_string ty j in (ContentBlock x tx att i n ar tc c e, ok))
       else if f = foldName ''text'' then (let (x, ok) = dec_string tx j in (ContentBlock ty x att i n ar tc c e, ok))
       else if f = foldName ''attachment'' then (let (x, ok) = dec_any att j in (ContentBlock ty tx x i n ar tc c e, ok))
       else if f = foldName ''id'' then (let (x, ok) = dec_string i j in (ContentBlock ty tx att x n ar tc c e, ok))
       else if f = foldName ''name'' then (let (x, ok) = dec_string n j in (ContentBlock ty tx att i x ar tc c e, ok))
       else if f = foldName ''arguments'' then (let (x, ok) = dec_string ar j in (ContentBlock ty tx att i n x tc c e, ok))
       else if f = foldName ''toolCallId'' then (let (x, ok) = dec_string tc j in (ContentBlock ty tx att i n ar x c e, ok))
       else if f = foldName ''isError'' then (let (x, ok) = dec_bool e j in (ContentBlock ty tx att i n ar tc c x, ok))
       else (b, True)))"

function dec_block :: "content_block \<Rightarrow> json \<Rightarrow> content_block \<times> bool"
  and dec_block_list :: "json list \<Rightarrow> content_block list \<times> bool"
  and dec_block_members :: "content_block \<Rightarrow> (string \<times> json) list \<Rightarrow> content_block \<times> bool"
where
  "dec_block b j =
     (case j of JNull \<Rightarrow> (b, True) | JObj kvs \<Rightarrow> dec_block_members b kvs | _ \<Rightarrow> (b, False))"
| "dec_block_list [] = ([], True)"
| "dec_block_list (j # js) =
     (let (x, ok) = dec_block zero_block j; (xs, ok') = dec_block_list js in (x # xs, ok \<and> ok'))"
| "dec_block_members b [] = (b, True)"
| "dec_block_members b ((k, x) # kvs) =
     (let (b', ok) =
            (if foldName k = foldName ''content'' then
               (case x of
                  JNull \<Rightarrow> (setContent None b, True)
                | JArr js \<Rightarrow> (let (cs, ok) = dec_block_list js in (setContent (Some cs) b, ok))
                | _ \<Rightarrow> (b, False))
             else dec_block_member k b x);
          (b'', ok') = dec_block_members b' kvs
      in (b'', ok \<and> ok'))"
  by pat_completeness auto
termination
  by (relation "measure (\<lambda>s. case s of Inl (b, j) \<Rightarrow> 2 * size j
        | Inr (Inl js) \<Rightarrow> 2 * size_list size js + 1
        | Inr (Inr (b, kvs)) \<Rightarrow> 2 * size_list (size_prod (\<lambda>_. 0) size) kvs + 1)") auto

fun enc_block :: "content_block \<Rightarrow> json" where
  "enc_block (ContentBlock ty tx att i n ar tc c e) =
     JObj (mem ''type'' (JStr ty) @ mem_str ''text'' tx
       @ (if att = JNull then [] else mem ''attachment'' (norm_any att))
       @ mem_str ''id'' i @ mem_str ''name'' n @ mem_str ''arguments'' ar
       @ mem_str ''toolCallId'' tc
       @ (case c of None \<Rightarrow> []
          | Some bs \<Rightarrow> if bs = [] then [] else [(''content'', JArr (map enc_block bs))])
       @ mem_bool ''isError'' e)"

section \<open>Message sources\<close>

definition SourceUser :: string where "SourceUser = ''user''"
definition SourceModel :: string where "SourceModel = ''model''"
definition SourceTool :: string where "SourceTool = ''tool''"

record context_section =
  csName :: string
  csText :: string

record instruction_change =
  icAction :: string
  icScope :: string
  icPath :: string
  icDigest :: string

record catalog_entry =
  ceName :: string
  ceDescription :: string

record session_reference_entry =
  reSessionID :: string
  reLabel :: string
  reCapturedThroughSeq :: "int option"
  reCompacted :: bool
  reOriginalMessages :: int
  reRetainedMessages :: int
  reOmittedMessages :: int
  reOmittedBytes :: int
  reTruncated :: bool
  reInputIndex :: int

record message_source =
  srcKind :: string
  srcPlugin :: string
  srcProvider :: string
  srcModel :: string
  srcReplayState :: raw
  srcCallID :: string
  srcRPCID :: string
  srcClientTimeZone :: string
  srcWebhookSource :: string
  srcDeliveryID :: string
  srcRuleID :: string
  srcForm :: string
  srcSections :: "context_section list option"
  srcSummary :: string
  srcSenderSessionID :: string
  srcReferenceVersion :: int
  srcReferences :: "session_reference_entry list option"
  srcCatalogUpdate :: bool
  srcCatalogEntries :: "catalog_entry list option"
  srcGoalID :: string
  srcGoalRevision :: int
  srcGoalRound :: int
  srcBaseline :: bool
  srcBaselineIdentity :: string
  srcChanges :: "instruction_change list option"

definition zero_section :: context_section where
  "zero_section = \<lparr>csName = [], csText = []\<rparr>"

definition zero_change :: instruction_change where
  "zero_change = \<lparr>icAction = [], icScope = [], icPath = [], icDigest = []\<rparr>"

definition zero_entry :: catalog_entry where
  "zero_entry = \<lparr>ceName = [], ceDescription = []\<rparr>"

definition zero_reference :: session_reference_entry where
  "zero_reference = \<lparr>reSessionID = [], reLabel = [], reCapturedThroughSeq = None,
     reCompacted = False, reOriginalMessages = 0, reRetainedMessages = 0, reOmittedMessages = 0,
     reOmittedBytes = 0, reTruncated = False, reInputIndex = 0\<rparr>"

definition zero_source :: message_source where
  "zero_source = \<lparr>srcKind = [], srcPlugin = [], srcProvider = [], srcModel = [],
     srcReplayState = None, srcCallID = [], srcRPCID = [], srcClientTimeZone = [],
     srcWebhookSource = [], srcDeliveryID = [], srcRuleID = [], srcForm = [],
     srcSections = None, srcSummary = [], srcSenderSessionID = [], srcReferenceVersion = 0,
     srcReferences = None, srcCatalogUpdate = False, srcCatalogEntries = None, srcGoalID = [],
     srcGoalRevision = 0, srcGoalRound = 0, srcBaseline = False, srcBaselineIdentity = [],
     srcChanges = None\<rparr>"

definition dec_section :: "context_section decoder" where
  "dec_section = dec_struct
     [(''name'', fld csName csName_update dec_string), (''text'', fld csText csText_update dec_string)]"

definition dec_change :: "instruction_change decoder" where
  "dec_change = dec_struct
     [(''action'', fld icAction icAction_update dec_string),
      (''scope'', fld icScope icScope_update dec_string),
      (''path'', fld icPath icPath_update dec_string),
      (''digest'', fld icDigest icDigest_update dec_string)]"

definition dec_entry :: "catalog_entry decoder" where
  "dec_entry = dec_struct
     [(''name'', fld ceName ceName_update dec_string),
      (''description'', fld ceDescription ceDescription_update dec_string)]"

definition dec_reference :: "session_reference_entry decoder" where
  "dec_reference = dec_struct
     [(''sessionId'', fld reSessionID reSessionID_update dec_string),
      (''label'', fld reLabel reLabel_update dec_string),
      (''capturedThroughSeq'', fld reCapturedThroughSeq reCapturedThroughSeq_update (dec_ptr 0 dec_int64)),
      (''compacted'', fld reCompacted reCompacted_update dec_bool),
      (''originalMessages'', fld reOriginalMessages reOriginalMessages_update dec_int64),
      (''retainedMessages'', fld reRetainedMessages reRetainedMessages_update dec_int64),
      (''omittedMessages'', fld reOmittedMessages reOmittedMessages_update dec_int64),
      (''omittedBytes'', fld reOmittedBytes reOmittedBytes_update dec_int64),
      (''truncated'', fld reTruncated reTruncated_update dec_bool),
      (''inputIndex'', fld reInputIndex reInputIndex_update dec_int64)]"

definition source_fields :: "(string \<times> message_source decoder) list" where
  "source_fields =
     [(''kind'', fld srcKind srcKind_update dec_string),
      (''plugin'', fld srcPlugin srcPlugin_update dec_string),
      (''provider'', fld srcProvider srcProvider_update dec_string),
      (''model'', fld srcModel srcModel_update dec_string),
      (''replayState'', fld srcReplayState srcReplayState_update dec_raw),
      (''callId'', fld srcCallID srcCallID_update dec_string),
      (''rpcId'', fld srcRPCID srcRPCID_update dec_string),
      (''clientTimeZone'', fld srcClientTimeZone srcClientTimeZone_update dec_string),
      (''source'', fld srcWebhookSource srcWebhookSource_update dec_string),
      (''deliveryId'', fld srcDeliveryID srcDeliveryID_update dec_string),
      (''ruleId'', fld srcRuleID srcRuleID_update dec_string),
      (''form'', fld srcForm srcForm_update dec_string),
      (''sections'', fld srcSections srcSections_update (dec_slice zero_section dec_section)),
      (''summary'', fld srcSummary srcSummary_update dec_string),
      (''senderSessionId'', fld srcSenderSessionID srcSenderSessionID_update dec_string),
      (''version'', fld srcReferenceVersion srcReferenceVersion_update dec_int64),
      (''references'', fld srcReferences srcReferences_update (dec_slice zero_reference dec_reference)),
      (''catalogUpdate'', fld srcCatalogUpdate srcCatalogUpdate_update dec_bool),
      (''catalogEntries'', fld srcCatalogEntries srcCatalogEntries_update (dec_slice zero_entry dec_entry)),
      (''goalId'', fld srcGoalID srcGoalID_update dec_string),
      (''revision'', fld srcGoalRevision srcGoalRevision_update dec_int64),
      (''round'', fld srcGoalRound srcGoalRound_update dec_int64),
      (''baseline'', fld srcBaseline srcBaseline_update dec_bool),
      (''baselineIdentity'', fld srcBaselineIdentity srcBaselineIdentity_update dec_string),
      (''changes'', fld srcChanges srcChanges_update (dec_slice zero_change dec_change))]"

definition dec_source :: "message_source decoder" where
  "dec_source = dec_struct source_fields"

definition enc_section :: "context_section \<Rightarrow> json" where
  "enc_section x = JObj (mem ''name'' (JStr (csName x)) @ mem ''text'' (JStr (csText x)))"

definition enc_change :: "instruction_change \<Rightarrow> json" where
  "enc_change x = JObj (mem ''action'' (JStr (icAction x)) @ mem ''scope'' (JStr (icScope x))
     @ mem ''path'' (JStr (icPath x)) @ mem_str ''digest'' (icDigest x))"

definition enc_entry :: "catalog_entry \<Rightarrow> json" where
  "enc_entry x = JObj (mem ''name'' (JStr (ceName x)) @ mem ''description'' (JStr (ceDescription x)))"

definition enc_reference :: "session_reference_entry \<Rightarrow> json" where
  "enc_reference x = JObj (mem ''sessionId'' (JStr (reSessionID x)) @ mem ''label'' (JStr (reLabel x))
     @ mem ''capturedThroughSeq'' (case reCapturedThroughSeq x of None \<Rightarrow> JNull | Some n \<Rightarrow> JInt n)
     @ mem ''compacted'' (JBool (reCompacted x))
     @ mem ''originalMessages'' (JInt (reOriginalMessages x))
     @ mem ''retainedMessages'' (JInt (reRetainedMessages x))
     @ mem ''omittedMessages'' (JInt (reOmittedMessages x))
     @ mem ''omittedBytes'' (JInt (reOmittedBytes x))
     @ mem ''truncated'' (JBool (reTruncated x))
     @ mem ''inputIndex'' (JInt (reInputIndex x)))"

definition enc_source :: "message_source \<Rightarrow> json" where
  "enc_source x = JObj (mem ''kind'' (JStr (srcKind x)) @ mem_str ''plugin'' (srcPlugin x)
     @ mem_str ''provider'' (srcProvider x) @ mem_str ''model'' (srcModel x)
     @ mem_opt ''replayState'' (srcReplayState x) @ mem_str ''callId'' (srcCallID x)
     @ mem_str ''rpcId'' (srcRPCID x) @ mem_str ''clientTimeZone'' (srcClientTimeZone x)
     @ mem_str ''source'' (srcWebhookSource x) @ mem_str ''deliveryId'' (srcDeliveryID x)
     @ mem_str ''ruleId'' (srcRuleID x) @ mem_str ''form'' (srcForm x)
     @ mem_slice ''sections'' enc_section (srcSections x) @ mem_str ''summary'' (srcSummary x)
     @ mem_str ''senderSessionId'' (srcSenderSessionID x)
     @ mem_int ''version'' (srcReferenceVersion x)
     @ mem_slice ''references'' enc_reference (srcReferences x)
     @ mem_bool ''catalogUpdate'' (srcCatalogUpdate x)
     @ mem_slice ''catalogEntries'' enc_entry (srcCatalogEntries x)
     @ mem_str ''goalId'' (srcGoalID x) @ mem_int ''revision'' (srcGoalRevision x)
     @ mem_int ''round'' (srcGoalRound x) @ mem_bool ''baseline'' (srcBaseline x)
     @ mem_str ''baselineIdentity'' (srcBaselineIdentity x)
     @ mem_slice ''changes'' enc_change (srcChanges x))"

section \<open>Messages\<close>

definition RoleUser :: string where "RoleUser = ''user''"
definition RoleAssistant :: string where "RoleAssistant = ''assistant''"

record message =
  msgID :: string
  msgRole :: string
  msgContent :: "content_block list option"
  msgSource :: message_source

definition zero_message :: message where
  "zero_message = \<lparr>msgID = [], msgRole = [], msgContent = None, msgSource = zero_source\<rparr>"

definition dec_message :: "message decoder" where
  "dec_message = dec_struct
     [(''id'', fld msgID msgID_update dec_string),
      (''role'', fld msgRole msgRole_update dec_string),
      (''content'', fld msgContent msgContent_update (dec_slice zero_block dec_block)),
      (''source'', fld msgSource msgSource_update dec_source)]"

definition enc_message :: "message \<Rightarrow> json" where
  "enc_message m = JObj (mem ''id'' (JStr (msgID m)) @ mem ''role'' (JStr (msgRole m))
     @ mem ''content'' (enc_slice enc_block (msgContent m)) @ mem ''source'' (enc_source (msgSource m)))"

text \<open>\<open>NewMessageID\<close> draws a random identity: it is the first argument.\<close>

definition NewToolResultMessage ::
    "string \<Rightarrow> string \<Rightarrow> content_block list option \<Rightarrow> bool \<Rightarrow> message" where
  "NewToolResultMessage newID callID content isError =
     \<lparr>msgID = newID, msgRole = RoleUser,
      msgContent = Some [ContentBlock BlockToolResult [] JNull [] [] [] callID content isError],
      msgSource = zero_source\<lparr>srcKind := SourceTool, srcCallID := callID\<rparr>\<rparr>"

definition NewUserMessage :: "string \<Rightarrow> content_block list option \<Rightarrow> message_source \<Rightarrow> message" where
  "NewUserMessage newID content source =
     \<lparr>msgID = newID, msgRole = RoleUser, msgContent = content,
      msgSource = (if srcKind source = [] then source\<lparr>srcKind := SourceUser\<rparr> else source)\<rparr>"

section \<open>Call configuration\<close>

record call_config =
  ccProvider :: string
  ccModel :: string
  ccReasoningEffort :: string
  ccTemperature :: "rat option"
  ccMaxTokens :: "int option"
  ccStop :: "string list option"

record adapter_defaults =
  adReasoningEffort :: bool
  adMaxTokens :: bool

record tool_schema =
  tsName :: string
  tsDescription :: string
  tsParameters :: "(string \<times> json) list option"

definition zero_config :: call_config where
  "zero_config = \<lparr>ccProvider = [], ccModel = [], ccReasoningEffort = [],
     ccTemperature = None, ccMaxTokens = None, ccStop = None\<rparr>"

definition dec_config :: "call_config decoder" where
  "dec_config = dec_struct
     [(''provider'', fld ccProvider ccProvider_update dec_string),
      (''model'', fld ccModel ccModel_update dec_string),
      (''reasoningEffort'', fld ccReasoningEffort ccReasoningEffort_update dec_string),
      (''temperature'', fld ccTemperature ccTemperature_update (dec_ptr 0 dec_float64)),
      (''maxTokens'', fld ccMaxTokens ccMaxTokens_update (dec_ptr 0 dec_int64)),
      (''stop'', fld ccStop ccStop_update (dec_slice [] dec_string))]"

definition zero_defaults :: adapter_defaults where
  "zero_defaults = \<lparr>adReasoningEffort = False, adMaxTokens = False\<rparr>"

definition dec_defaults :: "adapter_defaults decoder" where
  "dec_defaults = dec_struct
     [(''reasoningEffort'', fld adReasoningEffort adReasoningEffort_update dec_bool),
      (''maxTokens'', fld adMaxTokens adMaxTokens_update dec_bool)]"

definition zero_schema :: tool_schema where
  "zero_schema = \<lparr>tsName = [], tsDescription = [], tsParameters = None\<rparr>"

text \<open>A \<open>map[string]any\<close> destination keeps its members and gets the new ones stored over them.\<close>

definition dec_map :: "(string \<times> json) list option decoder" where
  "dec_map v j =
     (case j of
        JNull \<Rightarrow> (None, True)
      | JObj kvs \<Rightarrow> (Some ((case v of None \<Rightarrow> [] | Some old \<Rightarrow> old) @ kvs), True)
      | _ \<Rightarrow> (v, False))"

definition dec_schema :: "tool_schema decoder" where
  "dec_schema = dec_struct
     [(''name'', fld tsName tsName_update dec_string),
      (''description'', fld tsDescription tsDescription_update dec_string),
      (''parameters'', fld tsParameters tsParameters_update dec_map)]"

definition enc_schema :: "tool_schema \<Rightarrow> json" where
  "enc_schema t = JObj (mem ''name'' (JStr (tsName t)) @ mem ''description'' (JStr (tsDescription t))
     @ mem ''parameters'' (case tsParameters t of None \<Rightarrow> JNull | Some kvs \<Rightarrow> norm_any (JObj kvs)))"

text \<open>
  \<open>CallConfigEquals\<close>: the loop ranges over the indices of the first \<open>Stop\<close> list and reads the
  second one at each of them, so a shorter second list is an index out of range.
\<close>

fun stopEquals :: "string list \<Rightarrow> string list \<Rightarrow> ('e, bool) outcome" where
  "stopEquals [] bs = Ok True"
| "stopEquals (a # as) [] = Panic"
| "stopEquals (a # as) (b # bs) = (if a \<noteq> b then Ok False else stopEquals as bs)"

definition CallConfigEquals :: "call_config \<Rightarrow> call_config \<Rightarrow> ('e, bool) outcome" where
  "CallConfigEquals a b =
     (if ccProvider a \<noteq> ccProvider b \<or> ccModel a \<noteq> ccModel b
         \<or> ccReasoningEffort a \<noteq> ccReasoningEffort b
         \<or> ccTemperature a \<noteq> ccTemperature b \<or> ccMaxTokens a \<noteq> ccMaxTokens b
      then Ok False
      else if (ccStop a = None) \<noteq> (ccStop b = None) then Ok False
      else (case (ccStop a, ccStop b) of (Some xs, Some ys) \<Rightarrow> stopEquals xs ys | _ \<Rightarrow> Ok True))"

end
