(* ===== verification/Session_Types.thy ===== *)
theory Session_Types
  imports Llm_Types
begin

text \<open>
  \<open>session/types.go\<close>: the branded positions, the header, the event vocabulary and its
  registration, the surface operation and the event envelope with their wire codecs, and the
  typed payloads of the known events.
\<close>

section \<open>Errors of the session package\<close>

text \<open>One constructor per error message, grouped by the file that raises it; the arguments are
  the values the message is formatted with.\<close>

datatype wire_error =
    NegativeSeq int | NegativeOffset int
  | EventTypeKnown string
  | UnknownOpKind string | OpNotObject | UnknownOp string
  | EnvelopeMismatch | IgnorableFalse string int
  | PayloadType int string string | PayloadShape int string

datatype surface_error =
    NotEligibleOp string | NotEligibleSources string | MissingOp string | InvalidOp string
  | EmptySources | NegativeSource string | DuplicateSource | NonEarlierSource int
  | MissingShadowed "int list"
  | StartNotFound int | EndNotFound int | StartAfterEnd int int int int
  | RewriteCount | RewriteTarget | RewriteOriginal | RewriteReplacement | RewriteOther
  | NotContiguous int int

datatype header_error =
    HeaderVersion int | HeaderId string string | HeaderCreatedAt int | HeaderCwd string
  | HeaderNegativeInherited int | HeaderUnseededInherited int | HeaderOrigin string
  | HeaderDepth int

datatype shape_error =
    SeedMissingType int | SeedNegative int string | SeedData int string
  | LegacyHeaderDelta | LegacyFallback
  | UserShape | AssistantShape | ToolResultShape | ToolResultBlocks | ToolResultIds
  | ShapePayload wire_error

datatype session_error =
    WireError wire_error
  | SurfaceError surface_error
  | HeaderError header_error
  | ShapeError shape_error
  | SeededNeedsSeed string | UnseededInherited string | InheritedExceeds string int int
  | SeedNotContiguous int int | InvalidSeed int surface_error
  | NotSerializable string

datatype store_error =
    SessionExists string | SessionNotFound string | SessionNotLive string
  | NotEntered string | AlreadyAnnounced string | Vetoed string
  | InvalidBoundary int string | OpenTurn int string int
  | CreateFailed session_error

section \<open>Positions\<close>

definition SESSION_FORMAT_VERSION :: int where "SESSION_FORMAT_VERSION = 2"

definition NewSessionSeq :: "int \<Rightarrow> (wire_error, int) outcome" where
  "NewSessionSeq value = (if value < 0 then Err (NegativeSeq value) else Ok value)"

definition NewSessionLogOffset :: "int \<Rightarrow> (wire_error, int) outcome" where
  "NewSessionLogOffset value = (if value < 0 then Err (NegativeOffset value) else Ok value)"

record session_header =
  hVersion :: int
  hID :: string
  hCreatedAt :: int
  hCWD :: string
  hParentSession :: string
  hIsSeeded :: bool
  hInheritedEventCount :: int
  hOrigin :: string
  hDelegationDepth :: "int option"
  hAgentPreset :: string

definition zero_header :: session_header where
  "zero_header = \<lparr>hVersion = 0, hID = [], hCreatedAt = 0, hCWD = [], hParentSession = [],
     hIsSeeded = False, hInheritedEventCount = 0, hOrigin = [], hDelegationDepth = None,
     hAgentPreset = []\<rparr>"

section \<open>Event vocabulary\<close>

definition EventTurnStart :: string where "EventTurnStart = ''turn/start''"
definition EventTurnEnd :: string where "EventTurnEnd = ''turn/end''"
definition EventStepStart :: string where "EventStepStart = ''step/start''"
definition EventStepEnd :: string where "EventStepEnd = ''step/end''"
definition EventUserMessage :: string where "EventUserMessage = ''user/message''"
definition EventAssistantChunk :: string where "EventAssistantChunk = ''assistant/chunk''"
definition EventAssistantMsg :: string where "EventAssistantMsg = ''assistant/message''"
definition EventAssistantAttempt :: string where "EventAssistantAttempt = ''assistant/attempt''"
definition EventToolCall :: string where "EventToolCall = ''tool/call''"
definition EventToolResult :: string where "EventToolResult = ''tool/result''"
definition EventRequestHeader :: string where "EventRequestHeader = ''request/header''"
definition EventRequestCtx :: string where "EventRequestCtx = ''request/context''"
definition EventEndSeed :: string where "EventEndSeed = ''session/end-seed''"

lemmas event_type_defs =
  EventTurnStart_def EventTurnEnd_def EventStepStart_def EventStepEnd_def EventUserMessage_def
  EventAssistantChunk_def EventAssistantMsg_def EventAssistantAttempt_def EventToolCall_def
  EventToolResult_def EventRequestHeader_def EventRequestCtx_def EventEndSeed_def

definition SurfaceEventTypes :: "string list" where
  "SurfaceEventTypes = [EventUserMessage, EventAssistantMsg, EventToolResult]"

definition IsSurfaceEventType :: "string \<Rightarrow> bool" where
  "IsSurfaceEventType eventType = (eventType \<in> set SurfaceEventTypes)"

text \<open>The registered vocabulary is package state: a list of names.\<close>

definition knownEventTypes :: "string list" where
  "knownEventTypes =
     [EventTurnStart, EventTurnEnd, EventStepStart, EventStepEnd, EventUserMessage,
      EventAssistantChunk, EventAssistantMsg, EventAssistantAttempt, EventToolCall,
      EventToolResult, EventRequestHeader, EventRequestCtx, EventEndSeed]"

definition KnownEventType :: "string list \<Rightarrow> string \<Rightarrow> bool" where
  "KnownEventType known eventType = (eventType \<in> set known)"

definition RegisterEventType :: "string list \<Rightarrow> string \<Rightarrow> (wire_error, string list) outcome" where
  "RegisterEventType known eventType =
     (if KnownEventType known eventType then Err (EventTypeKnown eventType)
      else Ok (eventType # known))"

definition EnsureEventTypes :: "string list \<Rightarrow> string list \<Rightarrow> string list" where
  "EnsureEventTypes known eventTypes = foldl (\<lambda>ks t. List.insert t ks) known eventTypes"

lemma KnownEventType_Ensure:
  "KnownEventType (EnsureEventTypes known ts) t \<longleftrightarrow> KnownEventType known t \<or> t \<in> set ts"
  by (induction ts arbitrary: known) (auto simp: EnsureEventTypes_def KnownEventType_def)

section \<open>Surface operations\<close>

definition SurfaceAppend :: string where "SurfaceAppend = ''append''"
definition SurfaceReplace :: string where "SurfaceReplace = ''replace''"

record surface_op =
  opKind :: string
  opStart :: int
  opEnd :: int

definition append_op :: surface_op where
  "append_op = \<lparr>opKind = SurfaceAppend, opStart = 0, opEnd = 0\<rparr>"

definition zero_op :: surface_op where
  "zero_op = \<lparr>opKind = [], opStart = 0, opEnd = 0\<rparr>"

definition MarshalSurfaceOp :: "surface_op \<Rightarrow> (wire_error, json) outcome" where
  "MarshalSurfaceOp o' =
     (if opKind o' = SurfaceAppend then Ok (JStr ''append'')
      else if opKind o' = SurfaceReplace then
        Ok (JObj (mem ''op'' (JStr SurfaceReplace) @ mem ''start'' (JInt (opStart o'))
                  @ mem ''end'' (JInt (opEnd o'))))
      else Err (UnknownOpKind (opKind o')))"

text \<open>The wire struct of the replace form has the fields of the operation itself.\<close>

definition dec_op_wire :: "surface_op decoder" where
  "dec_op_wire = dec_struct
     [(''op'', fld opKind opKind_update dec_string),
      (''start'', fld opStart opStart_update dec_int64),
      (''end'', fld opEnd opEnd_update dec_int64)]"

definition UnmarshalSurfaceOp :: "json \<Rightarrow> (wire_error, surface_op) outcome" where
  "UnmarshalSurfaceOp j =
     (if j = JStr ''append'' then Ok append_op
      else let (decoded, ok) = dec_op_wire zero_op j in
        if \<not> ok then Err OpNotObject
        else if opKind decoded \<noteq> SurfaceReplace then Err (UnknownOp (opKind decoded))
        else Ok decoded)"

section \<open>Event envelope\<close>

record event =
  evType :: string
  evSeq :: int
  evTime :: int
  evData :: raw
  evSourceEventSeqs :: "int list option"
  evSurfaceOp :: "surface_op option"
  evIgnorable :: bool

definition zero_event :: event where
  "zero_event = \<lparr>evType = [], evSeq = 0, evTime = 0, evData = None, evSourceEventSeqs = None,
     evSurfaceOp = None, evIgnorable = False\<rparr>"

definition MarshalEvent :: "event \<Rightarrow> (wire_error, json) outcome" where
  "MarshalEvent e =
     andThen
       (case evSurfaceOp e of
          None \<Rightarrow> Ok []
        | Some o' \<Rightarrow> andThen (MarshalSurfaceOp o') (\<lambda>j. Ok (mem ''surfaceOp'' j)))
       (\<lambda>opMember. Ok (JObj
          (mem ''type'' (JStr (evType e)) @ mem ''seq'' (JInt (evSeq e)) @ mem ''time'' (JInt (evTime e))
           @ mem ''data'' (case evData e of None \<Rightarrow> JNull | Some j \<Rightarrow> j)
           @ opMember
           @ (case evSourceEventSeqs e of
                None \<Rightarrow> [] | Some xs \<Rightarrow> mem ''sourceEventSeqs'' (JArr (map JInt xs)))
           @ mem_bool ''ignorable'' (evIgnorable e))))"

text \<open>The decoding struct: \<open>ignorable\<close> is a pointer there, and a present operation runs its own
  decoder.\<close>

record event_wire =
  wType :: string
  wSeq :: int
  wTime :: int
  wData :: raw
  wSurfaceOp :: "surface_op option"
  wSourceEventSeqs :: "int list option option"
  wIgnorable :: "bool option"

definition dec_surface_op :: "surface_op decoder" where
  "dec_surface_op v j =
     (case UnmarshalSurfaceOp j of Ok o' \<Rightarrow> (o', True) | _ \<Rightarrow> (v, False))"

definition dec_event_wire :: "event_wire decoder" where
  "dec_event_wire = dec_struct
     [(''type'', fld wType wType_update dec_string),
      (''seq'', fld wSeq wSeq_update dec_int64),
      (''time'', fld wTime wTime_update dec_int64),
      (''data'', fld wData wData_update dec_raw),
      (''surfaceOp'', fld wSurfaceOp wSurfaceOp_update (dec_ptr zero_op dec_surface_op)),
      (''sourceEventSeqs'', fld wSourceEventSeqs wSourceEventSeqs_update
          (dec_ptr None (dec_slice 0 dec_int64))),
      (''ignorable'', fld wIgnorable wIgnorable_update (dec_ptr False dec_bool))]"

definition zero_wire :: event_wire where
  "zero_wire = \<lparr>wType = [], wSeq = 0, wTime = 0, wData = None, wSurfaceOp = None,
     wSourceEventSeqs = None, wIgnorable = None\<rparr>"

definition UnmarshalEvent :: "json \<Rightarrow> (wire_error, event) outcome" where
  "UnmarshalEvent j =
     (let (wire, ok) = dec_event_wire zero_wire j in
      if \<not> ok then Err EnvelopeMismatch
      else if wIgnorable wire = Some False then Err (IgnorableFalse (wType wire) (wSeq wire))
      else Ok \<lparr>evType = wType wire, evSeq = wSeq wire, evTime = wTime wire, evData = wData wire,
               evSourceEventSeqs =
                 (case wSourceEventSeqs wire of
                    None \<Rightarrow> None
                  | Some None \<Rightarrow> Some []
                  | Some (Some xs) \<Rightarrow> Some xs),
               evSurfaceOp = wSurfaceOp wire, evIgnorable = (wIgnorable wire \<noteq> None)\<rparr>)"

section \<open>Payloads\<close>

record turn_data =
  tdTurn :: int

record step_data =
  sdTurn :: int
  sdStep :: int

record cancel_cause =
  tcKind :: string
  tcReason :: string

record llm_failure =
  lfMessage :: string
  lfCode :: string
  lfStatus :: int
  lfProviderRetryAfterMs :: int
  lfRequestID :: string

record turn_end_reason =
  teKind :: string
  teReason :: "cancel_cause option"
  teError :: "llm_failure option"

record turn_end_data =
  edTurn :: int
  edReason :: turn_end_reason

record token_usage =
  tuInputTokens :: int
  tuOutputTokens :: int
  tuTotalTokens :: "int option"
  tuCacheReadTokens :: "int option"
  tuCacheWriteTokens :: "int option"
  tuReasoningTokens :: "int option"

record assistant_message_data =
  amTurn :: int
  amStep :: int
  amMessage :: message
  amUsage :: "token_usage option"
  amInterrupted :: bool
  amStream :: raw

record tool_call_data =
  caTurn :: int
  caStep :: int
  caCallID :: string
  caName :: string
  caArguments :: string

record tool_result_error =
  erName :: string
  erCode :: string

record tool_result_data =
  trTurn :: int
  trStep :: int
  trMessage :: message
  trError :: "tool_result_error option"
  trMeta :: raw

definition TurnEndInterrupted :: string where "TurnEndInterrupted = ''interrupted''"

definition dec_turn_data :: "turn_data decoder" where
  "dec_turn_data = dec_struct [(''turn'', fld tdTurn tdTurn_update dec_int64)]"

definition dec_step_data :: "step_data decoder" where
  "dec_step_data = dec_struct
     [(''turn'', fld sdTurn sdTurn_update dec_int64), (''step'', fld sdStep sdStep_update dec_int64)]"

definition zero_usage :: token_usage where
  "zero_usage = \<lparr>tuInputTokens = 0, tuOutputTokens = 0, tuTotalTokens = None,
     tuCacheReadTokens = None, tuCacheWriteTokens = None, tuReasoningTokens = None\<rparr>"

definition dec_usage :: "token_usage decoder" where
  "dec_usage = dec_struct
     [(''inputTokens'', fld tuInputTokens tuInputTokens_update dec_int64),
      (''outputTokens'', fld tuOutputTokens tuOutputTokens_update dec_int64),
      (''totalTokens'', fld tuTotalTokens tuTotalTokens_update (dec_ptr 0 dec_int64)),
      (''cacheReadTokens'', fld tuCacheReadTokens tuCacheReadTokens_update (dec_ptr 0 dec_int64)),
      (''cacheWriteTokens'', fld tuCacheWriteTokens tuCacheWriteTokens_update (dec_ptr 0 dec_int64)),
      (''reasoningTokens'', fld tuReasoningTokens tuReasoningTokens_update (dec_ptr 0 dec_int64))]"

definition zero_assistant :: assistant_message_data where
  "zero_assistant = \<lparr>amTurn = 0, amStep = 0, amMessage = zero_message, amUsage = None,
     amInterrupted = False, amStream = None\<rparr>"

definition dec_assistant :: "assistant_message_data decoder" where
  "dec_assistant = dec_struct
     [(''turn'', fld amTurn amTurn_update dec_int64),
      (''step'', fld amStep amStep_update dec_int64),
      (''message'', fld amMessage amMessage_update dec_message),
      (''usage'', fld amUsage amUsage_update (dec_ptr zero_usage dec_usage)),
      (''interrupted'', fld amInterrupted amInterrupted_update dec_bool),
      (''stream'', fld amStream amStream_update dec_raw)]"

definition zero_call :: tool_call_data where
  "zero_call = \<lparr>caTurn = 0, caStep = 0, caCallID = [], caName = [], caArguments = []\<rparr>"

definition dec_call :: "tool_call_data decoder" where
  "dec_call = dec_struct
     [(''turn'', fld caTurn caTurn_update dec_int64),
      (''step'', fld caStep caStep_update dec_int64),
      (''callId'', fld caCallID caCallID_update dec_string),
      (''name'', fld caName caName_update dec_string),
      (''arguments'', fld caArguments caArguments_update dec_string)]"

definition zero_result_error :: tool_result_error where
  "zero_result_error = \<lparr>erName = [], erCode = []\<rparr>"

definition dec_result_error :: "tool_result_error decoder" where
  "dec_result_error = dec_struct
     [(''name'', fld erName erName_update dec_string), (''code'', fld erCode erCode_update dec_string)]"

definition zero_result :: tool_result_data where
  "zero_result = \<lparr>trTurn = 0, trStep = 0, trMessage = zero_message, trError = None, trMeta = None\<rparr>"

definition dec_result :: "tool_result_data decoder" where
  "dec_result = dec_struct
     [(''turn'', fld trTurn trTurn_update dec_int64),
      (''step'', fld trStep trStep_update dec_int64),
      (''message'', fld trMessage trMessage_update dec_message),
      (''error'', fld trError trError_update (dec_ptr zero_result_error dec_result_error)),
      (''meta'', fld trMeta trMeta_update dec_raw)]"

definition enc_result_error :: "tool_result_error \<Rightarrow> json" where
  "enc_result_error x = JObj (mem ''name'' (JStr (erName x)) @ mem ''code'' (JStr (erCode x)))"

definition enc_result :: "tool_result_data \<Rightarrow> json" where
  "enc_result x = JObj (mem ''turn'' (JInt (trTurn x)) @ mem ''step'' (JInt (trStep x))
     @ mem ''message'' (enc_message (trMessage x))
     @ mem_opt ''error'' (map_option enc_result_error (trError x))
     @ mem_opt ''meta'' (trMeta x))"

definition enc_step_data :: "step_data \<Rightarrow> json" where
  "enc_step_data x = JObj (mem ''turn'' (JInt (sdTurn x)) @ mem ''step'' (JInt (sdStep x)))"

definition enc_failure :: "llm_failure \<Rightarrow> json" where
  "enc_failure x = JObj (mem ''message'' (JStr (lfMessage x)) @ mem ''code'' (JStr (lfCode x))
     @ mem_int ''status'' (lfStatus x) @ mem_int ''providerRetryAfterMs'' (lfProviderRetryAfterMs x)
     @ mem_str ''requestId'' (lfRequestID x))"

definition enc_turn_end_reason :: "turn_end_reason \<Rightarrow> json" where
  "enc_turn_end_reason x = JObj (mem ''kind'' (JStr (teKind x))
     @ mem_opt ''reason'' (map_option (\<lambda>c. JObj (mem ''kind'' (JStr (tcKind c))
                                            @ mem_str ''reason'' (tcReason c))) (teReason x))
     @ mem_opt ''error'' (map_option enc_failure (teError x)))"

definition enc_turn_end_data :: "turn_end_data \<Rightarrow> json" where
  "enc_turn_end_data x = JObj (mem ''turn'' (JInt (edTurn x))
     @ mem ''reason'' (enc_turn_end_reason (edReason x)))"

definition decodePayload :: "'a decoder \<Rightarrow> 'a \<Rightarrow> event \<Rightarrow> string \<Rightarrow> (wire_error, 'a) outcome" where
  "decodePayload d zero e want =
     (if evType e \<noteq> want then Err (PayloadType (evSeq e) (evType e) want)
      else case unmarshal_ok d zero (evData e) of
             None \<Rightarrow> Err (PayloadShape (evSeq e) (evType e))
           | Some v \<Rightarrow> Ok v)"

definition DecodeUserMessage :: "event \<Rightarrow> (wire_error, message) outcome" where
  "DecodeUserMessage e = decodePayload dec_message zero_message e EventUserMessage"

definition DecodeAssistantMessage :: "event \<Rightarrow> (wire_error, assistant_message_data) outcome" where
  "DecodeAssistantMessage e = decodePayload dec_assistant zero_assistant e EventAssistantMsg"

definition DecodeToolResult :: "event \<Rightarrow> (wire_error, tool_result_data) outcome" where
  "DecodeToolResult e = decodePayload dec_result zero_result e EventToolResult"

lemma decodePayload_not_Panic [simp]: "decodePayload d z e w \<noteq> Panic"
  by (simp add: decodePayload_def split: option.split)

section \<open>Round trips of the wire codecs\<close>

definition op_wf :: "surface_op \<Rightarrow> bool" where
  "op_wf o' \<longleftrightarrow> o' = append_op
     \<or> (opKind o' = SurfaceReplace \<and> in_i64 (opStart o') \<and> in_i64 (opEnd o'))"

lemma surface_op_roundtrip:
  assumes "op_wf o'"
  obtains j where "MarshalSurfaceOp o' = Ok j" "UnmarshalSurfaceOp j = Ok o'" "j \<noteq> JNull"
proof (cases "o' = append_op")
  case True
  then show ?thesis
    by (intro that [of "JStr ''append''"])
      (simp_all add: MarshalSurfaceOp_def UnmarshalSurfaceOp_def append_op_def)
next
  case False
  with assms have k: "opKind o' = SurfaceReplace" "in_i64 (opStart o')" "in_i64 (opEnd o')"
    by (auto simp: op_wf_def)
  then show ?thesis
    by (intro that [of "JObj [(''op'', JStr SurfaceReplace), (''start'', JInt (opStart o')),
             (''end'', JInt (opEnd o'))]"])
      (auto simp: MarshalSurfaceOp_def UnmarshalSurfaceOp_def dec_op_wire_def dec_defs
        find_field_def zero_op_def SurfaceReplace_def SurfaceAppend_def mem_def)
qed

definition event_wf :: "event \<Rightarrow> bool" where
  "event_wf e \<longleftrightarrow> in_i64 (evSeq e) \<and> in_i64 (evTime e) \<and> evData e \<noteq> None
     \<and> (case evSurfaceOp e of None \<Rightarrow> True | Some o' \<Rightarrow> op_wf o')
     \<and> (case evSourceEventSeqs e of None \<Rightarrow> True | Some xs \<Rightarrow> list_all in_i64 xs)"

lemma dec_int64_list:
  "list_all in_i64 xs \<Longrightarrow> dec_slice 0 dec_int64 v (JArr (map JInt xs)) = (Some xs, True)"
  by (induction xs) (auto simp: dec_defs)

text \<open>C38: Writing an event to the wire and reading it back gives the same event, with the
  difference between an absent and a present empty \<open>sourceEventSeqs\<close> kept, for every event whose
  integers are 64-bit, whose data is present and whose surface operation is one of the two legal
  ones.\<close>

theorem event_roundtrip:
  assumes "event_wf e"
  shows "andThen (MarshalEvent e) UnmarshalEvent = Ok e"
proof -
  have op: "\<exists>js. (case evSurfaceOp e of None \<Rightarrow> Ok []
        | Some o' \<Rightarrow> andThen (MarshalSurfaceOp o') (\<lambda>j. Ok (mem ''surfaceOp'' j))) = Ok js \<and>
        ((js = [] \<and> evSurfaceOp e = None) \<or> (\<exists>j o'. js = [(''surfaceOp'', j)] \<and> j \<noteq> JNull
            \<and> evSurfaceOp e = Some o' \<and> UnmarshalSurfaceOp j = Ok o'))"
  proof (cases "evSurfaceOp e")
    case (Some o')
    with assms have "op_wf o'" by (simp add: event_wf_def)
    with surface_op_roundtrip [of o'] Some show ?thesis by (fastforce simp: mem_def)
  qed simp
  show ?thesis
    using op assms
    by (cases "evSourceEventSeqs e"; cases e)
      (auto simp: MarshalEvent_def UnmarshalEvent_def event_wf_def mem_defs dec_event_wire_def
        dec_struct_def find_field_def zero_wire_def fld_def dec_string_def dec_int64_def
        dec_raw_def dec_ptr_def dec_int64_list dec_surface_op_def dec_bool_def)
qed
theorem event_roundtrip_witness:
  "andThen (MarshalEvent \<lparr>evType = EventAssistantMsg, evSeq = 4, evTime = 10, evData = Some (JObj []),
       evSourceEventSeqs = Some [], evSurfaceOp = Some \<lparr>opKind = SurfaceReplace, opStart = 1, opEnd = 3\<rparr>,
       evIgnorable = True\<rparr>) UnmarshalEvent
   = Ok \<lparr>evType = EventAssistantMsg, evSeq = 4, evTime = 10, evData = Some (JObj []),
       evSourceEventSeqs = Some [], evSurfaceOp = Some \<lparr>opKind = SurfaceReplace, opStart = 1, opEnd = 3\<rparr>,
       evIgnorable = True\<rparr>"
  by (rule event_roundtrip) (simp add: event_wf_def op_wf_def in_i64_def max_int64_def min_int64_def)

end
