(* ===== verification/Session_Surface.thy ===== *)
theory Session_Surface
  imports Session_Types "HOL-Library.Multiset"
begin

text \<open>
  \<open>session/surface.go\<close>: the ordered view of the events that produce model messages.  An event
  is checked and turned into a plan against the fold state, the plan is applied; the complete fold
  replays a whole log, the surface manager replays it incrementally and caches the plan of the
  event it validated last.  The lemmas give the invariant of the fold state, what the fold does
  with every surface event, and that the manager computes the complete fold.
\<close>

section \<open>Model\<close>

record surface_fold_replacement =
  rpSeq :: int
  rpStart :: int
  rpEnd :: int
  rpShadowedSeqs :: "int list"

record surface_fold_result =
  sfNodes :: "int list"
  sfReplacements :: "surface_fold_replacement list"

record surface_state =
  ssNodes :: "int list"
  ssReplaceGeneration :: int

definition empty_state :: surface_state where
  "empty_state = \<lparr>ssNodes = [], ssReplaceGeneration = 0\<rparr>"

text \<open>A nil plan is \<open>None\<close>; \<open>PlanReplace seq start end startIdx endIdx shadowed\<close>.\<close>

datatype surface_plan =
    PlanAppend int
  | PlanReplace int int int nat nat "int list"

definition isEventSeq :: "int \<Rightarrow> bool" where
  "isEventSeq value \<longleftrightarrow> value \<ge> 0"

definition surfaceOpOf :: "event \<Rightarrow> (surface_error, surface_op option) outcome" where
  "surfaceOpOf event =
     (if \<not> IsSurfaceEventType (evType event) then
        if evSurfaceOp event \<noteq> None then Err (NotEligibleOp (evType event))
        else if evSourceEventSeqs event \<noteq> None then Err (NotEligibleSources (evType event))
        else Ok None
      else case evSurfaceOp event of
          None \<Rightarrow> Err (MissingOp (evType event))
        | Some o' \<Rightarrow>
            if opKind o' = SurfaceAppend \<or> opKind o' = SurfaceReplace then Ok (Some o')
            else Err (InvalidOp (evType event)))"

text \<open>The loop over the cited seqs: \<open>seen\<close> is the set built so far, the result is whether some
  cited seq is not earlier than the event.\<close>

fun scanSources :: "string \<Rightarrow> int \<Rightarrow> int list \<Rightarrow> bool \<Rightarrow> int list \<Rightarrow> (surface_error, bool) outcome" where
  "scanSources ty seq seen nonEarlier [] = Ok nonEarlier"
| "scanSources ty seq seen nonEarlier (x # xs) =
     (if \<not> isEventSeq x then Err (NegativeSource ty)
      else if x \<in> set seen then Err DuplicateSource
      else scanSources ty seq (x # seen) (nonEarlier \<or> x \<ge> seq) xs)"

definition assertProvenance :: "event \<Rightarrow> int list \<Rightarrow> (surface_error, unit) outcome" where
  "assertProvenance event shadowedSeqs =
     andThen
       (case evSourceEventSeqs event of
          None \<Rightarrow> Ok []
        | Some srcs \<Rightarrow>
            if srcs = [] \<and> evType event \<noteq> EventAssistantMsg then Err EmptySources
            else andThen (scanSources (evType event) (evSeq event) [] False srcs) (\<lambda>nonEarlier.
                   if nonEarlier then Err (NonEarlierSource (evSeq event)) else Ok srcs))
       (\<lambda>sources.
          let missing = filter (\<lambda>s. s \<notin> set sources) shadowedSeqs in
          if missing \<noteq> [] then Err (MissingShadowed missing) else Ok ())"

definition replacementRange ::
    "surface_state \<Rightarrow> surface_op \<Rightarrow> (surface_error, nat \<times> nat \<times> int list) outcome" where
  "replacementRange state o' =
     (case index_of (opStart o') (ssNodes state) of
        None \<Rightarrow> Err (StartNotFound (opStart o'))
      | Some startIdx \<Rightarrow>
          (case index_of (opEnd o') (ssNodes state) of
             None \<Rightarrow> Err (EndNotFound (opEnd o'))
           | Some endIdx \<Rightarrow>
               if startIdx > endIdx
               then Err (StartAfterEnd (opStart o') (int startIdx) (opEnd o') (int endIdx))
               else Ok (startIdx, endIdx, take (endIdx + 1 - startIdx) (drop startIdx (ssNodes state)))))"

definition strip :: "raw \<Rightarrow> json option" where
  "strip r =
     map_option
       (\<lambda>payload. enc_result (payload\<lparr>trMessage := (trMessage payload)\<lparr>msgContent :=
          map_option (map (\<lambda>b. if cbType b = BlockToolResult then setContent None b else b))
            (msgContent (trMessage payload))\<rparr>\<rparr>))
       (unmarshal_ok dec_result zero_result r)"

definition toolResultSameExceptContent :: "raw \<Rightarrow> raw \<Rightarrow> (surface_error, bool) outcome" where
  "toolResultSameExceptContent originalRaw replacementRaw =
     (case strip originalRaw of
        None \<Rightarrow> Err RewriteOriginal
      | Some strippedOriginal \<Rightarrow>
          (case strip replacementRaw of
             None \<Rightarrow> Err RewriteReplacement
           | Some strippedReplacement \<Rightarrow> Ok (strippedOriginal = strippedReplacement)))"

text \<open>Both positions are non-negative, so the difference does not leave the 64-bit range.\<close>

fun rewriteTargets :: "event \<Rightarrow> event list \<Rightarrow> int \<Rightarrow> int list \<Rightarrow> (surface_error, unit) outcome" where
  "rewriteTargets event events baseSeq [] = Ok ()"
| "rewriteTargets event events baseSeq (originalSeq # rest) =
     (let idx = originalSeq - baseSeq in
      if idx < 0 \<or> idx \<ge> int (length events) \<or> evType (events ! nat idx) \<noteq> EventToolResult
      then Err RewriteTarget
      else andThen (toolResultSameExceptContent (evData (events ! nat idx)) (evData event)) (\<lambda>same.
             if \<not> same then Err RewriteOther else rewriteTargets event events baseSeq rest))"

definition assertToolResultRewrite ::
    "event \<Rightarrow> int list \<Rightarrow> event list \<Rightarrow> int \<Rightarrow> (surface_error, unit) outcome" where
  "assertToolResultRewrite event shadowedSeqs events baseSeq =
     (if evType event \<noteq> EventToolResult then Ok ()
      else if length shadowedSeqs \<noteq> 1 then Err RewriteCount
      else rewriteTargets event events baseSeq shadowedSeqs)"

definition planSurfaceEvent ::
    "surface_state \<Rightarrow> event \<Rightarrow> int \<Rightarrow> event list \<Rightarrow> int
       \<Rightarrow> (surface_error, surface_plan option) outcome" where
  "planSurfaceEvent state event expectedSeq events baseSeq =
     (if evSeq event \<noteq> expectedSeq then Err (NotContiguous (evSeq event) expectedSeq)
      else andThen (surfaceOpOf event) (\<lambda>op'.
        case op' of
          None \<Rightarrow> Ok None
        | Some o' \<Rightarrow>
            if opKind o' = SurfaceAppend then
              andThen (assertProvenance event []) (\<lambda>_. Ok (Some (PlanAppend (evSeq event))))
            else
              andThen (replacementRange state o') (\<lambda>(startIdx, endIdx, shadowed).
              andThen (assertProvenance event shadowed) (\<lambda>_.
              andThen (assertToolResultRewrite event shadowed events baseSeq) (\<lambda>_.
                Ok (Some (PlanReplace (evSeq event) (opStart o') (opEnd o') startIdx endIdx shadowed)))))))"

text \<open>Applying a plan whose indices do not fit the node list slices out of range.\<close>

definition applySurfacePlan ::
    "surface_state \<Rightarrow> surface_plan option
       \<Rightarrow> (surface_error, surface_state \<times> surface_fold_replacement option) outcome" where
  "applySurfacePlan state plan =
     (case plan of
        None \<Rightarrow> Ok (state, None)
      | Some (PlanAppend seq) \<Rightarrow> Ok (state\<lparr>ssNodes := ssNodes state @ [seq]\<rparr>, None)
      | Some (PlanReplace seq start end' startIdx endIdx shadowed) \<Rightarrow>
          if startIdx \<le> endIdx \<and> endIdx < length (ssNodes state) then
            Ok (state\<lparr>ssNodes := take startIdx (ssNodes state) @ [seq] @ drop (endIdx + 1) (ssNodes state),
                      ssReplaceGeneration := ssReplaceGeneration state + 1\<rparr>,
                Some \<lparr>rpSeq = seq, rpStart = start, rpEnd = end', rpShadowedSeqs = shadowed\<rparr>)
          else Panic)"

fun foldSurfaceFrom ::
    "event list \<Rightarrow> int \<Rightarrow> surface_state \<Rightarrow> surface_fold_replacement list \<Rightarrow> event list
       \<Rightarrow> (surface_error, surface_state \<times> surface_fold_replacement list) outcome" where
  "foldSurfaceFrom events index state replacements [] = Ok (state, replacements)"
| "foldSurfaceFrom events index state replacements (event # rest) =
     andThen (planSurfaceEvent state event index events 0) (\<lambda>plan.
     andThen (applySurfacePlan state plan) (\<lambda>(state', replacement).
       foldSurfaceFrom events (index + 1) state'
         (case replacement of None \<Rightarrow> replacements | Some r \<Rightarrow> replacements @ [r]) rest))"

definition FoldSurface :: "event list \<Rightarrow> (surface_error, surface_fold_result) outcome" where
  "FoldSurface events =
     andThen (foldSurfaceFrom events 0 empty_state [] events) (\<lambda>(state, replacements).
       Ok \<lparr>sfNodes = ssNodes state, sfReplacements = replacements\<rparr>)"

subsection \<open>The incremental manager\<close>

text \<open>The manager reads the log through a pointer: the log is an argument.\<close>

record surface_manager =
  smState :: surface_state
  smLastProcessed :: int
  smPendingEvent :: "event option"
  smPendingPlan :: "surface_plan option"

definition NewSurfaceManager :: surface_manager where
  "NewSurfaceManager = \<lparr>smState = empty_state, smLastProcessed = -1, smPendingEvent = None,
     smPendingPlan = None\<rparr>"

fun deltaLoop :: "event list \<Rightarrow> surface_manager \<Rightarrow> event list \<Rightarrow> (surface_error, surface_manager) outcome" where
  "deltaLoop events m [] = Ok m"
| "deltaLoop events m (event # rest) =
     (let seq = smLastProcessed m + 1;
          plan =
            (case (smPendingEvent m, smPendingPlan m) of
               (Some pe, Some pp) \<Rightarrow>
                 if evSeq pe = evSeq event then Ok (Some pp)
                 else planSurfaceEvent (smState m) event seq events 0
             | _ \<Rightarrow> planSurfaceEvent (smState m) event seq events 0)
      in case plan of
           Ok p \<Rightarrow>
             (case applySurfacePlan (smState m) p of
                Ok (state', _) \<Rightarrow>
                  deltaLoop events \<lparr>smState = state', smLastProcessed = seq, smPendingEvent = None,
                                 smPendingPlan = None\<rparr> rest
              | _ \<Rightarrow> Panic)
         | _ \<Rightarrow> Panic)"

definition processDelta :: "surface_manager \<Rightarrow> event list \<Rightarrow> (surface_error, surface_manager) outcome" where
  "processDelta m events = deltaLoop events m (drop (nat (smLastProcessed m + 1)) events)"

definition ValidateNext ::
    "surface_manager \<Rightarrow> event list \<Rightarrow> event \<Rightarrow> surface_manager \<times> (surface_error, unit) outcome" where
  "ValidateNext m events event =
     (case processDelta m events of
        Ok m' \<Rightarrow>
          (case planSurfaceEvent (smState m') event (int (length events)) events 0 of
             Ok plan \<Rightarrow> (m'\<lparr>smPendingEvent := Some event, smPendingPlan := plan\<rparr>, Ok ())
           | Err e \<Rightarrow> (m', Err e)
           | Panic \<Rightarrow> (m', Panic))
      | _ \<Rightarrow> (m, Panic))"

definition ReplaceGeneration :: "surface_manager \<Rightarrow> event list \<Rightarrow> (surface_error, surface_manager \<times> int) outcome" where
  "ReplaceGeneration m events = andThen (processDelta m events) (\<lambda>m'. Ok (m', ssReplaceGeneration (smState m')))"

definition Nodes :: "surface_manager \<Rightarrow> event list \<Rightarrow> (surface_error, surface_manager \<times> int list) outcome" where
  "Nodes m events = andThen (processDelta m events) (\<lambda>m'. Ok (m', ssNodes (smState m')))"

section \<open>What the checks guarantee\<close>

lemma scanSources_Ok:
  "scanSources ty seq seen ne xs = Ok b \<Longrightarrow>
     (\<forall>x \<in> set xs. 0 \<le> x) \<and> distinct xs \<and> set xs \<inter> set seen = {}
     \<and> b = (ne \<or> (\<exists>x \<in> set xs. x \<ge> seq))"
proof (induction xs arbitrary: seen ne)
  case (Cons x xs)
  from Cons.prems have x: "0 \<le> x" "x \<notin> set seen"
    and rest: "scanSources ty seq (x # seen) (ne \<or> x \<ge> seq) xs = Ok b"
    by (auto simp: isEventSeq_def split: if_splits)
  show ?case using Cons.IH [OF rest] x by auto
qed simp

lemma assertProvenance_Ok:
  assumes "assertProvenance e shadowed = Ok u"
  shows "set shadowed \<subseteq> set (case evSourceEventSeqs e of None \<Rightarrow> [] | Some xs \<Rightarrow> xs)"
    and "evSourceEventSeqs e = Some xs \<Longrightarrow> distinct xs \<and> (\<forall>x \<in> set xs. 0 \<le> x \<and> x < evSeq e)"
  using assms
  by (auto simp: assertProvenance_def outcome_simps Let_def filter_empty_conv not_le
      dest!: scanSources_Ok split: option.splits if_splits)

lemma replacementRange_Ok:
  assumes "replacementRange st o' = Ok (s, t, sh)"
  shows "s \<le> t" "t < length (ssNodes st)" "ssNodes st ! s = opStart o'" "ssNodes st ! t = opEnd o'"
    "sh = take (t + 1 - s) (drop s (ssNodes st))"
  using assms
  by (auto simp: replacementRange_def dest: index_of_SomeD split: option.splits if_splits)

text \<open>The three ways a plan comes about.\<close>

lemma planSurfaceEvent_cases:
  assumes "planSurfaceEvent st e n evs b = Ok p"
  obtains
    (none) "evSeq e = n" "\<not> IsSurfaceEventType (evType e)" "p = None"
      "evSurfaceOp e = None" "evSourceEventSeqs e = None"
  | (app) o' where "evSeq e = n" "IsSurfaceEventType (evType e)" "evSurfaceOp e = Some o'"
      "opKind o' = SurfaceAppend" "p = Some (PlanAppend n)" "assertProvenance e [] = Ok ()"
  | (rep) o' s t sh where "evSeq e = n" "IsSurfaceEventType (evType e)" "evSurfaceOp e = Some o'"
      "opKind o' = SurfaceReplace" "p = Some (PlanReplace n (opStart o') (opEnd o') s t sh)"
      "replacementRange st o' = Ok (s, t, sh)" "assertProvenance e sh = Ok ()"
      "assertToolResultRewrite e sh evs b = Ok ()"
  using assms
  by (auto simp: planSurfaceEvent_def surfaceOpOf_def outcome_simps
      split: if_splits option.splits prod.splits)

lemma apply_replace:
  assumes "replacementRange st o' = Ok (s, t, sh)"
  shows "applySurfacePlan st (Some (PlanReplace n (opStart o') (opEnd o') s t sh)) =
      Ok (st\<lparr>ssNodes := splice_list s (length sh) [n] (ssNodes st),
             ssReplaceGeneration := ssReplaceGeneration st + 1\<rparr>,
          Some \<lparr>rpSeq = n, rpStart = opStart o', rpEnd = opEnd o', rpShadowedSeqs = sh\<rparr>)"
    and "ssNodes st = take s (ssNodes st) @ sh @ drop (s + length sh) (ssNodes st)"
    and "sh \<noteq> []"
proof -
  note r = replacementRange_Ok [OF assms]
  have len: "length sh = t + 1 - s" using r by auto
  then have dl: "s + length sh = t + 1" using r by simp
  show "applySurfacePlan st (Some (PlanReplace n (opStart o') (opEnd o') s t sh)) =
      Ok (st\<lparr>ssNodes := splice_list s (length sh) [n] (ssNodes st),
             ssReplaceGeneration := ssReplaceGeneration st + 1\<rparr>,
          Some \<lparr>rpSeq = n, rpStart = opStart o', rpEnd = opEnd o', rpShadowedSeqs = sh\<rparr>)"
    using r dl by (simp add: applySurfacePlan_def splice_list_def)
  have "s + length sh \<le> length (ssNodes st)" using r dl by simp
  then show "ssNodes st = take s (ssNodes st) @ sh @ drop (s + length sh) (ssNodes st)"
    using splice_list_split [of s "length sh" "ssNodes st"] r(5) len by simp
  show "sh \<noteq> []" using len r(1) by auto
qed

section \<open>The invariant of the fold state\<close>

definition surface_ok :: "surface_state \<Rightarrow> event list \<Rightarrow> bool" where
  "surface_ok st evs \<longleftrightarrow> distinct (ssNodes st) \<and>
     (\<forall>x \<in> set (ssNodes st). 0 \<le> x \<and> x < int (length evs) \<and> IsSurfaceEventType (evType (evs ! nat x)))"

definition shadowed_of :: "surface_fold_replacement option \<Rightarrow> int list" where
  "shadowed_of r = (case r of None \<Rightarrow> [] | Some x \<Rightarrow> rpShadowedSeqs x)"

lemma surface_ok_empty [simp]: "surface_ok empty_state []"
  by (simp add: surface_ok_def empty_state_def)

lemma surface_ok_mono: "surface_ok st evs \<Longrightarrow> surface_ok st (evs @ ys)"
  by (auto simp: surface_ok_def nth_append)

text \<open>A plan made for a well-formed state applies to it, keeps it well-formed, and moves every
  node either to the new node list or to the shadowed list.\<close>

lemma plan_applies:
  assumes plan: "planSurfaceEvent st e (int (length evs)) seen b = Ok p" and ok: "surface_ok st evs"
  obtains st' r where "applySurfacePlan st p = Ok (st', r)" "surface_ok st' (evs @ [e])"
    "mset (ssNodes st') + mset (shadowed_of r)
       = mset (ssNodes st) + (if IsSurfaceEventType (evType e) then {#int (length evs)#} else {#})"
    "ssReplaceGeneration st' = ssReplaceGeneration st + (if r = None then 0 else 1)"
    "r = None \<Longrightarrow> \<exists>tl. ssNodes st' = ssNodes st @ tl"
  using plan
proof (cases rule: planSurfaceEvent_cases)
  case none
  then show ?thesis
    using ok surface_ok_mono [OF ok, of "[e]"]
    by (intro that [of st None]) (auto simp: applySurfacePlan_def shadowed_of_def)
next
  case (app o')
  have "surface_ok (st\<lparr>ssNodes := ssNodes st @ [int (length evs)]\<rparr>) (evs @ [e])"
    using ok app(2) by (auto simp: surface_ok_def nth_append)
  then show ?thesis using app
    by (intro that [of "st\<lparr>ssNodes := ssNodes st @ [int (length evs)]\<rparr>" None])
      (auto simp: applySurfacePlan_def shadowed_of_def)
next
  case (rep o' s t sh)
  let ?st' = "st\<lparr>ssNodes := splice_list s (length sh) [int (length evs)] (ssNodes st),
                 ssReplaceGeneration := ssReplaceGeneration st + 1\<rparr>"
  note ap = apply_replace(1) [OF rep(6), of "int (length evs)"] apply_replace(2) [OF rep(6)]
  have "int (length evs) \<notin> set (ssNodes st)" using ok by (auto simp: surface_ok_def)
  then have "distinct (ssNodes ?st')"
    using ok distinct_splice_fresh by (auto simp: surface_ok_def)
  then have "surface_ok ?st' (evs @ [e])"
    using ok rep(2) set_splice_list_subset [of s "length sh" "[int (length evs)]" "ssNodes st"]
    by (fastforce simp: surface_ok_def nth_append)
  moreover have "mset (ssNodes ?st') + mset sh = mset (ssNodes st) + {#int (length evs)#}"
    using arg_cong [OF ap(2), of mset] by (simp add: splice_list_def)
  ultimately show ?thesis using ap(1) rep(2,5)
    by (intro that [of ?st' "Some \<lparr>rpSeq = int (length evs), rpStart = opStart o', rpEnd = opEnd o',
             rpShadowedSeqs = sh\<rparr>"]) (auto simp: shadowed_of_def)
qed

text \<open>Planning looks at the log only below the event.\<close>

lemma rewriteTargets_prefix:
  assumes "\<forall>x \<in> set sh. 0 \<le> x \<and> x < int (length pre)"
  shows "rewriteTargets e (pre @ xs) 0 sh = rewriteTargets e pre 0 sh"
  using assms
proof (induction sh)
  case (Cons x sh)
  from Cons.prems have "0 \<le> x" "x < int (length pre)"
    by auto
  moreover have "rewriteTargets e (pre @ xs) 0 sh = rewriteTargets e pre 0 sh"
    using Cons by simp
  ultimately show ?case
    by (simp add: nth_append nat_less_iff Let_def cong: if_cong)
qed simp

lemma scanSources_not_Panic [simp]: "scanSources ty seq seen ne xs \<noteq> Panic"
  by (induction xs arbitrary: seen ne) auto

lemma rewriteTargets_not_Panic [simp]: "rewriteTargets e evs b sh \<noteq> Panic"
  by (induction sh)
    (auto simp: outcome_simps Let_def toolResultSameExceptContent_def split: option.splits)

lemma planSurfaceEvent_not_Panic [simp]: "planSurfaceEvent st e n evs b \<noteq> Panic"
  by (auto simp: planSurfaceEvent_def surfaceOpOf_def outcome_simps assertProvenance_def
      assertToolResultRewrite_def replacementRange_def Let_def split: option.splits prod.splits)

lemma planSurfaceEvent_prefix:
  assumes "surface_ok st pre"
  shows "planSurfaceEvent st e n (pre @ xs) 0 = planSurfaceEvent st e n pre 0"
proof -
  have rw: "assertToolResultRewrite e sh (pre @ xs) 0 = assertToolResultRewrite e sh pre 0"
    if "replacementRange st o' = Ok (s, t, sh)" for o' s t sh
  proof -
    have "set sh \<subseteq> set (ssNodes st)"
      using replacementRange_Ok(5) [OF that] by (auto dest: in_set_takeD in_set_dropD)
    then have "\<forall>x \<in> set sh. 0 \<le> x \<and> x < int (length pre)"
      using assms by (auto simp: surface_ok_def)
    then show ?thesis by (simp add: assertToolResultRewrite_def rewriteTargets_prefix)
  qed
  show ?thesis
  proof (cases "surfaceOpOf e")
    case (Ok op')
    show ?thesis
    proof (cases op')
      case (Some o')
      with Ok rw show ?thesis
        by (cases "replacementRange st o'") (auto simp: planSurfaceEvent_def)
    qed (simp add: Ok planSurfaceEvent_def)
  qed (simp_all add: planSurfaceEvent_def)
qed

section \<open>The complete fold\<close>

lemma foldSurfaceFrom_append:
  "foldSurfaceFrom evs i st rs (xs @ ys) =
     andThen (foldSurfaceFrom evs i st rs xs)
       (\<lambda>(st', rs'). foldSurfaceFrom evs (i + int (length xs)) st' rs' ys)"
proof (induction xs arbitrary: i st rs)
  case (Cons x xs)
  show ?case
  proof (cases "planSurfaceEvent st x i evs 0")
    case (Ok p)
    then show ?thesis
      using Cons.IH by (cases "applySurfacePlan st p") (auto simp: algebra_simps split: prod.split)
  qed auto
qed simp

lemma foldSurfaceFrom_prefix:
  assumes "surface_ok st pre"
  shows "foldSurfaceFrom (pre @ xs @ ys) (int (length pre)) st rs xs
       = foldSurfaceFrom (pre @ xs) (int (length pre)) st rs xs"
  using assms
proof (induction xs arbitrary: pre st rs)
  case (Cons x xs)
  note pl = planSurfaceEvent_prefix [OF Cons.prems, of x "int (length pre)"]
  show ?case
  proof (cases "planSurfaceEvent st x (int (length pre)) pre 0")
    case (Ok p)
    from plan_applies [OF Ok Cons.prems] obtain st' r where
      ap: "applySurfacePlan st p = Ok (st', r)" and ok': "surface_ok st' (pre @ [x])" by metis
    show ?thesis
      using Cons.IH [OF ok'] Ok ap pl by (simp add: algebra_simps split: option.split)
  qed (use pl in auto)
qed simp

definition surface_run ::
    "event list \<Rightarrow> (surface_error, surface_state \<times> surface_fold_replacement list) outcome" where
  "surface_run evs = foldSurfaceFrom evs 0 empty_state [] evs"

lemma FoldSurface_run:
  "FoldSurface evs = Ok res \<longleftrightarrow>
     (\<exists>st rs. surface_run evs = Ok (st, rs) \<and> res = \<lparr>sfNodes = ssNodes st, sfReplacements = rs\<rparr>)"
  by (auto simp: FoldSurface_def surface_run_def outcome_simps)

lemma surface_run_Nil [simp]: "surface_run [] = Ok (empty_state, [])"
  by (simp add: surface_run_def)

lemma foldSurfaceFrom_ok:
  assumes "foldSurfaceFrom (pre @ xs) (int (length pre)) st rs xs = Ok (st', rs')" and "surface_ok st pre"
  shows "surface_ok st' (pre @ xs)"
  using assms
proof (induction xs arbitrary: pre st rs)
  case (Cons x xs)
  from Cons.prems(1) obtain p st1 r where
    pl: "planSurfaceEvent st x (int (length pre)) (pre @ x # xs) 0 = Ok p"
    and ap: "applySurfacePlan st p = Ok (st1, r)"
    and rest: "foldSurfaceFrom (pre @ x # xs) (int (length pre) + 1) st1
        (case r of None \<Rightarrow> rs | Some y \<Rightarrow> rs @ [y]) xs = Ok (st', rs')"
    by (auto simp: outcome_simps)
  have ok1: "surface_ok st1 (pre @ [x])"
    using plan_applies [OF pl Cons.prems(2)] ap by fastforce
  from Cons.IH [OF _ ok1] rest show ?case by (simp add: algebra_simps)
qed simp

lemma surface_run_ok: "surface_run evs = Ok (st, rs) \<Longrightarrow> surface_ok st evs"
  using foldSurfaceFrom_ok [of "[]" evs empty_state "[]" st rs] by (simp add: surface_run_def)

text \<open>The fold of a longer log is the fold of the log followed by one step.\<close>

lemma surface_run_snoc:
  assumes "surface_run evs = Ok (st, rs)"
  shows "surface_run (evs @ [e]) =
     andThen (planSurfaceEvent st e (int (length evs)) evs 0) (\<lambda>p.
     andThen (applySurfacePlan st p) (\<lambda>(st', r).
       Ok (st', case r of None \<Rightarrow> rs | Some x \<Rightarrow> rs @ [x])))"
proof -
  have pre: "foldSurfaceFrom (evs @ [e]) 0 empty_state [] evs = Ok (st, rs)"
    using assms foldSurfaceFrom_prefix [of empty_state "[]" evs "[e]" "[]"] by (simp add: surface_run_def)
  show ?thesis
    using pre planSurfaceEvent_prefix [OF surface_run_ok [OF assms], of e "int (length evs)" "[e]"]
    by (simp add: surface_run_def foldSurfaceFrom_append)
qed

lemma surface_run_prefix:
  assumes "surface_run (evs @ xs) = Ok r"
  shows "\<exists>r'. surface_run evs = Ok r'"
  using assms foldSurfaceFrom_prefix [of empty_state "[]" evs xs "[]"]
  by (auto simp: surface_run_def foldSurfaceFrom_append outcome_simps)

lemma surface_run_induct [consumes 1, case_names empty step]:
  assumes "surface_run evs = Ok (st, rs)"
    and "P [] empty_state []"
    and "\<And>evs e st rs p st' r. surface_run evs = Ok (st, rs) \<Longrightarrow> surface_ok st evs \<Longrightarrow> P evs st rs \<Longrightarrow>
          planSurfaceEvent st e (int (length evs)) evs 0 = Ok p \<Longrightarrow> applySurfacePlan st p = Ok (st', r) \<Longrightarrow>
          P (evs @ [e]) st' (case r of None \<Rightarrow> rs | Some x \<Rightarrow> rs @ [x])"
  shows "P evs st rs"
  using assms(1)
proof (induction evs arbitrary: st rs rule: rev_induct)
  case Nil
  with assms(2) show ?case by simp
next
  case (snoc e evs)
  from surface_run_prefix [OF snoc.prems] obtain st0 rs0 where r0: "surface_run evs = Ok (st0, rs0)"
    by auto
  then show ?case
    using snoc.prems assms(3) [OF r0 surface_run_ok [OF r0] snoc.IH [OF r0]]
    by (auto simp: surface_run_snoc [OF r0] outcome_simps)
qed

text \<open>The seqs of the surface events of a log, in log order.\<close>

definition surface_seqs :: "event list \<Rightarrow> int list" where
  "surface_seqs evs = map int (filter (\<lambda>i. IsSurfaceEventType (evType (evs ! i))) [0..<length evs])"

lemma surface_seqs_snoc:
  "surface_seqs (evs @ [e]) = surface_seqs evs @
     (if IsSurfaceEventType (evType e) then [int (length evs)] else [])"
proof -
  have "filter (\<lambda>i. IsSurfaceEventType (evType ((evs @ [e]) ! i))) [0..<length evs]
      = filter (\<lambda>i. IsSurfaceEventType (evType (evs ! i))) [0..<length evs]"
    by (rule filter_cong) (auto simp: nth_append)
  then show ?thesis by (simp add: surface_seqs_def)
qed

lemma surface_run_conservation:
  assumes "surface_run evs = Ok (st, rs)"
  shows "mset (ssNodes st) + mset (concat (map rpShadowedSeqs rs)) = mset (surface_seqs evs)
    \<and> ssReplaceGeneration st = int (length rs)"
  using assms
proof (induction rule: surface_run_induct)
  case empty
  show ?case by (simp add: empty_state_def surface_seqs_def)
next
  case (step evs e st rs p st' r)
  from plan_applies [OF step.hyps(3,2)] step.hyps(4) have
    m: "mset (ssNodes st') + mset (shadowed_of r)
       = mset (ssNodes st) + (if IsSurfaceEventType (evType e) then {#int (length evs)#} else {#})"
    and g: "ssReplaceGeneration st' = ssReplaceGeneration st + (if r = None then 0 else 1)"
    by fastforce+
  have "mset (surface_seqs (evs @ [e])) = (mset (ssNodes st') + mset (shadowed_of r))
      + mset (concat (map rpShadowedSeqs rs))"
    unfolding m using conjunct1 [OF step.IH, symmetric] by (simp add: surface_seqs_snoc ac_simps)
  with g step.IH show ?case
    by (auto simp: shadowed_of_def ac_simps split: option.split)
qed

section \<open>The manager computes the fold\<close>

text \<open>What the manager keeps true: its state is the fold of the processed prefix, and a cached plan
  is the plan of the event it was made for, at the boundary of the processed prefix; when the log
  has grown past that boundary, it has grown by this event.\<close>

definition manager_ok :: "surface_manager \<Rightarrow> event list \<Rightarrow> bool" where
  "manager_ok m evs \<longleftrightarrow>
     (let k = nat (smLastProcessed m + 1) in
      -1 \<le> smLastProcessed m \<and> k \<le> length evs
      \<and> (\<exists>rs. surface_run (take k evs) = Ok (smState m, rs))
      \<and> (\<exists>r. surface_run evs = Ok r)
      \<and> (\<forall>pe. smPendingEvent m = Some pe \<longrightarrow>
            planSurfaceEvent (smState m) pe (int k) (take k evs) 0 = Ok (smPendingPlan m)
            \<and> (k < length evs \<longrightarrow> evs ! k = pe)))"

lemma manager_ok_new [simp]: "manager_ok NewSurfaceManager []"
  by (simp add: manager_ok_def NewSurfaceManager_def)

lemma deltaLoop_correct:
  assumes "manager_ok m evs" and "k = nat (smLastProcessed m + 1)"
  shows "\<exists>st rs. surface_run evs = Ok (st, rs) \<and>
     deltaLoop evs m (drop k evs) = Ok (if k = length evs then m
        else \<lparr>smState = st, smLastProcessed = int (length evs) - 1, smPendingEvent = None,
              smPendingPlan = None\<rparr>)
     \<and> (k = length evs \<longrightarrow> st = smState m)"
  using assms
proof (induction "length evs - k" arbitrary: m k)
  case 0
  then show ?case by (auto simp: manager_ok_def Let_def)
next
  case (Suc d)
  let ?e = "evs ! k"
  from Suc.hyps(2) have k: "k < length evs" by simp
  from Suc.prems have lp: "smLastProcessed m + 1 = int k" by (auto simp: manager_ok_def Let_def)
  from Suc.prems obtain rs where run: "surface_run (take k evs) = Ok (smState m, rs)"
    by (auto simp: manager_ok_def Let_def)
  from Suc.prems obtain r where full: "surface_run evs = Ok r"
    by (auto simp: manager_ok_def Let_def)
  have split: "evs = take k evs @ [?e] @ drop (Suc k) evs"
    using k by (simp add: id_take_nth_drop [symmetric])
  have tk: "take (Suc k) evs = take k evs @ [?e]" using k by (simp add: take_Suc_conv_app_nth)
  obtain r1 where run1: "surface_run (take (Suc k) evs) = Ok r1"
    using surface_run_prefix [of "take (Suc k) evs" "drop (Suc k) evs"] full by auto
  then obtain p st' rr where
    plan: "planSurfaceEvent (smState m) ?e (int k) (take k evs) 0 = Ok p"
    and ap: "applySurfacePlan (smState m) p = Ok (st', rr)"
    and r1: "r1 = (st', case rr of None \<Rightarrow> rs | Some x \<Rightarrow> rs @ [x])"
    using surface_run_snoc [OF run, of ?e] k by (auto simp: tk outcome_simps)
  have plan': "planSurfaceEvent (smState m) ?e (int k) evs 0 = Ok p"
    using planSurfaceEvent_prefix [OF surface_run_ok [OF run], of ?e "int k" "drop k evs"] plan by simp
  let ?m' = "\<lparr>smState = st', smLastProcessed = int k, smPendingEvent = None, smPendingPlan = None\<rparr>"
  have "(case (smPendingEvent m, smPendingPlan m) of
          (Some pe, Some pp) \<Rightarrow> if evSeq pe = evSeq ?e then Ok (Some pp)
             else planSurfaceEvent (smState m) ?e (int k) evs 0
        | _ \<Rightarrow> planSurfaceEvent (smState m) ?e (int k) evs 0) = Ok p"
    using Suc.prems k plan plan' by (auto simp: manager_ok_def Let_def split: option.split)
  moreover have "drop k evs = ?e # drop (Suc k) evs" using k by (simp add: Cons_nth_drop_Suc)
  ultimately have step: "deltaLoop evs m (drop k evs) = deltaLoop evs ?m' (drop (Suc k) evs)"
    using ap lp by (simp add: Let_def)
  have mok: "manager_ok ?m' evs"
    using k run1 r1 full by (simp add: manager_ok_def Let_def nat_add_distrib)
  have d: "d = length evs - Suc k" and sk: "Suc k = nat (smLastProcessed ?m' + 1)"
    using Suc.hyps(2) by simp_all
  from Suc.hyps(1) [OF d mok sk] obtain st2 rs2 where
    "surface_run evs = Ok (st2, rs2)"
    "deltaLoop evs ?m' (drop (Suc k) evs) = Ok (if Suc k = length evs then ?m'
        else \<lparr>smState = st2, smLastProcessed = int (length evs) - 1, smPendingEvent = None,
              smPendingPlan = None\<rparr>)"
    "Suc k = length evs \<longrightarrow> st2 = st'"
    by auto
  then show ?case using step k by (auto split: if_splits)
qed

lemma processDelta_correct:
  assumes "manager_ok m evs"
  obtains m' rs where "processDelta m evs = Ok m'" "surface_run evs = Ok (smState m', rs)"
    "smLastProcessed m' = int (length evs) - 1" "manager_ok m' evs"
proof -
  let ?k = "nat (smLastProcessed m + 1)"
  obtain st rs where run: "surface_run evs = Ok (st, rs)"
    and dl: "deltaLoop evs m (drop ?k evs) = Ok (if ?k = length evs then m
        else \<lparr>smState = st, smLastProcessed = int (length evs) - 1, smPendingEvent = None,
              smPendingPlan = None\<rparr>)"
    and st: "?k = length evs \<longrightarrow> st = smState m"
    using deltaLoop_correct [OF assms refl] by auto
  show ?thesis
  proof (cases "?k = length evs")
    case True
    with dl run st assms show ?thesis
      by (intro that [of m rs]) (auto simp: processDelta_def manager_ok_def Let_def)
  next
    case False
    with dl run show ?thesis
      by (intro that) (auto simp: processDelta_def manager_ok_def Let_def)
  qed
qed

lemma ValidateNext_correct:
  assumes "manager_ok m evs" and "ValidateNext m evs e = (m', res)"
  shows "manager_ok m' evs" and "res \<noteq> Panic"
    and "res = Ok () \<longleftrightarrow> (\<exists>r. surface_run (evs @ [e]) = Ok r)"
    and "res = Ok () \<Longrightarrow> manager_ok m' (evs @ [e])"
proof -
  from processDelta_correct [OF assms(1)] obtain m1 rs where
    pd: "processDelta m evs = Ok m1" and run: "surface_run evs = Ok (smState m1, rs)"
    and lp: "smLastProcessed m1 = int (length evs) - 1" and ok1: "manager_ok m1 evs" .
  let ?plan = "planSurfaceEvent (smState m1) e (int (length evs)) evs 0"
  note sok = surface_run_ok [OF run]
  have np: "?plan \<noteq> Panic" by simp
  show "res \<noteq> Panic" using assms(2) pd np by (auto simp: ValidateNext_def split: outcome.splits)
  show "manager_ok m' evs"
    using assms(2) pd ok1 lp
    by (auto simp: ValidateNext_def manager_ok_def Let_def split: outcome.splits)
  have snoc: "(\<exists>r. surface_run (evs @ [e]) = Ok r) \<longleftrightarrow> (\<exists>p. ?plan = Ok p)"
    using plan_applies [OF _ sok, of e evs 0] by (fastforce simp: surface_run_snoc [OF run] outcome_simps)
  then show "res = Ok () \<longleftrightarrow> (\<exists>r. surface_run (evs @ [e]) = Ok r)"
    using assms(2) pd by (auto simp: ValidateNext_def split: outcome.splits)
  show "manager_ok m' (evs @ [e])" if "res = Ok ()"
    using assms(2) pd that run lp snoc
    by (auto simp: ValidateNext_def manager_ok_def Let_def split: outcome.splits)
qed

text \<open>Every life of a manager over its log: validating an event, committing a validated one,
  reading the view.\<close>

inductive manager_reach :: "surface_manager \<Rightarrow> event list \<Rightarrow> bool" where
  start: "manager_reach NewSurfaceManager []"
| commit: "manager_reach m evs \<Longrightarrow> ValidateNext m evs e = (m', Ok ()) \<Longrightarrow> manager_reach m' (evs @ [e])"
| validate: "manager_reach m evs \<Longrightarrow> ValidateNext m evs e = (m', res) \<Longrightarrow> manager_reach m' evs"
| read: "manager_reach m evs \<Longrightarrow> processDelta m evs = Ok m' \<Longrightarrow> manager_reach m' evs"

lemma manager_reach_ok: "manager_reach m evs \<Longrightarrow> manager_ok m evs"
proof (induction rule: manager_reach.induct)
  case (commit m evs e m')
  then show ?case using ValidateNext_correct(4) by blast
next
  case (validate m evs e m' res)
  then show ?case using ValidateNext_correct(1) by blast
next
  case (read m evs m')
  then show ?case using processDelta_correct [of m evs] by (metis outcome.inject(1))
qed simp

definition demo_user :: "int \<Rightarrow> event" where
  "demo_user n = zero_event\<lparr>evType := EventUserMessage, evSeq := n, evData := Some (JObj []),
     evSurfaceOp := Some append_op\<rparr>"

definition demo_replace :: "int \<Rightarrow> int \<Rightarrow> int \<Rightarrow> int list \<Rightarrow> event" where
  "demo_replace n a b srcs = zero_event\<lparr>evType := EventUserMessage, evSeq := n, evData := Some (JObj []),
     evSourceEventSeqs := Some srcs,
     evSurfaceOp := Some \<lparr>opKind = SurfaceReplace, opStart = a, opEnd = b\<rparr>\<rparr>"

lemma demo_fold:
  "FoldSurface [demo_user 0, demo_user 1, demo_replace 2 0 1 [0, 1]] =
   Ok \<lparr>sfNodes = [2],
       sfReplacements = [\<lparr>rpSeq = 2, rpStart = 0, rpEnd = 1, rpShadowedSeqs = [0, 1]\<rparr>]\<rparr>"
  by code_simp

lemma manager_reach_of_run:
  "surface_run evs = Ok r \<Longrightarrow> \<exists>m. manager_reach m evs"
proof (induction evs arbitrary: r rule: rev_induct)
  case Nil
  then show ?case using manager_reach.start by blast
next
  case (snoc e evs)
  from surface_run_prefix [OF snoc.prems] snoc.IH obtain m where m: "manager_reach m evs" by blast
  obtain m' res where v: "ValidateNext m evs e = (m', res)" by (cases "ValidateNext m evs e")
  with ValidateNext_correct(3) [OF manager_reach_ok [OF m] v] snoc.prems have "res = Ok ()" by blast
  with v m show ?case using manager_reach.commit by blast
qed

section \<open>Properties\<close>

text \<open>C1: However validations, commits and reads of the surface manager are interleaved, reading
  its nodes and its generation never panics and returns exactly what replaying the whole committed
  log through the complete fold returns; in particular every committed log folds.\<close>

theorem manager_refines_fold:
  assumes "manager_reach m evs"
  shows "\<exists>m' res. FoldSurface evs = Ok res \<and> Nodes m evs = Ok (m', sfNodes res)
     \<and> ReplaceGeneration m evs = Ok (m', int (length (sfReplacements res)))"
proof -
  from processDelta_correct [OF manager_reach_ok [OF assms]] obtain m' rs where
    "processDelta m evs = Ok m'" and run: "surface_run evs = Ok (smState m', rs)" by metis
  with surface_run_conservation [OF run] show ?thesis
    by (intro exI [of _ m'] exI [of _ "\<lparr>sfNodes = ssNodes (smState m'), sfReplacements = rs\<rparr>"])
      (auto simp: FoldSurface_run Nodes_def ReplaceGeneration_def)
qed

theorem manager_refines_fold_witness:
  "\<exists>m. manager_reach m [demo_user 0, demo_user 1, demo_replace 2 0 1 [0, 1]]
     \<and> (\<exists>m' res. FoldSurface [demo_user 0, demo_user 1, demo_replace 2 0 1 [0, 1]] = Ok res
          \<and> Nodes m [demo_user 0, demo_user 1, demo_replace 2 0 1 [0, 1]] = Ok (m', sfNodes res)
          \<and> ReplaceGeneration m [demo_user 0, demo_user 1, demo_replace 2 0 1 [0, 1]]
              = Ok (m', int (length (sfReplacements res))))"
proof -
  from demo_fold obtain r where "surface_run [demo_user 0, demo_user 1, demo_replace 2 0 1 [0, 1]] = Ok r"
    by (auto simp: FoldSurface_run)
  then obtain m where m: "manager_reach m [demo_user 0, demo_user 1, demo_replace 2 0 1 [0, 1]]"
    using manager_reach_of_run by blast
  show ?thesis using m manager_refines_fold [OF m] by blast
qed

text \<open>C15: An event is accepted at the append boundary exactly when the log extended by it still
  folds, whatever the manager did before: validation is neither weaker nor stronger than replay.\<close>

theorem validate_iff_folds:
  assumes "manager_reach m evs"
  shows "snd (ValidateNext m evs e) = Ok () \<longleftrightarrow> (\<exists>res. FoldSurface (evs @ [e]) = Ok res)"
proof -
  obtain m' r where v: "ValidateNext m evs e = (m', r)" by (cases "ValidateNext m evs e")
  show ?thesis
    using ValidateNext_correct(3) [OF manager_reach_ok [OF assms] v] v
    by (auto simp: FoldSurface_run)
qed

theorem validate_iff_folds_witness:
  "\<exists>m. manager_reach m [demo_user 0, demo_user 1]
     \<and> snd (ValidateNext m [demo_user 0, demo_user 1] (demo_replace 2 0 1 [0, 1])) = Ok ()"
proof -
  have "\<exists>r. surface_run ([demo_user 0, demo_user 1] @ [demo_replace 2 0 1 [0, 1]]) = Ok r"
    using demo_fold by (auto simp: FoldSurface_run)
  then obtain m where m: "manager_reach m [demo_user 0, demo_user 1]"
    using surface_run_prefix manager_reach_of_run by blast
  show ?thesis using m validate_iff_folds [OF m, of "demo_replace 2 0 1 [0, 1]"] demo_fold by auto
qed

text \<open>C13: No surface event is lost or duplicated by the fold: the nodes on the surface together with
  the nodes shadowed by the replacements are exactly the surface events of the log, each once.\<close>

theorem fold_conserves_surface_events:
  assumes "FoldSurface evs = Ok res"
  shows "mset (sfNodes res) + mset (concat (map rpShadowedSeqs (sfReplacements res)))
           = mset (surface_seqs evs)
    \<and> distinct (sfNodes res @ concat (map rpShadowedSeqs (sfReplacements res)))"
proof -
  from assms obtain st rs where run: "surface_run evs = Ok (st, rs)"
    and res: "res = \<lparr>sfNodes = ssNodes st, sfReplacements = rs\<rparr>" by (auto simp: FoldSurface_run)
  have m: "mset (sfNodes res) + mset (concat (map rpShadowedSeqs (sfReplacements res)))
           = mset (surface_seqs evs)"
    using surface_run_conservation [OF run] res by simp
  have "distinct (surface_seqs evs)"
    by (auto simp: surface_seqs_def distinct_map inj_on_def)
  then have "distinct (sfNodes res @ concat (map rpShadowedSeqs (sfReplacements res)))"
    using m by (metis mset_append mset_eq_imp_distinct_iff)
  with m show ?thesis by blast
qed

theorem fold_conserves_surface_events_witness:
  "mset [2] + mset [0, 1] = mset (surface_seqs [demo_user 0, demo_user 1, demo_replace 2 0 1 [0, 1]])
   \<and> distinct [2, 0, 1 :: int]"
  using fold_conserves_surface_events [OF demo_fold] by simp

definition replacement_sound :: "event list \<Rightarrow> surface_fold_replacement \<Rightarrow> bool" where
  "replacement_sound evs r \<longleftrightarrow>
     0 \<le> rpSeq r \<and> rpSeq r < int (length evs) \<and> rpShadowedSeqs r \<noteq> []
     \<and> hd (rpShadowedSeqs r) = rpStart r \<and> last (rpShadowedSeqs r) = rpEnd r
     \<and> evSurfaceOp (evs ! nat (rpSeq r)) = Some \<lparr>opKind = SurfaceReplace, opStart = rpStart r, opEnd = rpEnd r\<rparr>
     \<and> (\<exists>res before after. FoldSurface (take (nat (rpSeq r)) evs) = Ok res \<and> sfNodes res = before @ rpShadowedSeqs r @ after)
     \<and> (\<exists>srcs. evSourceEventSeqs (evs ! nat (rpSeq r)) = Some srcs \<and> set (rpShadowedSeqs r) \<subseteq> set srcs
          \<and> (\<forall>x \<in> set srcs. 0 \<le> x \<and> x < rpSeq r))
     \<and> (evType (evs ! nat (rpSeq r)) = EventToolResult \<longrightarrow>
          (\<exists>x. rpShadowedSeqs r = [x] \<and> evType (evs ! nat x) = EventToolResult
             \<and> strip (evData (evs ! nat x)) = strip (evData (evs ! nat (rpSeq r)))
             \<and> strip (evData (evs ! nat x)) \<noteq> None))"

lemma replacement_sound_mono:
  assumes "replacement_sound evs r"
  shows "replacement_sound (evs @ ys) r"
proof -
  have s: "nat (rpSeq r) < length evs" using assms by (auto simp: replacement_sound_def)
  have "nat x < length evs" if "x \<in> set (rpShadowedSeqs r)" for x
    using that assms s by (fastforce simp: replacement_sound_def)
  then show ?thesis using assms s by (auto simp: replacement_sound_def nth_append)
qed

lemma rewrite_single:
  assumes "assertToolResultRewrite e sh evs 0 = Ok ()" and "evType e = EventToolResult"
    and "\<forall>x \<in> set sh. 0 \<le> x \<and> x < int (length evs)"
  shows "\<exists>x. sh = [x] \<and> evType (evs ! nat x) = EventToolResult
     \<and> strip (evData (evs ! nat x)) = strip (evData e) \<and> strip (evData e) \<noteq> None"
proof -
  from assms obtain x where sh: "sh = [x]"
    by (auto simp: assertToolResultRewrite_def length_Suc_conv split: if_splits)
  with assms show ?thesis
    by (auto simp: assertToolResultRewrite_def Let_def outcome_simps toolResultSameExceptContent_def
        split: if_splits option.splits)
qed

lemma plan_replacement_sound:
  assumes "surface_run evs = Ok (st, rs)" and "planSurfaceEvent st e (int (length evs)) evs 0 = Ok p" and "surface_ok st evs"
    and "applySurfacePlan st p = Ok (st', Some r)"
  shows "replacement_sound (evs @ [e]) r"
  using assms(2)
proof (cases rule: planSurfaceEvent_cases)
  case (rep o' s t sh)
  note rng = replacementRange_Ok [OF rep(6)] and ap = apply_replace [OF rep(6)]
  have r: "r = \<lparr>rpSeq = int (length evs), rpStart = opStart o', rpEnd = opEnd o', rpShadowedSeqs = sh\<rparr>"
    using ap(1) assms(4) rep(5) by simp
  have nodes: "\<forall>x \<in> set sh. 0 \<le> x \<and> x < int (length evs)"
    using assms(3) rng(5) by (auto simp: surface_ok_def dest: in_set_takeD in_set_dropD)
  have "hd sh = opStart o'" "last sh = opEnd o'"
    using rng ap(3) by (auto simp: hd_drop_conv_nth hd_take last_conv_nth nth_append)
  moreover have "o' = \<lparr>opKind = SurfaceReplace, opStart = opStart o', opEnd = opEnd o'\<rparr>" using rep(4) by (cases o') simp
  moreover have "FoldSurface evs = Ok \<lparr>sfNodes = ssNodes st, sfReplacements = rs\<rparr>" using assms(1) by (simp add: FoldSurface_run)
  moreover have "\<exists>srcs. evSourceEventSeqs e = Some srcs \<and> set sh \<subseteq> set srcs
      \<and> (\<forall>x \<in> set srcs. 0 \<le> x \<and> x < int (length evs))"
    using assertProvenance_Ok [OF rep(7)] ap(3) rep(1)
    by (cases "evSourceEventSeqs e") auto
  moreover have "\<exists>x. sh = [x] \<and> evType ((evs @ [e]) ! nat x) = EventToolResult
      \<and> strip (evData ((evs @ [e]) ! nat x)) = strip (evData e)
      \<and> strip (evData ((evs @ [e]) ! nat x)) \<noteq> None" if "evType e = EventToolResult"
    using rewrite_single [OF rep(8) that nodes] nodes by (auto simp: nth_append nat_less_iff)
  ultimately show ?thesis
    using r ap(2,3) rep(3) by (auto simp: replacement_sound_def)
qed (use assms(4) in \<open>auto simp: applySurfacePlan_def\<close>)

lemma run_replacements_within:
  "surface_run evs = Ok (ss, rs) \<Longrightarrow> \<forall>r \<in> set rs. replacement_sound evs r"
proof (induction rule: surface_run_induct)
  case (step evs e st rs p st' r)
  then show ?case
    using plan_replacement_sound [OF step.hyps(1,3,2)] by (auto split: option.splits intro: replacement_sound_mono)
qed simp

text \<open>C14: Every replacement the fold reports is the operation of a logged event: its endpoints are those the event
  declares, and it removed a non-empty contiguous run of the surface as it stood just before the event, from the one endpoint to the
  other; all that was removed is earlier than the event and cited in its \<open>sourceEventSeqs\<close>; when the event is a tool result,
  it replaced exactly one tool result and differs from it only in the result content.\<close>

theorem fold_replacements_sound:
  assumes "FoldSurface evs = Ok res" and "r \<in> set (sfReplacements res)"
  shows "replacement_sound evs r"
  using assms run_replacements_within by (auto simp: FoldSurface_run)

theorem fold_replacements_sound_witness:
  "replacement_sound [demo_user 0, demo_user 1, demo_replace 2 0 1 [0, 1]]
     \<lparr>rpSeq = 2, rpStart = 0, rpEnd = 1, rpShadowedSeqs = [0, 1]\<rparr>"
  by (rule fold_replacements_sound [OF demo_fold]) simp

end
