(* ===== verification/Session_Repair.thy ===== *)
theory Session_Repair
  imports Session_Surface
begin

text \<open>
  \<open>session/repair.go\<close>: the synthetic events that close the tail turn of an interrupted log.
  The scan keeps the calls of the open step twice, as the source does: a list in
  registration order and an index by call id into that list.
\<close>

section \<open>Model\<close>

definition ToolNotStarted :: string where "ToolNotStarted = ''TOOL_NOT_STARTED''"
definition ToolOutcomeUnknown :: string where "ToolOutcomeUnknown = ''TOOL_OUTCOME_UNKNOWN''"

definition toolOutcomeUnknownText :: string where
  "toolOutcomeUnknownText = ''The tool call was interrupted after it was recorded, but no result was durably recorded. Its outcome is unknown. Decide whether to retry from the tool semantics: retry only if the operation is read-only or idempotent; if it may have side effects, first verify external state or ask the user. Do not retry blindly.''"

definition toolNotStartedText :: string where
  "toolNotStartedText = ''The tool call was interrupted before the Harness recorded it as started. Retry it if it is still needed.''"

record pending_tool_call =
  pcCallID :: string
  pcStep :: int
  pcCallSeq :: int
  pcStarted :: bool

record repair_state =
  rsOpenTurn :: int
  rsOpenStep :: int
  rsPending :: "pending_tool_call list"
  rsIndex :: "string \<rightharpoonup> nat"

definition repair_start :: repair_state where
  "repair_start = \<lparr>rsOpenTurn = -1, rsOpenStep = -1, rsPending = [], rsIndex = Map.empty\<rparr>"

text \<open>Registering the tool-call blocks of one assistant message.\<close>

fun registerCalls :: "int \<Rightarrow> repair_state \<Rightarrow> content_block list \<Rightarrow> repair_state" where
  "registerCalls step s [] = s"
| "registerCalls step s (b # bs) =
     registerCalls step
       (if cbType b = BlockToolCall
        then s\<lparr>rsPending := rsPending s @ [\<lparr>pcCallID = cbToolCallID b, pcStep = step, pcCallSeq = 0,
                                          pcStarted = False\<rparr>],
               rsIndex := (rsIndex s)(cbToolCallID b \<mapsto> length (rsPending s))\<rparr>
        else s) bs"

definition repair_step :: "repair_state \<Rightarrow> event \<Rightarrow> repair_state" where
  "repair_step s event =
     (if evType event = EventTurnStart then
        s\<lparr>rsOpenTurn := tdTurn (fst (unmarshal dec_turn_data \<lparr>tdTurn = 0\<rparr> (evData event))),
          rsOpenStep := -1, rsPending := [], rsIndex := Map.empty\<rparr>
      else if evType event = EventTurnEnd then
        s\<lparr>rsOpenTurn := -1, rsOpenStep := -1, rsPending := [], rsIndex := Map.empty\<rparr>
      else if evType event = EventStepStart then
        s\<lparr>rsOpenStep := sdStep (fst (unmarshal dec_step_data \<lparr>sdTurn = 0, sdStep = 0\<rparr> (evData event)))\<rparr>
      else if evType event = EventStepEnd then
        s\<lparr>rsPending := [], rsIndex := Map.empty, rsOpenStep := -1\<rparr>
      else if evType event = EventAssistantMsg then
        (case DecodeAssistantMessage event of
           Ok d \<Rightarrow> registerCalls (amStep d) s
                     (case msgContent (amMessage d) of None \<Rightarrow> [] | Some bs \<Rightarrow> bs)
         | _ \<Rightarrow> s)
      else if evType event = EventToolCall then
        (case unmarshal_ok dec_call zero_call (evData event) of
           None \<Rightarrow> s
         | Some d \<Rightarrow>
             (case rsIndex s (caCallID d) of
                None \<Rightarrow> s
              | Some i \<Rightarrow> s\<lparr>rsPending := (rsPending s)[i := (rsPending s ! i)
                                \<lparr>pcCallSeq := evSeq event, pcStarted := True\<rparr>]\<rparr>))
      else if evType event = EventToolResult then
        (case DecodeToolResult event of
           Ok d \<Rightarrow> s\<lparr>rsIndex := (rsIndex s)(srcCallID (msgSource (trMessage d)) := None)\<rparr>
         | _ \<Rightarrow> s)
      else s)"

definition repair_scan :: "event list \<Rightarrow> repair_state" where
  "repair_scan events = foldl repair_step repair_start events"

definition closeCall :: "int \<Rightarrow> int \<Rightarrow> int \<Rightarrow> pending_tool_call \<Rightarrow> event" where
  "closeCall turn time seq call =
     (let (text, name, code, srcs) =
        (if pcStarted call
         then (toolOutcomeUnknownText, ''ToolOutcomeUnknownError'', ToolOutcomeUnknown, Some [pcCallSeq call])
         else (toolNotStartedText, ''ToolNotStartedError'', ToolNotStarted, None));
          message = (NewToolResultMessage [] (pcCallID call)
                       (Some [ContentBlock BlockText text JNull [] [] [] [] None False]) True)
                    \<lparr>msgID := ''interrupted-tool-result-'' @ pcCallID call @ ''-'' @ show_int seq\<rparr>
      in \<lparr>evType = EventToolResult, evSeq = seq, evTime = time,
          evData = Some (enc_result \<lparr>trTurn = turn, trStep = pcStep call, trMessage = message,
                           trError = Some \<lparr>erName = name, erCode = code\<rparr>, trMeta = None\<rparr>),
          evSourceEventSeqs = srcs, evSurfaceOp = Some append_op, evIgnorable = False\<rparr>)"

fun closeCalls :: "int \<Rightarrow> int \<Rightarrow> int \<Rightarrow> pending_tool_call list \<Rightarrow> event list" where
  "closeCalls turn time seq [] = []"
| "closeCalls turn time seq (c # cs) = closeCall turn time seq c # closeCalls turn time (seq + 1) cs"

definition closeStep :: "int \<Rightarrow> int \<Rightarrow> int \<Rightarrow> int \<Rightarrow> event" where
  "closeStep turn step time seq =
     \<lparr>evType = EventStepEnd, evSeq = seq, evTime = time,
      evData = Some (enc_step_data \<lparr>sdTurn = turn, sdStep = step\<rparr>),
      evSourceEventSeqs = None, evSurfaceOp = None, evIgnorable = False\<rparr>"

definition closeTurn :: "int \<Rightarrow> int \<Rightarrow> int \<Rightarrow> event" where
  "closeTurn turn time seq =
     \<lparr>evType = EventTurnEnd, evSeq = seq, evTime = time,
      evData = Some (enc_turn_end_data \<lparr>edTurn = turn,
                 edReason = \<lparr>teKind = TurnEndInterrupted, teReason = None, teError = None\<rparr>\<rparr>),
      evSourceEventSeqs = None, evSurfaceOp = None, evIgnorable = False\<rparr>"

definition InterruptedTurnClosers :: "event list \<Rightarrow> event list" where
  "InterruptedTurnClosers events =
     (let s = repair_scan events in
      if rsOpenTurn s < 0 \<or> events = [] then []
      else
        let l = last events; seq = evSeq l + 1; time = evTime l; n = int (length (rsPending s));
            steps = (if rsOpenStep s \<ge> 0 then [closeStep (rsOpenTurn s) (rsOpenStep s) time (seq + n)] else [])
        in closeCalls (rsOpenTurn s) time seq (rsPending s) @ steps
           @ [closeTurn (rsOpenTurn s) time (seq + n + int (length steps))])"

section \<open>The closers\<close>

lemma length_closeCalls [simp]: "length (closeCalls turn time seq cs) = length cs"
  by (induction cs arbitrary: seq) auto

lemma closeCalls_nth:
  "i < length cs \<Longrightarrow> closeCalls turn time seq cs ! i = closeCall turn time (seq + int i) (cs ! i)"
proof (induction cs arbitrary: seq i)
  case (Cons c cs)
  then show ?case by (cases i) (auto simp: algebra_simps)
qed simp

lemma closeCall_sel [simp]:
  "evType (closeCall turn time seq c) = EventToolResult" "evSeq (closeCall turn time seq c) = seq"
  "evTime (closeCall turn time seq c) = time" "evSurfaceOp (closeCall turn time seq c) = Some append_op"
  "evSourceEventSeqs (closeCall turn time seq c) = (if pcStarted c then Some [pcCallSeq c] else None)"
  by (auto simp: closeCall_def Let_def)

lemma closeStep_sel [simp]:
  "evType (closeStep turn step time seq) = EventStepEnd" "evSeq (closeStep turn step time seq) = seq"
  "evTime (closeStep turn step time seq) = time" "evSurfaceOp (closeStep turn step time seq) = None"
  "evSourceEventSeqs (closeStep turn step time seq) = None"
  by (simp_all add: closeStep_def)

lemma closeTurn_sel [simp]:
  "evType (closeTurn turn time seq) = EventTurnEnd" "evSeq (closeTurn turn time seq) = seq"
  "evTime (closeTurn turn time seq) = time" "evSurfaceOp (closeTurn turn time seq) = None"
  "evSourceEventSeqs (closeTurn turn time seq) = None"
  by (simp_all add: closeTurn_def)

text \<open>The closers of an open log: one result per pending call, the open step's end, the turn's end.\<close>

lemma closers_cases:
  obtains (balanced) "InterruptedTurnClosers evs = []" "rsOpenTurn (repair_scan evs) < 0 \<or> evs = []"
  | (open') steps where "evs \<noteq> []" "0 \<le> rsOpenTurn (repair_scan evs)"
      "steps = (if rsOpenStep (repair_scan evs) \<ge> 0
         then [closeStep (rsOpenTurn (repair_scan evs)) (rsOpenStep (repair_scan evs)) (evTime (last evs))
                 (evSeq (last evs) + 1 + int (length (rsPending (repair_scan evs))))] else [])"
      "InterruptedTurnClosers evs =
         closeCalls (rsOpenTurn (repair_scan evs)) (evTime (last evs)) (evSeq (last evs) + 1)
           (rsPending (repair_scan evs)) @ steps
         @ [closeTurn (rsOpenTurn (repair_scan evs)) (evTime (last evs))
              (evSeq (last evs) + 1 + int (length (rsPending (repair_scan evs))) + int (length steps))]"
proof (cases "rsOpenTurn (repair_scan evs) < 0 \<or> evs = []")
  case True
  then show ?thesis using balanced by (simp add: InterruptedTurnClosers_def Let_def)
next
  case False
  then show ?thesis by (intro open' [OF _ _ refl]) (auto simp: InterruptedTurnClosers_def Let_def)
qed

lemma repair_scan_turn_end:
  "evType e = EventTurnEnd \<Longrightarrow> rsOpenTurn (repair_scan (evs @ [e])) = -1"
  by (simp add: repair_scan_def repair_step_def event_type_defs)

section \<open>The repaired log folds\<close>

lemma surface_run_seq: "surface_run evs = Ok (st, rs) \<Longrightarrow> \<forall>i < length evs. evSeq (evs ! i) = int i"
proof (induction rule: surface_run_induct)
  case (step evs e st rs p st' r)
  have "evSeq e = int (length evs)"
    using step.hyps(3) by (cases rule: planSurfaceEvent_cases) auto
  with step.IH show ?case by (auto simp: nth_append less_Suc_eq)
qed simp

lemma registerCalls_started:
  "\<forall>c \<in> set (rsPending s). pcStarted c \<longrightarrow> P (pcCallSeq c) \<Longrightarrow>
   \<forall>c \<in> set (rsPending (registerCalls step s bs)). pcStarted c \<longrightarrow> P (pcCallSeq c)"
proof (induction bs arbitrary: s)
  case (Cons b bs)
  show ?case
    unfolding registerCalls.simps by (rule Cons.IH) (use Cons.prems in auto)
qed simp

lemma scan_started_seq:
  assumes "\<forall>i < length evs. evSeq (evs ! i) = int i"
  shows "\<forall>c \<in> set (rsPending (repair_scan evs)). pcStarted c \<longrightarrow> 0 \<le> pcCallSeq c \<and> pcCallSeq c < int (length evs)"
  using assms
proof (induction evs rule: rev_induct)
  case Nil
  then show ?case by (simp add: repair_scan_def repair_start_def)
next
  case (snoc e evs)
  have seq: "evSeq e = int (length evs)" using snoc.prems [rule_format, of "length evs"] by simp
  have "\<forall>i < length evs. evSeq (evs ! i) = int i" using snoc.prems
    by (metis length_append_singleton less_Suc_eq nth_append)
  from snoc.IH [OF this]
  have old: "\<forall>c \<in> set (rsPending (repair_scan evs)). pcStarted c \<longrightarrow>
      0 \<le> pcCallSeq c \<and> pcCallSeq c < int (length (evs @ [e]))" by auto
  have scan: "repair_scan (evs @ [e]) = repair_step (repair_scan evs) e" by (simp add: repair_scan_def)
  show ?case
    unfolding scan repair_step_def
    using old seq registerCalls_started [OF old]
    by (auto split: outcome.split option.split dest!: set_update_subset_insert [THEN subsetD])
qed

lemma surface_append_ok:
  assumes run: "surface_run evs = Ok r" and seq: "evSeq e = int (length evs)"
    and ok: "\<not> IsSurfaceEventType (evType e) \<and> evSurfaceOp e = None \<and> evSourceEventSeqs e = None
      \<or> IsSurfaceEventType (evType e) \<and> evSurfaceOp e = Some append_op
         \<and> (evSourceEventSeqs e = None
            \<or> (\<exists>x. evSourceEventSeqs e = Some [x] \<and> 0 \<le> x \<and> x < int (length evs)))"
  shows "\<exists>r. surface_run (evs @ [e]) = Ok r"
proof -
  obtain st rs where r: "surface_run evs = Ok (st, rs)" using run by (cases r) auto
  have "\<exists>p. planSurfaceEvent st e (int (length evs)) evs 0 = Ok p"
    using ok seq
    by (auto simp: planSurfaceEvent_def surfaceOpOf_def append_op_def assertProvenance_def isEventSeq_def)
  then obtain p where p: "planSurfaceEvent st e (int (length evs)) evs 0 = Ok p" by blast
  from plan_applies [OF p surface_run_ok [OF r]] obtain st' rr where "applySurfacePlan st p = Ok (st', rr)"
    by metis
  with p show ?thesis by (simp add: surface_run_snoc [OF r])
qed

lemma surface_run_closeCalls:
  assumes "surface_run evs = Ok r"
    and "\<forall>c \<in> set cs. pcStarted c \<longrightarrow> 0 \<le> pcCallSeq c \<and> pcCallSeq c < int (length evs)"
  shows "\<exists>r. surface_run (evs @ closeCalls turn time (int (length evs)) cs) = Ok r"
  using assms
proof (induction cs arbitrary: evs r)
  case (Cons c cs)
  let ?e = "closeCall turn time (int (length evs)) c"
  have "\<exists>r. surface_run (evs @ [?e]) = Ok r"
    using Cons.prems
    by (intro surface_append_ok [of evs r]) (auto simp: IsSurfaceEventType_def SurfaceEventTypes_def)
  then obtain r1 where r1: "surface_run (evs @ [?e]) = Ok r1" ..
  have "\<exists>r. surface_run ((evs @ [?e]) @ closeCalls turn time (int (length (evs @ [?e]))) cs) = Ok r"
    using Cons.prems(2) by (intro Cons.IH [OF r1]) auto
  then show ?case by (simp add: algebra_simps)
qed auto

section \<open>Properties\<close>

text \<open>A turn with one open step, one tool call in it, and the call's result.\<close>

definition demo_open :: "event list" where
  "demo_open =
     [zero_event\<lparr>evType := EventTurnStart, evSeq := 0, evTime := 7, evData := Some (JObj [(''turn'', JInt 3)])\<rparr>,
      zero_event\<lparr>evType := EventStepStart, evSeq := 1, evTime := 7,
        evData := Some (JObj [(''turn'', JInt 3), (''step'', JInt 1)])\<rparr>,
      zero_event\<lparr>evType := EventAssistantMsg, evSeq := 2, evTime := 8, evSurfaceOp := Some append_op,
        evData := Some (JObj [(''turn'', JInt 3), (''step'', JInt 1), (''message'', JObj [(''content'',
          JArr [JObj [(''type'', JStr ''tool-call''), (''toolCallId'', JStr ''c'')]])])])\<rparr>,
      zero_event\<lparr>evType := EventToolCall, evSeq := 3, evTime := 9,
        evData := Some (JObj [(''callId'', JStr ''c'')])\<rparr>]"

definition demo_result :: event where
  "demo_result = zero_event\<lparr>evType := EventToolResult, evSeq := 4, evTime := 9, evSurfaceOp := Some append_op,
     evData := Some (JObj [(''message'', JObj [(''source'', JObj [(''callId'', JStr ''c'')])])])\<rparr>"

lemma demo_closers: "map evType (InterruptedTurnClosers demo_open) = [EventToolResult, EventStepEnd, EventTurnEnd]"
  by code_simp

lemma demo_open_folds: "is_Ok (FoldSurface demo_open)"
  by code_simp

text \<open>Repair is complete and idempotent: once the closers are appended, no turn is open and
  nothing is left to close.\<close>

theorem repair_closes_turn:
  "InterruptedTurnClosers (evs @ InterruptedTurnClosers evs) = []"
proof (cases evs rule: closers_cases)
  case balanced
  then show ?thesis by (auto simp: InterruptedTurnClosers_def Let_def)
next
  case (open' steps)
  obtain xs e where c: "InterruptedTurnClosers evs = xs @ [e]" and "evType e = EventTurnEnd"
    using open'(4) by (metis append_assoc closeTurn_sel(1))
  then have "rsOpenTurn (repair_scan (evs @ InterruptedTurnClosers evs)) = -1"
    using repair_scan_turn_end [of e "evs @ xs"] by simp
  then show ?thesis by (simp add: InterruptedTurnClosers_def Let_def)
qed

text \<open>The closers continue the log: their seqs are the next ones without a gap, they reuse the
  last real timestamp, and they come as one tool result per registered call, then the end of the open
  step if there is one, then the end of the turn.\<close>

theorem repair_continues_log:
  assumes "i < length (InterruptedTurnClosers evs)"
  shows "evSeq (InterruptedTurnClosers evs ! i) = evSeq (last evs) + 1 + int i
    \<and> evTime (InterruptedTurnClosers evs ! i) = evTime (last evs)
    \<and> evType (InterruptedTurnClosers evs ! i) =
           (if i < length (rsPending (repair_scan evs)) then EventToolResult
            else if Suc i = length (InterruptedTurnClosers evs) then EventTurnEnd else EventStepEnd)"
proof (cases evs rule: closers_cases)
  case balanced
  with assms show ?thesis by simp
next
  case (open' steps)
  let ?n = "length (rsPending (repair_scan evs))"
  have len: "length (InterruptedTurnClosers evs) = ?n + length steps + 1"
    by (simp add: open'(4))
  consider "i < ?n" | "i = ?n" "steps \<noteq> []" | "i = ?n + length steps"
    using assms len open'(3) by (fastforce split: if_splits)
  then show ?thesis
    unfolding len using open'(3)
    by cases (auto simp: open'(4) nth_append closeCalls_nth split: if_splits)
qed

theorem repair_continues_log_witness:
  "evSeq (InterruptedTurnClosers demo_open ! 2) = 6 \<and> evType (InterruptedTurnClosers demo_open ! 2) = EventTurnEnd"
proof -
  have len: "length (InterruptedTurnClosers demo_open) = 3"
    using arg_cong [OF demo_closers, of length] by simp
  have n: "length (rsPending (repair_scan demo_open)) = 1" by code_simp
  have l: "evSeq (last demo_open) = 3" by (simp add: demo_open_def)
  show ?thesis using repair_continues_log [of 2 demo_open] by (simp add: len n l)
qed

text \<open>C40: A log that folds still folds after repair: every closer is acceptable at the append
  boundary, and the provenance a started call's closer cites is an earlier event.\<close>

theorem repaired_log_folds:
  assumes "FoldSurface evs = Ok res"
  shows "\<exists>res'. FoldSurface (evs @ InterruptedTurnClosers evs) = Ok res'"
proof -
  from assms obtain st rs where run: "surface_run evs = Ok (st, rs)" by (auto simp: FoldSurface_run)
  note seqs = surface_run_seq [OF run]
  have "\<exists>r. surface_run (evs @ InterruptedTurnClosers evs) = Ok r"
  proof (cases evs rule: closers_cases)
    case balanced
    with run show ?thesis by auto
  next
    case (open' steps)
    let ?s = "repair_scan evs"
    have l: "evSeq (last evs) + 1 = int (length evs)"
      using seqs open'(1) by (cases evs rule: rev_cases) (auto simp: last_conv_nth)
    obtain r1 where r1: "surface_run (evs @ closeCalls (rsOpenTurn ?s) (evTime (last evs))
        (int (length evs)) (rsPending ?s)) = Ok r1"
      using surface_run_closeCalls [OF run scan_started_seq [OF seqs]] by blast
    let ?l1 = "evs @ closeCalls (rsOpenTurn ?s) (evTime (last evs)) (int (length evs)) (rsPending ?s)"
    have non: "\<not> IsSurfaceEventType EventStepEnd" "\<not> IsSurfaceEventType EventTurnEnd"
      by (simp_all add: IsSurfaceEventType_def SurfaceEventTypes_def event_type_defs)
    have "\<exists>r. surface_run (?l1 @ steps) = Ok r"
    proof (cases steps)
      case (Cons x xs)
      then have "steps = [x]" "evType x = EventStepEnd" "evSurfaceOp x = None"
        "evSourceEventSeqs x = None" "evSeq x = int (length ?l1)"
        using open'(3) l by (auto split: if_splits)
      then show ?thesis using surface_append_ok [OF r1, of x] non by auto
    qed (use r1 in auto)
    then obtain r2 where "surface_run (?l1 @ steps) = Ok r2" ..
    from surface_append_ok [OF this, of "closeTurn (rsOpenTurn ?s) (evTime (last evs))
          (evSeq (last evs) + 1 + int (length (rsPending ?s)) + int (length steps))"]
    show ?thesis using non l by (simp add: open'(4))
  qed
  then show ?thesis by (auto simp: FoldSurface_run)
qed

theorem repaired_log_folds_witness:
  "\<exists>res'. FoldSurface (demo_open @ InterruptedTurnClosers demo_open) = Ok res'"
proof -
  from demo_open_folds obtain res where "FoldSurface demo_open = Ok res" by (auto simp: is_Ok_iff)
  then show ?thesis by (rule repaired_log_folds)
qed

text \<open>Recording a tool result never takes its call off the list that repair closes: the number
  of closers is the same with and without the result, so a call that was answered before the crash
  gets a second, synthetic error result.  (The documentation of the function says that unmatched
  calls receive error results.)\<close>

theorem result_never_clears_pending:
  assumes "evType e = EventToolResult" and "evs \<noteq> []"
  shows "length (InterruptedTurnClosers (evs @ [e])) = length (InterruptedTurnClosers evs)"
proof -
  have "repair_scan (evs @ [e]) = repair_step (repair_scan evs) e" by (simp add: repair_scan_def)
  then have "rsPending (repair_scan (evs @ [e])) = rsPending (repair_scan evs)"
    "rsOpenTurn (repair_scan (evs @ [e])) = rsOpenTurn (repair_scan evs)"
    "rsOpenStep (repair_scan (evs @ [e])) = rsOpenStep (repair_scan evs)"
    using assms(1) by (auto simp: repair_step_def event_type_defs split: outcome.split)
  then show ?thesis using assms(2) by (simp add: InterruptedTurnClosers_def Let_def)
qed

theorem result_never_clears_pending_witness:
  "length (InterruptedTurnClosers (demo_open @ [demo_result])) = 3"
proof -
  have "length (InterruptedTurnClosers demo_open) = 3"
    using arg_cong [OF demo_closers, of length] by simp
  then show ?thesis
    using result_never_clears_pending [of demo_result demo_open]
    by (simp add: demo_result_def demo_open_def)
qed

end
