(* ===== verification/Log_View.thy ===== *)
theory Log_View
  imports Prelude
begin

text \<open>
  The interface every cached reading of an append-only log has in this program (request header,
  request context, derived messages, goal state): a cache that describes some prefix of the log,
  and a refresh that brings it up to date and returns the value.  The laws say that the cache
  stays valid when the log grows, and that a refresh returns what a computation from scratch
  returns.  Clients rely on \<open>view_run_spec\<close>: any interleaving of appends and reads.
\<close>

text \<open>A run of appends (\<open>Some e\<close>) and reads (\<open>None\<close>), with the values read and the logs they were
  read at.\<close>

fun view_run ::
    "('c \<Rightarrow> 'e list \<Rightarrow> 'c \<times> 'v) \<Rightarrow> 'c \<Rightarrow> 'e list \<Rightarrow> 'e option list \<Rightarrow> ('e list \<times> 'v) list" where
  "view_run refresh c evs [] = []"
| "view_run refresh c evs (Some e # ops) = view_run refresh c (evs @ [e]) ops"
| "view_run refresh c evs (None # ops) =
     (let (c', v) = refresh c evs in (evs, v) # view_run refresh c' evs ops)"

locale incremental_view =
  fixes spec :: "'e list \<Rightarrow> 'v"
    and describes :: "'c \<Rightarrow> 'e list \<Rightarrow> bool"
    and refresh :: "'c \<Rightarrow> 'e list \<Rightarrow> 'c \<times> 'v"
  assumes grow: "describes c evs \<Longrightarrow> describes c (evs @ [e])"
    and refresh_value: "describes c evs \<Longrightarrow> snd (refresh c evs) = spec evs"
    and refresh_describes: "describes c evs \<Longrightarrow> describes (fst (refresh c evs)) evs"
begin

lemma view_run_spec:
  "describes c evs \<Longrightarrow> (l, v) \<in> set (view_run refresh c evs ops) \<Longrightarrow> v = spec l"
proof (induction ops arbitrary: c evs)
  case (Cons op ops)
  show ?case
  proof (cases op)
    case (Some e)
    with Cons.prems Cons.IH [OF grow [OF Cons.prems(1)]] show ?thesis by simp
  next
    case None
    with Cons.prems refresh_value [of c evs] consider "l = evs" "v = spec evs"
      | "(l, v) \<in> set (view_run refresh (fst (refresh c evs)) evs ops)"
      by (cases "refresh c evs") auto
    then show ?thesis using Cons.IH [OF refresh_describes [OF Cons.prems(1)]] by cases auto
  qed
qed simp

end

text \<open>The common case: the value is a left fold over the log, the cache is the fold of a prefix
  and the length of that prefix.\<close>

definition fold_describes :: "('s \<Rightarrow> 'e \<Rightarrow> 's) \<Rightarrow> 's \<Rightarrow> 's \<times> nat \<Rightarrow> 'e list \<Rightarrow> bool" where
  "fold_describes step init c evs \<longleftrightarrow>
     snd c \<le> length evs \<and> fst c = foldl step init (take (snd c) evs)"

definition fold_refresh :: "('s \<Rightarrow> 'e \<Rightarrow> 's) \<Rightarrow> 's \<times> nat \<Rightarrow> 'e list \<Rightarrow> ('s \<times> nat) \<times> 's" where
  "fold_refresh step c evs =
     (if snd c < length evs
      then (let v = foldl step (fst c) (drop (snd c) evs) in ((v, length evs), v))
      else (c, fst c))"

locale incremental_fold =
  fixes step :: "'s \<Rightarrow> 'e \<Rightarrow> 's" and init :: 's

sublocale incremental_fold \<subseteq> incremental_view "foldl step init" "fold_describes step init" "fold_refresh step"
proof
  fix c :: "'s \<times> nat" and evs :: "'e list" and e
  assume d: "fold_describes step init c evs"
  then show "fold_describes step init c (evs @ [e])" by (auto simp: fold_describes_def)
  have full: "foldl step (fst c) (drop (snd c) evs) = foldl step init evs"
    using d by (metis append_take_drop_id fold_describes_def foldl_append)
  show "snd (fold_refresh step c evs) = foldl step init evs"
    using d full by (auto simp: fold_refresh_def fold_describes_def Let_def)
  show "fold_describes step init (fst (fold_refresh step c evs)) evs"
    using d full by (auto simp: fold_refresh_def fold_describes_def Let_def)
qed

end
