(* ===== verification/Session_Log.thy ===== *)
theory Session_Log
  imports Session_Repair Log_View
begin

text \<open>
  \<open>session/validation.go\<close>, \<open>session/request-header.go\<close> and \<open>session/session.go\<close>: the checks
  at the seed and append boundaries, the request-header fold, and the session object with its
  append-only log, its surface manager and its incrementally advanced folds.

  A method that takes the session lock is one atomic step of the model; the lock itself appears
  only where a method takes it while it holds it.  Wall-clock readings are arguments.
\<close>

section \<open>Validation\<close>

text \<open>\<open>filepath.IsAbs\<close> of the Unix builds.\<close>

definition IsAbs :: "string \<Rightarrow> bool" where
  "IsAbs p \<longleftrightarrow> p \<noteq> [] \<and> hd p = CHR ''/''"

definition validateSessionHeader :: "string \<Rightarrow> session_header \<Rightarrow> (session_error, unit) outcome" where
  "validateSessionHeader id' h = map_err HeaderError
     (if hVersion h \<noteq> SESSION_FORMAT_VERSION then Err (HeaderVersion (hVersion h))
      else if hID h \<noteq> id' then Err (HeaderId (hID h) id')
      else if hCreatedAt h < 0 then Err (HeaderCreatedAt (hCreatedAt h))
      else if hCWD h \<noteq> [] \<and> \<not> IsAbs (hCWD h) then Err (HeaderCwd (hCWD h))
      else if hInheritedEventCount h < 0 then Err (HeaderNegativeInherited (hInheritedEventCount h))
      else if \<not> hIsSeeded h \<and> hInheritedEventCount h \<noteq> 0
        then Err (HeaderUnseededInherited (hInheritedEventCount h))
      else if hOrigin h \<noteq> [] \<and> hOrigin h \<noteq> ''subagent'' then Err (HeaderOrigin (hOrigin h))
      else (case hDelegationDepth h of
              Some d \<Rightarrow> if d < 0 then Err (HeaderDepth d) else Ok ()
            | None \<Rightarrow> Ok ()))"

definition assertSupportedRequestHeader :: "string \<Rightarrow> raw \<Rightarrow> (shape_error, unit) outcome" where
  "assertSupportedRequestHeader eventType data =
     (if eventType = ''request/header-delta'' then Err LegacyHeaderDelta
      else if eventType = EventRequestHeader then
        (case data of
           Some (JObj kvs) \<Rightarrow>
             if obj_index kvs ''reason'' = JStr ''fallback'' then Err LegacyFallback else Ok ()
         | _ \<Rightarrow> Ok ())
      else Ok ())"

definition userShapeOk :: "message \<Rightarrow> bool" where
  "userShapeOk m \<longleftrightarrow> msgID m \<noteq> [] \<and> msgRole m = RoleUser \<and> srcKind (msgSource m) \<noteq> []
     \<and> msgContent m \<noteq> None"

definition assistantShapeOk :: "message \<Rightarrow> bool" where
  "assistantShapeOk m \<longleftrightarrow> msgID m \<noteq> [] \<and> msgRole m = RoleAssistant
     \<and> srcKind (msgSource m) = SourceModel \<and> srcProvider (msgSource m) \<noteq> []
     \<and> srcModel (msgSource m) \<noteq> [] \<and> msgContent m \<noteq> None"

definition toolResultShape :: "message \<Rightarrow> (shape_error, unit) outcome" where
  "toolResultShape m =
     (if msgID m = [] \<or> msgRole m \<noteq> RoleUser \<or> srcKind (msgSource m) \<noteq> SourceTool
         \<or> srcCallID (msgSource m) = []
      then Err ToolResultShape
      else (case msgContent m of
              Some [b] \<Rightarrow>
                if cbType b \<noteq> BlockToolResult then Err ToolResultBlocks
                else if cbToolCallID b \<noteq> srcCallID (msgSource m) then Err ToolResultIds
                else Ok ()
            | _ \<Rightarrow> Err ToolResultBlocks))"

definition assertMessageEventShape :: "event \<Rightarrow> (shape_error, unit) outcome" where
  "assertMessageEventShape event =
     (if evType event = EventUserMessage then
        andThen (map_err ShapePayload (DecodeUserMessage event)) (\<lambda>m.
          if userShapeOk m then Ok () else Err UserShape)
      else if evType event = EventAssistantMsg then
        andThen (map_err ShapePayload (DecodeAssistantMessage event)) (\<lambda>d.
          if assistantShapeOk (amMessage d) then Ok () else Err AssistantShape)
      else if evType event = EventToolResult then
        andThen (map_err ShapePayload (DecodeToolResult event)) (\<lambda>d. toolResultShape (trMessage d))
      else Ok ())"

definition validateSeedEvent :: "event \<Rightarrow> int \<Rightarrow> (shape_error, unit) outcome" where
  "validateSeedEvent event index =
     (if evType event = [] then Err (SeedMissingType index)
      else if evSeq event < 0 \<or> evTime event < 0 then Err (SeedNegative index (evType event))
      else if evData event = None then Err (SeedData index (evType event))
      else andThen (assertSupportedRequestHeader (evType event) (evData event))
             (\<lambda>_. assertMessageEventShape event))"

section \<open>Request headers\<close>

record epoch_header =
  ehConfig :: call_config
  ehAdapterDefaults :: "adapter_defaults option"
  ehSystem :: string
  ehTools :: "tool_schema list option"

definition zero_epoch :: epoch_header where
  "zero_epoch = \<lparr>ehConfig = zero_config, ehAdapterDefaults = None, ehSystem = [], ehTools = None\<rparr>"

definition dec_epoch :: "epoch_header decoder" where
  "dec_epoch = dec_struct
     [(''config'', fld ehConfig ehConfig_update dec_config),
      (''adapterDefaults'', fld ehAdapterDefaults ehAdapterDefaults_update
          (dec_ptr zero_defaults dec_defaults)),
      (''system'', fld ehSystem ehSystem_update dec_string),
      (''tools'', fld ehTools ehTools_update (dec_slice zero_schema dec_schema))]"

record request_context =
  rcProvider :: string
  rcModel :: string
  rcContextWindow :: "int option"

definition zero_context :: request_context where
  "zero_context = \<lparr>rcProvider = [], rcModel = [], rcContextWindow = None\<rparr>"

definition dec_context :: "request_context decoder" where
  "dec_context = dec_struct
     [(''provider'', fld rcProvider rcProvider_update dec_string),
      (''model'', fld rcModel rcModel_update dec_string),
      (''contextWindow'', fld rcContextWindow rcContextWindow_update (dec_ptr 0 dec_int64))]"

record request_header_data =
  rhHeader :: epoch_header
  rhReason :: string
  rhStartsSeries :: bool

definition dec_request_header :: "request_header_data decoder" where
  "dec_request_header = dec_struct
     [(''header'', fld rhHeader rhHeader_update dec_epoch),
      (''reason'', fld rhReason rhReason_update dec_string),
      (''startsSeries'', fld rhStartsSeries rhStartsSeries_update dec_bool)]"

definition zero_request_header :: request_header_data where
  "zero_request_header = \<lparr>rhHeader = zero_epoch, rhReason = [], rhStartsSeries = False\<rparr>"

definition CanonicalHeader :: "epoch_header \<Rightarrow> epoch_header" where
  "CanonicalHeader h =
     \<lparr>ehConfig = ehConfig h,
      ehAdapterDefaults =
        (case ehAdapterDefaults h of
           Some d \<Rightarrow> if adReasoningEffort d \<or> adMaxTokens d then Some d else None
         | None \<Rightarrow> None),
      ehSystem = ehSystem h,
      ehTools = (case ehTools h of Some (t # ts) \<Rightarrow> Some (t # ts) | _ \<Rightarrow> None)\<rparr>"

definition sameSchema :: "tool_schema \<Rightarrow> tool_schema \<Rightarrow> bool" where
  "sameSchema a b \<longleftrightarrow> enc_schema a = enc_schema b"

definition HeaderEquals :: "epoch_header \<Rightarrow> epoch_header \<Rightarrow> ('e, bool) outcome" where
  "HeaderEquals a b =
     andThen (CallConfigEquals (ehConfig a) (ehConfig b)) (\<lambda>same.
       let as' = (case ehTools a of None \<Rightarrow> [] | Some ts \<Rightarrow> ts);
           bs = (case ehTools b of None \<Rightarrow> [] | Some ts \<Rightarrow> ts)
       in Ok (same \<and> ehSystem a = ehSystem b \<and> ehAdapterDefaults a = ehAdapterDefaults b
              \<and> length as' = length bs \<and> list_all (\<lambda>(x, y). sameSchema x y) (zip as' bs)))"

definition headerStep :: "epoch_header option \<Rightarrow> event \<Rightarrow> epoch_header option" where
  "headerStep state event =
     (if evType event \<noteq> EventRequestHeader then state
      else case unmarshal_ok dec_request_header zero_request_header (evData event) of
             None \<Rightarrow> state
           | Some payload \<Rightarrow> Some (CanonicalHeader (rhHeader payload)))"

definition FoldRequestHeader :: "event list \<Rightarrow> epoch_header option \<Rightarrow> epoch_header option" where
  "FoldRequestHeader events from' = foldl headerStep from' events"

definition contextStep :: "request_context option \<Rightarrow> event \<Rightarrow> request_context option" where
  "contextStep state event =
     (if evType event \<noteq> EventRequestCtx then state
      else case unmarshal_ok dec_context zero_context (evData event) of
             None \<Rightarrow> state
           | Some decoded \<Rightarrow> Some decoded)"

section \<open>The session\<close>

record surface_intent =
  siSurfaceOp :: surface_op
  siSourceEventSeqs :: "int list option"

record session =
  sLog :: "event list"
  sSurface :: surface_manager
  sHeader :: session_header
  sFirstLiveSeq :: int
  sInheritedEventCount :: int
  sLocked :: bool
  sEntry :: bool
  sHeaderFold :: "epoch_header option"
  sHeaderFoldSeq :: nat
  sContextFold :: "request_context option"
  sContextFoldSeq :: nat
  sDerived :: "message list"
  sDerivedNodes :: nat
  sDerivedGeneration :: int
  sEventsSnapshot :: "event list option"

text \<open>\<open>data\<close> is what \<open>json.Marshal\<close> made of the payload, \<open>None\<close> when it failed.  The result is the
  session (whose surface manager may have advanced even when the event is refused) and the
  committed event.\<close>

definition Append ::
    "int \<Rightarrow> session \<Rightarrow> string \<Rightarrow> json option \<Rightarrow> surface_intent option
       \<Rightarrow> session \<times> (session_error, event) outcome" where
  "Append now s eventType data intent =
     (case data of
        None \<Rightarrow> (s, Err (NotSerializable eventType))
      | Some encoded \<Rightarrow>
          (case assertSupportedRequestHeader eventType (Some encoded) of
             Err e \<Rightarrow> (s, Err (ShapeError e))
           | Panic \<Rightarrow> (s, Panic)
           | Ok _ \<Rightarrow>
               (let event = \<lparr>evType = eventType, evSeq = int (length (sLog s)), evTime = now,
                             evData = Some encoded,
                             evSourceEventSeqs = (case intent of None \<Rightarrow> None | Some i \<Rightarrow> siSourceEventSeqs i),
                             evSurfaceOp = map_option siSurfaceOp intent, evIgnorable = False\<rparr>
                in case assertMessageEventShape event of
                     Err e \<Rightarrow> (s, Err (ShapeError e))
                   | Panic \<Rightarrow> (s, Panic)
                   | Ok _ \<Rightarrow>
                       (case ValidateNext (sSurface s) (sLog s) event of
                          (m, Ok _) \<Rightarrow> (s\<lparr>sSurface := m, sLog := sLog s @ [event], sEventsSnapshot := None\<rparr>, Ok event)
                        | (m, Err e) \<Rightarrow> (s\<lparr>sSurface := m\<rparr>, Err (SurfaceError e))
                        | (m, Panic) \<Rightarrow> (s\<lparr>sSurface := m\<rparr>, Panic)))))"

definition blank_session :: "session_header \<Rightarrow> int \<Rightarrow> session" where
  "blank_session h inherited =
     \<lparr>sLog = [], sSurface = NewSurfaceManager, sHeader = h, sFirstLiveSeq = 0,
      sInheritedEventCount = inherited, sLocked = False, sEntry = False, sHeaderFold = None,
      sHeaderFoldSeq = 0, sContextFold = None, sContextFoldSeq = 0, sDerived = [], sDerivedNodes = 0,
      sDerivedGeneration = 0, sEventsSnapshot = None\<rparr>"

fun seedLoop :: "int \<Rightarrow> session \<Rightarrow> event list \<Rightarrow> (session_error, session) outcome" where
  "seedLoop index s [] = Ok s"
| "seedLoop index s (source # rest) =
     andThen (map_err ShapeError (validateSeedEvent source index)) (\<lambda>_.
       if evSeq source \<noteq> index then Err (SeedNotContiguous index (evSeq source))
       else (case ValidateNext (sSurface s) (sLog s) source of
               (m, Ok _) \<Rightarrow> seedLoop (index + 1) (s\<lparr>sSurface := m, sLog := sLog s @ [source]\<rparr>) rest
             | (m, Err e) \<Rightarrow> Err (InvalidSeed index e)
             | (m, Panic) \<Rightarrow> Panic))"

text \<open>The constructor: the header, the inherited cut, the seed events, the end-of-seed marker.\<close>

definition resolveHeader ::
    "int \<Rightarrow> string \<Rightarrow> session_header option \<Rightarrow> bool \<Rightarrow> (session_error, session_header) outcome" where
  "resolveHeader now id' header restore =
     (case header of
        Some h \<Rightarrow> andThen (validateSessionHeader id' h) (\<lambda>_. Ok h)
      | None \<Rightarrow> if restore then Panic
                else Ok (zero_header\<lparr>hVersion := SESSION_FORMAT_VERSION, hID := id', hCreatedAt := now\<rparr>))"

definition resolveInherited ::
    "string \<Rightarrow> session_header \<Rightarrow> event list option \<Rightarrow> int \<Rightarrow> (session_error, int) outcome" where
  "resolveInherited id' h seed supplied =
     (let n = int (length (case seed of None \<Rightarrow> [] | Some es \<Rightarrow> es));
          inherited = (if hIsSeeded h \<and> supplied = 0 \<and> n > 0 then n else supplied)
      in if hIsSeeded h \<and> seed = None then Err (SeededNeedsSeed id')
         else if \<not> hIsSeeded h \<and> inherited \<noteq> 0 then Err (UnseededInherited id')
         else if inherited > n then Err (InheritedExceeds id' inherited n)
         else Ok inherited)"

definition markSeed :: "int \<Rightarrow> session \<Rightarrow> (session_error, session) outcome" where
  "markSeed now s =
     (let s' = s\<lparr>sFirstLiveSeq := int (length (sLog s))\<rparr> in
      if sLog s' \<noteq> [] \<and> evType (last (sLog s')) \<noteq> EventEndSeed then
        (case Append now s' EventEndSeed (Some (JObj [(''inherited'', JBool True)])) None of
           (s'', Ok _) \<Rightarrow> Ok s''
         | (_, Err e) \<Rightarrow> Err e
         | (_, Panic) \<Rightarrow> Panic)
      else Ok s')"

definition newSession ::
    "int \<Rightarrow> string \<Rightarrow> event list option \<Rightarrow> session_header option \<Rightarrow> bool \<Rightarrow> int
       \<Rightarrow> (session_error, session) outcome" where
  "newSession now id' seed header restore supplied =
     andThen (resolveHeader now id' header restore) (\<lambda>h.
     andThen (resolveInherited id' h seed supplied) (\<lambda>inherited.
     andThen (seedLoop 0 (blank_session h inherited) (case seed of None \<Rightarrow> [] | Some es \<Rightarrow> es)) (\<lambda>s.
       markSeed now s)))"

definition NewDetached ::
    "int \<Rightarrow> string \<Rightarrow> event list option \<Rightarrow> session_header option \<Rightarrow> int \<Rightarrow> (session_error, session) outcome" where
  "NewDetached now id' seed header inherited = newSession now id' seed header False inherited"

definition NewRestored ::
    "int \<Rightarrow> string \<Rightarrow> event list option \<Rightarrow> session_header \<Rightarrow> int \<Rightarrow> (session_error, session) outcome" where
  "NewRestored now id' seed header inherited = newSession now id' seed (Some header) True inherited"

subsection \<open>Reads\<close>

text \<open>A method that would wait for a lock its own call already holds never returns: \<open>None\<close>.\<close>

definition Events :: "session \<Rightarrow> (session \<times> event list) option" where
  "Events s =
     (if sLocked s then None
      else case sEventsSnapshot s of
             Some snap \<Rightarrow> Some (s, snap)
           | None \<Rightarrow> Some (s\<lparr>sEventsSnapshot := (if sLog s = [] then None else Some (sLog s))\<rparr>, sLog s))"

definition OwnEvents :: "session \<Rightarrow> (session \<times> event list) option" where
  "OwnEvents s =
     (if sLocked s then None
      else case Events (s\<lparr>sLocked := True\<rparr>) of
             None \<Rightarrow> None
           | Some (s', evs) \<Rightarrow>
               Some (s'\<lparr>sLocked := False\<rparr>,
                     if sInheritedEventCount s' \<ge> int (length evs) then []
                     else drop (nat (sInheritedEventCount s')) evs))"

definition IsOwnSeq :: "session \<Rightarrow> int \<Rightarrow> bool" where
  "IsOwnSeq s seq \<longleftrightarrow> seq \<ge> sInheritedEventCount s \<and> seq < int (length (sLog s))"

definition Seq :: "session \<Rightarrow> int" where
  "Seq s = int (length (sLog s))"

definition RequestHeader :: "session \<Rightarrow> session \<times> epoch_header option" where
  "RequestHeader s =
     (if sHeaderFoldSeq s < length (sLog s) then
        let h = FoldRequestHeader (drop (sHeaderFoldSeq s) (sLog s)) (sHeaderFold s) in
        (s\<lparr>sHeaderFold := h, sHeaderFoldSeq := length (sLog s)\<rparr>, h)
      else (s, sHeaderFold s))"

definition RequestContext :: "session \<Rightarrow> session \<times> request_context option" where
  "RequestContext s =
     (if sContextFoldSeq s < length (sLog s) then
        let c = foldl contextStep (sContextFold s) (drop (sContextFoldSeq s) (sLog s)) in
        (s\<lparr>sContextFold := c, sContextFoldSeq := length (sLog s)\<rparr>, c)
      else (s, sContextFold s))"

definition DeriveEventMessage :: "event \<Rightarrow> message option" where
  "DeriveEventMessage event =
     (if evType event = EventUserMessage then
        (case DecodeUserMessage event of Ok m \<Rightarrow> Some m | _ \<Rightarrow> None)
      else if evType event = EventAssistantMsg then
        (case DecodeAssistantMessage event of
           Ok d \<Rightarrow> (case msgContent (amMessage d) of
                      Some (b # bs) \<Rightarrow> Some (amMessage d)
                    | _ \<Rightarrow> None)
         | _ \<Rightarrow> None)
      else if evType event = EventToolResult then
        (case DecodeToolResult event of Ok d \<Rightarrow> Some (trMessage d) | _ \<Rightarrow> None)
      else None)"

definition deriveNode :: "event list \<Rightarrow> int \<Rightarrow> message option" where
  "deriveNode events seq =
     (if seq < 0 \<or> seq \<ge> int (length events) then None else DeriveEventMessage (events ! nat seq))"

definition DeriveMessages :: "session \<Rightarrow> (surface_error, session \<times> message list) outcome" where
  "DeriveMessages s =
     andThen (ReplaceGeneration (sSurface s) (sLog s)) (\<lambda>(m, generation).
       let s1 = s\<lparr>sSurface := m\<rparr>;
           s2 = (if generation \<noteq> sDerivedGeneration s1
                 then s1\<lparr>sDerived := [], sDerivedNodes := 0, sDerivedGeneration := generation\<rparr> else s1)
       in andThen (Nodes (sSurface s2) (sLog s2)) (\<lambda>(m', nodes).
            if sDerivedNodes s2 > length nodes then Panic
            else
              let derived = sDerived s2 @ List.map_filter (deriveNode (sLog s2)) (drop (sDerivedNodes s2) nodes)
              in Ok (s2\<lparr>sSurface := m', sDerived := derived, sDerivedNodes := length nodes\<rparr>, derived)))"

section \<open>The incremental folds\<close>

interpretation hv: incremental_fold headerStep "None :: epoch_header option" .

interpretation cv: incremental_fold contextStep "None :: request_context option" .

lemma RequestHeader_view:
  "RequestHeader s =
     (let (c, v) = fold_refresh headerStep (sHeaderFold s, sHeaderFoldSeq s) (sLog s)
      in (s\<lparr>sHeaderFold := fst c, sHeaderFoldSeq := snd c\<rparr>, v))"
  by (simp add: RequestHeader_def fold_refresh_def FoldRequestHeader_def Let_def)

lemma RequestContext_view:
  "RequestContext s =
     (let (c, v) = fold_refresh contextStep (sContextFold s, sContextFoldSeq s) (sLog s)
      in (s\<lparr>sContextFold := fst c, sContextFoldSeq := snd c\<rparr>, v))"
  by (simp add: RequestContext_def fold_refresh_def Let_def)

section \<open>The session invariant\<close>

text \<open>The derived messages are those of the surface some prefix of the log had.\<close>

definition derived_ok :: "session \<Rightarrow> bool" where
  "derived_ok s \<longleftrightarrow> (\<exists>k st rs. k \<le> length (sLog s) \<and> surface_run (take k (sLog s)) = Ok (st, rs)
     \<and> sDerivedNodes s = length (ssNodes st) \<and> sDerivedGeneration s = ssReplaceGeneration st
     \<and> sDerived s = List.map_filter (deriveNode (sLog s)) (ssNodes st))"

definition snapshot_ok :: "session \<Rightarrow> bool" where
  "snapshot_ok s \<longleftrightarrow> (\<forall>l. sEventsSnapshot s = Some l \<longrightarrow> l = sLog s)"

definition session_inv :: "session \<Rightarrow> bool" where
  "session_inv s \<longleftrightarrow> manager_ok (sSurface s) (sLog s)
     \<and> fold_describes headerStep None (sHeaderFold s, sHeaderFoldSeq s) (sLog s)
     \<and> fold_describes contextStep None (sContextFold s, sContextFoldSeq s) (sLog s)
     \<and> derived_ok s \<and> snapshot_ok s \<and> \<not> sLocked s"

lemma map_filter_cong: "(\<And>x. x \<in> set xs \<Longrightarrow> f x = g x) \<Longrightarrow> List.map_filter f xs = List.map_filter g xs"
  by (induction xs) (auto simp: List.map_filter_simps split: option.split)

lemma deriveNode_prefix:
  "surface_ok st (take k evs) \<Longrightarrow>
   List.map_filter (deriveNode (evs @ ys)) (ssNodes st) = List.map_filter (deriveNode evs) (ssNodes st)"
  by (rule map_filter_cong) (auto simp: surface_ok_def deriveNode_def nth_append nat_less_iff)

lemma derived_ok_grow:
  fixes m :: surface_manager and e :: event
  assumes "derived_ok s"
  shows "derived_ok (s\<lparr>sSurface := m, sLog := sLog s @ [e], sEventsSnapshot := x\<rparr>)"
proof -
  from assms obtain k st rs where k: "k \<le> length (sLog s)"
    and run: "surface_run (take k (sLog s)) = Ok (st, rs)"
    and rest: "sDerivedNodes s = length (ssNodes st)" "sDerivedGeneration s = ssReplaceGeneration st"
      "sDerived s = List.map_filter (deriveNode (sLog s)) (ssNodes st)"
    by (auto simp: derived_ok_def)
  have "sDerived s = List.map_filter (deriveNode (sLog s @ [e])) (ssNodes st)"
    using rest(3) deriveNode_prefix [OF surface_run_ok [OF run]] by simp
  then show ?thesis
    unfolding derived_ok_def using k run rest
    by (intro exI [of _ k] exI [of _ st] exI [of _ rs]) simp
qed

lemma session_inv_blank: "session_inv (blank_session h n)"
proof -
  have "derived_ok (blank_session h n)"
    unfolding derived_ok_def
    by (intro exI [of _ 0] exI [of _ empty_state] exI [of _ "[]"])
      (simp add: blank_session_def empty_state_def List.map_filter_simps)
  then show ?thesis
    by (simp add: session_inv_def blank_session_def fold_describes_def snapshot_ok_def)
qed

lemma session_inv_commit:
  assumes "session_inv s" and "ValidateNext (sSurface s) (sLog s) e = (m, Ok u)"
  shows "session_inv (s\<lparr>sSurface := m, sLog := sLog s @ [e], sEventsSnapshot := None\<rparr>)"
  using assms ValidateNext_correct(4) [of "sSurface s" "sLog s" e m "Ok u"]
    derived_ok_grow [where s = s and m = m and e = e and x = None] hv.grow [of "(sHeaderFold s, sHeaderFoldSeq s)" "sLog s" e]
    cv.grow [of "(sContextFold s, sContextFoldSeq s)" "sLog s" e]
  by (simp add: session_inv_def snapshot_ok_def)

lemma session_inv_refuse:
  assumes "session_inv s" and "ValidateNext (sSurface s) (sLog s) e = (m, r)"
  shows "session_inv (s\<lparr>sSurface := m\<rparr>)"
  using assms ValidateNext_correct(1) [of "sSurface s" "sLog s" e m r]
  by (auto simp: session_inv_def derived_ok_def snapshot_ok_def)

lemma Append_inv:
  assumes "session_inv s" and "Append now s ty data intent = (s', res)"
  shows "session_inv s'"
  using assms session_inv_commit [OF assms(1)] session_inv_refuse [OF assms(1)]
  by (auto simp: Append_def Let_def split: option.splits outcome.splits prod.splits)

lemma seed_commit:
  assumes "session_inv s" and "ValidateNext (sSurface s) (sLog s) e = (m, Ok u)" and "sEventsSnapshot s = None"
  shows "session_inv (s\<lparr>sSurface := m, sLog := sLog s @ [e]\<rparr>)"
proof -
  have "s\<lparr>sSurface := m, sLog := sLog s @ [e]\<rparr> = s\<lparr>sSurface := m, sLog := sLog s @ [e], sEventsSnapshot := None\<rparr>"
    using assms(3) by simp
  with session_inv_commit [OF assms(1,2)] show ?thesis by simp
qed

lemma seedLoop_inv:
  assumes "seedLoop i s es = Ok s'" and "session_inv s" and "sEventsSnapshot s = None"
  shows "session_inv s' \<and> sLog s' = sLog s @ es \<and> sEventsSnapshot s' = None
     \<and> sHeader s' = sHeader s \<and> sInheritedEventCount s' = sInheritedEventCount s"
  using assms
proof (induction es arbitrary: i s)
  case (Cons e es)
  from Cons.prems(1) obtain m u where v: "ValidateNext (sSurface s) (sLog s) e = (m, Ok u)"
    and rest: "seedLoop (i + 1) (s\<lparr>sSurface := m, sLog := sLog s @ [e]\<rparr>) es = Ok s'"
    by (auto simp: outcome_simps split: if_splits prod.splits outcome.splits)
  show ?case using Cons.IH [OF rest seed_commit [OF Cons.prems(2) v Cons.prems(3)]] Cons.prems(3) by simp
qed simp

lemma session_inv_firstLive [simp]: "session_inv (t\<lparr>sFirstLiveSeq := x\<rparr>) = session_inv t"
  by (simp add: session_inv_def derived_ok_def snapshot_ok_def)

lemma markSeed_inv: "markSeed now s = Ok s' \<Longrightarrow> session_inv s \<Longrightarrow> session_inv s'"
  using Append_inv [of "s\<lparr>sFirstLiveSeq := int (length (sLog s))\<rparr>"]
  by (auto simp: markSeed_def Let_def split: if_splits prod.splits outcome.splits)

lemma newSession_inv:
  assumes "newSession now i seed h restore n = Ok s"
  shows "session_inv s"
proof -
  from assms obtain hd inh s1 where
    l: "seedLoop 0 (blank_session hd inh) (case seed of None \<Rightarrow> [] | Some es \<Rightarrow> es) = Ok s1"
    and m: "markSeed now s1 = Ok s"
    by (auto simp: newSession_def andThen_Ok_iff)
  have "session_inv s1"
    using seedLoop_inv [OF l session_inv_blank] by (simp add: blank_session_def)
  with m show ?thesis by (rule markSeed_inv)
qed

section \<open>Derived messages\<close>

lemma surface_run_extend:
  assumes "surface_run pre = Ok (st, rs)" and "surface_run (pre @ ys) = Ok (st2, rs2)"
  shows "ssReplaceGeneration st \<le> ssReplaceGeneration st2
     \<and> (ssReplaceGeneration st = ssReplaceGeneration st2 \<longrightarrow> (\<exists>tl. ssNodes st2 = ssNodes st @ tl))"
  using assms(2)
proof (induction ys arbitrary: st2 rs2 rule: rev_induct)
  case Nil
  with assms(1) show ?case by simp
next
  case (snoc e ys)
  from surface_run_prefix [of "pre @ ys" "[e]"] snoc.prems obtain st1 rs1 where
    r1: "surface_run (pre @ ys) = Ok (st1, rs1)" by (auto simp del: append_assoc simp flip: append_assoc)
  have "surface_run ((pre @ ys) @ [e]) = Ok (st2, rs2)" using snoc.prems by simp
  then obtain p r where pl: "planSurfaceEvent st1 e (int (length (pre @ ys))) (pre @ ys) 0 = Ok p"
    and ap: "applySurfacePlan st1 p = Ok (st2, r)"
    unfolding surface_run_snoc [OF r1] by (auto simp: outcome_simps)
  from plan_applies [OF pl surface_run_ok [OF r1]] ap
  have g: "ssReplaceGeneration st2 = ssReplaceGeneration st1 + (if r = None then 0 else 1)"
    and n: "r = None \<Longrightarrow> \<exists>tl. ssNodes st2 = ssNodes st1 @ tl" by fastforce+
  show ?case using snoc.IH [OF r1] g n by (auto split: if_splits)
qed

lemma DeriveMessages_correct:
  assumes "session_inv s"
  obtains s' st rs where "surface_run (sLog s) = Ok (st, rs)"
    "DeriveMessages s = Ok (s', List.map_filter (deriveNode (sLog s)) (ssNodes st))"
    "session_inv s'" "sLog s' = sLog s"
proof -
  from assms have mok: "manager_ok (sSurface s) (sLog s)" by (simp add: session_inv_def)
  from processDelta_correct [OF mok] obtain m rs where pd: "processDelta (sSurface s) (sLog s) = Ok m"
    and run: "surface_run (sLog s) = Ok (smState m, rs)" and mok': "manager_ok m (sLog s)" by metis
  from processDelta_correct [OF mok'] obtain m2 rs2 where pd2: "processDelta m (sLog s) = Ok m2"
    and run2: "surface_run (sLog s) = Ok (smState m2, rs2)" and mok2: "manager_ok m2 (sLog s)" by metis
  have st2: "smState m2 = smState m" using run run2 by simp
  from assms obtain k st0 rs0 where k: "k \<le> length (sLog s)"
    and r0: "surface_run (take k (sLog s)) = Ok (st0, rs0)" and dn: "sDerivedNodes s = length (ssNodes st0)"
    and dg: "sDerivedGeneration s = ssReplaceGeneration st0"
    and dd: "sDerived s = List.map_filter (deriveNode (sLog s)) (ssNodes st0)"
    by (auto simp: session_inv_def derived_ok_def)
  have ext: "ssReplaceGeneration st0 = ssReplaceGeneration (smState m) \<longrightarrow>
      (\<exists>tl. ssNodes (smState m) = ssNodes st0 @ tl)"
    using surface_run_extend [OF r0, of "drop k (sLog s)"] run by simp
  let ?msgs = "List.map_filter (deriveNode (sLog s)) (ssNodes (smState m))"
  let ?s' = "s\<lparr>sSurface := m2, sDerived := ?msgs, sDerivedNodes := length (ssNodes (smState m)),
      sDerivedGeneration := ssReplaceGeneration (smState m)\<rparr>"
  have "DeriveMessages s = Ok (?s', ?msgs)"
  proof (cases "ssReplaceGeneration (smState m) = sDerivedGeneration s")
    case True
    then obtain tl where "ssNodes (smState m) = ssNodes st0 @ tl" using ext dg by auto
    then show ?thesis using True pd pd2 st2 dn dd
      by (simp add: DeriveMessages_def ReplaceGeneration_def Nodes_def Let_def)
  next
    case False
    then show ?thesis using pd pd2 st2
      by (simp add: DeriveMessages_def ReplaceGeneration_def Nodes_def Let_def)
  qed
  moreover have "derived_ok ?s'"
    unfolding derived_ok_def using run
    by (intro exI [of _ "length (sLog s)"] exI [of _ "smState m"] exI [of _ rs]) simp
  then have "session_inv ?s'"
    using assms mok2 by (auto simp: session_inv_def snapshot_ok_def)
  ultimately show ?thesis using run that by simp
qed

section \<open>Reachable sessions\<close>

text \<open>A session is built by the constructor and then lives through appends, reads of its folds and
  reads of its surface, in any order.\<close>

inductive session_reach :: "session \<Rightarrow> bool" where
  created: "newSession now i seed h restore n = Ok s \<Longrightarrow> session_reach s"
| append: "session_reach s \<Longrightarrow> Append now s ty data intent = (s', res) \<Longrightarrow> session_reach s'"
| header: "session_reach s \<Longrightarrow> session_reach (fst (RequestHeader s))"
| ctx: "session_reach s \<Longrightarrow> session_reach (fst (RequestContext s))"
| derive: "session_reach s \<Longrightarrow> DeriveMessages s = Ok (s', ms) \<Longrightarrow> session_reach s'"
| events: "session_reach s \<Longrightarrow> Events s = Some (s', es) \<Longrightarrow> session_reach s'"
| nodes: "session_reach s \<Longrightarrow> Nodes (sSurface s) (sLog s) = Ok (m, ns) \<Longrightarrow> session_reach (s\<lparr>sSurface := m\<rparr>)"

lemma RequestHeader_inv: "session_inv s \<Longrightarrow> session_inv (fst (RequestHeader s)) \<and> sLog (fst (RequestHeader s)) = sLog s"
  using hv.refresh_describes [of "(sHeaderFold s, sHeaderFoldSeq s)" "sLog s"]
  by (auto simp: RequestHeader_view session_inv_def derived_ok_def snapshot_ok_def split: prod.split)

lemma RequestContext_inv: "session_inv s \<Longrightarrow> session_inv (fst (RequestContext s)) \<and> sLog (fst (RequestContext s)) = sLog s"
  using cv.refresh_describes [of "(sContextFold s, sContextFoldSeq s)" "sLog s"]
  by (auto simp: RequestContext_view session_inv_def derived_ok_def snapshot_ok_def split: prod.split)

lemma Events_inv:
  "session_inv s \<Longrightarrow> Events s = Some (s', es) \<Longrightarrow> session_inv s' \<and> es = sLog s \<and> sLog s' = sLog s"
  by (auto simp: Events_def session_inv_def derived_ok_def snapshot_ok_def split: option.splits if_splits)

lemma Nodes_inv:
  assumes "session_inv s" and "Nodes (sSurface s) (sLog s) = Ok (m, ns)"
  shows "session_inv (s\<lparr>sSurface := m\<rparr>)"
proof -
  from assms have mok: "manager_ok (sSurface s) (sLog s)" by (simp add: session_inv_def)
  obtain m' rs where "processDelta (sSurface s) (sLog s) = Ok m'" "manager_ok m' (sLog s)"
    using mok by (rule processDelta_correct)
  with assms(2) have "manager_ok m (sLog s)" by (simp add: Nodes_def)
  with assms(1) show ?thesis by (auto simp: session_inv_def derived_ok_def snapshot_ok_def)
qed

lemma DeriveMessages_inv:
  assumes "session_inv s" and "DeriveMessages s = Ok (s', ms)"
  shows "session_inv s' \<and> sLog s' = sLog s"
proof (rule DeriveMessages_correct [OF assms(1)])
  fix t st rs
  assume "DeriveMessages s = Ok (t, List.map_filter (deriveNode (sLog s)) (ssNodes st))"
    and "session_inv t" and "sLog t = sLog s"
  with assms(2) show ?thesis by simp
qed

lemma session_reach_inv: "session_reach s \<Longrightarrow> session_inv s"
proof (induction rule: session_reach.induct)
  case (created now i seed h restore n s)
  then show ?case by (rule newSession_inv)
next
  case (append s now ty data intent s' res)
  then show ?case by (metis Append_inv)
next
  case (nodes s m ns)
  then show ?case by (metis Nodes_inv)
qed (use RequestHeader_inv RequestContext_inv Events_inv DeriveMessages_inv in blast)+

section \<open>What the log holds\<close>

definition event_admitted :: "event \<Rightarrow> bool" where
  "event_admitted e \<longleftrightarrow> evData e \<noteq> None
     \<and> assertSupportedRequestHeader (evType e) (evData e) = Ok () \<and> assertMessageEventShape e = Ok ()"

lemma validateSeedEvent_admitted: "validateSeedEvent e i = Ok u \<Longrightarrow> event_admitted e"
  by (auto simp: validateSeedEvent_def event_admitted_def outcome_simps split: if_splits)

lemma seedLoop_validates: "seedLoop i s es = Ok s' \<Longrightarrow> \<forall>e \<in> set es. \<exists>j. validateSeedEvent e j = Ok ()"
proof (induction es arbitrary: i s)
  case (Cons e es)
  then show ?case
    by (fastforce simp: outcome_simps split: if_splits prod.splits outcome.splits)
qed simp

text \<open>Every branch of \<open>Append\<close>: a refused event leaves the log alone, an accepted one is the new
  last entry, carries the next seq, and is admitted.\<close>

lemma Append_cases:
  assumes "Append now s ty data intent = (s', res)"
  obtains (refused) "sLog s' = sLog s" "\<forall>e. res \<noteq> Ok e"
  | (committed) e where "res = Ok e" "sLog s' = sLog s @ [e]" "evType e = ty" "evSeq e = int (length (sLog s))"
      "evTime e = now" "evData e = data" "event_admitted e"
  using assms
  by (auto simp: Append_def Let_def event_admitted_def split: option.splits outcome.splits prod.splits)

lemma Append_log:
  "Append now s ty data intent = (s', res) \<Longrightarrow> \<exists>ys. sLog s' = sLog s @ ys \<and> (\<forall>e \<in> set ys. event_admitted e)"
  by (erule Append_cases) auto

lemma newSession_log:
  assumes "newSession now i seed h restore n = Ok s"
  shows "\<forall>e \<in> set (sLog s). event_admitted e"
proof -
  from assms obtain hd inh s1 where
    l: "seedLoop 0 (blank_session hd inh) (case seed of None \<Rightarrow> [] | Some es \<Rightarrow> es) = Ok s1"
    and m: "markSeed now s1 = Ok s"
    by (auto simp: newSession_def andThen_Ok_iff)
  have "sLog s1 = (case seed of None \<Rightarrow> [] | Some es \<Rightarrow> es)"
    using seedLoop_inv [OF l session_inv_blank] by (simp add: blank_session_def)
  then have "\<forall>e \<in> set (sLog s1). event_admitted e"
    using seedLoop_validates [OF l] validateSeedEvent_admitted by auto
  with m show ?thesis
    using Append_log [of now "s1\<lparr>sFirstLiveSeq := int (length (sLog s1))\<rparr>"]
    by (fastforce simp: markSeed_def Let_def split: if_splits prod.splits outcome.splits)
qed

lemma session_reach_admitted: "session_reach s \<Longrightarrow> \<forall>e \<in> set (sLog s). event_admitted e"
proof (induction rule: session_reach.induct)
  case (created now i seed h restore n s)
  then show ?case by (rule newSession_log)
next
  case (append s now ty data intent s' res)
  then show ?case using Append_log by fastforce
next
  case (header s)
  then show ?case using RequestHeader_inv [OF session_reach_inv [OF header.hyps]] by auto
next
  case (ctx s)
  then show ?case using RequestContext_inv [OF session_reach_inv [OF ctx.hyps]] by auto
next
  case (derive s s' ms)
  with DeriveMessages_inv [OF session_reach_inv [OF derive.hyps(1)] derive.hyps(2)] show ?case by metis
next
  case (events s s' es)
  with Events_inv [OF session_reach_inv [OF events.hyps(1)] events.hyps(2)] show ?case by metis
next
  case (nodes s m ns)
  then show ?case by simp
qed

lemma session_run: "session_inv s \<Longrightarrow> \<exists>r. surface_run (sLog s) = Ok r"
  by (auto simp: session_inv_def manager_ok_def Let_def)

text \<open>The seed loop accepts every log that folds and whose events pass validation.\<close>

lemma seedLoop_succeeds:
  assumes "session_inv s" and "sEventsSnapshot s = None" and "surface_run (sLog s @ es) = Ok r"
    and "\<forall>e \<in> set es. \<forall>j. validateSeedEvent e j = Ok ()"
  shows "\<exists>s'. seedLoop (int (length (sLog s))) s es = Ok s'"
  using assms
proof (induction es arbitrary: s)
  case (Cons e es)
  obtain m res where v: "ValidateNext (sSurface s) (sLog s) e = (m, res)"
    by (cases "ValidateNext (sSurface s) (sLog s) e")
  have run1: "\<exists>r. surface_run (sLog s @ [e]) = Ok r"
    using surface_run_prefix [of "sLog s @ [e]" es] Cons.prems(3) by auto
  then have res: "res = Ok ()"
    using ValidateNext_correct(3) [OF _ v] Cons.prems(1) by (simp add: session_inv_def)
  have seq: "evSeq e = int (length (sLog s))"
    using run1 surface_run_seq [of "sLog s @ [e]"] by (metis length_append_singleton lessI nth_append_length old.prod.exhaust)
  let ?s = "s\<lparr>sSurface := m, sLog := sLog s @ [e]\<rparr>"
  have "session_inv ?s" using seed_commit [OF Cons.prems(1) _ Cons.prems(2)] v res by simp
  from Cons.IH [OF this] Cons.prems obtain s' where "seedLoop (int (length (sLog ?s))) ?s es = Ok s'" by auto
  then show ?case using v res seq Cons.prems(4) by (simp add: algebra_simps)
qed simp

section \<open>Properties\<close>

text \<open>A detached session with one user message appended to it.\<close>

definition demo_message :: json where
  "demo_message = JObj [(''id'', JStr ''m''), (''role'', JStr ''user''), (''content'', JArr []),
     (''source'', JObj [(''kind'', JStr ''user'')])]"

definition demo_start :: session where
  "demo_start = blank_session
     (zero_header\<lparr>hVersion := SESSION_FORMAT_VERSION, hID := ''s'', hCreatedAt := 5\<rparr>) 0"

definition demo_appended :: "session \<times> (session_error, event) outcome" where
  "demo_appended = Append 7 demo_start EventUserMessage (Some demo_message)
     (Some \<lparr>siSurfaceOp = append_op, siSourceEventSeqs = None\<rparr>)"

lemma demo_start_reach: "session_reach demo_start"
proof (rule session_reach.created)
  show "newSession 5 ''s'' None None False 0 = Ok demo_start"
    by (simp add: newSession_def resolveHeader_def resolveInherited_def markSeed_def demo_start_def
        blank_session_def zero_header_def)
qed

definition demo_event :: event where
  "demo_event = \<lparr>evType = EventUserMessage, evSeq = 0, evTime = 7, evData = Some demo_message,
     evSourceEventSeqs = None, evSurfaceOp = Some append_op, evIgnorable = False\<rparr>"

lemma demo_appended_log: "sLog (fst demo_appended) = [demo_event]"
  by code_simp

lemma demo_appended_reach: "session_reach (fst demo_appended)"
  by (rule session_reach.append [OF demo_start_reach, of 7 EventUserMessage "Some demo_message"
        "Some \<lparr>siSurfaceOp = append_op, siSourceEventSeqs = None\<rparr>" _ "snd demo_appended"])
    (simp add: demo_appended_def)

lemma Append_split:
  assumes "e = \<lparr>evType = ty, evSeq = int (length (sLog s)), evTime = now, evData = Some j,
        evSourceEventSeqs = (case intent of None \<Rightarrow> None | Some i \<Rightarrow> siSourceEventSeqs i),
        evSurfaceOp = map_option siSurfaceOp intent, evIgnorable = False\<rparr>"
  shows "Append now s ty (Some j) intent =
    (case andThen (assertSupportedRequestHeader ty (Some j)) (\<lambda>_. assertMessageEventShape e) of
       Err x \<Rightarrow> (s, Err (ShapeError x))
     | Panic \<Rightarrow> (s, Panic)
     | Ok _ \<Rightarrow>
         (case ValidateNext (sSurface s) (sLog s) e of
            (m, Ok _) \<Rightarrow> (s\<lparr>sSurface := m, sLog := sLog s @ [e], sEventsSnapshot := None\<rparr>, Ok e)
          | (m, Err x) \<Rightarrow> (s\<lparr>sSurface := m\<rparr>, Err (SurfaceError x))
          | (m, Panic) \<Rightarrow> (s\<lparr>sSurface := m\<rparr>, Panic)))"
  unfolding assms Append_def by (cases "assertSupportedRequestHeader ty (Some j)") (simp_all add: Let_def)

lemma shape_not_Panic [simp]: "assertMessageEventShape e \<noteq> Panic" "assertSupportedRequestHeader ty data \<noteq> Panic"
  by (auto simp: assertMessageEventShape_def assertSupportedRequestHeader_def toolResultShape_def
      outcome_simps DecodeUserMessage_def DecodeAssistantMessage_def DecodeToolResult_def
      split: if_splits option.splits json.splits list.splits)

text \<open>C2: A session's log is always well formed: whatever the sequence of constructor, appends and
  reads, its events are numbered 0, 1, 2, ... without a gap, each one has a payload of the shape its
  type demands and no legacy header form, and the log folds to a surface without an error.\<close>

theorem session_log_well_formed:
  assumes "session_reach s"
  shows "(\<forall>i < length (sLog s). evSeq (sLog s ! i) = int i)
    \<and> (\<forall>e \<in> set (sLog s). evData e \<noteq> None \<and> assertMessageEventShape e = Ok ()
          \<and> assertSupportedRequestHeader (evType e) (evData e) = Ok ())
    \<and> (\<exists>res. FoldSurface (sLog s) = Ok res)"
proof -
  from session_run [OF session_reach_inv [OF assms]] obtain st rs where r: "surface_run (sLog s) = Ok (st, rs)"
    by auto
  then show ?thesis
    using surface_run_seq [OF r] session_reach_admitted [OF assms]
    by (auto simp: FoldSurface_run event_admitted_def)
qed

theorem session_log_well_formed_witness:
  "sLog (fst demo_appended) \<noteq> [] \<and> (\<exists>res. FoldSurface (sLog (fst demo_appended)) = Ok res)"
  using session_log_well_formed [OF demo_appended_reach] by (simp add: demo_appended_log)

text \<open>C16: The messages sent to the model are a function of the log alone: however the cache was
  filled by earlier calls, \<open>DeriveMessages\<close> returns, in surface order, the projection of every event
  that the from-scratch fold of the log leaves on the surface.\<close>

theorem derive_messages_from_log:
  assumes "session_reach s"
  shows "\<exists>s' res. FoldSurface (sLog s) = Ok res
     \<and> DeriveMessages s = Ok (s', List.map_filter (deriveNode (sLog s)) (sfNodes res)) \<and> sLog s' = sLog s"
proof (rule DeriveMessages_correct [OF session_reach_inv [OF assms]])
  fix s' st rs
  assume "surface_run (sLog s) = Ok (st, rs)"
    and "DeriveMessages s = Ok (s', List.map_filter (deriveNode (sLog s)) (ssNodes st))"
    and "sLog s' = sLog s"
  then show ?thesis by (auto simp: FoldSurface_run)
qed

theorem derive_messages_from_log_witness:
  "\<exists>s' res. FoldSurface (sLog (fst demo_appended)) = Ok res
     \<and> DeriveMessages (fst demo_appended)
        = Ok (s', List.map_filter (deriveNode (sLog (fst demo_appended))) (sfNodes res))"
  using derive_messages_from_log [OF demo_appended_reach] by blast

text \<open>The request header and request context a session returns equal the folds of its whole
  log from the empty state, although each read only folds what was appended since the last one.\<close>

theorem request_reads_from_log:
  assumes "session_reach s"
  shows "snd (RequestHeader s) = FoldRequestHeader (sLog s) None
     \<and> snd (RequestContext s) = foldl contextStep None (sLog s)"
  using session_reach_inv [OF assms]
    hv.refresh_value [of "(sHeaderFold s, sHeaderFoldSeq s)" "sLog s"]
    cv.refresh_value [of "(sContextFold s, sContextFoldSeq s)" "sLog s"]
  by (auto simp: session_inv_def RequestHeader_view RequestContext_view FoldRequestHeader_def split: prod.split)

theorem request_reads_from_log_witness:
  "snd (RequestContext (fst demo_appended)) = foldl contextStep None (sLog (fst demo_appended))"
  using request_reads_from_log [OF demo_appended_reach] by blast

text \<open>C5: \<open>Append\<close> never panics on a live session; it commits exactly the serializable events of an
  admissible shape with which the log still folds, gives them the next seq, and leaves the log as it
  was in every other case.\<close>

theorem append_commits_exactly_admissible:
  assumes "session_reach s" and "Append now s ty data intent = (s', res)"
    and "e = \<lparr>evType = ty, evSeq = int (length (sLog s)), evTime = now, evData = data,
        evSourceEventSeqs = (case intent of None \<Rightarrow> None | Some i \<Rightarrow> siSourceEventSeqs i),
        evSurfaceOp = map_option siSurfaceOp intent, evIgnorable = False\<rparr>"
  shows "res \<noteq> Panic
    \<and> (res = Ok e \<longleftrightarrow> data \<noteq> None \<and> assertSupportedRequestHeader ty data = Ok ()
          \<and> assertMessageEventShape e = Ok () \<and> is_Ok (FoldSurface (sLog s @ [e])))
    \<and> sLog s' = (if res = Ok e then sLog s @ [e] else sLog s)"
proof -
  from session_reach_inv [OF assms(1)] have mok: "manager_ok (sSurface s) (sLog s)"
    by (simp add: session_inv_def)
  obtain m r where v: "ValidateNext (sSurface s) (sLog s) e = (m, r)"
    by (cases "ValidateNext (sSurface s) (sLog s) e")
  have np: "r \<noteq> Panic" and iff: "(r = Ok ()) \<longleftrightarrow> is_Ok (FoldSurface (sLog s @ [e]))"
    using ValidateNext_correct [OF mok v] by (auto simp: FoldSurface_run is_Ok_iff)
  show ?thesis
  proof (cases data)
    case None
    with assms(2) show ?thesis by (auto simp: Append_def)
  next
    case (Some j)
    note ap = assms(2) [unfolded Some Append_split [OF assms(3) [unfolded Some]]]
    have "andThen (assertSupportedRequestHeader ty data) (\<lambda>_. assertMessageEventShape e) \<noteq> Panic"
      by (simp add: outcome_simps)
    then show ?thesis
      using ap v np unfolding iff [symmetric]
      by (cases "andThen (assertSupportedRequestHeader ty (Some j)) (\<lambda>_. assertMessageEventShape e)"; cases r)
        (auto simp: Some outcome_simps)
  qed
qed

theorem append_commits_exactly_admissible_witness:
  "snd demo_appended = Ok demo_event \<and> is_Ok (FoldSurface (sLog demo_start @ [demo_event]))"
proof -
  have ok: "snd demo_appended = Ok demo_event" by code_simp
  have l: "length (sLog demo_start) = 0" by (simp add: demo_start_def blank_session_def)
  show ?thesis
    using append_commits_exactly_admissible [OF demo_start_reach, of 7 EventUserMessage "Some demo_message"
        "Some \<lparr>siSurfaceOp = append_op, siSourceEventSeqs = None\<rparr>" "fst demo_appended" "snd demo_appended" demo_event]
      ok l by (simp add: demo_appended_def demo_event_def)
qed

lemma markSeed_log:
  assumes "session_inv s"
  shows "\<exists>s'. markSeed now s = Ok s' \<and> session_inv s' \<and> sHeader s' = sHeader s
     \<and> sInheritedEventCount s' = sInheritedEventCount s
     \<and> sLog s' = sLog s @ (if sLog s = [] \<or> evType (last (sLog s)) = EventEndSeed then []
         else [\<lparr>evType = EventEndSeed, evSeq = int (length (sLog s)), evTime = now,
                evData = Some (JObj [(''inherited'', JBool True)]), evSourceEventSeqs = None,
                evSurfaceOp = None, evIgnorable = False\<rparr>])"
proof (cases "sLog s = [] \<or> evType (last (sLog s)) = EventEndSeed")
  case True
  with assms show ?thesis by (auto simp: markSeed_def Let_def)
next
  case False
  let ?s = "s\<lparr>sFirstLiveSeq := int (length (sLog s))\<rparr>"
  define e where "e = \<lparr>evType = EventEndSeed, evSeq = int (length (sLog ?s)), evTime = now,
      evData = Some (JObj [(''inherited'', JBool True)]),
      evSourceEventSeqs = None, evSurfaceOp = None, evIgnorable = False\<rparr>"
  obtain r where run: "surface_run (sLog s) = Ok r" using session_run [OF assms] by blast
  have "\<exists>r. surface_run (sLog s @ [e]) = Ok r"
    by (rule surface_append_ok [OF run])
      (auto simp: e_def IsSurfaceEventType_def SurfaceEventTypes_def event_type_defs)
  moreover obtain m res where v: "ValidateNext (sSurface s) (sLog s) e = (m, res)"
    by (cases "ValidateNext (sSurface s) (sLog s) e")
  ultimately have "res = Ok ()"
    using ValidateNext_correct(3) [OF _ v] assms by (simp add: session_inv_def)
  moreover have "assertSupportedRequestHeader EventEndSeed (Some (JObj [(''inherited'', JBool True)])) = Ok ()"
    "assertMessageEventShape e = Ok ()"
    by (simp_all add: assertSupportedRequestHeader_def assertMessageEventShape_def e_def event_type_defs)
  ultimately have ap: "Append now ?s EventEndSeed (Some (JObj [(''inherited'', JBool True)])) None
      = (?s\<lparr>sSurface := m, sLog := sLog s @ [e], sEventsSnapshot := None\<rparr>, Ok e)"
    using v by (simp add: Append_split [where e = e] e_def)
  have "session_inv (?s\<lparr>sSurface := m, sLog := sLog s @ [e], sEventsSnapshot := None\<rparr>)"
    using Append_inv [OF _ ap] assms by simp
  with ap False show ?thesis by (simp add: markSeed_def Let_def e_def)
qed

lemma newSession_restores:
  assumes "surface_run evs = Ok r" and "\<forall>e \<in> set evs. \<forall>j. validateSeedEvent e j = Ok ()"
    and "validateSessionHeader i h = Ok ()" and "resolveInherited i h (Some evs) n = Ok inh"
  shows "\<exists>s'. NewRestored now i (Some evs) h n = Ok s' \<and> sHeader s' = h \<and> sInheritedEventCount s' = inh
     \<and> sLog s' = evs @ (if evs = [] \<or> evType (last evs) = EventEndSeed then []
         else [\<lparr>evType = EventEndSeed, evSeq = int (length evs), evTime = now,
                evData = Some (JObj [(''inherited'', JBool True)]), evSourceEventSeqs = None,
                evSurfaceOp = None, evIgnorable = False\<rparr>])"
proof -
  have b: "sLog (blank_session h inh) = []" "sEventsSnapshot (blank_session h inh) = None"
    "sHeader (blank_session h inh) = h" "sInheritedEventCount (blank_session h inh) = inh"
    by (simp_all add: blank_session_def)
  obtain s1 where s1: "seedLoop 0 (blank_session h inh) evs = Ok s1"
    using seedLoop_succeeds [OF session_inv_blank b(2), of evs r] assms(1,2) b by auto
  have i1: "session_inv s1" "sLog s1 = evs" "sHeader s1 = h" "sInheritedEventCount s1 = inh"
    using seedLoop_inv [OF s1 session_inv_blank b(2)] b by auto
  from markSeed_log [OF i1(1), of now] s1 assms(3,4) i1
  show ?thesis by (auto simp: NewRestored_def newSession_def resolveHeader_def)
qed

lemma admitted_validates:
  "event_admitted e \<Longrightarrow> evType e \<noteq> [] \<Longrightarrow> 0 \<le> evSeq e \<Longrightarrow> 0 \<le> evTime e \<Longrightarrow> validateSeedEvent e j = Ok ()"
  by (simp add: event_admitted_def validateSeedEvent_def)

text \<open>C17: A live session can always be reopened from its log: restoring the log of any reachable
  session under a valid header succeeds and gives back the same events, followed by one end-of-seed
  marker unless the log is empty or already ends in one (so reopening twice adds nothing).  The two
  side conditions are the checks the seed boundary makes and the append boundary does not.\<close>

theorem live_log_restores:
  assumes "session_reach s" and "\<forall>e \<in> set (sLog s). evType e \<noteq> [] \<and> 0 \<le> evTime e"
    and "validateSessionHeader i h = Ok ()" and "resolveInherited i h (Some (sLog s)) n = Ok inh"
  shows "\<exists>s'. NewRestored now i (Some (sLog s)) h n = Ok s' \<and> sHeader s' = h \<and> sInheritedEventCount s' = inh
     \<and> sLog s' = sLog s @ (if sLog s = [] \<or> evType (last (sLog s)) = EventEndSeed then []
         else [\<lparr>evType = EventEndSeed, evSeq = int (length (sLog s)), evTime = now,
                evData = Some (JObj [(''inherited'', JBool True)]), evSourceEventSeqs = None,
                evSurfaceOp = None, evIgnorable = False\<rparr>])"
proof -
  from session_run [OF session_reach_inv [OF assms(1)]] obtain st rs where
    r: "surface_run (sLog s) = Ok (st, rs)" by auto
  have "\<forall>e \<in> set (sLog s). 0 \<le> evSeq e"
    using surface_run_seq [OF r] by (metis in_set_conv_nth of_nat_0_le_iff)
  then have "\<forall>e \<in> set (sLog s). \<forall>j. validateSeedEvent e j = Ok ()"
    using session_reach_admitted [OF assms(1)] assms(2) admitted_validates by blast
  from newSession_restores [OF r this assms(3,4)] show ?thesis .
qed

theorem live_log_restores_witness:
  "\<exists>s'. NewRestored 9 ''s'' (Some (sLog (fst demo_appended))) (sHeader demo_start) 0 = Ok s'
     \<and> length (sLog s') = 2"
proof -
  have h: "validateSessionHeader ''s'' (sHeader demo_start) = Ok ()"
    by (simp add: demo_start_def blank_session_def validateSessionHeader_def zero_header_def)
  have i: "resolveInherited ''s'' (sHeader demo_start) (Some (sLog (fst demo_appended))) 0 = Ok 0"
    by (simp add: demo_start_def blank_session_def resolveInherited_def zero_header_def)
  have t: "\<forall>e \<in> set (sLog (fst demo_appended)). evType e \<noteq> [] \<and> 0 \<le> evTime e"
    by (simp add: demo_appended_log demo_event_def event_type_defs)
  from live_log_restores [OF demo_appended_reach t h i, of 9] show ?thesis
    by (auto simp: demo_appended_log demo_event_def event_type_defs)
qed

text \<open>\<open>OwnEvents\<close> never returns: it calls \<open>Events\<close> while it holds the session lock, which
  \<open>Events\<close> waits for.\<close>

theorem own_events_never_returns: "OwnEvents s = None"
  by (simp add: OwnEvents_def Events_def)

lemma stopEquals_prefix: "stopEquals xs (xs @ ys) = Ok True"
  by (induction xs) auto

lemma stopEquals_longer: "ys \<noteq> [] \<Longrightarrow> stopEquals (xs @ ys) xs = Panic"
  by (induction xs) (auto simp: neq_Nil_conv)

lemma dec_source_tool: "dec_source v (enc_source (zero_source\<lparr>srcKind := k, srcCallID := []\<rparr>)) = (v\<lparr>srcKind := k\<rparr>, True)"
  by (simp add: dec_source_def enc_source_def zero_source_def mem_defs dec_struct_def source_fields_def
      find_field_def fld_def dec_string_def)

lemma zero_source_callID [simp]: "srcCallID zero_source = []"
  by (simp add: zero_source_def)

lemma closeCall_empty_shape:
  assumes "pcCallID c = []"
  shows "assertMessageEventShape (closeCall turn time seq c) \<noteq> Ok ()"
proof 
  assume "assertMessageEventShape (closeCall turn time seq c) = Ok ()"
  then obtain d where "DecodeToolResult (closeCall turn time seq c) = Ok d" "srcCallID (msgSource (trMessage d)) \<noteq> []"
    by (auto simp: assertMessageEventShape_def event_type_defs outcome_simps toolResultShape_def split: if_splits)
  then show False using assms 
    by (auto simp: DecodeToolResult_def decodePayload_def unmarshal_ok_def unmarshal_def closeCall_def Let_def
       enc_result_def dec_result_def dec_struct_def mem_defs find_field_def fld_def dec_message_def
       enc_message_def NewToolResultMessage_def dec_source_tool zero_result_def zero_message_def
       split: if_splits option.splits prod.splits)
qed

text \<open>A crashed log in whose open turn a call was registered under the empty id cannot be
  reopened: the result repair synthesises for it fails the shape check of the seed boundary.  Repair reads
  the id of a tool-call block from \<open>toolCallId\<close>, while the stream assembler stores it in \<open>id\<close>.\<close>

theorem repaired_empty_call_unloadable:
  assumes "0 \<le> rsOpenTurn (repair_scan evs)" and "evs \<noteq> []"
    and "c \<in> set (rsPending (repair_scan evs))" and "pcCallID c = []"
  shows "NewRestored now i (Some (evs @ InterruptedTurnClosers evs)) h n \<noteq> Ok s"
proof
  assume "NewRestored now i (Some (evs @ InterruptedTurnClosers evs)) h n = Ok s"
  then obtain b s1 where l: "seedLoop 0 b (evs @ InterruptedTurnClosers evs) = Ok s1"
    by (auto simp: NewRestored_def newSession_def andThen_Ok_iff)
  obtain k where k: "k < length (rsPending (repair_scan evs))" "rsPending (repair_scan evs) ! k = c"
    using assms(3) by (auto simp: in_set_conv_nth)
  have "closeCall (rsOpenTurn (repair_scan evs)) (evTime (last evs)) (evSeq (last evs) + 1 + int k) c
      \<in> set (InterruptedTurnClosers evs)"
    using k closeCalls_nth [OF k(1)] assms(1,2)
    by (cases evs rule: closers_cases) (auto simp: in_set_conv_nth nth_append intro!: exI [of _ k])
  then obtain t u v where "closeCall t u v c \<in> set (InterruptedTurnClosers evs)" by blast
  then have "event_admitted (closeCall t u v c)"
    using seedLoop_validates [OF l] validateSeedEvent_admitted by fastforce
  with closeCall_empty_shape [OF assms(4)] show False by (simp add: event_admitted_def)
qed

definition demo_assembled :: "event list" where
  "demo_assembled = take 2 demo_open @
     [zero_event\<lparr>evType := EventAssistantMsg, evSeq := 2, evTime := 8, evSurfaceOp := Some append_op,
        evData := Some (JObj [(''turn'', JInt 3), (''step'', JInt 1), (''message'',
          JObj [(''id'', JStr ''m''), (''role'', JStr ''assistant''),
            (''source'', JObj [(''kind'', JStr ''model''), (''provider'', JStr ''p''), (''model'', JStr ''x'')]),
            (''content'', JArr [JObj [(''type'', JStr ''tool-call''), (''id'', JStr ''c''),
               (''name'', JStr ''bash'')]])])])\<rparr>]"

theorem repaired_empty_call_unloadable_witness:
  "is_Ok (NewRestored 9 ''s'' (Some demo_assembled) (sHeader demo_start) 0)
   \<and> \<not> (\<exists>s. NewRestored 9 ''s'' (Some (demo_assembled @ InterruptedTurnClosers demo_assembled)) (sHeader demo_start) 0 = Ok s)"
proof -
  let ?c = "\<lparr>pcCallID = [], pcStep = 1, pcCallSeq = 0, pcStarted = False\<rparr>"
  have "rsPending (repair_scan demo_assembled) = [?c]" and "rsOpenTurn (repair_scan demo_assembled) = 3"
    by code_simp+
  moreover have "is_Ok (NewRestored 9 ''s'' (Some demo_assembled) (sHeader demo_start) 0)" by code_simp
  ultimately show ?thesis
    using repaired_empty_call_unloadable [of demo_assembled ?c] by (auto simp: demo_assembled_def)
qed

text \<open>Comparing call configurations is wrong on stop lists of different lengths: when all else
  agrees, a first list that properly extends the second makes the comparison panic, and a second one
  that extends the first compares equal.\<close>

theorem config_equality_stop_lists:
  assumes "extra \<noteq> []"
  shows "CallConfigEquals (c\<lparr>ccStop := Some (stops @ extra)\<rparr>) (c\<lparr>ccStop := Some stops\<rparr>) = Panic
    \<and> CallConfigEquals (c\<lparr>ccStop := Some stops\<rparr>) (c\<lparr>ccStop := Some (stops @ extra)\<rparr>) = Ok True"
  using assms by (simp add: CallConfigEquals_def stopEquals_prefix stopEquals_longer)

theorem config_equality_stop_lists_witness:
  "CallConfigEquals (zero_config\<lparr>ccStop := Some [''a'']\<rparr>) (zero_config\<lparr>ccStop := Some []\<rparr>)
     = (Panic :: (wire_error, bool) outcome)"
proof -
  have "CallConfigEquals (zero_config\<lparr>ccStop := Some ([] @ [''a''])\<rparr>) (zero_config\<lparr>ccStop := Some []\<rparr>)
     = (Panic :: (wire_error, bool) outcome)"
    by (rule conjunct1 [OF config_equality_stop_lists]) simp
  then show ?thesis by simp
qed


end
