(* ===== verification/Session_Storage.thy ===== *)
theory Session_Storage
  imports Session_Log
begin

text \<open>
  \<open>session/storage.go\<close> and the record decoder of \<open>session/persistence/jsonl/jsonl.go\<close>: the lossless
  range encoding of provenance, the packing of delta-chunk runs into rows, and the reading of both.
  A stored line is represented by the value of its JSON text.
\<close>

section \<open>Model\<close>

datatype storage_error =
    SeqsNotArray | SeqsNegative | SeqsExceed | SeqsPair | SeqsOrder | SeqsRangeExceeds
  | SeqsNotIncreasing
  | MalformedRow string string
  | RecordNotObject | RecordSeq | RecordEvent wire_error

subsection \<open>Seq ranges\<close>

fun isStrictlyIncreasing :: "int list \<Rightarrow> bool" where
  "isStrictlyIncreasing (x # y # ys) = (if y \<le> x then False else isStrictlyIncreasing (y # ys))"
| "isStrictlyIncreasing _ = True"

text \<open>The inner loop: how many values follow \<open>v\<close> without a gap.  The list is strictly increasing, so
  the successor of a value that has a follower does not overflow.\<close>

fun runLength :: "int \<Rightarrow> int list \<Rightarrow> nat" where
  "runLength v (w # ws) = (if w = v + 1 then Suc (runLength w ws) else 0)"
| "runLength v [] = 0"

lemma runLength_le: "runLength v ws \<le> length ws"
  by (induction v ws rule: runLength.induct) auto

function encodeRuns :: "int list \<Rightarrow> json list" where
  "encodeRuns [] = []"
| "encodeRuns (v # vs) =
     (let n = runLength v vs in
      (if n \<ge> 2 then [JArr [JInt v, JInt ((v # vs) ! n)]] else map JInt (v # take n vs))
      @ encodeRuns (drop n vs))"
  by pat_completeness auto
termination by (relation "measure length") (auto simp: le_imp_less_Suc)

definition EncodeSeqRanges :: "int list \<Rightarrow> json list" where
  "EncodeSeqRanges values =
     (if \<not> isStrictlyIncreasing values then map JInt values else encodeRuns values)"

text \<open>
  A number of a record comes as a \<open>json.Number\<close> (the scanner), as an \<open>int64\<close> (the encoder)
  or as a \<open>float64\<close> (a plain decode); only the last one accepts a literal with a fraction.
\<close>

datatype plane = Exact | Float

definition storageNumberInt :: "plane \<Rightarrow> json \<Rightarrow> int option" where
  "storageNumberInt p value =
     (case p of
        Float \<Rightarrow> float_integer value
      | Exact \<Rightarrow> (case value of
                    JInt n \<Rightarrow> if n > maxSafeInteger \<or> n < - maxSafeInteger then None else Some n
                  | _ \<Rightarrow> None))"

text \<open>One entry: the values it stands for, and whether it is a range.\<close>

definition decodeEntry :: "plane \<Rightarrow> int \<Rightarrow> int \<Rightarrow> json \<Rightarrow> (storage_error, int list \<times> bool) outcome" where
  "decodeEntry p maxEntries have entry =
     (case storageNumberInt p entry of
        Some seq \<Rightarrow>
          if seq < 0 then Err SeqsNegative
          else if have \<ge> maxEntries then Err SeqsExceed
          else Ok ([seq], False)
      | None \<Rightarrow>
          (case entry of
             JArr [startValue, endValue] \<Rightarrow>
               (case (storageNumberInt p startValue, storageNumberInt p endValue) of
                  (Some start, Some end') \<Rightarrow>
                    if start < 0 \<or> end' < 0 then Err SeqsNegative
                    else if end' < start then Err SeqsOrder
                    else if end' - start + 1 > maxEntries - have then Err SeqsRangeExceeds
                    else Ok ([start..end'], True)
                | _ \<Rightarrow> Err SeqsPair)
           | _ \<Rightarrow> Err SeqsPair))"

fun decodeEntries ::
    "plane \<Rightarrow> int \<Rightarrow> int list \<Rightarrow> bool \<Rightarrow> json list \<Rightarrow> (storage_error, int list \<times> bool) outcome" where
  "decodeEntries p maxEntries decoded hasRange [] = Ok (decoded, hasRange)"
| "decodeEntries p maxEntries decoded hasRange (entry # rest) =
     andThen (decodeEntry p maxEntries (int (length decoded)) entry) (\<lambda>(vs, r).
       decodeEntries p maxEntries (decoded @ vs) (hasRange \<or> r) rest)"

text \<open>The result slice is nil when nothing was appended to it.\<close>

definition DecodeSeqRanges :: "plane \<Rightarrow> json \<Rightarrow> int \<Rightarrow> (storage_error, int list option) outcome" where
  "DecodeSeqRanges p value maxEntries =
     (case value of
        JArr entries \<Rightarrow>
          andThen (decodeEntries p maxEntries [] False entries) (\<lambda>(decoded, hasRange).
            if hasRange \<and> \<not> isStrictlyIncreasing decoded then Err SeqsNotIncreasing
            else Ok (if decoded = [] then None else Some decoded))
      | _ \<Rightarrow> Err SeqsNotArray)"

subsection \<open>Chunk rows\<close>

definition RowTextChunks :: string where "RowTextChunks = ''text-chunks''"
definition RowReasoningChunks :: string where "RowReasoningChunks = ''reasoning-chunks''"
definition RowToolCallChunks :: string where "RowToolCallChunks = ''tool-call-chunks''"

definition minRun :: nat where "minRun = 3"

definition hasExactKeys :: "(string \<times> json) list \<Rightarrow> string list \<Rightarrow> bool" where
  "hasExactKeys value keys \<longleftrightarrow>
     length (obj_keys value) = length keys \<and> list_all (\<lambda>key. obj_get key value \<noteq> None) keys"

definition isString :: "json \<Rightarrow> bool" where
  "isString j = (case j of JStr _ \<Rightarrow> True | _ \<Rightarrow> False)"

definition classifyChunk :: "(string \<times> json) list \<Rightarrow> string" where
  "classifyChunk chunk =
     (if storageNumberInt Float (obj_index chunk ''index'') = None then []
      else case obj_index chunk ''type'' of
        JStr t \<Rightarrow>
          if t = ''text-delta'' \<or> t = ''reasoning-delta'' then
            (if hasExactKeys chunk [''type'', ''index'', ''text''] \<and> isString (obj_index chunk ''text'')
             then t else [])
          else if t = ''tool-call-delta'' then
            (let withName = hasExactKeys chunk [''type'', ''index'', ''id'', ''name'', ''argumentsDelta''];
                 plain = hasExactKeys chunk [''type'', ''index'', ''id'', ''argumentsDelta''] in
             if \<not> withName \<and> \<not> plain then []
             else if withName \<and> \<not> isString (obj_index chunk ''name'') then []
             else if \<not> isString (obj_index chunk ''id'') then []
             else if \<not> isString (obj_index chunk ''argumentsDelta'') then []
             else ''tool-call-delta'')
          else []
      | _ \<Rightarrow> [])"

definition classify :: "event \<Rightarrow> string" where
  "classify event =
     (if evType event \<noteq> EventAssistantChunk then []
      else case evData event of
        Some (JObj envelope) \<Rightarrow>
          if \<not> hasExactKeys envelope [''turn'', ''step'', ''chunk''] then []
          else if storageNumberInt Float (obj_index envelope ''turn'') = None then []
          else if storageNumberInt Float (obj_index envelope ''step'') = None then []
          else (case obj_index envelope ''chunk'' of JObj chunk \<Rightarrow> classifyChunk chunk | _ \<Rightarrow> [])
      | _ \<Rightarrow> [])"

text \<open>The anonymous structs the payload is decoded into; a struct of one field is that field.\<close>

definition chunkIndex :: "event \<Rightarrow> int" where
  "chunkIndex event =
     fst (unmarshal (dec_struct [(''chunk'', dec_struct [(''index'', dec_int64)])]) 0 (evData event))"

definition chunkMembers :: "event \<Rightarrow> (string \<times> json) list" where
  "chunkMembers event =
     (case fst (unmarshal (dec_struct [(''chunk'', dec_map)]) None (evData event)) of
        None \<Rightarrow> [] | Some kvs \<Rightarrow> kvs)"

definition chunkString :: "event \<Rightarrow> string \<Rightarrow> string" where
  "chunkString event key = fst (unmarshal dec_string [] (obj_get key (chunkMembers event)))"

definition decodeChunkHasName :: "event \<Rightarrow> bool" where
  "decodeChunkHasName event \<longleftrightarrow> obj_get ''name'' (chunkMembers event) \<noteq> None"

definition continuesRun :: "event \<Rightarrow> event \<Rightarrow> string \<Rightarrow> bool" where
  "continuesRun prev next' kind =
     (let gap = i64 (evTime next' - evTime prev);
          prevData = fst (unmarshal dec_step_data \<lparr>sdTurn = 0, sdStep = 0\<rparr> (evData prev));
          nextData = fst (unmarshal dec_step_data \<lparr>sdTurn = 0, sdStep = 0\<rparr> (evData next'))
      in if evSeq next' \<noteq> i64 (evSeq prev + 1) then False
         else if gap > maxSafeInteger \<or> gap < - maxSafeInteger then False
         else if sdTurn prevData \<noteq> sdTurn nextData \<or> sdStep prevData \<noteq> sdStep nextData then False
         else if chunkIndex next' \<noteq> chunkIndex prev then False
         else if kind \<noteq> ''tool-call-delta'' then True
         else chunkString prev ''id'' = chunkString next' ''id''
              \<and> decodeChunkHasName prev = decodeChunkHasName next'
              \<and> chunkString prev ''name'' = chunkString next' ''name'')"

fun gaps :: "event list \<Rightarrow> int list" where
  "gaps (a # b # es) = i64 (evTime b - evTime a) # gaps (b # es)"
| "gaps _ = []"

definition firstMember :: "event \<Rightarrow> string \<Rightarrow> json" where
  "firstMember first key =
     (case evData first of Some (JObj kvs) \<Rightarrow> to_any (obj_index kvs key) | _ \<Rightarrow> JNull)"

definition buildChunkRow :: "string \<Rightarrow> event list \<Rightarrow> json" where
  "buildChunkRow kind run =
     (let first = hd run; dt = JArr (map JInt (gaps run));
          common = [(''turn'', firstMember first ''turn''), (''step'', firstMember first ''step''),
                    (''index'', JInt (chunkIndex first))]
      in if kind = ''tool-call-delta'' then
           JObj [(''type'', JStr RowToolCallChunks), (''seq0'', JInt (evSeq first)),
             (''time0'', JInt (evTime first)),
             (''data'', JObj (common @ [(''id'', JStr (chunkString first ''id'')), (''dt'', dt)]
                @ (if decodeChunkHasName first then [(''name'', JStr (chunkString first ''name''))] else [])
                @ [(''args'', JArr (map (\<lambda>e. JStr (chunkString e ''argumentsDelta'')) run))]))]
         else
           JObj [(''type'', JStr (if kind = ''reasoning-delta'' then RowReasoningChunks else RowTextChunks)),
             (''seq0'', JInt (evSeq first)), (''time0'', JInt (evTime first)),
             (''data'', JObj (common @ [(''dt'', dt),
                (''texts'', JArr (map (\<lambda>e. JStr (chunkString e ''text'')) run))]))])"

text \<open>An event that cannot be marshalled is a programming error: the call panics.\<close>

definition eventToMap :: "event \<Rightarrow> (storage_error, json) outcome" where
  "eventToMap event = (case MarshalEvent event of Ok j \<Rightarrow> Ok (to_any j) | _ \<Rightarrow> Panic)"

fun eventMaps :: "event list \<Rightarrow> (storage_error, json list) outcome" where
  "eventMaps [] = Ok []"
| "eventMaps (e # es) = andThen (eventToMap e) (\<lambda>j. andThen (eventMaps es) (\<lambda>js. Ok (j # js)))"

record pack_state =
  pkOut :: "json list"
  pkKind :: string
  pkRun :: "event list"

definition packFlush :: "pack_state \<Rightarrow> (storage_error, pack_state) outcome" where
  "packFlush s =
     (if pkKind s \<noteq> [] \<and> length (pkRun s) \<ge> minRun
      then Ok \<lparr>pkOut = pkOut s @ [buildChunkRow (pkKind s) (pkRun s)], pkKind = [], pkRun = []\<rparr>
      else andThen (eventMaps (pkRun s)) (\<lambda>js.
             Ok \<lparr>pkOut = pkOut s @ js, pkKind = [], pkRun = []\<rparr>))"

definition packStep :: "pack_state \<Rightarrow> event \<Rightarrow> (storage_error, pack_state) outcome" where
  "packStep s event =
     (let k = classify event in
      if k = [] then
        andThen (packFlush s) (\<lambda>s'.
        andThen (eventToMap event) (\<lambda>j. Ok (s'\<lparr>pkOut := pkOut s' @ [j]\<rparr>)))
      else if k = pkKind s \<and> pkRun s \<noteq> [] \<and> continuesRun (last (pkRun s)) event k then
        Ok (s\<lparr>pkRun := pkRun s @ [event]\<rparr>)
      else andThen (packFlush s) (\<lambda>s'. Ok (s'\<lparr>pkKind := k, pkRun := [event]\<rparr>)))"

definition PackChunkRuns :: "event list \<Rightarrow> (storage_error, json list) outcome" where
  "PackChunkRuns events =
     andThen (foldM packStep \<lparr>pkOut = [], pkKind = [], pkRun = []\<rparr> events) (\<lambda>s.
     andThen (packFlush s) (\<lambda>s'. Ok (pkOut s')))"

text \<open>The record is the \<open>float64\<close> decode of an event, or a row, which has no provenance.\<close>

definition EncodeProvenanceForStorage :: "json \<Rightarrow> (storage_error, json) outcome" where
  "EncodeProvenanceForStorage record' =
     (case record' of
        JObj kvs \<Rightarrow>
          (case obj_get ''sourceEventSeqs'' kvs of
             None \<Rightarrow> Ok record'
           | Some raw \<Rightarrow>
               (case storageNumberInt Float (obj_index kvs ''seq'') of
                  None \<Rightarrow> Err RecordSeq
                | Some seq \<Rightarrow>
                    if seq < 0 then Err RecordSeq
                    else andThen (DecodeSeqRanges Float raw seq) (\<lambda>decoded.
                      Ok (JObj (kvs @ [(''sourceEventSeqs'',
                        JArr (EncodeSeqRanges (case decoded of None \<Rightarrow> [] | Some xs \<Rightarrow> xs)))])))))
      | _ \<Rightarrow> Ok record')"

fun encodeRecords :: "json list \<Rightarrow> (storage_error, json list) outcome" where
  "encodeRecords [] = Ok []"
| "encodeRecords (r # rs) =
     andThen (EncodeProvenanceForStorage r) (\<lambda>encoded.
     andThen (encodeRecords rs) (\<lambda>rest. Ok (marshal_any encoded # rest)))"

text \<open>The values of the lines; the text of a line is written by the marshaller, an argument.\<close>

definition eventRecords :: "event list \<Rightarrow> bool \<Rightarrow> (storage_error, json list) outcome" where
  "eventRecords events packChunks =
     andThen (if packChunks then PackChunkRuns events else eventMaps events) encodeRecords"

definition EventLines :: "(json \<Rightarrow> string) \<Rightarrow> event list \<Rightarrow> bool \<Rightarrow> (storage_error, string) outcome" where
  "EventLines print' events packChunks =
     andThen (eventRecords events packChunks) (\<lambda>records. Ok (join [CHR 0x0A] (map print' records)))"

subsection \<open>Reading records\<close>

definition stringSlice :: "json \<Rightarrow> string list option" where
  "stringSlice value =
     (case value of
        JArr js \<Rightarrow> if list_all isString js
                     then Some (map (\<lambda>j. case j of JStr s \<Rightarrow> s | _ \<Rightarrow> []) js) else None
      | _ \<Rightarrow> None)"

definition intSlice :: "plane \<Rightarrow> json \<Rightarrow> int list option" where
  "intSlice p value =
     (case value of
        JArr js \<Rightarrow> if list_all (\<lambda>j. storageNumberInt p j \<noteq> None) js
                     then Some (map (\<lambda>j. case storageNumberInt p j of Some n \<Rightarrow> n | None \<Rightarrow> 0) js) else None
      | _ \<Rightarrow> None)"

text \<open>Both operands are safe integers at every addition, so the sum does not wrap.\<close>

fun timesStaySafe :: "int \<Rightarrow> int list \<Rightarrow> bool" where
  "timesStaySafe time [] = True"
| "timesStaySafe time (gap # rest) =
     (if time + gap > maxSafeInteger \<or> time + gap < - maxSafeInteger then False
      else timesStaySafe (time + gap) rest)"

definition validateMembers ::
    "plane \<Rightarrow> string \<Rightarrow> int \<Rightarrow> int \<Rightarrow> (string \<times> json) list \<Rightarrow> string \<Rightarrow> (storage_error, unit) outcome" where
  "validateMembers p tag seq0 time0 data payloadKey =
     (case stringSlice (obj_index data payloadKey) of
        None \<Rightarrow> Err (MalformedRow tag payloadKey)
      | Some payload \<Rightarrow>
          if payload = [] then Err (MalformedRow tag payloadKey)
          else case intSlice p (obj_index data ''dt'') of
            None \<Rightarrow> Err (MalformedRow tag ''dt'')
          | Some dt \<Rightarrow>
              if int (length dt) \<noteq> int (length payload) - 1 then Err (MalformedRow tag ''dt length'')
              else if int (length payload) - 1 > maxSafeInteger - seq0 then Err (MalformedRow tag ''member seqs'')
              else if \<not> timesStaySafe time0 dt then Err (MalformedRow tag ''member times'')
              else Ok ())"

definition validateRow ::
    "plane \<Rightarrow> (string \<times> json) list
       \<Rightarrow> (storage_error, int \<times> int \<times> (string \<times> json) list) outcome" where
  "validateRow p value =
     (let tag = (case obj_index value ''type'' of JStr s \<Rightarrow> s | _ \<Rightarrow> []) in
      if \<not> hasExactKeys value [''type'', ''seq0'', ''time0'', ''data''] then Err (MalformedRow tag ''envelope'')
      else case storageNumberInt p (obj_index value ''seq0'') of
        None \<Rightarrow> Err (MalformedRow tag ''seq0'')
      | Some seq0 \<Rightarrow>
          if seq0 < 0 then Err (MalformedRow tag ''seq0'')
          else case storageNumberInt p (obj_index value ''time0'') of
            None \<Rightarrow> Err (MalformedRow tag ''time0'')
          | Some time0 \<Rightarrow>
              (case obj_index value ''data'' of
                 JObj data \<Rightarrow>
                   if tag = RowToolCallChunks then
                     (let withName = hasExactKeys data [''turn'', ''step'', ''index'', ''id'', ''name'', ''dt'', ''args''];
                          plain = hasExactKeys data [''turn'', ''step'', ''index'', ''id'', ''dt'', ''args''] in
                      if \<not> withName \<and> \<not> plain then Err (MalformedRow tag ''data keys'')
                      else if \<not> isString (obj_index data ''id'') then Err (MalformedRow tag ''id'')
                      else if withName \<and> \<not> isString (obj_index data ''name'') then Err (MalformedRow tag ''id'')
                      else andThen (validateMembers p tag seq0 time0 data ''args'') (\<lambda>_. Ok (seq0, time0, data)))
                   else if \<not> hasExactKeys data [''turn'', ''step'', ''index'', ''dt'', ''texts'']
                   then Err (MalformedRow tag ''data keys'')
                   else andThen (validateMembers p tag seq0 time0 data ''texts'') (\<lambda>_. Ok (seq0, time0, data))
               | _ \<Rightarrow> Err (MalformedRow tag ''data'')))"

definition memberChunk :: "string \<Rightarrow> int \<Rightarrow> (string \<times> json) list \<Rightarrow> string \<Rightarrow> json" where
  "memberChunk tag index data member =
     marshal_any (JObj ([(''index'', JInt index)]
       @ (if tag = RowTextChunks then [(''type'', JStr ''text-delta''), (''text'', JStr member)]
          else if tag = RowReasoningChunks then [(''type'', JStr ''reasoning-delta''), (''text'', JStr member)]
          else [(''type'', JStr ''tool-call-delta''),
                (''id'', JStr (case obj_index data ''id'' of JStr s \<Rightarrow> s | _ \<Rightarrow> []))]
               @ (case obj_get ''name'' data of
                    None \<Rightarrow> []
                  | Some rawName \<Rightarrow> [(''name'', JStr (case rawName of JStr s \<Rightarrow> s | _ \<Rightarrow> []))])
               @ [(''argumentsDelta'', JStr member)])))"

fun expandMembers ::
    "int \<Rightarrow> int \<Rightarrow> (string \<Rightarrow> json) \<Rightarrow> int \<Rightarrow> int \<Rightarrow> int list \<Rightarrow> string list \<Rightarrow> event list" where
  "expandMembers turn step mk seq time dt [] = []"
| "expandMembers turn step mk seq time dt (member # rest) =
     \<lparr>evType = EventAssistantChunk, evSeq = seq, evTime = time,
      evData = Some (marshal_any (JObj [(''turn'', JInt turn), (''step'', JInt step), (''chunk'', mk member)])),
      evSourceEventSeqs = None, evSurfaceOp = None, evIgnorable = False\<rparr>
     # (case dt of
          [] \<Rightarrow> expandMembers turn step mk (seq + 1) time [] rest
        | gap # dt' \<Rightarrow> expandMembers turn step mk (seq + 1) (time + gap) dt' rest)"

definition eventFromParsed :: "json \<Rightarrow> (storage_error, event) outcome" where
  "eventFromParsed record' = map_err RecordEvent (UnmarshalEvent (marshal_any record'))"

definition numberOr0 :: "plane \<Rightarrow> json \<Rightarrow> int" where
  "numberOr0 p j = (case storageNumberInt p j of Some n \<Rightarrow> n | None \<Rightarrow> 0)"

definition DecodeStorageRecord :: "plane \<Rightarrow> json \<Rightarrow> (storage_error, event list) outcome" where
  "DecodeStorageRecord p value =
     (case value of
        JObj record' \<Rightarrow>
          (let tag = (case obj_index record' ''type'' of JStr s \<Rightarrow> s | _ \<Rightarrow> []) in
           if tag \<noteq> RowTextChunks \<and> tag \<noteq> RowReasoningChunks \<and> tag \<noteq> RowToolCallChunks
           then andThen (eventFromParsed value) (\<lambda>event. Ok [event])
           else andThen (validateRow p record') (\<lambda>(seq0, time0, data).
             let turn = numberOr0 p (obj_index data ''turn''); step = numberOr0 p (obj_index data ''step'');
                 index = numberOr0 p (obj_index data ''index'');
                 dt = (case intSlice p (obj_index data ''dt'') of Some xs \<Rightarrow> xs | None \<Rightarrow> []);
                 payloadKey = (if tag = RowToolCallChunks then ''args'' else ''texts'');
                 members = (case stringSlice (obj_index data payloadKey) of Some xs \<Rightarrow> xs | None \<Rightarrow> [])
             in Ok (expandMembers turn step (memberChunk tag index data) seq0 time0 dt members)))
      | _ \<Rightarrow> Err RecordNotObject)"

lemmas row_defs = RowTextChunks_def RowReasoningChunks_def RowToolCallChunks_def

text \<open>\<open>SessionLogScanner.decodeEventLine\<close> on the value of a line: ranges are expanded against the
  record's own seq before the record is decoded.\<close>

definition decodeRecord :: "json \<Rightarrow> (storage_error, event list) outcome" where
  "decodeRecord parsed =
     (case parsed of
        JObj kvs \<Rightarrow>
          (case obj_get ''sourceEventSeqs'' kvs of
             None \<Rightarrow> DecodeStorageRecord Exact parsed
           | Some raw \<Rightarrow>
               (case obj_index kvs ''seq'' of
                  JInt seq \<Rightarrow>
                    if \<not> in_i64 seq \<or> seq < 0 then Err RecordSeq
                    else andThen (DecodeSeqRanges Exact raw seq) (\<lambda>expanded.
                      DecodeStorageRecord Exact (JObj (kvs @ [(''sourceEventSeqs'',
                        case expanded of None \<Rightarrow> JNull | Some xs \<Rightarrow> JArr (map JInt xs))])))
                | _ \<Rightarrow> Err RecordSeq))
      | JNull \<Rightarrow> andThen (eventFromParsed JNull) (\<lambda>event. Ok [event])
      | _ \<Rightarrow> Err RecordNotObject)"

fun decodeRecords :: "json list \<Rightarrow> (storage_error, event list) outcome" where
  "decodeRecords [] = Ok []"
| "decodeRecords (r # rs) =
     andThen (decodeRecord r) (\<lambda>es. andThen (decodeRecords rs) (\<lambda>rest. Ok (es @ rest)))"

end
