(* ===== verification/Storage_Roundtrip.thy ===== *)
theory Storage_Roundtrip
  imports Session_Storage
begin

text \<open>
  That what \<open>Session_Storage\<close> writes reads back as what was stored: first the seq ranges, then what a
  delta event holds, then rows, verbatim records and whole batches.
\<close>

section \<open>Seq ranges round trip\<close>

lemma runLength_nth: "i \<le> runLength v ws \<Longrightarrow> (v # ws) ! i = v + int i"
proof (induction v ws arbitrary: i rule: runLength.induct)
  case (1 v w ws)
  show ?case
  proof (cases i)
    case (Suc k)
    with "1.prems" have "w = v + 1" "k \<le> runLength w ws" by (auto split: if_splits)
    with "1.IH" Suc show ?thesis by simp
  qed simp
qed simp

lemma run_upto: "v # take (runLength v ws) ws = [v..v + int (runLength v ws)]"
proof (rule nth_equalityI)
  fix i assume "i < length (v # take (runLength v ws) ws)"
  then have i: "i \<le> runLength v ws" using runLength_le [of v ws] by simp
  have "(v # take (runLength v ws) ws) ! i = take (Suc (runLength v ws)) (v # ws) ! i" by simp
  also have "\<dots> = v + int i" using i runLength_nth [OF i] by (simp del: take_Suc_Cons)
  also have "\<dots> = [v..v + int (runLength v ws)] ! i" using i by simp
  finally show "(v # take (runLength v ws) ws) ! i = [v..v + int (runLength v ws)] ! i" .
qed (use runLength_le [of v ws] in simp)

lemma strictly_append:
  "isStrictlyIncreasing (xs @ ys) \<Longrightarrow> isStrictlyIncreasing ys"
proof (induction xs)
  case (Cons x xs)
  then show ?case by (cases "xs @ ys") (auto split: if_splits)
qed simp

lemma decodeEntries_singles:
  assumes "\<forall>x \<in> set vs. 0 \<le> x \<and> x \<le> maxSafeInteger" and "int (length acc) + int (length vs) \<le> cap"
  shows "decodeEntries p cap acc r (map JInt vs @ rest) = decodeEntries p cap (acc @ vs) r rest"
  using assms
proof (induction vs arbitrary: acc)
  case (Cons v vs)
  have "decodeEntry p cap (int (length acc)) (JInt v) = Ok ([v], False)"
    using Cons.prems by (cases p) (auto simp: decodeEntry_def storageNumberInt_def float_integer_def)
  then show ?case using Cons by simp
qed simp

lemma decodeEntries_runs:
  assumes "\<forall>x \<in> set vs. 0 \<le> x \<and> x \<le> maxSafeInteger" and "int (length acc) + int (length vs) \<le> cap"
  shows "\<exists>r'. decodeEntries p cap acc r (encodeRuns vs) = Ok (acc @ vs, r')"
  using assms
proof (induction vs arbitrary: acc r rule: encodeRuns.induct)
  case (2 v vs)
  define n where "n = runLength v vs"
  have n: "n \<le> length vs" and up: "v # take n vs = [v..v + int n]" and nth: "(v # vs) ! n = v + int n"
    using runLength_le [of v vs] run_upto [of v vs] runLength_nth [of n v vs] by (simp_all add: n_def)
  have bounds: "0 \<le> v" "v \<le> maxSafeInteger" "0 \<le> v + int n" "v + int n \<le> maxSafeInteger"
    using "2.prems"(1) nth nth_mem [of n "v # vs"] n by auto
  have step: "decodeEntries p cap acc r
      ((if n \<ge> 2 then [JArr [JInt v, JInt ((v # vs) ! n)]] else map JInt (v # take n vs)) @ rest)
    = decodeEntries p cap (acc @ v # take n vs) (r \<or> n \<ge> 2) rest" for rest
  proof (cases "n \<ge> 2")
    case True
    have num: "storageNumberInt p (JInt x) = Some x" if "0 \<le> x" "x \<le> maxSafeInteger" for x
      using that by (cases p) (auto simp: storageNumberInt_def float_integer_def)
    have none: "storageNumberInt p (JArr js) = None" for js
      by (cases p) (auto simp: storageNumberInt_def float_integer_def)
    have "decodeEntry p cap (int (length acc)) (JArr [JInt v, JInt ((v # vs) ! n)]) = Ok ([v..v + int n], True)"
      using bounds "2.prems"(2) n by (simp add: decodeEntry_def num none nth)
    then show ?thesis using True by (simp add: up)
  next
    case False
    then show ?thesis
      using decodeEntries_singles [of "v # take n vs" acc cap p r rest] "2.prems" n
      by (auto dest: in_set_takeD)
  qed
  have "\<exists>r'. decodeEntries p cap (acc @ v # take n vs) (r \<or> n \<ge> 2) (encodeRuns (drop n vs))
      = Ok ((acc @ v # take n vs) @ drop n vs, r')"
    using "2.prems" n by (intro "2.IH" [OF n_def]) (auto dest: in_set_dropD)
  then show ?case using step by (simp add: Let_def flip: n_def)
qed simp

lemma seq_ranges_decode:
  assumes "\<forall>x \<in> set vs. 0 \<le> x \<and> x \<le> maxSafeInteger" and "int (length vs) \<le> cap"
  shows "DecodeSeqRanges p (JArr (EncodeSeqRanges vs)) cap = Ok (if vs = [] then None else Some vs)"
proof (cases "isStrictlyIncreasing vs")
  case True
  with decodeEntries_runs [OF assms(1), of "[]" cap p False] assms(2) obtain r' where
    "decodeEntries p cap [] False (encodeRuns vs) = Ok (vs, r')" by auto
  with True show ?thesis by (simp add: DecodeSeqRanges_def EncodeSeqRanges_def)
next
  case False
  with decodeEntries_singles [OF assms(1), of "[]" cap p False "[]"] assms(2) show ?thesis
    by (simp add: DecodeSeqRanges_def EncodeSeqRanges_def)
qed

lemma obj_keys_exact:
  assumes "hasExactKeys kvs ks" and "distinct ks"
  shows "obj_keys kvs = sort ks"
proof -
  have sub: "set ks \<subseteq> fst ` set kvs"
    using assms(1) by (auto simp: hasExactKeys_def list_all_iff obj_get_None_iff)
  have "card (fst ` set kvs) = card (set ks)"
    using assms distinct_card [OF distinct_obj_keys [of kvs]] distinct_card [OF assms(2)]
    by (simp add: hasExactKeys_def)
  then have "set ks = fst ` set kvs" using card_subset_eq [OF _ sub] by simp
  then show ?thesis
    using assms(2) by (intro sorted_distinct_set_unique) (auto simp: obj_keys_def)
qed

section \<open>What a delta event holds\<close>

definition plainNumber :: "json \<Rightarrow> bool" where
  "plainNumber j = (case j of JInt n \<Rightarrow> \<bar>n\<bar> \<le> maxSafeInteger | _ \<Rightarrow> False)"

text \<open>A payload as \<open>json.Marshal\<close> writes it: no member name twice, numbers written as integers.\<close>

definition plainChunk :: "event \<Rightarrow> bool" where
  "plainChunk e =
     (case evData e of
        Some (JObj env) \<Rightarrow>
          distinct (map fst env) \<and> plainNumber (obj_index env ''turn'') \<and> plainNumber (obj_index env ''step'')
          \<and> (case obj_index env ''chunk'' of
               JObj c \<Rightarrow> distinct (map fst c) \<and> plainNumber (obj_index c ''index'') | _ \<Rightarrow> True)
      | _ \<Rightarrow> True)"

definition deltaBody :: "string \<Rightarrow> event \<Rightarrow> json" where
  "deltaBody k e = marshal_any (JObj ([(''index'', JInt (chunkIndex e)), (''type'', JStr k)]
     @ (if k = ''tool-call-delta''
        then [(''id'', JStr (chunkString e ''id''))]
             @ (if decodeChunkHasName e then [(''name'', JStr (chunkString e ''name''))] else [])
             @ [(''argumentsDelta'', JStr (chunkString e ''argumentsDelta''))]
        else [(''text'', JStr (chunkString e ''text''))])))"

lemma env_keys: "sort [''turn'', ''step'', ''chunk''] = [''chunk'', ''step'', ''turn'']"
  "sort [''type'', ''index'', ''text''] = [''index'', ''text'', ''type'']"
  "sort [''type'', ''index'', ''id'', ''argumentsDelta''] = [''argumentsDelta'', ''id'', ''index'', ''type'']"
  "sort [''type'', ''index'', ''id'', ''name'', ''argumentsDelta'']
     = [''argumentsDelta'', ''id'', ''index'', ''name'', ''type'']"
  by code_simp+

lemma folded_names:
  "map foldName [''turn'', ''step'', ''chunk'', ''type'', ''index'', ''text'', ''id'', ''name'', ''argumentsDelta'']
   = [''TURN'', ''STEP'', ''CHUNK'', ''TYPE'', ''INDEX'', ''TEXT'', ''ID'', ''NAME'', ''ARGUMENTSDELTA'']"
  by code_simp

lemma hasExactKeys_get: "hasExactKeys kvs ks \<Longrightarrow> k \<in> set ks \<Longrightarrow> obj_get k kvs = Some (obj_index kvs k)"
  by (auto simp: hasExactKeys_def list_all_iff obj_index_def split: option.split)

lemma hasExactKeys_set: "hasExactKeys kvs ks \<Longrightarrow> distinct ks \<Longrightarrow> fst ` set kvs = set ks"
  using arg_cong [OF obj_keys_exact [of kvs ks], of set] by simp

lemma classify_cases:
  assumes "classify e = k" and "k \<noteq> []"
  obtains env chunk where "evData e = Some (JObj env)" "hasExactKeys env [''turn'', ''step'', ''chunk'']"
    "obj_index env ''chunk'' = JObj chunk" "classifyChunk chunk = k" "evType e = EventAssistantChunk"
  using assms by (auto simp: classify_def split: if_splits option.splits json.splits)

lemma plainNumberE: assumes "plainNumber j" obtains n where "j = JInt n" "\<bar>n\<bar> \<le> maxSafeInteger"
  using assms by (auto simp: plainNumber_def split: json.splits)

lemma find_none:
  "\<lbrakk>foldName k \<noteq> foldName f; k \<noteq> f\<rbrakk> \<Longrightarrow> find_field [(f, d)] k = None"
  by (simp add: find_field_def)

lemma find_same: "find_field [(f, d)] f = Some d"
  by (simp add: find_field_def)

lemma dec_single:
  assumes "distinct (map fst kvs)" and "\<forall>k \<in> fst ` set kvs. k \<noteq> f \<longrightarrow> foldName k \<noteq> foldName f"
  shows "fst (dec_struct [(f, d)] v (JObj kvs)) = (case obj_get f kvs of None \<Rightarrow> v | Some x \<Rightarrow> fst (d v x))"
  using dec_members_field [where g = id and h = "\<lambda>v x. fst (d v x)", OF assms(1) find_same [of f d], of v] assms(2)
  by (auto simp: dec_struct_def find_none split: option.split)

definition text_keys :: "string list" where "text_keys = [''type'', ''index'', ''text'']"
definition call_keys :: "string list" where "call_keys = [''type'', ''index'', ''id'', ''argumentsDelta'']"
definition named_keys :: "string list" where
  "named_keys = [''type'', ''index'', ''id'', ''name'', ''argumentsDelta'']"

lemmas key_defs = text_keys_def call_keys_def named_keys_def

lemma isStringE: assumes "isString j" obtains s where "j = JStr s"
  using assms by (auto simp: isString_def split: json.splits)

lemma classifyChunk_cases:
  assumes "classifyChunk c = k" and "k \<noteq> []"
  obtains (delta) t where "k = ''text-delta'' \<or> k = ''reasoning-delta''" "hasExactKeys c text_keys"
      "obj_index c ''type'' = JStr k" "obj_index c ''text'' = JStr t"
  | (call) i a where "k = ''tool-call-delta''" "hasExactKeys c call_keys" 
      "obj_index c ''type'' = JStr k" "obj_index c ''id'' = JStr i" "obj_index c ''argumentsDelta'' = JStr a"
  | (named) i a n where "k = ''tool-call-delta''" "hasExactKeys c named_keys" 
      "obj_index c ''type'' = JStr k" "obj_index c ''id'' = JStr i" "obj_index c ''argumentsDelta'' = JStr a"
      "obj_index c ''name'' = JStr n"
  using assms unfolding classifyChunk_def key_defs
  by (auto simp: Let_def elim!: isStringE split: if_splits json.splits)

lemma distinct_keys [simp]: "distinct text_keys" "distinct call_keys" "distinct named_keys"
  by (simp_all add: key_defs)

lemma chunk_decoded:
  assumes "evData e = Some (JObj env)" and "hasExactKeys env [''turn'', ''step'', ''chunk'']"
    and "obj_index env ''chunk'' = JObj chunk" and "distinct (map fst env)"
  shows "chunkMembers e = chunk"
    and "chunkIndex e = fst (dec_struct [(''index'', dec_int64)] 0 (JObj chunk))"
proof -
  have keys: "fst ` set env = {''turn'', ''step'', ''chunk''}" using hasExactKeys_set [OF assms(2)] by simp
  have g: "obj_get ''chunk'' env = Some (JObj chunk)" using hasExactKeys_get [OF assms(2), of "''chunk''"] assms(3) by simp
  have f: "\<forall>k \<in> fst ` set env. k \<noteq> ''chunk'' \<longrightarrow> foldName k \<noteq> foldName ''chunk''"
    using folded_names by (simp add: keys)
  show "chunkMembers e = chunk"
    by (simp add: chunkMembers_def unmarshal_def assms(1) dec_single [OF assms(4) f] g dec_map_def)
  show "chunkIndex e = fst (dec_struct [(''index'', dec_int64)] 0 (JObj chunk))"
    by (simp add: chunkIndex_def unmarshal_def assms(1) dec_single [OF assms(4) f] g)
qed

lemma chunk_index:
  assumes "hasExactKeys c ks" and "set ks \<subseteq> {''type'', ''index'', ''text'', ''id'', ''name'', ''argumentsDelta''}"
    and "distinct ks" and "distinct (map fst c)" and "''index'' \<in> set ks" and "obj_index c ''index'' = JInt n"
    and "\<bar>n\<bar> \<le> maxSafeInteger"
  shows "fst (dec_struct [(''index'', dec_int64)] 0 (JObj c)) = n"
proof -
  have f: "\<forall>k \<in> fst ` set c. k \<noteq> ''index'' \<longrightarrow> foldName k \<noteq> foldName ''index''"
  proof (intro ballI impI)
    fix k assume "k \<in> fst ` set c" and k: "k \<noteq> ''index''"
    then have "k \<in> {''type'', ''index'', ''text'', ''id'', ''name'', ''argumentsDelta''}"
      using hasExactKeys_set [OF assms(1,3)] assms(2) by blast
    then show "foldName k \<noteq> foldName ''index''" using k folded_names by (elim insertE) simp_all
  qed
  show ?thesis
    using hasExactKeys_get [OF assms(1,5)] assms(6,7) maxSafeInteger_in_i64 [of n]
    by (simp add: dec_int64_def dec_single [OF assms(4) f])
qed

lemma step_decoded:
  assumes "hasExactKeys env [''turn'', ''step'', ''chunk'']" and "distinct (map fst env)"
    and "obj_index env ''turn'' = JInt t" "obj_index env ''step'' = JInt s" "\<bar>t\<bar> \<le> maxSafeInteger" "\<bar>s\<bar> \<le> maxSafeInteger"
  shows "fst (dec_step_data \<lparr>sdTurn = 0, sdStep = 0\<rparr> (JObj env)) = \<lparr>sdTurn = t, sdStep = s\<rparr>"
proof -
  let ?fs = "[(''turn'', fld sdTurn sdTurn_update dec_int64), (''step'', fld sdStep sdStep_update dec_int64)]"
  let ?v = "\<lparr>sdTurn = 0, sdStep = 0\<rparr>"
  have keys: "fst ` set env = {''turn'', ''step'', ''chunk''}" using hasExactKeys_set [OF assms(1)] by simp
  have ff: "find_field ?fs ''turn'' = Some (fld sdTurn sdTurn_update dec_int64)"
    "find_field ?fs ''step'' = Some (fld sdStep sdStep_update dec_int64)" "find_field ?fs ''chunk'' = None"
    using folded_names by (simp_all add: find_field_def)
  have t: "sdTurn (fst (dec_members ?fs ?v env)) = t"
    using dec_members_field [where g = sdTurn and h = "\<lambda>v x. fst (dec_int64 v x)", OF assms(2) ff(1), of ?v]
      hasExactKeys_get [OF assms(1), of "''turn''"] assms(3,5) maxSafeInteger_in_i64 [of t]
    by (auto simp: keys ff fld_def dec_int64_def case_prod_unfold Let_def)
  have s: "sdStep (fst (dec_members ?fs ?v env)) = s"
    using dec_members_field [where g = sdStep and h = "\<lambda>v x. fst (dec_int64 v x)", OF assms(2) ff(2), of ?v]
      hasExactKeys_get [OF assms(1), of "''step''"] assms(4,6) maxSafeInteger_in_i64 [of s]
    by (auto simp: keys ff fld_def dec_int64_def case_prod_unfold Let_def)
  show ?thesis using t s by (simp add: dec_step_data_def dec_struct_def)
qed

lemma marshal_bodies:
  "marshal_any (JObj [(''index'', JInt n), (''type'', JStr k), (''text'', JStr t)])
     = JObj [(''index'', JInt n), (''text'', JStr t), (''type'', JStr k)]"
  "marshal_any (JObj [(''index'', JInt n), (''type'', JStr k), (''id'', JStr i), (''argumentsDelta'', JStr a)])
     = JObj [(''argumentsDelta'', JStr a), (''id'', JStr i), (''index'', JInt n), (''type'', JStr k)]"
  "marshal_any (JObj [(''index'', JInt n), (''type'', JStr k), (''id'', JStr i), (''name'', JStr m), (''argumentsDelta'', JStr a)])
     = JObj [(''argumentsDelta'', JStr a), (''id'', JStr i), (''index'', JInt n), (''name'', JStr m), (''type'', JStr k)]"
  by (simp_all add: obj_keys_def obj_index_def obj_get_def)

lemma norm_any_num [simp]: "\<bar>n\<bar> \<le> maxSafeInteger \<Longrightarrow> norm_any (JInt n) = JInt n"
  by (simp add: norm_any_def)

lemma norm_any_str [simp]: "norm_any (JStr s) = JStr s"
  by (simp add: norm_any_def)

lemma chunkString_get: "obj_get key (chunkMembers e) = Some (JStr s) \<Longrightarrow> chunkString e key = s"
  by (simp add: chunkString_def unmarshal_def dec_string_def)

lemma delta_body_norm:
  assumes "classifyChunk c = k" and "k \<noteq> []" and "distinct (map fst c)"
    and "obj_index c ''index'' = JInt n" and "\<bar>n\<bar> \<le> maxSafeInteger"
    and "chunkMembers e = c" and "chunkIndex e = fst (dec_struct [(''index'', dec_int64)] 0 (JObj c))"
  shows "norm_any (JObj c) = deltaBody k e"
  using assms(1,2)
proof (cases rule: classifyChunk_cases)
  case (delta t)
  have i: "chunkIndex e = n"
    unfolding assms(7) by (rule chunk_index [OF delta(2) _ _ assms(3) _ assms(4,5)]) (auto simp: key_defs)
  have t: "chunkString e ''text'' = t"
    using hasExactKeys_get [OF delta(2), of "''text''"] delta(4) assms(6) chunkString_get by (simp add: key_defs)
  show ?thesis
    using delta assms(4,5) i t
    by (auto simp: norm_any_obj obj_keys_exact [OF delta(2)] text_keys_def env_keys deltaBody_def marshal_bodies
        simp del: marshal_any.simps(2))
next
  case (call i a)
  have n: "chunkIndex e = n"
    unfolding assms(7) by (rule chunk_index [OF call(2) _ _ assms(3) _ assms(4,5)]) (auto simp: key_defs)
  have "''name'' \<notin> fst ` set c" using hasExactKeys_set [OF call(2)] by (simp add: key_defs)
  then have nn: "\<not> decodeChunkHasName e" using obj_get_None_iff [of "''name''" c] by (simp add: decodeChunkHasName_def assms(6))
  have s: "chunkString e ''id'' = i" "chunkString e ''argumentsDelta'' = a"
    using hasExactKeys_get [OF call(2), of "''id''"] hasExactKeys_get [OF call(2), of "''argumentsDelta''"]
      call(4,5) assms(6) chunkString_get by (simp_all add: key_defs)
  show ?thesis
    using call assms(4,5) n nn s
    by (auto simp: norm_any_obj obj_keys_exact [OF call(2)] call_keys_def env_keys deltaBody_def marshal_bodies
        simp del: marshal_any.simps(2))
next
  case (named i a m)
  have n: "chunkIndex e = n"
    unfolding assms(7) by (rule chunk_index [OF named(2) _ _ assms(3) _ assms(4,5)]) (auto simp: key_defs)
  have nn: "decodeChunkHasName e"
    using hasExactKeys_get [OF named(2), of "''name''"] by (simp add: decodeChunkHasName_def assms(6) key_defs)
  have s: "chunkString e ''id'' = i" "chunkString e ''argumentsDelta'' = a" "chunkString e ''name'' = m"
    using hasExactKeys_get [OF named(2), of "''id''"] hasExactKeys_get [OF named(2), of "''argumentsDelta''"]
      hasExactKeys_get [OF named(2), of "''name''"] named(4-6) assms(6) chunkString_get by (simp_all add: key_defs)
  show ?thesis
    using named assms(4,5) n nn s
    by (auto simp: norm_any_obj obj_keys_exact [OF named(2)] named_keys_def env_keys deltaBody_def marshal_bodies
        simp del: marshal_any.simps(2))
qed

section \<open>Rows round trip\<close>

text \<open>The form in which an event comes back: its payload as a map has it, and no provenance where the list is empty.\<close>

definition norm_sources :: "int list option \<Rightarrow> int list option" where
  "norm_sources srcs = (if srcs = Some [] then None else srcs)"

lemma norm_sources_None [simp]: "norm_sources None = None"
  by (simp add: norm_sources_def)

definition norm_event :: "event \<Rightarrow> event" where
  "norm_event e = e\<lparr>evData := map_option norm_any (evData e), evSourceEventSeqs := norm_sources (evSourceEventSeqs e)\<rparr>"

text \<open>What a log entry must satisfy to be stored without loss: integers in the range JSON numbers keep
  exactly, legal operation and provenance, and a delta event with the plain envelope the assembler writes.\<close>

definition storable :: "event \<Rightarrow> bool" where
  "storable e \<longleftrightarrow> evData e \<noteq> None \<and> evType e \<notin> {RowTextChunks, RowReasoningChunks, RowToolCallChunks}
     \<and> 0 \<le> evSeq e \<and> evSeq e \<le> maxSafeInteger \<and> \<bar>evTime e\<bar> \<le> maxSafeInteger
     \<and> (case evSurfaceOp e of
          None \<Rightarrow> True
        | Some o' \<Rightarrow> o' = append_op \<or> (opKind o' = SurfaceReplace \<and> \<bar>opStart o'\<bar> \<le> maxSafeInteger
                        \<and> \<bar>opEnd o'\<bar> \<le> maxSafeInteger))
     \<and> (case evSourceEventSeqs e of
          None \<Rightarrow> True
        | Some xs \<Rightarrow> list_all (\<lambda>x. 0 \<le> x \<and> x \<le> maxSafeInteger) xs \<and> int (length xs) \<le> evSeq e)
     \<and> (classify e \<noteq> [] \<longrightarrow> plainChunk e \<and> evSurfaceOp e = None \<and> evSourceEventSeqs e = None \<and> \<not> evIgnorable e)"

definition delta_fits :: "string \<Rightarrow> event \<Rightarrow> int \<Rightarrow> int \<Rightarrow> bool" where
  "delta_fits k e t s \<longleftrightarrow> firstMember e ''turn'' = JInt t \<and> firstMember e ''step'' = JInt s
     \<and> \<bar>t\<bar> \<le> maxSafeInteger \<and> \<bar>s\<bar> \<le> maxSafeInteger \<and> \<bar>chunkIndex e\<bar> \<le> maxSafeInteger
     \<and> fst (unmarshal dec_step_data \<lparr>sdTurn = 0, sdStep = 0\<rparr> (evData e)) = \<lparr>sdTurn = t, sdStep = s\<rparr>
     \<and> norm_event e = \<lparr>evType = EventAssistantChunk, evSeq = evSeq e, evTime = evTime e,
         evData = Some (marshal_any (JObj [(''turn'', JInt t), (''step'', JInt s), (''chunk'', deltaBody k e)])),
         evSourceEventSeqs = None, evSurfaceOp = None, evIgnorable = False\<rparr>"

lemma marshal_env:
  "marshal_any (JObj [(''turn'', JInt t), (''step'', JInt s), (''chunk'', c)])
     = JObj [(''chunk'', marshal_any c), (''step'', JInt s), (''turn'', JInt t)]"
  by (simp add: obj_keys_def obj_index_def obj_get_def)

lemma delta_facts:
  assumes "storable e" and "classify e = k" and "k \<noteq> []"
  shows "\<exists>t s. delta_fits k e t s"
  using assms(2,3)
proof (cases rule: classify_cases)
  case (1 env chunk)
  from assms 1 have d: "distinct (map fst env)" "distinct (map fst chunk)"
    and pn: "plainNumber (obj_index env ''turn'')" "plainNumber (obj_index env ''step'')" "plainNumber (obj_index chunk ''index'')"
    by (auto simp: storable_def plainChunk_def)
  from pn obtain t s n where ts: "obj_index env ''turn'' = JInt t" "obj_index env ''step'' = JInt s"
      "obj_index chunk ''index'' = JInt n" "\<bar>t\<bar> \<le> maxSafeInteger" "\<bar>s\<bar> \<le> maxSafeInteger" "\<bar>n\<bar> \<le> maxSafeInteger"
    by (auto elim!: plainNumberE)
  note cd = chunk_decoded [OF 1(1-3) d(1)]
  have body: "norm_any (JObj chunk) = deltaBody k e"
    by (rule delta_body_norm [OF 1(4) assms(3) d(2) ts(3,6) cd])
  have n: "chunkIndex e = n"
    using 1(4) assms(3)
    by (cases rule: classifyChunk_cases; unfold cd(2); intro chunk_index [OF _ _ _ d(2) _ ts(3,6)])
      (auto simp: key_defs)
  have "norm_any (JObj env) = JObj [(''chunk'', deltaBody k e), (''step'', JInt s), (''turn'', JInt t)]"
    using ts 1(3) body by (simp add: norm_any_obj obj_keys_exact [OF 1(2)] env_keys)
  moreover have "marshal_any (deltaBody k e) = deltaBody k e" using body by (metis marshal_norm)
  ultimately have "norm_any (JObj env) = marshal_any (JObj [(''turn'', JInt t), (''step'', JInt s), (''chunk'', deltaBody k e)])"
    by (simp only: marshal_env)
  moreover have "firstMember e ''turn'' = JInt t" "firstMember e ''step'' = JInt s"
    using 1(1) ts by (simp_all add: firstMember_def)
  ultimately show ?thesis
    using n ts assms 1 step_decoded [OF 1(2) d(1) ts(1,2,4,5)]
    by (intro exI [of _ t] exI [of _ s])
      (auto simp: delta_fits_def norm_event_def storable_def unmarshal_def)
qed

fun run_ok :: "string \<Rightarrow> event list \<Rightarrow> bool" where
  "run_ok k (a # b # es) \<longleftrightarrow> continuesRun a b k \<and> run_ok k (b # es)"
| "run_ok k _ \<longleftrightarrow> True"

lemma i64_gap: "\<bar>a\<bar> \<le> maxSafeInteger \<Longrightarrow> \<bar>b\<bar> \<le> maxSafeInteger \<Longrightarrow> i64 (b - a) = b - a"
  by (intro i64_id) (auto simp: maxSafeInteger_def in_i64_def max_int64_def min_int64_def)

lemma continues_facts:
  assumes "continuesRun a b k" and "storable a" and "storable b" and "delta_fits k a t s" and "delta_fits k b t' s'"
  shows "evSeq b = evSeq a + 1" and "i64 (evTime b - evTime a) = evTime b - evTime a"
    and "\<bar>evTime b - evTime a\<bar> \<le> maxSafeInteger" and "t' = t" and "s' = s" and "chunkIndex b = chunkIndex a"
    and "k = ''tool-call-delta'' \<Longrightarrow> chunkString b ''id'' = chunkString a ''id''
      \<and> chunkString b ''name'' = chunkString a ''name'' \<and> decodeChunkHasName b = decodeChunkHasName a"
proof -
  have w: "i64 (evTime b - evTime a) = evTime b - evTime a" using assms(2,3) by (simp add: i64_gap storable_def)
  have "i64 (evSeq a + 1) = evSeq a + 1"
    using assms(2) maxSafeInteger_in_i64 [of "evSeq a"] by (intro i64_id) (auto simp: storable_def)
  with w assms show "evSeq b = evSeq a + 1" "i64 (evTime b - evTime a) = evTime b - evTime a"
    "\<bar>evTime b - evTime a\<bar> \<le> maxSafeInteger" "t' = t" "s' = s" "chunkIndex b = chunkIndex a"
    "k = ''tool-call-delta'' \<Longrightarrow> chunkString b ''id'' = chunkString a ''id''
      \<and> chunkString b ''name'' = chunkString a ''name'' \<and> decodeChunkHasName b = decodeChunkHasName a"
    by (auto simp: continuesRun_def delta_fits_def Let_def split: if_splits)
qed

text \<open>All members of a run agree with the first one.\<close>

lemma run_uniform:
  assumes "run_ok k (a # es)" and "\<forall>e \<in> set (a # es). storable e \<and> classify e = k" and "k \<noteq> []"
    and "delta_fits k a t s" and "e \<in> set (a # es)"
  shows "delta_fits k e t s \<and> chunkIndex e = chunkIndex a \<and> (k = ''tool-call-delta'' \<longrightarrow>
      chunkString e ''id'' = chunkString a ''id'' \<and> chunkString e ''name'' = chunkString a ''name''
      \<and> decodeChunkHasName e = decodeChunkHasName a)"
  using assms(1,2,4,5)
proof (induction es arbitrary: a)
  case (Cons b es)
  obtain t' s' where fb: "delta_fits k b t' s'" using delta_facts [of b k] Cons.prems assms(3) by auto
  have sa: "storable a" "storable b" using Cons.prems by auto
  note c = continues_facts [OF _ sa Cons.prems(3) fb]
  have cab: "continuesRun a b k" using Cons.prems by simp
  show ?case
  proof (cases "e = a")
    case True
    then show ?thesis using Cons.prems by simp
  next
    case False
    then have "e \<in> set (b # es)" using Cons.prems by auto
    from Cons.IH [OF _ _ _ this] fb Cons.prems c [OF cab] show ?thesis by auto
  qed
qed simp

lemma length_gaps: "length (gaps run) = length run - 1"
  by (induction run rule: gaps.induct) auto

lemma gaps_facts:
  assumes "run_ok k (a # es)" and "\<forall>e \<in> set (a # es). storable e \<and> classify e = k" and "k \<noteq> []"
  shows "(\<forall>g \<in> set (gaps (a # es)). \<bar>g\<bar> \<le> maxSafeInteger) \<and> timesStaySafe (evTime a) (gaps (a # es))
     \<and> evSeq (last (a # es)) = evSeq a + int (length es)"
  using assms(1,2)
proof (induction es arbitrary: a)
  case (Cons b es)
  obtain t s t' s' where f: "delta_fits k a t s" "delta_fits k b t' s'"
    using delta_facts [of a k] delta_facts [of b k] Cons.prems assms(3) by auto
  have sa: "storable a" "storable b" using Cons.prems by auto
  have cab: "continuesRun a b k" using Cons.prems by simp
  note c = continues_facts [OF cab sa f]
  have "\<bar>evTime b\<bar> \<le> maxSafeInteger" using sa by (simp add: storable_def)
  then show ?case using Cons.IH [of b] Cons.prems c by auto
qed simp

lemma expand_run:
  assumes "run_ok k (a # es)" and "\<forall>e \<in> set (a # es). storable e \<and> classify e = k" and "k \<noteq> []"
    and "\<forall>e \<in> set (a # es). delta_fits k e t s \<and> deltaBody k e = mk (payload e)"
  shows "expandMembers t s mk (evSeq a) (evTime a) (gaps (a # es)) (map payload (a # es)) = map norm_event (a # es)"
  using assms(1,2,4)
proof (induction es arbitrary: a)
  case Nil
  then show ?case by (auto simp: delta_fits_def)
next
  case (Cons b es)
  have sa: "storable a" "storable b" using Cons.prems by auto
  have cab: "continuesRun a b k" using Cons.prems by simp
  have fa: "delta_fits k a t s" "delta_fits k b t s" "deltaBody k a = mk (payload a)" using Cons.prems by auto
  note c = continues_facts [OF cab sa fa(1,2)]
  have IH: "expandMembers t s mk (evSeq b) (evTime b) (gaps (b # es)) (map payload (b # es)) = map norm_event (b # es)"
    using Cons.prems by (intro Cons.IH) auto
  have na: "norm_event a = \<lparr>evType = EventAssistantChunk, evSeq = evSeq a, evTime = evTime a,
         evData = Some (marshal_any (JObj [(''turn'', JInt t), (''step'', JInt s), (''chunk'', mk (payload a))])),
         evSourceEventSeqs = None, evSurfaceOp = None, evIgnorable = False\<rparr>"
    using fa by (simp add: delta_fits_def)
  show ?case using c(1,2) IH na by (simp del: marshal_any.simps(2))
qed

lemma marshal_row:
  "marshal_any (JObj [(''type'', JStr ty), (''seq0'', JInt q), (''time0'', JInt u), (''data'', d)])
     = JObj [(''data'', marshal_any d), (''seq0'', JInt q), (''time0'', JInt u), (''type'', JStr ty)]"
  "marshal_any (JObj [(''turn'', JInt t), (''step'', JInt s), (''index'', JInt n), (''dt'', JArr (map JInt g)),
        (''texts'', JArr (map (\<lambda>e. JStr (f e)) run))])
     = JObj [(''dt'', JArr (map JInt g)), (''index'', JInt n), (''step'', JInt s),
        (''texts'', JArr (map (\<lambda>e. JStr (f e)) run)), (''turn'', JInt t)]"
  "marshal_any (JObj [(''turn'', JInt t), (''step'', JInt s), (''index'', JInt n), (''id'', JStr i),
        (''dt'', JArr (map JInt g)), (''args'', JArr (map (\<lambda>e. JStr (f e)) run))])
     = JObj [(''args'', JArr (map (\<lambda>e. JStr (f e)) run)), (''dt'', JArr (map JInt g)), (''id'', JStr i),
        (''index'', JInt n), (''step'', JInt s), (''turn'', JInt t)]"
  "marshal_any (JObj [(''turn'', JInt t), (''step'', JInt s), (''index'', JInt n), (''id'', JStr i),
        (''dt'', JArr (map JInt g)), (''name'', JStr m), (''args'', JArr (map (\<lambda>e. JStr (f e)) run))])
     = JObj [(''args'', JArr (map (\<lambda>e. JStr (f e)) run)), (''dt'', JArr (map JInt g)), (''id'', JStr i),
        (''index'', JInt n), (''name'', JStr m), (''step'', JInt s), (''turn'', JInt t)]"
  by (simp_all add: obj_keys_def obj_index_def obj_get_def)

lemma stringSlice_map [simp]: "stringSlice (JArr (map (\<lambda>e. JStr (f e)) run)) = Some (map f run)"
  by (simp add: stringSlice_def isString_def list_all_iff)

lemma exact_num: "\<bar>n\<bar> \<le> maxSafeInteger \<Longrightarrow> storageNumberInt Exact (JInt n) = Some n"
  by (auto simp: storageNumberInt_def)

lemma intSlice_map: "\<forall>g \<in> set gs. \<bar>g\<bar> \<le> maxSafeInteger \<Longrightarrow> intSlice Exact (JArr (map JInt gs)) = Some gs"
  by (auto simp: intSlice_def exact_num list_all_iff comp_def intro!: map_idI)

lemma validateMembers_ok:
  assumes "obj_index data key = JArr (map (\<lambda>e. JStr (f e)) run)" and "obj_index data ''dt'' = JArr (map JInt gs)"
    and "run \<noteq> []" and "length gs = length run - 1" and "\<forall>g \<in> set gs. \<bar>g\<bar> \<le> maxSafeInteger"
    and "seq0 + int (length run) - 1 \<le> maxSafeInteger" and "timesStaySafe time0 gs"
  shows "validateMembers Exact tag seq0 time0 data key = Ok ()"
  using assms by (auto simp: validateMembers_def intSlice_map Suc_leI of_nat_diff)

text \<open>Three data shapes of a row, each with the facts the decoder reads from it.\<close>

lemma decode_text_row:
  assumes "tag = RowTextChunks \<or> tag = RowReasoningChunks"
    and "data = [(''dt'', JArr (map JInt gs)), (''index'', JInt n), (''step'', JInt s),
        (''texts'', JArr (map (\<lambda>e. JStr (f e)) run)), (''turn'', JInt t)]"
    and "validateMembers Exact tag q u data ''texts'' = Ok ()" and "0 \<le> q" and "q \<le> maxSafeInteger"
    and "\<bar>u\<bar> \<le> maxSafeInteger" and "\<bar>t\<bar> \<le> maxSafeInteger" and "\<bar>s\<bar> \<le> maxSafeInteger" and "\<bar>n\<bar> \<le> maxSafeInteger"
    and "\<forall>g \<in> set gs. \<bar>g\<bar> \<le> maxSafeInteger"
  shows "DecodeStorageRecord Exact (JObj [(''data'', JObj data), (''seq0'', JInt q), (''time0'', JInt u), (''type'', JStr tag)])
    = Ok (expandMembers t s (memberChunk tag n data) q u gs (map f run))"
proof -
  let ?r = "[(''data'', JObj data), (''seq0'', JInt q), (''time0'', JInt u), (''type'', JStr tag)]"
  have idx: "obj_index data ''turn'' = JInt t" "obj_index data ''step'' = JInt s" "obj_index data ''index'' = JInt n"
    "obj_index data ''dt'' = JArr (map JInt gs)" "obj_index data ''texts'' = JArr (map (\<lambda>e. JStr (f e)) run)"
    "obj_index ?r ''type'' = JStr tag" "obj_index ?r ''seq0'' = JInt q" "obj_index ?r ''time0'' = JInt u"
    "obj_index ?r ''data'' = JObj data"
    by (simp_all add: assms(2) obj_index_def obj_get_def)
  have keys: "hasExactKeys data [''turn'', ''step'', ''index'', ''dt'', ''texts'']"
    "hasExactKeys ?r [''type'', ''seq0'', ''time0'', ''data'']"
    by (simp_all add: assms(2) hasExactKeys_def obj_keys_def obj_get_def)
  have "validateRow Exact ?r = Ok (q, u, data)"
    using assms(1,3-6) by (auto simp: validateRow_def idx keys exact_num Let_def row_defs)
  then show ?thesis
    using assms(1,4-10)
    by (auto simp: DecodeStorageRecord_def idx numberOr0_def exact_num intSlice_map Let_def row_defs)
qed

lemma decode_call_row:
  assumes "data = [(''args'', JArr (map (\<lambda>e. JStr (f e)) run)), (''dt'', JArr (map JInt gs)), (''id'', JStr i), (''index'', JInt n)]
      @ nm @ [(''step'', JInt s), (''turn'', JInt t)]" and "nm = [] \<or> (\<exists>m. nm = [(''name'', JStr m)])"
    and "validateMembers Exact RowToolCallChunks q u data ''args'' = Ok ()" and "0 \<le> q" and "q \<le> maxSafeInteger"
    and "\<bar>u\<bar> \<le> maxSafeInteger" and "\<bar>t\<bar> \<le> maxSafeInteger" and "\<bar>s\<bar> \<le> maxSafeInteger" and "\<bar>n\<bar> \<le> maxSafeInteger"
    and "\<forall>g \<in> set gs. \<bar>g\<bar> \<le> maxSafeInteger"
  shows "DecodeStorageRecord Exact
      (JObj [(''data'', JObj data), (''seq0'', JInt q), (''time0'', JInt u), (''type'', JStr RowToolCallChunks)])
    = Ok (expandMembers t s (memberChunk RowToolCallChunks n data) q u gs (map f run))"
proof -
  let ?r = "[(''data'', JObj data), (''seq0'', JInt q), (''time0'', JInt u), (''type'', JStr RowToolCallChunks)]"
  have idx: "obj_index data ''turn'' = JInt t" "obj_index data ''step'' = JInt s" "obj_index data ''index'' = JInt n"
    "obj_index data ''dt'' = JArr (map JInt gs)" "obj_index data ''args'' = JArr (map (\<lambda>e. JStr (f e)) run)"
    "obj_index data ''id'' = JStr i"
    "obj_index ?r ''type'' = JStr RowToolCallChunks" "obj_index ?r ''seq0'' = JInt q" "obj_index ?r ''time0'' = JInt u"
    "obj_index ?r ''data'' = JObj data"
    using assms(2) by (auto simp: assms(1) obj_index_def obj_get_def)
  have keys: "hasExactKeys ?r [''type'', ''seq0'', ''time0'', ''data'']"
    by (simp add: hasExactKeys_def obj_keys_def obj_get_def)
  have named: "if nm = [] then hasExactKeys data [''turn'', ''step'', ''index'', ''id'', ''dt'', ''args'']
        \<and> \<not> hasExactKeys data [''turn'', ''step'', ''index'', ''id'', ''name'', ''dt'', ''args'']
     else hasExactKeys data [''turn'', ''step'', ''index'', ''id'', ''name'', ''dt'', ''args'']
        \<and> isString (obj_index data ''name'')"
    using assms(2) by (auto simp: assms(1) hasExactKeys_def obj_keys_def obj_get_def obj_index_def isString_def)
  have "validateRow Exact ?r = Ok (q, u, data)"
    using assms(3-6) named
    by (auto simp: validateRow_def idx keys exact_num Let_def isString_def split: if_splits)
  then show ?thesis
    using assms(4-10)
    by (auto simp: DecodeStorageRecord_def idx numberOr0_def exact_num intSlice_map Let_def)
qed

lemma row_decodes:
  assumes "run_ok k run" and "run \<noteq> []" and "\<forall>e \<in> set run. storable e \<and> classify e = k" and "k \<noteq> []"
  shows "DecodeStorageRecord Exact (marshal_any (buildChunkRow k run)) = Ok (map norm_event run)"
proof -
  obtain a es where run: "run = a # es" using assms(2) by (cases run) auto
  have sa: "storable a" "classify a = k" using assms(3) run by auto
  obtain t s where fa: "delta_fits k a t s" using delta_facts [OF sa assms(4)] by blast
  note uni = run_uniform [OF assms(1,3) [unfolded run] assms(4) fa]
  note gf = gaps_facts [OF assms(1,3) [unfolded run] assms(4)]
  have sl: "storable (last run)" using assms(3) run last_in_set [of run] by simp
  have b: "0 \<le> evSeq a" "evSeq a \<le> maxSafeInteger" "\<bar>evTime a\<bar> \<le> maxSafeInteger" "\<bar>t\<bar> \<le> maxSafeInteger"
    "\<bar>s\<bar> \<le> maxSafeInteger" "\<bar>chunkIndex a\<bar> \<le> maxSafeInteger" "\<forall>g \<in> set (gaps run). \<bar>g\<bar> \<le> maxSafeInteger"
    using sa fa gf run by (auto simp: storable_def delta_fits_def)
  have vm: "validateMembers Exact tag (evSeq a) (evTime a) data key = Ok ()"
    if "obj_index data key = JArr (map (\<lambda>e. JStr (f e)) run)" "obj_index data ''dt'' = JArr (map JInt (gaps run))" for tag data key f
    using gf sl run by (intro validateMembers_ok [OF that]) (auto simp: length_gaps storable_def)
  have first: "firstMember a ''turn'' = JInt t" "firstMember a ''step'' = JInt s" using fa by (auto simp: delta_fits_def)
  have kc: "k = ''tool-call-delta'' \<or> k = ''text-delta'' \<or> k = ''reasoning-delta''"
    using sa(2) assms(4) by (auto simp: classify_def classifyChunk_def Let_def split: if_splits option.splits json.splits)
  have expand: "expandMembers t s mk (evSeq a) (evTime a) (gaps run) (map payload run) = map norm_event run"
    if "\<And>e. e \<in> set run \<Longrightarrow> deltaBody k e = mk (payload e)" for mk payload
    unfolding run using uni that run
    by (intro expand_run [OF assms(1,3) [unfolded run] assms(4)]) blast
  show ?thesis
  proof (cases "k = ''tool-call-delta''")
    case True
    define nm where "nm = (if decodeChunkHasName a then [(''name'', JStr (chunkString a ''name''))] else [])"
    define data where "data = [(''args'', JArr (map (\<lambda>e. JStr (chunkString e ''argumentsDelta'')) run)),
        (''dt'', JArr (map JInt (gaps run))), (''id'', JStr (chunkString a ''id'')), (''index'', JInt (chunkIndex a))]
      @ nm @ [(''step'', JInt s), (''turn'', JInt t)]"
    have row: "marshal_any (buildChunkRow k run) = JObj [(''data'', JObj data), (''seq0'', JInt (evSeq a)),
        (''time0'', JInt (evTime a)), (''type'', JStr RowToolCallChunks)]"
      using True first by (simp add: buildChunkRow_def Let_def marshal_row data_def nm_def run del: marshal_any.simps(2) list.map(2) gaps.simps)
    have body: "deltaBody k e = memberChunk RowToolCallChunks (chunkIndex a) data (chunkString e ''argumentsDelta'')"
      if "e \<in> set run" for e
    proof -
      have e: "chunkIndex e = chunkIndex a" "chunkString e ''id'' = chunkString a ''id''"
        "chunkString e ''name'' = chunkString a ''name''" "decodeChunkHasName e = decodeChunkHasName a"
        using uni [of e] that True run by blast+
      have d: "obj_index data ''id'' = JStr (chunkString a ''id'')"
        "obj_get ''name'' data = (if decodeChunkHasName a then Some (JStr (chunkString a ''name'')) else None)"
        by (simp_all add: data_def nm_def obj_index_def obj_get_def)
      show ?thesis
        by (simp add: True deltaBody_def memberChunk_def d e row_defs del: marshal_any.simps(2))
    qed
    have "validateMembers Exact RowToolCallChunks (evSeq a) (evTime a) data ''args'' = Ok ()"
      by (rule vm) (auto simp: data_def nm_def obj_index_def obj_get_def)
    then have "DecodeStorageRecord Exact (marshal_any (buildChunkRow k run)) =
        Ok (expandMembers t s (memberChunk RowToolCallChunks (chunkIndex a) data) (evSeq a) (evTime a) (gaps run)
             (map (\<lambda>e. chunkString e ''argumentsDelta'') run))"
      unfolding row by (intro decode_call_row [OF data_def _ _ b]) (auto simp: nm_def)
    with expand [OF body] show ?thesis by simp
  next
    case False
    define tag where "tag = (if k = ''reasoning-delta'' then RowReasoningChunks else RowTextChunks)"
    define data where "data = [(''dt'', JArr (map JInt (gaps run))), (''index'', JInt (chunkIndex a)), (''step'', JInt s),
        (''texts'', JArr (map (\<lambda>e. JStr (chunkString e ''text'')) run)), (''turn'', JInt t)]"
    have row: "marshal_any (buildChunkRow k run) = JObj [(''data'', JObj data), (''seq0'', JInt (evSeq a)),
        (''time0'', JInt (evTime a)), (''type'', JStr tag)]"
      using False first by (simp add: buildChunkRow_def Let_def marshal_row data_def tag_def run del: marshal_any.simps(2) list.map(2) gaps.simps)
    have body: "deltaBody k e = memberChunk tag (chunkIndex a) data (chunkString e ''text'')" if "e \<in> set run" for e
      using uni [of e] that False kc
      by (auto simp: run deltaBody_def memberChunk_def tag_def row_defs simp del: marshal_any.simps(2))
    have "validateMembers Exact tag (evSeq a) (evTime a) data ''texts'' = Ok ()"
      by (rule vm) (auto simp: data_def obj_index_def obj_get_def)
    then have "DecodeStorageRecord Exact (marshal_any (buildChunkRow k run)) =
        Ok (expandMembers t s (memberChunk tag (chunkIndex a) data) (evSeq a) (evTime a) (gaps run)
             (map (\<lambda>e. chunkString e ''text'') run))"
      unfolding row by (intro decode_text_row [OF _ data_def _ b]) (auto simp: tag_def)
    with expand [OF body] show ?thesis by simp
  qed
qed

section \<open>Verbatim records round trip\<close>

definition opt_member :: "string \<Rightarrow> json option \<Rightarrow> (string \<times> json) list" where
  "opt_member k x = (case x of None \<Rightarrow> [] | Some j \<Rightarrow> [(k, j)])"

text \<open>The members of a stored event in the order the marshaller writes them.\<close>

definition sorted_event ::
    "string \<Rightarrow> int \<Rightarrow> int \<Rightarrow> json \<Rightarrow> json option \<Rightarrow> json option \<Rightarrow> bool \<Rightarrow> (string \<times> json) list" where
  "sorted_event ty q u d op srcs ign =
     [(''data'', d)] @ (if ign then [(''ignorable'', JBool True)] else []) @ [(''seq'', JInt q)]
     @ opt_member ''sourceEventSeqs'' srcs @ opt_member ''surfaceOp'' op @ [(''time'', JInt u), (''type'', JStr ty)]"

lemma marshal_event_members:
  "marshal_any (JObj ([(''type'', JStr ty), (''seq'', JInt q), (''time'', JInt u), (''data'', d)]
       @ opt_member ''surfaceOp'' op @ opt_member ''sourceEventSeqs'' srcs
       @ (if ign then [(''ignorable'', JBool True)] else [])))
   = JObj (sorted_event ty q u (marshal_any d) (map_option marshal_any op) (map_option marshal_any srcs) ign)"
  by (cases op; cases srcs; cases ign) (simp_all add: opt_member_def sorted_event_def obj_keys_def obj_index_def obj_get_def)

lemma marshal_event_ranges:
  "marshal_any (JObj ([(''type'', JStr ty), (''seq'', JInt q), (''time'', JInt u), (''data'', d)]
       @ opt_member ''surfaceOp'' op @ opt_member ''sourceEventSeqs'' (Some s)
       @ (if ign then [(''ignorable'', JBool True)] else []) @ [(''sourceEventSeqs'', s')]))
   = JObj (sorted_event ty q u (marshal_any d) (map_option marshal_any op) (Some (marshal_any s')) ign)"
  by (cases op; cases ign) (simp_all add: opt_member_def sorted_event_def obj_keys_def obj_index_def obj_get_def)

lemma marshal_sorted:
  "marshal_any (JObj (sorted_event ty q u d op srcs ign))
   = JObj (sorted_event ty q u (marshal_any d) (map_option marshal_any op) (map_option marshal_any srcs) ign)"
  by (cases op; cases srcs; cases ign) (simp_all add: opt_member_def sorted_event_def obj_keys_def obj_index_def obj_get_def)

lemma marshal_sorted_ranges:
  "marshal_any (JObj (sorted_event ty q u d op (Some s) ign @ [(''sourceEventSeqs'', s')]))
   = JObj (sorted_event ty q u (marshal_any d) (map_option marshal_any op) (Some (marshal_any s')) ign)"
  by (cases op; cases ign) (simp_all add: opt_member_def sorted_event_def obj_keys_def obj_index_def obj_get_def)

lemma unmarshal_sorted:
  assumes "in_i64 q" and "in_i64 u"
    and "op = None \<and> o' = None \<or> (\<exists>j x. op = Some j \<and> j \<noteq> JNull \<and> UnmarshalSurfaceOp j = Ok x \<and> o' = Some x)"
    and "srcs = None \<and> xs = None \<or> srcs = Some JNull \<and> xs = None
       \<or> (\<exists>ys. srcs = Some (JArr (map JInt ys)) \<and> list_all in_i64 ys \<and> xs = Some ys)"
  shows "UnmarshalEvent (JObj (sorted_event ty q u d op srcs ign)) =
    Ok \<lparr>evType = ty, evSeq = q, evTime = u, evData = Some d, evSourceEventSeqs = xs, evSurfaceOp = o', evIgnorable = ign\<rparr>"
  using assms
  by (cases ign)
    (auto simp: UnmarshalEvent_def sorted_event_def opt_member_def dec_event_wire_def
        dec_struct_def find_field_def zero_wire_def fld_def dec_string_def dec_int64_def
        dec_raw_def dec_ptr_def dec_int64_list dec_surface_op_def dec_bool_def)

lemma marshal_ints [simp]: "map (marshal_any \<circ> JInt) xs = map JInt xs"
  by simp

lemma encodeRuns_marshal: "map marshal_any (encodeRuns xs) = encodeRuns xs"
  by (induction xs rule: encodeRuns.induct) (auto simp: Let_def)

lemma marshal_ranges: "marshal_any (JArr (EncodeSeqRanges xs)) = JArr (EncodeSeqRanges xs)"
  by (simp add: EncodeSeqRanges_def encodeRuns_marshal)

lemma to_any_ints: "\<forall>x \<in> set xs. 0 \<le> x \<and> x \<le> maxSafeInteger \<Longrightarrow> map (to_any \<circ> JInt) xs = map JInt xs"
  by (induction xs) auto

lemma float_singles:
  assumes "\<forall>x \<in> set xs. 0 \<le> x \<and> x \<le> maxSafeInteger" and "int (length xs) \<le> cap"
  shows "DecodeSeqRanges Float (JArr (map JInt xs)) cap = Ok (norm_sources (Some xs))"
  using decodeEntries_singles [OF assms(1), of "[]" cap Float False "[]"] assms(2) by (simp add: DecodeSeqRanges_def norm_sources_def)

lemma op_stored:
  assumes "o' = append_op \<or> (opKind o' = SurfaceReplace \<and> \<bar>opStart o'\<bar> \<le> maxSafeInteger \<and> \<bar>opEnd o'\<bar> \<le> maxSafeInteger)"
  shows "\<exists>j. MarshalSurfaceOp o' = Ok j \<and> norm_any j \<noteq> JNull \<and> UnmarshalSurfaceOp (norm_any j) = Ok o'"
proof (cases "o' = append_op")
  case True
  show ?thesis
    by (rule exI [of _ "JStr ''append''"]) (auto simp: True MarshalSurfaceOp_def UnmarshalSurfaceOp_def append_op_def)
next
  case False
  let ?j = "JObj [(''op'', JStr SurfaceReplace), (''start'', JInt (opStart o')), (''end'', JInt (opEnd o'))]"
  have n: "norm_any ?j = JObj [(''end'', JInt (opEnd o')), (''op'', JStr SurfaceReplace), (''start'', JInt (opStart o'))]"
    using assms False by (simp add: norm_any_def obj_keys_def obj_index_def obj_get_def)
  have "UnmarshalSurfaceOp (norm_any ?j) = Ok o'"
    unfolding n using assms False maxSafeInteger_in_i64 [of "opStart o'"] maxSafeInteger_in_i64 [of "opEnd o'"]
    by (cases o') (auto simp: UnmarshalSurfaceOp_def dec_op_wire_def dec_defs find_field_def zero_op_def)
  moreover have "MarshalSurfaceOp o' = Ok ?j"
    using assms False by (auto simp: MarshalSurfaceOp_def SurfaceReplace_def SurfaceAppend_def mem_def)
  ultimately show ?thesis using n by (intro exI [of _ ?j]) simp
qed

lemma sorted_event_index:
  "obj_index (sorted_event ty q u d op srcs ign) ''type'' = JStr ty"
  "obj_index (sorted_event ty q u d op srcs ign) ''seq'' = JInt q"
  "obj_get ''sourceEventSeqs'' (sorted_event ty q u d op srcs ign) = srcs"
  "obj_index (sorted_event ty q u d op srcs ign @ [(''sourceEventSeqs'', x)]) ''type'' = JStr ty"
  by (cases op; cases srcs; simp add: sorted_event_def opt_member_def obj_index_def obj_get_def)+

lemma decode_sorted:
  assumes "ty \<notin> {RowTextChunks, RowReasoningChunks, RowToolCallChunks}" and "\<bar>u\<bar> \<le> maxSafeInteger"
    and "0 \<le> q" and "q \<le> maxSafeInteger"
    and "case o' of None \<Rightarrow> op = None | Some x \<Rightarrow> \<exists>j. op = Some (norm_any j) \<and> norm_any j \<noteq> JNull \<and> UnmarshalSurfaceOp (norm_any j) = Ok x"
    and "case xs of None \<Rightarrow> srcs = None | Some ys \<Rightarrow> srcs = Some (JArr (EncodeSeqRanges ys))
       \<and> (\<forall>x \<in> set ys. 0 \<le> x \<and> x \<le> maxSafeInteger) \<and> int (length ys) \<le> q"
  shows "decodeRecord (JObj (sorted_event ty q u (norm_any d) op srcs ign)) =
    Ok [\<lparr>evType = ty, evSeq = q, evTime = u, evData = Some (norm_any d), evSourceEventSeqs = norm_sources xs,
         evSurfaceOp = o', evIgnorable = ign\<rparr>]"
proof -
  have qi: "in_i64 q" "in_i64 u" using assms(2-4) maxSafeInteger_in_i64 by auto
  have op: "map_option marshal_any op = op" using assms(5) by (cases o') auto
  have o: "op = None \<and> o' = None \<or> (\<exists>j x. op = Some j \<and> j \<noteq> JNull \<and> UnmarshalSurfaceOp j = Ok x \<and> o' = Some x)"
    using assms(5) by (cases o') auto
  show ?thesis
  proof (cases xs)
    case None
    then have "srcs = None" using assms(6) by simp
    then show ?thesis
      using unmarshal_sorted [OF qi o, of None None] assms(1) None
      by (simp add: norm_sources_def decodeRecord_def sorted_event_index DecodeStorageRecord_def eventFromParsed_def
          marshal_sorted op del: marshal_any.simps(2))
  next
    case (Some ys)
    then have s: "srcs = Some (JArr (EncodeSeqRanges ys))" "\<forall>x \<in> set ys. 0 \<le> x \<and> x \<le> maxSafeInteger"
      "int (length ys) \<le> q" using assms(6) by auto
    have "list_all in_i64 ys" using s(2) maxSafeInteger_in_i64 by (auto simp: list_all_iff)
    then have un: "UnmarshalEvent (JObj (sorted_event ty q u (norm_any d) op (Some (if ys = [] then JNull else JArr (map JInt ys))) ign)) =
      Ok \<lparr>evType = ty, evSeq = q, evTime = u, evData = Some (norm_any d), evSourceEventSeqs = norm_sources xs,
         evSurfaceOp = o', evIgnorable = ign\<rparr>"
      using Some by (intro unmarshal_sorted [OF qi o]) (auto simp: norm_sources_def)
    show ?thesis
      using seq_ranges_decode [OF s(2,3), of Exact] s(1) assms(1,3) un qi
      by (cases "ys = []") (simp_all add: decodeRecord_def sorted_event_index DecodeStorageRecord_def eventFromParsed_def
          marshal_sorted_ranges op del: marshal_any.simps(2))
  qed
qed

definition stored_record :: "event \<Rightarrow> json" where
  "stored_record e = JObj (sorted_event (evType e) (evSeq e) (evTime e) (case evData e of None \<Rightarrow> JNull | Some d \<Rightarrow> norm_any d)
     (case evSurfaceOp e of None \<Rightarrow> None
      | Some o' \<Rightarrow> (case MarshalSurfaceOp o' of Ok j \<Rightarrow> Some (norm_any j) | _ \<Rightarrow> None))
     (map_option (\<lambda>xs. JArr (EncodeSeqRanges xs)) (evSourceEventSeqs e)) (evIgnorable e))"

lemma stored_decodes:
  assumes "storable e"
  shows "decodeRecord (stored_record e) = Ok [norm_event e]"
proof -
  obtain d where d: "evData e = Some d" using assms by (auto simp: storable_def)
  have "case evSurfaceOp e of None \<Rightarrow> True | Some o' \<Rightarrow> \<exists>j. MarshalSurfaceOp o' = Ok j \<and> norm_any j \<noteq> JNull \<and> UnmarshalSurfaceOp (norm_any j) = Ok o'"
    using assms op_stored by (auto simp: storable_def split: option.splits)
  then show ?thesis
    unfolding stored_record_def d option.case
    using assms
    by (subst decode_sorted [where xs = "evSourceEventSeqs e" and o' = "evSurfaceOp e"])
      (auto simp: storable_def norm_event_def d list_all_iff split: option.splits)
qed

lemma stored_encodes:
  assumes "storable e"
  shows "\<exists>r. eventToMap e = Ok r \<and> (\<exists>r'. EncodeProvenanceForStorage r = Ok r' \<and> marshal_any r' = stored_record e)"
proof -
  obtain d where d: "evData e = Some d" using assms by (auto simp: storable_def)
  define opj where "opj = (case evSurfaceOp e of None \<Rightarrow> None | Some o' \<Rightarrow> (case MarshalSurfaceOp o' of Ok j \<Rightarrow> Some j | _ \<Rightarrow> None))"
  have op: "(case evSurfaceOp e of None \<Rightarrow> Ok [] | Some o' \<Rightarrow> andThen (MarshalSurfaceOp o') (\<lambda>j. Ok (mem ''surfaceOp'' j)))
      = Ok (opt_member ''surfaceOp'' opj)"
  proof (cases "evSurfaceOp e")
    case (Some o')
    with assms obtain j where "MarshalSurfaceOp o' = Ok j" using op_stored [of o'] by (auto simp: storable_def)
    with Some show ?thesis by (simp add: opj_def opt_member_def mem_def)
  qed (simp add: opj_def opt_member_def)
  have b: "\<bar>evSeq e\<bar> \<le> maxSafeInteger" "\<bar>evTime e\<bar> \<le> maxSafeInteger" "0 \<le> evSeq e" using assms by (auto simp: storable_def)
  let ?kvs = "\<lambda>s. [(''type'', JStr (evType e)), (''seq'', JInt (evSeq e)), (''time'', JInt (evTime e)), (''data'', to_any d)]
       @ opt_member ''surfaceOp'' (map_option to_any opj) @ opt_member ''sourceEventSeqs'' s
       @ (if evIgnorable e then [(''ignorable'', JBool True)] else [])"
  define srcs where "srcs = map_option (\<lambda>xs. JArr (map JInt xs)) (evSourceEventSeqs e)"
  have m: "MarshalEvent e = Ok (JObj ([(''type'', JStr (evType e)), (''seq'', JInt (evSeq e)), (''time'', JInt (evTime e)), (''data'', d)]
       @ opt_member ''surfaceOp'' opj @ opt_member ''sourceEventSeqs'' srcs @ (if evIgnorable e then [(''ignorable'', JBool True)] else [])))"
    unfolding MarshalEvent_def op by (simp add: d mem_defs srcs_def opt_member_def split: option.split)
  have tm: "eventToMap e = Ok (JObj (?kvs srcs))"
    unfolding eventToMap_def m using b assms
    by (auto simp: opt_member_def srcs_def storable_def list_all_iff to_any_ints split: option.splits)
  have idx: "obj_get ''sourceEventSeqs'' (?kvs s) = s" "obj_index (?kvs s) ''seq'' = JInt (evSeq e)" for s
    by (cases opj; cases s; simp add: opt_member_def obj_get_def obj_index_def)+
  have opn: "map_option marshal_any (map_option to_any opj) = (case evSurfaceOp e of None \<Rightarrow> None
      | Some o' \<Rightarrow> (case MarshalSurfaceOp o' of Ok j \<Rightarrow> Some (norm_any j) | _ \<Rightarrow> None))"
    by (auto simp: opj_def norm_any_def split: option.splits outcome.splits)
  show ?thesis
  proof (cases "evSourceEventSeqs e")
    case None
    then have s: "srcs = None" by (simp add: srcs_def)
    have "EncodeProvenanceForStorage (JObj (?kvs srcs)) = Ok (JObj (?kvs srcs))"
      unfolding EncodeProvenanceForStorage_def json.case idx by (simp add: s)
    moreover have "marshal_any (JObj (?kvs srcs)) = stored_record e"
      unfolding s marshal_event_members stored_record_def opn [symmetric] by (simp add: d norm_any_def None)
    ultimately show ?thesis using tm by blast
  next
    case (Some xs)
    then have s: "srcs = Some (JArr (map JInt xs))" by (simp add: srcs_def)
    have x: "\<forall>x \<in> set xs. 0 \<le> x \<and> x \<le> maxSafeInteger" "int (length xs) \<le> evSeq e"
      using assms Some by (auto simp: storable_def list_all_iff)
    have "EncodeProvenanceForStorage (JObj (?kvs srcs)) = Ok (JObj (?kvs srcs @ [(''sourceEventSeqs'', JArr (EncodeSeqRanges xs))]))"
      unfolding EncodeProvenanceForStorage_def json.case idx
      using float_singles [OF x] b by (auto simp: s storageNumberInt_def float_integer_def norm_sources_def)
    moreover have "marshal_any (JObj (?kvs srcs @ [(''sourceEventSeqs'', JArr (EncodeSeqRanges xs))])) = stored_record e"
      using marshal_event_ranges [of "evType e" "evSeq e" "evTime e" "to_any d" "map_option to_any opj" "JArr (map JInt xs)"
          "evIgnorable e" "JArr (EncodeSeqRanges xs)"]
      unfolding s stored_record_def opn [symmetric] marshal_ranges append_assoc by (simp add: d norm_any_def Some)
    ultimately show ?thesis using tm by blast
  qed
qed

section \<open>Batches round trip\<close>

text \<open>The records, once encoded, are objects and read back as the events.\<close>

definition isObject :: "json \<Rightarrow> bool" where
  "isObject j = (case j of JObj _ \<Rightarrow> True | _ \<Rightarrow> False)"

lemma isObject_marshal: "isObject (marshal_any (JObj kvs))"
  by (simp add: isObject_def marshal_any_obj)

definition stores :: "json list \<Rightarrow> event list \<Rightarrow> bool" where
  "stores rs es \<longleftrightarrow> (\<exists>ls. encodeRecords rs = Ok ls \<and> decodeRecords ls = Ok es \<and> list_all isObject ls)"

lemma encodeRecords_append:
  "encodeRecords (a @ b) = andThen (encodeRecords a) (\<lambda>x. andThen (encodeRecords b) (\<lambda>y. Ok (x @ y)))"
proof (induction a)
  case Nil
  show ?case by (cases "encodeRecords b") auto
next
  case (Cons r rs)
  then show ?case by (cases "EncodeProvenanceForStorage r"; cases "encodeRecords rs"; cases "encodeRecords b") auto
qed

lemma decodeRecords_append:
  "decodeRecords (a @ b) = andThen (decodeRecords a) (\<lambda>x. andThen (decodeRecords b) (\<lambda>y. Ok (x @ y)))"
proof (induction a)
  case Nil
  show ?case by (cases "decodeRecords b") auto
next
  case (Cons r rs)
  then show ?case by (cases "decodeRecord r"; cases "decodeRecords rs"; cases "decodeRecords b") auto
qed

lemma stores_Nil [simp]: "stores [] []"
  by (simp add: stores_def)

lemma stores_append: "stores a x \<Longrightarrow> stores b y \<Longrightarrow> stores (a @ b) (x @ y)"
  by (auto simp: stores_def encodeRecords_append decodeRecords_append)

lemma stores_event:
  assumes "storable e"
  shows "\<exists>r. eventToMap e = Ok r \<and> stores [r] [norm_event e]"
  using stored_encodes [OF assms] stored_decodes [OF assms]
  by (auto simp: stores_def isObject_def stored_record_def)

lemma stores_events:
  assumes "\<forall>e \<in> set es. storable e"
  shows "\<exists>rs. eventMaps es = Ok rs \<and> stores rs (map norm_event es)"
  using assms
proof (induction es)
  case (Cons e es)
  obtain r where r: "eventToMap e = Ok r" "stores [r] [norm_event e]" using stores_event Cons.prems by auto
  obtain rs where rs: "eventMaps es = Ok rs" "stores rs (map norm_event es)" using Cons by auto
  show ?case using r rs stores_append [OF r(2) rs(2)] by simp
qed simp

lemma row_object:
  obtains kvs where "buildChunkRow k run = JObj kvs" "obj_get ''sourceEventSeqs'' kvs = None"
  by (cases "k = ''tool-call-delta''") (auto simp: buildChunkRow_def Let_def obj_get_def)

lemma stores_row:
  assumes "run_ok k run" and "run \<noteq> []" and "\<forall>e \<in> set run. storable e \<and> classify e = k" and "k \<noteq> []"
  shows "stores [buildChunkRow k run] (map norm_event run)"
proof -
  obtain kvs where kvs: "buildChunkRow k run = JObj kvs" "obj_get ''sourceEventSeqs'' kvs = None" by (rule row_object)
  obtain kvs' where m: "marshal_any (JObj kvs) = JObj kvs'" by (simp add: marshal_any_obj)
  have "obj_get ''sourceEventSeqs'' kvs' = None" using obj_get_marshal [OF m] kvs(2) by simp
  then have "decodeRecord (marshal_any (buildChunkRow k run)) = Ok (map norm_event run)"
    using row_decodes [OF assms] kvs m by (simp add: decodeRecord_def del: marshal_any.simps(2))
  then show ?thesis using kvs
    by (simp add: stores_def EncodeProvenanceForStorage_def isObject_marshal del: marshal_any.simps(2))
qed

definition pack_inv :: "pack_state \<Rightarrow> event list \<Rightarrow> bool" where
  "pack_inv s es \<longleftrightarrow> (\<exists>pre. es = pre @ pkRun s \<and> stores (pkOut s) (map norm_event pre)
     \<and> run_ok (pkKind s) (pkRun s) \<and> (\<forall>e \<in> set (pkRun s). storable e \<and> classify e = pkKind s)
     \<and> (pkRun s \<noteq> [] \<longrightarrow> pkKind s \<noteq> []))"

lemma packFlush_stores:
  assumes "pack_inv s es"
  shows "\<exists>s'. packFlush s = Ok s' \<and> pkRun s' = [] \<and> pkKind s' = [] \<and> stores (pkOut s') (map norm_event es)"
proof -
  obtain pre where d: "es = pre @ pkRun s" "stores (pkOut s) (map norm_event pre)" "run_ok (pkKind s) (pkRun s)"
    "\<forall>e \<in> set (pkRun s). storable e \<and> classify e = pkKind s" "pkRun s \<noteq> [] \<longrightarrow> pkKind s \<noteq> []"
    using assms by (auto simp: pack_inv_def)
  show ?thesis
  proof (cases "pkKind s \<noteq> [] \<and> length (pkRun s) \<ge> minRun")
    case True
    then have "pkRun s \<noteq> []" by (auto simp: minRun_def)
    then show ?thesis
      using True d stores_append [OF d(2) stores_row [OF d(3) _ d(4)]] by (simp add: packFlush_def)
  next
    case False
    obtain rs where "eventMaps (pkRun s) = Ok rs" "stores rs (map norm_event (pkRun s))"
      using stores_events [of "pkRun s"] d(4) by blast
    then show ?thesis using False d stores_append [OF d(2)] by (auto simp: packFlush_def)
  qed
qed

lemma run_ok_snoc: "run_ok k run \<Longrightarrow> run \<noteq> [] \<Longrightarrow> continuesRun (last run) e k \<Longrightarrow> run_ok k (run @ [e])"
  by (induction k run rule: run_ok.induct) auto

lemma packStep_inv:
  assumes "pack_inv s es" and "storable e"
  shows "\<exists>s'. packStep s e = Ok s' \<and> pack_inv s' (es @ [e])"
proof -
  obtain s1 where s1: "packFlush s = Ok s1" "pkRun s1 = []" "pkKind s1 = []" "stores (pkOut s1) (map norm_event es)"
    using packFlush_stores [OF assms(1)] by blast
  consider (plain) "classify e = []"
    | (extend) "classify e \<noteq> []" "classify e = pkKind s" "pkRun s \<noteq> []" "continuesRun (last (pkRun s)) e (classify e)"
    | (fresh) "classify e \<noteq> []" "\<not> (classify e = pkKind s \<and> pkRun s \<noteq> [] \<and> continuesRun (last (pkRun s)) e (classify e))"
    by blast
  then show ?thesis
  proof cases
    case plain
    obtain r where r: "eventToMap e = Ok r" "stores [r] [norm_event e]" using stores_event [OF assms(2)] by blast
    then show ?thesis using plain s1 stores_append [OF s1(4) r(2)] by (simp add: packStep_def pack_inv_def)
  next
    case extend
    then show ?thesis
      using assms run_ok_snoc [of "pkKind s" "pkRun s" e] by (fastforce simp: packStep_def pack_inv_def)
  next
    case fresh
    then show ?thesis using s1 assms(2) by (auto simp: packStep_def pack_inv_def Let_def)
  qed
qed

lemma pack_foldM:
  assumes "\<forall>e \<in> set es. storable e" and "pack_inv s pre"
  shows "\<exists>s'. foldM packStep s es = Ok s' \<and> pack_inv s' (pre @ es)"
  using assms
proof (induction es arbitrary: s pre)
  case (Cons e es)
  obtain s1 where s1: "packStep s e = Ok s1" "pack_inv s1 (pre @ [e])"
    using packStep_inv [of s pre e] Cons.prems by auto
  from Cons.IH [OF _ s1(2)] s1(1) Cons.prems(1) show ?case by simp
qed auto

lemma batch_stores:
  assumes "\<forall>e \<in> set es. storable e"
  shows "\<exists>ls. eventRecords es pack = Ok ls \<and> decodeRecords ls = Ok (map norm_event es) \<and> list_all isObject ls"
proof (cases pack)
  case False
  then show ?thesis using stores_events [OF assms] by (auto simp: eventRecords_def stores_def)
next
  case True
  have "pack_inv \<lparr>pkOut = [], pkKind = [], pkRun = []\<rparr> []" by (simp add: pack_inv_def)
  then obtain s where s: "foldM packStep \<lparr>pkOut = [], pkKind = [], pkRun = []\<rparr> es = Ok s" "pack_inv s es"
    using pack_foldM [OF assms] by fastforce
  obtain s' where "packFlush s = Ok s'" "stores (pkOut s') (map norm_event es)" using packFlush_stores [OF s(2)] by blast
  then show ?thesis using True s by (auto simp: eventRecords_def PackChunkRuns_def stores_def)
qed

section \<open>Properties\<close>

text \<open>Three text deltas of one block.\<close>

definition demo_delta :: "int \<Rightarrow> string \<Rightarrow> event" where
  "demo_delta n t = zero_event\<lparr>evType := EventAssistantChunk, evSeq := n, evTime := 100 + 2 * n,
     evData := Some (JObj [(''turn'', JInt 1), (''step'', JInt 2), (''chunk'',
       JObj [(''type'', JStr ''text-delta''), (''index'', JInt 0), (''text'', JStr t)])])\<rparr>"

text \<open>Seq provenance is stored without loss: expanding the range encoding of a list of safe,
  non-negative seqs gives the list back, whatever its order, when it is not longer than the owning
  event's seq (a nil slice for the empty list).\<close>

theorem seq_ranges_roundtrip:
  assumes "\<forall>x \<in> set vs. 0 \<le> x \<and> x \<le> maxSafeInteger" and "int (length vs) \<le> cap"
  shows "DecodeSeqRanges p (JArr (EncodeSeqRanges vs)) cap = Ok (if vs = [] then None else Some vs)"
  using assms by (rule seq_ranges_decode)

theorem seq_ranges_roundtrip_witness:
  "EncodeSeqRanges [2, 3, 4, 9] = [JArr [JInt 2, JInt 4], JInt 9]
   \<and> DecodeSeqRanges Exact (JArr (EncodeSeqRanges [2, 3, 4, 9])) 10 = Ok (Some [2, 3, 4, 9])"
  using seq_ranges_roundtrip [of "[2, 3, 4, 9]" 10 Exact]
  by (simp add: maxSafeInteger_def EncodeSeqRanges_def)

text \<open>When two texts have the same value: the order of an object's members does not count and of several with one name the last one does, and a
  number counts as what it denotes, however it is written.\<close>

definition number_value :: "json \<Rightarrow> rat option" where
  "number_value j = (case j of JInt n \<Rightarrow> Some (of_int n) | JFloat q \<Rightarrow> Some q | _ \<Rightarrow> None)"

inductive same_json :: "json \<Rightarrow> json \<Rightarrow> bool" where
  same_plain: "same_json j j"
| same_number: "number_value a = Some q \<Longrightarrow> number_value b = Some q \<Longrightarrow> same_json a b"
| same_array: "list_all2 same_json as bs \<Longrightarrow> same_json (JArr as) (JArr bs)"
| same_object: "(\<And>k. rel_option same_json (obj_get k as) (obj_get k bs)) \<Longrightarrow> same_json (JObj as) (JObj bs)"

text \<open>Every number is one that a \<open>float64\<close> holds.\<close>

fun exact_numbers :: "json \<Rightarrow> bool" where
  "exact_numbers (JInt n) = (float_round n = n)"
| "exact_numbers (JArr js) = list_all exact_numbers js"
| "exact_numbers (JObj kvs) = list_all (\<lambda>(k, x). exact_numbers x) kvs"
| "exact_numbers _ = True"

text \<open>What comes back of an event: all of it, the payload as a value and an empty provenance list as none.\<close>

definition same_event :: "event \<Rightarrow> event \<Rightarrow> bool" where
  "same_event e e' \<longleftrightarrow> evType e' = evType e \<and> evSeq e' = evSeq e \<and> evTime e' = evTime e \<and> evSurfaceOp e' = evSurfaceOp e \<and> evIgnorable e' = evIgnorable e
     \<and> evSourceEventSeqs e' = (if evSourceEventSeqs e = Some [] then None else evSourceEventSeqs e)
     \<and> (pred_option exact_numbers (evData e) \<longrightarrow> rel_option same_json (evData e) (evData e'))"

lemma same_print_whole: "number_value (print_whole n) = Some (of_int n)"
  by (simp add: print_whole_def number_value_def)

lemma same_norm: "exact_numbers j \<Longrightarrow> same_json j (norm_any j)"
proof (induction j)
  case (JInt n)
  then show ?case by (intro same_number [of _ "of_int n"]) (simp_all add: norm_any_def print_whole_def number_value_def)
next
  case (JFloat q)
  have "of_int \<lfloor>q\<rfloor> = q" if "q = of_int \<lfloor>q\<rfloor>" using that by simp
  then show ?case by (intro same_number [of _ q]) (auto simp: norm_any_def print_whole_def number_value_def)
next
  case (JArr js)
  then show ?case by (auto simp: norm_any_def list_all_iff list.rel_map intro!: same_array list.rel_refl_strong)
next
  case (JObj kvs)
  obtain kvs' where n: "norm_any (JObj kvs) = JObj kvs'" by (simp add: norm_any_def Let_def)
  have "same_json x (norm_any x)" if "obj_get k kvs = Some x" for k x
  proof -
    have "(k, x) \<in> set kvs" using that by (auto simp: obj_get_def dest!: map_of_SomeD)
    then show ?thesis using JObj.IH [of "(k, x)" x] JObj.prems by (auto simp: list_all_iff)
  qed
  then have "rel_option same_json (obj_get k kvs) (obj_get k kvs')" for k
    using obj_get_norm [OF n, of k] by (cases "obj_get k kvs") auto
  then show ?case unfolding n by (rule same_object)
qed (auto simp: norm_any_def intro: same_plain)

lemma same_norm_event: "same_event e (norm_event e)"
  using same_norm by (cases "evData e") (auto simp: same_event_def norm_event_def norm_sources_def)



text \<open>Packing drops the \<open>ignorable\<close> flag: the whitelist that admits an event to a run looks at its
  payload only, so three delta events marked ignorable come back as events that are not.  (The comment on
  the whitelist says that the entire shape, envelope included, is checked.)\<close>

theorem packing_drops_ignorable:
  "andThen (eventRecords (map (\<lambda>n. (demo_delta n ''x'')\<lparr>evIgnorable := True\<rparr>) [4, 5, 6]) True) decodeRecords
     = Ok (map (\<lambda>n. norm_event (demo_delta n ''x'')) [4, 5, 6])"
  by code_simp

end
