(* ===== verification/Session_Scanner.thy ===== *)
theory Session_Scanner
  imports Storage_Roundtrip "HOL-Library.Countable"
begin

text \<open>
  \<open>session/persistence/jsonl/jsonl.go\<close>: the header record of a session log and the scanner that reads the
  event lines after it, byte by byte, keeping the committed prefix of a torn or corrupt log.

  The reading of a line's text is the library's: it is the argument \<open>parse\<close>, which gives the JSON value a
  text starts with; the writer's printing of a value is the argument \<open>print'\<close>.
\<close>

section \<open>Model\<close>

datatype scan_error =
    HeaderlessLog | HeaderNotJson | RetiredPolicy | NotSessionHeader | FormatUnsupported string int
  | NumericCut | HeaderShape
  | CorruptLine nat | SeqGap nat int int | ScannerFinished
  | EndSeedData string int | SeededNoMarker | UnseededMarker

subsection \<open>The header record\<close>

record header_line =
  hlType :: string
  hlVersion :: int
  hlID :: string
  hlCreatedAt :: int
  hlCWD :: "string option"
  hlParentSession :: "string option"
  hlSeedLength :: "int option"
  hlIsSeeded :: "bool option"
  hlOrigin :: "string option"
  hlDelegationDepth :: int
  hlAgentPreset :: "string option"

definition zero_header_line :: header_line where
  "zero_header_line = \<lparr>hlType = [], hlVersion = 0, hlID = [], hlCreatedAt = 0, hlCWD = None,
     hlParentSession = None, hlSeedLength = None, hlIsSeeded = None, hlOrigin = None,
     hlDelegationDepth = 0, hlAgentPreset = None\<rparr>"

definition dec_header_line :: "header_line decoder" where
  "dec_header_line = dec_struct
     [(''type'', fld hlType hlType_update dec_string),
      (''version'', fld hlVersion hlVersion_update dec_int64),
      (''id'', fld hlID hlID_update dec_string),
      (''createdAt'', fld hlCreatedAt hlCreatedAt_update dec_int64),
      (''cwd'', fld hlCWD hlCWD_update (dec_ptr [] dec_string)),
      (''parentSession'', fld hlParentSession hlParentSession_update (dec_ptr [] dec_string)),
      (''seedLength'', fld hlSeedLength hlSeedLength_update (dec_ptr 0 dec_int64)),
      (''isSeeded'', fld hlIsSeeded hlIsSeeded_update (dec_ptr False dec_bool)),
      (''origin'', fld hlOrigin hlOrigin_update (dec_ptr [] dec_string)),
      (''delegationDepth'', fld hlDelegationDepth hlDelegationDepth_update dec_int64),
      (''agentPreset'', fld hlAgentPreset hlAgentPreset_update (dec_ptr [] dec_string))]"

definition enc_header_line :: "header_line \<Rightarrow> json" where
  "enc_header_line l = JObj (mem ''type'' (JStr (hlType l)) @ mem ''version'' (JInt (hlVersion l))
     @ mem ''id'' (JStr (hlID l)) @ mem ''createdAt'' (JInt (hlCreatedAt l))
     @ mem_opt ''cwd'' (map_option JStr (hlCWD l)) @ mem_opt ''parentSession'' (map_option JStr (hlParentSession l))
     @ mem_opt ''seedLength'' (map_option JInt (hlSeedLength l))
     @ mem_opt ''isSeeded'' (map_option JBool (hlIsSeeded l)) @ mem_opt ''origin'' (map_option JStr (hlOrigin l))
     @ mem ''delegationDepth'' (JInt (hlDelegationDepth l))
     @ mem_opt ''agentPreset'' (map_option JStr (hlAgentPreset l)))"

definition ptr_str :: "string \<Rightarrow> string option" where
  "ptr_str s = (if s = [] then None else Some s)"

definition toHeaderLine :: "session_header \<Rightarrow> header_line" where
  "toHeaderLine h =
     \<lparr>hlType = ''session'', hlVersion = hVersion h, hlID = hID h, hlCreatedAt = hCreatedAt h,
      hlCWD = ptr_str (hCWD h), hlParentSession = ptr_str (hParentSession h),
      hlSeedLength = (if hVersion h \<ge> 2 then None
                      else if hIsSeeded h then Some (hInheritedEventCount h) else None),
      hlIsSeeded = (if hVersion h \<ge> 2 then Some (hIsSeeded h) else None),
      hlOrigin = ptr_str (hOrigin h),
      hlDelegationDepth = (case hDelegationDepth h of Some d \<Rightarrow> d | None \<Rightarrow> 0),
      hlAgentPreset = ptr_str (hAgentPreset h)\<rparr>"

definition str_ptr :: "string option \<Rightarrow> string" where
  "str_ptr s = (case s of None \<Rightarrow> [] | Some x \<Rightarrow> x)"

definition headerFromLine :: "header_line \<Rightarrow> session_header" where
  "headerFromLine l =
     \<lparr>hVersion = hlVersion l, hID = hlID l, hCreatedAt = hlCreatedAt l, hCWD = str_ptr (hlCWD l),
      hParentSession = str_ptr (hlParentSession l),
      hIsSeeded = (hlSeedLength l \<noteq> None \<or> hlIsSeeded l = Some True),
      hInheritedEventCount = (case hlSeedLength l of Some n \<Rightarrow> n | None \<Rightarrow> 0),
      hOrigin = str_ptr (hlOrigin l), hDelegationDepth = Some (hlDelegationDepth l),
      hAgentPreset = str_ptr (hlAgentPreset l)\<rparr>"

text \<open>The argument is the decoded map; a \<open>null\<close> line is the nil map.\<close>

definition decodeHeaderLine :: "(string \<times> json) list option \<Rightarrow> (scan_error, session_header) outcome" where
  "decodeHeaderLine parsed =
     (let kvs = (case parsed of None \<Rightarrow> [] | Some kvs \<Rightarrow> kvs); has = (\<lambda>k. obj_get k kvs \<noteq> None);
          version = (case obj_index kvs ''version'' of JInt n \<Rightarrow> if in_i64 n then Some n else None | _ \<Rightarrow> None)
      in if has ''sandboxMode'' \<or> has ''approvalPolicy'' then Err RetiredPolicy
         else if \<not> has ''version'' then Err NotSessionHeader
         else if (case version of Some v \<Rightarrow> v > SESSION_FORMAT_VERSION | None \<Rightarrow> False)
         then Err (FormatUnsupported (case obj_index kvs ''id'' of JStr s \<Rightarrow> s | _ \<Rightarrow> ''<unknown>'')
                     (case version of Some v \<Rightarrow> v | None \<Rightarrow> 0))
         else if (case version of Some v \<Rightarrow> v \<ge> 2 | None \<Rightarrow> False) \<and> has ''seedLength'' then Err NumericCut
         else if \<not> has ''delegationDepth'' then Err NotSessionHeader
         else case unmarshal_ok dec_header_line zero_header_line (Some (marshal_any (JObj kvs))) of
           None \<Rightarrow> Err HeaderShape
         | Some line \<Rightarrow>
             if hlType line \<noteq> ''session'' \<or> hlVersion line < 0 \<or> hlVersion line > SESSION_FORMAT_VERSION
                \<or> hlID line = [] \<or> hlCreatedAt line < 0
                \<or> (case hlOrigin line of Some o' \<Rightarrow> o' \<noteq> ''subagent'' | None \<Rightarrow> False)
             then Err NotSessionHeader else Ok (headerFromLine line))"

text \<open>
  \<open>parse\<close> is the library's reading of a text: the JSON value it starts with, if any.
\<close>

definition newline :: char where "newline = CHR 0x0A"

definition parseLineValue :: "(string \<Rightarrow> json option) \<Rightarrow> string \<Rightarrow> (string \<times> json) list option option" where
  "parseLineValue parse line =
     (case parse line of Some (JObj kvs) \<Rightarrow> Some (Some kvs) | Some JNull \<Rightarrow> Some None | _ \<Rightarrow> None)"

definition parseHeaderRecord :: "(string \<Rightarrow> json option) \<Rightarrow> string \<Rightarrow> (scan_error, session_header) outcome" where
  "parseHeaderRecord parse record' =
     (if record' = [] \<or> last record' \<noteq> newline \<or> newline \<in> set (butlast record') then Err HeaderlessLog
      else case parseLineValue parse (butlast record') of
        None \<Rightarrow> Err HeaderNotJson
      | Some parsed \<Rightarrow> decodeHeaderLine parsed)"

subsection \<open>The scanner\<close>

record log_scan =
  lsMeta :: session_header
  lsEvents :: "event list"
  lsCommittedBytes :: int
  lsTornTail :: bool

record scanner =
  scMeta :: session_header
  scEvents :: "event list"
  scFragment :: string
  scInputBytes :: int
  scCommittedBytes :: int
  scEventLine :: nat
  scIssue :: "scan_error option"
  scFinished :: bool

definition NewSessionLogScanner :: "(string \<Rightarrow> json option) \<Rightarrow> string \<Rightarrow> (scan_error, scanner) outcome" where
  "NewSessionLogScanner parse headerRecord =
     andThen (parseHeaderRecord parse headerRecord) (\<lambda>meta.
       Ok \<lparr>scMeta = meta, scEvents = [], scFragment = [], scInputBytes = int (length headerRecord),
           scCommittedBytes = int (length headerRecord), scEventLine = 0, scIssue = None, scFinished = False\<rparr>)"

definition decodeEventLine :: "(string \<Rightarrow> json option) \<Rightarrow> string \<Rightarrow> event list option" where
  "decodeEventLine parse line =
     (case parseLineValue parse line of
        None \<Rightarrow> None
      | Some parsed \<Rightarrow>
          (case decodeRecord (case parsed of None \<Rightarrow> JNull | Some kvs \<Rightarrow> JObj kvs) of
             Ok events \<Rightarrow> Some events | _ \<Rightarrow> None))"

definition hasTurnEnd :: "event list \<Rightarrow> bool" where
  "hasTurnEnd decoded \<longleftrightarrow> list_ex (\<lambda>e. evType e = EventTurnEnd) decoded"

text \<open>Appending the decoded events in order; the first one out of sequence is reported with the seq
  that was expected there.\<close>

fun takeEvents :: "event list \<Rightarrow> event list \<Rightarrow> event list \<times> (int \<times> int) option" where
  "takeEvents events [] = (events, None)"
| "takeEvents events (event # rest) =
     (if evSeq event \<noteq> int (length events) then (events, Some (int (length events), evSeq event))
      else takeEvents (events @ [event]) rest)"

definition consumeEventLine ::
    "(string \<Rightarrow> json option) \<Rightarrow> scanner \<Rightarrow> string \<Rightarrow> int \<Rightarrow> scanner \<times> scan_error option" where
  "consumeEventLine parse s0 line endByte =
     (let s = s0\<lparr>scEventLine := scEventLine s0 + 1\<rparr> in
      case decodeEventLine parse line of
        None \<Rightarrow> (s\<lparr>scIssue := (case scIssue s of None \<Rightarrow> Some (CorruptLine (scEventLine s)) | i \<Rightarrow> i)\<rparr>, None)
      | Some decoded \<Rightarrow>
          (case scIssue s of
             Some issue \<Rightarrow> (s, if hasTurnEnd decoded then Some issue else None)
           | None \<Rightarrow>
               (case takeEvents (scEvents s) decoded of
                  (events, None) \<Rightarrow> (s\<lparr>scEvents := events, scCommittedBytes := endByte\<rparr>, None)
                | (_, Some (expected, got)) \<Rightarrow>
                    let issue = SeqGap (scEventLine s) expected got in
                    (s\<lparr>scIssue := Some issue\<rparr>, if hasTurnEnd decoded then Some issue else None))))"

text \<open>The loop of \<open>Write\<close> over the rest of a chunk that starts at byte \<open>off\<close>.\<close>

function writeLoop ::
    "(string \<Rightarrow> json option) \<Rightarrow> scanner \<Rightarrow> int \<Rightarrow> string \<Rightarrow> scanner \<times> scan_error option" where
  "writeLoop parse s off rest =
     (if newline \<notin> set rest then (s\<lparr>scFragment := scFragment s @ rest\<rparr>, None)
      else let line = takeWhile (\<lambda>c. c \<noteq> newline) rest;
               off' = off + int (length line) + 1;
               (s', err) = consumeEventLine parse (s\<lparr>scFragment := []\<rparr>) (scFragment s @ line) off'
           in if err = None then writeLoop parse s' off' (drop (length line + 1) rest) else (s', err))"
  by pat_completeness auto
termination
  by (relation "measure (\<lambda>(p, s, off, rest). length rest)") (auto simp: neq_Nil_conv in_set_conv_decomp)

declare writeLoop.simps [simp del]

definition Write :: "(string \<Rightarrow> json option) \<Rightarrow> scanner \<Rightarrow> string \<Rightarrow> scanner \<times> scan_error option" where
  "Write parse s chunk =
     (if scFinished s then (s, Some ScannerFinished)
      else writeLoop parse (s\<lparr>scInputBytes := scInputBytes s + int (length chunk)\<rparr>) (scInputBytes s) chunk)"

fun deriveInheritedCut :: "int \<Rightarrow> bool \<Rightarrow> event list \<Rightarrow> (scan_error, int \<times> bool) outcome" where
  "deriveInheritedCut cut' has [] = Ok (cut', has)"
| "deriveInheritedCut cut' has (event # rest) =
     (if evType event \<noteq> EventEndSeed then deriveInheritedCut cut' has rest
      else case evData event of
        Some (JObj kvs) \<Rightarrow>
          if obj_index kvs ''inherited'' = JBool True then deriveInheritedCut (evSeq event) True rest
          else deriveInheritedCut cut' has rest
      | Some JNull \<Rightarrow> deriveInheritedCut cut' has rest
      | _ \<Rightarrow> Err (EndSeedData (evType event) (evSeq event)))"

definition Finish :: "scanner \<Rightarrow> (scan_error, log_scan) outcome" where
  "Finish s =
     andThen
       (if hVersion (scMeta s) \<ge> 2 then
          andThen (deriveInheritedCut 0 False (scEvents s)) (\<lambda>(cut', hasCut).
            if hIsSeeded (scMeta s) then
              (if \<not> hasCut then Err SeededNoMarker else Ok ((scMeta s)\<lparr>hInheritedEventCount := cut'\<rparr>))
            else if hasCut then Err UnseededMarker else Ok (scMeta s))
        else Ok (scMeta s))
       (\<lambda>meta. Ok \<lparr>lsMeta = meta, lsEvents = scEvents s, lsCommittedBytes = scCommittedBytes s,
                   lsTornTail = (scCommittedBytes s < scInputBytes s)\<rparr>)"

definition ScanLog :: "(string \<Rightarrow> json option) \<Rightarrow> string \<Rightarrow> (scan_error, log_scan) outcome" where
  "ScanLog parse buffer =
     (if newline \<notin> set buffer then Err HeaderlessLog
      else let headerEnd = length (takeWhile (\<lambda>c. c \<noteq> newline) buffer) in
        andThen (NewSessionLogScanner parse (take (headerEnd + 1) buffer)) (\<lambda>scanner.
          case Write parse scanner (drop (headerEnd + 1) buffer) of
            (_, Some e) \<Rightarrow> Err e
          | (scanner', None) \<Rightarrow> Finish scanner'))"

section \<open>Chunks\<close>

lemma writeLoop_tail: "newline \<notin> set rest \<Longrightarrow> writeLoop parse s off rest = (s\<lparr>scFragment := scFragment s @ rest\<rparr>, None)"
  by (simp add: writeLoop.simps)

lemma writeLoop_line:
  assumes "newline \<notin> set line"
  shows "writeLoop parse s off (line @ newline # rest) =
    (case consumeEventLine parse (s\<lparr>scFragment := []\<rparr>) (scFragment s @ line) (off + int (length line) + 1) of
       (s', err) \<Rightarrow> if err = None then writeLoop parse s' (off + int (length line) + 1) rest else (s', err))"
proof -
  have "takeWhile (\<lambda>c. c \<noteq> newline) (line @ newline # rest) = line"
    using assms by (subst takeWhile_append2) auto
  moreover have "drop (length line + 1) (line @ newline # rest) = rest" by simp
  ultimately show ?thesis
    unfolding writeLoop.simps [of _ _ _ "line @ newline # rest"] Let_def by (simp only: set_append list.set Un_iff insert_iff) simp
qed

lemma lines_induct [case_names tail line]:
  assumes "\<And>r. newline \<notin> set r \<Longrightarrow> P r" and "\<And>l r. newline \<notin> set l \<Longrightarrow> P r \<Longrightarrow> P (l @ newline # r)"
  shows "P r"
proof (induction "length r" arbitrary: r rule: less_induct)
  case less
  show ?case
  proof (cases "newline \<in> set r")
    case True
    then obtain l r' where r: "r = l @ newline # r'" "newline \<notin> set l" by (auto dest: split_list_first)
    have "P r'" by (rule less) (simp add: r)
    then show ?thesis using assms(2) r by simp
  qed (rule assms(1))
qed

lemma consume_input:
  "consumeEventLine parse (s\<lparr>scInputBytes := n\<rparr>) line e =
     (case consumeEventLine parse s line e of (s', r) \<Rightarrow> (s'\<lparr>scInputBytes := n\<rparr>, r))"
  by (auto simp: consumeEventLine_def Let_def split: option.split prod.split)

lemma consume_frame:
  "consumeEventLine parse s line e = (s', r) \<Longrightarrow> scFinished s' = scFinished s \<and> scInputBytes s' = scInputBytes s
     \<and> scMeta s' = scMeta s \<and> scFragment s' = scFragment s"
  by (auto simp: consumeEventLine_def Let_def split: option.splits prod.splits)

lemma writeLoop_input:
  "writeLoop parse (s\<lparr>scInputBytes := n\<rparr>) off rest =
     (case writeLoop parse s off rest of (s', r) \<Rightarrow> (s'\<lparr>scInputBytes := n\<rparr>, r))"
proof (induction rest arbitrary: s off rule: lines_induct)
  case (line l r)
  obtain s1 err where c: "consumeEventLine parse (s\<lparr>scFragment := []\<rparr>) (scFragment s @ l) (off + int (length l) + 1) = (s1, err)"
    by fastforce
  have "consumeEventLine parse (s\<lparr>scInputBytes := n, scFragment := []\<rparr>) (scFragment s @ l) (off + int (length l) + 1)
      = (s1\<lparr>scInputBytes := n\<rparr>, err)"
  proof -
    have "s\<lparr>scInputBytes := n, scFragment := []\<rparr> = s\<lparr>scFragment := [], scInputBytes := n\<rparr>" by simp
    then show ?thesis using c by (simp only: consume_input prod.case)
  qed
  then show ?case using line c by (simp add: writeLoop_line)
qed (simp add: writeLoop_tail)

lemma writeLoop_frame:
  "writeLoop parse s off rest = (s', r) \<Longrightarrow> scFinished s' = scFinished s \<and> scInputBytes s' = scInputBytes s \<and> scMeta s' = scMeta s"
proof (induction rest arbitrary: s off s' r rule: lines_induct)
  case (line l rest)
  obtain s1 err where c: "consumeEventLine parse (s\<lparr>scFragment := []\<rparr>) (scFragment s @ l) (off + int (length l) + 1) = (s1, err)"
    by fastforce
  show ?case
    using line c consume_frame [OF c] by (cases "err = None") (auto simp: writeLoop_line)
qed (auto simp: writeLoop_tail)

lemma writeLoop_append:
  "writeLoop parse s off a = (s', None) \<Longrightarrow> writeLoop parse s off (a @ b) = writeLoop parse s' (off + int (length a)) b"
proof (induction a arbitrary: s off s' rule: lines_induct)
  case (tail a)
  then have s': "s' = s\<lparr>scFragment := scFragment s @ a\<rparr>" by (simp add: writeLoop_tail)
  show ?case
  proof (cases "newline \<in> set b")
    case True
    then obtain l r where b: "b = l @ newline # r" "newline \<notin> set l" by (auto dest: split_list_first)
    have "writeLoop parse s off ((a @ l) @ newline # r) = writeLoop parse s' (off + int (length a)) (l @ newline # r)"
      using tail b(2) writeLoop_line [of "a @ l" parse s off r] writeLoop_line [of l parse s' "off + int (length a)" r]
      by (simp add: s' add.assoc split: prod.split)
    then show ?thesis by (simp add: b)
  qed (use tail s' in \<open>simp add: writeLoop_tail\<close>)
next
  case (line l r)
  obtain s1 err where c: "consumeEventLine parse (s\<lparr>scFragment := []\<rparr>) (scFragment s @ l) (off + int (length l) + 1) = (s1, err)"
    by fastforce
  have "err = None" "writeLoop parse s1 (off + int (length l) + 1) r = (s', None)"
    using line c by (auto simp: writeLoop_line split: if_splits)
  then show ?case using line.IH [of s1 "off + int (length l) + 1" s'] c line.hyps
    by (simp add: writeLoop_line algebra_simps)
qed

section \<open>Stored logs\<close>

definition lines_of :: "(json \<Rightarrow> string) \<Rightarrow> json list \<Rightarrow> string" where
  "lines_of print' rs = concat (map (\<lambda>r. print' r @ [newline]) rs)"

lemma join_lines: "rs \<noteq> [] \<Longrightarrow> join [CHR 0x0A] (map print' rs) @ [newline] = lines_of print' rs"
proof (induction rs rule: induct_list012)
  case (3 r r' rs)
  then show ?case by (simp add: lines_of_def newline_def)
qed (simp_all add: lines_of_def newline_def)

lemma takeEvents_ok:
  "\<forall>i < length es. evSeq (es ! i) = int (length evs) + int i \<Longrightarrow> takeEvents evs es = (evs @ es, None)"
proof (induction es arbitrary: evs)
  case (Cons e es)
  have "evSeq e = int (length evs)" using Cons.prems [rule_format, of 0] by simp
  moreover have "\<forall>i < length es. evSeq (es ! i) = int (length (evs @ [e])) + int i"
    using Cons.prems by (metis Suc_less_eq add.commute add_Suc_right length_Cons length_append_singleton nth_Cons_Suc of_nat_add)
  ultimately show ?case using Cons.IH [of "evs @ [e]"] by simp
qed simp

lemma decodeRecords_prefix:
  assumes "decodeRecords (r # rs) = Ok es"
  obtains a b where "decodeRecord r = Ok a" "decodeRecords rs = Ok b" "es = a @ b"
  using assms by (auto simp: outcome_simps)

lemma consume_record:
  assumes "parse (print' r) = Some r" and "r = JObj kvs" and "decodeRecord r = Ok a" and "scIssue s = None"
    and "\<forall>i < length a. evSeq (a ! i) = int (length (scEvents s)) + int i"
  shows "consumeEventLine parse s (print' r) e =
    (s\<lparr>scEventLine := scEventLine s + 1, scEvents := scEvents s @ a, scCommittedBytes := e\<rparr>, None)"
  using assms by (simp add: consumeEventLine_def decodeEventLine_def parseLineValue_def takeEvents_ok)

text \<open>However many bytes of the lines are there, the scanner holds the events of the complete lines,
  the offset after the last of them, and the rest as a fragment.\<close>

lemma scan_torn:
  assumes "\<forall>r \<in> set rs. parse (print' r) = Some r \<and> newline \<notin> set (print' r) \<and> (\<exists>kvs. r = JObj kvs)"
    and "decodeRecords rs = Ok es" and "scIssue s = None" and "scFragment s = []"
    and "\<forall>i < length es. evSeq (es ! i) = int (length (scEvents s)) + int i"
    and "k \<le> length (lines_of print' rs)"
  shows "\<exists>n m s'. writeLoop parse s off (take k (lines_of print' rs)) = (s', None) \<and> scIssue s' = None
     \<and> m \<le> length rs \<and> decodeRecords (take m rs) = Ok (take n es)
     \<and> scEvents s' = scEvents s @ take n es
     \<and> length (lines_of print' (take m rs)) \<le> k
     \<and> (m < length rs \<longrightarrow> k < length (lines_of print' (take (Suc m) rs)))
     \<and> scCommittedBytes s' = (if m = 0 then scCommittedBytes s else off + int (length (lines_of print' (take m rs))))"
  using assms
proof (induction rs arbitrary: s es k off)
  case Nil
  then show ?case by (intro exI [of _ 0] exI [of _ "s\<lparr>scFragment := []\<rparr>"]) (auto simp: lines_of_def writeLoop_tail)
next
  case (Cons r rs)
  obtain a b where ab: "decodeRecord r = Ok a" "decodeRecords rs = Ok b" "es = a @ b"
    using Cons.prems(2) by (rule decodeRecords_prefix)
  have lr: "lines_of print' (r # rs) = print' r @ newline # lines_of print' rs" by (simp add: lines_of_def)
  have nl: "newline \<notin> set (print' r)" using Cons.prems(1) by simp
  show ?case
  proof (cases "k \<le> length (print' r)")
    case True
    then have t: "take k (lines_of print' (r # rs)) = take k (print' r)" by (simp add: lr)
    have "newline \<notin> set (take k (print' r))" using nl by (auto dest: in_set_takeD)
    then show ?thesis
      unfolding t using Cons.prems(3) True
      by (intro exI [of _ 0] exI [of _ "s\<lparr>scFragment := scFragment s @ take k (print' r)\<rparr>"])
        (auto simp: writeLoop_tail lines_of_def)
  next
    case False
    then obtain j where j: "k = length (print' r) + 1 + j"
      using le_Suc_ex [of "length (print' r) + 1" k] by auto
    have t: "take k (lines_of print' (r # rs)) = print' r @ newline # take j (lines_of print' rs)"
      by (simp add: lr j)
    let ?off = "off + int (length (print' r)) + 1"
    let ?s = "s\<lparr>scEventLine := scEventLine s + 1, scEvents := scEvents s @ a, scCommittedBytes := ?off\<rparr>"
    have sa: "\<forall>i < length a. evSeq (a ! i) = int (length (scEvents s)) + int i"
      using Cons.prems(5) ab(3) by (metis length_append nth_append trans_less_add1)
    have sb: "\<forall>i < length b. evSeq (b ! i) = int (length (scEvents s @ a)) + int i"
    proof (intro allI impI)
      fix i assume "i < length b"
      then show "evSeq (b ! i) = int (length (scEvents s @ a)) + int i"
        using Cons.prems(5) [rule_format, of "length a + i"] ab(3) by (simp add: nth_append)
    qed
    have jl: "j \<le> length (lines_of print' rs)" using Cons.prems(6) by (simp add: lr j)
    have fr: "s\<lparr>scFragment := []\<rparr> = s" using Cons.prems(4) by (cases s) simp
    obtain kvs where kvs: "r = JObj kvs" "parse (print' r) = Some r" using Cons.prems(1) by auto
    have c: "consumeEventLine parse (s\<lparr>scFragment := []\<rparr>) (scFragment s @ print' r) ?off = (?s, None)"
      unfolding fr using consume_record [where parse = parse and print' = print' and r = r, OF kvs(2,1) ab(1) Cons.prems(3) sa] by (simp add: Cons.prems(4))
    have rs1: "\<forall>r \<in> set rs. parse (print' r) = Some r \<and> newline \<notin> set (print' r) \<and> (\<exists>kvs. r = JObj kvs)"
      using Cons.prems(1) by simp
    have p: "scIssue ?s = None" "scFragment ?s = []" "scEvents ?s = scEvents s @ a" using Cons.prems(3,4) by simp_all
    have sb': "\<forall>i < length b. evSeq (b ! i) = int (length (scEvents ?s)) + int i" using sb by (simp only: p(3))
    obtain n m s' where ih: "writeLoop parse ?s ?off (take j (lines_of print' rs)) = (s', None)" "scIssue s' = None"
      "m \<le> length rs" "decodeRecords (take m rs) = Ok (take n b)" "scEvents s' = (scEvents s @ a) @ take n b"
      "length (lines_of print' (take m rs)) \<le> j" "m < length rs \<longrightarrow> j < length (lines_of print' (take (Suc m) rs))"
      "scCommittedBytes s' = (if m = 0 then scCommittedBytes ?s else ?off + int (length (lines_of print' (take m rs))))"
      using Cons.IH [OF rs1 ab(2) p(1,2) sb' jl, of ?off] unfolding p(3) by blast
    show ?thesis
      unfolding t using ih ab c nl
      by (intro exI [of _ "length a + n"] exI [of _ "Suc m"] exI [of _ s'])
        (auto simp: writeLoop_line lines_of_def j)
  qed
qed

instance json :: countable
  by countable_datatype

lemma isObjectE: "isObject r \<Longrightarrow> \<exists>kvs. r = JObj kvs"
  by (cases r) (auto simp: isObject_def)

section \<open>Inherited markers\<close>

lemma derive_append:
  "deriveInheritedCut c h (xs @ ys) = andThen (deriveInheritedCut c h xs) (\<lambda>(c', h'). deriveInheritedCut c' h' ys)"
  by (induction c h xs rule: deriveInheritedCut.induct) (auto split: option.split json.split)

definition end_marker :: "int \<Rightarrow> int \<Rightarrow> event" where
  "end_marker seq now = \<lparr>evType = EventEndSeed, evSeq = seq, evTime = now,
     evData = Some (JObj [(''inherited'', JBool True)]), evSourceEventSeqs = None, evSurfaceOp = None, evIgnorable = False\<rparr>"

lemma derive_marked:
  "deriveInheritedCut c h (evs @ [end_marker q now]) = Ok r \<Longrightarrow> r = (q, True)"
  by (auto simp: derive_append outcome_simps end_marker_def obj_index_def obj_get_def)

lemma Finish_v2:
  assumes "2 \<le> hVersion (scMeta t)" and "Finish t = Ok scan"
  shows "\<exists>c. deriveInheritedCut 0 False (scEvents t) = Ok (c, hIsSeeded (scMeta t))
     \<and> (hIsSeeded (scMeta t) \<longrightarrow> hInheritedEventCount (lsMeta scan) = c)"
proof (cases "deriveInheritedCut 0 False (scEvents t)")
  case (Ok r)
  then show ?thesis using assms by (cases r) (auto simp: Finish_def split: if_splits)
qed (use assms in \<open>simp_all add: Finish_def\<close>)

lemma restored_log:
  assumes "NewRestored now i (Some evs) h n = Ok s" and "evs \<noteq> []" and "evType (last evs) \<noteq> EventEndSeed"
  shows "sLog s = evs @ [end_marker (int (length evs)) now]" and "sHeader s = h" and "hVersion h = 2"
proof -
  from assms(1) obtain inh s1 where l: "seedLoop 0 (blank_session h inh) evs = Ok s1" and m: "markSeed now s1 = Ok s"
    and v: "validateSessionHeader i h = Ok ()"
    by (auto simp: NewRestored_def newSession_def andThen_Ok_iff resolveHeader_def)
  have i1: "session_inv s1" "sLog s1 = evs" "sHeader s1 = h"
    using seedLoop_inv [OF l session_inv_blank] by (simp_all add: blank_session_def)
  from markSeed_log [OF i1(1), of now] m assms(2,3) i1
  show "sLog s = evs @ [end_marker (int (length evs)) now]" "sHeader s = h" by (auto simp: end_marker_def)
  show "hVersion h = 2" using v by (simp add: validateSessionHeader_def SESSION_FORMAT_VERSION_def split: if_splits)
qed

section \<open>Properties\<close>

text \<open>A printer and reader of JSON values in unary, which satisfy the two laws the scanner relies on.\<close>

definition unary_print :: "json \<Rightarrow> string" where
  "unary_print j = replicate (to_nat j) (CHR ''1'')"

definition unary_parse :: "string \<Rightarrow> json option" where
  "unary_parse s = Some (from_nat (length s))"

lemma unary_laws: "unary_parse (unary_print j) = Some j" "newline \<notin> set (unary_print j)"
  by (auto simp: unary_parse_def unary_print_def newline_def)

definition demo_header :: session_header where
  "demo_header = zero_header\<lparr>hVersion := 2, hID := ''s'', hCreatedAt := 5\<rparr>"

definition demo_header_record :: string where
  "demo_header_record = unary_print (enc_header_line (toHeaderLine demo_header)) @ [newline]"

lemma demo_header_decodes:
  "(case enc_header_line (toHeaderLine demo_header) of JObj kvs \<Rightarrow> decodeHeaderLine (Some kvs) | _ \<Rightarrow> Err HeaderShape)
     = Ok (demo_header\<lparr>hDelegationDepth := Some 0\<rparr>)"
  by code_simp

lemma demo_scanner:
  "\<exists>s. NewSessionLogScanner unary_parse demo_header_record = Ok s \<and> \<not> scFinished s"
proof -
  obtain kvs where k: "enc_header_line (toHeaderLine demo_header) = JObj kvs" by (simp add: enc_header_line_def)
  have "parseHeaderRecord unary_parse demo_header_record = Ok (demo_header\<lparr>hDelegationDepth := Some 0\<rparr>)"
    using demo_header_decodes unary_laws
    by (simp add: parseHeaderRecord_def demo_header_record_def parseLineValue_def k)
  then show ?thesis by (simp add: NewSessionLogScanner_def)
qed

text \<open>C18: The scanner does not depend on how its input is cut into chunks: feeding it two chunks one
  after the other has the effect of feeding it their concatenation.\<close>

theorem scanner_chunk_independent:
  assumes "Write parse s a = (s1, None)"
  shows "Write parse s1 b = Write parse s (a @ b)"
proof -
  have nf: "\<not> scFinished s" using assms by (auto simp: Write_def split: if_splits)
  let ?n = "scInputBytes s + int (length a) + int (length b)"
  obtain s2 where w: "writeLoop parse s (scInputBytes s) a = (s2, None)"
    and s1: "s1 = s2\<lparr>scInputBytes := scInputBytes s + int (length a)\<rparr>"
    using assms nf by (auto simp: Write_def writeLoop_input split: prod.splits)
  have fin: "\<not> scFinished s1" using writeLoop_frame [OF w] nf s1 by simp
  have "Write parse s1 b = (case writeLoop parse s2 (scInputBytes s + int (length a)) b of (t, r) \<Rightarrow> (t\<lparr>scInputBytes := ?n\<rparr>, r))"
    using fin by (simp add: Write_def s1 writeLoop_input)
  also have "\<dots> = Write parse s (a @ b)"
    using nf writeLoop_append [OF w, of b] by (simp add: Write_def writeLoop_input add.assoc)
  finally show ?thesis .
qed

theorem scanner_chunk_independent_witness:
  "\<exists>s s1. Write unary_parse s ''ab'' = (s1, None) \<and> Write unary_parse s1 ''c'' = Write unary_parse s ''abc''"
proof -
  obtain s :: scanner where s: "\<not> scFinished s" using demo_scanner by blast
  let ?s1 = "s\<lparr>scInputBytes := scInputBytes s + 2, scFragment := scFragment s @ ''ab''\<rparr>"
  have w: "Write unary_parse s ''ab'' = (?s1, None)" using s by (simp add: Write_def writeLoop_tail newline_def)
  from scanner_chunk_independent [OF w, of "''c''"] w show ?thesis by (intro exI [of _ s] exI [of _ ?s1]) simp
qed

text \<open>As many newlines have arrived as lines are complete.\<close>

lemma newlines_of_lines:
  assumes "\<forall>r \<in> set rs. newline \<notin> set (print' r)"
  shows "length (filter (\<lambda>c. c = newline) (lines_of print' rs)) = length rs"
  using assms
proof (induction rs)
  case (Cons r rs)
  then have "filter (\<lambda>c. c = newline) (print' r) = []" by (auto simp: filter_empty_conv)
  with Cons show ?case by (simp add: lines_of_def)
qed (simp add: lines_of_def)

lemma newlines_arrived:
  assumes "\<forall>r \<in> set rs. newline \<notin> set (print' r)" and "m \<le> length rs" and "length (lines_of print' (take m rs)) \<le> k"
    and "m < length rs \<longrightarrow> k < length (lines_of print' (take (Suc m) rs))"
  shows "length (filter (\<lambda>c. c = newline) (take k (lines_of print' rs))) = m"
proof -
  let ?L = "lines_of print' (take m rs)"
  have split: "lines_of print' rs = ?L @ lines_of print' (drop m rs)" by (simp add: lines_of_def flip: concat_append map_append)
  have "filter (\<lambda>c. c = newline) (take (k - length ?L) (lines_of print' (drop m rs))) = []"
  proof (cases "m < length rs")
    case True
    then have d: "drop m rs = rs ! m # drop (Suc m) rs" and t: "take (Suc m) rs = take m rs @ [rs ! m]"
      by (simp_all add: Cons_nth_drop_Suc take_Suc_conv_app_nth)
    have "k - length ?L \<le> length (print' (rs ! m))" using True assms(3,4) by (simp add: t lines_of_def)
    then show ?thesis using assms(1) True by (auto simp: d lines_of_def filter_empty_conv dest: in_set_takeD)
  next
    case False
    then show ?thesis by (simp add: lines_of_def)
  qed
  moreover have "length (filter (\<lambda>c. c = newline) ?L) = m" using newlines_of_lines [of "take m rs" print'] assms(1,2) by (auto dest: in_set_takeD)
  ultimately show ?thesis using assms(3) unfolding split by simp
qed



text \<open>Reopening makes an unseeded session unreadable: when a session that is not seeded is restored
  from a non-empty log that does not end in a marker, the constructor appends a marker tagged as inherited,
  and a scan of the log that then is on disk is refused.\<close>

theorem reopened_unseeded_log_refused:
  assumes "NewRestored now i (Some evs) h n = Ok s" and "evs \<noteq> []" and "evType (last evs) \<noteq> EventEndSeed"
    and "\<not> hIsSeeded h" and "scMeta t = h" and "scEvents t = sLog s"
  shows "Finish t \<noteq> Ok scan"
proof
  assume f: "Finish t = Ok scan"
  note l = restored_log [OF assms(1-3)]
  from Finish_v2 [OF _ f] l(3) assms(4-6) obtain c where "deriveInheritedCut 0 False (sLog s) = Ok (c, False)"
    by auto
  with derive_marked [of 0 False evs _ now] l(1) show False by fastforce
qed

theorem reopened_unseeded_log_refused_witness:
  "\<not> (\<exists>t s scan. NewRestored 9 ''s'' (Some [demo_event]) (sHeader demo_start) 0 = Ok s
     \<and> scMeta t = sHeader demo_start \<and> scEvents t = sLog s \<and> Finish t = Ok scan)"
proof -
  have "\<not> hIsSeeded (sHeader demo_start)" by (simp add: demo_start_def blank_session_def zero_header_def)
  then show ?thesis
    using reopened_unseeded_log_refused [of 9 "''s''" "[demo_event]" "sHeader demo_start" 0]
    by (auto simp: demo_event_def event_type_defs)
qed

text \<open>Reopening moves the inherited cut of a seeded session: the marker the constructor appends is
  tagged as inherited and is the last one, so a scan of the reopened log takes the whole previous log as
  inherited, whatever cut the session was forked with.\<close>

theorem reopened_seeded_cut_moves:
  assumes "NewRestored now i (Some evs) h n = Ok s" and "evs \<noteq> []" and "evType (last evs) \<noteq> EventEndSeed"
    and "hIsSeeded h" and "scMeta t = h" and "scEvents t = sLog s" and "Finish t = Ok scan"
  shows "hInheritedEventCount (lsMeta scan) = int (length evs)"
proof -
  note l = restored_log [OF assms(1-3)]
  from Finish_v2 [OF _ assms(7)] l(3) assms(4-6) obtain c b where "deriveInheritedCut 0 False (sLog s) = Ok (c, b)"
    "hInheritedEventCount (lsMeta scan) = c" by auto
  with derive_marked [of 0 False evs "int (length evs)" now] l(1) show ?thesis by auto
qed

definition demo_seeded :: session_header where
  "demo_seeded = demo_header\<lparr>hIsSeeded := True\<rparr>"

definition demo_seeded_log :: "event list" where
  "demo_seeded_log = [demo_event, zero_event\<lparr>evType := EventTurnStart, evSeq := 1, evData := Some (JObj [])\<rparr>]"

definition demo_scan :: "session \<Rightarrow> scanner" where
  "demo_scan s = \<lparr>scMeta = demo_seeded, scEvents = sLog s, scFragment = [], scInputBytes = 0, scCommittedBytes = 0,
     scEventLine = 0, scIssue = None, scFinished = False\<rparr>"

theorem reopened_seeded_cut_moves_witness:
  "\<exists>s scan. NewRestored 9 ''s'' (Some demo_seeded_log) demo_seeded 1 = Ok s \<and> sInheritedEventCount s = 1
     \<and> Finish (demo_scan s) = Ok scan \<and> hInheritedEventCount (lsMeta scan) = 2"
proof -
  have "case NewRestored 9 ''s'' (Some demo_seeded_log) demo_seeded 1 of
      Ok s \<Rightarrow> sInheritedEventCount s = 1 \<and> is_Ok (Finish (demo_scan s)) | _ \<Rightarrow> False" by code_simp
  then obtain s scan where s: "NewRestored 9 ''s'' (Some demo_seeded_log) demo_seeded 1 = Ok s"
    "sInheritedEventCount s = 1" "Finish (demo_scan s) = Ok scan"
    by (auto simp: is_Ok_iff split: outcome.splits)
  have "hInheritedEventCount (lsMeta scan) = int (length demo_seeded_log)"
    by (rule reopened_seeded_cut_moves [OF s(1) _ _ _ _ _ s(3)])
      (simp_all add: demo_seeded_log_def event_type_defs demo_seeded_def demo_scan_def)
  with s show ?thesis by (auto simp: demo_seeded_log_def)
qed

section \<open>The header record\<close>

definition sorted_header :: "header_line \<Rightarrow> (string \<times> json) list" where
  "sorted_header l = opt_member ''agentPreset'' (map_option JStr (hlAgentPreset l)) @ [(''createdAt'', JInt (hlCreatedAt l))]
     @ opt_member ''cwd'' (map_option JStr (hlCWD l)) @ [(''delegationDepth'', JInt (hlDelegationDepth l)), (''id'', JStr (hlID l))]
     @ opt_member ''isSeeded'' (map_option JBool (hlIsSeeded l)) @ opt_member ''origin'' (map_option JStr (hlOrigin l))
     @ opt_member ''parentSession'' (map_option JStr (hlParentSession l))
     @ [(''type'', JStr (hlType l)), (''version'', JInt (hlVersion l))]"

lemma marshal_header:
  "hlSeedLength l = None \<Longrightarrow> marshal_any (enc_header_line l) = JObj (sorted_header l)"
  by (cases "hlAgentPreset l"; cases "hlCWD l"; cases "hlIsSeeded l"; cases "hlOrigin l"; cases "hlParentSession l")
    (simp_all add: enc_header_line_def mem_defs sorted_header_def opt_member_def obj_keys_def obj_index_def obj_get_def)

lemma unmarshal_header:
  assumes "in_i64 (hlVersion l)" "in_i64 (hlCreatedAt l)" "in_i64 (hlDelegationDepth l)" "hlSeedLength l = None"
  shows "unmarshal_ok dec_header_line zero_header_line (Some (JObj (sorted_header l))) = Some l"
  using assms
  by (cases l)
    (auto simp: unmarshal_ok_def unmarshal_def sorted_header_def opt_member_def dec_header_line_def
        dec_struct_def find_field_def zero_header_line_def fld_def dec_string_def dec_int64_def
        dec_ptr_def dec_bool_def split: option.split)

text \<open>The header line keeps a format-2 header but for two fields: the inherited count, which the scan
  derives from the markers, and an absent delegation depth, which reads back as zero.\<close>

theorem header_line_roundtrip:
  assumes "validateSessionHeader (hID h) h = Ok ()" and "hID h \<noteq> []" and "in_i64 (hCreatedAt h)"
    and "case hDelegationDepth h of None \<Rightarrow> True | Some d \<Rightarrow> in_i64 d"
    and "enc_header_line (toHeaderLine h) = JObj kvs"
  shows "decodeHeaderLine (Some kvs) = Ok (h\<lparr>hInheritedEventCount := 0,
    hDelegationDepth := Some (case hDelegationDepth h of None \<Rightarrow> 0 | Some d \<Rightarrow> d)\<rparr>)"
proof -
  have v: "hVersion h = 2" "0 \<le> hCreatedAt h" "hOrigin h = [] \<or> hOrigin h = ''subagent''"
    using assms(1) by (auto simp: validateSessionHeader_def SESSION_FORMAT_VERSION_def split: if_splits)
  let ?l = "toHeaderLine h"
  have l: "hlSeedLength ?l = None" "in_i64 (hlVersion ?l)" "in_i64 (hlCreatedAt ?l)" "in_i64 (hlDelegationDepth ?l)"
    using v(1) assms(3,4)
    by (auto simp: toHeaderLine_def in_i64_def max_int64_def min_int64_def split: option.splits)
  have kvs: "obj_get k kvs = map_of (rev kvs) k" for k by (simp add: obj_get_def)
  have idx: "obj_get ''sandboxMode'' kvs = None" "obj_get ''approvalPolicy'' kvs = None" "obj_get ''seedLength'' kvs = None"
    "obj_get ''version'' kvs = Some (JInt 2)" "obj_get ''delegationDepth'' kvs \<noteq> None"
    using assms(5) v(1) l(1)
    by (auto simp: enc_header_line_def mem_defs obj_get_def toHeaderLine_def split: option.splits)
  have "unmarshal_ok dec_header_line zero_header_line (Some (marshal_any (JObj kvs))) = Some ?l"
    using unmarshal_header [OF l(2-4,1)] marshal_header [OF l(1)] assms(5) by simp
  then show ?thesis
    using idx v assms(2) l(1)
    by (auto simp: decodeHeaderLine_def obj_index_def in_i64_def max_int64_def min_int64_def SESSION_FORMAT_VERSION_def
        toHeaderLine_def headerFromLine_def ptr_str_def str_ptr_def simp del: marshal_any.simps(2) intro!: session_header.equality split: option.splits)
qed

theorem header_line_roundtrip_witness:
  "\<exists>kvs. enc_header_line (toHeaderLine demo_header) = JObj kvs
     \<and> decodeHeaderLine (Some kvs) = Ok (demo_header\<lparr>hDelegationDepth := Some 0\<rparr>)"
proof -
  obtain kvs where k: "enc_header_line (toHeaderLine demo_header) = JObj kvs" by (simp add: enc_header_line_def)
  have "validateSessionHeader (hID demo_header) demo_header = Ok ()" by code_simp
  from header_line_roundtrip [OF this _ _ _ k] k show ?thesis
    by (auto simp: demo_header_def zero_header_def in_i64_def max_int64_def min_int64_def)
qed

end
