(* ===== verification/Session_Store.thy ===== *)
theory Session_Store
  imports Session_Log
begin

text \<open>The in-memory session store (\<open>session/store.go\<close>): sessions prepared, entered, announced, fed and
  detached, forked and flushed.  The store's mutexes make each operation atomic here; listeners are
  arguments (a creation listener may veto, a flush participant may fail) and what they are told is recorded
  in a trace.  Listeners that call back into the store while they run are not modelled.\<close>

section \<open>Model\<close>

text \<open>Sessions and entries are objects with identity: a reference is an index into the list of all
  objects allocated so far.  A listener is a number; what the listeners were told is the trace.\<close>

datatype notice =
    Announced nat nat
  | Disposed nat nat
  | Fed nat nat event

record store_entry =
  enId :: string
  enSession :: nat
  enAnnounced :: bool
  enDetached :: bool

record store =
  stSessions :: "session list"
  stEntries :: "store_entry list"
  stItems :: "(string \<times> nat) list"
  stCreated :: "nat list"
  stDisposed :: "nat list"
  stSinks :: "nat list"
  stFlush :: "nat list"
  stTrace :: "notice list"

definition NewStore :: store where
  "NewStore = \<lparr>stSessions = [], stEntries = [], stItems = [], stCreated = [], stDisposed = [],
     stSinks = [], stFlush = [], stTrace = []\<rparr>"

definition OnCreated :: "store \<Rightarrow> nat \<Rightarrow> store" where
  "OnCreated st fn = st\<lparr>stCreated := stCreated st @ [fn]\<rparr>"

definition OnDisposed :: "store \<Rightarrow> nat \<Rightarrow> store" where
  "OnDisposed st fn = st\<lparr>stDisposed := stDisposed st @ [fn]\<rparr>"

definition OnEvent :: "store \<Rightarrow> nat \<Rightarrow> store" where
  "OnEvent st fn = st\<lparr>stSinks := stSinks st @ [fn]\<rparr>"

definition detachSink :: "store \<Rightarrow> nat \<Rightarrow> store" where
  "detachSink st fn = st\<lparr>stSinks := remove1 fn (stSinks st)\<rparr>"

definition OnFlush :: "store \<Rightarrow> nat \<Rightarrow> store" where
  "OnFlush st fn = st\<lparr>stFlush := stFlush st @ [fn]\<rparr>"

definition sessionID :: "store \<Rightarrow> nat \<Rightarrow> string" where
  "sessionID st s = hID (sHeader (stSessions st ! s))"

definition onEventCommit :: "store \<Rightarrow> nat \<Rightarrow> event \<Rightarrow> store" where
  "onEventCommit st session event =
     (if stSinks st = [] then st
      else case map_of (stItems st) (sessionID st session) of
        None \<Rightarrow> st
      | Some _ \<Rightarrow> st\<lparr>stTrace := stTrace st @ map (\<lambda>sink. Fed sink session event) (stSinks st)\<rparr>)"

text \<open>\<open>Session.Append\<close> of a session the store may own: the log is extended first, then the
  entry's feed runs.\<close>

definition AppendTo ::
    "int \<Rightarrow> store \<Rightarrow> nat \<Rightarrow> string \<Rightarrow> json option \<Rightarrow> surface_intent option
       \<Rightarrow> store \<times> (session_error, event) outcome" where
  "AppendTo now st s eventType data intent =
     (case Append now (stSessions st ! s) eventType data intent of
        (session', res) \<Rightarrow>
          let st' = st\<lparr>stSessions := (stSessions st)[s := session']\<rparr> in
          (case res of
             Ok event \<Rightarrow> (if sEntry session' then onEventCommit st' s event else st', res)
           | _ \<Rightarrow> (st', res)))"

definition Enter :: "store \<Rightarrow> nat \<Rightarrow> (store_error, store \<times> nat) outcome" where
  "Enter st session =
     (let id' = sessionID st session in
      case map_of (stItems st) id' of
        Some _ \<Rightarrow> Err (SessionExists id')
      | None \<Rightarrow>
          let entry = length (stEntries st) in
          Ok (st\<lparr>stEntries := stEntries st @ [\<lparr>enId = id', enSession = session, enAnnounced = False, enDetached = False\<rparr>],
                 stItems := (id', entry) # stItems st,
                 stSessions := (stSessions st)[session := (stSessions st ! session)\<lparr>sEntry := True\<rparr>]\<rparr>, entry))"

definition dispatchDisposed :: "store \<Rightarrow> nat \<Rightarrow> store" where
  "dispatchDisposed st session = st\<lparr>stTrace := stTrace st @ map (\<lambda>fn. Disposed fn session) (stDisposed st)\<rparr>"

definition detach :: "store \<Rightarrow> nat \<Rightarrow> store" where
  "detach st entry =
     (let e = stEntries st ! entry in
      if enDetached e then st
      else
        let st' = st\<lparr>stEntries := (stEntries st)[entry := e\<lparr>enDetached := True\<rparr>],
                     stItems := filter (\<lambda>(k, _). k \<noteq> enId e) (stItems st),
                     stSessions := (stSessions st)[enSession e := (stSessions st ! enSession e)\<lparr>sEntry := False\<rparr>]\<rparr>
        in if enAnnounced e then dispatchDisposed st' (enSession e) else st')"

text \<open>\<open>veto listener session\<close> is the error a creation listener returns (or panics with).\<close>

fun runCallbacks :: "(nat \<Rightarrow> nat \<Rightarrow> string option) \<Rightarrow> store \<Rightarrow> nat \<Rightarrow> nat list \<Rightarrow> store \<times> string option" where
  "runCallbacks veto st session [] = (st, None)"
| "runCallbacks veto st session (callback # rest) =
     (let st' = st\<lparr>stTrace := stTrace st @ [Announced callback session]\<rparr> in
      case veto callback session of
        Some err \<Rightarrow> (st', Some err)
      | None \<Rightarrow> runCallbacks veto st' session rest)"

definition setAnnounced :: "store \<Rightarrow> nat \<Rightarrow> bool \<Rightarrow> store" where
  "setAnnounced st entry b = st\<lparr>stEntries := (stEntries st)[entry := (stEntries st ! entry)\<lparr>enAnnounced := b\<rparr>]\<rparr>"

definition Announce :: "(nat \<Rightarrow> nat \<Rightarrow> string option) \<Rightarrow> store \<Rightarrow> nat \<Rightarrow> store \<times> store_error option" where
  "Announce veto st session =
     (case map_of (stItems st) (sessionID st session) of
        None \<Rightarrow> (st, Some (NotEntered (sessionID st session)))
      | Some entry \<Rightarrow>
          if enAnnounced (stEntries st ! entry) then (st, Some (AlreadyAnnounced (sessionID st session)))
          else case runCallbacks veto (setAnnounced st entry True) session (stCreated st) of
            (st', None) \<Rightarrow> (st', None)
          | (st', Some err) \<Rightarrow> (setAnnounced st' entry False, Some (Vetoed err)))"

record create_options =
  coSeed :: "event list option"
  coHeader :: session_header
  coDelegationDepth :: "int option"
  coOrigin :: string

definition createHeader :: "string \<Rightarrow> create_options \<Rightarrow> session_header" where
  "createHeader id' options =
     (let header = coHeader options in
      header\<lparr>hVersion := (if hVersion header = 0 then SESSION_FORMAT_VERSION else hVersion header),
             hID := id', hOrigin := coOrigin options, hDelegationDepth := coDelegationDepth options\<rparr>)"

text \<open>The end of \<open>Create\<close>: enter, announce, and leave again when the announcement fails.\<close>

definition publish ::
    "('s \<Rightarrow> nat \<Rightarrow> (store_error, 's \<times> nat) outcome) \<Rightarrow> ('s \<Rightarrow> nat \<Rightarrow> 's \<times> store_error option)
       \<Rightarrow> ('s \<Rightarrow> nat \<Rightarrow> 's) \<Rightarrow> 's \<Rightarrow> nat \<Rightarrow> 's \<times> (store_error, nat) outcome" where
  "publish enter announce leave st session =
     (case enter st session of
        Err e \<Rightarrow> (st, Err e)
      | Panic \<Rightarrow> (st, Panic)
      | Ok (st1, entry) \<Rightarrow>
          (case announce st1 session of
             (st2, None) \<Rightarrow> (st2, Ok session)
           | (st2, Some e) \<Rightarrow> (leave st2 entry, Err e)))"

definition Create ::
    "int \<Rightarrow> (nat \<Rightarrow> nat \<Rightarrow> string option) \<Rightarrow> store \<Rightarrow> string \<Rightarrow> create_options
       \<Rightarrow> store \<times> (store_error, nat) outcome" where
  "Create now veto st id' options =
     (let seedLength = int (length (case coSeed options of None \<Rightarrow> [] | Some es \<Rightarrow> es)) in
      case NewDetached now id' (coSeed options) (Some (createHeader id' options)) seedLength of
        Err e \<Rightarrow> (st, Err (CreateFailed e))
      | Panic \<Rightarrow> (st, Panic)
      | Ok session \<Rightarrow>
          publish Enter (Announce veto) detach (st\<lparr>stSessions := stSessions st @ [session]\<rparr>)
            (length (stSessions st)))"

definition Get :: "store \<Rightarrow> string \<Rightarrow> nat option" where
  "Get st id' = map_option (\<lambda>entry. enSession (stEntries st ! entry)) (map_of (stItems st) id')"

text \<open>The ids of the live sessions, in no particular order.\<close>

definition ListSessions :: "store \<Rightarrow> string list" where
  "ListSessions st = map fst (stItems st)"

definition DeepCopyEvent :: "event \<Rightarrow> event" where
  "DeepCopyEvent event = event\<lparr>evSourceEventSeqs :=
     (case evSourceEventSeqs event of Some (x # xs) \<Rightarrow> Some (x # xs) | _ \<Rightarrow> None)\<rparr>"

text \<open>The downward scan for the last turn boundary of the prefix: the turn of an open one.\<close>

fun openTurnScan :: "event list \<Rightarrow> int option" where
  "openTurnScan [] = None"
| "openTurnScan (event # earlier) =
     (if evType event = EventTurnStart
      then Some (tdTurn (fst (unmarshal dec_turn_data \<lparr>tdTurn = 0\<rparr> (evData event))))
      else if evType event = EventTurnEnd then None else openTurnScan earlier)"

definition Fork :: "store \<Rightarrow> nat \<Rightarrow> string \<Rightarrow> int \<Rightarrow> (store_error, event list) outcome" where
  "Fork st source childID boundary =
     (case map_of (stItems st) (sessionID st source) of
        None \<Rightarrow> Err (SessionNotFound (sessionID st source))
      | Some entry \<Rightarrow>
          if enSession (stEntries st ! entry) \<noteq> source then Err (SessionNotLive (sessionID st source))
          else if map_of (stItems st) childID \<noteq> None then Err (SessionExists childID)
          else
            let events = sLog (stSessions st ! source) in
            if boundary < 0 \<or> boundary \<ge> int (length events) then Err (InvalidBoundary boundary (sessionID st source))
            else case openTurnScan (rev (take (nat boundary + 1) events)) of
              Some turn \<Rightarrow> Err (OpenTurn boundary (sessionID st source) turn)
            | None \<Rightarrow> Ok (map DeepCopyEvent (take (nat boundary + 1) events)))"

text \<open>One flush round: a job per session with live events and participant, run in some order; the
  error reported is that of the first job to fail.\<close>

definition flushSessions :: "store \<Rightarrow> nat list" where
  "flushSessions st =
     filter (\<lambda>s. sFirstLiveSeq (stSessions st ! s) < int (length (sLog (stSessions st ! s))))
       (map (\<lambda>(_, entry). enSession (stEntries st ! entry)) (stItems st))"

definition flushJobs :: "store \<Rightarrow> (nat \<times> nat) list" where
  "flushJobs st = List.product (flushSessions st) (stFlush st)"

definition Flush :: "(nat \<Rightarrow> nat \<Rightarrow> string option) \<Rightarrow> (nat \<times> nat) list \<Rightarrow> bool \<times> string option" where
  "Flush participant jobs =
     (jobs \<noteq> [], List.fold (\<lambda>(s, p) first. if first = None then participant p s else first) jobs None)"

section \<open>Invariant\<close>

definition store_inv :: "store \<Rightarrow> bool" where
  "store_inv st \<longleftrightarrow> distinct (map fst (stItems st))
     \<and> (\<forall>(k, e) \<in> set (stItems st). e < length (stEntries st) \<and> \<not> enDetached (stEntries st ! e) \<and> enId (stEntries st ! e) = k)
     \<and> (\<forall>e < length (stEntries st). enSession (stEntries st ! e) < length (stSessions st)
          \<and> enId (stEntries st ! e) = sessionID st (enSession (stEntries st ! e))
          \<and> (\<not> enDetached (stEntries st ! e) \<longrightarrow> (enId (stEntries st ! e), e) \<in> set (stItems st)
              \<and> sEntry (stSessions st ! enSession (stEntries st ! e))))
     \<and> (\<forall>s < length (stSessions st). session_inv (stSessions st ! s))
     \<and> (\<forall>s < length (stSessions st). sEntry (stSessions st ! s) \<longrightarrow>
          (\<exists>e < length (stEntries st). \<not> enDetached (stEntries st ! e) \<and> enSession (stEntries st ! e) = s))"

lemma session_inv_entry [simp]: "session_inv (t\<lparr>sEntry := x\<rparr>) = session_inv t"
  by (simp add: session_inv_def derived_ok_def snapshot_ok_def)

lemma Append_frame:
  "Append now s ty data intent = (s', res) \<Longrightarrow> sEntry s' = sEntry s \<and> sHeader s' = sHeader s
     \<and> sInheritedEventCount s' = sInheritedEventCount s \<and> sFirstLiveSeq s' = sFirstLiveSeq s"
  by (auto simp: Append_def Let_def split: option.splits outcome.splits prod.splits)

lemma seedLoop_frame: "seedLoop i s es = Ok s' \<Longrightarrow> sEntry s' = sEntry s \<and> sHeader s' = sHeader s"
proof (induction es arbitrary: i s)
  case (Cons e es)
  then show ?case by (fastforce simp: outcome_simps split: if_splits prod.splits outcome.splits)
qed simp

lemma markSeed_frame: "markSeed now s = Ok s' \<Longrightarrow> sEntry s' = sEntry s \<and> sHeader s' = sHeader s"
  using Append_frame [of now "s\<lparr>sFirstLiveSeq := int (length (sLog s))\<rparr>"]
  by (fastforce simp: markSeed_def Let_def split: if_splits prod.splits outcome.splits)

lemma NewDetached_frame:
  assumes "NewDetached now i seed (Some h) n = Ok s"
  shows "session_inv s \<and> \<not> sEntry s \<and> sHeader s = h \<and> hID h = i"
proof -
  from assms obtain inh s1 where
    l: "seedLoop 0 (blank_session h inh) (case seed of None \<Rightarrow> [] | Some es \<Rightarrow> es) = Ok s1" and m: "markSeed now s1 = Ok s"
    and v: "validateSessionHeader i h = Ok ()"
    by (auto simp: NewDetached_def newSession_def resolveHeader_def andThen_Ok_iff)
  have "hID h = i" using v by (auto simp: validateSessionHeader_def split: if_splits)
  then show ?thesis
    using seedLoop_frame [OF l] markSeed_frame [OF m] newSession_inv assms
    by (auto simp: blank_session_def NewDetached_def)
qed

lemma store_inv_items:
  assumes "store_inv st" and "map_of (stItems st) k = Some e"
  shows "e < length (stEntries st)" "\<not> enDetached (stEntries st ! e)" "enId (stEntries st ! e) = k"
    "enSession (stEntries st ! e) < length (stSessions st)" "sessionID st (enSession (stEntries st ! e)) = k"
    "sEntry (stSessions st ! enSession (stEntries st ! e))"
  using assms map_of_SomeD [OF assms(2)] by (auto simp: store_inv_def)

lemma store_inv_live:
  assumes "store_inv st" and "e < length (stEntries st)" and "\<not> enDetached (stEntries st ! e)"
  shows "map_of (stItems st) (enId (stEntries st ! e)) = Some e"
  using assms by (auto simp: store_inv_def intro!: map_of_is_SomeI)

lemma store_inv_entry:
  assumes "store_inv st" and "s < length (stSessions st)" and "sEntry (stSessions st ! s)"
  obtains e where "e < length (stEntries st)" "\<not> enDetached (stEntries st ! e)" "enSession (stEntries st ! e) = s"
    "map_of (stItems st) (sessionID st s) = Some e"
proof -
  obtain e where e: "e < length (stEntries st)" "\<not> enDetached (stEntries st ! e)" "enSession (stEntries st ! e) = s"
    using assms by (auto simp: store_inv_def)
  have "enId (stEntries st ! e) = sessionID st s" using assms(1) e by (auto simp: store_inv_def)
  then show ?thesis using that [OF e] store_inv_live [OF assms(1) e(1,2)] by simp
qed

lemma store_inv_alloc:
  assumes "store_inv st" and "session_inv s" and "\<not> sEntry s"
  shows "store_inv (st\<lparr>stSessions := stSessions st @ [s]\<rparr>)"
proof -
  define st' where "st' = st\<lparr>stSessions := stSessions st @ [s]\<rparr>"
  have "store_inv st'"
    unfolding store_inv_def
  proof (intro conjI)
    show "\<forall>e < length (stEntries st'). enSession (stEntries st' ! e) < length (stSessions st')
          \<and> enId (stEntries st' ! e) = sessionID st' (enSession (stEntries st' ! e))
          \<and> (\<not> enDetached (stEntries st' ! e) \<longrightarrow> (enId (stEntries st' ! e), e) \<in> set (stItems st')
              \<and> sEntry (stSessions st' ! enSession (stEntries st' ! e)))"
      using assms(1) by (fastforce simp: st'_def store_inv_def sessionID_def nth_append)
    show "\<forall>x < length (stSessions st'). session_inv (stSessions st' ! x)"
      using assms by (auto simp: st'_def store_inv_def nth_append less_Suc_eq)
    show "\<forall>x < length (stSessions st'). sEntry (stSessions st' ! x) \<longrightarrow>
          (\<exists>e < length (stEntries st'). \<not> enDetached (stEntries st' ! e) \<and> enSession (stEntries st' ! e) = x)"
      using assms by (auto simp: st'_def store_inv_def nth_append less_Suc_eq)
  qed (use assms(1) in \<open>auto simp: st'_def store_inv_def\<close>)
  then show ?thesis by (simp add: st'_def)
qed

lemma store_inv_session:
  assumes "store_inv st" and "session_inv s'" and "s < length (stSessions st)"
    and "sEntry s' = sEntry (stSessions st ! s)" and "sHeader s' = sHeader (stSessions st ! s)"
  shows "store_inv (st\<lparr>stSessions := (stSessions st)[s := s']\<rparr>)"
  using assms by (auto simp: store_inv_def sessionID_def nth_list_update)

lemma Enter_inv:
  assumes "store_inv st" and "s < length (stSessions st)" and "Enter st s = Ok (st', h)"
  shows "store_inv st'"
proof -
  let ?i = "sessionID st s"
  have free: "map_of (stItems st) ?i = None" using assms(3) by (auto simp: Enter_def Let_def split: option.splits)
  then have nf: "?i \<notin> fst ` set (stItems st)" by (simp add: map_of_eq_None_iff)
  have ns: "\<not> sEntry (stSessions st ! s)" using store_inv_entry [OF assms(1,2)] free by fastforce
  have st': "st' = st\<lparr>stEntries := stEntries st @ [\<lparr>enId = ?i, enSession = s, enAnnounced = False, enDetached = False\<rparr>],
      stItems := (?i, length (stEntries st)) # stItems st,
      stSessions := (stSessions st)[s := (stSessions st ! s)\<lparr>sEntry := True\<rparr>]\<rparr>"
    using assms(3) free by (auto simp: Enter_def Let_def)
  have sid: "sessionID st' x = sessionID st x" for x
    using assms(2) by (simp add: st' sessionID_def nth_list_update)
  show ?thesis
    unfolding store_inv_def
  proof (intro conjI)
    show "distinct (map fst (stItems st'))" using assms(1) nf by (simp add: st' store_inv_def)
    show "\<forall>(k, e) \<in> set (stItems st'). e < length (stEntries st') \<and> \<not> enDetached (stEntries st' ! e) \<and> enId (stEntries st' ! e) = k"
      using assms(1) by (auto simp: st' store_inv_def nth_append)
    show "\<forall>e < length (stEntries st'). enSession (stEntries st' ! e) < length (stSessions st')
          \<and> enId (stEntries st' ! e) = sessionID st' (enSession (stEntries st' ! e))
          \<and> (\<not> enDetached (stEntries st' ! e) \<longrightarrow> (enId (stEntries st' ! e), e) \<in> set (stItems st')
              \<and> sEntry (stSessions st' ! enSession (stEntries st' ! e)))"
      unfolding sid using assms(1,2) by (auto simp: st' store_inv_def nth_append less_Suc_eq nth_list_update)
    show "\<forall>x < length (stSessions st'). session_inv (stSessions st' ! x)"
      using assms(1,2) by (auto simp: st' store_inv_def nth_list_update)
    show "\<forall>x < length (stSessions st'). sEntry (stSessions st' ! x) \<longrightarrow>
          (\<exists>e < length (stEntries st'). \<not> enDetached (stEntries st' ! e) \<and> enSession (stEntries st' ! e) = x)"
    proof (intro allI impI)
      fix x assume x: "x < length (stSessions st')" "sEntry (stSessions st' ! x)"
      show "\<exists>e < length (stEntries st'). \<not> enDetached (stEntries st' ! e) \<and> enSession (stEntries st' ! e) = x"
      proof (cases "x = s")
        case True
        then show ?thesis by (intro exI [of _ "length (stEntries st)"]) (simp add: st')
      next
        case False
        then have "x < length (stSessions st)" "sEntry (stSessions st ! x)" using x by (auto simp: st')
        with assms(1) obtain e where "e < length (stEntries st)" "\<not> enDetached (stEntries st ! e)" "enSession (stEntries st ! e) = x"
          by (auto simp: store_inv_def)
        then show ?thesis by (intro exI [of _ e]) (simp add: st' nth_append)
      qed
    qed
  qed
qed

lemma setAnnounced_inv: "store_inv st \<Longrightarrow> store_inv (setAnnounced st e b)"
proof (cases "e < length (stEntries st)")
  case False
  then show "store_inv st \<Longrightarrow> ?thesis" by (simp add: setAnnounced_def list_update_beyond)
qed (auto simp: store_inv_def setAnnounced_def sessionID_def nth_list_update)

lemma trace_inv [simp]: "store_inv (st\<lparr>stTrace := t\<rparr>) = store_inv st"
  by (simp add: store_inv_def sessionID_def)

lemma runCallbacks_frame:
  "runCallbacks veto st s cs = (st', r) \<Longrightarrow> \<exists>t. st' = st\<lparr>stTrace := stTrace st @ t\<rparr> \<and> (\<forall>n \<in> set t. \<exists>c \<in> set cs. n = Announced c s)"
proof (induction cs arbitrary: st)
  case (Cons c cs)
  show ?case
  proof (cases "veto c s")
    case None
    with Cons.prems Cons.IH [of "st\<lparr>stTrace := stTrace st @ [Announced c s]\<rparr>"] obtain t where
      "st' = st\<lparr>stTrace := (stTrace st @ [Announced c s]) @ t\<rparr>" "\<forall>n \<in> set t. \<exists>c \<in> set cs. n = Announced c s"
      by (auto simp: Let_def)
    then show ?thesis by (intro exI [of _ "Announced c s # t"]) auto
  next
    case (Some err)
    then show ?thesis using Cons.prems by (intro exI [of _ "[Announced c s]"]) (auto simp: Let_def)
  qed
qed (auto intro!: exI [of _ "[]"])

lemma Announce_inv: "store_inv st \<Longrightarrow> store_inv (fst (Announce veto st s))"
proof -
  assume inv: "store_inv st"
  have "store_inv st'" if "runCallbacks veto (setAnnounced st e True) s cs = (st', r)" for e cs st' r
    using runCallbacks_frame [OF that] setAnnounced_inv [OF inv] by auto
  then show ?thesis
    using inv by (auto simp: Announce_def setAnnounced_inv split: option.split prod.split)
qed

lemma detach_inv:
  assumes "store_inv st" and "e < length (stEntries st)"
  shows "store_inv (detach st e)"
proof (cases "enDetached (stEntries st ! e)")
  case True
  then show ?thesis using assms by (simp add: detach_def Let_def)
next
  case False
  let ?e = "stEntries st ! e"
  define st' where "st' = st\<lparr>stEntries := (stEntries st)[e := ?e\<lparr>enDetached := True\<rparr>],
      stItems := filter (\<lambda>(k, _). k \<noteq> enId ?e) (stItems st),
      stSessions := (stSessions st)[enSession ?e := (stSessions st ! enSession ?e)\<lparr>sEntry := False\<rparr>]\<rparr>"
  have d: "detach st e = (if enAnnounced ?e then dispatchDisposed st' (enSession ?e) else st')"
    using False by (simp add: detach_def Let_def st'_def)
  have sid: "sessionID st' x = sessionID st x" for x
    by (cases "x < length (stSessions st)"; cases "x = enSession ?e")
      (auto simp: st'_def sessionID_def list_update_beyond linorder_not_less)
  have other: "enId (stEntries st ! x) \<noteq> enId ?e" if "x < length (stEntries st)" "\<not> enDetached (stEntries st ! x)" "x \<noteq> e" for x
    using store_inv_live [OF assms(1) that(1,2)] store_inv_live [OF assms(1,2) False] that(3) by auto
  have "store_inv st'"
    unfolding store_inv_def
  proof (intro conjI)
    show "distinct (map fst (stItems st'))" using assms(1) by (simp add: st'_def store_inv_def distinct_map_filter)
    show "\<forall>(k, x) \<in> set (stItems st'). x < length (stEntries st') \<and> \<not> enDetached (stEntries st' ! x) \<and> enId (stEntries st' ! x) = k"
      using assms by (auto simp: st'_def store_inv_def nth_list_update)
    show "\<forall>x < length (stEntries st'). enSession (stEntries st' ! x) < length (stSessions st')
          \<and> enId (stEntries st' ! x) = sessionID st' (enSession (stEntries st' ! x))
          \<and> (\<not> enDetached (stEntries st' ! x) \<longrightarrow> (enId (stEntries st' ! x), x) \<in> set (stItems st')
              \<and> sEntry (stSessions st' ! enSession (stEntries st' ! x)))"
    proof (intro allI impI)
      fix x assume "x < length (stEntries st')"
      then have x: "x < length (stEntries st)" by (simp add: st'_def)
      have es: "enSession (stEntries st' ! x) = enSession (stEntries st ! x)" "enId (stEntries st' ! x) = enId (stEntries st ! x)"
        using x assms(2) by (auto simp: st'_def nth_list_update)
      have base: "enSession (stEntries st ! x) < length (stSessions st)" "enId (stEntries st ! x) = sessionID st (enSession (stEntries st ! x))"
        using assms(1) x by (auto simp: store_inv_def)
      have "enId (stEntries st ! e) = sessionID st (enSession ?e)" using assms by (auto simp: store_inv_def)
      then have ne: "enSession (stEntries st ! x) \<noteq> enSession ?e" if "\<not> enDetached (stEntries st ! x)" "x \<noteq> e"
        using other [OF x that] base by auto
      have "(enId (stEntries st ! x), x) \<in> set (stItems st') \<and> sEntry (stSessions st' ! enSession (stEntries st ! x))"
        if l: "\<not> enDetached (stEntries st' ! x)"
      proof -
        have xe: "x \<noteq> e" using l assms(2) by (auto simp: st'_def)
        then have nd: "\<not> enDetached (stEntries st ! x)" using l by (simp add: st'_def)
        then have "(enId (stEntries st ! x), x) \<in> set (stItems st)" "sEntry (stSessions st ! enSession (stEntries st ! x))"
          using assms(1) x by (auto simp: store_inv_def)
        then show ?thesis using other [OF x nd xe] ne [OF nd xe] by (auto simp: st'_def)
      qed
      then show "enSession (stEntries st' ! x) < length (stSessions st')
          \<and> enId (stEntries st' ! x) = sessionID st' (enSession (stEntries st' ! x))
          \<and> (\<not> enDetached (stEntries st' ! x) \<longrightarrow> (enId (stEntries st' ! x), x) \<in> set (stItems st')
              \<and> sEntry (stSessions st' ! enSession (stEntries st' ! x)))"
        unfolding es sid using base by (simp add: st'_def)
    qed
    show "\<forall>x < length (stSessions st'). session_inv (stSessions st' ! x)"
      using assms by (auto simp: st'_def store_inv_def nth_list_update)
    show "\<forall>x < length (stSessions st'). sEntry (stSessions st' ! x) \<longrightarrow>
          (\<exists>y < length (stEntries st'). \<not> enDetached (stEntries st' ! y) \<and> enSession (stEntries st' ! y) = x)"
    proof (intro allI impI)
      fix x assume x: "x < length (stSessions st')" "sEntry (stSessions st' ! x)"
      then have "x \<noteq> enSession ?e" "x < length (stSessions st)" "sEntry (stSessions st ! x)"
        using assms by (auto simp: st'_def nth_list_update store_inv_def split: if_splits)
      with assms(1) obtain y where "y < length (stEntries st)" "\<not> enDetached (stEntries st ! y)" "enSession (stEntries st ! y) = x"
        by (auto simp: store_inv_def)
      then show "\<exists>y < length (stEntries st'). \<not> enDetached (stEntries st' ! y) \<and> enSession (stEntries st' ! y) = x"
        using \<open>x \<noteq> enSession ?e\<close> assms(2) by (intro exI [of _ y]) (auto simp: st'_def nth_list_update)
    qed
  qed
  then show ?thesis unfolding d by (simp add: dispatchDisposed_def)
qed

section \<open>Publishing against a registry\<close>

text \<open>What \<open>Create\<close> relies on of the store: lookup after entering, after announcing and after leaving.\<close>

locale registry =
  fixes valid :: "'s \<Rightarrow> nat \<Rightarrow> bool"
    and key :: "'s \<Rightarrow> nat \<Rightarrow> string"
    and look :: "'s \<Rightarrow> string \<Rightarrow> nat option"
    and owns :: "'s \<Rightarrow> nat \<Rightarrow> string \<Rightarrow> bool"
    and enter :: "'s \<Rightarrow> nat \<Rightarrow> (store_error, 's \<times> nat) outcome"
    and announce :: "'s \<Rightarrow> nat \<Rightarrow> 's \<times> store_error option"
    and leave :: "'s \<Rightarrow> nat \<Rightarrow> 's"
  assumes enter_free: "valid st r \<Longrightarrow> look st (key st r) = None \<Longrightarrow>
      \<exists>st' h. enter st r = Ok (st', h) \<and> look st' = (look st)(key st r \<mapsto> r) \<and> owns st' h (key st r) \<and> valid st' r"
    and enter_taken: "look st (key st r) = Some x \<Longrightarrow> enter st r = Err (SessionExists (key st r))"
    and announce_keeps: "valid st r \<Longrightarrow> announce st r = (st', e) \<Longrightarrow>
      look st' = look st \<and> (\<forall>h k. owns st h k \<longrightarrow> owns st' h k)"
    and leave_frees: "owns st h k \<Longrightarrow> look (leave st h) = (look st)(k := None)"
begin

lemma publish_or_roll_back:
  assumes "valid st r" and "publish enter announce leave st r = (st', res)"
  shows "(res = Ok r \<and> look st (key st r) = None \<and> look st' = (look st)(key st r \<mapsto> r))
    \<or> ((\<exists>e. res = Err e) \<and> look st' = look st)"
proof (cases "look st (key st r)")
  case None
  obtain st1 h where e: "enter st r = Ok (st1, h)" "look st1 = (look st)(key st r \<mapsto> r)" "owns st1 h (key st r)" "valid st1 r"
    using enter_free [OF assms(1) None] by blast
  obtain st2 err where a: "announce st1 r = (st2, err)" by fastforce
  note k = announce_keeps [OF e(4) a]
  show ?thesis
  proof (cases err)
    case None
    then show ?thesis using assms(2) e a k \<open>look st (key st r) = None\<close> by (simp add: publish_def)
  next
    case (Some x)
    have "look (leave st2 h) = look st"
      using leave_frees [of st2 h "key st r"] k e(2,3) None by (auto simp: fun_eq_iff)
    then show ?thesis using assms(2) e a Some by (auto simp: publish_def)
  qed
next
  case (Some x)
  then show ?thesis using enter_taken [OF Some] assms(2) by (auto simp: publish_def)
qed

end

lemma Announce_look:
  assumes "store_inv st" and "Announce veto st r = (st', e)"
  shows "Get st' = Get st \<and> stItems st' = stItems st \<and> length (stEntries st') = length (stEntries st)
     \<and> (\<forall>h. enDetached (stEntries st' ! h) = enDetached (stEntries st ! h) \<and> enId (stEntries st' ! h) = enId (stEntries st ! h))
     \<and> stSessions st' = stSessions st"
proof -
  have sa: "enSession (stEntries (setAnnounced t h b) ! x) = enSession (stEntries t ! x)"
    "enDetached (stEntries (setAnnounced t h b) ! x) = enDetached (stEntries t ! x)"
    "enId (stEntries (setAnnounced t h b) ! x) = enId (stEntries t ! x)"
    "stItems (setAnnounced t h b) = stItems t" "length (stEntries (setAnnounced t h b)) = length (stEntries t)"
    "stSessions (setAnnounced t h b) = stSessions t" for t h b x
    by (cases "h < length (stEntries t)"; simp add: setAnnounced_def nth_list_update list_update_beyond)+
  have rc: "stEntries t' = stEntries t \<and> stItems t' = stItems t \<and> stSessions t' = stSessions t" if "runCallbacks veto t r cs = (t', x)" for t t' x cs
    using runCallbacks_frame [OF that] by auto
  show ?thesis
    using assms(2) rc sa
    by (auto simp: Announce_def Get_def fun_eq_iff split: option.splits if_splits prod.splits)
qed

definition store_valid :: "store \<Rightarrow> nat \<Rightarrow> bool" where
  "store_valid st s \<longleftrightarrow> store_inv st \<and> s < length (stSessions st)"

definition store_owns :: "store \<Rightarrow> nat \<Rightarrow> string \<Rightarrow> bool" where
  "store_owns st h k \<longleftrightarrow> store_inv st \<and> h < length (stEntries st) \<and> \<not> enDetached (stEntries st ! h) \<and> enId (stEntries st ! h) = k"

lemma map_of_drop_key: "map_of (filter (\<lambda>(j, _). j \<noteq> k) xs) j = (if j = k then None else map_of xs j)"
  by (induction xs) auto

lemma detach_look:
  assumes "store_owns st h k"
  shows "Get (detach st h) = (Get st)(k := None)"
proof -
  let ?e = "stEntries st ! h"
  have k: "enId ?e = k" "\<not> enDetached ?e" "h < length (stEntries st)" using assms by (auto simp: store_owns_def)
  have "map_of (filter (\<lambda>(j, _). j \<noteq> k) (stItems st)) j = (if j = k then None else map_of (stItems st) j)" for j
    by (rule map_of_drop_key)
  moreover have "enSession ((stEntries st)[h := ?e\<lparr>enDetached := True\<rparr>] ! x) = enSession (stEntries st ! x)" for x
    using k by (simp add: nth_list_update)
  ultimately show ?thesis
    using k by (auto simp: detach_def Let_def dispatchDisposed_def Get_def fun_eq_iff option.map_comp comp_def)
qed

interpretation reg: registry store_valid sessionID Get store_owns Enter "Announce veto" detach for veto
proof (unfold_locales, goal_cases)
  case (1 st r)
  then have inv: "store_inv st" "r < length (stSessions st)" "map_of (stItems st) (sessionID st r) = None"
    by (auto simp: store_valid_def Get_def)
  obtain st' h where e: "Enter st r = Ok (st', h)" using inv(3) by (auto simp: Enter_def Let_def)
  have inv': "store_inv st'" using Enter_inv [OF inv(1,2) e] .
  have st': "h = length (stEntries st)" "stItems st' = (sessionID st r, h) # stItems st"
    "stEntries st' = stEntries st @ [\<lparr>enId = sessionID st r, enSession = r, enAnnounced = False, enDetached = False\<rparr>]"
    "length (stSessions st') = length (stSessions st)"
    using e inv(3) by (auto simp: Enter_def Let_def)
  have "Get st' = (Get st)(sessionID st r \<mapsto> r)"
  proof
    fix k show "Get st' k = ((Get st)(sessionID st r \<mapsto> r)) k"
      using store_inv_items(1) [OF inv(1), of k] by (cases "map_of (stItems st) k") (auto simp: Get_def st' nth_append)
  qed
  then show ?case using e inv' st' inv(2) by (auto simp: store_owns_def store_valid_def)
next
  case (2 st r x)
  then show ?case by (auto simp: Get_def Enter_def Let_def)
next
  case (3 st r st' e)
  then show ?case
    using Announce_look [of st veto r st' e] Announce_inv [of st veto r] by (auto simp: store_valid_def store_owns_def)
next
  case (4 st h k)
  then show ?case by (rule detach_look)
qed

section \<open>Reachable stores\<close>

lemma newSession_entry:
  assumes "newSession now i seed h restore n = Ok s"
  shows "\<not> sEntry s"
proof -
  from assms obtain hd inh s1 where
    l: "seedLoop 0 (blank_session hd inh) (case seed of None \<Rightarrow> [] | Some es \<Rightarrow> es) = Ok s1" and m: "markSeed now s1 = Ok s"
    by (auto simp: newSession_def andThen_Ok_iff)
  then show ?thesis using seedLoop_frame [OF l] markSeed_frame [OF m] by (simp add: blank_session_def)
qed

inductive store_reach :: "store \<Rightarrow> bool" where
  new: "store_reach NewStore"
| prepare: "store_reach st \<Longrightarrow> newSession now i seed h restore n = Ok s \<Longrightarrow>
    store_reach (st\<lparr>stSessions := stSessions st @ [s]\<rparr>)"
| onCreated: "store_reach st \<Longrightarrow> store_reach (OnCreated st fn)"
| onDisposed: "store_reach st \<Longrightarrow> store_reach (OnDisposed st fn)"
| onEvent: "store_reach st \<Longrightarrow> store_reach (OnEvent st fn)"
| offEvent: "store_reach st \<Longrightarrow> store_reach (detachSink st fn)"
| onFlush: "store_reach st \<Longrightarrow> store_reach (OnFlush st fn)"
| enter: "store_reach st \<Longrightarrow> s < length (stSessions st) \<Longrightarrow> Enter st s = Ok (st', h) \<Longrightarrow> store_reach st'"
| announce: "store_reach st \<Longrightarrow> s < length (stSessions st) \<Longrightarrow> Announce veto st s = (st', e) \<Longrightarrow> store_reach st'"
| leave: "store_reach st \<Longrightarrow> h < length (stEntries st) \<Longrightarrow> store_reach (detach st h)"
| append: "store_reach st \<Longrightarrow> s < length (stSessions st) \<Longrightarrow>
    AppendTo now st s ty data intent = (st', res) \<Longrightarrow> store_reach st'"
| create: "store_reach st \<Longrightarrow> Create now veto st i options = (st', r) \<Longrightarrow> store_reach st'"

lemma AppendTo_inv:
  assumes "store_inv st" and "s < length (stSessions st)" and "AppendTo now st s ty data intent = (st', res)"
  shows "store_inv st'"
proof -
  obtain t r where a: "Append now (stSessions st ! s) ty data intent = (t, r)" by fastforce
  have "session_inv (stSessions st ! s)" using assms(1,2) by (simp add: store_inv_def)
  then have "store_inv (st\<lparr>stSessions := (stSessions st)[s := t]\<rparr>)"
    using Append_inv [OF _ a] Append_frame [OF a] assms(1,2) by (intro store_inv_session) auto
  then show ?thesis
    using assms(3) a by (auto simp: AppendTo_def onEventCommit_def Let_def split: outcome.splits if_splits option.splits)
qed

lemma publish_inv:
  assumes "store_inv st" and "s < length (stSessions st)" and "publish Enter (Announce veto) detach st s = (st', r)"
  shows "store_inv st'"
proof (cases "Enter st s")
  case (Ok p)
  obtain st1 h where p: "p = (st1, h)" by (cases p)
  have e: "Enter st s = Ok (st1, h)" using Ok p by simp
  have i1: "store_inv st1" by (rule Enter_inv [OF assms(1,2) e])
  have h: "h < length (stEntries st1)" using e by (auto simp: Enter_def Let_def split: option.splits)
  obtain st2 x where a: "Announce veto st1 s = (st2, x)" by fastforce
  have i2: "store_inv st2" "length (stEntries st2) = length (stEntries st1)"
    using Announce_inv [OF i1, of veto s] Announce_look [OF i1 a] a by auto
  show ?thesis
    using assms(3) e a i2 h detach_inv [OF i2(1), of h] by (auto simp: publish_def split: option.splits)
qed (use assms in \<open>auto simp: publish_def\<close>)

lemma Create_inv:
  assumes "store_inv st" and "Create now veto st i options = (st', r)"
  shows "store_inv st'"
proof (cases "NewDetached now i (coSeed options) (Some (createHeader i options))
    (int (length (case coSeed options of None \<Rightarrow> [] | Some es \<Rightarrow> es)))")
  case (Ok s)
  have "store_inv (st\<lparr>stSessions := stSessions st @ [s]\<rparr>)"
    using NewDetached_frame [OF Ok] assms(1) by (intro store_inv_alloc) auto
  from publish_inv [OF this, of "length (stSessions st)" veto st' r] show ?thesis
    using assms(2) Ok by (simp add: Create_def)
qed (use assms in \<open>auto simp: Create_def\<close>)

lemma listener_inv:
  "store_inv (OnCreated st fn) = store_inv st" "store_inv (OnDisposed st fn) = store_inv st"
  "store_inv (OnEvent st fn) = store_inv st" "store_inv (OnFlush st fn) = store_inv st"
  "store_inv (detachSink st fn) = store_inv st"
  by (simp_all add: OnCreated_def OnDisposed_def OnEvent_def OnFlush_def detachSink_def store_inv_def sessionID_def)

lemma store_reach_inv: "store_reach st \<Longrightarrow> store_inv st"
proof (induction rule: store_reach.induct)
  case new
  show ?case by (simp add: store_inv_def NewStore_def)
next
  case (prepare st now i seed h restore n s)
  then show ?case using newSession_inv newSession_entry store_inv_alloc by blast
next
  case (announce st s veto st' e)
  then show ?case using Announce_inv [of st veto s] by simp
qed (auto simp: listener_inv dest: Enter_inv detach_inv AppendTo_inv Create_inv)

section \<open>Logs of stored sessions\<close>

definition store_admitted :: "store \<Rightarrow> bool" where
  "store_admitted st \<longleftrightarrow> (\<forall>s < length (stSessions st). \<forall>e \<in> set (sLog (stSessions st ! s)). event_admitted e)"

lemma logs_same: "map sLog (stSessions st') = map sLog (stSessions st) \<Longrightarrow> store_admitted st' = store_admitted st"
  unfolding store_admitted_def by (metis length_map nth_map)

lemma list_update_map_same: "f x = f (xs ! i) \<Longrightarrow> map f (xs[i := x]) = map f xs"
  by (cases "i < length xs") (simp_all add: map_update list_update_same_conv list_update_beyond)

lemma Enter_logs: "Enter st s = Ok (st', h) \<Longrightarrow> map sLog (stSessions st') = map sLog (stSessions st)"
  by (auto simp: Enter_def Let_def list_update_map_same split: option.splits)

lemma detach_logs: "map sLog (stSessions (detach st h)) = map sLog (stSessions st)"
  by (simp add: detach_def Let_def dispatchDisposed_def list_update_map_same)

lemma onEventCommit_sessions: "stSessions (onEventCommit st s e) = stSessions st"
  by (simp add: onEventCommit_def split: option.split)

lemma publish_logs:
  assumes "store_inv st" and "s < length (stSessions st)" and "publish Enter (Announce veto) detach st s = (st', r)"
  shows "map sLog (stSessions st') = map sLog (stSessions st)"
proof (cases "Enter st s")
  case (Ok p)
  obtain st1 h where p: "p = (st1, h)" by (cases p)
  have e: "Enter st s = Ok (st1, h)" using Ok p by simp
  obtain st2 x where a: "Announce veto st1 s = (st2, x)" by fastforce
  have "stSessions st2 = stSessions st1" using Announce_look [OF Enter_inv [OF assms(1,2) e] a] by simp
  then show ?thesis
    using assms(3) e a Enter_logs [OF e] detach_logs [of st2 h] by (auto simp: publish_def split: option.splits)
qed (use assms in \<open>auto simp: publish_def\<close>)

lemma store_admitted_alloc:
  "store_admitted st \<Longrightarrow> \<forall>e \<in> set (sLog s). event_admitted e \<Longrightarrow> store_admitted (st\<lparr>stSessions := stSessions st @ [s]\<rparr>)"
  by (auto simp: store_admitted_def nth_append less_Suc_eq)

lemma AppendTo_admitted:
  assumes "store_admitted st" and "s < length (stSessions st)" and "AppendTo now st s ty data intent = (st', res)"
  shows "store_admitted st'"
proof -
  obtain t r where a: "Append now (stSessions st ! s) ty data intent = (t, r)" by fastforce
  obtain ys where "sLog t = sLog (stSessions st ! s) @ ys" "\<forall>e \<in> set ys. event_admitted e" using Append_log [OF a] by blast
  then have "\<forall>e \<in> set (sLog t). event_admitted e" using assms(1,2) by (auto simp: store_admitted_def)
  moreover have "stSessions st' = (stSessions st)[s := t]"
    using assms(3) a by (auto simp: AppendTo_def Let_def onEventCommit_sessions split: outcome.splits if_splits)
  ultimately show ?thesis using assms(1,2) by (auto simp: store_admitted_def nth_list_update)
qed

lemma store_reach_admitted: "store_reach st \<Longrightarrow> store_admitted st"
proof (induction rule: store_reach.induct)
  case (prepare st now i seed h restore n s)
  then show ?case using newSession_log store_admitted_alloc by blast
next
  case (enter st s st' h)
  then show ?case using logs_same [OF Enter_logs] by blast
next
  case (announce st s veto st' e)
  then show ?case using Announce_look [OF store_reach_inv [OF announce.hyps(1)] announce.hyps(3)] by (simp add: store_admitted_def)
next
  case (leave st h)
  then show ?case using logs_same [OF detach_logs] by blast
next
  case (append st s now ty data intent st' res)
  then show ?case using AppendTo_admitted by blast
next
  case (create st now veto i options st' r)
  show ?case
  proof (cases "NewDetached now i (coSeed options) (Some (createHeader i options))
      (int (length (case coSeed options of None \<Rightarrow> [] | Some es \<Rightarrow> es)))")
    case (Ok s)
    let ?st = "st\<lparr>stSessions := stSessions st @ [s]\<rparr>"
    have "store_inv ?st"
      using NewDetached_frame [OF Ok] store_reach_inv [OF create.hyps(1)] by (intro store_inv_alloc) auto
    moreover have "store_admitted ?st"
      using Ok create.IH newSession_log by (intro store_admitted_alloc) (auto simp: NewDetached_def)
    ultimately show ?thesis
      using create.hyps(2) Ok logs_same [OF publish_logs [of ?st "length (stSessions st)" veto st' r]] by (simp add: Create_def)
  qed (use create in \<open>auto simp: Create_def\<close>)
qed (simp_all add: store_admitted_def NewStore_def OnCreated_def OnDisposed_def OnEvent_def OnFlush_def detachSink_def)

section \<open>Forked prefixes\<close>

lemma DeepCopyEvent_sel [simp]:
  "evType (DeepCopyEvent e) = evType e" "evSeq (DeepCopyEvent e) = evSeq e" "evTime (DeepCopyEvent e) = evTime e"
  "evData (DeepCopyEvent e) = evData e" "evSurfaceOp (DeepCopyEvent e) = evSurfaceOp e"
  by (simp_all add: DeepCopyEvent_def)

lemma DeepCopyEvent_id: "evSourceEventSeqs e \<noteq> Some [] \<Longrightarrow> DeepCopyEvent e = e"
  by (cases e) (auto simp: DeepCopyEvent_def split: option.splits list.splits)

lemma decodePayload_copy: "decodePayload d z (DeepCopyEvent e) w = decodePayload d z e w"
  by (simp add: decodePayload_def split: option.split)

lemma validateSeedEvent_copy: "validateSeedEvent (DeepCopyEvent e) j = validateSeedEvent e j"
  by (simp add: validateSeedEvent_def assertMessageEventShape_def DecodeUserMessage_def DecodeAssistantMessage_def
      DecodeToolResult_def decodePayload_copy)

lemma rewrite_copy: "rewriteTargets (DeepCopyEvent e) (map DeepCopyEvent evs) b sh = rewriteTargets e evs b sh"
  by (induction sh) (auto simp: Let_def nat_less_iff cong: if_cong)

lemma provenance_copy:
  assumes "assertProvenance e sh = Ok ()"
  shows "assertProvenance (DeepCopyEvent e) sh = Ok ()"
proof (cases "evSourceEventSeqs e = Some []")
  case True
  then have "evSourceEventSeqs (DeepCopyEvent e) = None" by (simp add: DeepCopyEvent_def)
  then show ?thesis using assms True by (simp add: assertProvenance_def split: if_splits)
qed (use assms in \<open>simp add: DeepCopyEvent_id\<close>)

lemma plan_copy:
  assumes "planSurfaceEvent st e n evs b = Ok p"
  shows "planSurfaceEvent st (DeepCopyEvent e) n (map DeepCopyEvent evs) b = Ok p"
  using assms
proof (cases rule: planSurfaceEvent_cases)
  case none
  then show ?thesis by (simp add: planSurfaceEvent_def surfaceOpOf_def DeepCopyEvent_def)
next
  case (app o')
  then show ?thesis using provenance_copy [OF app(6)] by (simp add: planSurfaceEvent_def surfaceOpOf_def)
next
  case (rep o' s t sh)
  then show ?thesis
    using provenance_copy [OF rep(7)]
    by (auto simp: planSurfaceEvent_def surfaceOpOf_def assertToolResultRewrite_def rewrite_copy SurfaceAppend_def SurfaceReplace_def)
qed

lemma foldSurface_copy:
  "foldSurfaceFrom evs i st rs xs = Ok r \<Longrightarrow> foldSurfaceFrom (map DeepCopyEvent evs) i st rs (map DeepCopyEvent xs) = Ok r"
proof (induction xs arbitrary: i st rs)
  case (Cons x xs)
  then show ?case using plan_copy by (fastforce simp: outcome_simps)
qed simp

lemma surface_run_copy: "surface_run evs = Ok r \<Longrightarrow> surface_run (map DeepCopyEvent evs) = Ok r"
  unfolding surface_run_def by (rule foldSurface_copy)

lemma registerCalls_turn [simp]: "rsOpenTurn (registerCalls step s bs) = rsOpenTurn s"
  by (induction step s bs rule: registerCalls.induct) auto

lemma openTurn_closed: "openTurnScan (rev evs) = None \<Longrightarrow> rsOpenTurn (repair_scan evs) = -1"
proof (induction evs rule: rev_induct)
  case Nil
  show ?case by (simp add: repair_scan_def repair_start_def)
next
  case (snoc e evs)
  have "repair_scan (evs @ [e]) = repair_step (repair_scan evs) e" by (simp add: repair_scan_def)
  then show ?case using snoc
    by (auto simp: repair_step_def event_type_defs split: if_splits outcome.splits option.splits)
qed

lemma openTurnScan_copy: "openTurnScan (map DeepCopyEvent evs) = openTurnScan evs"
  by (induction evs) auto

lemma Fork_cases:
  assumes "Fork st source child b = Ok prefix"
  shows "prefix = map DeepCopyEvent (take (nat b + 1) (sLog (stSessions st ! source)))" "0 \<le> b"
    "b < int (length (sLog (stSessions st ! source)))" "openTurnScan (rev prefix) = None"
    "Get st (sessionID st source) = Some source" "Get st child = None"
  using assms
  by (auto simp: Fork_def Let_def Get_def openTurnScan_copy rev_map split: option.splits if_splits)

section \<open>Properties\<close>

definition no_veto :: "nat \<Rightarrow> nat \<Rightarrow> string option" where "no_veto fn s = None"
definition one_veto :: "nat \<Rightarrow> nat \<Rightarrow> string option" where "one_veto fn s = Some ''no''"

definition demo_options :: create_options where
  "demo_options = \<lparr>coSeed = None, coHeader = zero_header, coDelegationDepth = None, coOrigin = []\<rparr>"

definition demo_store :: store where
  "demo_store = fst (Create 5 no_veto (OnEvent (OnDisposed (OnCreated NewStore 1) 2) 3) ''a'' demo_options)"

lemma demo_store_reach: "store_reach demo_store"
  unfolding demo_store_def
  by (rule store_reach.create [OF store_reach.onEvent [OF store_reach.onDisposed [OF store_reach.onCreated [OF store_reach.new]]],
        where r = "snd (Create 5 no_veto (OnEvent (OnDisposed (OnCreated NewStore 1) 2) 3) ''a'' demo_options)"]) simp

lemma demo_store_facts: "Get demo_store ''a'' = Some 0 \<and> length (stSessions demo_store) = 1 \<and> sessionID demo_store 0 = ''a''
    \<and> stSinks demo_store = [3] \<and> sEntry (stSessions demo_store ! 0) \<and> stDisposed demo_store = [2] \<and> length (stEntries demo_store) = 1"
  by code_simp

text \<open>C19: The store keeps at most one live session per id: in every reachable store the listed ids are
  distinct, the session found under an id carries that id and is bound to the store, and a bound session
  is the one found under its own id.\<close>

theorem store_one_session_per_id:
  assumes "store_reach st"
  shows "distinct (ListSessions st) \<and> (\<forall>i s. Get st i = Some s \<longrightarrow> sessionID st s = i \<and> sEntry (stSessions st ! s))
    \<and> (\<forall>s < length (stSessions st). sEntry (stSessions st ! s) \<longrightarrow> Get st (sessionID st s) = Some s)"
proof (intro conjI allI impI)
  note inv = store_reach_inv [OF assms]
  show "distinct (ListSessions st)" using inv by (simp add: store_inv_def ListSessions_def)
  fix i s assume "Get st i = Some s"
  then obtain e where "map_of (stItems st) i = Some e" "enSession (stEntries st ! e) = s" by (auto simp: Get_def)
  then show "sessionID st s = i" "sEntry (stSessions st ! s)" using store_inv_items [OF inv] by auto
next
  fix s assume "s < length (stSessions st)" "sEntry (stSessions st ! s)"
  then show "Get st (sessionID st s) = Some s"
    using store_inv_entry [OF store_reach_inv [OF assms]] by (metis Get_def option.simps(9))
qed

theorem store_one_session_per_id_witness:
  "Get demo_store ''a'' = Some 0 \<and> sEntry (stSessions demo_store ! 0)"
  using store_one_session_per_id [OF demo_store_reach] demo_store_facts by blast

text \<open>C20: \<open>Create\<close> publishes or rolls back: on success the id was free and now finds the new session and
  every other id finds what it found before; on any error (an invalid header or seed, a taken id, a veto)
  every id finds what it found before.\<close>

theorem create_publishes_or_rolls_back:
  assumes "store_reach st" and "Create now veto st i options = (st', res)"
  shows "(res = Ok (length (stSessions st)) \<and> Get st i = None \<and> Get st' = (Get st)(i \<mapsto> length (stSessions st)))
    \<or> ((\<forall>s. res \<noteq> Ok s) \<and> Get st' = Get st)"
proof (cases "NewDetached now i (coSeed options) (Some (createHeader i options))
    (int (length (case coSeed options of None \<Rightarrow> [] | Some es \<Rightarrow> es)))")
  case (Ok s)
  let ?st = "st\<lparr>stSessions := stSessions st @ [s]\<rparr>"
  have "store_inv ?st" using NewDetached_frame [OF Ok] store_reach_inv [OF assms(1)] by (intro store_inv_alloc) auto
  then have v: "store_valid ?st (length (stSessions st))" by (simp add: store_valid_def)
  have k: "sessionID ?st (length (stSessions st)) = i" using NewDetached_frame [OF Ok] by (simp add: sessionID_def)
  have g: "Get ?st = Get st" by (simp add: Get_def fun_eq_iff)
  have "publish Enter (Announce veto) detach ?st (length (stSessions st)) = (st', res)"
    using assms(2) Ok by (simp add: Create_def)
  from reg.publish_or_roll_back [OF v this] show ?thesis unfolding k g by auto
qed (use assms(2) in \<open>auto simp: Create_def\<close>)

theorem create_publishes_or_rolls_back_witness:
  "Get (fst (Create 9 no_veto demo_store ''a'' demo_options)) ''a'' = Some 0
   \<and> snd (Create 9 no_veto demo_store ''a'' demo_options) \<noteq> Ok 1"
proof -
  have l: "length (stSessions demo_store) = 1" "Get demo_store ''a'' = Some 0" using demo_store_facts by auto
  from create_publishes_or_rolls_back [OF demo_store_reach, of 9 no_veto "''a''" demo_options
      "fst (Create 9 no_veto demo_store ''a'' demo_options)" "snd (Create 9 no_veto demo_store ''a'' demo_options)"]
  show ?thesis using l by auto
qed

text \<open>The append feed is exact: appending to a session tells every listener, in registration order, the
  committed event exactly once when the session is bound to the store, and tells nobody anything when it
  is not bound or the append is refused.\<close>

theorem append_feeds_listeners_once:
  assumes "store_reach st" and "s < length (stSessions st)" and "AppendTo now st s ty data intent = (st', res)"
  shows "stTrace st' = stTrace st @ (case res of
      Ok e \<Rightarrow> if Get st (sessionID st s) = Some s then map (\<lambda>sink. Fed sink s e) (stSinks st) else []
    | _ \<Rightarrow> [])"
proof -
  note inv = store_reach_inv [OF assms(1)]
  obtain t r where a: "Append now (stSessions st ! s) ty data intent = (t, r)" by fastforce
  note fr = Append_frame [OF a]
  let ?st = "st\<lparr>stSessions := (stSessions st)[s := t]\<rparr>"
  have sid: "sessionID ?st s = sessionID st s" using fr assms(2) by (simp add: sessionID_def)
  have bound: "sEntry t \<longleftrightarrow> Get st (sessionID st s) = Some s"
  proof
    assume "sEntry t"
    then show "Get st (sessionID st s) = Some s"
      using store_inv_entry [OF inv assms(2)] fr by (metis Get_def option.simps(9))
  next
    assume "Get st (sessionID st s) = Some s"
    then show "sEntry t" using store_inv_items(6) [OF inv] fr by (auto simp: Get_def)
  qed
  show ?thesis
  proof (cases r)
    case (Ok e)
    have "map_of (stItems st) (sessionID st s) \<noteq> None" if "Get st (sessionID st s) = Some s"
      using that by (auto simp: Get_def)
    then show ?thesis
      using assms(3) a Ok bound sid by (auto simp: AppendTo_def onEventCommit_def Let_def split: option.splits if_splits)
  qed (use assms(3) a in \<open>auto simp: AppendTo_def\<close>)
qed

theorem append_feeds_listeners_once_witness:
  "\<exists>e. snd (AppendTo 6 demo_store 0 EventTurnStart (Some (JObj [])) None) = Ok e
     \<and> stTrace (fst (AppendTo 6 demo_store 0 EventTurnStart (Some (JObj [])) None)) = stTrace demo_store @ [Fed 3 0 e]"
proof -
  have ok: "is_Ok (snd (AppendTo 6 demo_store 0 EventTurnStart (Some (JObj [])) None))" by code_simp
  then obtain e where e: "snd (AppendTo 6 demo_store 0 EventTurnStart (Some (JObj [])) None) = Ok e" by (auto simp: is_Ok_iff)
  from append_feeds_listeners_once [OF demo_store_reach, of 0 6 EventTurnStart "Some (JObj [])" None
      "fst (AppendTo 6 demo_store 0 EventTurnStart (Some (JObj [])) None)" "Ok e"] e demo_store_facts
  show ?thesis by (simp add: prod_eq_iff)
qed

text \<open>Leaving is effective and final: it frees the id and nothing else, unbinds the session, tells the
  disposal listeners once if the session had been announced, and a second call does nothing.\<close>

theorem detach_once:
  assumes "store_reach st" and "h < length (stEntries st)" and "\<not> enDetached (stEntries st ! h)"
  shows "Get (detach st h) = (Get st)(enId (stEntries st ! h) := None)
    \<and> stTrace (detach st h) = stTrace st @ (if enAnnounced (stEntries st ! h)
         then map (\<lambda>fn. Disposed fn (enSession (stEntries st ! h))) (stDisposed st) else [])
    \<and> detach (detach st h) h = detach st h"
proof -
  have look: "Get (detach st h) = (Get st)(enId (stEntries st ! h) := None)"
    using store_reach_inv [OF assms(1)] assms(2,3) by (intro detach_look) (simp add: store_owns_def)
  have tr: "stTrace (detach st h) = stTrace st @ (if enAnnounced (stEntries st ! h)
         then map (\<lambda>fn. Disposed fn (enSession (stEntries st ! h))) (stDisposed st) else [])"
    using assms(3) by (simp add: detach_def Let_def dispatchDisposed_def)
  have "enDetached (stEntries (detach st h) ! h)"
    using assms(2,3) by (simp add: detach_def Let_def dispatchDisposed_def)
  then have "detach (detach st h) h = detach st h" by (simp add: detach_def [of "detach st h"] Let_def)
  with look tr show ?thesis by simp
qed

theorem detach_once_witness:
  "Get (detach demo_store 0) ''a'' = None \<and> detach (detach demo_store 0) 0 = detach demo_store 0"
proof -
  have "\<not> enDetached (stEntries demo_store ! 0) \<and> enId (stEntries demo_store ! 0) = ''a''" by code_simp
  then show ?thesis using detach_once [OF demo_store_reach, of 0] demo_store_facts by simp
qed

text \<open>A vetoed creation is not paired with a disposal: the listeners that had already been told of the
  session are never told that it is gone.  (The documentation of \<open>OnCreated\<close> and of \<open>Create\<close>
  promises a paired disposal.)\<close>

theorem vetoed_create_never_disposes:
  assumes "Create now veto st i options = (st', Err (Vetoed err))"
  shows "\<exists>t. stTrace st' = stTrace st @ t \<and> (\<forall>n \<in> set t. \<exists>fn s. n = Announced fn s)"
proof -
  obtain s where s: "publish Enter (Announce veto) detach (st\<lparr>stSessions := stSessions st @ [s]\<rparr>) (length (stSessions st))
      = (st', Err (Vetoed err))"
    using assms by (auto simp: Create_def split: outcome.splits)
  let ?r = "length (stSessions st)"
  obtain st1 h where e: "Enter (st\<lparr>stSessions := stSessions st @ [s]\<rparr>) ?r = Ok (st1, h)"
    using s by (auto simp: publish_def Enter_def Let_def split: outcome.splits option.splits)
  have t1: "stTrace st1 = stTrace st" "map_of (stItems st1) (sessionID st1 ?r) = Some h"
    "h < length (stEntries st1)" "\<not> enAnnounced (stEntries st1 ! h)"
    using e by (auto simp: Enter_def Let_def sessionID_def split: option.splits)
  obtain st2 where a: "Announce veto st1 ?r = (st2, Some (Vetoed err))" and st': "st' = detach st2 h"
    using s e by (auto simp: publish_def split: prod.splits option.splits)
  obtain st3 where c: "runCallbacks veto (setAnnounced st1 h True) ?r (stCreated st1) = (st3, Some err)"
    and st2: "st2 = setAnnounced st3 h False"
    using a t1 by (auto simp: Announce_def split: prod.splits option.splits if_splits)
  obtain t where t: "st3 = (setAnnounced st1 h True)\<lparr>stTrace := stTrace st1 @ t\<rparr>" "\<forall>n \<in> set t. \<exists>c. n = Announced c ?r"
    using runCallbacks_frame [OF c] by (fastforce simp: setAnnounced_def)
  have "\<not> enAnnounced (stEntries st2 ! h)" using t1(3) by (simp add: st2 t(1) setAnnounced_def)
  then have "stTrace st' = stTrace st @ t" by (simp add: st' detach_def Let_def st2 t(1) setAnnounced_def t1(1))
  then show ?thesis using t(2) by blast
qed

theorem vetoed_create_never_disposes_witness:
  "snd (Create 9 one_veto demo_store ''b'' demo_options) = Err (Vetoed ''no'')
   \<and> (\<exists>t. stTrace (fst (Create 9 one_veto demo_store ''b'' demo_options)) = stTrace demo_store @ t
        \<and> (\<forall>n \<in> set t. \<exists>fn s. n = Announced fn s))"
proof -
  have v: "snd (Create 9 one_veto demo_store ''b'' demo_options) = Err (Vetoed ''no'')" by code_simp
  then have "Create 9 one_veto demo_store ''b'' demo_options
      = (fst (Create 9 one_veto demo_store ''b'' demo_options), Err (Vetoed ''no''))" by (simp add: prod_eq_iff)
  from vetoed_create_never_disposes [OF this] v show ?thesis by blast
qed

text \<open>A fork is always a usable seed: the prefix the store hands out is the source's log up to the
  boundary, has no open turn left to repair, and constructs the child: under a valid seeded header the
  child holds exactly that prefix as inherited events, followed by the end-of-seed marker unless the
  prefix already ends in one.\<close>

theorem fork_prefix_seeds_child:
  assumes "store_reach st" and "source < length (stSessions st)" and "Fork st source child b = Ok prefix"
    and "\<forall>e \<in> set (sLog (stSessions st ! source)). evType e \<noteq> [] \<and> 0 \<le> evTime e"
    and "validateSessionHeader child h = Ok ()" and "hIsSeeded h"
  shows "prefix = map DeepCopyEvent (take (nat b + 1) (sLog (stSessions st ! source)))
    \<and> InterruptedTurnClosers prefix = []
    \<and> (\<exists>s. NewDetached now child (Some prefix) (Some h) (b + 1) = Ok s \<and> sInheritedEventCount s = b + 1
          \<and> sLog s = prefix @ (if evType (last prefix) = EventEndSeed then []
         else [\<lparr>evType = EventEndSeed, evSeq = b + 1, evTime = now,
                evData = Some (JObj [(''inherited'', JBool True)]), evSourceEventSeqs = None,
                evSurfaceOp = None, evIgnorable = False\<rparr>]))"
proof -
  let ?log = "sLog (stSessions st ! source)"
  note f = Fork_cases [OF assms(3)]
  have len: "int (length prefix) = b + 1" "prefix \<noteq> []" using f(1-3) by auto
  have closed: "InterruptedTurnClosers prefix = []"
    using openTurn_closed [OF f(4)] by (simp add: InterruptedTurnClosers_def Let_def)
  have "session_inv (stSessions st ! source)" using store_reach_inv [OF assms(1)] assms(2) by (simp add: store_inv_def)
  then obtain r where "surface_run ?log = Ok r" using session_run by blast
  then obtain r1 where r1: "surface_run (take (nat b + 1) ?log) = Ok r1"
    using surface_run_prefix [of "take (nat b + 1) ?log" "drop (nat b + 1) ?log"] by auto
  have run: "surface_run prefix = Ok r1" using surface_run_copy [OF r1] f(1) by simp
  have seqs: "\<forall>e \<in> set prefix. 0 \<le> evSeq e"
    using surface_run_seq [of prefix] run by (metis in_set_conv_nth of_nat_0_le_iff surj_pair)
  have "\<forall>e \<in> set prefix. \<forall>j. validateSeedEvent e j = Ok ()"
  proof (intro ballI allI)
    fix e j assume "e \<in> set prefix"
    then obtain e0 where e0: "e0 \<in> set ?log" "e = DeepCopyEvent e0" using f(1) by (auto dest: in_set_takeD)
    have "event_admitted e0" using store_reach_admitted [OF assms(1)] assms(2) e0(1) by (auto simp: store_admitted_def)
    moreover have "0 \<le> evSeq e0" using seqs \<open>e \<in> set prefix\<close> e0(2) by auto
    ultimately show "validateSeedEvent e j = Ok ()"
      using assms(4) e0 admitted_validates [of e0 j] by (simp add: validateSeedEvent_copy)
  qed
  moreover have "resolveInherited child h (Some prefix) (b + 1) = Ok (b + 1)"
    using assms(6) len f(2) by (simp add: resolveInherited_def)
  ultimately have "\<exists>s. NewRestored now child (Some prefix) h (b + 1) = Ok s \<and> sHeader s = h \<and> sInheritedEventCount s = b + 1
     \<and> sLog s = prefix @ (if prefix = [] \<or> evType (last prefix) = EventEndSeed then []
         else [\<lparr>evType = EventEndSeed, evSeq = int (length prefix), evTime = now,
                evData = Some (JObj [(''inherited'', JBool True)]), evSourceEventSeqs = None,
                evSurfaceOp = None, evIgnorable = False\<rparr>])"
    using newSession_restores [OF run _ assms(5)] by blast
  moreover have "NewDetached now child (Some prefix) (Some h) (b + 1) = NewRestored now child (Some prefix) h (b + 1)"
    by (simp add: NewDetached_def NewRestored_def newSession_def resolveHeader_def)
  ultimately show ?thesis using f(1) closed len by auto
qed

definition demo_forkable :: store where
  "demo_forkable = fst (AppendTo 7 demo_store 0 EventUserMessage (Some demo_message)
     (Some \<lparr>siSurfaceOp = append_op, siSourceEventSeqs = None\<rparr>))"

definition demo_child :: session_header where
  "demo_child = zero_header\<lparr>hVersion := SESSION_FORMAT_VERSION, hID := ''c'', hIsSeeded := True\<rparr>"

lemma demo_forkable_reach: "store_reach demo_forkable"
  unfolding demo_forkable_def
  by (rule store_reach.append [OF demo_store_reach, where res = "snd (AppendTo 7 demo_store 0 EventUserMessage (Some demo_message)
        (Some \<lparr>siSurfaceOp = append_op, siSourceEventSeqs = None\<rparr>))"]) (use demo_store_facts in auto)

theorem fork_prefix_seeds_child_witness:
  "Fork demo_forkable 0 ''c'' 0 = Ok [demo_event]
   \<and> (\<exists>s. NewDetached 9 ''c'' (Some [demo_event]) (Some demo_child) 1 = Ok s \<and> sInheritedEventCount s = 1)"
proof -
  have f: "Fork demo_forkable 0 ''c'' 0 = Ok [demo_event]" by code_simp
  have l: "sLog (stSessions demo_forkable ! 0) = [demo_event]" "length (stSessions demo_forkable) = 1" by code_simp+
  have h: "validateSessionHeader ''c'' demo_child = Ok ()" "hIsSeeded demo_child" by code_simp+
  from fork_prefix_seeds_child [OF demo_forkable_reach _ f _ h, of 9] l f show ?thesis
    by (auto simp: demo_event_def event_type_defs)
qed

lemma fold_first_error:
  "fold (\<lambda>j first. if first = None then f j else first) js acc =
     (case acc of Some e \<Rightarrow> Some e
      | None \<Rightarrow> (case filter (\<lambda>j. f j \<noteq> None) js of [] \<Rightarrow> None | j # _ \<Rightarrow> f j))"
  by (induction js arbitrary: acc) (auto split: option.split list.split)

text \<open>A flush round misses no failure: whatever order the participants finish in, it reports an error
  exactly when some participant failed on some live session with unflushed events, and the error reported
  is one of those.\<close>

theorem flush_reports_failures:
  assumes "set order = set (flushJobs st)"
  shows "(snd (Flush participant order) = None \<longleftrightarrow>
      (\<forall>s \<in> set (flushSessions st). \<forall>p \<in> set (stFlush st). participant p s = None))
    \<and> (\<forall>err. snd (Flush participant order) = Some err \<longrightarrow>
      (\<exists>s \<in> set (flushSessions st). \<exists>p \<in> set (stFlush st). participant p s = Some err))"
proof -
  have "snd (Flush participant order) =
      (case filter (\<lambda>j. participant (snd j) (fst j) \<noteq> None) order of [] \<Rightarrow> None | j # _ \<Rightarrow> participant (snd j) (fst j))"
    using fold_first_error [of "\<lambda>j. participant (snd j) (fst j)" order None] by (simp add: Flush_def case_prod_beta')
  moreover have "set order = set (flushSessions st) \<times> set (stFlush st)" using assms by (simp add: flushJobs_def)
  ultimately show ?thesis
    by (cases "filter (\<lambda>j. participant (snd j) (fst j) \<noteq> None) order")
      (force simp: filter_empty_conv dest!: Cons_eq_filterD [OF sym])+
qed

theorem flush_reports_failures_witness:
  "flushJobs (OnFlush demo_forkable 4) = [(0, 4)]
   \<and> snd (Flush (\<lambda>p s. Some ''disk'') [(0, 4)]) \<noteq> None"
proof -
  have j: "flushJobs (OnFlush demo_forkable 4) = [(0, 4)]" "flushSessions (OnFlush demo_forkable 4) = [0]"
    "stFlush (OnFlush demo_forkable 4) = [4]" by code_simp+
  then show ?thesis using flush_reports_failures [of "[(0, 4)]" "OnFlush demo_forkable 4" "\<lambda>p s. Some ''disk''"] by simp
qed

end
