(* ===== verification/Llm_Assembler.thy ===== *)
theory Llm_Assembler
  imports Session_Types "HOL-Library.Word"
begin

text \<open>
  Stream chunks and their wire form (\<open>llm/types.go\<close>), message identities, and the block assembler
  (\<open>llm/assembler.go\<close>) that turns a chunk stream into content blocks.  A nil pointer read by the
  assembler and an incomplete block of an unknown type are panics.
\<close>

unbundle bit_operations_syntax

section \<open>Stream chunks\<close>

datatype stream_error =
    ChunkNotSerializable | NegativeIndex string
  | StreamNotArray | RecordNotObject | RecordKeys string | RecordShape string
  | EmptyMembers string | EmptyCallID | EmptyCallName
  | BadRunIndex string | BadRunLength string | UnsafeRunTime string
  | RawNotObject | UnsupportedRecord string | RawChunkShape

definition BlockReasoning :: string where "BlockReasoning = ''reasoning''"

definition ChunkBlockStart :: string where "ChunkBlockStart = ''block-start''"
definition ChunkTextDelta :: string where "ChunkTextDelta = ''text-delta''"
definition ChunkReasoningDelta :: string where "ChunkReasoningDelta = ''reasoning-delta''"
definition ChunkToolCallDelta :: string where "ChunkToolCallDelta = ''tool-call-delta''"
definition ChunkBlockEnd :: string where "ChunkBlockEnd = ''block-end''"
definition ChunkUsage :: string where "ChunkUsage = ''usage''"
definition ChunkFinish :: string where "ChunkFinish = ''finish''"

lemmas chunk_type_defs =
  ChunkBlockStart_def ChunkTextDelta_def ChunkReasoningDelta_def ChunkToolCallDelta_def
  ChunkBlockEnd_def ChunkUsage_def ChunkFinish_def

definition FinishStop :: string where "FinishStop = ''stop''"
definition FinishMaxTokens :: string where "FinishMaxTokens = ''max-tokens''"

record finish_reason =
  frKind :: string
  frFailure :: "llm_failure option"

record replay_envelope =
  rpResponse :: raw
  rpBlocks :: "raw list option"

record stream_chunk =
  scType :: string
  scIndex :: int
  scBlockType :: string
  scText :: string
  scID :: string
  scName :: string
  scArgumentsDelta :: string
  scBlock :: "content_block option"
  scUsage :: "token_usage option"
  scReason :: "finish_reason option"
  scReplayState :: "replay_envelope option"

definition zero_chunk :: stream_chunk where
  "zero_chunk = \<lparr>scType = [], scIndex = 0, scBlockType = [], scText = [], scID = [], scName = [],
     scArgumentsDelta = [], scBlock = None, scUsage = None, scReason = None, scReplayState = None\<rparr>"

definition zero_failure :: llm_failure where
  "zero_failure = \<lparr>lfMessage = [], lfCode = [], lfStatus = 0, lfProviderRetryAfterMs = 0, lfRequestID = []\<rparr>"

definition dec_failure :: "llm_failure decoder" where
  "dec_failure = dec_struct
     [(''message'', fld lfMessage lfMessage_update dec_string),
      (''code'', fld lfCode lfCode_update dec_string),
      (''status'', fld lfStatus lfStatus_update dec_int64),
      (''providerRetryAfterMs'', fld lfProviderRetryAfterMs lfProviderRetryAfterMs_update dec_int64),
      (''requestId'', fld lfRequestID lfRequestID_update dec_string)]"

definition dec_reason :: "finish_reason decoder" where
  "dec_reason = dec_struct
     [(''kind'', fld frKind frKind_update dec_string),
      (''failure'', fld frFailure frFailure_update (dec_ptr zero_failure dec_failure))]"

definition dec_replay :: "replay_envelope decoder" where
  "dec_replay = dec_struct
     [(''response'', fld rpResponse rpResponse_update dec_raw),
      (''blocks'', fld rpBlocks rpBlocks_update (dec_slice None dec_raw))]"

definition chunk_fields :: "(string \<times> stream_chunk decoder) list" where
  "chunk_fields =
     [(''type'', fld scType scType_update dec_string),
      (''index'', fld scIndex scIndex_update dec_int64),
      (''blockType'', fld scBlockType scBlockType_update dec_string),
      (''text'', fld scText scText_update dec_string),
      (''id'', fld scID scID_update dec_string),
      (''name'', fld scName scName_update dec_string),
      (''argumentsDelta'', fld scArgumentsDelta scArgumentsDelta_update dec_string),
      (''block'', fld scBlock scBlock_update (dec_ptr zero_block dec_block)),
      (''usage'', fld scUsage scUsage_update (dec_ptr zero_usage dec_usage)),
      (''reason'', fld scReason scReason_update (dec_ptr \<lparr>frKind = [], frFailure = None\<rparr> dec_reason)),
      (''replayState'', fld scReplayState scReplayState_update (dec_ptr \<lparr>rpResponse = None, rpBlocks = None\<rparr> dec_replay))]"

definition dec_chunk :: "stream_chunk decoder" where
  "dec_chunk = dec_struct chunk_fields"

definition enc_usage :: "token_usage \<Rightarrow> json" where
  "enc_usage u = JObj (mem ''inputTokens'' (JInt (tuInputTokens u)) @ mem ''outputTokens'' (JInt (tuOutputTokens u))
     @ mem_opt ''totalTokens'' (map_option JInt (tuTotalTokens u))
     @ mem_opt ''cacheReadTokens'' (map_option JInt (tuCacheReadTokens u))
     @ mem_opt ''cacheWriteTokens'' (map_option JInt (tuCacheWriteTokens u))
     @ mem_opt ''reasoningTokens'' (map_option JInt (tuReasoningTokens u)))"

definition enc_reason :: "finish_reason \<Rightarrow> json" where
  "enc_reason r = JObj (mem ''kind'' (JStr (frKind r)) @ mem_opt ''failure'' (map_option enc_failure (frFailure r)))"

text \<open>A nil raw message is written as \<open>null\<close>.\<close>

definition enc_raw :: "raw \<Rightarrow> json" where
  "enc_raw r = (case r of None \<Rightarrow> JNull | Some j \<Rightarrow> j)"

definition enc_replay :: "replay_envelope \<Rightarrow> json" where
  "enc_replay r = JObj (mem ''response'' (enc_raw (rpResponse r)) @ mem_slice ''blocks'' enc_raw (rpBlocks r))"

definition enc_ptr :: "('a \<Rightarrow> json) \<Rightarrow> 'a option \<Rightarrow> json" where
  "enc_ptr enc x = (case x of None \<Rightarrow> JNull | Some y \<Rightarrow> enc y)"

definition MarshalChunk :: "stream_chunk \<Rightarrow> json" where
  "MarshalChunk c =
     (if scType c = ChunkBlockStart then
        JObj (mem ''type'' (JStr (scType c)) @ mem ''index'' (JInt (scIndex c)) @ mem ''blockType'' (JStr (scBlockType c)))
      else if scType c = ChunkTextDelta \<or> scType c = ChunkReasoningDelta then
        JObj (mem ''type'' (JStr (scType c)) @ mem ''index'' (JInt (scIndex c)) @ mem ''text'' (JStr (scText c)))
      else if scType c = ChunkToolCallDelta then
        JObj (mem ''type'' (JStr (scType c)) @ mem ''index'' (JInt (scIndex c)) @ mem ''id'' (JStr (scID c))
          @ mem_str ''name'' (scName c) @ mem ''argumentsDelta'' (JStr (scArgumentsDelta c)))
      else if scType c = ChunkBlockEnd then
        JObj (mem ''type'' (JStr (scType c)) @ mem ''index'' (JInt (scIndex c)) @ mem ''block'' (enc_ptr enc_block (scBlock c)))
      else if scType c = ChunkUsage then
        JObj (mem ''type'' (JStr (scType c)) @ mem ''usage'' (enc_ptr enc_usage (scUsage c)))
      else if scType c = ChunkFinish then
        JObj (mem ''type'' (JStr (scType c)) @ mem ''reason'' (enc_ptr enc_reason (scReason c))
          @ mem_opt ''replayState'' (map_option enc_replay (scReplayState c)))
      else
        JObj (mem ''type'' (JStr (scType c)) @ mem_int ''index'' (scIndex c) @ mem_str ''blockType'' (scBlockType c)
          @ mem_str ''text'' (scText c) @ mem_str ''id'' (scID c) @ mem_str ''name'' (scName c)
          @ mem_str ''argumentsDelta'' (scArgumentsDelta c) @ mem_opt ''block'' (map_option enc_block (scBlock c))
          @ mem_opt ''usage'' (map_option enc_usage (scUsage c)) @ mem_opt ''reason'' (map_option enc_reason (scReason c))
          @ mem_opt ''replayState'' (map_option enc_replay (scReplayState c))))"

section \<open>Message identities\<close>

definition hex_digit :: "8 word \<Rightarrow> char" where
  "hex_digit v = ''0123456789abcdef'' ! unat v"

definition hex_bytes :: "8 word list \<Rightarrow> string" where
  "hex_bytes bs = concat (map (\<lambda>b. [hex_digit (drop_bit 4 b), hex_digit (b AND 0x0F)]) bs)"

definition formatUUID :: "8 word list \<Rightarrow> string" where
  "formatUUID b = concat (map (\<lambda>(i, v).
     (if i \<in> {4, 6, 8, 10, 12, 14 :: nat} then ''-'' else []) @ [hex_digit (drop_bit 4 v), hex_digit (v AND 0x0F)])
     (enumerate 0 b))"

text \<open>The argument is the outcome of the random source.\<close>

definition NewMessageID :: "8 word list \<Rightarrow> string" where
  "NewMessageID b = formatUUID (b[6 := (b ! 6 AND 0x0F) OR 0x40, 8 := (b ! 8 AND 0x3F) OR 0x80])"

section \<open>Block assembler\<close>

record partial_block =
  pbBlockType :: string
  pbText :: string
  pbToolCallID :: string
  pbHasToolCallID :: bool
  pbToolCallName :: string
  pbToolCallArguments :: string
  pbBlock :: "content_block option"

definition new_partial :: "string \<Rightarrow> partial_block" where
  "new_partial blockType = \<lparr>pbBlockType = blockType, pbText = [], pbToolCallID = [], pbHasToolCallID = False,
     pbToolCallName = [], pbToolCallArguments = [], pbBlock = None\<rparr>"

record assembler =
  asPartials :: "int \<rightharpoonup> partial_block"
  asOrder :: "int list"
  asUsage :: "token_usage option"
  asFinish :: "finish_reason option"
  asReplayState :: "replay_envelope option"

definition NewBlockAssembler :: assembler where
  "NewBlockAssembler = \<lparr>asPartials = Map.empty, asOrder = [], asUsage = None, asFinish = None, asReplayState = None\<rparr>"

definition ensure :: "assembler \<Rightarrow> int \<Rightarrow> string \<Rightarrow> assembler \<times> partial_block" where
  "ensure a index blockType =
     (case asPartials a index of
        Some partial \<Rightarrow> (a, partial)
      | None \<Rightarrow> (a\<lparr>asPartials := (asPartials a)(index \<mapsto> new_partial blockType), asOrder := asOrder a @ [index]\<rparr>,
                 new_partial blockType))"

text \<open>The partial is a pointer into the map: writing its fields is an update at its index.\<close>

definition setPartial :: "assembler \<Rightarrow> int \<Rightarrow> partial_block \<Rightarrow> assembler" where
  "setPartial a index partial = a\<lparr>asPartials := (asPartials a)(index \<mapsto> partial)\<rparr>"

definition Push :: "assembler \<Rightarrow> stream_chunk \<Rightarrow> (stream_error, assembler) outcome" where
  "Push a chunk =
     (if scType chunk = ChunkBlockStart then Ok (fst (ensure a (scIndex chunk) (scBlockType chunk)))
      else if scType chunk = ChunkTextDelta \<or> scType chunk = ChunkReasoningDelta then
        (let (a', partial) = ensure a (scIndex chunk)
               (if scType chunk = ChunkReasoningDelta then BlockReasoning else BlockText)
         in if pbBlock partial \<noteq> None then Ok a'
            else Ok (setPartial a' (scIndex chunk) (partial\<lparr>pbText := pbText partial @ scText chunk\<rparr>)))
      else if scType chunk = ChunkToolCallDelta then
        (let (a', partial) = ensure a (scIndex chunk) BlockToolCall
         in if pbBlock partial \<noteq> None then Ok a'
            else Ok (setPartial a' (scIndex chunk)
                   (partial\<lparr>pbToolCallID := scID chunk, pbHasToolCallID := scID chunk \<noteq> [],
                            pbToolCallName := (if scName chunk \<noteq> [] then scName chunk else pbToolCallName partial),
                            pbToolCallArguments := pbToolCallArguments partial @ scArgumentsDelta chunk\<rparr>)))
      else if scType chunk = ChunkBlockEnd then
        (case scBlock chunk of
           None \<Rightarrow> Panic
         | Some block \<Rightarrow>
             (let (a', partial) = ensure a (scIndex chunk) (cbType block)
              in if pbBlock partial \<noteq> None then Ok a'
                 else Ok (setPartial a' (scIndex chunk) (partial\<lparr>pbBlock := Some block\<rparr>))))
      else if scType chunk = ChunkUsage then
        (case scUsage chunk of None \<Rightarrow> Panic | Some usage \<Rightarrow> Ok (a\<lparr>asUsage := Some usage\<rparr>))
      else if scType chunk = ChunkFinish then
        (case scReason chunk of
           None \<Rightarrow> Panic
         | Some reason \<Rightarrow> Ok (a\<lparr>asFinish := Some reason, asReplayState := scReplayState chunk\<rparr>))
      else Ok a)"

definition assemble :: "partial_block \<Rightarrow> int \<Rightarrow> (stream_error, content_block) outcome" where
  "assemble partial index =
     (case pbBlock partial of
        Some block \<Rightarrow> Ok block
      | None \<Rightarrow>
          if pbBlockType partial = BlockText then Ok (ContentBlock BlockText (pbText partial) JNull [] [] [] [] None False)
          else if pbBlockType partial = BlockReasoning
            then Ok (ContentBlock BlockReasoning (pbText partial) JNull [] [] [] [] None False)
          else if pbBlockType partial = BlockToolCall then
            Ok (ContentBlock BlockToolCall [] JNull
                 (if pbHasToolCallID partial then pbToolCallID partial else ''call-'' @ show_int index)
                 (pbToolCallName partial) (pbToolCallArguments partial) [] None False)
          else Panic)"

definition assembleAt :: "assembler \<Rightarrow> int \<Rightarrow> (stream_error, content_block) outcome" where
  "assembleAt a index = (case asPartials a index of None \<Rightarrow> Panic | Some partial \<Rightarrow> assemble partial index)"

definition Finish :: "assembler \<Rightarrow> finish_reason" where
  "Finish a = (case asFinish a of None \<Rightarrow> \<lparr>frKind = FinishStop, frFailure = None\<rparr> | Some r \<Rightarrow> r)"

definition assembled :: "assembler \<Rightarrow> (stream_error, content_block list \<times> replay_envelope option) outcome" where
  "assembled a =
     andThen (mapM (assembleAt a) (asOrder a)) (\<lambda>all.
       let truncating = frKind (Finish a) = FinishMaxTokens;
           blocks = (if truncating then filter (\<lambda>b. cbType b \<noteq> BlockToolCall) all else all)
       in case asReplayState a of
            None \<Rightarrow> Ok (blocks, None)
          | Some envelope \<Rightarrow>
              (case rpBlocks envelope of
                 None \<Rightarrow> Ok (blocks, Some envelope)
               | Some entries \<Rightarrow>
                   if length entries \<noteq> length all then Ok (blocks, None)
                   else if \<not> truncating \<or> length blocks = length all then Ok (blocks, Some envelope)
                   else Ok (blocks, Some (envelope\<lparr>rpBlocks :=
                          Some (map snd (filter (\<lambda>(b, _). cbType b \<noteq> BlockToolCall) (zip all entries)))\<rparr>))))"

definition Blocks :: "assembler \<Rightarrow> (stream_error, content_block list) outcome" where
  "Blocks a = andThen (assembled a) (\<lambda>r. Ok (fst r))"

definition ReplayState :: "assembler \<Rightarrow> (stream_error, replay_envelope option) outcome" where
  "ReplayState a = andThen (assembled a) (\<lambda>r. Ok (snd r))"

fun interruptedLoop :: "assembler \<Rightarrow> int list \<Rightarrow> (stream_error, content_block list) outcome" where
  "interruptedLoop a [] = Ok []"
| "interruptedLoop a (index # rest) =
     (case asPartials a index of
        None \<Rightarrow> Panic
      | Some partial \<Rightarrow>
          let blockType = (case pbBlock partial of Some block \<Rightarrow> cbType block | None \<Rightarrow> pbBlockType partial) in
          if blockType \<noteq> BlockText \<and> blockType \<noteq> BlockReasoning then interruptedLoop a rest
          else andThen (assemble partial index) (\<lambda>block.
            if TrimSpace (cbText block) = [] then interruptedLoop a rest
            else andThen (interruptedLoop a rest) (\<lambda>bs. Ok (block # bs))))"

definition InterruptedBlocks :: "assembler \<Rightarrow> (stream_error, content_block list) outcome" where
  "InterruptedBlocks a = interruptedLoop a (asOrder a)"

definition AssembledMessage :: "8 word list \<Rightarrow> assembler \<Rightarrow> string \<Rightarrow> string \<Rightarrow> (stream_error, message) outcome" where
  "AssembledMessage random a provider model =
     andThen (assembled a) (\<lambda>(blocks, replay). Ok
       \<lparr>msgID = NewMessageID random, msgRole = RoleAssistant, msgContent = Some blocks,
        msgSource = zero_source\<lparr>srcKind := SourceModel, srcProvider := provider, srcModel := model,
                                 srcReplayState := map_option enc_replay replay\<rparr>\<rparr>)"

section \<open>Assembly block by block\<close>

definition is_block_chunk :: "stream_chunk \<Rightarrow> bool" where
  "is_block_chunk c \<longleftrightarrow> scType c \<in> {ChunkBlockStart, ChunkTextDelta, ChunkReasoningDelta, ChunkToolCallDelta, ChunkBlockEnd}"

definition block_chunks :: "int \<Rightarrow> stream_chunk list \<Rightarrow> stream_chunk list" where
  "block_chunks i cs = filter (\<lambda>c. is_block_chunk c \<and> scIndex c = i) cs"

text \<open>The indices in the order in which the stream first names them.\<close>

definition first_seen :: "stream_chunk list \<Rightarrow> int list" where
  "first_seen cs = rev (remdups (rev (map scIndex (filter is_block_chunk cs))))"

definition opens_type :: "stream_chunk \<Rightarrow> string" where
  "opens_type c =
     (if scType c = ChunkBlockStart then scBlockType c
      else if scType c = ChunkTextDelta then BlockText
      else if scType c = ChunkReasoningDelta then BlockReasoning
      else if scType c = ChunkToolCallDelta then BlockToolCall
      else case scBlock c of None \<Rightarrow> [] | Some b \<Rightarrow> cbType b)"

text \<open>One block on its own: it is opened by the first chunk that names it and frozen by its end.\<close>

definition block_step :: "partial_block option \<Rightarrow> stream_chunk \<Rightarrow> partial_block option" where
  "block_step p c =
     (let q = (case p of None \<Rightarrow> new_partial (opens_type c) | Some q \<Rightarrow> q) in
      Some (if pbBlock q \<noteq> None then q
        else if scType c = ChunkTextDelta \<or> scType c = ChunkReasoningDelta then q\<lparr>pbText := pbText q @ scText c\<rparr>
        else if scType c = ChunkToolCallDelta then
          q\<lparr>pbToolCallID := scID c, pbHasToolCallID := scID c \<noteq> [],
            pbToolCallName := (if scName c \<noteq> [] then scName c else pbToolCallName q),
            pbToolCallArguments := pbToolCallArguments q @ scArgumentsDelta c\<rparr>
        else if scType c = ChunkBlockEnd then q\<lparr>pbBlock := scBlock c\<rparr>
        else q))"

definition lone_block :: "int \<Rightarrow> stream_chunk list \<Rightarrow> (stream_error, content_block) outcome" where
  "lone_block i cs =
     (case foldl block_step None (block_chunks i cs) of None \<Rightarrow> Panic | Some p \<Rightarrow> assemble p i)"

lemma chunk_types_distinct [simp]:
  "ChunkTextDelta \<noteq> ChunkBlockStart" "ChunkReasoningDelta \<noteq> ChunkBlockStart" "ChunkToolCallDelta \<noteq> ChunkBlockStart"
  "ChunkBlockEnd \<noteq> ChunkBlockStart" "ChunkReasoningDelta \<noteq> ChunkTextDelta" "ChunkToolCallDelta \<noteq> ChunkTextDelta"
  "ChunkBlockEnd \<noteq> ChunkTextDelta" "ChunkToolCallDelta \<noteq> ChunkReasoningDelta" "ChunkBlockEnd \<noteq> ChunkReasoningDelta"
  "ChunkBlockEnd \<noteq> ChunkToolCallDelta" "ChunkUsage \<noteq> ChunkBlockStart" "ChunkUsage \<noteq> ChunkTextDelta"
  "ChunkUsage \<noteq> ChunkReasoningDelta" "ChunkUsage \<noteq> ChunkToolCallDelta" "ChunkUsage \<noteq> ChunkBlockEnd"
  "ChunkFinish \<noteq> ChunkBlockStart" "ChunkFinish \<noteq> ChunkTextDelta" "ChunkFinish \<noteq> ChunkReasoningDelta"
  "ChunkFinish \<noteq> ChunkToolCallDelta" "ChunkFinish \<noteq> ChunkBlockEnd"
  by (simp_all add: chunk_type_defs)

lemmas chunk_types_distinct_sym [simp] = chunk_types_distinct [THEN not_sym]

lemma Push_block:
  assumes "Push a c = Ok a'" and "is_block_chunk c"
  shows "a' = a\<lparr>asPartials := (asPartials a)(scIndex c := block_step (asPartials a (scIndex c)) c),
     asOrder := (if asPartials a (scIndex c) = None then asOrder a @ [scIndex c] else asOrder a)\<rparr>"
proof -
  have upd: "m i = Some p \<Longrightarrow> m(i \<mapsto> p) = m" for m :: "int \<rightharpoonup> partial_block" and i p by (simp add: fun_upd_idem)
  consider "scType c = ChunkBlockStart" | "scType c = ChunkTextDelta" | "scType c = ChunkReasoningDelta"
    | "scType c = ChunkToolCallDelta" | "scType c = ChunkBlockEnd" using assms(2) by (auto simp: is_block_chunk_def)
  then show ?thesis
  proof cases
    case 1
    then show ?thesis using assms(1)
      by (cases "asPartials a (scIndex c)") (auto simp: Push_def ensure_def block_step_def opens_type_def Let_def upd new_partial_def)
  next
    case 2
    then show ?thesis using assms(1)
      by (cases "asPartials a (scIndex c)") (auto simp: Push_def ensure_def block_step_def setPartial_def opens_type_def new_partial_def Let_def upd)
  next
    case 3
    then show ?thesis using assms(1)
      by (cases "asPartials a (scIndex c)") (auto simp: Push_def ensure_def block_step_def setPartial_def opens_type_def new_partial_def Let_def upd)
  next
    case 4
    then show ?thesis using assms(1)
      by (cases "asPartials a (scIndex c)") (auto simp: Push_def ensure_def block_step_def setPartial_def opens_type_def new_partial_def Let_def upd)
  next
    case 5
    then obtain bl where "scBlock c = Some bl" using assms(1) by (cases "scBlock c") (auto simp: Push_def)
    then show ?thesis using assms(1) 5
      by (cases "asPartials a (scIndex c)") (auto simp: Push_def ensure_def block_step_def setPartial_def opens_type_def new_partial_def Let_def upd)
  qed
qed

lemma Push_other:
  assumes "Push a c = Ok a'" and "\<not> is_block_chunk c"
  shows "asPartials a' = asPartials a \<and> asOrder a' = asOrder a"
  using assms by (auto simp: Push_def is_block_chunk_def split: if_splits option.splits)

lemma first_seen_snoc:
  "first_seen (cs @ [c]) = (if is_block_chunk c \<and> scIndex c \<notin> set (first_seen cs) then first_seen cs @ [scIndex c] else first_seen cs)"
  by (auto simp: first_seen_def image_iff)

lemma block_step_Some [simp]: "foldl block_step (Some p) cs \<noteq> None"
  by (induction cs arbitrary: p) (auto simp: block_step_def Let_def)

lemma lone_None_iff: "foldl block_step None (block_chunks i cs) = None \<longleftrightarrow> i \<notin> set (first_seen cs)"
proof -
  have "foldl block_step None ds = None \<longleftrightarrow> ds = []" for ds by (cases ds) (auto simp: block_step_def [of None] Let_def)
  then show ?thesis by (auto simp: block_chunks_def first_seen_def filter_empty_conv)
qed

lemma assembler_state:
  assumes "foldM Push NewBlockAssembler cs = Ok a"
  shows "asOrder a = first_seen cs \<and> (\<forall>i. asPartials a i = foldl block_step None (block_chunks i cs))"
  using assms
proof (induction cs arbitrary: a rule: rev_induct)
  case Nil
  then show ?case by (auto simp: NewBlockAssembler_def first_seen_def block_chunks_def)
next
  case (snoc c cs)
  then obtain b where b: "foldM Push NewBlockAssembler cs = Ok b" "Push b c = Ok a" by (auto simp: foldM_append outcome_simps)
  note IH = snoc.IH [OF b(1)]
  show ?case
  proof (cases "is_block_chunk c")
    case True
    have ch: "block_chunks i (cs @ [c]) = block_chunks i cs @ (if scIndex c = i then [c] else [])" for i
      using True by (auto simp: block_chunks_def)
    have "asPartials b (scIndex c) = None \<longleftrightarrow> scIndex c \<notin> set (first_seen cs)" using IH lone_None_iff by simp
    then show ?thesis using Push_block [OF b(2) True] IH True by (auto simp: first_seen_snoc ch)
  next
    case False
    have "block_chunks i (cs @ [c]) = block_chunks i cs" for i using False by (simp add: block_chunks_def)
    then show ?thesis using Push_other [OF b(2) False] IH False by (simp add: first_seen_snoc)
  qed
qed

lemma Blocks_eq:
  "Blocks a = andThen (mapM (assembleAt a) (asOrder a)) (\<lambda>all.
    Ok (if frKind (Finish a) = FinishMaxTokens then filter (\<lambda>b. cbType b \<noteq> BlockToolCall) all else all))"
  unfolding Blocks_def assembled_def
  by (cases "mapM (assembleAt a) (asOrder a)") (auto simp: Let_def split: option.splits)

text \<open>C36: The assembler is block-wise: whatever the interleaving, the blocks are those each index yields from its
  own chunks alone, in the order in which the stream first names the indices; max-token truncation drops
  exactly the tool calls.\<close>

theorem assembler_blockwise:
  assumes "foldM Push NewBlockAssembler cs = Ok a"
  shows "Blocks a = andThen (mapM (\<lambda>i. lone_block i cs) (first_seen cs)) (\<lambda>all.
    Ok (if frKind (Finish a) = FinishMaxTokens then filter (\<lambda>b. cbType b \<noteq> BlockToolCall) all else all))"
proof -
  have "assembleAt a = (\<lambda>i. lone_block i cs)"
    using assembler_state [OF assms] by (simp add: fun_eq_iff assembleAt_def lone_block_def)
  then have m: "mapM (assembleAt a) (asOrder a) = mapM (\<lambda>i. lone_block i cs) (first_seen cs)"
    using assembler_state [OF assms] by simp
  show ?thesis unfolding Blocks_eq m by (rule refl)
qed

definition shown :: "content_block \<Rightarrow> bool" where
  "shown b \<longleftrightarrow> cbType b \<in> {BlockText, BlockReasoning} \<and> TrimSpace (cbText b) \<noteq> []"

lemma assemble_shown:
  assumes "(case pbBlock p of Some b \<Rightarrow> cbType b | None \<Rightarrow> pbBlockType p) \<in> {BlockText, BlockReasoning}"
  shows "\<exists>b. assemble p i = Ok b \<and> cbType b \<in> {BlockText, BlockReasoning}"
  using assms by (auto simp: assemble_def split: option.splits)

lemma assemble_hidden:
  assumes "(case pbBlock p of Some b \<Rightarrow> cbType b | None \<Rightarrow> pbBlockType p) \<notin> {BlockText, BlockReasoning}" and "assemble p i = Ok b"
  shows "\<not> shown b"
  using assms by (auto simp: assemble_def shown_def BlockText_def BlockReasoning_def BlockToolCall_def split: option.splits if_splits)

lemma interruptedLoop_ok:
  assumes "\<forall>i \<in> set is. asPartials a i \<noteq> None"
  shows "\<exists>bs. interruptedLoop a is = Ok bs \<and> list_all shown bs \<and> (\<forall>all. mapM (assembleAt a) is = Ok all \<longrightarrow> bs = filter shown all)"
  using assms
proof (induction "is")
  case Nil
  then show ?case by simp
next
  case (Cons i "is")
  then obtain bs where bs: "interruptedLoop a is = Ok bs" "list_all shown bs"
      "\<forall>all. mapM (assembleAt a) is = Ok all \<longrightarrow> bs = filter shown all" by auto
  obtain p where p: "asPartials a i = Some p" using Cons.prems by auto
  have at: "assembleAt a i = assemble p i" using p by (simp add: assembleAt_def)
  let ?ty = "case pbBlock p of Some b \<Rightarrow> cbType b | None \<Rightarrow> pbBlockType p"
  show ?case
  proof (cases "?ty \<in> {BlockText, BlockReasoning}")
    case True
    then obtain b where b: "assemble p i = Ok b" "cbType b \<in> {BlockText, BlockReasoning}" using assemble_shown by metis
    then show ?thesis using True p b bs at by (auto simp: outcome_simps shown_def [of b] Let_def)
  next
    case False
    then show ?thesis using p bs at assemble_hidden [OF False] by (auto simp: outcome_simps Let_def)
  qed
qed

text \<open>An interrupted stream is finalized safely: assembling the interrupted prefix never panics, keeps only
  text and reasoning with visible content, and these are exactly the visible blocks full assembly would emit.\<close>

theorem interrupted_blocks_safe:
  assumes "foldM Push NewBlockAssembler cs = Ok a"
  shows "\<exists>bs. InterruptedBlocks a = Ok bs \<and> (\<forall>b \<in> set bs. cbType b \<in> {BlockText, BlockReasoning} \<and> TrimSpace (cbText b) \<noteq> [])
    \<and> (\<forall>all. Blocks a = Ok all \<longrightarrow>
         bs = filter (\<lambda>b. cbType b \<in> {BlockText, BlockReasoning} \<and> TrimSpace (cbText b) \<noteq> []) all)"
proof -
  have "\<forall>i \<in> set (asOrder a). asPartials a i \<noteq> None" using assembler_state [OF assms] lone_None_iff by simp
  from interruptedLoop_ok [OF this] obtain bs where bs: "InterruptedBlocks a = Ok bs" "list_all shown bs"
    "\<forall>all. mapM (assembleAt a) (asOrder a) = Ok all \<longrightarrow> bs = filter shown all" by (auto simp: InterruptedBlocks_def)
  have sh: "filter shown (filter (\<lambda>b. cbType b \<noteq> BlockToolCall) all) = filter shown all" for all
    by (auto simp: shown_def BlockText_def BlockReasoning_def BlockToolCall_def filter_filter intro: filter_cong)
  have all: "\<forall>all. Blocks a = Ok all \<longrightarrow> bs = filter shown all"
    using bs(3) sh by (auto simp: Blocks_eq outcome_simps)
  have sd: "shown = (\<lambda>b. cbType b \<in> {BlockText, BlockReasoning} \<and> TrimSpace (cbText b) \<noteq> [])"
    by (simp add: shown_def fun_eq_iff)
  show ?thesis by (rule exI [of _ bs], intro conjI bs(1) all [unfolded sd] bs(2) [unfolded sd list_all_iff])
qed

text \<open>Replay metadata stays aligned: when assembly returns per-block replay entries there is one for every
  emitted block, also after truncation dropped tool calls.\<close>

theorem replay_entries_aligned:
  assumes "assembled a = Ok (blocks, Some envelope)" and "rpBlocks envelope = Some entries"
  shows "length entries = length blocks"
proof -
  have zip_len: "length xs = length ys \<Longrightarrow> length (filter (\<lambda>(x, _). P x) (zip xs ys)) = length (filter P xs)" for P and xs :: "content_block list" and ys :: "raw list"
    by (induction xs ys rule: list_induct2) auto
  obtain all where all: "mapM (assembleAt a) (asOrder a) = Ok all" using assms(1) by (auto simp: assembled_def outcome_simps)
  obtain e es where e: "asReplayState a = Some e" "rpBlocks e = Some es"
    using assms by (cases "asReplayState a"; cases "rpBlocks (the (asReplayState a))") (auto simp: assembled_def all Let_def)
  have same: "e = envelope \<Longrightarrow> entries = es" using assms(2) e(2) by simp
  show ?thesis
    using assms zip_len [of all es] same by (auto simp: assembled_def all e Let_def split: if_splits)
qed

definition demo_stream :: "stream_chunk list" where
  "demo_stream =
     [zero_chunk\<lparr>scType := ChunkTextDelta, scIndex := 0, scText := ''a''\<rparr>,
      zero_chunk\<lparr>scType := ChunkToolCallDelta, scIndex := 1, scID := ''c'', scName := ''n'', scArgumentsDelta := ''x''\<rparr>,
      zero_chunk\<lparr>scType := ChunkTextDelta, scIndex := 0, scText := ''b''\<rparr>,
      zero_chunk\<lparr>scType := ChunkFinish, scReason := Some \<lparr>frKind = FinishMaxTokens, frFailure = None\<rparr>,
        scReplayState := Some \<lparr>rpResponse = None, rpBlocks = Some [None, Some JNull]\<rparr>\<rparr>]"

definition demo_assembly :: assembler where
  "demo_assembly = (case foldM Push NewBlockAssembler demo_stream of Ok a \<Rightarrow> a | _ \<Rightarrow> NewBlockAssembler)"

lemma demo_assembly_ok: "foldM Push NewBlockAssembler demo_stream = Ok demo_assembly"
proof -
  have "is_Ok (foldM Push NewBlockAssembler demo_stream)" by code_simp
  then show ?thesis by (auto simp: demo_assembly_def is_Ok_iff)
qed

theorem assembler_blockwise_witness:
  "Blocks demo_assembly = Ok [ContentBlock BlockText ''ab'' JNull [] [] [] [] None False]"
proof -
  have "andThen (mapM (\<lambda>i. lone_block i demo_stream) (first_seen demo_stream)) (\<lambda>all.
    Ok (if frKind (Finish demo_assembly) = FinishMaxTokens then filter (\<lambda>b. cbType b \<noteq> BlockToolCall) all else all))
    = Ok [ContentBlock BlockText ''ab'' JNull [] [] [] [] None False]" by code_simp
  then show ?thesis using assembler_blockwise [OF demo_assembly_ok] by simp
qed

theorem interrupted_blocks_safe_witness:
  "\<exists>bs. InterruptedBlocks demo_assembly = Ok bs \<and> (\<forall>b \<in> set bs. TrimSpace (cbText b) \<noteq> [])"
  using interrupted_blocks_safe [OF demo_assembly_ok] by blast

theorem replay_entries_aligned_witness:
  "\<exists>blocks envelope. assembled demo_assembly = Ok (blocks, Some envelope) \<and> rpBlocks envelope = Some [None]
     \<and> length [None :: raw] = length blocks"
proof -
  have a: "assembled demo_assembly = Ok ([ContentBlock BlockText ''ab'' JNull [] [] [] [] None False],
      Some \<lparr>rpResponse = None, rpBlocks = Some [None]\<rparr>)" by code_simp
  show ?thesis using a replay_entries_aligned [OF a, of "[None]"] by auto
qed

text \<open>Message identities are not UUIDs: \<open>formatUUID\<close> writes a separator before bytes 12 and 14 as well, so that
  every identity has 38 characters in seven groups where the canonical form has 36 in five.\<close>

theorem message_id_not_uuid:
  assumes "length random = 16"
  shows "length (NewMessageID random) = 38 \<and> NewMessageID random ! 28 = CHR ''-'' \<and> NewMessageID random ! 33 = CHR ''-''"
proof -
  obtain b0 b1 b2 b3 b4 b5 b6 b7 b8 b9 b10 b11 b12 b13 b14 b15 where
    "random = [b0, b1, b2, b3, b4, b5, b6, b7, b8, b9, b10, b11, b12, b13, b14, b15]"
    using assms by (auto simp: numeral_eq_Suc length_Suc_conv)
  then show ?thesis by (simp add: NewMessageID_def formatUUID_def)
qed

theorem message_id_not_uuid_witness: "length (NewMessageID (replicate 16 0)) \<noteq> 36"
  using message_id_not_uuid [of "replicate 16 0"] by simp

end
