(* ===== verification/Assistant_Stream.thy ===== *)
theory Assistant_Stream
  imports Llm_Assembler
begin

text \<open>
  The lossless compact form of a model-stream attempt (\<open>llm/assistant-stream.go\<close>): the accumulator that
  folds consecutive deltas into runs, the snapshot and its wire form, the strict parser and the expansion.
  The gaps between times are 64-bit differences that may wrap.
\<close>

section \<open>Compact stream: records\<close>

record timed_chunk =
  tmTime :: int
  tmChunk :: stream_chunk

definition RecordTextChunks :: string where "RecordTextChunks = ''text-chunks''"
definition RecordReasoningChunks :: string where "RecordReasoningChunks = ''reasoning-chunks''"
definition RecordToolCallChunks :: string where "RecordToolCallChunks = ''tool-call-chunks''"
definition RecordRawChunk :: string where "RecordRawChunk = ''chunk''"

lemmas record_type_defs =
  RecordTextChunks_def RecordReasoningChunks_def RecordToolCallChunks_def RecordRawChunk_def

record text_run =
  trType :: string
  trTime0 :: int
  trIndex :: int
  trDt :: "int list option"
  trTexts :: "string list option"

record tool_call_run =
  crType :: string
  crTime0 :: int
  crIndex :: int
  crDt :: "int list option"
  crID :: string
  crName :: string
  crArgs :: "string list option"

record raw_chunk =
  rcType :: string
  rcTime :: int
  rcChunk :: raw

datatype stream_record = TextRunRecord text_run | ToolCallRunRecord tool_call_run | RawChunkRecord raw_chunk

section \<open>Accumulator\<close>

record mutable_record =
  mrKind :: string
  mrTime0 :: int
  mrIndex :: int
  mrDt :: "int list"
  mrTexts :: "string list"
  mrID :: string
  mrName :: string
  mrHasName :: bool
  mrArgs :: "string list"
  mrLastTime :: int
  mrRawChunk :: raw
  mrRawTime :: int

definition zero_mutable :: mutable_record where
  "zero_mutable = \<lparr>mrKind = [], mrTime0 = 0, mrIndex = 0, mrDt = [], mrTexts = [], mrID = [], mrName = [],
     mrHasName = False, mrArgs = [], mrLastTime = 0, mrRawChunk = None, mrRawTime = 0\<rparr>"

definition pushRawRecord :: "mutable_record list \<Rightarrow> int \<Rightarrow> raw \<Rightarrow> mutable_record list" where
  "pushRawRecord records time chunkJSON =
     records @ [zero_mutable\<lparr>mrKind := RecordRawChunk, mrRawTime := time, mrRawChunk := chunkJSON\<rparr>]"

definition pushText :: "mutable_record list \<Rightarrow> int \<Rightarrow> string \<Rightarrow> stream_chunk \<Rightarrow> mutable_record list" where
  "pushText records time runType snapshot =
     (if records \<noteq> [] \<and> mrKind (last records) = runType \<and> mrIndex (last records) = scIndex snapshot
      then let previous = last records in
        butlast records @ [previous\<lparr>mrDt := mrDt previous @ [i64 (time - mrLastTime previous)],
                                    mrTexts := mrTexts previous @ [scText snapshot], mrLastTime := time\<rparr>]
      else records @ [zero_mutable\<lparr>mrKind := runType, mrTime0 := time, mrIndex := scIndex snapshot,
                                   mrTexts := [scText snapshot], mrLastTime := time\<rparr>])"

definition pushCall :: "mutable_record list \<Rightarrow> int \<Rightarrow> stream_chunk \<Rightarrow> mutable_record list" where
  "pushCall records time snapshot =
     (let namePresent = scName snapshot \<noteq> [] in
      if records \<noteq> [] \<and> mrKind (last records) = RecordToolCallChunks \<and> mrIndex (last records) = scIndex snapshot
         \<and> mrID (last records) = scID snapshot \<and> mrHasName (last records) = namePresent
         \<and> mrName (last records) = scName snapshot
      then let previous = last records in
        butlast records @ [previous\<lparr>mrDt := mrDt previous @ [i64 (time - mrLastTime previous)],
                                    mrArgs := mrArgs previous @ [scArgumentsDelta snapshot], mrLastTime := time\<rparr>]
      else records @ [zero_mutable\<lparr>mrKind := RecordToolCallChunks, mrTime0 := time, mrIndex := scIndex snapshot,
                                   mrID := scID snapshot, mrHasName := namePresent, mrName := scName snapshot,
                                   mrArgs := [scArgumentsDelta snapshot], mrLastTime := time\<rparr>])"

definition PushRaw ::
    "mutable_record list \<Rightarrow> int \<Rightarrow> raw \<Rightarrow> (stream_error, mutable_record list \<times> timed_chunk) outcome" where
  "PushRaw records time chunkJSON =
     (case unmarshal_ok dec_chunk zero_chunk chunkJSON of
        None \<Rightarrow> Err ChunkNotSerializable
      | Some snapshot \<Rightarrow>
          let timed = \<lparr>tmTime = time, tmChunk = snapshot\<rparr> in
          if scType snapshot = ChunkTextDelta \<or> scType snapshot = ChunkReasoningDelta then
            (if scIndex snapshot < 0 then Err (NegativeIndex (scType snapshot))
             else Ok (pushText records time
                        (if scType snapshot = ChunkReasoningDelta then RecordReasoningChunks else RecordTextChunks)
                        snapshot, timed))
          else if scType snapshot = ChunkToolCallDelta then
            (if scIndex snapshot < 0 then Err (NegativeIndex (scType snapshot))
             else if scID snapshot = [] then Ok (pushRawRecord records time chunkJSON, timed)
             else Ok (pushCall records time snapshot, timed))
          else Ok (pushRawRecord records time chunkJSON, timed))"

definition PushTimed ::
    "mutable_record list \<Rightarrow> timed_chunk \<Rightarrow> (stream_error, mutable_record list \<times> timed_chunk) outcome" where
  "PushTimed records value' = PushRaw records (tmTime value') (Some (MarshalChunk (tmChunk value')))"

definition snapshotRecord :: "mutable_record \<Rightarrow> stream_record" where
  "snapshotRecord record' =
     (if mrKind record' = RecordTextChunks \<or> mrKind record' = RecordReasoningChunks then
        TextRunRecord \<lparr>trType = mrKind record', trTime0 = mrTime0 record', trIndex = mrIndex record',
          trDt = Some (mrDt record'), trTexts = Some (mrTexts record')\<rparr>
      else if mrKind record' = RecordToolCallChunks then
        ToolCallRunRecord \<lparr>crType = mrKind record', crTime0 = mrTime0 record', crIndex = mrIndex record',
          crDt = Some (mrDt record'), crID = mrID record',
          crName = (if mrHasName record' then mrName record' else []), crArgs = Some (mrArgs record')\<rparr>
      else RawChunkRecord \<lparr>rcType = RecordRawChunk, rcTime = mrRawTime record', rcChunk = mrRawChunk record'\<rparr>)"

definition Snapshot :: "mutable_record list \<Rightarrow> stream_record list" where
  "Snapshot records = map snapshotRecord records"

section \<open>Wire form and validation\<close>

definition enc_strings :: "string list option \<Rightarrow> json" where
  "enc_strings = enc_slice JStr"

definition enc_ints :: "int list option \<Rightarrow> json" where
  "enc_ints = enc_slice JInt"

fun enc_record :: "stream_record \<Rightarrow> json" where
  "enc_record (TextRunRecord r) = JObj (mem ''type'' (JStr (trType r)) @ mem ''time0'' (JInt (trTime0 r))
     @ mem ''index'' (JInt (trIndex r)) @ mem ''dt'' (enc_ints (trDt r)) @ mem ''texts'' (enc_strings (trTexts r)))"
| "enc_record (ToolCallRunRecord r) = JObj (mem ''type'' (JStr (crType r)) @ mem ''time0'' (JInt (crTime0 r))
     @ mem ''index'' (JInt (crIndex r)) @ mem ''dt'' (enc_ints (crDt r)) @ mem ''id'' (JStr (crID r))
     @ mem_str ''name'' (crName r) @ mem ''args'' (enc_strings (crArgs r)))"
| "enc_record (RawChunkRecord r) = JObj (mem ''type'' (JStr (rcType r)) @ mem ''time'' (JInt (rcTime r))
     @ mem ''chunk'' (enc_raw (rcChunk r)))"

definition dec_text_run :: "text_run decoder" where
  "dec_text_run = dec_struct
     [(''type'', fld trType trType_update dec_string), (''time0'', fld trTime0 trTime0_update dec_int64),
      (''index'', fld trIndex trIndex_update dec_int64),
      (''dt'', fld trDt trDt_update (dec_slice 0 dec_int64)),
      (''texts'', fld trTexts trTexts_update (dec_slice [] dec_string))]"

definition dec_call_run :: "tool_call_run decoder" where
  "dec_call_run = dec_struct
     [(''type'', fld crType crType_update dec_string), (''time0'', fld crTime0 crTime0_update dec_int64),
      (''index'', fld crIndex crIndex_update dec_int64),
      (''dt'', fld crDt crDt_update (dec_slice 0 dec_int64)),
      (''id'', fld crID crID_update dec_string), (''name'', fld crName crName_update dec_string),
      (''args'', fld crArgs crArgs_update (dec_slice [] dec_string))]"

definition dec_raw_chunk :: "raw_chunk decoder" where
  "dec_raw_chunk = dec_struct
     [(''type'', fld rcType rcType_update dec_string), (''time'', fld rcTime rcTime_update dec_int64),
      (''chunk'', fld rcChunk rcChunk_update dec_raw)]"

definition sliceLen :: "'a list option \<Rightarrow> int" where
  "sliceLen xs = (case xs of None \<Rightarrow> 0 | Some ys \<Rightarrow> int (length ys))"

definition exactRecordKeys :: "(string \<times> json) list \<Rightarrow> string list \<Rightarrow> bool" where
  "exactRecordKeys got want =
     (length (obj_keys got) = length want \<and> (\<forall>k \<in> set want. k \<in> fst ` set got))"

fun runTimesSafe :: "int \<Rightarrow> int list \<Rightarrow> bool" where
  "runTimesSafe time [] = True"
| "runTimesSafe time (gap # dt) =
     (let time' = i64 (time + gap)
      in - 4611686018427387904 \<le> time' \<and> time' \<le> 4611686018427387904 \<and> runTimesSafe time' dt)"

definition validateAssistantStreamRun ::
    "int \<Rightarrow> int \<Rightarrow> int list option \<Rightarrow> int \<Rightarrow> string \<Rightarrow> (stream_error, unit) outcome" where
  "validateAssistantStreamRun time0 index dt members label =
     (if index < 0 then Err (BadRunIndex label)
      else if sliceLen dt \<noteq> members - 1 then Err (BadRunLength label)
      else if \<not> runTimesSafe time0 (case dt of None \<Rightarrow> [] | Some ds \<Rightarrow> ds) then Err (UnsafeRunTime label)
      else Ok ())"

record type_envelope =
  enType :: string

definition recordType :: "json \<Rightarrow> string" where
  "recordType j = enType (fst (unmarshal (dec_struct [(''type'', fld enType enType_update dec_string)]) \<lparr>enType = []\<rparr> (Some j)))"

definition parseTextRun :: "json \<Rightarrow> (stream_error, stream_record) outcome" where
  "parseTextRun j =
     (case unmarshal_ok dec_text_run \<lparr>trType = [], trTime0 = 0, trIndex = 0, trDt = None, trTexts = None\<rparr> (Some j) of
        None \<Rightarrow> Err (RecordShape (recordType j))
      | Some run \<Rightarrow>
          andThen (guard_err (sliceLen (trTexts run) = 0) (EmptyMembers (trType run))) (\<lambda>_.
          andThen (validateAssistantStreamRun (trTime0 run) (trIndex run) (trDt run) (sliceLen (trTexts run)) (trType run))
            (\<lambda>_. Ok (TextRunRecord run))))"

definition parseCallRun :: "json \<Rightarrow> bool \<Rightarrow> (stream_error, stream_record) outcome" where
  "parseCallRun j hasName =
     (case unmarshal_ok dec_call_run \<lparr>crType = [], crTime0 = 0, crIndex = 0, crDt = None, crID = [], crName = [], crArgs = None\<rparr> (Some j) of
        None \<Rightarrow> Err (RecordShape (recordType j))
      | Some run \<Rightarrow>
          andThen (guard_err (sliceLen (crArgs run) = 0) (EmptyMembers RecordToolCallChunks)) (\<lambda>_.
          andThen (guard_err (crID run = []) EmptyCallID) (\<lambda>_.
          andThen (guard_err (hasName \<and> crName run = []) EmptyCallName) (\<lambda>_.
          andThen (validateAssistantStreamRun (crTime0 run) (crIndex run) (crDt run) (sliceLen (crArgs run)) (crType run))
            (\<lambda>_. Ok (ToolCallRunRecord run))))))"

definition parseRawChunk :: "json \<Rightarrow> (stream_error, stream_record) outcome" where
  "parseRawChunk j =
     (case unmarshal_ok dec_raw_chunk \<lparr>rcType = [], rcTime = 0, rcChunk = None\<rparr> (Some j) of
        None \<Rightarrow> Err (RecordShape RecordRawChunk)
      | Some raw \<Rightarrow> (case rcChunk raw of Some (JObj _) \<Rightarrow> Ok (RawChunkRecord raw) | _ \<Rightarrow> Err RawNotObject))"

definition parseAssistantStreamRecord :: "json \<Rightarrow> (stream_error, stream_record) outcome" where
  "parseAssistantStreamRecord j =
     (case j of
        JObj keys \<Rightarrow>
          let ty = recordType j in
          if ty = RecordTextChunks \<or> ty = RecordReasoningChunks then
            andThen (guard_err (\<not> exactRecordKeys keys [''type'', ''time0'', ''index'', ''dt'', ''texts'']) (RecordKeys ty))
              (\<lambda>_. parseTextRun j)
          else if ty = RecordToolCallChunks then
            (let hasName = (''name'' \<in> fst ` set keys) in
             andThen (guard_err (\<not> exactRecordKeys keys
                 ([''type'', ''time0'', ''index'', ''dt'', ''id'', ''args''] @ (if hasName then [''name''] else []))) (RecordKeys ty))
              (\<lambda>_. parseCallRun j hasName))
          else if ty = RecordRawChunk then
            andThen (guard_err (\<not> exactRecordKeys keys [''type'', ''time'', ''chunk'']) (RecordKeys RecordRawChunk))
              (\<lambda>_. parseRawChunk j)
          else Err (UnsupportedRecord ty)
      | _ \<Rightarrow> Err RecordNotObject)"

definition ParseAssistantStream :: "raw \<Rightarrow> (stream_error, stream_record list) outcome" where
  "ParseAssistantStream value' =
     (case value' of
        None \<Rightarrow> Err RecordNotObject
      | Some JNull \<Rightarrow> Ok []
      | Some (JArr members) \<Rightarrow> mapM parseAssistantStreamRecord members
      | Some _ \<Rightarrow> Err StreamNotArray)"

section \<open>Expansion\<close>

fun laterTimes :: "int \<Rightarrow> int list \<Rightarrow> 'a list \<Rightarrow> (stream_error, (int \<times> 'a) list) outcome" where
  "laterTimes time dt [] = Ok []"
| "laterTimes time [] (x # xs) = Panic"
| "laterTimes time (gap # dt) (x # xs) =
     (let time' = i64 (time + gap) in andThen (laterTimes time' dt xs) (\<lambda>r. Ok ((time', x) # r)))"

fun runTimes :: "int \<Rightarrow> int list \<Rightarrow> 'a list \<Rightarrow> (stream_error, (int \<times> 'a) list) outcome" where
  "runTimes time0 dt [] = Ok []"
| "runTimes time0 dt (x # xs) = andThen (laterTimes time0 dt xs) (\<lambda>r. Ok ((time0, x) # r))"

definition sliceList :: "'a list option \<Rightarrow> 'a list" where
  "sliceList xs = (case xs of None \<Rightarrow> [] | Some ys \<Rightarrow> ys)"

fun expandRecord :: "stream_record \<Rightarrow> (stream_error, timed_chunk list) outcome" where
  "expandRecord (RawChunkRecord record') =
     (case unmarshal_ok dec_chunk zero_chunk (rcChunk record') of
        None \<Rightarrow> Err RawChunkShape
      | Some chunk \<Rightarrow> Ok [\<lparr>tmTime = rcTime record', tmChunk = chunk\<rparr>])"
| "expandRecord (TextRunRecord record') =
     andThen (runTimes (trTime0 record') (sliceList (trDt record')) (sliceList (trTexts record'))) (\<lambda>members.
       Ok (map (\<lambda>(time, text). \<lparr>tmTime = time, tmChunk = zero_chunk\<lparr>
              scType := (if trType record' = RecordReasoningChunks then ChunkReasoningDelta else ChunkTextDelta),
              scIndex := trIndex record', scText := text\<rparr>\<rparr>) members))"
| "expandRecord (ToolCallRunRecord record') =
     andThen (runTimes (crTime0 record') (sliceList (crDt record')) (sliceList (crArgs record'))) (\<lambda>members.
       Ok (map (\<lambda>(time, args). \<lparr>tmTime = time, tmChunk = zero_chunk\<lparr>
              scType := ChunkToolCallDelta, scIndex := crIndex record', scID := crID record',
              scName := crName record', scArgumentsDelta := args\<rparr>\<rparr>) members))"

definition ExpandAssistantStream :: "stream_record list \<Rightarrow> (stream_error, timed_chunk list) outcome" where
  "ExpandAssistantStream stream = andThen (mapM expandRecord stream) (\<lambda>parts. Ok (concat parts))"

section \<open>Compact streams lose nothing\<close>

lemma laterTimes_snoc:
  "laterTimes t dt xs = Ok r \<Longrightarrow> length dt = length xs \<Longrightarrow>
     laterTimes t (dt @ [d]) (xs @ [x]) = Ok (r @ [(i64 ((if r = [] then t else fst (last r)) + d), x)])"
  by (induction t dt xs arbitrary: r rule: laterTimes.induct) (auto simp: outcome_simps Let_def)

lemma runTimes_snoc:
  assumes "runTimes t dt xs = Ok r" and "xs \<noteq> []" and "length dt + 1 = length xs"
  shows "r \<noteq> [] \<and> runTimes t (dt @ [d]) (xs @ [x]) = Ok (r @ [(i64 (fst (last r) + d), x)])"
proof (cases xs)
  case (Cons y ys)
  obtain q where q: "laterTimes t dt ys = Ok q" "r = (t, y) # q" using assms(1) Cons by (auto simp: outcome_simps)
  show ?thesis using laterTimes_snoc [OF q(1), of d x] q(2) assms(3) Cons by simp
qed (use assms in simp)

lemma laterTimes_safe:
  assumes "laterTimes t dt xs = Ok r" and "length dt = length xs"
    and "\<forall>(u, _) \<in> set r. \<bar>u\<bar> \<le> 4611686018427387904"
  shows "runTimesSafe t dt"
  using assms by (induction t dt xs arbitrary: r rule: laterTimes.induct) (auto simp: outcome_simps Let_def)

lemma runTimes_safe:
  assumes "runTimes t dt xs = Ok r" and "length dt + 1 = length xs"
    and "\<forall>(u, _) \<in> set r. \<bar>u\<bar> \<le> 4611686018427387904"
  shows "runTimesSafe t dt"
  using assms laterTimes_safe by (cases xs) (fastforce simp: outcome_simps)+

text \<open>What a snapshot of an encoded delta holds.\<close>

lemma find_field_hit [simp]: "find_field ((k, d) # fs) k = Some d"
  by (simp add: find_field_def)

lemma text_delta_snapshot:
  assumes "scType c = ChunkTextDelta \<or> scType c = ChunkReasoningDelta"
  shows "unmarshal dec_chunk zero_chunk (Some (MarshalChunk c)) =
     (zero_chunk\<lparr>scType := scType c, scIndex := (if in_i64 (scIndex c) then scIndex c else 0), scText := scText c\<rparr>, in_i64 (scIndex c))"
proof -
  have "MarshalChunk c = JObj [(''type'', JStr (scType c)), (''index'', JInt (scIndex c)), (''text'', JStr (scText c))]"
    using assms by (auto simp: MarshalChunk_def mem_def chunk_type_defs)
  then show ?thesis
    by (simp add: dec_defs dec_chunk_def chunk_fields_def find_field_def zero_chunk_def Let_def)
qed

lemma call_delta_snapshot:
  assumes "scType c = ChunkToolCallDelta"
  shows "unmarshal dec_chunk zero_chunk (Some (MarshalChunk c)) =
     (zero_chunk\<lparr>scType := ChunkToolCallDelta, scIndex := (if in_i64 (scIndex c) then scIndex c else 0), scID := scID c,
        scName := scName c, scArgumentsDelta := scArgumentsDelta c\<rparr>, in_i64 (scIndex c))"
proof -
  have "MarshalChunk c = JObj ([(''type'', JStr ChunkToolCallDelta), (''index'', JInt (scIndex c)), (''id'', JStr (scID c))]
      @ mem_str ''name'' (scName c) @ [(''argumentsDelta'', JStr (scArgumentsDelta c))])"
    using assms by (simp add: MarshalChunk_def mem_def chunk_type_defs)
  then show ?thesis
    by (simp add: dec_defs dec_chunk_def chunk_fields_def find_field_def zero_chunk_def Let_def mem_str_def)
qed

text \<open>A delta is published with its own members and no others.\<close>

definition plain_delta :: "stream_chunk \<Rightarrow> bool" where
  "plain_delta c \<longleftrightarrow> (scType c \<in> {ChunkTextDelta, ChunkReasoningDelta} \<longrightarrow>
        c = zero_chunk\<lparr>scType := scType c, scIndex := scIndex c, scText := scText c\<rparr>)
     \<and> (scType c = ChunkToolCallDelta \<longrightarrow>
        c = zero_chunk\<lparr>scType := ChunkToolCallDelta, scIndex := scIndex c, scID := scID c, scName := scName c,
                        scArgumentsDelta := scArgumentsDelta c\<rparr>)
     \<and> in_i64 (scIndex c)"

text \<open>One record with the timed chunks it stands for.\<close>

definition record_ok :: "mutable_record \<Rightarrow> timed_chunk list \<Rightarrow> bool" where
  "record_ok r ts \<longleftrightarrow> expandRecord (snapshotRecord r) = Ok ts \<and> in_i64 (mrIndex r) \<and> 0 \<le> mrIndex r
     \<and> in_i64 (mrTime0 r) \<and> (\<forall>d \<in> set (mrDt r). in_i64 d)
     \<and> (mrKind r \<in> {RecordTextChunks, RecordReasoningChunks} \<longrightarrow>
          mrTexts r \<noteq> [] \<and> length (mrDt r) + 1 = length (mrTexts r) \<and> ts \<noteq> [] \<and> mrLastTime r = tmTime (last ts))
     \<and> (mrKind r = RecordToolCallChunks \<longrightarrow>
          mrArgs r \<noteq> [] \<and> length (mrDt r) + 1 = length (mrArgs r) \<and> ts \<noteq> [] \<and> mrLastTime r = tmTime (last ts)
          \<and> mrID r \<noteq> [] \<and> mrHasName r = (mrName r \<noteq> []))
     \<and> (mrKind r \<notin> {RecordTextChunks, RecordReasoningChunks, RecordToolCallChunks} \<longrightarrow>
          mrKind r = RecordRawChunk \<and> in_i64 (mrRawTime r) \<and> (\<exists>kvs. mrRawChunk r = Some (JObj kvs)) \<and> mrIndex r = 0)"

lemma record_kinds [simp]:
  "RecordTextChunks \<noteq> RecordReasoningChunks" "RecordReasoningChunks \<noteq> RecordTextChunks"
  "RecordTextChunks \<noteq> RecordToolCallChunks" "RecordToolCallChunks \<noteq> RecordTextChunks"
  "RecordReasoningChunks \<noteq> RecordToolCallChunks" "RecordToolCallChunks \<noteq> RecordReasoningChunks"
  "RecordRawChunk \<noteq> RecordTextChunks" "RecordRawChunk \<noteq> RecordReasoningChunks" "RecordRawChunk \<noteq> RecordToolCallChunks"
  by (simp_all add: record_type_defs)

lemma record_ok_text:
  assumes "rt \<in> {RecordTextChunks, RecordReasoningChunks}" and "in_i64 t" and "in_i64 ix" and "0 \<le> ix"
  shows "record_ok (zero_mutable\<lparr>mrKind := rt, mrTime0 := t, mrIndex := ix, mrTexts := [s], mrLastTime := t\<rparr>)
     [\<lparr>tmTime = t, tmChunk = zero_chunk\<lparr>scType := (if rt = RecordReasoningChunks then ChunkReasoningDelta else ChunkTextDelta),
        scIndex := ix, scText := s\<rparr>\<rparr>]"
  using assms by (auto simp: record_ok_def zero_mutable_def snapshotRecord_def sliceList_def)

lemma record_ok_call:
  assumes "in_i64 t" and "in_i64 ix" and "0 \<le> ix" and "i \<noteq> []"
  shows "record_ok (zero_mutable\<lparr>mrKind := RecordToolCallChunks, mrTime0 := t, mrIndex := ix, mrID := i,
        mrHasName := n \<noteq> [], mrName := n, mrArgs := [s], mrLastTime := t\<rparr>)
     [\<lparr>tmTime = t, tmChunk = zero_chunk\<lparr>scType := ChunkToolCallDelta, scIndex := ix, scID := i, scName := n,
        scArgumentsDelta := s\<rparr>\<rparr>]"
  using assms by (auto simp: record_ok_def zero_mutable_def snapshotRecord_def sliceList_def)

lemma record_ok_raw:
  assumes "in_i64 t" and "unmarshal_ok dec_chunk zero_chunk (Some (JObj kvs)) = Some c"
  shows "record_ok (zero_mutable\<lparr>mrKind := RecordRawChunk, mrRawTime := t, mrRawChunk := Some (JObj kvs)\<rparr>)
     [\<lparr>tmTime = t, tmChunk = c\<rparr>]"
  using assms by (auto simp: record_ok_def zero_mutable_def snapshotRecord_def)

lemma record_ok_text_more:
  assumes r: "record_ok r ts" and k: "mrKind r \<in> {RecordTextChunks, RecordReasoningChunks}" and t: "in_i64 t"
  shows "record_ok (r\<lparr>mrDt := mrDt r @ [i64 (t - mrLastTime r)], mrTexts := mrTexts r @ [s], mrLastTime := t\<rparr>)
     (ts @ [\<lparr>tmTime = t, tmChunk = zero_chunk\<lparr>scType := (if mrKind r = RecordReasoningChunks then ChunkReasoningDelta else ChunkTextDelta),
        scIndex := mrIndex r, scText := s\<rparr>\<rparr>])"
proof -
  obtain q where q: "runTimes (mrTime0 r) (mrDt r) (mrTexts r) = Ok q"
    and ts: "ts = map (\<lambda>(time, text). \<lparr>tmTime = time, tmChunk = zero_chunk\<lparr>
              scType := (if mrKind r = RecordReasoningChunks then ChunkReasoningDelta else ChunkTextDelta),
              scIndex := mrIndex r, scText := text\<rparr>\<rparr>) q"
    using r k by (auto simp: record_ok_def snapshotRecord_def outcome_simps sliceList_def)
  have l: "mrTexts r \<noteq> []" "length (mrDt r) + 1 = length (mrTexts r)" "mrLastTime r = tmTime (last ts)"
    using r k by (auto simp: record_ok_def)
  note sn = runTimes_snoc [OF q l(1,2), of "i64 (t - mrLastTime r)" s]
  have "tmTime (last ts) = fst (last q)" using sn by (cases q rule: rev_cases) (auto simp: ts split_beta)
  then have "i64 (fst (last q) + i64 (t - mrLastTime r)) = t" using i64_add_diff [OF t, of "fst (last q)"] l(3) by simp
  then have "expandRecord (snapshotRecord (r\<lparr>mrDt := mrDt r @ [i64 (t - mrLastTime r)], mrTexts := mrTexts r @ [s], mrLastTime := t\<rparr>))
     = Ok (ts @ [\<lparr>tmTime = t, tmChunk = zero_chunk\<lparr>scType := (if mrKind r = RecordReasoningChunks then ChunkReasoningDelta else ChunkTextDelta),
        scIndex := mrIndex r, scText := s\<rparr>\<rparr>])"
    using k sn by (auto simp: snapshotRecord_def sliceList_def ts)
  then show ?thesis using r k l by (auto simp: record_ok_def)
qed

lemma record_ok_call_more:
  assumes r: "record_ok r ts" and k: "mrKind r = RecordToolCallChunks" and t: "in_i64 t"
  shows "record_ok (r\<lparr>mrDt := mrDt r @ [i64 (t - mrLastTime r)], mrArgs := mrArgs r @ [s], mrLastTime := t\<rparr>)
     (ts @ [\<lparr>tmTime = t, tmChunk = zero_chunk\<lparr>scType := ChunkToolCallDelta, scIndex := mrIndex r, scID := mrID r,
        scName := mrName r, scArgumentsDelta := s\<rparr>\<rparr>])"
proof -
  have nm: "(if mrHasName r then mrName r else []) = mrName r" using r k by (auto simp: record_ok_def)
  obtain q where q: "runTimes (mrTime0 r) (mrDt r) (mrArgs r) = Ok q"
    and ts: "ts = map (\<lambda>(time, args). \<lparr>tmTime = time, tmChunk = zero_chunk\<lparr>
              scType := ChunkToolCallDelta, scIndex := mrIndex r, scID := mrID r,
              scName := mrName r, scArgumentsDelta := args\<rparr>\<rparr>) q"
    using r k nm by (auto simp: record_ok_def snapshotRecord_def outcome_simps sliceList_def)
  have l: "mrArgs r \<noteq> []" "length (mrDt r) + 1 = length (mrArgs r)" "mrLastTime r = tmTime (last ts)"
    using r k by (auto simp: record_ok_def)
  note sn = runTimes_snoc [OF q l(1,2), of "i64 (t - mrLastTime r)" s]
  have "tmTime (last ts) = fst (last q)" using sn by (cases q rule: rev_cases) (auto simp: ts split_beta)
  then have "i64 (fst (last q) + i64 (t - mrLastTime r)) = t" using i64_add_diff [OF t, of "fst (last q)"] l(3) by simp
  then have "expandRecord (snapshotRecord (r\<lparr>mrDt := mrDt r @ [i64 (t - mrLastTime r)], mrArgs := mrArgs r @ [s], mrLastTime := t\<rparr>))
     = Ok (ts @ [\<lparr>tmTime = t, tmChunk = zero_chunk\<lparr>scType := ChunkToolCallDelta, scIndex := mrIndex r, scID := mrID r,
        scName := mrName r, scArgumentsDelta := s\<rparr>\<rparr>])"
    using k sn nm by (auto simp: snapshotRecord_def sliceList_def ts)
  then show ?thesis using r k l by (auto simp: record_ok_def)
qed

text \<open>Pushing a whole attempt: the records it compacts to and the chunks it publishes.\<close>

fun pushAll :: "mutable_record list \<Rightarrow> timed_chunk list \<Rightarrow> (stream_error, mutable_record list \<times> timed_chunk list) outcome" where
  "pushAll records [] = Ok (records, [])"
| "pushAll records (c # cs) =
     andThen (PushTimed records c) (\<lambda>(records', timed).
       andThen (pushAll records' cs) (\<lambda>(records'', rest). Ok (records'', timed # rest)))"

lemma pushText_ok:
  assumes "list_all2 record_ok rs parts" and "rt \<in> {RecordTextChunks, RecordReasoningChunks}" and "in_i64 t"
    and "in_i64 (scIndex c)" and "0 \<le> scIndex c"
    and "c = zero_chunk\<lparr>scType := (if rt = RecordReasoningChunks then ChunkReasoningDelta else ChunkTextDelta),
        scIndex := scIndex c, scText := scText c\<rparr>"
  shows "\<exists>parts'. list_all2 record_ok (pushText rs t rt c) parts' \<and> concat parts' = concat parts @ [\<lparr>tmTime = t, tmChunk = c\<rparr>]"
proof (cases "rs \<noteq> [] \<and> mrKind (last rs) = rt \<and> mrIndex (last rs) = scIndex c")
  case True
  then obtain us u vs v where l: "rs = us @ [u]" "parts = vs @ [v]" "list_all2 record_ok us vs" "record_ok u v"
    using list_all2_last [OF assms(1)] by metis
  have "record_ok (u\<lparr>mrDt := mrDt u @ [i64 (t - mrLastTime u)], mrTexts := mrTexts u @ [scText c], mrLastTime := t\<rparr>)
     (v @ [\<lparr>tmTime = t, tmChunk = c\<rparr>])"
    using record_ok_text_more [OF l(4), of t "scText c"] True assms(2,3,6) l(1) by auto
  then have "list_all2 record_ok (pushText rs t rt c) (vs @ [v @ [\<lparr>tmTime = t, tmChunk = c\<rparr>]])"
    using True l by (simp add: pushText_def Let_def list_all2_snoc)
  then show ?thesis using l by (intro exI [of _ "vs @ [v @ [\<lparr>tmTime = t, tmChunk = c\<rparr>]]"]) simp
next
  case False
  have "list_all2 record_ok (pushText rs t rt c) (parts @ [[\<lparr>tmTime = t, tmChunk = c\<rparr>]])"
    using False record_ok_text [OF assms(2,3,4,5), of "scText c"] assms(1,6)
    by (auto simp: pushText_def intro: list_all2_snoc)
  then show ?thesis by (intro exI [of _ "parts @ [[\<lparr>tmTime = t, tmChunk = c\<rparr>]]"]) simp
qed

lemma pushCall_ok:
  assumes "list_all2 record_ok rs parts" and "in_i64 t" and "in_i64 (scIndex c)" and "0 \<le> scIndex c" and "scID c \<noteq> []"
    and "c = zero_chunk\<lparr>scType := ChunkToolCallDelta, scIndex := scIndex c, scID := scID c, scName := scName c,
        scArgumentsDelta := scArgumentsDelta c\<rparr>"
  shows "\<exists>parts'. list_all2 record_ok (pushCall rs t c) parts' \<and> concat parts' = concat parts @ [\<lparr>tmTime = t, tmChunk = c\<rparr>]"
proof (cases "rs \<noteq> [] \<and> mrKind (last rs) = RecordToolCallChunks \<and> mrIndex (last rs) = scIndex c
         \<and> mrID (last rs) = scID c \<and> mrHasName (last rs) = (scName c \<noteq> []) \<and> mrName (last rs) = scName c")
  case True
  then obtain us u vs v where l: "rs = us @ [u]" "parts = vs @ [v]" "list_all2 record_ok us vs" "record_ok u v"
    using list_all2_last [OF assms(1)] by metis
  have "record_ok (u\<lparr>mrDt := mrDt u @ [i64 (t - mrLastTime u)], mrArgs := mrArgs u @ [scArgumentsDelta c], mrLastTime := t\<rparr>)
     (v @ [\<lparr>tmTime = t, tmChunk = c\<rparr>])"
    using record_ok_call_more [OF l(4), of t "scArgumentsDelta c"] True assms(2,6) l(1) by auto
  then have "list_all2 record_ok (pushCall rs t c) (vs @ [v @ [\<lparr>tmTime = t, tmChunk = c\<rparr>]])"
    using True l by (simp add: pushCall_def Let_def list_all2_snoc)
  then show ?thesis using l by (intro exI [of _ "vs @ [v @ [\<lparr>tmTime = t, tmChunk = c\<rparr>]]"]) simp
next
  case False
  have new: "pushCall rs t c = rs @ [zero_mutable\<lparr>mrKind := RecordToolCallChunks, mrTime0 := t, mrIndex := scIndex c, mrID := scID c,
        mrHasName := scName c \<noteq> [], mrName := scName c, mrArgs := [scArgumentsDelta c], mrLastTime := t\<rparr>]"
    using False by (auto simp: pushCall_def Let_def)
  have "list_all2 record_ok (pushCall rs t c) (parts @ [[\<lparr>tmTime = t, tmChunk = c\<rparr>]])"
    unfolding new using record_ok_call [OF assms(2-5), where n = "scName c" and s = "scArgumentsDelta c"] assms(1,6)
    by (intro list_all2_snoc) auto
  then show ?thesis by (intro exI [of _ "parts @ [[\<lparr>tmTime = t, tmChunk = c\<rparr>]]"]) simp
qed

lemma MarshalChunk_object: "\<exists>kvs. MarshalChunk c = JObj kvs"
  by (simp add: MarshalChunk_def)

lemma pushRawRecord_ok:
  assumes "list_all2 record_ok rs parts" and "in_i64 t" and "unmarshal_ok dec_chunk zero_chunk (Some (MarshalChunk d)) = Some c"
  shows "\<exists>parts'. list_all2 record_ok (pushRawRecord rs t (Some (MarshalChunk d))) parts'
     \<and> concat parts' = concat parts @ [\<lparr>tmTime = t, tmChunk = c\<rparr>]"
proof -
  obtain kvs where k: "MarshalChunk d = JObj kvs" using MarshalChunk_object by blast
  have "list_all2 record_ok (pushRawRecord rs t (Some (MarshalChunk d))) (parts @ [[\<lparr>tmTime = t, tmChunk = c\<rparr>]])"
    unfolding pushRawRecord_def using record_ok_raw [OF assms(2), of kvs c] assms(1,3) k by (intro list_all2_snoc) auto
  then show ?thesis by (intro exI [of _ "parts @ [[\<lparr>tmTime = t, tmChunk = c\<rparr>]]"]) simp
qed

lemma member_keys [simp]:
  "fst ` set (mem k j) \<subseteq> A \<longleftrightarrow> k \<in> A" "fst ` set (mem_str k s) \<subseteq> A \<longleftrightarrow> s = [] \<or> k \<in> A"
  "fst ` set (mem_int k n) \<subseteq> A \<longleftrightarrow> n = 0 \<or> k \<in> A" "fst ` set (mem_opt k x) \<subseteq> A \<longleftrightarrow> x = None \<or> k \<in> A"
  by (auto simp: mem_defs) (cases x; auto)+

lemma chunk_other_keys:
  assumes "find_field chunk_fields k = Some d"
    and "k \<in> {''index'', ''blockType'', ''text'', ''id'', ''name'', ''argumentsDelta'', ''block'', ''usage'', ''reason'', ''replayState''}"
  shows "scType (fst (d v x)) = scType v"
  using assms by (auto simp: chunk_fields_def find_field_def fld_def split: prod.splits)

lemma snapshot_type:
  assumes "unmarshal_ok dec_chunk zero_chunk (Some (MarshalChunk d)) = Some c"
  shows "scType c = scType d"
proof -
  let ?K = "{''index'', ''blockType'', ''text'', ''id'', ''name'', ''argumentsDelta'', ''block'', ''usage'', ''reason'', ''replayState''}"
  have "\<exists>kvs. MarshalChunk d = JObj ((''type'', JStr (scType d)) # kvs) \<and> fst ` set kvs \<subseteq> ?K"
    unfolding MarshalChunk_def mem_def [of "''type''"] append_Cons append_Nil
    by (simp add: image_Un)
  then obtain kvs where m: "MarshalChunk d = JObj ((''type'', JStr (scType d)) # kvs)" and k: "fst ` set kvs \<subseteq> ?K" by blast
  have t: "find_field chunk_fields ''type'' = Some (fld scType scType_update dec_string)" by (simp add: chunk_fields_def)
  have "scType (fst (dec_members chunk_fields v kvs)) = scType v" for v
  proof (rule dec_members_other, clarify)
    fix n x e v assume "(n, x) \<in> set kvs" and e: "find_field chunk_fields n = Some e"
    then have "n \<in> fst ` set kvs" by force
    then have "n \<in> ?K" using k by (rule rev_subsetD)
    then show "scType (fst (e v x)) = scType v" by (rule chunk_other_keys [OF e])
  qed
  then have "scType (fst (unmarshal dec_chunk zero_chunk (Some (MarshalChunk d)))) = scType d"
    using t by (simp add: m unmarshal_def dec_chunk_def dec_struct_def fld_def dec_string_def Let_def split_beta)
  then show ?thesis using assms by (auto simp: unmarshal_ok_def split_beta Let_def split: if_splits)
qed

lemma PushTimed_ok:
  assumes "list_all2 record_ok rs parts" and "in_i64 (tmTime d)" and "PushTimed rs d = Ok (rs', timed)"
  shows "\<exists>parts'. list_all2 record_ok rs' parts' \<and> concat parts' = concat parts @ [timed] \<and> tmTime timed = tmTime d
     \<and> (plain_delta (tmChunk d) \<and> scType (tmChunk d) \<in> {ChunkTextDelta, ChunkReasoningDelta, ChunkToolCallDelta}
          \<longrightarrow> timed = d)"
proof -
  let ?d = "tmChunk d"
  obtain c where c: "unmarshal_ok dec_chunk zero_chunk (Some (MarshalChunk ?d)) = Some c" and timed: "timed = \<lparr>tmTime = tmTime d, tmChunk = c\<rparr>"
    using assms(3) by (auto simp: PushTimed_def PushRaw_def Let_def split: option.splits if_splits)
  have ty: "scType c = scType ?d" by (rule snapshot_type [OF c])
  have d: "d = \<lparr>tmTime = tmTime d, tmChunk = ?d\<rparr>" by (cases d) simp
  consider (run) "scType ?d = ChunkTextDelta \<or> scType ?d = ChunkReasoningDelta" | (call) "scType ?d = ChunkToolCallDelta"
    | (other) "scType ?d \<notin> {ChunkTextDelta, ChunkReasoningDelta, ChunkToolCallDelta}" by blast
  then show ?thesis
  proof cases
    case run
    have ix: "in_i64 (scIndex ?d)" "c = zero_chunk\<lparr>scType := scType ?d, scIndex := scIndex ?d, scText := scText ?d\<rparr>"
      using text_delta_snapshot [OF run] c by (auto simp: unmarshal_ok_def split: if_splits)
    let ?rt = "if scType c = ChunkReasoningDelta then RecordReasoningChunks else RecordTextChunks"
    have rs': "rs' = pushText rs (tmTime d) ?rt c" "0 \<le> scIndex c"
      using assms(3) c run ty by (auto simp: PushTimed_def PushRaw_def Let_def split: if_splits)
    have "c = zero_chunk\<lparr>scType := (if ?rt = RecordReasoningChunks then ChunkReasoningDelta else ChunkTextDelta),
        scIndex := scIndex c, scText := scText c\<rparr>" using ix run by (auto simp: chunk_type_defs)
    then show ?thesis
      using pushText_ok [OF assms(1) _ assms(2), of ?rt c] rs' ix timed d run by (auto simp: plain_delta_def)
  next
    case call
    have ix: "in_i64 (scIndex ?d)" "c = zero_chunk\<lparr>scType := ChunkToolCallDelta, scIndex := scIndex ?d, scID := scID ?d,
        scName := scName ?d, scArgumentsDelta := scArgumentsDelta ?d\<rparr>"
      using call_delta_snapshot [OF call] c by (auto simp: unmarshal_ok_def split: if_splits)
    have same: "plain_delta ?d \<Longrightarrow> timed = d" using ix timed d call by (auto simp: plain_delta_def)
    show ?thesis
    proof (cases "scID c = []")
      case True
      then have "rs' = pushRawRecord rs (tmTime d) (Some (MarshalChunk ?d))"
        using assms(3) c call ty by (auto simp: PushTimed_def PushRaw_def Let_def chunk_type_defs split: if_splits)
      then show ?thesis using pushRawRecord_ok [OF assms(1,2) c] timed same by auto
    next
      case False
      then have "rs' = pushCall rs (tmTime d) c" "0 \<le> scIndex c"
        using assms(3) c call ty by (auto simp: PushTimed_def PushRaw_def Let_def chunk_type_defs split: if_splits)
      then show ?thesis using pushCall_ok [OF assms(1,2) _ _ False] ix timed same by auto
    qed
  next
    case other
    then have "rs' = pushRawRecord rs (tmTime d) (Some (MarshalChunk ?d))"
      using assms(3) c ty by (auto simp: PushTimed_def PushRaw_def Let_def split: if_splits)
    then show ?thesis using pushRawRecord_ok [OF assms(1,2) c] timed other by auto
  qed
qed

lemma pushAll_ok:
  assumes "list_all2 record_ok rs parts" and "\<forall>c \<in> set cs. in_i64 (tmTime c)" and "pushAll rs cs = Ok (rs', published)"
  shows "\<exists>parts'. list_all2 record_ok rs' parts' \<and> concat parts' = concat parts @ published
     \<and> map tmTime published = map tmTime cs
     \<and> (\<forall>i < length cs. plain_delta (tmChunk (cs ! i)) \<and> scType (tmChunk (cs ! i)) \<in> {ChunkTextDelta, ChunkReasoningDelta, ChunkToolCallDelta}
          \<longrightarrow> published ! i = cs ! i)"
  using assms
proof (induction cs arbitrary: rs parts published)
  case Nil
  then show ?case by auto
next
  case (Cons c cs)
  from Cons.prems(3) obtain rs1 t rest where p: "PushTimed rs c = Ok (rs1, t)" "pushAll rs1 cs = Ok (rs', rest)" "published = t # rest"
    by (auto simp: outcome_simps)
  obtain parts1 where 1: "list_all2 record_ok rs1 parts1" "concat parts1 = concat parts @ [t]" "tmTime t = tmTime c"
    "plain_delta (tmChunk c) \<and> scType (tmChunk c) \<in> {ChunkTextDelta, ChunkReasoningDelta, ChunkToolCallDelta} \<longrightarrow> t = c"
    using PushTimed_ok [OF Cons.prems(1) _ p(1)] Cons.prems(2) by auto
  obtain parts2 where 2: "list_all2 record_ok rs' parts2" "concat parts2 = concat parts1 @ rest" "map tmTime rest = map tmTime cs"
    "\<forall>i < length cs. plain_delta (tmChunk (cs ! i)) \<and> scType (tmChunk (cs ! i)) \<in> {ChunkTextDelta, ChunkReasoningDelta, ChunkToolCallDelta}
          \<longrightarrow> rest ! i = cs ! i"
    using Cons.IH [OF 1(1) _ p(2)] Cons.prems(2) by auto
  have "\<forall>i < length (c # cs). plain_delta (tmChunk ((c # cs) ! i)) \<and> scType (tmChunk ((c # cs) ! i)) \<in> {ChunkTextDelta, ChunkReasoningDelta, ChunkToolCallDelta}
          \<longrightarrow> published ! i = (c # cs) ! i"
    using 1(4) 2(4) by (auto simp: p(3) nth_Cons split: nat.splits)
  then show ?case using 1(2,3) 2(1-3) by (intro exI [of _ parts2]) (simp add: p(3))
qed

lemma dec_ints: "(\<forall>d \<in> set ds. in_i64 d) \<Longrightarrow> dec_slice 0 dec_int64 v (JArr (map JInt ds)) = (Some ds, True)"
  by (induction ds) (auto simp: dec_slice_def dec_int64_def)

lemma dec_strings: "dec_slice [] dec_string v (JArr (map JStr ss)) = (Some ss, True)"
  by (induction ss) (auto simp: dec_slice_def dec_string_def)

lemma parse_text_record:
  assumes "rt \<in> {RecordTextChunks, RecordReasoningChunks}" and "in_i64 t" and "in_i64 ix" and "0 \<le> ix"
    and "\<forall>d \<in> set dt. in_i64 d" and "length dt + 1 = length texts" and "runTimesSafe t dt"
  shows "parseAssistantStreamRecord (enc_record (TextRunRecord \<lparr>trType = rt, trTime0 = t, trIndex = ix, trDt = Some dt, trTexts = Some texts\<rparr>))
    = Ok (TextRunRecord \<lparr>trType = rt, trTime0 = t, trIndex = ix, trDt = Some dt, trTexts = Some texts\<rparr>)"
proof -
  let ?run = "\<lparr>trType = rt, trTime0 = t, trIndex = ix, trDt = Some dt, trTexts = Some texts\<rparr>"
  let ?kvs = "[(''type'', JStr rt), (''time0'', JInt t), (''index'', JInt ix), (''dt'', JArr (map JInt dt)), (''texts'', JArr (map JStr texts))]"
  have e: "enc_record (TextRunRecord ?run) = JObj ?kvs" by (simp add: mem_def enc_ints_def enc_strings_def enc_slice_def)
  have ty: "recordType (JObj ?kvs) = rt"
    by (simp add: recordType_def unmarshal_def dec_struct_def find_field_def fld_def dec_string_def Let_def upper_bits)
  have ks: "exactRecordKeys ?kvs [''type'', ''time0'', ''index'', ''dt'', ''texts'']"
    by (simp add: exactRecordKeys_def obj_keys_def)
  have d: "unmarshal_ok dec_text_run \<lparr>trType = [], trTime0 = 0, trIndex = 0, trDt = None, trTexts = None\<rparr> (Some (JObj ?kvs)) = Some ?run"
    using assms(2,3) dec_ints [OF assms(5)] dec_strings
    by (simp add: unmarshal_ok_def unmarshal_def dec_text_run_def dec_struct_def find_field_def fld_def dec_string_def dec_int64_def Let_def)
  have "parseTextRun (JObj ?kvs) = Ok (TextRunRecord ?run)"
    using d assms(4,6,7) by (auto simp: parseTextRun_def sliceLen_def guard_err_def validateAssistantStreamRun_def)
  then show ?thesis using e ty ks assms(1) by (auto simp: parseAssistantStreamRecord_def guard_err_def Let_def)
qed

lemma parse_call_record:
  assumes "in_i64 t" and "in_i64 ix" and "0 \<le> ix" and "\<forall>d \<in> set dt. in_i64 d" and "length dt + 1 = length args"
    and "runTimesSafe t dt" and "i \<noteq> []"
  shows "parseAssistantStreamRecord (enc_record (ToolCallRunRecord
      \<lparr>crType = RecordToolCallChunks, crTime0 = t, crIndex = ix, crDt = Some dt, crID = i, crName = n, crArgs = Some args\<rparr>))
    = Ok (ToolCallRunRecord
      \<lparr>crType = RecordToolCallChunks, crTime0 = t, crIndex = ix, crDt = Some dt, crID = i, crName = n, crArgs = Some args\<rparr>)"
proof -
  let ?run = "\<lparr>crType = RecordToolCallChunks, crTime0 = t, crIndex = ix, crDt = Some dt, crID = i, crName = n, crArgs = Some args\<rparr>"
  let ?kvs = "[(''type'', JStr RecordToolCallChunks), (''time0'', JInt t), (''index'', JInt ix), (''dt'', JArr (map JInt dt)), (''id'', JStr i)]
      @ mem_str ''name'' n @ [(''args'', JArr (map JStr args))]"
  have e: "enc_record (ToolCallRunRecord ?run) = JObj ?kvs" by (simp add: mem_def enc_ints_def enc_strings_def enc_slice_def)
  have ty: "recordType (JObj ?kvs) = RecordToolCallChunks"
    by (simp add: recordType_def unmarshal_def dec_struct_def find_field_def fld_def dec_string_def Let_def upper_bits mem_str_def)
  have nm: "''name'' \<in> fst ` set ?kvs \<longleftrightarrow> n \<noteq> []" by (auto simp: mem_str_def)
  have ks: "exactRecordKeys ?kvs ([''type'', ''time0'', ''index'', ''dt'', ''id'', ''args''] @ (if n \<noteq> [] then [''name''] else []))"
    by (simp add: exactRecordKeys_def obj_keys_def mem_str_def)
  have d: "unmarshal_ok dec_call_run \<lparr>crType = [], crTime0 = 0, crIndex = 0, crDt = None, crID = [], crName = [], crArgs = None\<rparr> (Some (JObj ?kvs)) = Some ?run"
    using assms(1,2) dec_ints [OF assms(4)] dec_strings
    by (simp add: unmarshal_ok_def unmarshal_def dec_call_run_def dec_struct_def find_field_def fld_def dec_string_def dec_int64_def Let_def mem_str_def)
  have "parseCallRun (JObj ?kvs) (n \<noteq> []) = Ok (ToolCallRunRecord ?run)"
    using d assms(3,5-7) by (auto simp: parseCallRun_def sliceLen_def guard_err_def validateAssistantStreamRun_def)
  then show ?thesis unfolding e using ty ks nm by (simp add: parseAssistantStreamRecord_def guard_err_def Let_def)
qed

lemma parse_raw_record:
  assumes "in_i64 t"
  shows "parseAssistantStreamRecord (enc_record (RawChunkRecord \<lparr>rcType = RecordRawChunk, rcTime = t, rcChunk = Some (JObj kvs)\<rparr>))
    = Ok (RawChunkRecord \<lparr>rcType = RecordRawChunk, rcTime = t, rcChunk = Some (JObj kvs)\<rparr>)"
proof -
  let ?kvs = "[(''type'', JStr RecordRawChunk), (''time'', JInt t), (''chunk'', JObj kvs)]"
  have ty: "recordType (JObj ?kvs) = RecordRawChunk"
    by (simp add: recordType_def unmarshal_def dec_struct_def find_field_def fld_def dec_string_def Let_def upper_bits)
  have ks: "exactRecordKeys ?kvs [''type'', ''time'', ''chunk'']" by (simp add: exactRecordKeys_def obj_keys_def)
  have "parseRawChunk (JObj ?kvs) = Ok (RawChunkRecord \<lparr>rcType = RecordRawChunk, rcTime = t, rcChunk = Some (JObj kvs)\<rparr>)"
    using assms by (simp add: parseRawChunk_def unmarshal_ok_def unmarshal_def dec_raw_chunk_def dec_struct_def find_field_def
        fld_def dec_string_def dec_int64_def dec_raw_def Let_def)
  then show ?thesis using ty ks by (simp add: parseAssistantStreamRecord_def guard_err_def Let_def mem_def enc_raw_def)
qed

lemma record_parses:
  assumes "record_ok r ts" and "\<forall>c \<in> set ts. \<bar>tmTime c\<bar> \<le> 4611686018427387904"
  shows "parseAssistantStreamRecord (enc_record (snapshotRecord r)) = Ok (snapshotRecord r)"
proof -
  note r = assms(1) [unfolded record_ok_def]
  consider (run) "mrKind r \<in> {RecordTextChunks, RecordReasoningChunks}" | (call) "mrKind r = RecordToolCallChunks"
    | (other) "mrKind r \<notin> {RecordTextChunks, RecordReasoningChunks, RecordToolCallChunks}" by blast
  then show ?thesis
  proof cases
    case run
    obtain q where q: "runTimes (mrTime0 r) (mrDt r) (mrTexts r) = Ok q" "map fst q = map tmTime ts"
      using r run by (auto simp: snapshotRecord_def outcome_simps sliceList_def comp_def split_beta)
    have "fst ` set q = tmTime ` set ts" using arg_cong [OF q(2), of set] by simp
    then have "\<forall>(u, _) \<in> set q. \<bar>u\<bar> \<le> 4611686018427387904" using assms(2) by (force simp: image_iff)
    then have "runTimesSafe (mrTime0 r) (mrDt r)" using runTimes_safe [OF q(1)] r run by auto
    then show ?thesis using parse_text_record [OF run] r run by (auto simp: snapshotRecord_def simp del: enc_record.simps)
  next
    case call
    obtain q where q: "runTimes (mrTime0 r) (mrDt r) (mrArgs r) = Ok q" "map fst q = map tmTime ts"
      using r call by (auto simp: snapshotRecord_def outcome_simps sliceList_def comp_def split_beta)
    have "fst ` set q = tmTime ` set ts" using arg_cong [OF q(2), of set] by simp
    then have "\<forall>(u, _) \<in> set q. \<bar>u\<bar> \<le> 4611686018427387904" using assms(2) by (force simp: image_iff)
    then have "runTimesSafe (mrTime0 r) (mrDt r)" using runTimes_safe [OF q(1)] r call by auto
    then show ?thesis using parse_call_record r call by (auto simp: snapshotRecord_def simp del: enc_record.simps)
  next
    case other
    then show ?thesis using parse_raw_record r by (auto simp: snapshotRecord_def simp del: enc_record.simps)
  qed
qed

text \<open>C37: Compacting an attempt loses nothing: expanding the snapshot of everything that was pushed gives
  back exactly the chunks that were published, each at its own time although only wrapped differences of
  times are kept; a delta that sets only its own members is published as it came; and, when the times are
  within the validated range, the records survive the durable form unchanged.\<close>

theorem compact_stream_roundtrip:
  assumes "pushAll [] cs = Ok (records, published)" and "\<forall>c \<in> set cs. in_i64 (tmTime c)"
  shows "ExpandAssistantStream (Snapshot records) = Ok published \<and> map tmTime published = map tmTime cs
    \<and> (\<forall>i < length cs. plain_delta (tmChunk (cs ! i)) \<and> scType (tmChunk (cs ! i)) \<in> {ChunkTextDelta, ChunkReasoningDelta, ChunkToolCallDelta}
          \<longrightarrow> published ! i = cs ! i)
    \<and> ((\<forall>c \<in> set cs. \<bar>tmTime c\<bar> \<le> 4611686018427387904) \<longrightarrow>
        ParseAssistantStream (Some (JArr (map enc_record (Snapshot records)))) = Ok (Snapshot records))"
proof -
  obtain parts where p: "list_all2 record_ok records parts" "concat parts = published" "map tmTime published = map tmTime cs"
    "\<forall>i < length cs. plain_delta (tmChunk (cs ! i)) \<and> scType (tmChunk (cs ! i)) \<in> {ChunkTextDelta, ChunkReasoningDelta, ChunkToolCallDelta}
          \<longrightarrow> published ! i = cs ! i"
    using pushAll_ok [of "[]" "[]", OF _ assms(2,1)] by auto
  have "list_all2 (\<lambda>r ts. expandRecord (snapshotRecord r) = Ok ts) records parts"
    using p(1) by (rule list_all2_mono) (simp add: record_ok_def)
  then have ex: "ExpandAssistantStream (Snapshot records) = Ok published"
    using p(2) by (simp add: ExpandAssistantStream_def Snapshot_def mapM_map mapM_list_all2)
  have "ParseAssistantStream (Some (JArr (map enc_record (Snapshot records)))) = Ok (Snapshot records)"
    if b: "\<forall>c \<in> set cs. \<bar>tmTime c\<bar> \<le> 4611686018427387904"
  proof -
    have "tmTime ` set published = tmTime ` set cs" using arg_cong [OF p(3), of set] by simp
    then have pb: "\<forall>c \<in> set published. \<bar>tmTime c\<bar> \<le> 4611686018427387904" using b by (force simp: image_iff)
    have "parseAssistantStreamRecord (enc_record x) = Ok x" if x: "x \<in> set (Snapshot records)" for x
    proof -
      obtain k where k: "k < length records" "x = snapshotRecord (records ! k)" using x by (auto simp: Snapshot_def in_set_conv_nth)
      have "record_ok (records ! k) (parts ! k)" using p(1) k by (simp add: list_all2_nthD)
      moreover have "parts ! k \<in> set parts" using p(1) k by (simp add: list_all2_lengthD [symmetric])
      then have "set (parts ! k) \<subseteq> set published" using p(2) by auto
      ultimately show ?thesis using record_parses pb k(2) by blast
    qed
    then show ?thesis by (simp add: ParseAssistantStream_def mapM_id)
  qed
  with ex p(3,4) show ?thesis by blast
qed

definition demo_timed :: "timed_chunk list" where
  "demo_timed = [\<lparr>tmTime = 5, tmChunk = demo_stream ! 0\<rparr>, \<lparr>tmTime = 3, tmChunk = demo_stream ! 2\<rparr>]"

theorem compact_stream_roundtrip_witness:
  "\<exists>records. length records = 1 \<and> ParseAssistantStream (Some (JArr (map enc_record (Snapshot records)))) = Ok (Snapshot records)
     \<and> ExpandAssistantStream (Snapshot records) = Ok demo_timed"
proof -
  have "(case pushAll [] demo_timed of Ok (records, published) \<Rightarrow> length records = 1 \<and> published = demo_timed | _ \<Rightarrow> False)" by code_simp
  then obtain records where p: "pushAll [] demo_timed = Ok (records, demo_timed)" "length records = 1"
    by (auto split: outcome.splits)
  from compact_stream_roundtrip [OF p(1)] p(2) show ?thesis
    by (intro exI [of _ records]) (simp add: demo_timed_def in_i64_def min_int64_def max_int64_def)
qed

end
