(* ===== verification/Event_Sourcing.thy ===== *)
theory Event_Sourcing
  imports Session_Log
begin

text \<open>
  Plugins of a session keep their state in its log: a mutation is validated against the current state,
  committed as an event of the plugin's own type, and applied.  This theory holds the interface they share:
  a step function that ignores foreign events, with the facts that make the live state and a replay of the
  log agree.
\<close>

section \<open>Log-only events\<close>

definition plain_type :: "string \<Rightarrow> bool" where
  "plain_type ty \<longleftrightarrow> ty \<notin> {EventUserMessage, EventAssistantMsg, EventToolResult, EventRequestHeader, ''request/header-delta''}"

definition plain_event :: "session \<Rightarrow> int \<Rightarrow> string \<Rightarrow> json \<Rightarrow> event" where
  "plain_event s now ty j = \<lparr>evType = ty, evSeq = int (length (sLog s)), evTime = now, evData = Some j,
      evSourceEventSeqs = None, evSurfaceOp = None, evIgnorable = False\<rparr>"

lemma plain_event_sel [simp]:
  "evType (plain_event s now ty j) = ty" "evSeq (plain_event s now ty j) = int (length (sLog s))"
  "evTime (plain_event s now ty j) = now" "evData (plain_event s now ty j) = Some j"
  by (simp_all add: plain_event_def)

text \<open>A log-only event of a plugin is always accepted: it is committed at the end of the log as it is.\<close>

lemma Append_plain:
  assumes "session_inv s" and "plain_type ty"
  shows "\<exists>s'. Append now s ty (Some j) None = (s', Ok (plain_event s now ty j)) \<and> session_inv s'
     \<and> sLog s' = sLog s @ [plain_event s now ty j] \<and> sHeader s' = sHeader s
     \<and> sInheritedEventCount s' = sInheritedEventCount s \<and> sEntry s' = sEntry s \<and> sFirstLiveSeq s' = sFirstLiveSeq s"
proof -
  define e where "e = plain_event s now ty j"
  note e_def = e_def [unfolded plain_event_def]
  have sh: "andThen (assertSupportedRequestHeader ty (Some j)) (\<lambda>_. assertMessageEventShape e) = Ok ()"
    using assms(2) by (auto simp: plain_type_def assertSupportedRequestHeader_def assertMessageEventShape_def e_def)
  obtain r where "surface_run (sLog s) = Ok r" using session_run [OF assms(1)] by blast
  moreover have "\<not> IsSurfaceEventType (evType e)"
    using assms(2) by (simp add: e_def plain_type_def IsSurfaceEventType_def SurfaceEventTypes_def)
  ultimately have run: "\<exists>r. surface_run (sLog s @ [e]) = Ok r" by (intro surface_append_ok) (auto simp: e_def)
  have man: "manager_ok (sSurface s) (sLog s)" using assms(1) by (simp add: session_inv_def)
  obtain m where v: "ValidateNext (sSurface s) (sLog s) e = (m, Ok ())"
    using ValidateNext_correct(3) [OF man] run by (metis surj_pair)
  have a: "Append now s ty (Some j) None = (s\<lparr>sSurface := m, sLog := sLog s @ [e], sEventsSnapshot := None\<rparr>, Ok e)"
    using Append_split [of e ty s now j None] sh v by (simp add: e_def)
  show ?thesis using a session_inv_commit [OF assms(1) v] by (simp add: e_def plain_event_def)
qed

section \<open>Replay\<close>

locale event_sourced =
  fixes step :: "'st \<Rightarrow> event \<Rightarrow> ('e, 'st) outcome" and owned :: "string \<Rightarrow> bool"
  assumes foreign: "\<not> owned (evType e) \<Longrightarrow> step st e = Ok st"
begin

lemma replay_foreign: "\<forall>e \<in> set es. \<not> owned (evType e) \<Longrightarrow> foldM step st es = Ok st"
  by (induction es) (auto simp: foreign)

lemma replay_grow: "\<forall>e \<in> set es. \<not> owned (evType e) \<Longrightarrow> foldM step st (evs @ es) = foldM step st evs"
  by (cases "foldM step st evs") (auto simp: foldM_append replay_foreign)

lemma replay_commit: "foldM step st evs = Ok st1 \<Longrightarrow> step st1 e = Ok st2 \<Longrightarrow> foldM step st (evs @ [e]) = Ok st2"
  by (simp add: foldM_append)

lemma replay_owned: "foldM step st evs = foldM step st (filter (\<lambda>e. owned (evType e)) evs)"
proof (induction evs arbitrary: st)
  case (Cons e evs)
  then show ?case by (cases "owned (evType e)"; cases "step st e") (auto simp: foreign)
qed simp

end

end
