(* ===== verification/Agent_Inbox.thy ===== *)
theory Agent_Inbox
  imports Event_Sourcing
begin

text \<open>
  The durable inbox of an agent (\<open>agent/inbox.go\<close>): two lists of pending messages kept as splices in the
  session log.  Every operation holds the inbox's lock, so it is one step here; the notifications it queues are
  returned to be dispatched after the lock is released.  A slice index is 64-bit arithmetic and a bad bound
  panics.
\<close>

section \<open>Splices\<close>

definition EventAgentInboxSpliced :: string where "EventAgentInboxSpliced = ''agent/inbox/spliced''"
definition InboxOutcomeCanceled :: string where "InboxOutcomeCanceled = ''canceled''"
definition InboxNextTurn :: string where "InboxNextTurn = ''next-turn''"
definition InboxNextStep :: string where "InboxNextStep = ''next-step''"

record inbox_spliced =
  isTarget :: string
  isStart :: int
  isRemovedCount :: "int option"
  isInserted :: "message list option"
  isOutcome :: string

definition zero_spliced :: inbox_spliced where
  "zero_spliced = \<lparr>isTarget = [], isStart = 0, isRemovedCount = None, isInserted = None, isOutcome = []\<rparr>"

definition dec_spliced :: "inbox_spliced decoder" where
  "dec_spliced = dec_struct
     [(''target'', fld isTarget isTarget_update dec_string),
      (''start'', fld isStart isStart_update dec_int64),
      (''removedCount'', fld isRemovedCount isRemovedCount_update (dec_ptr 0 dec_int64)),
      (''inserted'', fld isInserted isInserted_update (dec_slice zero_message dec_message)),
      (''outcome'', fld isOutcome isOutcome_update dec_string)]"

definition enc_spliced :: "inbox_spliced \<Rightarrow> json" where
  "enc_spliced d = JObj (mem ''target'' (JStr (isTarget d)) @ mem ''start'' (JInt (isStart d))
     @ mem_opt ''removedCount'' (map_option JInt (isRemovedCount d))
     @ mem ''inserted'' (enc_slice enc_message (isInserted d)) @ mem_str ''outcome'' (isOutcome d))"

datatype inbox_error =
    InvalidSplice | AlreadyPending string | SpliceShape | InboxAppendFailed session_error
  | PersistedSplice int inbox_error

definition DecodeInboxSpliced :: "event \<Rightarrow> (inbox_error, inbox_spliced) outcome" where
  "DecodeInboxSpliced event =
     (case unmarshal_ok dec_spliced zero_spliced (evData event) of None \<Rightarrow> Err SpliceShape | Some d \<Rightarrow> Ok d)"

section \<open>State\<close>

datatype inbox_notice = Inserted message | Discarded message | Claimed message int

record inbox =
  ibNextTurn :: "message list"
  ibNextStep :: "message list"
  ibPendingNotifications :: "inbox_notice list"

definition empty_inbox :: inbox where
  "empty_inbox = \<lparr>ibNextTurn = [], ibNextStep = [], ibPendingNotifications = []\<rparr>"

definition inboxList :: "inbox \<Rightarrow> string \<Rightarrow> message list" where
  "inboxList i target = (if target = InboxNextTurn then ibNextTurn i else ibNextStep i)"

definition setList :: "inbox \<Rightarrow> string \<Rightarrow> message list \<Rightarrow> inbox" where
  "setList i target list = (if target = InboxNextTurn then i\<lparr>ibNextTurn := list\<rparr> else i\<lparr>ibNextStep := list\<rparr>)"

text \<open>\<open>inbox[:start] ++ inserted ++ inbox[start+removed:]\<close> with Go's slicing: the index is 64-bit
  arithmetic, a bad bound panics.\<close>

definition splicedList :: "message list \<Rightarrow> int \<Rightarrow> int \<Rightarrow> message list \<Rightarrow> (inbox_error, message list) outcome" where
  "splicedList inbox start removed inserted =
     (let capacity = i64 (i64 (int (length inbox) - removed) + int (length inserted)); stop = i64 (start + removed) in
      if capacity < 0 then Panic
      else if start < 0 \<or> start > int (length inbox) \<or> stop < 0 \<or> stop > int (length inbox) then Panic
      else Ok (take (nat start) inbox @ inserted @ drop (nat stop) inbox))"

fun checkIds :: "string list \<Rightarrow> message list \<Rightarrow> (inbox_error, string list) outcome" where
  "checkIds ids [] = Ok ids"
| "checkIds ids (message # rest) =
     (if msgID message \<in> set ids then Err (AlreadyPending (msgID message)) else checkIds (msgID message # ids) rest)"

definition insertedOf :: "inbox_spliced \<Rightarrow> message list" where
  "insertedOf spliced = (case isInserted spliced of None \<Rightarrow> [] | Some ms \<Rightarrow> ms)"

definition removedOf :: "inbox_spliced \<Rightarrow> int" where
  "removedOf spliced = (case isRemovedCount spliced of None \<Rightarrow> 0 | Some n \<Rightarrow> n)"

definition inboxValidate :: "inbox \<Rightarrow> inbox_spliced \<Rightarrow> (inbox_error, unit) outcome" where
  "inboxValidate i spliced =
     (let removed = removedOf spliced; inbox = inboxList i (isTarget spliced) in
      if isStart spliced < 0 \<or> isStart spliced > int (length inbox) \<or> removed < 0
         \<or> i64 (isStart spliced + removed) > int (length inbox)
      then Err InvalidSplice
      else andThen (splicedList inbox (isStart spliced) removed (insertedOf spliced)) (\<lambda>candidate.
        if isTarget spliced = InboxNextTurn
        then andThen (checkIds [] candidate) (\<lambda>ids. andThen (checkIds ids (ibNextStep i)) (\<lambda>_. Ok ()))
        else andThen (checkIds [] (ibNextTurn i)) (\<lambda>ids. andThen (checkIds ids candidate) (\<lambda>_. Ok ()))))"

definition inboxApply :: "inbox \<Rightarrow> inbox_spliced \<Rightarrow> (inbox_error, inbox) outcome" where
  "inboxApply i spliced =
     andThen (inboxValidate i spliced) (\<lambda>_.
     andThen (splicedList (inboxList i (isTarget spliced)) (isStart spliced) (removedOf spliced) (insertedOf spliced)) (\<lambda>updated.
       Ok (setList i (isTarget spliced) updated)))"

definition replayStep :: "inbox \<Rightarrow> event \<Rightarrow> (inbox_error, inbox) outcome" where
  "replayStep i event =
     (if evType event \<noteq> EventAgentInboxSpliced then Ok i
      else map_err (PersistedSplice (evSeq event)) (andThen (DecodeInboxSpliced event) (inboxApply i)))"

definition NewInbox :: "session \<Rightarrow> (inbox_error, inbox) outcome" where
  "NewInbox s =
     (let events = sLog s; start = (if hIsSeeded (sHeader s) then hInheritedEventCount (sHeader s) else 0) in
      if start < 0 \<or> start > int (length events) then Panic
      else foldM replayStep empty_inbox (drop (nat start) events))"

definition HasPending :: "inbox \<Rightarrow> bool" where
  "HasPending i \<longleftrightarrow> ibNextTurn i \<noteq> [] \<or> ibNextStep i \<noteq> []"

section \<open>Mutations\<close>

definition actualStartOf :: "message list \<Rightarrow> int \<Rightarrow> int" where
  "actualStartOf inbox start =
     (if start < 0 then (let fromEnd = int (length inbox) + start in if fromEnd > 0 then fromEnd else 0)
      else if start > int (length inbox) then int (length inbox) else start)"

definition actualDeleteCountOf :: "message list \<Rightarrow> int \<Rightarrow> int \<Rightarrow> int" where
  "actualDeleteCountOf inbox actualStart deleteCount =
     (let d = (if deleteCount < 0 then 0 else deleteCount); remaining = int (length inbox) - actualStart in
      if d > remaining then remaining else d)"

definition mutateLocked ::
    "int \<Rightarrow> session \<Rightarrow> inbox \<Rightarrow> string \<Rightarrow> int \<Rightarrow> int \<Rightarrow> message list option \<Rightarrow> bool
       \<Rightarrow> (session \<times> inbox) \<times> (inbox_error, message list) outcome" where
  "mutateLocked now s i target start deleteCount inserted discardRemoved =
     (let inbox = inboxList i target;
          actualStart = actualStartOf inbox start;
          actualDeleteCount = actualDeleteCountOf inbox actualStart deleteCount in
      if actualDeleteCount = 0 \<and> (inserted = None \<or> inserted = Some []) then ((s, i), Ok [])
      else
        let spliced = \<lparr>isTarget = target, isStart = actualStart,
              isRemovedCount = (if actualDeleteCount > 0 then Some actualDeleteCount else None), isInserted = inserted,
              isOutcome = (if discardRemoved \<and> actualDeleteCount > 0 then InboxOutcomeCanceled else [])\<rparr> in
        case inboxValidate i spliced of
          Err e \<Rightarrow> ((s, i), Err e)
        | Panic \<Rightarrow> ((s, i), Panic)
        | Ok _ \<Rightarrow>
            (case Append now s EventAgentInboxSpliced (Some (enc_spliced spliced)) None of
               (s', Err e) \<Rightarrow> ((s', i), Err (InboxAppendFailed e))
             | (s', Panic) \<Rightarrow> ((s', i), Panic)
             | (s', Ok event) \<Rightarrow>
                 (case DecodeInboxSpliced event of
                    Err e \<Rightarrow> ((s', i), Err e)
                  | Panic \<Rightarrow> ((s', i), Panic)
                  | Ok stored \<Rightarrow>
                      let removed = take (nat actualDeleteCount) (drop (nat actualStart) inbox);
                          updated = take (nat actualStart) inbox @ insertedOf stored
                                      @ drop (nat (actualStart + actualDeleteCount)) inbox;
                          i' = setList i target updated
                      in ((s', i'\<lparr>ibPendingNotifications := ibPendingNotifications i'
                             @ (if discardRemoved then map Discarded removed else []) @ map Inserted (insertedOf stored)\<rparr>),
                          Ok removed))))"

text \<open>Notifications are dispatched after the lock is released: an operation returns the queue it drained.\<close>

definition drainNotificationsLocked :: "inbox \<Rightarrow> inbox \<times> inbox_notice list" where
  "drainNotificationsLocked i = (i\<lparr>ibPendingNotifications := []\<rparr>, ibPendingNotifications i)"

definition Splice ::
    "int \<Rightarrow> session \<Rightarrow> inbox \<Rightarrow> string \<Rightarrow> int \<Rightarrow> int \<Rightarrow> message list option
       \<Rightarrow> (session \<times> inbox) \<times> inbox_notice list \<times> (inbox_error, message list) outcome" where
  "Splice now s i target start deleteCount inserted =
     (case mutateLocked now s i target start deleteCount inserted True of
        ((s', i'), res) \<Rightarrow> (case drainNotificationsLocked i' of (i'', pending) \<Rightarrow> ((s', i''), pending, res)))"

definition InboxAppend ::
    "int \<Rightarrow> session \<Rightarrow> inbox \<Rightarrow> string \<Rightarrow> message
       \<Rightarrow> (session \<times> inbox) \<times> inbox_notice list \<times> (inbox_error, message list) outcome" where
  "InboxAppend now s i target message =
     Splice now s i target (int (length (inboxList i target))) 0 (Some [message])"

definition Prepend ::
    "int \<Rightarrow> session \<Rightarrow> inbox \<Rightarrow> string \<Rightarrow> message
       \<Rightarrow> (session \<times> inbox) \<times> inbox_notice list \<times> (inbox_error, message list) outcome" where
  "Prepend now s i target message = Splice now s i target 0 0 (Some [message])"

definition locateLocked :: "inbox \<Rightarrow> string \<Rightarrow> (string \<times> nat) option" where
  "locateLocked i messageID =
     (case index_of messageID (map msgID (ibNextTurn i)) of
        Some index \<Rightarrow> Some (InboxNextTurn, index)
      | None \<Rightarrow> map_option (\<lambda>index. (InboxNextStep, index)) (index_of messageID (map msgID (ibNextStep i))))"

definition replaceAt ::
    "int \<Rightarrow> session \<Rightarrow> inbox \<Rightarrow> string \<Rightarrow> message list option
       \<Rightarrow> (session \<times> inbox) \<times> inbox_notice list \<times> (inbox_error, bool) outcome" where
  "replaceAt now s i messageID inserted =
     (case locateLocked i messageID of
        None \<Rightarrow> ((s, i), [], Ok False)
      | Some (target, index) \<Rightarrow>
          (case Splice now s i target (int index) 1 inserted of
             (si, pending, res) \<Rightarrow> (si, pending, andThen res (\<lambda>_. Ok True))))"

definition Replace ::
    "int \<Rightarrow> session \<Rightarrow> inbox \<Rightarrow> string \<Rightarrow> message
       \<Rightarrow> (session \<times> inbox) \<times> inbox_notice list \<times> (inbox_error, bool) outcome" where
  "Replace now s i messageID newMessage = replaceAt now s i messageID (Some [newMessage])"

definition Remove ::
    "int \<Rightarrow> session \<Rightarrow> inbox \<Rightarrow> string \<Rightarrow> (session \<times> inbox) \<times> inbox_notice list \<times> (inbox_error, bool) outcome" where
  "Remove now s i messageID = replaceAt now s i messageID None"

definition Clear ::
    "int \<Rightarrow> session \<Rightarrow> inbox \<Rightarrow> (session \<times> inbox) \<times> inbox_notice list \<times> (inbox_error, unit) outcome" where
  "Clear now s i =
     (case mutateLocked now s i InboxNextStep 0 (int (length (ibNextStep i))) None True of
        ((s1, i1), Ok _) \<Rightarrow>
          (case mutateLocked now s1 i1 InboxNextTurn 0 (int (length (ibNextTurn i1))) None True of
             ((s2, i2), res) \<Rightarrow>
               (case drainNotificationsLocked i2 of (i3, pending) \<Rightarrow> ((s2, i3), pending, andThen res (\<lambda>_. Ok ()))))
      | (si, Err e) \<Rightarrow> (si, [], Err e)
      | (si, Panic) \<Rightarrow> (si, [], Panic))"

definition Claim ::
    "int \<Rightarrow> session \<Rightarrow> inbox \<Rightarrow> string \<Rightarrow> int
       \<Rightarrow> (session \<times> inbox) \<times> inbox_notice list \<times> (inbox_error, message list) outcome" where
  "Claim now s i target turn =
     (case mutateLocked now s i InboxNextStep 0 (int (length (ibNextStep i))) None False of
        ((s1, i1), first) \<Rightarrow>
          (case (case first of
                   Ok claimed \<Rightarrow>
                     if target = InboxNextTurn then
                       (case mutateLocked now s1 i1 InboxNextTurn 0 1 None False of
                          (si2, second) \<Rightarrow> (si2, andThen second (\<lambda>queued. Ok (claimed @ queued))))
                     else ((s1, i1), first)
                 | _ \<Rightarrow> ((s1, i1), first)) of
             ((s2, i2), res) \<Rightarrow>
               (case drainNotificationsLocked i2 of (i3, pending) \<Rightarrow>
                  ((s2, i3), pending @ (case res of Ok claimed \<Rightarrow> map (\<lambda>m. Claimed m turn) claimed | _ \<Rightarrow> []), res))))"

section \<open>Live state and replay\<close>

lemma inbox_plain [simp]: "plain_type EventAgentInboxSpliced"
  by (simp add: plain_type_def EventAgentInboxSpliced_def event_type_defs)

lemma target_distinct [simp]: "InboxNextStep \<noteq> InboxNextTurn" "InboxNextTurn \<noteq> InboxNextStep"
  by (simp_all add: InboxNextTurn_def InboxNextStep_def)

interpretation ib: event_sourced replayStep "\<lambda>ty. ty = EventAgentInboxSpliced"
  by unfold_locales (simp add: replayStep_def)

text \<open>What a message becomes on its way through the log; its identity stays.\<close>

definition stored_message :: "message \<Rightarrow> message" where
  "stored_message m = fst (dec_message zero_message (enc_message m))"

definition wire_message :: "message \<Rightarrow> bool" where
  "wire_message m = snd (dec_message zero_message (enc_message m))"

lemma stored_message_id [simp]: "msgID (stored_message m) = msgID m"
  by (simp add: stored_message_def enc_message_def dec_message_def dec_struct_def find_field_def mem_def fld_def
      dec_string_def Let_def split_beta)

lemma spliced_stored:
  assumes "in_i64 start" and "\<And>n. removed = Some n \<Longrightarrow> in_i64 n" and "\<forall>m \<in> set (case ins of None \<Rightarrow> [] | Some ms \<Rightarrow> ms). wire_message m"
  shows "unmarshal_ok dec_spliced zero_spliced (Some (enc_spliced
      \<lparr>isTarget = t, isStart = start, isRemovedCount = removed, isInserted = ins, isOutcome = out\<rparr>))
    = Some \<lparr>isTarget = t, isStart = start, isRemovedCount = removed, isInserted = map_option (map stored_message) ins, isOutcome = out\<rparr>"
proof -
  have ms: "dec_slice zero_message dec_message v (enc_slice enc_message ins) = (map_option (map stored_message) ins, True)" for v
    using assms(3) by (cases ins) (auto simp: dec_slice_def enc_slice_def stored_message_def wire_message_def list_all_iff)
  show ?thesis
    using assms(1,2) ms
    by (cases removed; cases "out = []") (auto simp: unmarshal_ok_def unmarshal_def enc_spliced_def dec_spliced_def dec_struct_def
        find_field_def mem_defs fld_def dec_string_def dec_int64_def dec_ptr_def zero_spliced_def Let_def)
qed

lemma splicedList_ok:
  assumes "0 \<le> start" and "0 \<le> removed" and "start + removed \<le> int (length xs)" and "int (length xs + length ins) \<le> max_int64"
  shows "splicedList xs start removed ins = Ok (take (nat start) xs @ ins @ drop (nat (start + removed)) xs)"
proof -
  have "in_i64 (int (length xs) - removed)" "in_i64 (int (length xs) - removed + int (length ins))" "in_i64 (start + removed)"
    using assms by (auto simp: in_i64_def min_int64_def max_int64_def)
  then show ?thesis using assms by (simp add: splicedList_def Let_def)
qed


lemma checkIds_Ok: "checkIds ids ms = Ok ids' \<longleftrightarrow>
    distinct (map msgID ms) \<and> set (map msgID ms) \<inter> set ids = {} \<and> ids' = rev (map msgID ms) @ ids"
  by (induction ids ms arbitrary: ids' rule: checkIds.induct) auto

lemma checkIds_cases: "(\<exists>ids'. checkIds ids ms = Ok ids') \<or> (\<exists>i. checkIds ids ms = Err (AlreadyPending i))"
  by (induction ids ms rule: checkIds.induct) auto

definition pending_ids :: "inbox \<Rightarrow> string list" where
  "pending_ids i = map msgID (ibNextTurn i @ ibNextStep i)"

definition fits :: "inbox \<Rightarrow> nat \<Rightarrow> bool" where
  "fits i n \<longleftrightarrow> int (length (ibNextTurn i) + length (ibNextStep i) + n) \<le> max_int64"

lemma inboxList_setList [simp]: "inboxList (setList i t xs) t = xs"
  by (simp add: inboxList_def setList_def)

lemma setList_pending [simp]:
  "ibPendingNotifications (setList i t xs) = ibPendingNotifications i"
  "setList (i\<lparr>ibPendingNotifications := p\<rparr>) t xs = (setList i t xs)\<lparr>ibPendingNotifications := p\<rparr>"
  "inboxList (i\<lparr>ibPendingNotifications := p\<rparr>) t = inboxList i t"
  "pending_ids (i\<lparr>ibPendingNotifications := p\<rparr>) = pending_ids i"
  by (simp_all add: setList_def inboxList_def pending_ids_def)

definition spliced_into :: "'a list \<Rightarrow> int \<Rightarrow> int \<Rightarrow> 'a list \<Rightarrow> 'a list" where
  "spliced_into xs start removed ins = take (nat start) xs @ ins @ drop (nat (start + removed)) xs"

lemma check_both:
  "(andThen (checkIds [] a) (\<lambda>ids. andThen (checkIds ids b) (\<lambda>_. Ok ())) = Ok () \<longleftrightarrow> distinct (map msgID (a @ b)))
   \<and> (andThen (checkIds [] a) (\<lambda>ids. andThen (checkIds ids b) (\<lambda>_. Ok ())) = Ok ()
      \<or> (\<exists>k. andThen (checkIds [] a) (\<lambda>ids. andThen (checkIds ids b) (\<lambda>_. Ok ())) = Err (AlreadyPending k)))"
proof (cases "checkIds [] a")
  case (Ok ids)
  then have ids: "distinct (map msgID a)" "set ids = msgID ` set a" by (auto simp: checkIds_Ok)
  show ?thesis
  proof (cases "checkIds ids b")
    case (Ok ids2)
    then have "distinct (map msgID (a @ b))" using ids by (auto simp: checkIds_Ok)
    then show ?thesis by (simp add: \<open>checkIds [] a = Ok ids\<close> Ok)
  next
    case (Err e)
    then have "\<not> (distinct (map msgID b) \<and> set (map msgID b) \<inter> set ids = {})" using checkIds_Ok [of ids b] by auto
    then show ?thesis using Err \<open>checkIds [] a = Ok ids\<close> ids checkIds_cases [of ids b] by auto
  next
    case Panic
    then show ?thesis using checkIds_cases [of ids b] by auto
  qed
next
  case (Err e)
  then have "\<not> distinct (map msgID a)" using checkIds_Ok [of "[]" a] by auto
  then show ?thesis using Err checkIds_cases [of "[]" a] by auto
next
  case Panic
  then show ?thesis using checkIds_cases [of "[]" a] by auto
qed

text \<open>A splice in range is valid exactly when it leaves every identity pending at most once.\<close>

lemma inboxValidate_range:
  assumes "0 \<le> isStart sp" and "0 \<le> removedOf sp" and "isStart sp + removedOf sp \<le> int (length (inboxList i (isTarget sp)))"
    and "fits i (length (insertedOf sp))"
  shows "(inboxValidate i sp = Ok () \<longleftrightarrow> distinct (pending_ids (setList i (isTarget sp)
        (spliced_into (inboxList i (isTarget sp)) (isStart sp) (removedOf sp) (insertedOf sp)))))
    \<and> (inboxValidate i sp = Ok () \<or> (\<exists>k. inboxValidate i sp = Err (AlreadyPending k)))"
proof -
  let ?xs = "inboxList i (isTarget sp)"
  let ?c = "spliced_into ?xs (isStart sp) (removedOf sp) (insertedOf sp)"
  have len: "int (length ?xs + length (insertedOf sp)) \<le> max_int64" using assms(4) by (auto simp: fits_def inboxList_def split: if_splits)
  have "in_i64 (isStart sp + removedOf sp)" using assms(1-3) len by (auto simp: in_i64_def min_int64_def max_int64_def)
  then have v: "inboxValidate i sp = (if isTarget sp = InboxNextTurn
        then andThen (checkIds [] ?c) (\<lambda>ids. andThen (checkIds ids (ibNextStep i)) (\<lambda>_. Ok ()))
        else andThen (checkIds [] (ibNextTurn i)) (\<lambda>ids. andThen (checkIds ids ?c) (\<lambda>_. Ok ())))"
    using splicedList_ok [OF assms(1,2,3) len] assms(1-3) by (simp add: inboxValidate_def spliced_into_def Let_def)
  show ?thesis
  proof (cases "isTarget sp = InboxNextTurn")
    case True
    have p: "pending_ids (setList i (isTarget sp) ?c) = map msgID (?c @ ibNextStep i)"
      using True by (simp add: pending_ids_def setList_def)
    show ?thesis unfolding p v if_P [OF True] by (rule check_both)
  next
    case False
    have p: "pending_ids (setList i (isTarget sp) ?c) = map msgID (ibNextTurn i @ ?c)"
      using False by (simp add: pending_ids_def setList_def)
    show ?thesis unfolding p v if_not_P [OF False] by (rule check_both)
  qed
qed

lemma inboxApply_range:
  assumes "0 \<le> isStart sp" and "0 \<le> removedOf sp" and "isStart sp + removedOf sp \<le> int (length (inboxList i (isTarget sp)))"
    and "fits i (length (insertedOf sp))" and "inboxValidate i sp = Ok ()"
  shows "inboxApply i sp = Ok (setList i (isTarget sp)
    (spliced_into (inboxList i (isTarget sp)) (isStart sp) (removedOf sp) (insertedOf sp)))"
proof -
  have "int (length (inboxList i (isTarget sp)) + length (insertedOf sp)) \<le> max_int64"
    using assms(4) by (auto simp: fits_def inboxList_def split: if_splits)
  then show ?thesis using splicedList_ok [OF assms(1-3)] assms(5) by (simp add: inboxApply_def spliced_into_def)
qed

definition inbox_start :: "session \<Rightarrow> int" where
  "inbox_start s = (if hIsSeeded (sHeader s) then hInheritedEventCount (sHeader s) else 0)"

definition inbox_inv :: "session \<Rightarrow> inbox \<Rightarrow> bool" where
  "inbox_inv s i \<longleftrightarrow> session_inv s \<and> 0 \<le> inbox_start s \<and> inbox_start s \<le> int (length (sLog s))
     \<and> foldM replayStep empty_inbox (drop (nat (inbox_start s)) (sLog s)) = Ok (i\<lparr>ibPendingNotifications := []\<rparr>)
     \<and> distinct (pending_ids i)"

lemma NewInbox_eq:
  "NewInbox s = (if inbox_start s < 0 \<or> inbox_start s > int (length (sLog s)) then Panic
     else foldM replayStep empty_inbox (drop (nat (inbox_start s)) (sLog s)))"
  by (simp add: NewInbox_def inbox_start_def Let_def)

lemma inboxApply_distinct:
  assumes "inboxApply i sp = Ok i'"
  shows "distinct (pending_ids i') \<and> ibPendingNotifications i' = ibPendingNotifications i"
proof -
  obtain c where v: "inboxValidate i sp = Ok ()" and
    c: "splicedList (inboxList i (isTarget sp)) (isStart sp) (removedOf sp) (insertedOf sp) = Ok c" and i': "i' = setList i (isTarget sp) c"
    using assms by (auto simp: inboxApply_def outcome_simps)
  show ?thesis
    using v check_both [of c "ibNextStep i"] check_both [of "ibNextTurn i" c]
    by (auto simp: inboxValidate_def Let_def c i' pending_ids_def setList_def split: if_splits)
qed

lemma replayStep_distinct:
  assumes "distinct (pending_ids i) \<and> ibPendingNotifications i = []" and "replayStep i e = Ok i'"
  shows "distinct (pending_ids i') \<and> ibPendingNotifications i' = []"
  using assms inboxApply_distinct [of i] by (auto simp: replayStep_def outcome_simps split: if_splits)

lemma NewInbox_inv:
  assumes "session_inv s" and "NewInbox s = Ok i"
  shows "inbox_inv s i \<and> ibPendingNotifications i = []"
proof -
  have r: "0 \<le> inbox_start s" "inbox_start s \<le> int (length (sLog s))"
    "foldM replayStep empty_inbox (drop (nat (inbox_start s)) (sLog s)) = Ok i"
    using assms(2) by (auto simp: NewInbox_eq split: if_splits)
  have "distinct (pending_ids i) \<and> ibPendingNotifications i = []"
  proof (rule foldM_invariant [OF r(3), where I = "\<lambda>i. distinct (pending_ids i) \<and> ibPendingNotifications i = []"])
    show "distinct (pending_ids empty_inbox) \<and> ibPendingNotifications empty_inbox = []" by (simp add: empty_inbox_def pending_ids_def)
  qed (use replayStep_distinct in blast)
  moreover from this have "i\<lparr>ibPendingNotifications := []\<rparr> = i" by simp
  ultimately show ?thesis using assms(1) r by (simp add: inbox_inv_def)
qed

lemma start_range:
  "0 \<le> actualStartOf xs start \<and> actualStartOf xs start \<le> int (length xs)"
  by (auto simp: actualStartOf_def Let_def)

lemma delete_range:
  assumes "0 \<le> st" and "st \<le> int (length xs)"
  shows "0 \<le> actualDeleteCountOf xs st d \<and> st + actualDeleteCountOf xs st d \<le> int (length xs)"
  using assms by (auto simp: actualDeleteCountOf_def Let_def)

lemma spliced_ids [simp]: "map msgID (spliced_into xs st d (map stored_message ins)) = map msgID (spliced_into xs st d ins)"
  by (simp add: spliced_into_def take_map drop_map comp_def)

lemma pending_ids_stored: "pending_ids (setList i t (spliced_into xs st d (map stored_message ins))) = pending_ids (setList i t (spliced_into xs st d ins))"
  by (simp add: pending_ids_def setList_def)

lemma fits_pending [simp]: "fits (i\<lparr>ibPendingNotifications := p\<rparr>) n = fits i n"
  by (simp add: fits_def)

text \<open>One mutation, completely: nothing to do, refused because an identity would be pending twice, or committed.\<close>

lemma mutate_cases:
  fixes inserted :: "message list option"
  assumes inv: "inbox_inv s i" and ins: "ins = (case inserted of None \<Rightarrow> [] | Some ms \<Rightarrow> ms)" and fit: "fits i (length ins)"
    and wire: "\<forall>m \<in> set ins. wire_message m"
    and xs: "xs = inboxList i target" and st: "st = actualStartOf xs start" and d: "d = actualDeleteCountOf xs st deleteCount"
    and new: "new = setList i target (spliced_into xs st d (map stored_message ins))"
  obtains (noop) "d = 0" "ins = []" "mutateLocked now s i target start deleteCount inserted disc = ((s, i), Ok [])"
  | (refused) k where "\<not> (d = 0 \<and> ins = [])" "\<not> distinct (pending_ids new)"
      "mutateLocked now s i target start deleteCount inserted disc = ((s, i), Err (AlreadyPending k))"
  | (committed) s' e where "\<not> (d = 0 \<and> ins = [])" "distinct (pending_ids new)"
      "mutateLocked now s i target start deleteCount inserted disc =
        ((s', new\<lparr>ibPendingNotifications := ibPendingNotifications i
            @ (if disc then map Discarded (take (nat d) (drop (nat st) xs)) else []) @ map Inserted (map stored_message ins)\<rparr>),
         Ok (take (nat d) (drop (nat st) xs)))"
      "inbox_inv s' new" "sLog s' = sLog s @ [e]" "evType e = EventAgentInboxSpliced" "sHeader s' = sHeader s"
proof (cases "d = 0 \<and> ins = []")
  case True
  then have "mutateLocked now s i target start deleteCount inserted disc = ((s, i), Ok [])"
    using ins by (simp add: mutateLocked_def Let_def flip: xs st d) (auto split: option.splits)
  then show thesis using noop True by blast
next
  case False
  define sp where "sp = \<lparr>isTarget = target, isStart = st, isRemovedCount = (if d > 0 then Some d else None), isInserted = inserted,
              isOutcome = (if disc \<and> d > 0 then InboxOutcomeCanceled else [])\<rparr>"
  define sp' where "sp' = sp\<lparr>isInserted := map_option (map stored_message) inserted\<rparr>"
  have rng: "0 \<le> st" "st \<le> int (length xs)" "0 \<le> d" "st + d \<le> int (length xs)"
    using start_range [of xs start] delete_range [of st xs deleteCount] by (auto simp: st d)
  have len: "int (length xs) \<le> max_int64" using fit by (auto simp: fits_def xs inboxList_def split: if_splits)
  have rem: "removedOf sp = d" "removedOf sp' = d" using rng(3) by (auto simp: sp_def sp'_def removedOf_def)
  have io: "insertedOf sp = ins" "insertedOf sp' = map stored_message ins" by (auto simp: sp_def sp'_def insertedOf_def ins split: option.splits)
  have sel: "isTarget sp = target" "isStart sp = st" "isTarget sp' = target" "isStart sp' = st" by (simp_all add: sp_def sp'_def)
  have val: "(inboxValidate i sp = Ok () \<longleftrightarrow> distinct (pending_ids new)) \<and> (inboxValidate i sp = Ok () \<or> (\<exists>k. inboxValidate i sp = Err (AlreadyPending k)))"
    using inboxValidate_range [of sp i] rng fit unfolding sel rem io xs [symmetric] new pending_ids_stored by blast
  have mut: "mutateLocked now s i target start deleteCount inserted disc =
      (case inboxValidate i sp of Err e \<Rightarrow> ((s, i), Err e) | Panic \<Rightarrow> ((s, i), Panic)
        | Ok _ \<Rightarrow> (case Append now s EventAgentInboxSpliced (Some (enc_spliced sp)) None of
               (s', Err e) \<Rightarrow> ((s', i), Err (InboxAppendFailed e))
             | (s', Panic) \<Rightarrow> ((s', i), Panic)
             | (s', Ok event) \<Rightarrow> (case DecodeInboxSpliced event of
                    Err e \<Rightarrow> ((s', i), Err e)
                  | Panic \<Rightarrow> ((s', i), Panic)
                  | Ok stored \<Rightarrow>
                      let removed = take (nat d) (drop (nat st) xs);
                          i' = setList i target (spliced_into xs st d (insertedOf stored))
                      in ((s', i'\<lparr>ibPendingNotifications := ibPendingNotifications i'
                             @ (if disc then map Discarded removed else []) @ map Inserted (insertedOf stored)\<rparr>), Ok removed))))"
    unfolding mutateLocked_def Let_def xs [symmetric] st [symmetric] d [symmetric] sp_def [symmetric] spliced_into_def
    using False ins by (auto split: option.splits)
  show thesis
  proof (cases "distinct (pending_ids new)")
    case False
    then obtain k where "inboxValidate i sp = Err (AlreadyPending k)" using val by auto
    then show thesis using refused [OF \<open>\<not> (d = 0 \<and> ins = [])\<close> False, of k] mut by simp
  next
    case True
    then have v: "inboxValidate i sp = Ok ()" using val by simp
    let ?e = "plain_event s now EventAgentInboxSpliced (enc_spliced sp)"
    have sinv: "session_inv s" using inv by (simp add: inbox_inv_def)
    obtain s' where s': "Append now s EventAgentInboxSpliced (Some (enc_spliced sp)) None = (s', Ok ?e)" "session_inv s'"
      "sLog s' = sLog s @ [?e]" "sHeader s' = sHeader s" using Append_plain [OF sinv inbox_plain] by blast
    have "in_i64 st" "d > 0 \<Longrightarrow> in_i64 d" using rng len by (auto simp: in_i64_def min_int64_def max_int64_def)
    then have dec: "DecodeInboxSpliced ?e = Ok sp'"
      using spliced_stored [of st "isRemovedCount sp" inserted target "isOutcome sp"] wire ins
      by (auto simp: DecodeInboxSpliced_def sp_def sp'_def split: if_splits)
    let ?i = "i\<lparr>ibPendingNotifications := []\<rparr>"
    have "distinct (pending_ids (setList ?i target (spliced_into xs st d (map stored_message ins))))" using True by (simp add: new)
    then have "inboxValidate ?i sp' = Ok ()"
      using inboxValidate_range [of sp' ?i] rng fit by (simp add: sel rem io flip: xs)
    then have "inboxApply ?i sp' = Ok (new\<lparr>ibPendingNotifications := []\<rparr>)"
      using inboxApply_range [of sp' ?i] rng fit by (simp add: sel rem io new flip: xs)
    then have step: "replayStep ?i ?e = Ok (new\<lparr>ibPendingNotifications := []\<rparr>)" by (simp add: replayStep_def dec)
    have start': "inbox_start s' = inbox_start s" by (simp add: inbox_start_def s')
    have z: "nat (inbox_start s) - length (sLog s) = 0" using inv by (simp add: inbox_inv_def nat_le_iff)
    have "foldM replayStep empty_inbox (drop (nat (inbox_start s')) (sLog s')) = Ok (new\<lparr>ibPendingNotifications := []\<rparr>)"
      using ib.replay_commit [OF _ step] inv by (simp add: start' s' inbox_inv_def z)
    then have inv': "inbox_inv s' new" using True s' inv by (simp add: inbox_inv_def start')
    have res: "mutateLocked now s i target start deleteCount inserted disc =
        ((s', new\<lparr>ibPendingNotifications := ibPendingNotifications i
            @ (if disc then map Discarded (take (nat d) (drop (nat st) xs)) else []) @ map Inserted (map stored_message ins)\<rparr>),
         Ok (take (nat d) (drop (nat st) xs)))"
      by (simp add: mut v s' dec Let_def io new)
    show thesis by (rule committed [OF \<open>\<not> (d = 0 \<and> ins = [])\<close> True res inv' s'(3) _ s'(4)]) simp
  qed
qed

section \<open>Reachable inboxes\<close>

lemma Splice_mutate:
  "Splice now s i target start deleteCount inserted =
     (let r = mutateLocked now s i target start deleteCount inserted True; i' = snd (fst r) in
      ((fst (fst r), i'\<lparr>ibPendingNotifications := []\<rparr>), ibPendingNotifications i', snd r))"
  by (simp add: Splice_def drainNotificationsLocked_def Let_def split_beta)

lemma inbox_inv_pending [simp]: "inbox_inv s (i\<lparr>ibPendingNotifications := p\<rparr>) = inbox_inv s i"
  by (simp add: inbox_inv_def)

definition inserted_list :: "message list option \<Rightarrow> message list" where
  "inserted_list ms = (case ms of None \<Rightarrow> [] | Some xs \<Rightarrow> xs)"

lemma mutate_inv:
  assumes "inbox_inv s i" and "fits i (length (inserted_list inserted))" and "\<forall>m \<in> set (inserted_list inserted). wire_message m"
    and "mutateLocked now s i target start deleteCount inserted disc = ((s', i'), res)"
  shows "inbox_inv s' i'"
proof (cases rule: mutate_cases [OF assms(1) inserted_list_def assms(2,3) refl refl refl refl,
      of target start deleteCount now disc, case_names noop refused committed])
  case (committed s1 e)
  then show ?thesis using assms(4) by simp
qed (use assms(1,4) in auto)

lemma mutate_delete:
  assumes "inbox_inv s i" and "fits i 0" and "0 \<le> n" and "n \<le> int (length (inboxList i target))"
  shows "\<exists>s'. mutateLocked now s i target 0 n None disc =
      ((s', (setList i target (drop (nat n) (inboxList i target)))\<lparr>ibPendingNotifications := ibPendingNotifications i
          @ (if disc then map Discarded (take (nat n) (inboxList i target)) else [])\<rparr>), Ok (take (nat n) (inboxList i target)))
    \<and> inbox_inv s' (setList i target (drop (nat n) (inboxList i target))) \<and> sHeader s' = sHeader s
    \<and> (if n = 0 then sLog s' = sLog s else \<exists>e. sLog s' = sLog s @ [e] \<and> evType e = EventAgentInboxSpliced)"
proof -
  let ?xs = "inboxList i target"
  have st: "actualStartOf ?xs 0 = 0" by (simp add: actualStartOf_def)
  have d: "actualDeleteCountOf ?xs 0 n = n" using assms(3,4) by (simp add: actualDeleteCountOf_def)
  have sp: "spliced_into ?xs 0 n [] = drop (nat n) ?xs" by (simp add: spliced_into_def)
  have "distinct (pending_ids (setList i target (drop (nat n) ?xs)))"
    using assms(1) by (auto simp: inbox_inv_def pending_ids_def setList_def inboxList_def distinct_drop simp flip: drop_map dest: in_set_dropD)
  moreover have "setList i target ?xs = i" by (simp add: setList_def inboxList_def)
  ultimately show ?thesis
  proof (cases rule: mutate_cases [OF assms(1), of "[]" None, OF _ _ _ refl refl refl refl,
        of target 0 n now disc, case_names fit wire ins noop refused committed])
    case noop
    then show ?thesis using assms(1) st d \<open>setList i target ?xs = i\<close> by (intro exI [of _ s]) simp
  next
    case (refused k)
    then show ?thesis using \<open>distinct (pending_ids (setList i target (drop (nat n) ?xs)))\<close> by (simp add: st d sp)
  next
    case (committed s' e)
    then show ?thesis using st d sp by (intro exI [of _ s']) auto
  qed (use assms(2) in auto)
qed

inductive inbox_reach :: "session \<Rightarrow> inbox \<Rightarrow> bool" where
  opened: "session_inv s \<Longrightarrow> NewInbox s = Ok i \<Longrightarrow> inbox_reach s i"
| foreign: "inbox_reach s i \<Longrightarrow> ty \<noteq> EventAgentInboxSpliced \<Longrightarrow> Append now s ty data intent = (s', r) \<Longrightarrow> inbox_reach s' i"
| spliced: "inbox_reach s i \<Longrightarrow> fits i (length (inserted_list ms)) \<Longrightarrow> \<forall>m \<in> set (inserted_list ms). wire_message m \<Longrightarrow>
    Splice now s i target start n ms = ((s', i'), notices, res) \<Longrightarrow> inbox_reach s' i'"
| replaced: "inbox_reach s i \<Longrightarrow> fits i (length (inserted_list ms)) \<Longrightarrow> \<forall>m \<in> set (inserted_list ms). wire_message m \<Longrightarrow>
    replaceAt now s i k ms = ((s', i'), notices, r) \<Longrightarrow> inbox_reach s' i'"
| cleared: "inbox_reach s i \<Longrightarrow> fits i 0 \<Longrightarrow> Clear now s i = ((s', i'), notices, u) \<Longrightarrow> inbox_reach s' i'"
| claimed: "inbox_reach s i \<Longrightarrow> fits i 0 \<Longrightarrow> Claim now s i target turn = ((s', i'), notices, res) \<Longrightarrow> inbox_reach s' i'"

lemma Splice_inv:
  assumes "inbox_inv s i" and "fits i (length (inserted_list ms))" and "\<forall>m \<in> set (inserted_list ms). wire_message m"
    and "Splice now s i target start n ms = ((s', i'), notices, res)"
  shows "inbox_inv s' i' \<and> ibPendingNotifications i' = []"
proof -
  obtain s1 i1 r where m: "mutateLocked now s i target start n ms True = ((s1, i1), r)" by (metis surj_pair)
  show ?thesis using mutate_inv [OF assms(1-3) m] assms(4) by (auto simp: Splice_mutate m Let_def)
qed

lemma fits_drop [simp]: "fits i 0 \<Longrightarrow> fits (setList i t (drop k (inboxList i t))) 0"
  by (auto simp: fits_def setList_def inboxList_def)

text \<open>Claiming and clearing always succeed.\<close>

lemma Claim_result:
  assumes "inbox_inv s i" and "fits i 0" and "ibPendingNotifications i = []"
    and queued_def: "queued = (if target = InboxNextTurn then take 1 (ibNextTurn i) else [])"
  shows "\<exists>s'. Claim now s i target turn =
      ((s', \<lparr>ibNextTurn = drop (length queued) (ibNextTurn i), ibNextStep = [], ibPendingNotifications = []\<rparr>),
       map (\<lambda>m. Claimed m turn) (ibNextStep i @ queued), Ok (ibNextStep i @ queued))
    \<and> inbox_inv s' \<lparr>ibNextTurn = drop (length queued) (ibNextTurn i), ibNextStep = [], ibPendingNotifications = []\<rparr>"
proof -
  have l: "inboxList i InboxNextStep = ibNextStep i" by (simp add: inboxList_def)
  let ?i = "i\<lparr>ibNextStep := []\<rparr>"
  have i1: "(setList i InboxNextStep [])\<lparr>ibPendingNotifications := []\<rparr> = ?i" using assms(3) by (simp add: setList_def)
  obtain s1 where s1: "mutateLocked now s i InboxNextStep 0 (int (length (ibNextStep i))) None False = ((s1, ?i), Ok (ibNextStep i))"
    "inbox_inv s1 ?i"
    using mutate_delete [OF assms(1,2), of "int (length (ibNextStep i))" InboxNextStep now False] assms(3) i1
    by (auto simp: l setList_def)
  show ?thesis
  proof (cases "target = InboxNextTurn")
    case False
    then show ?thesis using s1 assms(3)
      by (intro exI [of _ s1]) (cases i; simp add: Claim_def drainNotificationsLocked_def queued_def)
  next
    case True
    have l2: "inboxList ?i InboxNextTurn = ibNextTurn i" by (simp add: inboxList_def)
    have f2: "fits ?i 0" using assms(2) by (simp add: fits_def)
    let ?n = "int (length queued)"
    obtain s2 where s2: "mutateLocked now s1 ?i InboxNextTurn 0 ?n None False
        = ((s2, ?i\<lparr>ibNextTurn := drop (length queued) (ibNextTurn i)\<rparr>), Ok (take (length queued) (ibNextTurn i)))"
      "inbox_inv s2 (?i\<lparr>ibNextTurn := drop (length queued) (ibNextTurn i)\<rparr>)"
      using mutate_delete [OF s1(2) f2, of ?n InboxNextTurn now False] assms(3) True
      by (auto simp: l2 setList_def queued_def)
    have same: "mutateLocked now s1 ?i InboxNextTurn 0 1 None False = mutateLocked now s1 ?i InboxNextTurn 0 ?n None False"
      using True by (cases "ibNextTurn i") (simp_all add: mutateLocked_def l2 actualDeleteCountOf_def actualStartOf_def queued_def Let_def)
    have "take (length queued) (ibNextTurn i) = queued" using True by (auto simp: queued_def min_def)
    then show ?thesis using s1 s2 same True assms(3)
      by (intro exI [of _ s2]) (cases i; simp add: Claim_def drainNotificationsLocked_def)
  qed
qed

lemma Clear_result:
  assumes "inbox_inv s i" and "fits i 0" and "ibPendingNotifications i = []"
  shows "\<exists>s'. Clear now s i = ((s', empty_inbox), map Discarded (ibNextStep i @ ibNextTurn i), Ok ()) \<and> inbox_inv s' empty_inbox"
proof -
  have l: "inboxList i InboxNextStep = ibNextStep i" by (simp add: inboxList_def)
  let ?i = "\<lparr>ibNextTurn = ibNextTurn i, ibNextStep = [], ibPendingNotifications = map Discarded (ibNextStep i)\<rparr>"
  have i1: "(setList i InboxNextStep [])\<lparr>ibPendingNotifications := map Discarded (ibNextStep i)\<rparr> = ?i"
    by (cases i) (simp add: setList_def)
  obtain s1 where s1: "mutateLocked now s i InboxNextStep 0 (int (length (ibNextStep i))) None True = ((s1, ?i), Ok (ibNextStep i))"
    "inbox_inv s1 (setList i InboxNextStep [])"
    using mutate_delete [OF assms(1,2), of "int (length (ibNextStep i))" InboxNextStep now True] assms(3) i1 by (auto simp: l)
  have inv1: "inbox_inv s1 ?i" using s1(2) inbox_inv_pending [where s = s1 and i = "setList i InboxNextStep []"] unfolding i1 [symmetric] by simp
  have l2: "inboxList ?i InboxNextTurn = ibNextTurn i" by (simp add: inboxList_def)
  have f2: "fits ?i 0" using assms(2) by (simp add: fits_def)
  let ?j = "\<lparr>ibNextTurn = [], ibNextStep = [], ibPendingNotifications = map Discarded (ibNextStep i)\<rparr>"
  have i2: "setList ?i InboxNextTurn [] = ?j" by (simp add: setList_def)
  obtain s2 where s2: "mutateLocked now s1 ?i InboxNextTurn 0 (int (length (ibNextTurn i))) None True
      = ((s2, ?j\<lparr>ibPendingNotifications := map Discarded (ibNextStep i @ ibNextTurn i)\<rparr>), Ok (ibNextTurn i))"
    "inbox_inv s2 ?j"
    using mutate_delete [OF inv1 f2, of "int (length (ibNextTurn i))" InboxNextTurn now True] by (auto simp: l2 i2)
  have "inbox_inv s2 empty_inbox" using s2(2) inbox_inv_pending [where s = s2 and i = ?j and p = "[]"] by (simp add: empty_inbox_def)
  then show ?thesis using s1 s2 by (intro exI [of _ s2]) (simp add: Clear_def drainNotificationsLocked_def empty_inbox_def)
qed

lemma inbox_reach_inv: "inbox_reach s i \<Longrightarrow> inbox_inv s i \<and> ibPendingNotifications i = []"
proof (induction rule: inbox_reach.induct)
  case (opened s i)
  then show ?case by (rule NewInbox_inv)
next
  case (foreign s i ty now data intent s' r)
  have sinv: "session_inv s'" using Append_inv foreign.hyps foreign.IH by (auto simp: inbox_inv_def)
  have "sHeader s' = sHeader s"
    using foreign.hyps(3) by (auto simp: Append_def Let_def split: option.splits outcome.splits prod.splits)
  then have h: "inbox_start s' = inbox_start s" by (simp add: inbox_start_def)
  from foreign.hyps(3) show ?case
  proof (cases rule: Append_cases)
    case refused
    then show ?thesis using foreign.IH sinv h by (simp add: inbox_inv_def)
  next
    case (committed e)
    have z: "nat (inbox_start s) - length (sLog s) = 0" using foreign.IH by (simp add: inbox_inv_def nat_le_iff)
    show ?thesis
      using foreign.hyps(2) foreign.IH committed sinv h z ib.replay_grow [of "[e]"] by (auto simp: inbox_inv_def)
  qed
next
  case (spliced s i ms now target start n s' i' notices res)
  then show ?case using Splice_inv by blast
next
  case (replaced s i ms now k s' i' notices r)
  then show ?case
    using Splice_inv [of s i ms] by (auto simp: replaceAt_def split: option.splits prod.splits)
next
  case (cleared s i now s' i' notices u)
  then show ?case using Clear_result [of s i now] by (auto simp: empty_inbox_def)
next
  case (claimed s i now target turn s' i' notices res)
  then show ?case using Claim_result [of s i, OF _ _ _ refl, of now target turn] by auto
qed

lemma inv_replays: "inbox_inv s i \<Longrightarrow> ibPendingNotifications i = [] \<Longrightarrow> NewInbox s = Ok i"
proof -
  assume inv: "inbox_inv s i" "ibPendingNotifications i = []"
  then have "i\<lparr>ibPendingNotifications := []\<rparr> = i" by simp
  then show ?thesis using inv by (simp add: NewInbox_eq inbox_inv_def)
qed

section \<open>Properties\<close>

definition demo_mail :: "string \<Rightarrow> message" where
  "demo_mail k = \<lparr>msgID = k, msgRole = RoleUser, msgContent = Some [], msgSource = zero_source\<lparr>srcKind := ''user''\<rparr>\<rparr>"

definition demo_inbox :: "(session \<times> inbox) \<times> inbox_notice list \<times> (inbox_error, message list) outcome" where
  "demo_inbox = InboxAppend 6 demo_start empty_inbox InboxNextTurn (demo_mail ''a'')"

lemma demo_inbox_reach: "inbox_reach (fst (fst demo_inbox)) (snd (fst demo_inbox))"
proof -
  have "inbox_reach demo_start empty_inbox"
    by (rule inbox_reach.opened [OF session_reach_inv [OF demo_start_reach]])
      (simp add: NewInbox_def demo_start_def blank_session_def zero_header_def)
  moreover have "fits empty_inbox (length (inserted_list (Some [demo_mail ''a''])))"
    by (simp add: fits_def empty_inbox_def inserted_list_def max_int64_def)
  moreover have "\<forall>m \<in> set (inserted_list (Some [demo_mail ''a''])). wire_message m" by code_simp
  ultimately show ?thesis
    by (rule inbox_reach.spliced [where notices = "fst (snd demo_inbox)" and res = "snd (snd demo_inbox)"])
      (simp add: demo_inbox_def InboxAppend_def)
qed

lemma demo_inbox_facts:
  "ibNextTurn (snd (fst demo_inbox)) = [demo_mail ''a''] \<and> ibNextStep (snd (fst demo_inbox)) = []
   \<and> fits (snd (fst demo_inbox)) 1 \<and> wire_message (demo_mail ''a'')"
  by code_simp

text \<open>C7: The live inbox is exactly what the log replays to: after any interleaving of inbox operations and appends of
  other events, rebuilding the projection from the session's log succeeds and gives the same two lists.\<close>

theorem inbox_replays:
  assumes "inbox_reach s i"
  shows "NewInbox s = Ok i"
  using inbox_reach_inv [OF assms] inv_replays by blast

theorem inbox_replays_witness: "NewInbox (fst (fst demo_inbox)) = Ok (snd (fst demo_inbox))"
  by (rule inbox_replays [OF demo_inbox_reach])

text \<open>No message is ever pending twice, neither within a list nor across the two.\<close>

theorem inbox_identities_unique:
  assumes "inbox_reach s i"
  shows "distinct (map msgID (ibNextTurn i @ ibNextStep i))"
  using inbox_reach_inv [OF assms] by (simp add: inbox_inv_def pending_ids_def)

theorem inbox_identities_unique_witness: "distinct (map msgID (ibNextTurn (snd (fst demo_inbox))))"
  using inbox_identities_unique [OF demo_inbox_reach] by simp

text \<open>A splice does what a splice does: out-of-range coordinates are clamped (negative starts count from the end),
  the returned messages are those that stood in the range, the other list is untouched, the notices name the
  discarded and then the inserted messages, exactly one event is committed when something changes and none
  otherwise, and it is refused, with nothing changed, exactly when an identity would be pending twice.\<close>

theorem splice_semantics:
  assumes "inbox_reach s i" and "fits i (length ins)" and "\<forall>m \<in> set ins. wire_message m"
    and "xs = inboxList i target" and "st = actualStartOf xs start" and "d = actualDeleteCountOf xs st n"
    and "new = setList i target (take (nat st) xs @ map stored_message ins @ drop (nat (st + d)) xs)"
    and "Splice now s i target start n (Some ins) = ((s', i'), notices, res)"
  shows "0 \<le> st \<and> 0 \<le> d \<and> st + d \<le> int (length xs) \<and>
    (if d = 0 \<and> ins = [] then s' = s \<and> i' = i \<and> notices = [] \<and> res = Ok []
     else if distinct (map msgID (ibNextTurn new @ ibNextStep new)) then
       i' = new \<and> res = Ok (take (nat d) (drop (nat st) xs))
       \<and> notices = map Discarded (take (nat d) (drop (nat st) xs)) @ map Inserted (map stored_message ins)
       \<and> (\<exists>e. sLog s' = sLog s @ [e] \<and> evType e = EventAgentInboxSpliced)
     else s' = s \<and> i' = i \<and> notices = [] \<and> (\<exists>k. res = Err (AlreadyPending k)))"
proof -
  note inv = inbox_reach_inv [OF assms(1)]
  have rng: "0 \<le> st \<and> 0 \<le> d \<and> st + d \<le> int (length xs)"
    using start_range [of xs start] delete_range [of st xs n] by (auto simp: assms(5,6))
  have new: "new = setList i target (spliced_into xs st d (map stored_message ins))" by (simp add: assms(7) spliced_into_def)
  have ids: "map msgID (ibNextTurn new @ ibNextStep new) = pending_ids new" by (simp add: pending_ids_def)
  have clean: "i\<lparr>ibPendingNotifications := []\<rparr> = i" "new\<lparr>ibPendingNotifications := []\<rparr> = new" using inv by (simp_all add: new)
  have ms: "ins = (case Some ins of None \<Rightarrow> [] | Some xs \<Rightarrow> xs)" by simp
  show ?thesis
  proof (cases rule: mutate_cases [OF conjunct1 [OF inv] ms assms(2,3,4,5,6) new, of now True, case_names noop refused committed])
    case noop
    then show ?thesis using assms(8) rng inv clean by (simp add: Splice_mutate Let_def ids del: map_append)
  next
    case (refused k)
    then show ?thesis using assms(8) rng inv clean by (auto simp: Splice_mutate Let_def ids simp del: map_append)
  next
    case (committed s1 e)
    then show ?thesis using assms(8) rng inv clean ids by (auto simp: Splice_mutate Let_def simp del: map_append)
  qed
qed

theorem splice_semantics_witness:
  "\<exists>k. snd (snd (Splice 7 (fst (fst demo_inbox)) (snd (fst demo_inbox)) InboxNextTurn (-1) 0 (Some [demo_mail ''a'']))) = Err (AlreadyPending k)"
proof -
  let ?s = "fst (fst demo_inbox)" and ?i = "snd (fst demo_inbox)"
  obtain s' i' notices res where r: "Splice 7 ?s ?i InboxNextTurn (-1) 0 (Some [demo_mail ''a'']) = ((s', i'), notices, res)"
    by (metis surj_pair)
  have f: "ibNextTurn ?i = [demo_mail ''a'']" "ibNextStep ?i = []" "fits ?i (length [demo_mail ''a''])" "\<forall>m \<in> set [demo_mail ''a'']. wire_message m"
    using demo_inbox_facts by auto
  from splice_semantics [OF demo_inbox_reach f(3,4) refl refl refl refl r] f(1,2) r show ?thesis
    by (auto simp: setList_def inboxList_def actualStartOf_def actualDeleteCountOf_def)
qed

text \<open>A claim takes the whole next-step batch, for a turn boundary followed by the first queued turn, and nothing
  else; it always succeeds, publishes exactly the claimed messages in order, and what it took is durably gone.\<close>

theorem claim_takes_batch:
  assumes "inbox_reach s i" and "fits i 0"
    and "queued = (if target = InboxNextTurn then take 1 (ibNextTurn i) else [])"
  shows "\<exists>s'. Claim now s i target turn =
      ((s', \<lparr>ibNextTurn = drop (length queued) (ibNextTurn i), ibNextStep = [], ibPendingNotifications = []\<rparr>),
       map (\<lambda>m. Claimed m turn) (ibNextStep i @ queued), Ok (ibNextStep i @ queued))
    \<and> NewInbox s' = Ok \<lparr>ibNextTurn = drop (length queued) (ibNextTurn i), ibNextStep = [], ibPendingNotifications = []\<rparr>"
proof -
  obtain s' where s': "Claim now s i target turn =
      ((s', \<lparr>ibNextTurn = drop (length queued) (ibNextTurn i), ibNextStep = [], ibPendingNotifications = []\<rparr>),
       map (\<lambda>m. Claimed m turn) (ibNextStep i @ queued), Ok (ibNextStep i @ queued))"
    using Claim_result [OF _ assms(2) _ assms(3), of s now turn] inbox_reach_inv [OF assms(1)] by blast
  have "inbox_reach s' \<lparr>ibNextTurn = drop (length queued) (ibNextTurn i), ibNextStep = [], ibPendingNotifications = []\<rparr>"
    by (rule inbox_reach.claimed [OF assms(1,2) s'])
  then have "NewInbox s' = Ok \<lparr>ibNextTurn = drop (length queued) (ibNextTurn i), ibNextStep = [], ibPendingNotifications = []\<rparr>"
    using inbox_reach_inv inv_replays by blast
  then show ?thesis using s' by blast
qed

theorem claim_takes_batch_witness:
  "\<exists>s'. Claim 8 (fst (fst demo_inbox)) (snd (fst demo_inbox)) InboxNextTurn 1
     = ((s', empty_inbox), [Claimed (demo_mail ''a'') 1], Ok [demo_mail ''a''])"
proof -
  have f: "ibNextTurn (snd (fst demo_inbox)) = [demo_mail ''a'']" "ibNextStep (snd (fst demo_inbox)) = []" "fits (snd (fst demo_inbox)) 0"
    using demo_inbox_facts by (auto simp: fits_def)
  show ?thesis using claim_takes_batch [OF demo_inbox_reach f(3), of "[demo_mail ''a'']" InboxNextTurn 8 1] f(1,2)
    by (auto simp: empty_inbox_def)
qed

text \<open>A persisted splice whose range end overflows is not refused: the sum wraps to a negative number, passes the
  check, and sizing the result panics.  (Malformed persisted splices are documented to fail with an error that
  names the event.)\<close>

theorem persisted_splice_overflow_panics:
  assumes "isStart sp = int (length (inboxList i (isTarget sp)))" and "0 < isStart sp"
    and "removedOf sp = max_int64" and "int (length (inboxList i (isTarget sp)) + length (insertedOf sp)) < max_int64"
  shows "inboxApply i sp = Panic"
proof -
  let ?n = "int (length (inboxList i (isTarget sp)))"
  have w: "i64 (?n + max_int64) = ?n + max_int64 - 18446744073709551616"
  proof -
    have "?n + max_int64 + 9223372036854775808 = (?n - 1) + 18446744073709551616" by (simp add: max_int64_def)
    moreover have "((?n - 1) + 18446744073709551616) mod 18446744073709551616 = ?n - 1"
      unfolding mod_add_self2 using assms(1,2,4) by (simp add: max_int64_def)
    ultimately show ?thesis by (simp add: i64_def max_int64_def)
  qed
  have "in_i64 (?n - max_int64)" "in_i64 (?n - max_int64 + int (length (insertedOf sp)))"
    using assms(4) by (auto simp: in_i64_def max_int64_def min_int64_def)
  then have "splicedList (inboxList i (isTarget sp)) ?n max_int64 (insertedOf sp) = Panic"
    using assms(4) by (simp add: splicedList_def Let_def)
  then show ?thesis
    using assms w by (simp add: inboxApply_def inboxValidate_def Let_def max_int64_def)
qed

theorem persisted_splice_overflow_panics_witness:
  "inboxApply (snd (fst demo_inbox)) \<lparr>isTarget = InboxNextTurn, isStart = 1, isRemovedCount = Some max_int64, isInserted = None, isOutcome = []\<rparr> = Panic"
proof -
  have "inboxList (snd (fst demo_inbox)) InboxNextTurn = [demo_mail ''a'']" using demo_inbox_facts by (simp add: inboxList_def)
  then show ?thesis by (intro persisted_splice_overflow_panics) (simp_all add: removedOf_def insertedOf_def max_int64_def)
qed

end
