(* ===== verification/Goal_Fold.thy ===== *)
theory Goal_Fold
  imports Event_Sourcing
begin

text \<open>
  \<open>goal/types.go\<close>, \<open>goal/domain.go\<close>, \<open>goal/fold.go\<close> and \<open>goal/projection.go\<close>: the durable goal of a session.
  A goal lives only in \<open>goal/change\<close> events of the session's log (full snapshots and clear tombstones, with an
  exact set of members) and in the round attribution of user messages.  This theory holds the codec of a change, the strict
  fold with its phase machine and compare-and-set revisions, the last-wins projection of the same events with its persisted
  row, and what a log the fold accepts is worth: contiguous revisions and rounds, and a projection that agrees with the fold.
\<close>

section \<open>Types\<close>

record goal_ref =
  grID :: string
  grRevision :: int

record block_reason =
  brCode :: string
  brMessage :: string

record goal_snapshot =
  gsID :: string
  gsRevision :: int
  gsObjective :: string
  gsPhase :: string
  gsBlockedReason :: "block_reason option"
  gsMaxGoalRounds :: int

record goal_projection =
  gpGoal :: goal_snapshot
  gpRoundsStarted :: int
  gpCreatedAt :: int
  gpUpdatedAt :: int

record folded_goal =
  fgGoal :: "goal_snapshot option"
  fgRoundsStarted :: int
  fgCreatedAt :: "int option"
  fgUpdatedAt :: "int option"
  fgLastRef :: "goal_ref option"

record change_meta =
  cmKind :: string
  cmVersion :: int
  cmOperation :: string
  cmGoal :: "goal_snapshot option"
  cmRoundsStarted :: "int option"
  cmCreatedAt :: "int option"
  cmUpdatedAt :: "int option"
  cmCleared :: "goal_ref option"
  cmClearedAt :: "int option"

definition PhaseActive :: string where "PhaseActive = ''active''"
definition PhasePaused :: string where "PhasePaused = ''paused''"
definition PhaseBlocked :: string where "PhaseBlocked = ''blocked''"
definition PhaseComplete :: string where "PhaseComplete = ''complete''"

lemmas phase_defs = PhaseActive_def PhasePaused_def PhaseBlocked_def PhaseComplete_def

definition ChangeVersion :: int where "ChangeVersion = 1"
definition EventChange :: string where "EventChange = ''goal/change''"

definition OperationCreate :: string where "OperationCreate = ''create''"
definition OperationEdit :: string where "OperationEdit = ''edit''"
definition OperationPause :: string where "OperationPause = ''pause''"
definition OperationResume :: string where "OperationResume = ''resume''"
definition OperationComplete :: string where "OperationComplete = ''complete''"
definition OperationBlock :: string where "OperationBlock = ''block''"
definition OperationClear :: string where "OperationClear = ''clear''"

lemmas operation_defs = OperationCreate_def OperationEdit_def OperationPause_def OperationResume_def
  OperationComplete_def OperationBlock_def OperationClear_def

definition snapshotOperations :: "string list" where
  "snapshotOperations = [OperationCreate, OperationEdit, OperationPause, OperationResume, OperationComplete, OperationBlock]"

definition phases :: "string list" where
  "phases = [PhaseActive, PhasePaused, PhaseBlocked, PhaseComplete]"

definition newSnapshotChange :: "string \<Rightarrow> goal_snapshot \<Rightarrow> int \<Rightarrow> int \<Rightarrow> int \<Rightarrow> change_meta" where
  "newSnapshotChange operation goal roundsStarted createdAt updatedAt =
     \<lparr>cmKind = EventChange, cmVersion = ChangeVersion, cmOperation = operation, cmGoal = Some goal,
      cmRoundsStarted = Some roundsStarted, cmCreatedAt = Some createdAt, cmUpdatedAt = Some updatedAt,
      cmCleared = None, cmClearedAt = None\<rparr>"

definition newClearChange :: "goal_ref \<Rightarrow> int \<Rightarrow> change_meta" where
  "newClearChange cleared clearedAt =
     \<lparr>cmKind = EventChange, cmVersion = ChangeVersion, cmOperation = OperationClear, cmGoal = None,
      cmRoundsStarted = None, cmCreatedAt = None, cmUpdatedAt = None, cmCleared = Some cleared, cmClearedAt = Some clearedAt\<rparr>"

text \<open>A pointer of a change that is nil where the code follows it is a panic.\<close>

definition deref :: "'a option \<Rightarrow> ('e, 'a) outcome" where
  "deref p = (case p of None \<Rightarrow> Panic | Some x \<Rightarrow> Ok x)"

lemma deref_Some [simp]: "deref (Some x) = Ok x"
  by (simp add: deref_def)

definition snapshotRef :: "goal_snapshot \<Rightarrow> goal_ref" where
  "snapshotRef g = \<lparr>grID = gsID g, grRevision = gsRevision g\<rparr>"

definition changeRef :: "change_meta \<Rightarrow> ('e, goal_ref) outcome" where
  "changeRef change =
     (if cmOperation change = OperationClear then deref (cmCleared change)
      else andThen (deref (cmGoal change)) (\<lambda>g. Ok (snapshotRef g)))"

section \<open>The wire form of a change\<close>

definition enc_goal_ref :: "goal_ref \<Rightarrow> json" where
  "enc_goal_ref r = JObj (mem ''id'' (JStr (grID r)) @ mem ''revision'' (JInt (grRevision r)))"

definition enc_block_reason :: "block_reason \<Rightarrow> json" where
  "enc_block_reason b = JObj (mem ''code'' (JStr (brCode b)) @ mem ''message'' (JStr (brMessage b)))"

definition enc_snapshot :: "goal_snapshot \<Rightarrow> json" where
  "enc_snapshot g = JObj (mem ''id'' (JStr (gsID g)) @ mem ''revision'' (JInt (gsRevision g))
     @ mem ''objective'' (JStr (gsObjective g)) @ mem ''phase'' (JStr (gsPhase g))
     @ mem_opt ''blockedReason'' (map_option enc_block_reason (gsBlockedReason g))
     @ mem ''maxGoalRounds'' (JInt (gsMaxGoalRounds g)))"

definition enc_change_meta :: "change_meta \<Rightarrow> json" where
  "enc_change_meta c = JObj (mem ''kind'' (JStr (cmKind c)) @ mem ''version'' (JInt (cmVersion c))
     @ mem ''operation'' (JStr (cmOperation c)) @ mem_opt ''goal'' (map_option enc_snapshot (cmGoal c))
     @ mem_opt ''roundsStarted'' (map_option JInt (cmRoundsStarted c))
     @ mem_opt ''createdAt'' (map_option JInt (cmCreatedAt c))
     @ mem_opt ''updatedAt'' (map_option JInt (cmUpdatedAt c))
     @ mem_opt ''cleared'' (map_option enc_goal_ref (cmCleared c))
     @ mem_opt ''clearedAt'' (map_option JInt (cmClearedAt c)))"

definition enc_projection :: "goal_projection option \<Rightarrow> json" where
  "enc_projection p = (case p of None \<Rightarrow> JNull | Some q \<Rightarrow>
     JObj (mem ''goal'' (enc_snapshot (gpGoal q)) @ mem ''roundsStarted'' (JInt (gpRoundsStarted q))
       @ mem ''createdAt'' (JInt (gpCreatedAt q)) @ mem ''updatedAt'' (JInt (gpUpdatedAt q))))"

datatype goal_error =
    NotPositive string | NotNonNegative string | BlockReasonKeys | BlockReasonCode | BlockReasonMessage
  | GoalNotRecord | GoalIdEmpty | GoalObjective | GoalPhaseInvalid | GoalKeys string
  | TombstoneKeys | TombstoneId | ChangeVersionUnsupported | ClearKeys | OperationInvalid | SnapshotKeys
  | UpdatedBeforeCreated | GoalSourceInvalid
  | DefinitionChanged string | RevisionNotNext string | LacksUpdatedAt | CountersChanged string
  | EditChangesPhase | TransitionInvalid string | CreateAsTransition | UnknownOperation
  | NeedsCurrentGoal string | ClearBeforeUpdate | CreateNotFresh | ChangeKindInvalid int | RoundNotNext int
  | ProjectionRow string
  | GoalError string | GoalAppendFailed session_error | LacksCreatedAt | LacksTimestamps string | CommitCleared

text \<open>\<open>^[a-z][a-z0-9]*(?:-[a-z0-9]+)*$\<close>, scanned from the left.\<close>

definition lower_letter :: "char \<Rightarrow> bool" where
  "lower_letter c \<longleftrightarrow> CHR ''a'' \<le> c \<and> c \<le> CHR ''z''"

definition kebab_char :: "char \<Rightarrow> bool" where
  "kebab_char c \<longleftrightarrow> lower_letter c \<or> CHR ''0'' \<le> c \<and> c \<le> CHR ''9''"

fun kebabRest :: "bool \<Rightarrow> string \<Rightarrow> bool" where
  "kebabRest open' [] \<longleftrightarrow> \<not> open'"
| "kebabRest open' (c # cs) \<longleftrightarrow>
     (if kebab_char c then kebabRest False cs else c = CHR ''-'' \<and> \<not> open' \<and> kebabRest True cs)"

fun kebabCodePattern :: "string \<Rightarrow> bool" where
  "kebabCodePattern [] \<longleftrightarrow> False"
| "kebabCodePattern (c # cs) \<longleftrightarrow> lower_letter c \<and> kebabRest False cs"

definition asInteger :: "json \<Rightarrow> int option" where
  "asInteger v = float_integer v"

definition positiveInteger :: "json \<Rightarrow> string \<Rightarrow> (goal_error, int) outcome" where
  "positiveInteger v field =
     (case asInteger v of Some whole \<Rightarrow> if whole < 1 then Err (NotPositive field) else Ok whole | None \<Rightarrow> Err (NotPositive field))"

definition nonNegativeInteger :: "json \<Rightarrow> string \<Rightarrow> (goal_error, int) outcome" where
  "nonNegativeInteger v field =
     (case asInteger v of Some whole \<Rightarrow> if whole < 0 then Err (NotNonNegative field) else Ok whole | None \<Rightarrow> Err (NotNonNegative field))"

definition sortedKeys :: "(string \<times> json) list \<Rightarrow> string" where
  "sortedKeys record = join '','' (obj_keys record)"

text \<open>\<open>value.(string)\<close> that also has to satisfy a test.\<close>

definition stringMember :: "json \<Rightarrow> (string \<Rightarrow> bool) \<Rightarrow> goal_error \<Rightarrow> (goal_error, string) outcome" where
  "stringMember v test e = (case v of JStr s \<Rightarrow> if test s then Ok s else Err e | _ \<Rightarrow> Err e)"

definition normalized :: "string \<Rightarrow> bool" where
  "normalized s \<longleftrightarrow> \<not> (TrimSpace s = [] \<or> s \<noteq> TrimSpace s)"

definition decodeBlockReason :: "json \<Rightarrow> (goal_error, block_reason) outcome" where
  "decodeBlockReason v =
     (case v of
        JObj record \<Rightarrow>
          andThen (guard_err (sortedKeys record \<noteq> ''code,message'') BlockReasonKeys) (\<lambda>_.
          andThen (stringMember (obj_index record ''code'') kebabCodePattern BlockReasonCode) (\<lambda>code.
          andThen (stringMember (obj_index record ''message'') normalized BlockReasonMessage) (\<lambda>message.
            Ok \<lparr>brCode = code, brMessage = message\<rparr>)))
      | _ \<Rightarrow> Err BlockReasonKeys)"

definition snapshotKeys :: "string \<Rightarrow> string" where
  "snapshotKeys phase = (if phase = PhaseBlocked then ''blockedReason,id,maxGoalRounds,objective,phase,revision''
     else ''id,maxGoalRounds,objective,phase,revision'')"

definition decodeSnapshot :: "json \<Rightarrow> (goal_error, goal_snapshot) outcome" where
  "decodeSnapshot v =
     (case v of
        JObj record \<Rightarrow>
          andThen (stringMember (obj_index record ''id'') (\<lambda>id'. id' \<noteq> []) GoalIdEmpty) (\<lambda>id'.
          andThen (stringMember (obj_index record ''objective'') normalized GoalObjective) (\<lambda>objective.
          andThen (stringMember (obj_index record ''phase'') (\<lambda>p. p \<in> set phases) GoalPhaseInvalid) (\<lambda>phase.
          andThen (guard_err (sortedKeys record \<noteq> snapshotKeys phase) (GoalKeys phase)) (\<lambda>_.
          andThen (positiveInteger (obj_index record ''revision'') ''goal.revision'') (\<lambda>revision.
          andThen (positiveInteger (obj_index record ''maxGoalRounds'') ''goal.maxGoalRounds'') (\<lambda>maxGoalRounds.
          (let snapshot = \<lparr>gsID = id', gsRevision = revision, gsObjective = objective, gsPhase = phase,
                 gsBlockedReason = None, gsMaxGoalRounds = maxGoalRounds\<rparr> in
           if phase = PhaseBlocked
           then andThen (decodeBlockReason (obj_index record ''blockedReason'')) (\<lambda>reason. Ok (snapshot\<lparr>gsBlockedReason := Some reason\<rparr>))
           else Ok snapshot)))))))
      | _ \<Rightarrow> Err GoalNotRecord)"

definition decodeRef :: "json \<Rightarrow> (goal_error, goal_ref) outcome" where
  "decodeRef v =
     (case v of
        JObj record \<Rightarrow>
          andThen (guard_err (sortedKeys record \<noteq> ''id,revision'') TombstoneKeys) (\<lambda>_.
          andThen (stringMember (obj_index record ''id'') (\<lambda>id'. id' \<noteq> []) TombstoneId) (\<lambda>id'.
          andThen (positiveInteger (obj_index record ''revision'') ''cleared.revision'') (\<lambda>revision.
            Ok \<lparr>grID = id', grRevision = revision\<rparr>)))
      | _ \<Rightarrow> Err TombstoneKeys)"

definition decodeClear :: "(string \<times> json) list \<Rightarrow> (goal_error, change_meta option) outcome" where
  "decodeClear record =
     andThen (guard_err (sortedKeys record \<noteq> ''cleared,clearedAt,kind,operation,version'') ClearKeys) (\<lambda>_.
     andThen (decodeRef (obj_index record ''cleared'')) (\<lambda>cleared.
     andThen (nonNegativeInteger (obj_index record ''clearedAt'') ''clearedAt'') (\<lambda>clearedAt.
       Ok (Some (newClearChange cleared clearedAt)))))"

definition decodeSnapshotChange :: "(string \<times> json) list \<Rightarrow> (goal_error, change_meta option) outcome" where
  "decodeSnapshotChange record =
     andThen (stringMember (obj_index record ''operation'') (\<lambda>p. p \<in> set snapshotOperations) OperationInvalid) (\<lambda>operation.
     andThen (guard_err (sortedKeys record \<noteq> ''createdAt,goal,kind,operation,roundsStarted,updatedAt,version'') SnapshotKeys) (\<lambda>_.
     andThen (nonNegativeInteger (obj_index record ''createdAt'') ''createdAt'') (\<lambda>createdAt.
     andThen (nonNegativeInteger (obj_index record ''updatedAt'') ''updatedAt'') (\<lambda>updatedAt.
     andThen (guard_err (updatedAt < createdAt) UpdatedBeforeCreated) (\<lambda>_.
     andThen (decodeSnapshot (obj_index record ''goal'')) (\<lambda>snapshot.
     andThen (nonNegativeInteger (obj_index record ''roundsStarted'') ''roundsStarted'') (\<lambda>roundsStarted.
       Ok (Some (newSnapshotChange operation snapshot roundsStarted createdAt updatedAt)))))))))"

definition DecodeGoalChange :: "raw \<Rightarrow> (goal_error, change_meta option) outcome" where
  "DecodeGoalChange raw =
     (case raw of
        Some (JObj record) \<Rightarrow>
          if obj_index record ''kind'' \<noteq> JStr EventChange then Ok None
          else if asInteger (obj_index record ''version'') \<noteq> Some ChangeVersion then Err ChangeVersionUnsupported
          else if obj_index record ''operation'' = JStr OperationClear then decodeClear record
          else decodeSnapshotChange record
      | _ \<Rightarrow> Ok None)"

section \<open>The strict fold\<close>

record fold_state =
  fsGoal :: "goal_snapshot option"
  fsRoundsStarted :: int
  fsCreatedAt :: "int option"
  fsUpdatedAt :: "int option"
  fsLastRef :: "goal_ref option"
  fsSeenGoalIDs :: "string list"

definition EmptyFoldState :: fold_state where
  "EmptyFoldState = \<lparr>fsGoal = None, fsRoundsStarted = 0, fsCreatedAt = None, fsUpdatedAt = None, fsLastRef = None, fsSeenGoalIDs = []\<rparr>"

record goal_message_source =
  gmGoalID :: string
  gmRevision :: int
  gmRound :: int

record source_wire =
  swKind :: string
  swGoalID :: string
  swRevision :: json
  swRound :: json

definition zero_source_wire :: source_wire where
  "zero_source_wire = \<lparr>swKind = [], swGoalID = [], swRevision = JNull, swRound = JNull\<rparr>"

definition dec_source_envelope :: "source_wire decoder" where
  "dec_source_envelope = dec_struct [(''source'', dec_struct
     [(''kind'', fld swKind swKind_update dec_string), (''goalId'', fld swGoalID swGoalID_update dec_string),
      (''revision'', fld swRevision swRevision_update dec_any), (''round'', fld swRound swRound_update dec_any)])]"

definition goalSource :: "raw \<Rightarrow> (goal_error, goal_message_source option) outcome" where
  "goalSource raw =
     (case unmarshal_ok dec_source_envelope zero_source_wire raw of
        None \<Rightarrow> Ok None
      | Some source \<Rightarrow>
          if swKind source \<noteq> ''goal'' then Ok None
          else (case (asInteger (swRevision source), asInteger (swRound source)) of
                  (Some revision, Some round') \<Rightarrow>
                    if swGoalID source = [] \<or> revision < 1 \<or> round' < 1 then Err GoalSourceInvalid
                    else Ok (Some \<lparr>gmGoalID = swGoalID source, gmRevision = revision, gmRound = round'\<rparr>)
                | _ \<Rightarrow> Err GoalSourceInvalid))"

definition requireSameDefinition :: "goal_snapshot \<Rightarrow> goal_snapshot \<Rightarrow> string \<Rightarrow> (goal_error, unit) outcome" where
  "requireSameDefinition current next' operation =
     guard_err (gsObjective next' \<noteq> gsObjective current \<or> gsMaxGoalRounds next' \<noteq> gsMaxGoalRounds current) (DefinitionChanged operation)"

definition requireNextRevision :: "goal_snapshot \<Rightarrow> goal_ref \<Rightarrow> string \<Rightarrow> (goal_error, unit) outcome" where
  "requireNextRevision current next' operation =
     guard_err (grID next' \<noteq> gsID current \<or> grRevision next' \<noteq> i64 (gsRevision current + 1)) (RevisionNotNext operation)"

definition sameBlockReason :: "block_reason option \<Rightarrow> block_reason option \<Rightarrow> bool" where
  "sameBlockReason next' current \<longleftrightarrow>
     (case (next', current) of (Some a, Some b) \<Rightarrow> a = b | (None, None) \<Rightarrow> True | _ \<Rightarrow> False)"

text \<open>The switch on the operation; \<open>rounds\<close> is the state's round counter.\<close>

definition phaseTransition :: "int \<Rightarrow> string \<Rightarrow> goal_snapshot \<Rightarrow> goal_snapshot \<Rightarrow> (goal_error, unit) outcome" where
  "phaseTransition rounds operation current next' =
     (if operation = OperationEdit then
        guard_err (gsPhase next' \<noteq> gsPhase current \<or> \<not> sameBlockReason (gsBlockedReason next') (gsBlockedReason current)) EditChangesPhase
      else if operation = OperationPause then
        andThen (requireSameDefinition current next' operation) (\<lambda>_.
          guard_err (gsPhase current \<noteq> PhaseActive \<or> gsPhase next' \<noteq> PhasePaused) (TransitionInvalid operation))
      else if operation = OperationResume then
        andThen (requireSameDefinition current next' operation) (\<lambda>_.
          guard_err (\<not> (gsPhase current = PhaseActive \<or> gsPhase current = PhasePaused \<or> gsPhase current = PhaseBlocked)
              \<or> gsPhase next' \<noteq> PhaseActive \<or> rounds \<ge> gsMaxGoalRounds next') (TransitionInvalid operation))
      else if operation = OperationComplete then
        andThen (requireSameDefinition current next' operation) (\<lambda>_.
          guard_err (gsPhase current = PhaseComplete \<or> gsPhase next' \<noteq> PhaseComplete) (TransitionInvalid operation))
      else if operation = OperationBlock then
        andThen (requireSameDefinition current next' operation) (\<lambda>_.
          guard_err (gsPhase current \<noteq> PhaseActive \<or> gsPhase next' \<noteq> PhaseBlocked) (TransitionInvalid operation))
      else if operation = OperationCreate then Err CreateAsTransition
      else Err UnknownOperation)"

definition validateSnapshotTransition :: "fold_state \<Rightarrow> change_meta \<Rightarrow> goal_snapshot \<Rightarrow> (goal_error, unit) outcome" where
  "validateSnapshotTransition state change current =
     andThen (deref (cmGoal change)) (\<lambda>next'.
     andThen (requireNextRevision current (snapshotRef next') (cmOperation change)) (\<lambda>_.
     (case fsUpdatedAt state of
        None \<Rightarrow> Err LacksUpdatedAt
      | Some stateUpdated \<Rightarrow>
          andThen (deref (cmCreatedAt change)) (\<lambda>createdAt.
          andThen (deref (fsCreatedAt state)) (\<lambda>stateCreated.
          if createdAt \<noteq> stateCreated then Err (CountersChanged (cmOperation change))
          else andThen (deref (cmUpdatedAt change)) (\<lambda>updatedAt.
          if updatedAt < stateUpdated then Err (CountersChanged (cmOperation change))
          else andThen (deref (cmRoundsStarted change)) (\<lambda>roundsStarted.
          if roundsStarted \<noteq> fsRoundsStarted state then Err (CountersChanged (cmOperation change))
          else phaseTransition (fsRoundsStarted state) (cmOperation change) current next')))))))"

definition installSnapshot :: "fold_state \<Rightarrow> change_meta \<Rightarrow> goal_ref \<Rightarrow> (goal_error, fold_state) outcome" where
  "installSnapshot state change ref =
     andThen (deref (cmGoal change)) (\<lambda>goal.
     andThen (deref (cmCreatedAt change)) (\<lambda>createdAt.
     andThen (deref (cmUpdatedAt change)) (\<lambda>updatedAt.
     andThen (deref (cmRoundsStarted change)) (\<lambda>roundsStarted.
       Ok (state\<lparr>fsGoal := Some goal, fsRoundsStarted := roundsStarted, fsCreatedAt := Some createdAt,
             fsUpdatedAt := Some updatedAt, fsLastRef := Some ref\<rparr>)))))"

definition applyClear :: "fold_state \<Rightarrow> change_meta \<Rightarrow> goal_ref \<Rightarrow> (goal_error, fold_state) outcome" where
  "applyClear state change ref =
     (case fsGoal state of
        None \<Rightarrow> Err (NeedsCurrentGoal OperationClear)
      | Some current \<Rightarrow>
          andThen (requireNextRevision current ref (cmOperation change)) (\<lambda>_.
          (case fsUpdatedAt state of
             None \<Rightarrow> Err LacksUpdatedAt
           | Some updated \<Rightarrow>
               andThen (deref (cmClearedAt change)) (\<lambda>clearedAt.
               if clearedAt < updated then Err ClearBeforeUpdate
               else Ok (state\<lparr>fsGoal := None, fsRoundsStarted := 0, fsCreatedAt := None, fsUpdatedAt := None, fsLastRef := Some ref\<rparr>)))))"

definition createAdmitted :: "fold_state \<Rightarrow> goal_snapshot \<Rightarrow> int \<Rightarrow> bool" where
  "createAdmitted state goal roundsStarted \<longleftrightarrow>
     \<not> (gsRevision goal \<noteq> 1 \<or> gsPhase goal \<noteq> PhaseActive \<or> roundsStarted \<noteq> 0
        \<or> (case fsGoal state of Some g \<Rightarrow> gsPhase g \<noteq> PhaseComplete | None \<Rightarrow> False)
        \<or> gsID goal \<in> set (fsSeenGoalIDs state))"

definition ApplyGoalChange :: "fold_state \<Rightarrow> change_meta \<Rightarrow> (goal_error, fold_state) outcome" where
  "ApplyGoalChange state change =
     andThen (changeRef change) (\<lambda>ref.
     if cmOperation change = OperationClear then applyClear state change ref
     else if cmOperation change = OperationCreate then
       andThen (deref (cmGoal change)) (\<lambda>goal.
       andThen (deref (cmRoundsStarted change)) (\<lambda>roundsStarted.
       if \<not> createAdmitted state goal roundsStarted then Err CreateNotFresh
       else installSnapshot (state\<lparr>fsSeenGoalIDs := gsID goal # fsSeenGoalIDs state\<rparr>) change ref))
     else
       (case fsGoal state of
          None \<Rightarrow> Err (NeedsCurrentGoal (cmOperation change))
        | Some current \<Rightarrow>
            andThen (validateSnapshotTransition state change current) (\<lambda>_. installSnapshot state change ref)))"

definition admitRound :: "fold_state \<Rightarrow> event \<Rightarrow> goal_message_source \<Rightarrow> (goal_error, fold_state) outcome" where
  "admitRound state event source =
     (case fsGoal state of
        None \<Rightarrow> Err (RoundNotNext (evSeq event))
      | Some current \<Rightarrow>
          if gsPhase current \<noteq> PhaseActive \<or> gmGoalID source \<noteq> gsID current \<or> gmRevision source \<noteq> gsRevision current
             \<or> gmRound source \<noteq> i64 (fsRoundsStarted state + 1) \<or> gmRound source > gsMaxGoalRounds current
          then Err (RoundNotNext (evSeq event))
          else Ok (state\<lparr>fsRoundsStarted := gmRound source\<rparr>))"

definition ApplyGoalEvent :: "fold_state \<Rightarrow> event \<Rightarrow> (goal_error, fold_state) outcome" where
  "ApplyGoalEvent state event =
     (if evType event = EventChange then
        andThen (DecodeGoalChange (evData event)) (\<lambda>change.
          case change of None \<Rightarrow> Err (ChangeKindInvalid (evSeq event)) | Some c \<Rightarrow> ApplyGoalChange state c)
      else if evType event = EventUserMessage then
        andThen (goalSource (evData event)) (\<lambda>source.
          case source of None \<Rightarrow> Ok state | Some s \<Rightarrow> admitRound state event s)
      else Ok state)"

definition foldedOf :: "fold_state \<Rightarrow> folded_goal" where
  "foldedOf state = \<lparr>fgGoal = fsGoal state, fgRoundsStarted = fsRoundsStarted state, fgCreatedAt = fsCreatedAt state,
     fgUpdatedAt = fsUpdatedAt state, fgLastRef = fsLastRef state\<rparr>"

definition FoldGoal :: "event list \<Rightarrow> (goal_error, folded_goal) outcome" where
  "FoldGoal events = andThen (foldM ApplyGoalEvent EmptyFoldState events) (\<lambda>state. Ok (foldedOf state))"

section \<open>The projection unit\<close>

definition ApplyGoalProjection :: "goal_projection option \<Rightarrow> event \<Rightarrow> goal_projection option \<times> bool" where
  "ApplyGoalProjection state event =
     (if evType event \<noteq> EventChange then (state, False)
      else case DecodeGoalChange (evData event) of
             Ok (Some change) \<Rightarrow>
               if cmOperation change = OperationClear then (None, state \<noteq> None)
               else (case (cmGoal change, cmRoundsStarted change, cmCreatedAt change, cmUpdatedAt change) of
                       (Some goal, Some roundsStarted, Some createdAt, Some updatedAt) \<Rightarrow>
                         (Some \<lparr>gpGoal = goal, gpRoundsStarted = roundsStarted, gpCreatedAt = createdAt, gpUpdatedAt = updatedAt\<rparr>, True)
                     | _ \<Rightarrow> (state, False))
           | _ \<Rightarrow> (state, False))"

text \<open>\<open>int64(value.(float64))\<close>: truncation; outside the range the result is the one of the amd64 builds.\<close>

definition truncate64 :: "rat \<Rightarrow> int" where
  "truncate64 q = (let n = (if q < 0 then \<lceil>q\<rceil> else \<lfloor>q\<rfloor>) in if in_i64 n then n else min_int64)"

definition floatMember :: "json \<Rightarrow> goal_error \<Rightarrow> (goal_error, int) outcome" where
  "floatMember v e =
     (case v of JInt n \<Rightarrow> Ok (truncate64 (of_int (float_round n))) | JFloat q \<Rightarrow> Ok (truncate64 q) | _ \<Rightarrow> Err e)"

definition decodeProjectionReason :: "(string \<times> json) list \<Rightarrow> (goal_error, block_reason option) outcome" where
  "decodeProjectionReason goalRaw =
     (case obj_index goalRaw ''blockedReason'' of
        JNull \<Rightarrow> Ok None
      | JObj reason \<Rightarrow>
          (case (obj_index reason ''code'', obj_index reason ''message'') of
             (JStr code, JStr message) \<Rightarrow> Ok (Some \<lparr>brCode = code, brMessage = message\<rparr>)
           | _ \<Rightarrow> Err (ProjectionRow ''goal.blockedReason must carry code and message strings''))
      | _ \<Rightarrow> Err (ProjectionRow ''goal.blockedReason must be a record''))"

definition decodeGoalProjection :: "raw \<Rightarrow> (goal_error, goal_projection option) outcome" where
  "decodeGoalProjection raw =
     (case raw of
        Some JNull \<Rightarrow> Ok None
      | Some (JObj record) \<Rightarrow>
          (case obj_index record ''goal'' of
             JObj goalRaw \<Rightarrow>
               andThen (stringMember (obj_index goalRaw ''id'') (\<lambda>x. x \<noteq> []) (ProjectionRow ''goal.id'')) (\<lambda>id'.
               andThen (map_err (\<lambda>_. ProjectionRow ''goal.revision'') (positiveInteger (obj_index goalRaw ''revision'') ''goal.revision'')) (\<lambda>revision.
               andThen (stringMember (obj_index goalRaw ''objective'') (\<lambda>x. x \<noteq> []) (ProjectionRow ''goal.objective'')) (\<lambda>objective.
               andThen (stringMember (obj_index goalRaw ''phase'') (\<lambda>p. p \<in> set phases) (ProjectionRow ''goal.phase'')) (\<lambda>phase.
               andThen (map_err (\<lambda>_. ProjectionRow ''goal.maxGoalRounds'') (positiveInteger (obj_index goalRaw ''maxGoalRounds'') ''goal.maxGoalRounds'')) (\<lambda>maxGoalRounds.
               andThen (decodeProjectionReason goalRaw) (\<lambda>reason.
               andThen (map_err (\<lambda>_. ProjectionRow ''roundsStarted'') (nonNegativeInteger (obj_index record ''roundsStarted'') ''roundsStarted'')) (\<lambda>roundsStarted.
               andThen (floatMember (obj_index record ''createdAt'') (ProjectionRow ''createdAt'')) (\<lambda>createdAt.
               andThen (floatMember (obj_index record ''updatedAt'') (ProjectionRow ''updatedAt'')) (\<lambda>updatedAt.
                 Ok (Some \<lparr>gpGoal = \<lparr>gsID = id', gsRevision = revision, gsObjective = objective, gsPhase = phase,
                     gsBlockedReason = reason, gsMaxGoalRounds = maxGoalRounds\<rparr>,
                   gpRoundsStarted = roundsStarted, gpCreatedAt = createdAt, gpUpdatedAt = updatedAt\<rparr>))))))))))
           | _ \<Rightarrow> Err (ProjectionRow ''lacks a goal record''))
      | _ \<Rightarrow> Err (ProjectionRow ''is not a record''))"

section \<open>Well-formed changes and their codec\<close>

interpretation gl: event_sourced ApplyGoalEvent "\<lambda>ty. ty = EventChange \<or> ty = EventUserMessage"
  by unfold_locales (simp add: ApplyGoalEvent_def)

definition safe_from :: "int \<Rightarrow> int \<Rightarrow> bool" where
  "safe_from lo n \<longleftrightarrow> lo \<le> n \<and> n \<le> maxSafeInteger"

definition reason_wf :: "block_reason \<Rightarrow> bool" where
  "reason_wf b \<longleftrightarrow> kebabCodePattern (brCode b) \<and> normalized (brMessage b)"

definition snapshot_wf :: "goal_snapshot \<Rightarrow> bool" where
  "snapshot_wf g \<longleftrightarrow> gsID g \<noteq> [] \<and> safe_from 1 (gsRevision g) \<and> normalized (gsObjective g) \<and> gsPhase g \<in> set phases
     \<and> safe_from 1 (gsMaxGoalRounds g)
     \<and> (case gsBlockedReason g of None \<Rightarrow> gsPhase g \<noteq> PhaseBlocked | Some b \<Rightarrow> gsPhase g = PhaseBlocked \<and> reason_wf b)"

lemma asInteger_JInt [simp]: "asInteger (JInt n) = (if \<bar>n\<bar> \<le> maxSafeInteger then Some n else None)"
  by (simp add: asInteger_def float_integer_def)

lemma positiveInteger_JInt [simp]: "positiveInteger (JInt n) f = (if safe_from 1 n then Ok n else Err (NotPositive f))"
  by (auto simp: positiveInteger_def safe_from_def maxSafeInteger_def)

lemma nonNegativeInteger_JInt [simp]: "nonNegativeInteger (JInt n) f = (if safe_from 0 n then Ok n else Err (NotNonNegative f))"
  by (auto simp: nonNegativeInteger_def safe_from_def maxSafeInteger_def)

lemma positiveInteger_Ok [outcome_simps]: "positiveInteger v f = Ok n \<longleftrightarrow> asInteger v = Some n \<and> safe_from 1 n"
  using float_integer_bound [of v n] by (auto simp: positiveInteger_def asInteger_def safe_from_def split: option.splits)

lemma nonNegativeInteger_Ok [outcome_simps]: "nonNegativeInteger v f = Ok n \<longleftrightarrow> asInteger v = Some n \<and> safe_from 0 n"
  using float_integer_bound [of v n] by (auto simp: nonNegativeInteger_def asInteger_def safe_from_def split: option.splits)

lemma integers_not_Panic [simp]: "positiveInteger v f \<noteq> Panic" "nonNegativeInteger v f \<noteq> Panic" "stringMember v p e \<noteq> Panic"
  by (auto simp: positiveInteger_def nonNegativeInteger_def stringMember_def split: option.splits json.splits)

lemma stringMember_Ok [outcome_simps]: "stringMember v p e = Ok s \<longleftrightarrow> v = JStr s \<and> p s"
  by (auto simp: stringMember_def split: json.splits)

lemma stringMember_JStr [simp]: "stringMember (JStr s) p e = (if p s then Ok s else Err e)"
  by (simp add: stringMember_def)

lemma sortedKeys_eq: "sortedKeys kvs = join '','' (sort (remdups (map fst kvs)))"
  by (simp add: sortedKeys_def obj_keys_def)

lemma key_fingerprints:
  "join '','' (sort (remdups [''id'', ''revision''])) = ''id,revision''"
  "join '','' (sort (remdups [''code'', ''message''])) = ''code,message''"
  "join '','' (sort (remdups [''id'', ''revision'', ''objective'', ''phase'', ''maxGoalRounds''])) = ''id,maxGoalRounds,objective,phase,revision''"
  "join '','' (sort (remdups [''id'', ''revision'', ''objective'', ''phase'', ''blockedReason'', ''maxGoalRounds''])) = ''blockedReason,id,maxGoalRounds,objective,phase,revision''"
  "join '','' (sort (remdups [''kind'', ''version'', ''operation'', ''cleared'', ''clearedAt''])) = ''cleared,clearedAt,kind,operation,version''"
  "join '','' (sort (remdups [''kind'', ''version'', ''operation'', ''goal'', ''roundsStarted'', ''createdAt'', ''updatedAt''])) = ''createdAt,goal,kind,operation,roundsStarted,updatedAt,version''"
  by code_simp+

lemma obj_index_Nil [simp]: "obj_index [] k = JNull"
  by (simp add: obj_index_def obj_get_def)

lemma obj_index_Cons:
  "k' \<notin> fst ` set kvs \<Longrightarrow> obj_index ((k', x) # kvs) k = (if k = k' then x else obj_index kvs k)"
  using obj_get_None_iff [of k' kvs] by (simp add: obj_index_def obj_get_Cons obj_get_Cons_other)

lemma decodeBlockReason_enc: "decodeBlockReason (enc_block_reason b) = Ok b \<longleftrightarrow> reason_wf b"
  by (auto simp: decodeBlockReason_def enc_block_reason_def mem_def sortedKeys_eq key_fingerprints obj_index_Cons reason_wf_def
      outcome_simps guard_err_def)

lemma decodeRef_enc: "grID r \<noteq> [] \<Longrightarrow> safe_from 1 (grRevision r) \<Longrightarrow> decodeRef (enc_goal_ref r) = Ok r"
  by (simp add: decodeRef_def enc_goal_ref_def mem_def sortedKeys_eq key_fingerprints obj_index_Cons guard_err_def)

lemma decodeSnapshot_enc:
  assumes "snapshot_wf g"
  shows "decodeSnapshot (enc_snapshot g) = Ok g"
proof (cases "gsBlockedReason g")
  case None
  then show ?thesis using assms
    by (cases g) (simp add: decodeSnapshot_def enc_snapshot_def mem_def mem_opt_def sortedKeys_eq key_fingerprints obj_index_Cons
        snapshot_wf_def snapshotKeys_def guard_err_def Let_def)
next
  case (Some b)
  then have "decodeBlockReason (enc_block_reason b) = Ok b" using assms by (simp add: decodeBlockReason_enc snapshot_wf_def)
  then show ?thesis using assms Some
    by (cases g) (simp add: decodeSnapshot_def enc_snapshot_def mem_def mem_opt_def sortedKeys_eq key_fingerprints obj_index_Cons
        snapshot_wf_def snapshotKeys_def guard_err_def Let_def)
qed

definition change_wf :: "change_meta \<Rightarrow> bool" where
  "change_wf c \<longleftrightarrow>
     (if cmOperation c = OperationClear
      then (\<exists>r t. c = newClearChange r t \<and> grID r \<noteq> [] \<and> safe_from 1 (grRevision r) \<and> safe_from 0 t)
      else (\<exists>g n ca ua. c = newSnapshotChange (cmOperation c) g n ca ua \<and> cmOperation c \<in> set snapshotOperations
              \<and> snapshot_wf g \<and> safe_from 0 n \<and> safe_from 0 ca \<and> safe_from 0 ua \<and> ca \<le> ua))"

lemma clear_not_snapshot [simp]: "OperationClear \<notin> set snapshotOperations"
  by (simp add: snapshotOperations_def operation_defs)

lemma decodeSnapshot_wf: "decodeSnapshot v = Ok g \<Longrightarrow> snapshot_wf g"
  by (auto simp: decodeSnapshot_def decodeBlockReason_def snapshot_wf_def reason_wf_def Let_def outcome_simps split: json.splits if_splits)

lemma decodeRef_wf: "decodeRef v = Ok r \<Longrightarrow> grID r \<noteq> [] \<and> safe_from 1 (grRevision r)"
  by (auto simp: decodeRef_def outcome_simps split: json.splits)

lemma newChange_sel [simp]:
  "cmOperation (newClearChange r t) = OperationClear" "cmCleared (newClearChange r t) = Some r" "cmClearedAt (newClearChange r t) = Some t"
  "cmOperation (newSnapshotChange p g n ca ua) = p" "cmGoal (newSnapshotChange p g n ca ua) = Some g"
  "cmRoundsStarted (newSnapshotChange p g n ca ua) = Some n" "cmCreatedAt (newSnapshotChange p g n ca ua) = Some ca"
  "cmUpdatedAt (newSnapshotChange p g n ca ua) = Some ua"
  by (simp_all add: newClearChange_def newSnapshotChange_def)

lemma DecodeGoalChange_wf: "DecodeGoalChange raw = Ok (Some c) \<Longrightarrow> change_wf c"
  using decodeSnapshot_wf decodeRef_wf
  by (fastforce simp: DecodeGoalChange_def decodeClear_def decodeSnapshotChange_def change_wf_def outcome_simps
      split: option.splits json.splits if_splits)

lemma DecodeGoalChange_enc:
  assumes "change_wf c"
  shows "DecodeGoalChange (Some (enc_change_meta c)) = Ok (Some c)"
proof (cases "cmOperation c = OperationClear")
  case True
  then obtain r t where c: "c = newClearChange r t" and wf: "grID r \<noteq> []" "safe_from 1 (grRevision r)" "safe_from 0 t"
    using assms by (auto simp: change_wf_def)
  show ?thesis using decodeRef_enc [OF wf(1,2)] wf(3)
    by (simp add: c DecodeGoalChange_def enc_change_meta_def newClearChange_def mem_def mem_opt_def obj_index_Cons
        ChangeVersion_def maxSafeInteger_def decodeClear_def sortedKeys_eq key_fingerprints guard_err_def)
next
  case False
  then obtain p g n ca ua where c: "c = newSnapshotChange p g n ca ua" and p: "p \<in> set snapshotOperations"
    and wf: "snapshot_wf g" "safe_from 0 n" "safe_from 0 ca" "safe_from 0 ua" "ca \<le> ua"
    using assms by (auto simp: change_wf_def)
  have "p \<noteq> OperationClear" using p by auto
  then show ?thesis using decodeSnapshot_enc [OF wf(1)] wf p
    by (simp add: c DecodeGoalChange_def enc_change_meta_def newSnapshotChange_def mem_def mem_opt_def obj_index_Cons
        ChangeVersion_def maxSafeInteger_def decodeSnapshotChange_def sortedKeys_eq key_fingerprints guard_err_def)
qed

lemma decode_not_Panic [simp]: "DecodeGoalChange raw \<noteq> Panic" "goalSource raw \<noteq> Panic"
  by (auto simp: DecodeGoalChange_def decodeClear_def decodeSnapshotChange_def decodeRef_def decodeSnapshot_def decodeBlockReason_def
      goalSource_def outcome_simps Let_def split: option.splits json.splits)

section \<open>What an accepted log guarantees\<close>

text \<open>The admitted changes and rounds of a log, as their references and numbers.\<close>

definition goal_refs :: "event list \<Rightarrow> goal_ref list" where
  "goal_refs evs = List.map_filter (\<lambda>e. if evType e = EventChange
     then (case DecodeGoalChange (evData e) of
             Ok (Some c) \<Rightarrow> (case changeRef c :: (goal_error, goal_ref) outcome of Ok r \<Rightarrow> Some r | _ \<Rightarrow> None)
           | _ \<Rightarrow> None)
     else None) evs"

definition goal_rounds :: "event list \<Rightarrow> goal_message_source list" where
  "goal_rounds evs = List.map_filter (\<lambda>e. if evType e = EventUserMessage
     then (case goalSource (evData e) of Ok (Some s) \<Rightarrow> Some s | _ \<Rightarrow> None) else None) evs"

definition revisions_of :: "string \<Rightarrow> event list \<Rightarrow> int list" where
  "revisions_of g evs = map grRevision (filter (\<lambda>r. grID r = g) (goal_refs evs))"

definition rounds_of :: "string \<Rightarrow> event list \<Rightarrow> int list" where
  "rounds_of g evs = map gmRound (filter (\<lambda>s. gmGoalID s = g) (goal_rounds evs))"

lemma goal_history_Nil [simp]: "revisions_of g [] = []" "rounds_of g [] = []"
  by (simp_all add: revisions_of_def rounds_of_def goal_refs_def goal_rounds_def List.map_filter_def)

definition state_wf :: "fold_state \<Rightarrow> bool" where
  "state_wf st \<longleftrightarrow> safe_from 0 (fsRoundsStarted st) \<and>
     (case fsGoal st of
        None \<Rightarrow> fsRoundsStarted st = 0 \<and> fsCreatedAt st = None \<and> fsUpdatedAt st = None
      | Some g \<Rightarrow> snapshot_wf g \<and> fsLastRef st = Some (snapshotRef g) \<and> gsID g \<in> set (fsSeenGoalIDs st)
          \<and> (\<exists>ca ua. fsCreatedAt st = Some ca \<and> fsUpdatedAt st = Some ua \<and> safe_from 0 ca \<and> safe_from 0 ua \<and> ca \<le> ua))"

text \<open>Every goal of the log has the revisions and the rounds from one on without a gap; those of the
  current goal end at its revision and at the round counter, and an id not yet seen has none.\<close>

definition history_wf :: "fold_state \<Rightarrow> event list \<Rightarrow> bool" where
  "history_wf st evs \<longleftrightarrow>
     (\<forall>g. \<exists>n k. 0 \<le> n \<and> 0 \<le> k \<and> revisions_of g evs = [1..n] \<and> rounds_of g evs = [1..k]
        \<and> (g \<notin> set (fsSeenGoalIDs st) \<longrightarrow> n = 0 \<and> k = 0) \<and> (g \<in> set (fsSeenGoalIDs st) \<longrightarrow> 1 \<le> n)
        \<and> (\<forall>s. fsGoal st = Some s \<and> gsID s = g \<longrightarrow> n = gsRevision s \<and> k = fsRoundsStarted st))"

definition projects :: "fold_state \<Rightarrow> goal_projection option \<Rightarrow> bool" where
  "projects st p \<longleftrightarrow>
     (case (fsGoal st, p) of
        (None, None) \<Rightarrow> True
      | (Some g, Some q) \<Rightarrow> gpGoal q = g \<and> fsCreatedAt st = Some (gpCreatedAt q) \<and> fsUpdatedAt st = Some (gpUpdatedAt q)
          \<and> safe_from 0 (gpRoundsStarted q) \<and> gpRoundsStarted q \<le> fsRoundsStarted st
      | _ \<Rightarrow> False)"

definition project_log :: "event list \<Rightarrow> goal_projection option" where
  "project_log evs = foldl (\<lambda>p e. fst (ApplyGoalProjection p e)) None evs"

lemma upto_snoc: "0 \<le> n \<Longrightarrow> [1..n + 1] = [1..n] @ [n + 1]"
  by (simp add: upto_rec2)

lemma in_i64_safe: "safe_from 0 n \<Longrightarrow> in_i64 (n + 1)" "safe_from 1 n \<Longrightarrow> in_i64 (n + 1)"
  by (auto simp: safe_from_def in_i64_def maxSafeInteger_def min_int64_def max_int64_def)

text \<open>One accepted change, taken apart.\<close>

lemma apply_change_cases:
  assumes "ApplyGoalChange st c = Ok st'" and "change_wf c" and "state_wf st"
  obtains (clear) r t g where "c = newClearChange r t" "fsGoal st = Some g" "r = \<lparr>grID = gsID g, grRevision = gsRevision g + 1\<rparr>"
      "st' = st\<lparr>fsGoal := None, fsRoundsStarted := 0, fsCreatedAt := None, fsUpdatedAt := None, fsLastRef := Some r\<rparr>"
  | (create) g ca ua where "c = newSnapshotChange OperationCreate g 0 ca ua" "snapshot_wf g" "safe_from 0 ca" "safe_from 0 ua" "ca \<le> ua"
      "gsRevision g = 1" "gsPhase g = PhaseActive" "gsID g \<notin> set (fsSeenGoalIDs st)"
      "\<And>g'. fsGoal st = Some g' \<Longrightarrow> gsPhase g' = PhaseComplete"
      "st' = \<lparr>fsGoal = Some g, fsRoundsStarted = 0, fsCreatedAt = Some ca, fsUpdatedAt = Some ua,
         fsLastRef = Some (snapshotRef g), fsSeenGoalIDs = gsID g # fsSeenGoalIDs st\<rparr>"
  | (advance) p g g' ca ua where "c = newSnapshotChange p g' (fsRoundsStarted st) ca ua" "p \<noteq> OperationCreate" "p \<noteq> OperationClear"
      "fsGoal st = Some g" "snapshot_wf g'" "fsCreatedAt st = Some ca" "safe_from 0 ca" "safe_from 0 ua" "ca \<le> ua" "gsID g' = gsID g"
      "gsRevision g' = gsRevision g + 1"
      "phaseTransition (fsRoundsStarted st) p g g' = Ok ()"
      "st' = st\<lparr>fsGoal := Some g', fsCreatedAt := Some ca, fsUpdatedAt := Some ua, fsLastRef := Some (snapshotRef g')\<rparr>"
proof (cases "cmOperation c = OperationClear")
  case True
  then obtain r t where c: "c = newClearChange r t" using assms(2) by (auto simp: change_wf_def)
  have "applyClear st c r = Ok st'" using assms(1) by (simp add: ApplyGoalChange_def c changeRef_def)
  then obtain g where g: "fsGoal st = Some g" and n: "requireNextRevision g r OperationClear = Ok ()"
    and st': "st' = st\<lparr>fsGoal := None, fsRoundsStarted := 0, fsCreatedAt := None, fsUpdatedAt := None, fsLastRef := Some r\<rparr>"
    by (auto simp: applyClear_def c outcome_simps split: option.splits if_splits)
  have "in_i64 (gsRevision g + 1)" using assms(3) g by (simp add: state_wf_def snapshot_wf_def in_i64_safe)
  then have "r = \<lparr>grID = gsID g, grRevision = gsRevision g + 1\<rparr>"
    using n by (cases r) (simp add: requireNextRevision_def outcome_simps)
  then show ?thesis using clear c g st' by blast
next
  case False
  then obtain p g' n ca ua where c: "c = newSnapshotChange p g' n ca ua" and p: "p \<in> set snapshotOperations"
    and wf: "snapshot_wf g'" "safe_from 0 n" "safe_from 0 ca" "safe_from 0 ua" "ca \<le> ua"
    using assms(2) by (auto simp: change_wf_def)
  have pc: "p \<noteq> OperationClear" using p by auto
  have ref: "changeRef c = (Ok (snapshotRef g') :: (goal_error, goal_ref) outcome)"
    using pc by (simp add: changeRef_def c)
  have inst: "installSnapshot st0 c r = Ok (st0\<lparr>fsGoal := Some g', fsRoundsStarted := n, fsCreatedAt := Some ca,
      fsUpdatedAt := Some ua, fsLastRef := Some r\<rparr>)" for st0 r
    by (simp add: installSnapshot_def c newSnapshotChange_def)
  show ?thesis
  proof (cases "p = OperationCreate")
    case True
    have ad: "createAdmitted st g' n" and st': "Ok st' = installSnapshot (st\<lparr>fsSeenGoalIDs := gsID g' # fsSeenGoalIDs st\<rparr>) c (snapshotRef g')"
      using assms(1) True ref pc
      by (simp_all add: ApplyGoalChange_def c) (simp_all add: newSnapshotChange_def split: if_splits)
    show ?thesis
      using create [of g' ca ua] True c wf ad st' inst by (auto simp: createAdmitted_def split: option.splits)
  next
    case nc: False
    obtain g where g: "fsGoal st = Some g" and v: "validateSnapshotTransition st c g = Ok ()" and st': "Ok st' = installSnapshot st c (snapshotRef g')"
      using assms(1) nc ref pc by (auto simp: ApplyGoalChange_def c outcome_simps split: option.splits)
    have i: "in_i64 (gsRevision g + 1)" using assms(3) g by (simp add: state_wf_def snapshot_wf_def in_i64_safe)
    have "gsID g' = gsID g \<and> gsRevision g' = gsRevision g + 1 \<and> fsCreatedAt st = Some ca \<and> n = fsRoundsStarted st
        \<and> phaseTransition (fsRoundsStarted st) p g g' = Ok ()"
      using v i by (auto simp: validateSnapshotTransition_def requireNextRevision_def snapshotRef_def outcome_simps c deref_def
          split: option.splits if_splits)
    then show ?thesis using advance [of p g' ca ua g] nc pc c g wf st' inst by auto
  qed
qed

lemma apply_event_cases:
  assumes "ApplyGoalEvent st e = Ok st'"
  obtains (change) c where "evType e = EventChange" "DecodeGoalChange (evData e) = Ok (Some c)" "change_wf c" "ApplyGoalChange st c = Ok st'"
  | (round) s where "evType e = EventUserMessage" "goalSource (evData e) = Ok (Some s)" "admitRound st e s = Ok st'"
  | (other) "st' = st" "evType e \<noteq> EventChange" "evType e = EventUserMessage \<Longrightarrow> goalSource (evData e) = Ok None"
proof (cases "evType e = EventChange")
  case True
  then show ?thesis using assms change DecodeGoalChange_wf by (auto simp: ApplyGoalEvent_def outcome_simps split: option.splits)
next
  case False
  show ?thesis
  proof (cases "evType e = EventUserMessage")
    case True
    then obtain x where x: "goalSource (evData e) = Ok x" and r: "(case x of None \<Rightarrow> Ok st | Some s \<Rightarrow> admitRound st e s) = Ok st'"
      using assms False by (auto simp: ApplyGoalEvent_def outcome_simps)
    then show ?thesis using round other True False by (cases x) auto
  next
    case nu: False
    then show ?thesis using other False assms by (simp add: ApplyGoalEvent_def)
  qed
qed

lemma admit_cases:
  assumes "admitRound st e s = Ok st'" and "state_wf st"
  obtains g where "fsGoal st = Some g" "gsPhase g = PhaseActive" "gmGoalID s = gsID g" "gmRevision s = gsRevision g"
    "gmRound s = fsRoundsStarted st + 1" "gmRound s \<le> gsMaxGoalRounds g" "st' = st\<lparr>fsRoundsStarted := fsRoundsStarted st + 1\<rparr>"
proof -
  have "in_i64 (fsRoundsStarted st + 1)" using assms(2) by (simp add: state_wf_def in_i64_safe)
  then show ?thesis using assms(1) that by (auto simp: admitRound_def split: option.splits if_splits)
qed

lemma apply_change_wf:
  assumes "ApplyGoalChange st c = Ok st'" and "change_wf c" and "state_wf st"
  shows "state_wf st'"
  using assms
proof (cases rule: apply_change_cases)
  case (clear r t g)
  then show ?thesis by (simp add: state_wf_def safe_from_def maxSafeInteger_def)
next
  case (create g ca ua)
  then show ?thesis by (simp add: state_wf_def safe_from_def maxSafeInteger_def)
next
  case (advance p g g' ca ua)
  then show ?thesis using assms(3) by (simp add: state_wf_def)
qed

lemma apply_event_wf:
  assumes "ApplyGoalEvent st e = Ok st'" and "state_wf st"
  shows "state_wf st'"
  using assms(1)
proof (cases rule: apply_event_cases)
  case (change c)
  then show ?thesis using apply_change_wf assms(2) by blast
next
  case (round s)
  from round(3) assms(2) show ?thesis
  proof (cases rule: admit_cases)
    case (1 g)
    then show ?thesis using assms(2) by (auto simp: state_wf_def snapshot_wf_def safe_from_def)
  qed
qed (use assms in simp)

lemma fold_wf: "foldM ApplyGoalEvent EmptyFoldState evs = Ok st \<Longrightarrow> state_wf st"
proof (rule foldM_invariant [where I = state_wf])
  show "state_wf EmptyFoldState" by (simp add: state_wf_def EmptyFoldState_def safe_from_def maxSafeInteger_def)
qed (auto intro: apply_event_wf)

text \<open>What one accepted event adds to the histories.\<close>

lemma changeRef_new [simp]:
  "changeRef (newClearChange r t) = Ok r" "p \<noteq> OperationClear \<Longrightarrow> changeRef (newSnapshotChange p g n ca ua) = Ok (snapshotRef g)"
  by (simp_all add: changeRef_def newClearChange_def newSnapshotChange_def)

lemma event_types_differ [simp]: "EventUserMessage \<noteq> EventChange" "EventChange \<noteq> EventUserMessage"
  by (simp_all add: EventChange_def event_type_defs)

lemma history_change:
  assumes "evType e = EventChange" and "DecodeGoalChange (evData e) = Ok (Some c)" and "changeRef c = (Ok r :: (goal_error, goal_ref) outcome)"
  shows "revisions_of g (evs @ [e]) = revisions_of g evs @ (if grID r = g then [grRevision r] else [])"
    and "rounds_of g (evs @ [e]) = rounds_of g evs"
  using assms by (simp_all add: revisions_of_def rounds_of_def goal_refs_def goal_rounds_def List.map_filter_def)

lemma history_round:
  assumes "evType e = EventUserMessage" and "goalSource (evData e) = Ok (Some s)"
  shows "rounds_of g (evs @ [e]) = rounds_of g evs @ (if gmGoalID s = g then [gmRound s] else [])"
    and "revisions_of g (evs @ [e]) = revisions_of g evs"
  using assms by (simp_all add: revisions_of_def rounds_of_def goal_refs_def goal_rounds_def List.map_filter_def)

lemma history_other:
  assumes "evType e \<noteq> EventChange" and "evType e = EventUserMessage \<Longrightarrow> goalSource (evData e) = Ok None"
  shows "rounds_of g (evs @ [e]) = rounds_of g evs" and "revisions_of g (evs @ [e]) = revisions_of g evs"
  using assms by (auto simp: revisions_of_def rounds_of_def goal_refs_def goal_rounds_def List.map_filter_def)

lemma history_wfD:
  assumes "history_wf st evs"
  obtains n k where "0 \<le> n" "0 \<le> k" "revisions_of g evs = [1..n]" "rounds_of g evs = [1..k]"
    "g \<notin> set (fsSeenGoalIDs st) \<Longrightarrow> n = 0 \<and> k = 0" "g \<in> set (fsSeenGoalIDs st) \<Longrightarrow> 1 \<le> n" "\<And>s. fsGoal st = Some s \<Longrightarrow> gsID s = g \<Longrightarrow> n = gsRevision s \<and> k = fsRoundsStarted st"
proof -
  have "\<exists>n k. 0 \<le> n \<and> 0 \<le> k \<and> revisions_of g evs = [1..n] \<and> rounds_of g evs = [1..k]
        \<and> (g \<notin> set (fsSeenGoalIDs st) \<longrightarrow> n = 0 \<and> k = 0) \<and> (g \<in> set (fsSeenGoalIDs st) \<longrightarrow> 1 \<le> n)
        \<and> (\<forall>s. fsGoal st = Some s \<and> gsID s = g \<longrightarrow> n = gsRevision s \<and> k = fsRoundsStarted st)"
    using assms unfolding history_wf_def by blast
  then show ?thesis using that by blast
qed

lemma history_wf_change:
  assumes "history_wf st evs" and "state_wf st" and "evType e = EventChange" and "DecodeGoalChange (evData e) = Ok (Some c)"
    and "change_wf c" and "ApplyGoalChange st c = Ok st'"
  shows "history_wf st' (evs @ [e])"
proof -
  have "\<exists>n k. 0 \<le> n \<and> 0 \<le> k \<and> revisions_of g (evs @ [e]) = [1..n] \<and> rounds_of g (evs @ [e]) = [1..k]
        \<and> (g \<notin> set (fsSeenGoalIDs st') \<longrightarrow> n = 0 \<and> k = 0) \<and> (g \<in> set (fsSeenGoalIDs st') \<longrightarrow> 1 \<le> n)
        \<and> (\<forall>s. fsGoal st' = Some s \<and> gsID s = g \<longrightarrow> n = gsRevision s \<and> k = fsRoundsStarted st')" for g
  proof -
    from assms(1) obtain n k where h: "0 \<le> n" "0 \<le> k" "revisions_of g evs = [1..n]" "rounds_of g evs = [1..k]"
      "g \<notin> set (fsSeenGoalIDs st) \<Longrightarrow> n = 0 \<and> k = 0" "g \<in> set (fsSeenGoalIDs st) \<Longrightarrow> 1 \<le> n" "\<And>s. fsGoal st = Some s \<Longrightarrow> gsID s = g \<Longrightarrow> n = gsRevision s \<and> k = fsRoundsStarted st"
      by (rule history_wfD [where g = g]) blast
    from assms(6,5,2) show ?thesis
    proof (cases rule: apply_change_cases)
      case (clear r t s)
      have seen: "gsID s \<in> set (fsSeenGoalIDs st)" using clear(2) assms(2) by (simp add: state_wf_def)
      show ?thesis
        using history_change [OF assms(3,4), of r g evs] clear h seen upto_snoc [OF h(1)]
        by (intro exI [of _ "if gsID s = g then n + 1 else n"] exI [of _ k]) (auto simp: clear(1,3))
    next
      case (create s ca ua)
      show ?thesis
        using history_change [OF assms(3,4), of "snapshotRef s" g evs] create h upto_snoc [OF h(1)]
        by (intro exI [of _ "if gsID s = g then n + 1 else n"] exI [of _ k])
          (auto simp: create(1) snapshotRef_def operation_defs)
    next
      case (advance p s s' ca ua)
      have seen: "gsID s \<in> set (fsSeenGoalIDs st)" using advance(4) assms(2) by (simp add: state_wf_def)
      show ?thesis
        using history_change [OF assms(3,4), of "snapshotRef s'" g evs] advance h seen upto_snoc [OF h(1)]
        by (intro exI [of _ "if gsID s = g then n + 1 else n"] exI [of _ k]) (auto simp: advance(1) snapshotRef_def)
    qed
  qed
  then show ?thesis by (simp add: history_wf_def)
qed

lemma history_wf_round:
  assumes "history_wf st evs" and "state_wf st" and "evType e = EventUserMessage" and "goalSource (evData e) = Ok (Some src)"
    and "admitRound st e src = Ok st'"
  shows "history_wf st' (evs @ [e])"
proof -
  from assms(5,2) obtain s where s: "fsGoal st = Some s" "gmGoalID src = gsID s" "gmRound src = fsRoundsStarted st + 1"
      "st' = st\<lparr>fsRoundsStarted := fsRoundsStarted st + 1\<rparr>" by (rule admit_cases) blast
  have "\<exists>n k. 0 \<le> n \<and> 0 \<le> k \<and> revisions_of g (evs @ [e]) = [1..n] \<and> rounds_of g (evs @ [e]) = [1..k]
        \<and> (g \<notin> set (fsSeenGoalIDs st') \<longrightarrow> n = 0 \<and> k = 0) \<and> (g \<in> set (fsSeenGoalIDs st') \<longrightarrow> 1 \<le> n)
        \<and> (\<forall>s. fsGoal st' = Some s \<and> gsID s = g \<longrightarrow> n = gsRevision s \<and> k = fsRoundsStarted st')" for g
  proof -
    from assms(1) obtain n k where h: "0 \<le> n" "0 \<le> k" "revisions_of g evs = [1..n]" "rounds_of g evs = [1..k]"
      "g \<notin> set (fsSeenGoalIDs st) \<Longrightarrow> n = 0 \<and> k = 0" "g \<in> set (fsSeenGoalIDs st) \<Longrightarrow> 1 \<le> n" "\<And>s. fsGoal st = Some s \<Longrightarrow> gsID s = g \<Longrightarrow> n = gsRevision s \<and> k = fsRoundsStarted st"
      by (rule history_wfD [where g = g]) blast
    have seen: "gsID s \<in> set (fsSeenGoalIDs st)" using s(1) assms(2) by (simp add: state_wf_def)
    show ?thesis
      using history_round [OF assms(3,4), of g evs] h s seen upto_snoc [OF h(2)]
      by (intro exI [of _ n] exI [of _ "if gsID s = g then k + 1 else k"]) auto
  qed
  then show ?thesis by (simp add: history_wf_def)
qed

lemma fold_snoc_induct [consumes 1, case_names Nil snoc]:
  assumes "foldM f s0 evs = Ok st" and "P s0 []"
    and "\<And>evs st e st'. foldM f s0 evs = Ok st \<Longrightarrow> P st evs \<Longrightarrow> f st e = Ok st' \<Longrightarrow> P st' (evs @ [e])"
  shows "P st evs"
  using assms(1)
proof (induction evs arbitrary: st rule: rev_induct)
  case Nil
  then show ?case using assms(2) by simp
next
  case (snoc e evs)
  then show ?case using assms(3) by (auto simp: foldM_append outcome_simps)
qed

lemma fold_history: "foldM ApplyGoalEvent EmptyFoldState evs = Ok st \<Longrightarrow> history_wf st evs"
proof (induction rule: fold_snoc_induct)
  case Nil
  show ?case by (auto simp: history_wf_def EmptyFoldState_def intro: exI [of _ 0])
next
  case (snoc evs st e st')
  note wf = fold_wf [OF snoc(1)]
  from snoc(2) show ?case
  proof (cases rule: apply_event_cases)
    case (change c)
    then show ?thesis using history_wf_change snoc wf by blast
  next
    case (round s)
    then show ?thesis using history_wf_round snoc wf by blast
  next
    case other
    then show ?thesis using snoc(3) history_other [OF other(2,3)] by (simp add: history_wf_def)
  qed
qed

lemma change_not_Panic:
  assumes "change_wf c" and "state_wf st"
  shows "ApplyGoalChange st c \<noteq> Panic"
proof (cases "cmOperation c = OperationClear")
  case True
  then obtain r t where "c = newClearChange r t" using assms(1) by (auto simp: change_wf_def)
  then show ?thesis by (auto simp: ApplyGoalChange_def applyClear_def requireNextRevision_def outcome_simps split: option.splits)
next
  case False
  then obtain p g n ca ua where c: "c = newSnapshotChange p g n ca ua" "p \<noteq> OperationClear"
    using assms(1) by (auto simp: change_wf_def)
  have "phaseTransition k q a b \<noteq> Panic" for k q a b
    by (auto simp: phaseTransition_def requireSameDefinition_def outcome_simps)
  then have "validateSnapshotTransition st c cur \<noteq> Panic" if "fsGoal st = Some cur" for cur
    using assms(2) that by (auto simp: c validateSnapshotTransition_def requireNextRevision_def state_wf_def outcome_simps split: option.splits)
  moreover have "installSnapshot st0 c r \<noteq> Panic" for st0 r by (simp add: installSnapshot_def c)
  ultimately show ?thesis using c by (auto simp: ApplyGoalChange_def outcome_simps split: option.splits)
qed

lemma event_not_Panic: "state_wf st \<Longrightarrow> ApplyGoalEvent st e \<noteq> Panic"
  using change_not_Panic DecodeGoalChange_wf
  by (auto simp: ApplyGoalEvent_def admitRound_def outcome_simps split: option.splits)

lemma fold_not_Panic: "state_wf st \<Longrightarrow> foldM ApplyGoalEvent st evs \<noteq> Panic"
  by (induction evs arbitrary: st) (auto simp: outcome_simps event_not_Panic dest: apply_event_wf)

section \<open>The projection against the fold\<close>

lemma project_snoc: "project_log (evs @ [e]) = fst (ApplyGoalProjection (project_log evs) e)"
  by (simp add: project_log_def)

lemma projection_change:
  assumes "evType e = EventChange" and "DecodeGoalChange (evData e) = Ok (Some c)"
  shows "fst (ApplyGoalProjection p e) = (if cmOperation c = OperationClear then None
     else (case (cmGoal c, cmRoundsStarted c, cmCreatedAt c, cmUpdatedAt c) of
             (Some goal, Some n, Some ca, Some ua) \<Rightarrow> Some \<lparr>gpGoal = goal, gpRoundsStarted = n, gpCreatedAt = ca, gpUpdatedAt = ua\<rparr>
           | _ \<Rightarrow> p))"
  using assms by (auto simp: ApplyGoalProjection_def split: option.splits)

lemma fold_projects: "foldM ApplyGoalEvent EmptyFoldState evs = Ok st \<Longrightarrow> projects st (project_log evs)"
proof (induction rule: fold_snoc_induct)
  case Nil
  show ?case by (simp add: projects_def EmptyFoldState_def project_log_def)
next
  case (snoc evs st e st')
  note wf = fold_wf [OF snoc(1)]
  from snoc(2) show ?case
  proof (cases rule: apply_event_cases)
    case (change c)
    note pc = projection_change [OF change(1,2), of "project_log evs"]
    from change(4,3) wf show ?thesis
    proof (cases rule: apply_change_cases)
      case (clear r t g)
      then show ?thesis by (simp add: project_snoc pc projects_def)
    next
      case (create g ca ua)
      then show ?thesis by (simp add: project_snoc pc projects_def safe_from_def maxSafeInteger_def operation_defs)
    next
      case (advance p g g' ca ua)
      moreover have "safe_from 0 (fsRoundsStarted st)" using wf by (simp add: state_wf_def)
      ultimately show ?thesis by (simp add: project_snoc pc projects_def)
    qed
  next
    case (round s)
    have "fst (ApplyGoalProjection (project_log evs) e) = project_log evs" using round(1) by (simp add: ApplyGoalProjection_def)
    moreover from round(3) wf have "projects st' (project_log evs)"
    proof (cases rule: admit_cases)
      case (1 g)
      then show ?thesis using snoc(3) by (auto simp: projects_def split: option.splits)
    qed
    ultimately show ?thesis by (simp add: project_snoc)
  next
    case other
    then show ?thesis using snoc(3) by (simp add: project_snoc ApplyGoalProjection_def)
  qed
qed

lemma truncate_safe: "safe_from 0 n \<Longrightarrow> floatMember (JInt n) e = Ok n"
proof -
  assume n: "safe_from 0 n"
  then have "float_round n = n" "in_i64 n"
    by (auto simp: safe_from_def float_round_def maxSafeInteger_def in_i64_def min_int64_def max_int64_def)
  then show ?thesis by (simp add: floatMember_def truncate64_def)
qed

lemma normalized_nonempty: "normalized s \<Longrightarrow> s \<noteq> []"
  by (auto simp: normalized_def)

lemma projection_row:
  assumes "snapshot_wf (gpGoal q)" and "safe_from 0 (gpRoundsStarted q)" and "safe_from 0 (gpCreatedAt q)" and "safe_from 0 (gpUpdatedAt q)"
  shows "decodeGoalProjection (Some (enc_projection (Some q))) = Ok (Some q)"
proof -
  obtain kvs where kvs: "enc_snapshot (gpGoal q) = JObj kvs" by (simp add: enc_snapshot_def)
  have reason: "decodeProjectionReason kvs = Ok (gsBlockedReason (gpGoal q))"
    using kvs by (cases "gsBlockedReason (gpGoal q)")
      (auto simp: enc_snapshot_def decodeProjectionReason_def mem_def mem_opt_def obj_index_Cons enc_block_reason_def)
  have members: "obj_index kvs ''id'' = JStr (gsID (gpGoal q))" "obj_index kvs ''revision'' = JInt (gsRevision (gpGoal q))"
    "obj_index kvs ''objective'' = JStr (gsObjective (gpGoal q))" "obj_index kvs ''phase'' = JStr (gsPhase (gpGoal q))"
    "obj_index kvs ''maxGoalRounds'' = JInt (gsMaxGoalRounds (gpGoal q))"
    using kvs by (cases "gsBlockedReason (gpGoal q)"; auto simp: enc_snapshot_def mem_def mem_opt_def obj_index_Cons)+
  show ?thesis
    using assms reason members normalized_nonempty [of "gsObjective (gpGoal q)"]
    by (simp add: decodeGoalProjection_def enc_projection_def mem_def obj_index_Cons kvs snapshot_wf_def truncate_safe)
qed

section \<open>Properties\<close>

definition demo_goal :: goal_snapshot where
  "demo_goal = \<lparr>gsID = ''g'', gsRevision = 1, gsObjective = ''ship'', gsPhase = PhaseActive, gsBlockedReason = None, gsMaxGoalRounds = 2\<rparr>"

definition demo_change :: "int \<Rightarrow> change_meta \<Rightarrow> event" where
  "demo_change seq c = zero_event\<lparr>evType := EventChange, evSeq := seq, evData := Some (enc_change_meta c)\<rparr>"

definition demo_round :: "int \<Rightarrow> int \<Rightarrow> event" where
  "demo_round seq n = zero_event\<lparr>evType := EventUserMessage, evSeq := seq, evData := Some (JObj [(''source'',
     JObj [(''kind'', JStr ''goal''), (''goalId'', JStr ''g''), (''revision'', JInt 1), (''round'', JInt n)])])\<rparr>"

definition demo_goal_log :: "event list" where
  "demo_goal_log = [demo_change 0 (newSnapshotChange OperationCreate demo_goal 0 5 5), demo_round 1 1,
     demo_change 2 (newSnapshotChange OperationBlock (demo_goal\<lparr>gsRevision := 2, gsPhase := PhaseBlocked,
       gsBlockedReason := Some \<lparr>brCode = ''no-quota'', brMessage = ''wait''\<rparr>\<rparr>) 1 5 6)]"

definition demo_folded :: folded_goal where
  "demo_folded = \<lparr>fgGoal = Some (demo_goal\<lparr>gsRevision := 2, gsPhase := PhaseBlocked,
       gsBlockedReason := Some \<lparr>brCode = ''no-quota'', brMessage = ''wait''\<rparr>\<rparr>), fgRoundsStarted = 1,
     fgCreatedAt = Some 5, fgUpdatedAt = Some 6, fgLastRef = Some \<lparr>grID = ''g'', grRevision = 2\<rparr>\<rparr>"

lemma demo_goal_folds: "FoldGoal demo_goal_log = Ok demo_folded"
  by code_simp

text \<open>A goal change the service writes is read back as it was written, and whatever the decoder accepts is well-formed:
  the reference is a positive safe revision of a non-empty id, a blocked snapshot and no other carries a reason, and
  the times are ordered.\<close>

theorem goal_change_roundtrip:
  "DecodeGoalChange (Some (enc_change_meta c)) = Ok (Some c) \<longleftrightarrow> change_wf c"
  using DecodeGoalChange_enc DecodeGoalChange_wf by blast

lemma goal_history_contiguous_facts:
  assumes "FoldGoal evs = Ok f"
  shows "\<forall>g. revisions_of g evs = [1..int (length (revisions_of g evs))] \<and> rounds_of g evs = [1..int (length (rounds_of g evs))]"
    and "\<forall>g. fgGoal f = Some g \<longrightarrow> snapshot_wf g \<and> last (revisions_of (gsID g) evs) = gsRevision g
       \<and> fgRoundsStarted f = int (length (rounds_of (gsID g) evs)) \<and> fgLastRef f = Some (snapshotRef g)"
    and "\<forall>log'. FoldGoal log' \<noteq> Panic"
proof -
  obtain st where st: "foldM ApplyGoalEvent EmptyFoldState evs = Ok st" and f: "f = foldedOf st"
    using assms by (auto simp: FoldGoal_def outcome_simps)
  note h = fold_history [OF st] and wf = fold_wf [OF st]
  show "\<forall>g. revisions_of g evs = [1..int (length (revisions_of g evs))] \<and> rounds_of g evs = [1..int (length (rounds_of g evs))]"
  proof
    fix g
    from h show "revisions_of g evs = [1..int (length (revisions_of g evs))] \<and> rounds_of g evs = [1..int (length (rounds_of g evs))]"
      by (rule history_wfD [where g = g]) simp
  qed
  show "\<forall>g. fgGoal f = Some g \<longrightarrow> snapshot_wf g \<and> last (revisions_of (gsID g) evs) = gsRevision g
       \<and> fgRoundsStarted f = int (length (rounds_of (gsID g) evs)) \<and> fgLastRef f = Some (snapshotRef g)"
  proof (intro allI impI)
    fix g assume g: "fgGoal f = Some g"
    have r: "snapshot_wf g" "fsLastRef st = Some (snapshotRef g)" using wf g by (simp_all add: f foldedOf_def state_wf_def)
    from h show "snapshot_wf g \<and> last (revisions_of (gsID g) evs) = gsRevision g
       \<and> fgRoundsStarted f = int (length (rounds_of (gsID g) evs)) \<and> fgLastRef f = Some (snapshotRef g)"
    proof (rule history_wfD [where g = "gsID g"])
      fix n k assume a: "0 \<le> n" "0 \<le> k" "revisions_of (gsID g) evs = [1..n]" "rounds_of (gsID g) evs = [1..k]"
        "\<And>s. fsGoal st = Some s \<Longrightarrow> gsID s = gsID g \<Longrightarrow> n = gsRevision s \<and> k = fsRoundsStarted st"
      have "n = gsRevision g \<and> k = fsRoundsStarted st" using a(5) g by (simp add: f foldedOf_def)
      moreover have "1 \<le> gsRevision g" using r by (simp add: snapshot_wf_def safe_from_def)
      ultimately show ?thesis using a r by (simp add: f foldedOf_def upto_rec2)
    qed
  qed
  show "\<forall>log'. FoldGoal log' \<noteq> Panic"
    using fold_not_Panic [OF fold_wf [of "[]" EmptyFoldState]] by (simp add: FoldGoal_def outcome_simps)
qed

text \<open>C34: In a log the fold accepts, the revisions of every goal are 1, 2, 3, and so on without a gap or a repetition, and so are its
  admitted rounds: a reference names at most one state ever, an id is never reused, and the current goal is at the last
  revision and the last round of its history.  The fold never panics, whatever the log holds.\<close>

theorem goal_history_contiguous:
  assumes "FoldGoal evs = Ok f"
  shows "(\<forall>g. revisions_of g evs = [1..int (length (revisions_of g evs))] \<and> rounds_of g evs = [1..int (length (rounds_of g evs))])
    \<and> (\<forall>g. fgGoal f = Some g \<longrightarrow> snapshot_wf g \<and> last (revisions_of (gsID g) evs) = gsRevision g
       \<and> fgRoundsStarted f = int (length (rounds_of (gsID g) evs)) \<and> fgLastRef f = Some (snapshotRef g))
    \<and> (\<forall>log'. FoldGoal log' \<noteq> Panic)"
  using goal_history_contiguous_facts [OF assms] by blast

theorem goal_history_contiguous_witness:
  "length (rounds_of ''g'' demo_goal_log) = 1 \<and> last (revisions_of ''g'' demo_goal_log) = 2 \<and> FoldGoal demo_goal_log \<noteq> Panic"
  using goal_history_contiguous [OF demo_goal_folds] by (simp add: demo_folded_def demo_goal_def)

lemma goal_projection_agrees_facts:
  assumes "FoldGoal evs = Ok f"
  shows "map_option gpGoal (project_log evs) = fgGoal f"
    and "\<forall>q. project_log evs = Some q \<longrightarrow> fgCreatedAt f = Some (gpCreatedAt q) \<and> fgUpdatedAt f = Some (gpUpdatedAt q)
        \<and> 0 \<le> gpRoundsStarted q \<and> gpRoundsStarted q \<le> fgRoundsStarted f"
    and "decodeGoalProjection (Some (enc_projection (project_log evs))) = Ok (project_log evs)"
proof -
  obtain st where st: "foldM ApplyGoalEvent EmptyFoldState evs = Ok st" and f: "f = foldedOf st"
    using assms by (auto simp: FoldGoal_def outcome_simps)
  have p: "projects st (project_log evs)" by (rule fold_projects [OF st])
  show "map_option gpGoal (project_log evs) = fgGoal f"
    using p by (auto simp: projects_def f foldedOf_def split: option.splits)
  show "\<forall>q. project_log evs = Some q \<longrightarrow> fgCreatedAt f = Some (gpCreatedAt q) \<and> fgUpdatedAt f = Some (gpUpdatedAt q)
        \<and> 0 \<le> gpRoundsStarted q \<and> gpRoundsStarted q \<le> fgRoundsStarted f"
    using p by (auto simp: projects_def f foldedOf_def safe_from_def split: option.splits)
  show "decodeGoalProjection (Some (enc_projection (project_log evs))) = Ok (project_log evs)"
  proof (cases "project_log evs")
    case None
    then show ?thesis by (simp add: enc_projection_def decodeGoalProjection_def)
  next
    case (Some q)
    then show ?thesis using p fold_wf [OF st] projection_row [of q]
      by (auto simp: projects_def state_wf_def split: option.splits)
  qed
qed

text \<open>The light projection agrees with the strict fold on every log the fold accepts: it shows the same goal and times, and a round
  counter that never runs ahead; and its persisted row decodes to exactly what was stored.\<close>

theorem goal_projection_agrees:
  assumes "FoldGoal evs = Ok f"
  shows "map_option gpGoal (project_log evs) = fgGoal f
    \<and> (\<forall>q. project_log evs = Some q \<longrightarrow> fgCreatedAt f = Some (gpCreatedAt q) \<and> fgUpdatedAt f = Some (gpUpdatedAt q)
        \<and> 0 \<le> gpRoundsStarted q \<and> gpRoundsStarted q \<le> fgRoundsStarted f)
    \<and> decodeGoalProjection (Some (enc_projection (project_log evs))) = Ok (project_log evs)"
  using goal_projection_agrees_facts [OF assms] by blast

theorem goal_projection_agrees_witness:
  "map_option gpGoal (project_log demo_goal_log) = fgGoal demo_folded
   \<and> decodeGoalProjection (Some (enc_projection (project_log demo_goal_log))) = Ok (project_log demo_goal_log)"
  using goal_projection_agrees [OF demo_goal_folds] by simp

end
