(* ===== verification/Goal_Service.thy ===== *)
theory Goal_Service
  imports Goal_Fold Llm_Assembler
begin

text \<open>
  \<open>goal/service.go\<close>: the goal service, with a cache per session that folds only new events, compare-and-set mutations,
  and process-local activation.  Sessions and agents are objects with an address; a method runs under the service lock and is one step;
  the wall clock and the random bytes of an identity are arguments; the notices of an operation are its second result.  The
  dispatch of notices, the projection registry and the subscription to the session-start edge are the caller's.
  The contract is \<open>goal_spec\<close>, and \<open>goal_service_refines\<close> says that the operations implement it.
\<close>

section \<open>Service state\<close>

definition ActivationArmed :: string where "ActivationArmed = ''armed''"
definition ActivationDisarmed :: string where "ActivationDisarmed = ''disarmed''"

record goal_view =
  gvSnapshot :: goal_snapshot
  gvRoundsStarted :: int
  gvCreatedAt :: int
  gvUpdatedAt :: int
  gvActivation :: string

record goal_changed =
  gcOperation :: string
  gcRef :: goal_ref
  gcGoal :: "goal_view option"

record pending_activation =
  paSeq :: int
  paActivation :: string

record goal_cache =
  caState :: fold_state
  caActivation :: string
  caObservedSeq :: int
  caPendingActivation :: "pending_activation option"

record goal_agent =
  gaAddress :: nat
  gaID :: string
  gaSession :: nat

text \<open>The service with what it works on: the session objects by address, the cache the service keeps for each, and
  the registry of live agents.\<close>

record goal_world =
  gwSessions :: "nat \<Rightarrow> session"
  gwCaches :: "nat \<Rightarrow> goal_cache option"
  gwAgents :: "string \<Rightarrow> goal_agent option"
  gwDefaultMaxGoalRounds :: int

definition CodeAgentNotLive :: string where "CodeAgentNotLive = ''GOAL_AGENT_NOT_LIVE''"
definition CodeNotFound :: string where "CodeNotFound = ''GOAL_NOT_FOUND''"
definition CodeAlreadyExists :: string where "CodeAlreadyExists = ''GOAL_ALREADY_EXISTS''"
definition CodeStaleRevision :: string where "CodeStaleRevision = ''GOAL_STALE_REVISION''"
definition CodeInvalidObjective :: string where "CodeInvalidObjective = ''GOAL_INVALID_OBJECTIVE''"
definition CodeInvalidMaxRounds :: string where "CodeInvalidMaxRounds = ''GOAL_INVALID_MAX_ROUNDS''"
definition CodeInvalidBlockReason :: string where "CodeInvalidBlockReason = ''GOAL_INVALID_BLOCK_REASON''"
definition CodeInvalidEdit :: string where "CodeInvalidEdit = ''GOAL_INVALID_EDIT''"
definition CodeInvalidTransition :: string where "CodeInvalidTransition = ''GOAL_INVALID_TRANSITION''"

lemmas goal_codes = CodeAgentNotLive_def CodeNotFound_def CodeAlreadyExists_def CodeStaleRevision_def CodeInvalidObjective_def
  CodeInvalidMaxRounds_def CodeInvalidBlockReason_def CodeInvalidEdit_def CodeInvalidTransition_def

definition defaultMaxGoalRoundsDefault :: int where "defaultMaxGoalRoundsDefault = 256"

definition resolveMaxGoalRounds :: "int \<Rightarrow> (goal_error, int) outcome" where
  "resolveMaxGoalRounds v = (if v < 1 \<or> v > maxSafeInteger then Err (GoalError CodeInvalidMaxRounds) else Ok v)"

definition resolveObjective :: "string \<Rightarrow> (goal_error, string) outcome" where
  "resolveObjective v = (if TrimSpace v = [] then Err (GoalError CodeInvalidObjective) else Ok (TrimSpace v))"

definition resolveBlockReason :: "block_reason \<Rightarrow> (goal_error, block_reason) outcome" where
  "resolveBlockReason reason =
     (if \<not> kebabCodePattern (brCode reason) \<or> TrimSpace (brMessage reason) = [] then Err (GoalError CodeInvalidBlockReason)
      else Ok \<lparr>brCode = brCode reason, brMessage = TrimSpace (brMessage reason)\<rparr>)"

text \<open>The identity of a new goal, from the sixteen random bytes.\<close>

definition newGoalID :: "8 word list \<Rightarrow> string" where
  "newGoalID random =
     (let b = random[6 := (random ! 6 AND 0x0F) OR 0x40, 8 := (random ! 8 AND 0x3F) OR 0x80];
          part = (\<lambda>i j. hex_bytes (take (j - i) (drop i b)))
      in ''goal-'' @ part 0 4 @ ''-'' @ part 4 6 @ ''-'' @ part 6 8 @ ''-'' @ part 8 10 @ ''-'' @ part 10 16)"

definition NewGoalService :: "(nat \<Rightarrow> session) \<Rightarrow> (string \<Rightarrow> goal_agent option) \<Rightarrow> int option \<Rightarrow> (goal_error, goal_world) outcome" where
  "NewGoalService sessions agents config =
     andThen (resolveMaxGoalRounds (case config of None \<Rightarrow> defaultMaxGoalRoundsDefault | Some n \<Rightarrow> n)) (\<lambda>resolved.
       Ok \<lparr>gwSessions = sessions, gwCaches = (\<lambda>_. None), gwAgents = agents, gwDefaultMaxGoalRounds = resolved\<rparr>)"

section \<open>Caches\<close>

definition assertLive :: "goal_world \<Rightarrow> goal_agent \<Rightarrow> (goal_error, unit) outcome" where
  "assertLive w a = guard_err (gwAgents w (gaID a) \<noteq> Some a) (GoalError CodeAgentNotLive)"

definition cacheLocked :: "goal_world \<Rightarrow> nat \<Rightarrow> goal_world \<times> (goal_error, goal_cache) outcome" where
  "cacheLocked w sess =
     (case gwCaches w sess of
        Some cache \<Rightarrow> (w, Ok cache)
      | None \<Rightarrow>
          (case foldM ApplyGoalEvent EmptyFoldState (sLog (gwSessions w sess)) of
             Ok state \<Rightarrow>
               let cache = \<lparr>caState = state, caActivation = ActivationDisarmed,
                     caObservedSeq = int (length (sLog (gwSessions w sess))), caPendingActivation = None\<rparr>
               in (w\<lparr>gwCaches := (gwCaches w)(sess := Some cache)\<rparr>, Ok cache)
           | Err e \<Rightarrow> (w, Err e)
           | Panic \<Rightarrow> (w, Panic)))"

text \<open>One pass over the new events: the cache is left at the first event the fold refuses.  The observed position
  stays within the log, so its increment cannot wrap around.\<close>

fun syncLoop :: "goal_cache \<Rightarrow> event list \<Rightarrow> goal_cache \<times> (goal_error, unit) outcome" where
  "syncLoop cache [] = (cache, Ok ())"
| "syncLoop cache (event # rest) =
     (case ApplyGoalEvent (caState cache) event of
        Err e \<Rightarrow> (cache, Err e)
      | Panic \<Rightarrow> (cache, Panic)
      | Ok state \<Rightarrow>
          syncLoop (cache\<lparr>caState := state,
             caActivation := (if evType event = EventChange
               then (case caPendingActivation cache of
                       Some pending \<Rightarrow> if paSeq pending = evSeq event then paActivation pending else ActivationDisarmed
                     | None \<Rightarrow> ActivationDisarmed)
               else caActivation cache),
             caObservedSeq := caObservedSeq cache + 1\<rparr>) rest)"

definition syncLocked :: "goal_world \<Rightarrow> nat \<Rightarrow> goal_cache \<Rightarrow> goal_world \<times> (goal_error, goal_cache) outcome" where
  "syncLocked w sess cache =
     (let events = sLog (gwSessions w sess) in
      if caObservedSeq cache < 0 \<or> caObservedSeq cache > int (length events) then (w, Panic)
      else (case syncLoop cache (drop (nat (caObservedSeq cache)) events) of
              (cache', res) \<Rightarrow> (w\<lparr>gwCaches := (gwCaches w)(sess := Some cache')\<rparr>, andThen res (\<lambda>_. Ok cache'))))"

definition view :: "goal_cache \<Rightarrow> (goal_error, goal_view option) outcome" where
  "view cache =
     (case fsGoal (caState cache) of
        None \<Rightarrow> Ok None
      | Some goal \<Rightarrow>
          (case (fsCreatedAt (caState cache), fsUpdatedAt (caState cache)) of
             (Some createdAt, Some updatedAt) \<Rightarrow>
               Ok (Some \<lparr>gvSnapshot = goal, gvRoundsStarted = fsRoundsStarted (caState cache), gvCreatedAt = createdAt,
                 gvUpdatedAt = updatedAt, gvActivation = caActivation cache\<rparr>)
           | _ \<Rightarrow> Err (LacksTimestamps (gsID goal))))"

definition prepareMutationLocked :: "goal_world \<Rightarrow> goal_agent \<Rightarrow> goal_world \<times> (goal_error, goal_cache) outcome" where
  "prepareMutationLocked w a =
     bindW (w, assertLive w a) (\<lambda>w _. bindW (cacheLocked w (gaSession a)) (\<lambda>w cache. syncLocked w (gaSession a) cache))"

definition expectCurrent :: "goal_cache \<Rightarrow> goal_ref \<Rightarrow> (goal_error, goal_snapshot) outcome" where
  "expectCurrent cache ref =
     (case fsGoal (caState cache) of
        None \<Rightarrow> Err (GoalError CodeNotFound)
      | Some current \<Rightarrow>
          if grID ref \<noteq> gsID current \<or> grRevision ref \<noteq> gsRevision current then Err (GoalError CodeStaleRevision) else Ok current)"

definition nextMutationTime :: "int \<Rightarrow> goal_cache \<Rightarrow> int" where
  "nextMutationTime now cache =
     (case fsUpdatedAt (caState cache) of None \<Rightarrow> now | Some updated \<Rightarrow> if now < updated then updated else now)"

section \<open>Commits\<close>

text \<open>The deferred reset of the pending activation runs on every way out.\<close>

definition resetPending :: "goal_world \<Rightarrow> nat \<Rightarrow> goal_world" where
  "resetPending w sess = w\<lparr>gwCaches := (gwCaches w)(sess := map_option (\<lambda>c. c\<lparr>caPendingActivation := None\<rparr>) (gwCaches w sess))\<rparr>"

definition commitLocked ::
    "int \<Rightarrow> goal_world \<Rightarrow> goal_agent \<Rightarrow> goal_cache \<Rightarrow> change_meta \<Rightarrow> string \<Rightarrow> goal_world \<times> (goal_error, goal_cache) outcome" where
  "commitLocked now w a cache change activation =
     (let sess = gaSession a; s = gwSessions w sess;
          cache1 = cache\<lparr>caPendingActivation := Some \<lparr>paSeq = int (length (sLog s)), paActivation = activation\<rparr>\<rparr>;
          w1 = w\<lparr>gwCaches := (gwCaches w)(sess := Some cache1)\<rparr> in
      case Append now s EventChange (Some (enc_change_meta change)) None of
        (s', res) \<Rightarrow>
          let w2 = w1\<lparr>gwSessions := (gwSessions w1)(sess := s')\<rparr>;
              (w3, r) = bindW (w2, map_err GoalAppendFailed res) (\<lambda>w _. syncLocked w sess cache1)
          in (resetPending w3 sess, andThen r (\<lambda>c. Ok (c\<lparr>caPendingActivation := None\<rparr>))))"

definition commitSnapshotLocked ::
    "int \<Rightarrow> goal_world \<Rightarrow> goal_agent \<Rightarrow> goal_cache \<Rightarrow> string \<Rightarrow> goal_snapshot \<Rightarrow> int \<Rightarrow> int \<Rightarrow> int \<Rightarrow> string
       \<Rightarrow> goal_world \<times> (goal_error, goal_view) outcome" where
  "commitSnapshotLocked now w a cache operation goal roundsStarted createdAt updatedAt activation =
     bindW (commitLocked now w a cache (newSnapshotChange operation goal roundsStarted createdAt updatedAt) activation) (\<lambda>w cache.
       (w, andThen (view cache) (\<lambda>v. case v of None \<Rightarrow> Err CommitCleared | Some x \<Rightarrow> Ok x)))"

definition commitCurrentLocked ::
    "int \<Rightarrow> goal_world \<Rightarrow> goal_agent \<Rightarrow> goal_cache \<Rightarrow> string \<Rightarrow> goal_snapshot \<Rightarrow> string \<Rightarrow> goal_world \<times> (goal_error, goal_view) outcome" where
  "commitCurrentLocked now w a cache operation goal activation =
     (case fsCreatedAt (caState cache) of
        None \<Rightarrow> (w, Err LacksCreatedAt)
      | Some createdAt \<Rightarrow>
          commitSnapshotLocked now w a cache operation goal (fsRoundsStarted (caState cache)) createdAt (nextMutationTime now cache) activation)"

definition withPhase :: "goal_snapshot \<Rightarrow> string \<Rightarrow> goal_snapshot" where
  "withPhase current phase = \<lparr>gsID = gsID current, gsRevision = i64 (gsRevision current + 1), gsObjective = gsObjective current,
     gsPhase = phase, gsBlockedReason = None, gsMaxGoalRounds = gsMaxGoalRounds current\<rparr>"

text \<open>The notice of an accepted mutation, dispatched after the lock is released.\<close>

definition emitChanged :: "string \<Rightarrow> goal_world \<times> (goal_error, goal_view) outcome
    \<Rightarrow> goal_world \<times> goal_changed list \<times> (goal_error, goal_view) outcome" where
  "emitChanged operation r =
     (case r of
        (w, Ok v) \<Rightarrow> (w, [\<lparr>gcOperation = operation, gcRef = snapshotRef (gvSnapshot v), gcGoal = Some v\<rparr>], Ok v)
      | (w, res) \<Rightarrow> (w, [], res))"

section \<open>Operations\<close>

definition GetGoal :: "goal_world \<Rightarrow> goal_agent \<Rightarrow> goal_world \<times> (goal_error, goal_view option) outcome" where
  "GetGoal w a = bindW (prepareMutationLocked w a) (\<lambda>w cache. (w, view cache))"

definition Disarm :: "goal_world \<Rightarrow> goal_agent \<Rightarrow> goal_world \<times> (goal_error, goal_view option) outcome" where
  "Disarm w a = bindW (prepareMutationLocked w a) (\<lambda>w cache.
     let cache' = cache\<lparr>caActivation := ActivationDisarmed\<rparr>
     in (w\<lparr>gwCaches := (gwCaches w)(gaSession a := Some cache')\<rparr>, view cache'))"

text \<open>The session-start listener: it does not read new events.\<close>

definition onSessionStart :: "goal_world \<Rightarrow> nat \<Rightarrow> goal_world \<times> (goal_error, unit) outcome" where
  "onSessionStart w sess = bindW (cacheLocked w sess) (\<lambda>w cache.
     (w\<lparr>gwCaches := (gwCaches w)(sess := Some (cache\<lparr>caActivation := ActivationDisarmed\<rparr>))\<rparr>, Ok ()))"

definition CreateGoal ::
    "int \<Rightarrow> 8 word list \<Rightarrow> goal_world \<Rightarrow> goal_agent \<Rightarrow> string \<Rightarrow> int option
       \<Rightarrow> goal_world \<times> goal_changed list \<times> (goal_error, goal_view) outcome" where
  "CreateGoal now random w a requestObjective requestMax = emitChanged OperationCreate
     (bindW (w, resolveObjective requestObjective) (\<lambda>w objective.
      bindW (w, resolveMaxGoalRounds (case requestMax of None \<Rightarrow> gwDefaultMaxGoalRounds w | Some n \<Rightarrow> n)) (\<lambda>w maxGoalRounds.
      bindW (prepareMutationLocked w a) (\<lambda>w cache.
      bindW (w, guard_err (case fsGoal (caState cache) of None \<Rightarrow> False | Some current \<Rightarrow> gsPhase current \<noteq> PhaseComplete)
              (GoalError CodeAlreadyExists)) (\<lambda>w _.
        commitSnapshotLocked now w a cache OperationCreate
          \<lparr>gsID = newGoalID random, gsRevision = 1, gsObjective = objective, gsPhase = PhaseActive, gsBlockedReason = None,
           gsMaxGoalRounds = maxGoalRounds\<rparr> 0 now now ActivationArmed)))))"

text \<open>The part every mutation of the current goal begins with.\<close>

definition withCurrent ::
    "goal_world \<Rightarrow> goal_agent \<Rightarrow> goal_ref \<Rightarrow> (goal_world \<Rightarrow> goal_cache \<Rightarrow> goal_snapshot \<Rightarrow> goal_world \<times> (goal_error, 'a) outcome)
       \<Rightarrow> goal_world \<times> (goal_error, 'a) outcome" where
  "withCurrent w a ref f =
     bindW (prepareMutationLocked w a) (\<lambda>w cache. bindW (w, expectCurrent cache ref) (\<lambda>w current. f w cache current))"

definition editedGoal :: "goal_snapshot \<Rightarrow> string option \<Rightarrow> int option \<Rightarrow> (goal_error, goal_snapshot) outcome" where
  "editedGoal current requestObjective requestMax =
     andThen (guard_err (requestObjective = None \<and> requestMax = None) (GoalError CodeInvalidEdit)) (\<lambda>_.
     andThen (case requestObjective of None \<Rightarrow> Ok (gsObjective current) | Some x \<Rightarrow> resolveObjective x) (\<lambda>objective.
     andThen (case requestMax of None \<Rightarrow> Ok (gsMaxGoalRounds current) | Some n \<Rightarrow> resolveMaxGoalRounds n) (\<lambda>maxGoalRounds.
       Ok (current\<lparr>gsRevision := i64 (gsRevision current + 1), gsObjective := objective, gsMaxGoalRounds := maxGoalRounds\<rparr>))))"

definition EditGoal ::
    "int \<Rightarrow> goal_world \<Rightarrow> goal_agent \<Rightarrow> goal_ref \<Rightarrow> string option \<Rightarrow> int option
       \<Rightarrow> goal_world \<times> goal_changed list \<times> (goal_error, goal_view) outcome" where
  "EditGoal now w a ref requestObjective requestMax = emitChanged OperationEdit
     (withCurrent w a ref (\<lambda>w cache current.
      bindW (w, editedGoal current requestObjective requestMax) (\<lambda>w goal.
        commitCurrentLocked now w a cache OperationEdit goal (caActivation cache))))"

definition transition ::
    "int \<Rightarrow> goal_world \<Rightarrow> goal_agent \<Rightarrow> goal_ref \<Rightarrow> string \<Rightarrow> string list \<Rightarrow> string \<Rightarrow> string
       \<Rightarrow> goal_world \<times> goal_changed list \<times> (goal_error, goal_view) outcome" where
  "transition now w a ref operation allowed phase activation = emitChanged operation
     (withCurrent w a ref (\<lambda>w cache current.
      bindW (w, guard_err (gsPhase current \<notin> set allowed) (GoalError CodeInvalidTransition)) (\<lambda>w _.
        commitCurrentLocked now w a cache operation (withPhase current phase) activation)))"

definition PauseGoal :: "int \<Rightarrow> goal_world \<Rightarrow> goal_agent \<Rightarrow> goal_ref \<Rightarrow> goal_world \<times> goal_changed list \<times> (goal_error, goal_view) outcome" where
  "PauseGoal now w a ref = transition now w a ref OperationPause [PhaseActive] PhasePaused ActivationDisarmed"

definition CompleteGoal :: "int \<Rightarrow> goal_world \<Rightarrow> goal_agent \<Rightarrow> goal_ref \<Rightarrow> goal_world \<times> goal_changed list \<times> (goal_error, goal_view) outcome" where
  "CompleteGoal now w a ref =
     transition now w a ref OperationComplete [PhaseActive, PhasePaused, PhaseBlocked] PhaseComplete ActivationDisarmed"

definition ResumeGoal :: "int \<Rightarrow> goal_world \<Rightarrow> goal_agent \<Rightarrow> goal_ref \<Rightarrow> goal_world \<times> goal_changed list \<times> (goal_error, goal_view) outcome" where
  "ResumeGoal now w a ref = emitChanged OperationResume
     (withCurrent w a ref (\<lambda>w cache current.
      bindW (w, guard_err (gsPhase current \<notin> {PhaseActive, PhasePaused, PhaseBlocked}) (GoalError CodeInvalidTransition)) (\<lambda>w _.
      bindW (w, guard_err (gsPhase current = PhaseActive \<and> caActivation cache = ActivationArmed) (GoalError CodeInvalidTransition)) (\<lambda>w _.
      bindW (w, guard_err (fsRoundsStarted (caState cache) \<ge> gsMaxGoalRounds current) (GoalError CodeInvalidTransition)) (\<lambda>w _.
        commitCurrentLocked now w a cache OperationResume (withPhase current PhaseActive) ActivationArmed)))))"

definition BlockGoal ::
    "int \<Rightarrow> goal_world \<Rightarrow> goal_agent \<Rightarrow> goal_ref \<Rightarrow> block_reason \<Rightarrow> goal_world \<times> goal_changed list \<times> (goal_error, goal_view) outcome" where
  "BlockGoal now w a ref reason = emitChanged OperationBlock
     (bindW (w, resolveBlockReason reason) (\<lambda>w resolved.
      withCurrent w a ref (\<lambda>w cache current.
      bindW (w, guard_err (gsPhase current \<noteq> PhaseActive) (GoalError CodeInvalidTransition)) (\<lambda>w _.
        commitCurrentLocked now w a cache OperationBlock ((withPhase current PhaseBlocked)\<lparr>gsBlockedReason := Some resolved\<rparr>) ActivationDisarmed))))"

definition clearCurrent ::
    "int \<Rightarrow> goal_world \<Rightarrow> goal_agent \<Rightarrow> goal_ref \<Rightarrow> goal_world \<times> (goal_error, goal_ref \<times> goal_view option) outcome" where
  "clearCurrent now w a ref =
     withCurrent w a ref (\<lambda>w cache current.
        let tombstone = \<lparr>grID = gsID current, grRevision = i64 (gsRevision current + 1)\<rparr> in
        bindW (commitLocked now w a cache (newClearChange tombstone (nextMutationTime now cache)) ActivationDisarmed) (\<lambda>w cache.
          (w, andThen (view cache) (\<lambda>v. Ok (tombstone, v)))))"

definition ClearGoal ::
    "int \<Rightarrow> goal_world \<Rightarrow> goal_agent \<Rightarrow> goal_ref \<Rightarrow> goal_world \<times> goal_changed list \<times> (goal_error, goal_ref) outcome" where
  "ClearGoal now w a ref =
     (case clearCurrent now w a ref of
        (w, Ok (tombstone, v)) \<Rightarrow> (w, [\<lparr>gcOperation = OperationClear, gcRef = tombstone, gcGoal = v\<rparr>], Ok tombstone)
      | (w, Err e) \<Rightarrow> (w, [], Err e)
      | (w, Panic) \<Rightarrow> (w, [], Panic))"

definition CreateResult ::
    "int \<Rightarrow> 8 word list \<Rightarrow> goal_world \<Rightarrow> goal_agent \<Rightarrow> string \<Rightarrow> int option
       \<Rightarrow> goal_world \<times> goal_changed list \<times> (goal_error, goal_ref) outcome" where
  "CreateResult now random w a requestObjective requestMax =
     (case CreateGoal now random w a requestObjective requestMax of
        (w, notices, res) \<Rightarrow> (w, notices, andThen res (\<lambda>v. Ok (snapshotRef (gvSnapshot v)))))"

section \<open>Caches describe a prefix of the log\<close>

definition armed_ok :: "goal_cache \<Rightarrow> bool" where
  "armed_ok c \<longleftrightarrow> (caActivation c = ActivationArmed \<longrightarrow> (\<exists>g. fsGoal (caState c) = Some g \<and> gsPhase g = PhaseActive))"

definition cache_ok :: "event list \<Rightarrow> goal_cache \<Rightarrow> bool" where
  "cache_ok evs c \<longleftrightarrow> 0 \<le> caObservedSeq c \<and> caObservedSeq c \<le> int (length evs)
     \<and> foldM ApplyGoalEvent EmptyFoldState (take (nat (caObservedSeq c)) evs) = Ok (caState c)
     \<and> caPendingActivation c = None \<and> armed_ok c"

definition world_ok :: "goal_world \<Rightarrow> bool" where
  "world_ok w \<longleftrightarrow> (\<forall>p. session_inv (gwSessions w p) \<and> (\<forall>c. gwCaches w p = Some c \<longrightarrow> cache_ok (sLog (gwSessions w p)) c))
     \<and> safe_from 1 (gwDefaultMaxGoalRounds w)"

lemma activation_distinct [simp]: "ActivationDisarmed \<noteq> ActivationArmed" "ActivationArmed \<noteq> ActivationDisarmed"
  by (simp_all add: ActivationArmed_def ActivationDisarmed_def)

lemma disarmed_ok [simp]: "caActivation c = ActivationDisarmed \<Longrightarrow> armed_ok c"
  by (simp add: armed_ok_def)

lemma goal_plain [simp]: "plain_type EventChange"
  by (simp add: plain_type_def EventChange_def event_type_defs)

text \<open>A round keeps the goal, so an armed cache stays armed on an active goal.\<close>

lemma round_keeps_goal:
  assumes "ApplyGoalEvent st e = Ok st'" and "evType e \<noteq> EventChange"
  shows "fsGoal st' = fsGoal st"
  using assms(1)
proof (cases rule: apply_event_cases)
  case (round s)
  then show ?thesis by (auto simp: admitRound_def split: if_splits option.splits)
qed (use assms(2) in simp_all)

lemma syncLoop_spec:
  assumes "syncLoop c es = (c', r)"
  shows "\<exists>k \<le> length es. foldM ApplyGoalEvent (caState c) (take k es) = Ok (caState c') \<and> caObservedSeq c' = caObservedSeq c + int k
    \<and> caPendingActivation c' = caPendingActivation c \<and> r = andThen (foldM ApplyGoalEvent (caState c) es) (\<lambda>_. Ok ())
    \<and> (r = Ok () \<longrightarrow> k = length es)"
  using assms
proof (induction c es rule: syncLoop.induct)
  case (2 c e es)
  show ?case
  proof (cases "ApplyGoalEvent (caState c) e")
    case (Ok st)
    let ?c = "c\<lparr>caState := st,
             caActivation := (if evType e = EventChange
               then (case caPendingActivation c of
                       Some pending \<Rightarrow> if paSeq pending = evSeq e then paActivation pending else ActivationDisarmed
                     | None \<Rightarrow> ActivationDisarmed)
               else caActivation c),
             caObservedSeq := caObservedSeq c + 1\<rparr>"
    have "syncLoop ?c es = (c', r)" using 2(2) Ok by simp
    from "2.IH" [OF Ok this] obtain k where "k \<le> length es" "foldM ApplyGoalEvent st (take k es) = Ok (caState c')"
      "caObservedSeq c' = caObservedSeq c + 1 + int k" "caPendingActivation c' = caPendingActivation c"
      "r = andThen (foldM ApplyGoalEvent st es) (\<lambda>_. Ok ())" "r = Ok () \<longrightarrow> k = length es" by auto
    then show ?thesis using Ok by (intro exI [of _ "Suc k"]) auto
  qed (use 2 in \<open>auto intro: exI [of _ 0]\<close>)
qed auto

lemma syncLoop_armed:
  assumes "syncLoop c es = (c', r)" and "caPendingActivation c = None" and "armed_ok c"
  shows "armed_ok c'"
  using assms
proof (induction c es rule: syncLoop.induct)
  case (2 c e es)
  show ?case
  proof (cases "ApplyGoalEvent (caState c) e")
    case (Ok st)
    have "armed_ok (c\<lparr>caState := st, caActivation := (if evType e = EventChange then ActivationDisarmed else caActivation c),
        caObservedSeq := caObservedSeq c + 1\<rparr>)"
      using "2.prems"(3) round_keeps_goal [OF Ok] by (auto simp: armed_ok_def)
    then show ?thesis using "2.IH" [OF Ok] "2.prems" Ok by (simp cong: if_cong)
  qed (use 2 in auto)
qed auto

lemma cache_ok_grow: "cache_ok evs c \<Longrightarrow> cache_ok (evs @ later) c"
  by (auto simp: cache_ok_def nat_le_iff)

lemma sync_cache_ok:
  assumes "cache_ok evs c" and "syncLoop c (drop (nat (caObservedSeq c)) evs) = (c', r)"
  shows "cache_ok evs c'" and "r = andThen (foldM ApplyGoalEvent EmptyFoldState evs) (\<lambda>_. Ok ())"
    and "r = Ok () \<Longrightarrow> foldM ApplyGoalEvent EmptyFoldState evs = Ok (caState c') \<and> caObservedSeq c' = int (length evs)"
proof -
  let ?n = "nat (caObservedSeq c)"
  have c: "0 \<le> caObservedSeq c" "?n \<le> length evs" "foldM ApplyGoalEvent EmptyFoldState (take ?n evs) = Ok (caState c)"
    "caPendingActivation c = None" "armed_ok c" using assms(1) by (auto simp: cache_ok_def)
  have full: "foldM ApplyGoalEvent EmptyFoldState (take ?n evs @ xs) = foldM ApplyGoalEvent (caState c) xs" for xs
    using c(3) by (simp add: foldM_append)
  from syncLoop_spec [OF assms(2)] obtain k where k: "k \<le> length (drop ?n evs)" "foldM ApplyGoalEvent (caState c) (take k (drop ?n evs)) = Ok (caState c')"
      "caObservedSeq c' = caObservedSeq c + int k" "caPendingActivation c' = caPendingActivation c"
      "r = andThen (foldM ApplyGoalEvent (caState c) (drop ?n evs)) (\<lambda>_. Ok ())" "r = Ok () \<longrightarrow> k = length (drop ?n evs)" by blast
  have n': "nat (caObservedSeq c') = ?n + k" using k(3) c(1) by simp
  have "take (?n + k) evs = take ?n evs @ take k (drop ?n evs)" by (simp add: take_add)
  then have f: "foldM ApplyGoalEvent EmptyFoldState (take (nat (caObservedSeq c')) evs) = Ok (caState c')" using n' full k(2) by simp
  show "cache_ok evs c'"
    unfolding cache_ok_def using f k c syncLoop_armed [OF assms(2) c(4,5)] by auto
  show "r = andThen (foldM ApplyGoalEvent EmptyFoldState evs) (\<lambda>_. Ok ())" using full [of "drop ?n evs"] k(5) by simp
  show "foldM ApplyGoalEvent EmptyFoldState evs = Ok (caState c') \<and> caObservedSeq c' = int (length evs)" if "r = Ok ()"
  proof -
    have "nat (caObservedSeq c') = length evs" using that k(6) n' c(2) by simp
    then show ?thesis using f k(3) c(1,2) that k(6) by auto
  qed
qed

lemma world_ok_cache:
  assumes "world_ok w" and "cache_ok (sLog (gwSessions w p)) c"
  shows "world_ok (w\<lparr>gwCaches := (gwCaches w)(p := Some c)\<rparr>)"
  using assms by (auto simp: world_ok_def)

text \<open>Getting hold of a cache: with a log the fold accepts it describes the whole log, otherwise the call fails.\<close>

lemma cacheLocked_spec:
  assumes "world_ok w" and "cacheLocked w p = (w', r)"
  shows "(\<exists>c. r = Ok c \<and> cache_ok (sLog (gwSessions w p)) c \<and> w' = w\<lparr>gwCaches := (gwCaches w)(p := Some c)\<rparr>)
    \<or> (w' = w \<and> gwCaches w p = None \<and> r = andThen (foldM ApplyGoalEvent EmptyFoldState (sLog (gwSessions w p))) (\<lambda>_. Panic) \<and> \<not> is_Ok (foldM ApplyGoalEvent EmptyFoldState (sLog (gwSessions w p))))"
proof (cases "gwCaches w p")
  case (Some c)
  then have "w\<lparr>gwCaches := (gwCaches w)(p := Some c)\<rparr> = w" by (simp add: fun_upd_idem)
  then show ?thesis using assms Some by (auto simp: cacheLocked_def world_ok_def)
next
  case None
  then show ?thesis using assms
    by (cases "foldM ApplyGoalEvent EmptyFoldState (sLog (gwSessions w p))") (auto simp: cacheLocked_def Let_def cache_ok_def)
qed

lemma syncLocked_spec:
  assumes "cache_ok (sLog (gwSessions w p)) c" and "syncLocked w p c = (w', r)"
  shows "\<exists>c'. w' = w\<lparr>gwCaches := (gwCaches w)(p := Some c')\<rparr> \<and> cache_ok (sLog (gwSessions w p)) c'
     \<and> r = andThen (foldM ApplyGoalEvent EmptyFoldState (sLog (gwSessions w p))) (\<lambda>_. Ok c')
     \<and> (\<forall>st. foldM ApplyGoalEvent EmptyFoldState (sLog (gwSessions w p)) = Ok st \<longrightarrow> caState c' = st \<and> caObservedSeq c' = int (length (sLog (gwSessions w p))))"
proof -
  obtain c' q where s: "syncLoop c (drop (nat (caObservedSeq c)) (sLog (gwSessions w p))) = (c', q)" by (metis surj_pair)
  note spec = sync_cache_ok [OF assms(1) s]
  have "w' = w\<lparr>gwCaches := (gwCaches w)(p := Some c')\<rparr>" "r = andThen q (\<lambda>_. Ok c')"
    using assms s by (auto simp: syncLocked_def Let_def cache_ok_def)
  moreover have "caState c' = st \<and> caObservedSeq c' = int (length (sLog (gwSessions w p)))" if "foldM ApplyGoalEvent EmptyFoldState (sLog (gwSessions w p)) = Ok st" for st
    using spec(2,3) that by simp
  ultimately show ?thesis using spec(1,2)
    by (cases "foldM ApplyGoalEvent EmptyFoldState (sLog (gwSessions w p))") auto
qed

lemma prepare_spec:
  assumes "world_ok w" and "gwAgents w (gaID a) = Some a" and "prepareMutationLocked w a = (w', r)"
  shows "world_ok w' \<and> gwSessions w' = gwSessions w \<and> gwAgents w' = gwAgents w \<and> gwDefaultMaxGoalRounds w' = gwDefaultMaxGoalRounds w
    \<and> (case foldM ApplyGoalEvent EmptyFoldState (sLog (gwSessions w (gaSession a))) of
         Ok st \<Rightarrow> \<exists>c. r = Ok c \<and> gwCaches w' = (gwCaches w)(gaSession a := Some c) \<and> cache_ok (sLog (gwSessions w (gaSession a))) c
            \<and> caState c = st \<and> caObservedSeq c = int (length (sLog (gwSessions w (gaSession a))))
       | Err e \<Rightarrow> r = Err e | Panic \<Rightarrow> r = Panic)"
proof -
  let ?p = "gaSession a" and ?evs = "sLog (gwSessions w (gaSession a))"
  obtain w1 r1 where c: "cacheLocked w ?p = (w1, r1)" by (metis surj_pair)
  have p: "prepareMutationLocked w a = bindW (w1, r1) (\<lambda>w cache. syncLocked w ?p cache)"
    using assms(2) c by (simp add: prepareMutationLocked_def assertLive_def guard_err_def)
  from cacheLocked_spec [OF assms(1) c] show ?thesis
  proof
    assume "\<exists>c. r1 = Ok c \<and> cache_ok ?evs c \<and> w1 = w\<lparr>gwCaches := (gwCaches w)(?p := Some c)\<rparr>"
    then obtain c where c1: "r1 = Ok c" "cache_ok ?evs c" "w1 = w\<lparr>gwCaches := (gwCaches w)(?p := Some c)\<rparr>" by blast
    have ok1: "world_ok w1" using world_ok_cache [OF assms(1) c1(2)] c1(3) by simp
    have "syncLocked w1 ?p c = (w', r)" using p c1 assms(3) by simp
    then obtain c' where c': "w' = w1\<lparr>gwCaches := (gwCaches w1)(?p := Some c')\<rparr>" "cache_ok ?evs c'"
      "r = andThen (foldM ApplyGoalEvent EmptyFoldState ?evs) (\<lambda>_. Ok c')"
      "\<forall>st. foldM ApplyGoalEvent EmptyFoldState ?evs = Ok st \<longrightarrow> caState c' = st \<and> caObservedSeq c' = int (length ?evs)"
      using syncLocked_spec [of w1 ?p c w' r] c1 by auto
    have "world_ok w'" using world_ok_cache [OF ok1, of ?p c'] c' c1(3) by simp
    then show ?thesis using c' c1(3)
      by (cases "foldM ApplyGoalEvent EmptyFoldState ?evs") auto
  next
    assume "w1 = w \<and> gwCaches w ?p = None \<and> r1 = andThen (foldM ApplyGoalEvent EmptyFoldState ?evs) (\<lambda>_. Panic) \<and> \<not> is_Ok (foldM ApplyGoalEvent EmptyFoldState ?evs)"
    then show ?thesis using p assms(1,3)
      by (cases "foldM ApplyGoalEvent EmptyFoldState ?evs") auto
  qed
qed

section \<open>Commits\<close>

abbreviation agent_log :: "goal_world \<Rightarrow> goal_agent \<Rightarrow> event list" where
  "agent_log w a \<equiv> sLog (gwSessions w (gaSession a))"

definition ready :: "goal_world \<Rightarrow> goal_agent \<Rightarrow> goal_cache \<Rightarrow> bool" where
  "ready w a c \<longleftrightarrow> world_ok w \<and> gwAgents w (gaID a) = Some a \<and> gwCaches w (gaSession a) = Some c
     \<and> cache_ok (agent_log w a) c \<and> caObservedSeq c = int (length (agent_log w a))
     \<and> foldM ApplyGoalEvent EmptyFoldState (agent_log w a) = Ok (caState c)"

lemma ready_wf: "ready w a c \<Longrightarrow> state_wf (caState c)"
  using fold_wf by (auto simp: ready_def)

text \<open>What an operation leaves alone.\<close>

definition elsewhere :: "goal_agent \<Rightarrow> goal_world \<Rightarrow> goal_world \<Rightarrow> bool" where
  "elsewhere a w w' \<longleftrightarrow> gwAgents w' = gwAgents w \<and> gwDefaultMaxGoalRounds w' = gwDefaultMaxGoalRounds w
     \<and> (\<forall>p. p \<noteq> gaSession a \<longrightarrow> gwSessions w' p = gwSessions w p \<and> gwCaches w' p = gwCaches w p)"

lemma elsewhere_refl [simp]: "elsewhere a w w"
  by (simp add: elsewhere_def)

lemma elsewhere_trans: "elsewhere a w w1 \<Longrightarrow> elsewhere a w1 w2 \<Longrightarrow> elsewhere a w w2"
  by (simp add: elsewhere_def)

lemma prepare_ready:
  assumes "world_ok w" and "gwAgents w (gaID a) = Some a" and "foldM ApplyGoalEvent EmptyFoldState (agent_log w a) = Ok st"
  obtains w1 c where "prepareMutationLocked w a = (w1, Ok c)" "ready w1 a c" "caState c = st" "gwSessions w1 = gwSessions w" "elsewhere a w w1"
proof -
  obtain w1 r where p: "prepareMutationLocked w a = (w1, r)" by (metis surj_pair)
  show ?thesis
    using prepare_spec [OF assms(1,2) p] assms(2,3) p that [of w1] by (auto simp: ready_def elsewhere_def)
qed

lemma syncLoop_pending:
  assumes "ApplyGoalEvent (caState c) e = Ok st" and "evType e = EventChange" and "caPendingActivation c = Some \<lparr>paSeq = evSeq e, paActivation = act\<rparr>"
  shows "syncLoop c [e] = (c\<lparr>caState := st, caActivation := act, caObservedSeq := caObservedSeq c + 1\<rparr>, Ok ())"
  using assms by simp

lemma commit_spec:
  assumes "ready w a c" and e: "e = plain_event (gwSessions w (gaSession a)) now EventChange (enc_change_meta change)"
    and armed: "\<And>st. ApplyGoalEvent (caState c) e = Ok st \<Longrightarrow> act = ActivationArmed \<Longrightarrow> \<exists>g. fsGoal st = Some g \<and> gsPhase g = PhaseActive"
    and run: "commitLocked now w a c change act = (w', r)"
  shows "world_ok w'" and "elsewhere a w w'" and "agent_log w' a = agent_log w a @ [e]"
    and "ApplyGoalEvent (caState c) e = Ok st \<Longrightarrow> \<exists>c'. r = Ok c' \<and> ready w' a c' \<and> caState c' = st \<and> caActivation c' = act"
    and "ApplyGoalEvent (caState c) e = Err x \<Longrightarrow> r = Err x"
proof -
  let ?p = "gaSession a" and ?s = "gwSessions w (gaSession a)"
  have ok: "world_ok w" and live: "gwAgents w (gaID a) = Some a" and cok: "cache_ok (sLog ?s) c"
    and obs: "caObservedSeq c = int (length (sLog ?s))" and fold: "foldM ApplyGoalEvent EmptyFoldState (sLog ?s) = Ok (caState c)"
    using assms(1) by (simp_all add: ready_def)
  have sinv: "session_inv ?s" using ok by (simp add: world_ok_def)
  obtain s' where s': "Append now ?s EventChange (Some (enc_change_meta change)) None = (s', Ok e)" "session_inv s'" "sLog s' = sLog ?s @ [e]"
    using Append_plain [OF sinv goal_plain, of now "enc_change_meta change"] e by blast
  define c1 where "c1 = c\<lparr>caPendingActivation := Some \<lparr>paSeq = int (length (sLog ?s)), paActivation = act\<rparr>\<rparr>"
  define w2 where "w2 = w\<lparr>gwCaches := (gwCaches w)(?p := Some c1), gwSessions := (gwSessions w)(?p := s')\<rparr>"
  have tail: "drop (nat (caObservedSeq c1)) (sLog s') = [e]" "0 \<le> caObservedSeq c1" "caObservedSeq c1 \<le> int (length (sLog s'))"
    using obs s'(3) by (simp_all add: c1_def)
  obtain c2 q where q: "syncLoop c1 [e] = (c2, q)" by (metis surj_pair)
  have sync: "syncLocked w2 ?p c1 = (w2\<lparr>gwCaches := (gwCaches w2)(?p := Some c2)\<rparr>, andThen q (\<lambda>_. Ok c2))"
    using tail q by (simp add: syncLocked_def Let_def w2_def)
  have res: "commitLocked now w a c change act = (resetPending (w2\<lparr>gwCaches := (gwCaches w2)(?p := Some c2)\<rparr>) ?p,
      andThen q (\<lambda>_. Ok (c2\<lparr>caPendingActivation := None\<rparr>)))"
    using s'(1) sync by (cases q) (simp_all add: commitLocked_def Let_def w2_def [symmetric] c1_def [symmetric])
  have w': "w' = w\<lparr>gwCaches := (gwCaches w)(?p := Some (c2\<lparr>caPendingActivation := None\<rparr>)), gwSessions := (gwSessions w)(?p := s')\<rparr>"
    and r: "r = andThen q (\<lambda>_. Ok (c2\<lparr>caPendingActivation := None\<rparr>))"
    using run unfolding res by (auto simp: resetPending_def w2_def)
  have ee: "evType e = EventChange" "evSeq e = int (length (sLog ?s))" by (simp_all add: e)
  have good: "q = Ok () \<and> caState c2 = st \<and> caActivation c2 = act \<and> caObservedSeq c2 = int (length (sLog s'))
     \<and> cache_ok (sLog s') (c2\<lparr>caPendingActivation := None\<rparr>)"
    if st: "ApplyGoalEvent (caState c) e = Ok st" for st
  proof -
    have c2: "c2 = c1\<lparr>caState := st, caActivation := act, caObservedSeq := caObservedSeq c1 + 1\<rparr>" "q = Ok ()"
      using q syncLoop_pending [of c1 e st act] st ee by (simp_all add: c1_def)
    have "foldM ApplyGoalEvent EmptyFoldState (sLog s') = Ok st" using gl.replay_commit [OF fold st] s'(3) by simp
    then show ?thesis using c2 obs s'(3) armed [OF st] by (simp add: c1_def cache_ok_def armed_ok_def)
  qed
  have bad: "q = andThen (ApplyGoalEvent (caState c) e) (\<lambda>_. Ok ()) \<and> c2 = c1" if "\<not> is_Ok (ApplyGoalEvent (caState c) e)"
    using q that by (cases "ApplyGoalEvent (caState c) e") (auto simp: c1_def)
  have cok': "cache_ok (sLog s') (c2\<lparr>caPendingActivation := None\<rparr>)"
  proof (cases "is_Ok (ApplyGoalEvent (caState c) e)")
    case True
    then show ?thesis using good by (auto simp: is_Ok_iff)
  next
    case False
    have "c\<lparr>caPendingActivation := None\<rparr> = c" using cok by (simp add: cache_ok_def)
    then show ?thesis using bad [OF False] cache_ok_grow [OF cok, of "[e]"] s'(3) by (simp add: c1_def)
  qed
  show wok: "world_ok w'" using ok s'(2) cok' by (auto simp: world_ok_def w')
  show "elsewhere a w w'" by (simp add: elsewhere_def w')
  show "agent_log w' a = agent_log w a @ [e]" using s'(3) by (simp add: w')
  show "\<exists>c'. r = Ok c' \<and> ready w' a c' \<and> caState c' = st \<and> caActivation c' = act" if "ApplyGoalEvent (caState c) e = Ok st"
    using good [OF that] wok live cok' gl.replay_commit [OF fold that] s'(3)
    by (intro exI [of _ "c2\<lparr>caPendingActivation := None\<rparr>"]) (simp add: r ready_def w')
  show "r = Err x" if "ApplyGoalEvent (caState c) e = Err x"
    using bad that by (simp add: r)
qed

lemma commit_accepted:
  assumes "ready w a c" and "change_wf change" and "ApplyGoalChange (caState c) change = Ok st"
    and "act = ActivationArmed \<Longrightarrow> \<exists>g. fsGoal st = Some g \<and> gsPhase g = PhaseActive"
  obtains w' c' e where "commitLocked now w a c change act = (w', Ok c')" "ready w' a c'" "caState c' = st" "caActivation c' = act"
    "elsewhere a w w'" "agent_log w' a = agent_log w a @ [e]"
proof -
  define e where "e = plain_event (gwSessions w (gaSession a)) now EventChange (enc_change_meta change)"
  have st: "ApplyGoalEvent (caState c) e = Ok st"
    using DecodeGoalChange_enc [OF assms(2)] assms(3) by (simp add: ApplyGoalEvent_def e_def)
  obtain w' r where run: "commitLocked now w a c change act = (w', r)" by (metis surj_pair)
  have "\<exists>g. fsGoal st' = Some g \<and> gsPhase g = PhaseActive" if "ApplyGoalEvent (caState c) e = Ok st'" "act = ActivationArmed" for st'
    using assms(4) that st by simp
  note spec = commit_spec [OF assms(1) e_def this run]
  then show ?thesis using that [of w' _ e] run spec(4) [OF _ _ st] by blast
qed

lemma view_ready:
  assumes "ready w a c" and "fsGoal (caState c) = Some g"
  obtains v where "view c = Ok (Some v)" "gvSnapshot v = g" "gvActivation v = caActivation c" "gvRoundsStarted v = fsRoundsStarted (caState c)"
    "fsCreatedAt (caState c) = Some (gvCreatedAt v)" "fsUpdatedAt (caState c) = Some (gvUpdatedAt v)"
proof -
  obtain ca ua where "fsCreatedAt (caState c) = Some ca" "fsUpdatedAt (caState c) = Some ua"
    using ready_wf [OF assms(1)] assms(2) by (auto simp: state_wf_def)
  then show ?thesis
    using assms(2) that [of "\<lparr>gvSnapshot = g, gvRoundsStarted = fsRoundsStarted (caState c), gvCreatedAt = ca, gvUpdatedAt = ua,
        gvActivation = caActivation c\<rparr>"] by (simp add: view_def)
qed

text \<open>A snapshot change of the current goal that the switch of the fold accepts is committed.\<close>

lemma commitCurrent_accepted:
  assumes rd: "ready w a c" and g: "fsGoal (caState c) = Some g" and up: "fsUpdatedAt (caState c) = Some u"
    and wf: "snapshot_wf g'" and next': "gsID g' = gsID g" "gsRevision g' = gsRevision g + 1"
    and op: "operation \<in> set snapshotOperations" "operation \<noteq> OperationCreate"
    and ph: "phaseTransition (fsRoundsStarted (caState c)) operation g g' = Ok ()" and now: "safe_from 0 now"
    and act: "act = ActivationArmed \<Longrightarrow> gsPhase g' = PhaseActive"
  obtains w' c' v e where "commitCurrentLocked now w a c operation g' act = (w', Ok v)" "gvSnapshot v = g'" "ready w' a c'" "caActivation c' = act"
    "caState c' = (caState c)\<lparr>fsGoal := Some g', fsUpdatedAt := Some (max now u), fsLastRef := Some (snapshotRef g')\<rparr>"
    "elsewhere a w w'" "agent_log w' a = agent_log w a @ [e]"
proof -
  have swf: "state_wf (caState c)" by (rule ready_wf [OF rd])
  obtain ca where ca: "fsCreatedAt (caState c) = Some ca" "safe_from 0 ca" "safe_from 0 u" "ca \<le> u" "safe_from 0 (fsRoundsStarted (caState c))" "snapshot_wf g"
    using swf g up by (auto simp: state_wf_def)
  have t: "nextMutationTime now c = max now u" using up by (simp add: nextMutationTime_def)
  have tt: "safe_from 0 (max now u)" "ca \<le> max now u" using now ca by (auto simp: safe_from_def)
  define change where "change = newSnapshotChange operation g' (fsRoundsStarted (caState c)) ca (max now u)"
  define st where "st = (caState c)\<lparr>fsGoal := Some g', fsUpdatedAt := Some (max now u), fsLastRef := Some (snapshotRef g')\<rparr>"
  have nc: "operation \<noteq> OperationClear" using op by auto
  have cwf: "change_wf change" using op(1) nc wf ca tt by (auto simp: change_wf_def change_def)
  have i: "in_i64 (gsRevision g + 1)" using ca(6) by (simp add: snapshot_wf_def in_i64_safe)
  have "validateSnapshotTransition (caState c) change g = Ok ()"
    using ph next' i up ca(1) by (simp add: validateSnapshotTransition_def change_def requireNextRevision_def snapshotRef_def guard_err_def)
  moreover have "installSnapshot (caState c) change (snapshotRef g') = Ok st"
    using ca(1) by (simp add: installSnapshot_def change_def st_def)
  ultimately have app: "ApplyGoalChange (caState c) change = Ok st"
    using g nc op(2) by (simp add: ApplyGoalChange_def change_def)
  have ar: "act = ActivationArmed \<Longrightarrow> \<exists>g. fsGoal st = Some g \<and> gsPhase g = PhaseActive" using act by (simp add: st_def)
  obtain w' c' e where cm: "commitLocked now w a c change act = (w', Ok c')" "ready w' a c'" "caState c' = st" "caActivation c' = act"
    "elsewhere a w w'" "agent_log w' a = agent_log w a @ [e]"
    using commit_accepted [OF rd cwf app ar] by blast
  obtain v where v: "view c' = Ok (Some v)" "gvSnapshot v = g'" using view_ready [OF cm(2), of g'] cm(3) by (auto simp: st_def)
  have "commitCurrentLocked now w a c operation g' act = (w', Ok v)"
    using cm(1) v ca(1) t by (simp add: commitCurrentLocked_def commitSnapshotLocked_def change_def)
  then show ?thesis using that [of w' v c' e] cm v by (simp add: st_def)
qed

section \<open>Normalised text\<close>

lemma normalized_Trim: "TrimSpace s \<noteq> [] \<Longrightarrow> normalized (TrimSpace s)"
  by (simp add: normalized_def TrimSpace_idem)

lemma resolveObjective_Ok: "resolveObjective v = Ok x \<Longrightarrow> normalized x"
  by (auto simp: resolveObjective_def normalized_Trim split: if_splits)

lemma resolveMax_Ok: "resolveMaxGoalRounds v = Ok x \<Longrightarrow> safe_from 1 x"
  by (auto simp: resolveMaxGoalRounds_def safe_from_def split: if_splits)

lemma resolve_not_Panic [simp]: "resolveObjective v \<noteq> Panic" "resolveMaxGoalRounds n \<noteq> Panic" "resolveBlockReason b \<noteq> Panic"
  by (auto simp: resolveObjective_def resolveMaxGoalRounds_def resolveBlockReason_def)

section \<open>The contract of the mutations\<close>

text \<open>The commands a holder of a reference can issue, and what they are specified to do to the folded goal: which are
  refused, the next snapshot (none for a clear), and whether automatic continuation is armed afterwards.\<close>

datatype goal_command = CmdEdit "string option" "int option" | CmdPause | CmdResume | CmdComplete | CmdBlock block_reason | CmdClear

fun goal_decision :: "bool \<Rightarrow> int \<Rightarrow> goal_snapshot \<Rightarrow> goal_command \<Rightarrow> (goal_error, goal_snapshot option \<times> bool) outcome" where
  "goal_decision armed rounds g (CmdEdit objective cap) =
     (if objective = None \<and> cap = None then Err (GoalError CodeInvalidEdit)
      else if (\<exists>x. objective = Some x \<and> TrimSpace x = []) then Err (GoalError CodeInvalidObjective)
      else if (\<exists>n. cap = Some n \<and> \<not> safe_from 1 n) then Err (GoalError CodeInvalidMaxRounds)
      else Ok (Some (g\<lparr>gsObjective := (case objective of None \<Rightarrow> gsObjective g | Some x \<Rightarrow> TrimSpace x),
                       gsMaxGoalRounds := (case cap of None \<Rightarrow> gsMaxGoalRounds g | Some n \<Rightarrow> n)\<rparr>), armed))"
| "goal_decision armed rounds g CmdPause =
     (if gsPhase g = PhaseActive then Ok (Some (g\<lparr>gsPhase := PhasePaused, gsBlockedReason := None\<rparr>), False) else Err (GoalError CodeInvalidTransition))"
| "goal_decision armed rounds g CmdResume =
     (if gsPhase g = PhaseComplete \<or> gsPhase g = PhaseActive \<and> armed \<or> rounds \<ge> gsMaxGoalRounds g then Err (GoalError CodeInvalidTransition)
      else Ok (Some (g\<lparr>gsPhase := PhaseActive, gsBlockedReason := None\<rparr>), True))"
| "goal_decision armed rounds g CmdComplete =
     (if gsPhase g = PhaseComplete then Err (GoalError CodeInvalidTransition)
      else Ok (Some (g\<lparr>gsPhase := PhaseComplete, gsBlockedReason := None\<rparr>), False))"
| "goal_decision armed rounds g (CmdBlock b) =
     (if gsPhase g = PhaseActive
      then Ok (Some (g\<lparr>gsPhase := PhaseBlocked, gsBlockedReason := Some (b\<lparr>brMessage := TrimSpace (brMessage b)\<rparr>)\<rparr>), False)
      else Err (GoalError CodeInvalidTransition))"
| "goal_decision armed rounds g CmdClear = Ok (None, False)"

definition goal_spec :: "bool \<Rightarrow> int \<Rightarrow> folded_goal \<Rightarrow> goal_ref \<Rightarrow> goal_command \<Rightarrow> (goal_error, folded_goal \<times> bool) outcome" where
  "goal_spec armed now f ref cmd =
     andThen (case cmd of CmdBlock b \<Rightarrow> guard_err (\<not> kebabCodePattern (brCode b) \<or> TrimSpace (brMessage b) = []) (GoalError CodeInvalidBlockReason)
              | _ \<Rightarrow> Ok ()) (\<lambda>_.
     (case fgGoal f of
        None \<Rightarrow> Err (GoalError CodeNotFound)
      | Some g \<Rightarrow>
          if ref \<noteq> snapshotRef g then Err (GoalError CodeStaleRevision)
          else andThen (goal_decision armed (fgRoundsStarted f) g cmd) (\<lambda>(next', armed').
            let ref' = ref\<lparr>grRevision := grRevision ref + 1\<rparr> in
            Ok (case next' of
                  None \<Rightarrow> \<lparr>fgGoal = None, fgRoundsStarted = 0, fgCreatedAt = None, fgUpdatedAt = None, fgLastRef = Some ref'\<rparr>
                | Some g' \<Rightarrow> f\<lparr>fgGoal := Some (g'\<lparr>gsRevision := gsRevision g + 1\<rparr>), fgUpdatedAt := map_option (max now) (fgUpdatedAt f),
                               fgLastRef := Some ref'\<rparr>, armed'))))"

definition acknowledged :: "goal_world \<times> goal_changed list \<times> (goal_error, 'a) outcome \<Rightarrow> goal_world \<times> goal_changed list \<times> (goal_error, unit) outcome" where
  "acknowledged r = (case r of (w, notices, res) \<Rightarrow> (w, notices, andThen res (\<lambda>_. Ok ())))"

fun run_command :: "int \<Rightarrow> goal_world \<Rightarrow> goal_agent \<Rightarrow> goal_ref \<Rightarrow> goal_command \<Rightarrow> goal_world \<times> goal_changed list \<times> (goal_error, unit) outcome" where
  "run_command now w a ref (CmdEdit objective cap) = acknowledged (EditGoal now w a ref objective cap)"
| "run_command now w a ref CmdPause = acknowledged (PauseGoal now w a ref)"
| "run_command now w a ref CmdResume = acknowledged (ResumeGoal now w a ref)"
| "run_command now w a ref CmdComplete = acknowledged (CompleteGoal now w a ref)"
| "run_command now w a ref (CmdBlock b) = acknowledged (BlockGoal now w a ref b)"
| "run_command now w a ref CmdClear = acknowledged (ClearGoal now w a ref)"

text \<open>Every mutation of the current goal has one shape: a check of the arguments, the current goal, a decision, a commit.\<close>

definition accepted :: "int \<Rightarrow> goal_world \<Rightarrow> goal_agent \<Rightarrow> goal_world \<times> goal_changed list \<times> (goal_error, unit) outcome \<Rightarrow> folded_goal \<Rightarrow> bool \<Rightarrow> bool" where
  "accepted now w a r f' armed' \<longleftrightarrow> (\<exists>w' n c' e. r = (w', [n], Ok ()) \<and> ready w' a c' \<and> foldedOf (caState c') = f'
     \<and> (caActivation c' = ActivationArmed \<longleftrightarrow> armed') \<and> Some (gcRef n) = fgLastRef f' \<and> map_option gvSnapshot (gcGoal n) = fgGoal f'
     \<and> agent_log w' a = agent_log w a @ [e] \<and> elsewhere a w w')"

lemma accepted_shift: "agent_log w1 a = agent_log w a \<Longrightarrow> elsewhere a w w1 \<Longrightarrow> accepted now w1 a r f b \<Longrightarrow> accepted now w a r f b"
  by (auto simp: accepted_def dest: elsewhere_trans)

lemma commit_current_accepted:
  assumes rd: "ready w a c" and g: "fsGoal (caState c) = Some g" and wf: "snapshot_wf (g'\<lparr>gsRevision := gsRevision g + 1\<rparr>)"
    and id: "gsID g' = gsID g" and op: "operation \<in> set snapshotOperations" "operation \<noteq> OperationCreate"
    and ph: "phaseTransition (fsRoundsStarted (caState c)) operation g (g'\<lparr>gsRevision := gsRevision g + 1\<rparr>) = Ok ()" and now: "safe_from 0 now"
    and act: "act = ActivationArmed \<Longrightarrow> gsPhase g' = PhaseActive"
    and f: "f = foldedOf (caState c)"
    and f': "f' = f\<lparr>fgGoal := Some (g'\<lparr>gsRevision := gsRevision g + 1\<rparr>), fgUpdatedAt := map_option (max now) (fgUpdatedAt f),
               fgLastRef := Some \<lparr>grID = gsID g, grRevision = gsRevision g + 1\<rparr>\<rparr>"
  shows "accepted now w a (acknowledged (emitChanged operation (commitCurrentLocked now w a c operation (g'\<lparr>gsRevision := gsRevision g + 1\<rparr>) act)))
     f' (act = ActivationArmed)"
proof -
  obtain u where u: "fsUpdatedAt (caState c) = Some u" using ready_wf [OF rd] g by (auto simp: state_wf_def)
  have act': "act = ActivationArmed \<Longrightarrow> gsPhase (g'\<lparr>gsRevision := gsRevision g + 1\<rparr>) = PhaseActive" using act by simp
  obtain w' c' v e where r: "commitCurrentLocked now w a c operation (g'\<lparr>gsRevision := gsRevision g + 1\<rparr>) act = (w', Ok v)"
    "gvSnapshot v = g'\<lparr>gsRevision := gsRevision g + 1\<rparr>" "ready w' a c'" "caActivation c' = act"
    "caState c' = (caState c)\<lparr>fsGoal := Some (g'\<lparr>gsRevision := gsRevision g + 1\<rparr>), fsUpdatedAt := Some (max now u),
        fsLastRef := Some (snapshotRef (g'\<lparr>gsRevision := gsRevision g + 1\<rparr>))\<rparr>"
    "elsewhere a w w'" "agent_log w' a = agent_log w a @ [e]"
    by (rule commitCurrent_accepted [OF rd g u wf _ _ op ph now act']) (use id in simp_all)
  have "foldedOf (caState c') = f'" using r(5) u id by (simp add: f' f foldedOf_def snapshotRef_def)
  then show ?thesis unfolding accepted_def
    using r id f' by (intro exI [of _ w'] exI [of _ "\<lparr>gcOperation = operation, gcRef = snapshotRef (gvSnapshot v), gcGoal = Some v\<rparr>"]
        exI [of _ c'] exI [of _ e]) (simp add: acknowledged_def emitChanged_def snapshotRef_def)
qed

lemma withCurrent_ready:
  assumes "world_ok w" and "gwAgents w (gaID a) = Some a" and "foldM ApplyGoalEvent EmptyFoldState (agent_log w a) = Ok st"
  obtains w1 c where "ready w1 a c" "caState c = st" "gwSessions w1 = gwSessions w" "elsewhere a w w1"
    "\<And>ref f. withCurrent w a ref f = bindW (w1, expectCurrent c ref :: (goal_error, goal_snapshot) outcome) (\<lambda>w g. f w c g)"
    "GetGoal w a = (w1, view c)"
proof -
  obtain w1 c where p: "prepareMutationLocked w a = (w1, Ok c)" "ready w1 a c" "caState c = st" "gwSessions w1 = gwSessions w" "elsewhere a w w1"
    by (rule prepare_ready [OF assms])
  then show ?thesis using that [of w1 c] by (simp add: withCurrent_def GetGoal_def)
qed

lemma expect_spec: "expectCurrent c ref = (case fsGoal (caState c) of None \<Rightarrow> Err (GoalError CodeNotFound)
    | Some g \<Rightarrow> if ref \<noteq> snapshotRef g then Err (GoalError CodeStaleRevision) else Ok g)"
  by (cases ref) (auto simp: expectCurrent_def snapshotRef_def split: option.splits)

lemma emit_Err [simp]: "acknowledged (emitChanged p (w, Err x)) = (w, [], Err x)"
  by (simp add: acknowledged_def emitChanged_def)

definition refused :: "goal_world \<Rightarrow> goal_agent \<Rightarrow> goal_world \<times> goal_changed list \<times> (goal_error, unit) outcome \<Rightarrow> goal_error \<Rightarrow> bool" where
  "refused w a r x \<longleftrightarrow> (\<exists>w'. r = (w', [], Err x) \<and> gwSessions w' = gwSessions w \<and> elsewhere a w w')"

definition meets :: "int \<Rightarrow> goal_world \<Rightarrow> goal_agent \<Rightarrow> (goal_error, folded_goal \<times> bool) outcome
    \<Rightarrow> goal_world \<times> goal_changed list \<times> (goal_error, unit) outcome \<Rightarrow> bool" where
  "meets now w a spec r \<longleftrightarrow> (case spec of Ok (f', armed') \<Rightarrow> accepted now w a r f' armed' | Err x \<Rightarrow> refused w a r x | Panic \<Rightarrow> False)"

lemma guard_err_cases: "guard_err b e = (if b then Err e else Ok ())"
  by (simp add: guard_err_def)

lemma snapshot_wf_phase:
  "snapshot_wf g \<Longrightarrow> gsRevision g < maxSafeInteger \<Longrightarrow> phase \<in> set phases \<Longrightarrow> phase \<noteq> PhaseBlocked
    \<Longrightarrow> snapshot_wf (g\<lparr>gsPhase := phase, gsBlockedReason := None, gsRevision := gsRevision g + 1\<rparr>)"
  by (auto simp: snapshot_wf_def safe_from_def)

lemma withPhase_eq:
  "snapshot_wf g \<Longrightarrow> withPhase g phase = g\<lparr>gsPhase := phase, gsBlockedReason := None, gsRevision := gsRevision g + 1\<rparr>"
  by (cases g) (simp add: withPhase_def snapshot_wf_def in_i64_safe)

lemma phase_facts [simp]:
  "PhasePaused \<in> set phases" "PhaseComplete \<in> set phases" "PhaseActive \<in> set phases" "PhaseBlocked \<in> set phases" "PhasePaused \<noteq> PhaseBlocked"
  "PhaseComplete \<noteq> PhaseBlocked" "PhaseActive \<noteq> PhaseBlocked" "PhaseActive \<noteq> PhaseComplete" "PhasePaused \<noteq> PhaseActive" "PhaseComplete \<noteq> PhaseActive"
  "PhaseBlocked \<noteq> PhaseActive" "PhasePaused \<noteq> PhaseComplete" "PhaseBlocked \<noteq> PhaseComplete"
  "PhaseComplete \<noteq> PhasePaused" "PhaseBlocked \<noteq> PhasePaused" "PhaseActive \<noteq> PhasePaused"
  by (simp_all add: phases_def phase_defs)

lemma operation_facts [simp]:
  "OperationEdit \<in> set snapshotOperations" "OperationPause \<in> set snapshotOperations" "OperationResume \<in> set snapshotOperations"
  "OperationComplete \<in> set snapshotOperations" "OperationBlock \<in> set snapshotOperations"
  "OperationEdit \<noteq> OperationCreate" "OperationPause \<noteq> OperationCreate" "OperationResume \<noteq> OperationCreate"
  "OperationComplete \<noteq> OperationCreate" "OperationBlock \<noteq> OperationCreate"
  by (simp_all add: snapshotOperations_def operation_defs)

lemma phaseTransition_simps:
  "phaseTransition n OperationEdit g g' = guard_err (gsPhase g' \<noteq> gsPhase g \<or> \<not> sameBlockReason (gsBlockedReason g') (gsBlockedReason g)) EditChangesPhase"
  "phaseTransition n OperationPause g g' = andThen (requireSameDefinition g g' OperationPause) (\<lambda>_.
     guard_err (gsPhase g \<noteq> PhaseActive \<or> gsPhase g' \<noteq> PhasePaused) (TransitionInvalid OperationPause))"
  "phaseTransition n OperationResume g g' = andThen (requireSameDefinition g g' OperationResume) (\<lambda>_.
     guard_err (\<not> (gsPhase g = PhaseActive \<or> gsPhase g = PhasePaused \<or> gsPhase g = PhaseBlocked)
       \<or> gsPhase g' \<noteq> PhaseActive \<or> n \<ge> gsMaxGoalRounds g') (TransitionInvalid OperationResume))"
  "phaseTransition n OperationComplete g g' = andThen (requireSameDefinition g g' OperationComplete) (\<lambda>_.
     guard_err (gsPhase g = PhaseComplete \<or> gsPhase g' \<noteq> PhaseComplete) (TransitionInvalid OperationComplete))"
  "phaseTransition n OperationBlock g g' = andThen (requireSameDefinition g g' OperationBlock) (\<lambda>_.
     guard_err (gsPhase g \<noteq> PhaseActive \<or> gsPhase g' \<noteq> PhaseBlocked) (TransitionInvalid OperationBlock))"
  by (simp_all add: phaseTransition_def operation_defs)

lemma phase_exhaust: "snapshot_wf g \<Longrightarrow> gsPhase g \<noteq> PhaseComplete \<Longrightarrow> gsPhase g = PhaseActive \<or> gsPhase g = PhasePaused \<or> gsPhase g = PhaseBlocked"
  by (auto simp: snapshot_wf_def phases_def)

text \<open>A phase change on the current goal, once the reference was found to be current.\<close>

lemma commit_phase:
  assumes rd: "ready w1 a c" and g: "fsGoal (caState c) = Some g" and rev: "gsRevision g < maxSafeInteger"
    and now: "safe_from 0 now" and op: "operation \<in> {OperationPause, OperationResume, OperationComplete}"
    and ph: "phaseTransition (fsRoundsStarted (caState c)) operation g (withPhase g phase) = Ok ()" and p: "phase \<in> set phases" "phase \<noteq> PhaseBlocked"
    and act: "act = ActivationArmed \<Longrightarrow> phase = PhaseActive"
  shows "accepted now w1 a (acknowledged (emitChanged operation (commitCurrentLocked now w1 a c operation (withPhase g phase) act)))
      ((foldedOf (caState c))\<lparr>fgGoal := Some (g\<lparr>gsPhase := phase, gsBlockedReason := None, gsRevision := gsRevision g + 1\<rparr>),
         fgUpdatedAt := map_option (max now) (fsUpdatedAt (caState c)), fgLastRef := Some \<lparr>grID = gsID g, grRevision = gsRevision g + 1\<rparr>\<rparr>)
      (act = ActivationArmed)"
proof -
  have wf: "snapshot_wf g" using ready_wf [OF rd] g by (simp add: state_wf_def)
  let ?g = "g\<lparr>gsPhase := phase, gsBlockedReason := None\<rparr>"
  have eq: "withPhase g phase = ?g\<lparr>gsRevision := gsRevision g + 1\<rparr>" using withPhase_eq [OF wf] by simp
  show ?thesis
    using commit_current_accepted [OF rd g, of ?g operation now act "foldedOf (caState c)"] snapshot_wf_phase [OF wf rev p] op ph now act
    by (auto simp: eq foldedOf_def)
qed

lemma edit_decision:
  assumes "snapshot_wf g" and "gsRevision g < maxSafeInteger"
  shows "editedGoal g objective cap = andThen (goal_decision armed rounds g (CmdEdit objective cap)) (\<lambda>(next', armed').
      case next' of None \<Rightarrow> Panic | Some g' \<Rightarrow> Ok (g'\<lparr>gsRevision := gsRevision g + 1\<rparr>))"
    and "goal_decision armed rounds g (CmdEdit objective cap) = Ok (Some g', armed') \<Longrightarrow>
      snapshot_wf (g'\<lparr>gsRevision := gsRevision g + 1\<rparr>) \<and> gsID g' = gsID g \<and> gsPhase g' = gsPhase g \<and> gsBlockedReason g' = gsBlockedReason g \<and> armed' = armed"
proof -
  have i: "in_i64 (gsRevision g + 1)" using assms(1) by (simp add: snapshot_wf_def in_i64_safe)
  show "editedGoal g objective cap = andThen (goal_decision armed rounds g (CmdEdit objective cap)) (\<lambda>(next', armed').
      case next' of None \<Rightarrow> Panic | Some g' \<Rightarrow> Ok (g'\<lparr>gsRevision := gsRevision g + 1\<rparr>))"
    using i by (cases objective; cases cap)
      (auto simp: editedGoal_def guard_err_def resolveObjective_def resolveMaxGoalRounds_def safe_from_def not_le)
  show "goal_decision armed rounds g (CmdEdit objective cap) = Ok (Some g', armed') \<Longrightarrow>
      snapshot_wf (g'\<lparr>gsRevision := gsRevision g + 1\<rparr>) \<and> gsID g' = gsID g \<and> gsPhase g' = gsPhase g \<and> gsBlockedReason g' = gsBlockedReason g \<and> armed' = armed"
    using assms by (cases objective; cases cap; cases "gsBlockedReason g") (auto simp: snapshot_wf_def safe_from_def normalized_Trim split: if_splits)
qed

lemma sameBlockReason_refl [simp]: "sameBlockReason b b"
  by (cases b) (simp_all add: sameBlockReason_def)

lemma edit_accepted:
  assumes rd: "ready w1 a c" and g: "fsGoal (caState c) = Some g" and rev: "gsRevision g < maxSafeInteger" and now: "safe_from 0 now"
    and d: "goal_decision (caActivation c = ActivationArmed) rounds g (CmdEdit objective cap) = Ok (Some g', armed')"
  shows "accepted now w1 a (acknowledged (emitChanged OperationEdit (commitCurrentLocked now w1 a c OperationEdit
      (g'\<lparr>gsRevision := gsRevision g + 1\<rparr>) (caActivation c))))
      ((foldedOf (caState c))\<lparr>fgGoal := Some (g'\<lparr>gsRevision := gsRevision g + 1\<rparr>),
         fgUpdatedAt := map_option (max now) (fsUpdatedAt (caState c)), fgLastRef := Some \<lparr>grID = gsID g, grRevision = gsRevision g + 1\<rparr>\<rparr>) armed'"
proof -
  have wf: "snapshot_wf g" using ready_wf [OF rd] g by (simp add: state_wf_def)
  note e = edit_decision(2) [OF wf rev d]
  have "caActivation c = ActivationArmed \<Longrightarrow> gsPhase g' = PhaseActive"
    using rd g e by (auto simp: ready_def cache_ok_def armed_ok_def)
  then show ?thesis
    using commit_current_accepted [OF rd g, of g' OperationEdit now "caActivation c" "foldedOf (caState c)"] e now
    by (simp add: foldedOf_def phaseTransition_simps guard_err_def)
qed

lemma block_accepted:
  assumes rd: "ready w1 a c" and g: "fsGoal (caState c) = Some g" and rev: "gsRevision g < maxSafeInteger" and now: "safe_from 0 now"
    and ph: "gsPhase g = PhaseActive" and b: "reason_wf b"
  shows "accepted now w1 a (acknowledged (emitChanged OperationBlock (commitCurrentLocked now w1 a c OperationBlock
      ((withPhase g PhaseBlocked)\<lparr>gsBlockedReason := Some b\<rparr>) ActivationDisarmed)))
      ((foldedOf (caState c))\<lparr>fgGoal := Some (g\<lparr>gsPhase := PhaseBlocked, gsBlockedReason := Some b, gsRevision := gsRevision g + 1\<rparr>),
         fgUpdatedAt := map_option (max now) (fsUpdatedAt (caState c)), fgLastRef := Some \<lparr>grID = gsID g, grRevision = gsRevision g + 1\<rparr>\<rparr>) False"
proof -
  have wf: "snapshot_wf g" using ready_wf [OF rd] g by (simp add: state_wf_def)
  let ?g = "g\<lparr>gsPhase := PhaseBlocked, gsBlockedReason := Some b\<rparr>"
  have eq: "(withPhase g PhaseBlocked)\<lparr>gsBlockedReason := Some b\<rparr> = ?g\<lparr>gsRevision := gsRevision g + 1\<rparr>" using withPhase_eq [OF wf] by simp
  have "snapshot_wf (?g\<lparr>gsRevision := gsRevision g + 1\<rparr>)" using wf rev b by (auto simp: snapshot_wf_def safe_from_def)
  then show ?thesis
    using commit_current_accepted [OF rd g, of ?g OperationBlock now ActivationDisarmed "foldedOf (caState c)"] now ph
    by (simp add: eq foldedOf_def phaseTransition_simps requireSameDefinition_def guard_err_def)
qed

lemma change_wf_clear: "grID r \<noteq> [] \<Longrightarrow> safe_from 1 (grRevision r) \<Longrightarrow> safe_from 0 t \<Longrightarrow> change_wf (newClearChange r t)"
  by (auto simp: change_wf_def)

lemma clear_accepted:
  assumes rd: "ready w1 a c" and g: "fsGoal (caState c) = Some g" and rev: "gsRevision g < maxSafeInteger" and now: "safe_from 0 now"
    and t: "t = \<lparr>grID = gsID g, grRevision = gsRevision g + 1\<rparr>"
  obtains w' c' e where "commitLocked now w1 a c (newClearChange t (nextMutationTime now c)) ActivationDisarmed = (w', Ok c')"
    "ready w' a c'" "caActivation c' = ActivationDisarmed" "elsewhere a w1 w'" "agent_log w' a = agent_log w1 a @ [e]"
    "foldedOf (caState c') = \<lparr>fgGoal = None, fgRoundsStarted = 0, fgCreatedAt = None, fgUpdatedAt = None, fgLastRef = Some t\<rparr>"
proof -
  have swf: "state_wf (caState c)" by (rule ready_wf [OF rd])
  obtain u where u: "fsUpdatedAt (caState c) = Some u" "safe_from 0 u" "snapshot_wf g" using swf g by (auto simp: state_wf_def)
  have n: "nextMutationTime now c = max now u" using u by (simp add: nextMutationTime_def)
  have i: "in_i64 (gsRevision g + 1)" using u(3) by (simp add: snapshot_wf_def in_i64_safe)
  let ?c = "newClearChange t (max now u)"
  have cwf: "change_wf ?c" using u rev now t by (intro change_wf_clear) (auto simp: snapshot_wf_def safe_from_def)
  have app: "ApplyGoalChange (caState c) ?c = Ok ((caState c)\<lparr>fsGoal := None, fsRoundsStarted := 0, fsCreatedAt := None, fsUpdatedAt := None, fsLastRef := Some t\<rparr>)"
    using g u i by (simp add: ApplyGoalChange_def applyClear_def requireNextRevision_def t guard_err_def)
  show ?thesis
    by (rule commit_accepted [OF rd cwf app, of ActivationDisarmed now]) (use that n in \<open>auto simp: foldedOf_def\<close>)
qed

lemma command_meets_current:
  assumes rd: "ready w1 a c" and g: "fsGoal (caState c) = Some g" and rev: "gsRevision g < maxSafeInteger" and now: "safe_from 0 now"
    and wc: "\<And>f. withCurrent w a (snapshotRef g) f = (f w1 c g :: goal_world \<times> (goal_error, goal_view) outcome)"
    and wc2: "\<And>f. withCurrent w a (snapshotRef g) f = (f w1 c g :: goal_world \<times> (goal_error, goal_ref \<times> goal_view option) outcome)"
  shows "meets now w1 a (goal_spec (caActivation c = ActivationArmed) now (foldedOf (caState c)) (snapshotRef g) cmd) (run_command now w a (snapshotRef g) cmd)
     \<or> (\<exists>b. cmd = CmdBlock b \<and> \<not> is_Ok (resolveBlockReason b))"
proof -
  have wf: "snapshot_wf g" using ready_wf [OF rd] g by (simp add: state_wf_def)
  have i: "i64 (gsRevision g + 1) = gsRevision g + 1" using wf by (simp add: snapshot_wf_def in_i64_safe)
  have f: "fgGoal (foldedOf (caState c)) = Some g" "fgRoundsStarted (foldedOf (caState c)) = fsRoundsStarted (caState c)"
    "fgUpdatedAt (foldedOf (caState c)) = fsUpdatedAt (caState c)" using g by (simp_all add: foldedOf_def)
  have ref: "(snapshotRef g)\<lparr>grRevision := grRevision (snapshotRef g) + 1\<rparr> = \<lparr>grID = gsID g, grRevision = gsRevision g + 1\<rparr>" by (simp add: snapshotRef_def)
  note defs = meets_def goal_spec_def f ref wc Let_def guard_err_def refused_def
  show ?thesis
  proof (cases cmd)
    case (CmdEdit objective cap)
    show ?thesis
    proof (cases "goal_decision (caActivation c = ActivationArmed) (fsRoundsStarted (caState c)) g (CmdEdit objective cap)")
      case (Ok r)
      then obtain g' armed' where d: "goal_decision (caActivation c = ActivationArmed) (fsRoundsStarted (caState c)) g (CmdEdit objective cap) = Ok (Some g', armed')"
        by (auto split: if_splits)
      have "editedGoal g objective cap = Ok (g'\<lparr>gsRevision := gsRevision g + 1\<rparr>)"
        using edit_decision(1) [OF wf rev, of objective cap "caActivation c = ActivationArmed" "fsRoundsStarted (caState c)"] d by simp
      then show ?thesis
        using edit_accepted [OF rd g rev now d] d CmdEdit by (simp add: defs EditGoal_def del: goal_decision.simps)
    next
      case (Err x)
      have "editedGoal g objective cap = Err x"
        using edit_decision(1) [OF wf rev, of objective cap "caActivation c = ActivationArmed" "fsRoundsStarted (caState c)"] Err by simp
      then show ?thesis using Err CmdEdit by (simp add: defs EditGoal_def del: goal_decision.simps)
    qed (simp split: if_splits)
  next
    case CmdPause
    have "phaseTransition (fsRoundsStarted (caState c)) OperationPause g (withPhase g PhasePaused) = Ok ()" if "gsPhase g = PhaseActive"
      using that by (simp add: phaseTransition_simps requireSameDefinition_def withPhase_def guard_err_def)
    then show ?thesis using commit_phase [OF rd g rev now, of OperationPause PhasePaused ActivationDisarmed] CmdPause
      by (simp add: defs PauseGoal_def transition_def)
  next
    case CmdComplete
    have "phaseTransition (fsRoundsStarted (caState c)) OperationComplete g (withPhase g PhaseComplete) = Ok ()" if "gsPhase g \<noteq> PhaseComplete"
      using that by (simp add: phaseTransition_simps requireSameDefinition_def withPhase_def guard_err_def)
    then show ?thesis using commit_phase [OF rd g rev now, of OperationComplete PhaseComplete ActivationDisarmed] CmdComplete phase_exhaust [OF wf]
      by (auto simp: defs CompleteGoal_def transition_def)
  next
    case CmdResume
    have "phaseTransition (fsRoundsStarted (caState c)) OperationResume g (withPhase g PhaseActive) = Ok ()"
      if "gsPhase g \<noteq> PhaseComplete" "fsRoundsStarted (caState c) < gsMaxGoalRounds g"
      using that phase_exhaust [OF wf] by (simp add: phaseTransition_simps requireSameDefinition_def withPhase_def guard_err_def)
    then show ?thesis using commit_phase [OF rd g rev now, of OperationResume PhaseActive ActivationArmed] CmdResume phase_exhaust [OF wf]
      by (cases "gsPhase g = PhaseComplete"; cases "fsRoundsStarted (caState c) \<ge> gsMaxGoalRounds g"; cases "gsPhase g = PhaseActive \<and> caActivation c = ActivationArmed")
        (auto simp: defs ResumeGoal_def)
  next
    case (CmdBlock b)
    show ?thesis
    proof (cases "resolveBlockReason b")
      case (Ok b')
      then have b': "kebabCodePattern (brCode b)" "TrimSpace (brMessage b) \<noteq> []" "b' = b\<lparr>brMessage := TrimSpace (brMessage b)\<rparr>"
        by (cases b; auto simp: resolveBlockReason_def split: if_splits)+
      then have "reason_wf b'" by (simp add: reason_wf_def normalized_Trim)
      then show ?thesis using block_accepted [OF rd g rev now, of b'] CmdBlock Ok b'
        by (cases "gsPhase g = PhaseActive") (simp_all add: defs BlockGoal_def)
    qed (use CmdBlock in simp_all)
  next
    case CmdClear
    obtain w' c' e where r: "commitLocked now w1 a c (newClearChange \<lparr>grID = gsID g, grRevision = gsRevision g + 1\<rparr> (nextMutationTime now c)) ActivationDisarmed = (w', Ok c')"
      "ready w' a c'" "caActivation c' = ActivationDisarmed" "elsewhere a w1 w'" "agent_log w' a = agent_log w1 a @ [e]"
      "foldedOf (caState c') = \<lparr>fgGoal = None, fgRoundsStarted = 0, fgCreatedAt = None, fgUpdatedAt = None,
         fgLastRef = Some \<lparr>grID = gsID g, grRevision = gsRevision g + 1\<rparr>\<rparr>"
      by (rule clear_accepted [OF rd g rev now refl])
    have "fsGoal (caState c') = None" using r(6) by (simp add: foldedOf_def)
    then have "view c' = Ok None" by (simp add: view_def)
    then have "run_command now w a (snapshotRef g) CmdClear = (w', [\<lparr>gcOperation = OperationClear,
        gcRef = \<lparr>grID = gsID g, grRevision = gsRevision g + 1\<rparr>, gcGoal = None\<rparr>], Ok ())"
      using r(1) i by (simp add: ClearGoal_def clearCurrent_def wc2 Let_def acknowledged_def)
    then show ?thesis using r CmdClear by (auto simp: defs accepted_def)
  qed
qed

section \<open>Reachable worlds\<close>

text \<open>An accepted or refused commit alike leaves every cache a faithful prefix of its log.\<close>

lemma decode_phase:
  assumes "DecodeGoalChange (Some (enc_change_meta (newSnapshotChange p g n ca ua))) = Ok (Some c)" and "p \<noteq> OperationClear"
  shows "\<exists>g' n' ca' ua'. c = newSnapshotChange p g' n' ca' ua' \<and> gsPhase g' = gsPhase g"
proof -
  have "gsPhase g' = gsPhase g" if "decodeSnapshot (enc_snapshot g) = Ok g'" for g'
    using that by (cases "gsBlockedReason g")
      (auto simp: decodeSnapshot_def enc_snapshot_def mem_def mem_opt_def obj_index_Cons outcome_simps Let_def split: if_splits)
  then show ?thesis using assms
    by (auto simp: DecodeGoalChange_def enc_change_meta_def newSnapshotChange_def mem_def mem_opt_def obj_index_Cons
        decodeSnapshotChange_def outcome_simps split: if_splits)
qed

lemma apply_snapshot_goal:
  "ApplyGoalChange st (newSnapshotChange p g n ca ua) = Ok st' \<Longrightarrow> p \<noteq> OperationClear \<Longrightarrow> fsGoal st' = Some g"
  by (auto simp: ApplyGoalChange_def installSnapshot_def outcome_simps split: option.splits if_splits)

lemma commit_keeps:
  assumes "ready w a c" and "commitLocked now w a c change act = (w', r)"
    and "act = ActivationArmed \<Longrightarrow> \<exists>p g n ca ua. change = newSnapshotChange p g n ca ua \<and> p \<noteq> OperationClear \<and> gsPhase g = PhaseActive"
  shows "world_ok w'"
proof -
  define e where "e = plain_event (gwSessions w (gaSession a)) now EventChange (enc_change_meta change)"
  have "\<exists>g. fsGoal st = Some g \<and> gsPhase g = PhaseActive" if st: "ApplyGoalEvent (caState c) e = Ok st" and act: "act = ActivationArmed" for st
  proof -
    obtain p g n ca ua where ch: "change = newSnapshotChange p g n ca ua" "p \<noteq> OperationClear" "gsPhase g = PhaseActive" using assms(3) act by blast
    from st have "evType e = EventChange" by (simp add: e_def)
    with st obtain c' where c': "DecodeGoalChange (evData e) = Ok (Some c')" "ApplyGoalChange (caState c) c' = Ok st"
      by (cases rule: apply_event_cases) auto
    then obtain g' n' ca' ua' where "c' = newSnapshotChange p g' n' ca' ua'" "gsPhase g' = gsPhase g"
      using decode_phase [of p g n ca ua c'] ch(1,2) by (auto simp: e_def)
    then show ?thesis using apply_snapshot_goal [of "caState c" p g' n' ca' ua' st] c'(2) ch by simp
  qed
  then show ?thesis by (rule commit_spec(1) [OF assms(1) e_def _ assms(2)])
qed

lemma commitSnapshot_keeps:
  assumes "ready w a c" and "act = ActivationArmed \<Longrightarrow> gsPhase g = PhaseActive" and "p \<noteq> OperationClear"
  shows "world_ok (fst (commitSnapshotLocked now w a c p g n ca ua act))"
proof -
  obtain w' r where r: "commitLocked now w a c (newSnapshotChange p g n ca ua) act = (w', r)" by (metis surj_pair)
  have "world_ok w'" using commit_keeps [OF assms(1) r] assms(2,3) by blast
  then show ?thesis using r by (cases r) (simp_all add: commitSnapshotLocked_def)
qed

lemma commitCurrent_keeps:
  assumes "ready w a c" and "act = ActivationArmed \<Longrightarrow> gsPhase g = PhaseActive" and "p \<noteq> OperationClear"
  shows "world_ok (fst (commitCurrentLocked now w a c p g act))"
  using commitSnapshot_keeps [OF assms] assms(1) by (auto simp: commitCurrentLocked_def ready_def split: option.split)

lemma prepare_keeps:
  assumes "world_ok w" and "prepareMutationLocked w a = (w1, r)"
  shows "world_ok w1 \<and> (\<forall>c. r = Ok c \<longrightarrow> ready w1 a c) \<and> gwSessions w1 = gwSessions w \<and> elsewhere a w w1"
proof (cases "gwAgents w (gaID a) = Some a")
  case True
  have "elsewhere a w w1" if "prepareMutationLocked w a = (w1, r)"
    using that by (auto simp: prepareMutationLocked_def elsewhere_def assertLive_def cacheLocked_def syncLocked_def Let_def bindW_def
        split: option.splits outcome.splits prod.splits if_splits)
  then show ?thesis using prepare_spec [OF assms(1) True assms(2)] assms(2) True
    by (cases "foldM ApplyGoalEvent EmptyFoldState (agent_log w a)") (auto simp: ready_def)
next
  case False
  then show ?thesis using assms by (auto simp: prepareMutationLocked_def assertLive_def guard_err_def)
qed

lemma withCurrent_keeps:
  assumes "world_ok w" and "\<And>w1 c g. ready w1 a c \<Longrightarrow> fsGoal (caState c) = Some g \<Longrightarrow> world_ok (fst (f w1 c g))"
  shows "world_ok (fst (withCurrent w a ref f))"
proof -
  obtain w1 r where p: "prepareMutationLocked w a = (w1, r)" by (metis surj_pair)
  note k = prepare_keeps [OF assms(1) p]
  show ?thesis
  proof (cases r)
    case (Ok c)
    then have rd: "ready w1 a c" using k by simp
    show ?thesis using assms(2) [OF rd] k
      by (cases "fsGoal (caState c)") (simp_all add: withCurrent_def p Ok expect_spec)
  qed (use k in \<open>simp_all add: withCurrent_def p\<close>)
qed

lemma emit_world [simp]: "fst (emitChanged p r) = fst r"
  by (cases r; cases "snd r") (simp_all add: emitChanged_def)

lemma ack_world [simp]: "fst (acknowledged r) = fst r"
  by (simp add: acknowledged_def split: prod.split)

lemma bind_guard: "world_ok (fst (bindW (w, guard_err b e) f)) \<longleftrightarrow> (if b then world_ok w else world_ok (fst (f w ())))"
  by (simp add: guard_err_def)

lemma operations_not_clear [simp]:
  "OperationEdit \<noteq> OperationClear" "OperationPause \<noteq> OperationClear" "OperationResume \<noteq> OperationClear" "OperationComplete \<noteq> OperationClear"
  "OperationBlock \<noteq> OperationClear" "OperationCreate \<noteq> OperationClear"
  by (simp_all add: operation_defs)

lemma ready_world: "ready w a c \<Longrightarrow> world_ok w"
  by (simp add: ready_def)

lemma transition_keeps:
  assumes "world_ok w" and "p \<noteq> OperationClear" and "act \<noteq> ActivationArmed"
  shows "world_ok (fst (transition now w a ref p allowed phase act))"
  unfolding transition_def emit_world
  using assms by (intro withCurrent_keeps) (auto simp: bind_guard ready_world intro: commitCurrent_keeps)

lemma edited_phase: "editedGoal g objective cap = Ok g' \<Longrightarrow> gsPhase g' = gsPhase g"
  by (auto simp: editedGoal_def outcome_simps)

lemma command_keeps:
  assumes "world_ok w"
  shows "world_ok (fst (run_command now w a ref cmd))"
proof (cases cmd)
  case (CmdEdit objective cap)
  have "world_ok (fst (withCurrent w a ref (\<lambda>w cache current. bindW (w, editedGoal current objective cap) (\<lambda>w goal.
      commitCurrentLocked now w a cache OperationEdit goal (caActivation cache)))))"
  proof (rule withCurrent_keeps [OF assms])
    fix w1 c g assume rd: "ready w1 a c" and g: "fsGoal (caState c) = Some g"
    then have "caActivation c = ActivationArmed \<Longrightarrow> gsPhase g = PhaseActive" by (auto simp: ready_def cache_ok_def armed_ok_def)
    then show "world_ok (fst (bindW (w1, editedGoal g objective cap) (\<lambda>w goal. commitCurrentLocked now w a c OperationEdit goal (caActivation c))))"
      using commitCurrent_keeps [OF rd] ready_world [OF rd] edited_phase [of g objective cap]
      by (cases "editedGoal g objective cap") simp_all
  qed
  then show ?thesis using CmdEdit by (simp add: EditGoal_def)
next
  case CmdPause
  then show ?thesis using assms by (simp add: PauseGoal_def transition_keeps)
next
  case CmdComplete
  then show ?thesis using assms by (simp add: CompleteGoal_def transition_keeps)
next
  case CmdResume
  have "world_ok (fst (withCurrent w a ref (\<lambda>w cache current.
      bindW (w, guard_err (gsPhase current \<notin> {PhaseActive, PhasePaused, PhaseBlocked}) (GoalError CodeInvalidTransition)) (\<lambda>w _.
      bindW (w, guard_err (gsPhase current = PhaseActive \<and> caActivation cache = ActivationArmed) (GoalError CodeInvalidTransition)) (\<lambda>w _.
      bindW (w, guard_err (fsRoundsStarted (caState cache) \<ge> gsMaxGoalRounds current) (GoalError CodeInvalidTransition)) (\<lambda>w _.
        commitCurrentLocked now w a cache OperationResume (withPhase current PhaseActive) ActivationArmed))))))"
    using assms by (intro withCurrent_keeps) (auto simp: bind_guard ready_world withPhase_def intro!: commitCurrent_keeps)
  then show ?thesis using CmdResume by (simp add: ResumeGoal_def)
next
  case (CmdBlock b)
  have "world_ok (fst (withCurrent w a ref (\<lambda>w cache current.
      bindW (w, guard_err (gsPhase current \<noteq> PhaseActive) (GoalError CodeInvalidTransition)) (\<lambda>w _.
        commitCurrentLocked now w a cache OperationBlock ((withPhase current PhaseBlocked)\<lparr>gsBlockedReason := Some b'\<rparr>) ActivationDisarmed))))" for b'
    using assms by (intro withCurrent_keeps) (auto simp: bind_guard ready_world intro: commitCurrent_keeps)
  then show ?thesis using CmdBlock assms by (cases "resolveBlockReason b") (simp_all add: BlockGoal_def)
next
  case CmdClear
  have "world_ok (fst (clearCurrent now w a ref))" unfolding clearCurrent_def
  proof (rule withCurrent_keeps [OF assms])
    fix w1 c g assume rd: "ready w1 a c"
    obtain w' r where r: "commitLocked now w1 a c (newClearChange \<lparr>grID = gsID g, grRevision = i64 (gsRevision g + 1)\<rparr> (nextMutationTime now c)) ActivationDisarmed = (w', r)"
      by (metis surj_pair)
    have "world_ok w'" using commit_keeps [OF rd r] by simp
    then show "world_ok (fst (let tombstone = \<lparr>grID = gsID g, grRevision = i64 (gsRevision g + 1)\<rparr> in
        bindW (commitLocked now w1 a c (newClearChange tombstone (nextMutationTime now c)) ActivationDisarmed) (\<lambda>w cache.
          (w, andThen (view cache) (\<lambda>v. Ok (tombstone, v))))))" using r by (cases r) (simp_all add: Let_def)
  qed
  moreover have "fst (ClearGoal now w a ref) = fst (clearCurrent now w a ref)"
    by (simp add: ClearGoal_def split: prod.split outcome.split)
  ultimately show ?thesis using CmdClear by simp
qed

lemma create_keeps:
  assumes "world_ok w"
  shows "world_ok (fst (CreateGoal now random w a objective cap))"
proof -
  obtain w1 r where p: "prepareMutationLocked w a = (w1, r)" by (metis surj_pair)
  note k = prepare_keeps [OF assms p]
  show ?thesis
  proof (cases r)
    case (Ok c)
    then have rd: "ready w1 a c" using k by simp
    show ?thesis using assms k commitSnapshot_keeps [OF rd]
      by (cases "resolveObjective objective"; cases "resolveMaxGoalRounds (case cap of None \<Rightarrow> gwDefaultMaxGoalRounds w | Some n \<Rightarrow> n)")
        (simp_all add: CreateGoal_def p Ok bind_guard)
  qed (use assms k in \<open>cases "resolveObjective objective"; cases "resolveMaxGoalRounds (case cap of None \<Rightarrow> gwDefaultMaxGoalRounds w | Some n \<Rightarrow> n)";
      simp add: CreateGoal_def p\<close>)+
qed

inductive goal_reach :: "goal_world \<Rightarrow> bool" where
  opened: "\<forall>p. session_inv (sessions p) \<Longrightarrow> NewGoalService sessions agents config = Ok w \<Longrightarrow> goal_reach w"
| appended: "goal_reach w \<Longrightarrow> Append now (gwSessions w p) ty data intent = (s', r) \<Longrightarrow> goal_reach (w\<lparr>gwSessions := (gwSessions w)(p := s')\<rparr>)"
| registry: "goal_reach w \<Longrightarrow> goal_reach (w\<lparr>gwAgents := agents\<rparr>)"
| started: "goal_reach w \<Longrightarrow> onSessionStart w p = (w', u) \<Longrightarrow> goal_reach w'"
| read: "goal_reach w \<Longrightarrow> GetGoal w a = (w', v) \<Longrightarrow> goal_reach w'"
| disarmed: "goal_reach w \<Longrightarrow> Disarm w a = (w', v) \<Longrightarrow> goal_reach w'"
| created: "goal_reach w \<Longrightarrow> CreateGoal now random w a objective cap = (w', notices, res) \<Longrightarrow> goal_reach w'"
| commanded: "goal_reach w \<Longrightarrow> run_command now w a ref cmd = (w', notices, res') \<Longrightarrow> goal_reach w'"

lemma bind_world: "fst (bindW (w, r) f) = (case r of Ok x \<Rightarrow> fst (f w x) | _ \<Rightarrow> w)"
  by (cases r) simp_all

lemma disarm_cache_ok: "cache_ok evs c \<Longrightarrow> cache_ok evs (c\<lparr>caActivation := ActivationDisarmed\<rparr>)"
  by (simp add: cache_ok_def)

lemma start_keeps:
  assumes "world_ok w" and "onSessionStart w p = (w', u)"
  shows "world_ok w'"
proof -
  obtain w1 r where c: "cacheLocked w p = (w1, r)" by (metis surj_pair)
  have run: "onSessionStart w p = bindW (w1, r) (\<lambda>w cache. (w\<lparr>gwCaches := (gwCaches w)(p := Some (cache\<lparr>caActivation := ActivationDisarmed\<rparr>))\<rparr>, Ok ()))"
    using c by (simp add: onSessionStart_def)
  from cacheLocked_spec [OF assms(1) c] show ?thesis
  proof
    assume "\<exists>c. r = Ok c \<and> cache_ok (sLog (gwSessions w p)) c \<and> w1 = w\<lparr>gwCaches := (gwCaches w)(p := Some c)\<rparr>"
    then obtain c where "r = Ok c" "cache_ok (sLog (gwSessions w p)) c" "w1 = w\<lparr>gwCaches := (gwCaches w)(p := Some c)\<rparr>" by blast
    moreover have "world_ok (w\<lparr>gwCaches := (gwCaches w)(p := Some (c\<lparr>caActivation := ActivationDisarmed\<rparr>))\<rparr>)"
      using calculation disarm_cache_ok by (intro world_ok_cache [OF assms(1)]) simp
    ultimately show ?thesis using run assms(2) by auto
  next
    assume "w1 = w \<and> gwCaches w p = None \<and> r = andThen (foldM ApplyGoalEvent EmptyFoldState (sLog (gwSessions w p))) (\<lambda>_. Panic)
      \<and> \<not> is_Ok (foldM ApplyGoalEvent EmptyFoldState (sLog (gwSessions w p)))"
    then show ?thesis using run assms by (cases "foldM ApplyGoalEvent EmptyFoldState (sLog (gwSessions w p))") auto
  qed
qed

lemma goal_reach_ok: "goal_reach w \<Longrightarrow> world_ok w"
proof (induction rule: goal_reach.induct)
  case (opened sessions agents config w)
  then show ?case by (auto simp: NewGoalService_def world_ok_def outcome_simps resolveMax_Ok)
next
  case (appended w now p ty data intent s' r)
  have inv: "session_inv s'" using Append_inv [OF _ appended.hyps(2)] appended.IH by (simp add: world_ok_def)
  have "\<exists>more. sLog s' = sLog (gwSessions w p) @ more"
    using appended.hyps(2) by (cases rule: Append_cases) auto
  then show ?case using inv appended.IH cache_ok_grow by (fastforce simp: world_ok_def)
next
  case (registry w agents)
  then show ?case by (simp add: world_ok_def)
next
  case (started w p w' u)
  then show ?case using start_keeps by blast
next
  case (read w a w' v)
  obtain w1 r where p: "prepareMutationLocked w a = (w1, r)" by (metis surj_pair)
  show ?case using prepare_keeps [OF read.IH p] read.hyps(2) by (cases r) (auto simp: GetGoal_def p)
next
  case (disarmed w a w' v)
  obtain w1 r where p: "prepareMutationLocked w a = (w1, r)" by (metis surj_pair)
  note k = prepare_keeps [OF disarmed.IH p]
  show ?case
  proof (cases r)
    case (Ok c)
    then have "cache_ok (agent_log w1 a) c" using k unfolding ready_def by blast
    then have "world_ok (w1\<lparr>gwCaches := (gwCaches w1)(gaSession a := Some (c\<lparr>caActivation := ActivationDisarmed\<rparr>))\<rparr>)"
      using k disarm_cache_ok by (intro world_ok_cache) auto
    then show ?thesis using disarmed.hyps(2) by (auto simp: Disarm_def p Ok Let_def)
  qed (use k disarmed.hyps(2) in \<open>auto simp: Disarm_def p\<close>)
next
  case (created w now random a objective cap w' notices res)
  then show ?case using create_keeps by (metis fst_conv)
next
  case (commanded w now a ref cmd w' notices res')
  then show ?case using command_keeps by (metis fst_conv)
qed

section \<open>Properties\<close>

definition armed :: "goal_world \<Rightarrow> goal_agent \<Rightarrow> bool" where
  "armed w a \<longleftrightarrow> (case snd (GetGoal w a) of Ok (Some v) \<Rightarrow> gvActivation v = ActivationArmed | _ \<Rightarrow> False)"

lemma FoldGoal_Ok: "FoldGoal evs = Ok f \<longleftrightarrow> (\<exists>st. foldM ApplyGoalEvent EmptyFoldState evs = Ok st \<and> f = foldedOf st)"
  by (auto simp: FoldGoal_def outcome_simps)

lemma ready_fold: "ready w a c \<Longrightarrow> FoldGoal (agent_log w a) = Ok (foldedOf (caState c))"
  by (simp add: FoldGoal_def ready_def)

lemma syncLoop_same: "syncLoop c [] = (c, Ok ())"
  by simp

lemma ready_get: "ready w a c \<Longrightarrow> GetGoal w a = (w, view c)"
proof -
  assume rd: "ready w a c"
  have "w\<lparr>gwCaches := (gwCaches w)(gaSession a := Some c)\<rparr> = w" using rd by (simp add: ready_def fun_upd_idem)
  then show ?thesis using rd
    by (simp add: GetGoal_def prepareMutationLocked_def assertLive_def guard_err_def cacheLocked_def syncLocked_def ready_def Let_def)
qed

lemma ready_armed: "ready w a c \<Longrightarrow> armed w a \<longleftrightarrow> fsGoal (caState c) \<noteq> None \<and> caActivation c = ActivationArmed"
proof -
  assume rd: "ready w a c"
  show ?thesis
  proof (cases "fsGoal (caState c)")
    case None
    then show ?thesis using ready_get [OF rd] by (simp add: armed_def view_def)
  next
    case (Some g)
    obtain v where "view c = Ok (Some v)" "gvActivation v = caActivation c" using view_ready [OF rd Some] by metis
    then show ?thesis using ready_get [OF rd] Some by (simp add: armed_def)
  qed
qed

lemma ready_armed_goal: "ready w a c \<Longrightarrow> caActivation c = ActivationArmed \<Longrightarrow> armed w a"
  using ready_armed by (force simp: ready_def cache_ok_def armed_ok_def)

lemma block_reason_checked: "resolveBlockReason b =
    (if \<not> kebabCodePattern (brCode b) \<or> TrimSpace (brMessage b) = [] then Err (GoalError CodeInvalidBlockReason)
     else Ok (b\<lparr>brMessage := TrimSpace (brMessage b)\<rparr>))"
  by (cases b) (simp add: resolveBlockReason_def)

lemma command_stale:
  assumes "\<And>f. withCurrent w a ref f = (w1, Err x :: (goal_error, goal_view) outcome)"
    and "\<And>f. withCurrent w a ref f = (w1, Err x :: (goal_error, goal_ref \<times> goal_view option) outcome)"
    and "\<not> (\<exists>b. cmd = CmdBlock b \<and> \<not> is_Ok (resolveBlockReason b))"
  shows "run_command now w a ref cmd = (w1, [], Err x)"
  using assms(3)
  by (cases cmd) (auto simp: EditGoal_def PauseGoal_def CompleteGoal_def transition_def ResumeGoal_def BlockGoal_def ClearGoal_def
      clearCurrent_def assms(1,2) acknowledged_def emitChanged_def is_Ok_iff)

lemma meets_shift:
  assumes "gwSessions w1 = gwSessions w" and "elsewhere a w w1" and "meets now w1 a spec r"
  shows "meets now w a spec r"
proof (cases spec)
  case (Ok x)
  then show ?thesis using assms accepted_shift [OF _ assms(2)] by (cases x) (auto simp: meets_def)
next
  case (Err x)
  then show ?thesis using assms elsewhere_trans [of a w w1] by (auto simp: meets_def refused_def)
qed (use assms in \<open>simp add: meets_def\<close>)

lemma command_meets:
  assumes ok: "world_ok w" and live: "gwAgents w (gaID a) = Some a" and fold: "FoldGoal (agent_log w a) = Ok f" and now: "safe_from 0 now"
    and rev: "\<And>g. fgGoal f = Some g \<Longrightarrow> gsRevision g < maxSafeInteger"
  shows "meets now w a (goal_spec (armed w a) now f ref cmd) (run_command now w a ref cmd)"
proof (cases "\<exists>b. cmd = CmdBlock b \<and> \<not> is_Ok (resolveBlockReason b)")
  case True
  then show ?thesis by (auto simp: block_reason_checked meets_def goal_spec_def guard_err_def refused_def BlockGoal_def split: if_splits)
next
  case False
  obtain st where st: "foldM ApplyGoalEvent EmptyFoldState (agent_log w a) = Ok st" and f: "f = foldedOf st" using fold by (auto simp: FoldGoal_Ok)
  obtain w1 c where p: "prepareMutationLocked w a = (w1, Ok c)" and rd: "ready w1 a c" and c: "caState c = st"
    and sess: "gwSessions w1 = gwSessions w" and els: "elsewhere a w w1"
    by (rule prepare_ready [OF ok live st])
  have wc: "withCurrent w a ref h = bindW (w1, expectCurrent c ref) (\<lambda>w g. h w c g)"
    for h :: "goal_world \<Rightarrow> goal_cache \<Rightarrow> goal_snapshot \<Rightarrow> goal_world \<times> (goal_error, goal_view) outcome" by (simp add: withCurrent_def p)
  have wc2: "withCurrent w a ref h = bindW (w1, expectCurrent c ref) (\<lambda>w g. h w c g)"
    for h :: "goal_world \<Rightarrow> goal_cache \<Rightarrow> goal_snapshot \<Rightarrow> goal_world \<times> (goal_error, goal_ref \<times> goal_view option) outcome" by (simp add: withCurrent_def p)
  have arm: "armed w a \<longleftrightarrow> armed w1 a" using ready_get [OF rd] by (simp add: armed_def GetGoal_def p)
  have pre: "(case cmd of CmdBlock b \<Rightarrow> guard_err (\<not> kebabCodePattern (brCode b) \<or> TrimSpace (brMessage b) = []) (GoalError CodeInvalidBlockReason)
      | _ \<Rightarrow> Ok ()) = Ok ()" using False by (cases cmd) (auto simp: block_reason_checked guard_err_def split: if_splits)
  show ?thesis
  proof (cases "expectCurrent c ref")
    case (Ok g)
    then have g: "fsGoal st = Some g" "ref = snapshotRef g" by (auto simp: expect_spec c split: option.splits if_splits)
    have "armed w a \<longleftrightarrow> caActivation c = ActivationArmed" using arm ready_armed [OF rd] g c by simp
    moreover have "gsRevision g < maxSafeInteger" using rev g f by (simp add: foldedOf_def)
    moreover have "meets now w1 a (goal_spec (caActivation c = ActivationArmed) now (foldedOf (caState c)) (snapshotRef g) cmd) (run_command now w a (snapshotRef g) cmd)"
      using command_meets_current [OF rd _ calculation(2) now, of w cmd] False g c Ok wc [unfolded g(2)] wc2 [unfolded g(2)] by simp
    ultimately have "meets now w1 a (goal_spec (armed w a) now f ref cmd) (run_command now w a ref cmd)" using g c f by simp
    then show ?thesis by (rule meets_shift [OF sess els])
  next
    case (Err x)
    have "run_command now w a ref cmd = (w1, [], Err x)"
      using False Err by (intro command_stale) (simp_all add: wc wc2)
    moreover have "goal_spec (armed w a) now f ref cmd = Err x"
      using Err pre c by (auto simp: goal_spec_def f foldedOf_def expect_spec split: option.splits if_splits)
    ultimately show ?thesis using sess els by (simp add: meets_def refused_def)
  next
    case Panic
    then show ?thesis by (auto simp: expect_spec split: option.splits if_splits)
  qed
qed

lemma unseen_id:
  assumes "foldM ApplyGoalEvent EmptyFoldState evs = Ok st" and "revisions_of k evs = []"
  shows "k \<notin> set (fsSeenGoalIDs st)"
  using fold_history [OF assms(1)] by (rule history_wfD [where g = k]) (use assms(2) in auto)

lemma newGoalID_nonempty [simp]: "newGoalID random \<noteq> []"
  by (simp add: newGoalID_def Let_def)

definition created_goal :: "8 word list \<Rightarrow> string \<Rightarrow> int \<Rightarrow> goal_snapshot" where
  "created_goal random objective cap = \<lparr>gsID = newGoalID random, gsRevision = 1, gsObjective = TrimSpace objective, gsPhase = PhaseActive,
     gsBlockedReason = None, gsMaxGoalRounds = cap\<rparr>"

lemma create_commits:
  assumes rd: "ready w a c" and fresh: "newGoalID random \<notin> set (fsSeenGoalIDs (caState c))" and now: "safe_from 0 now"
    and cur: "\<And>g. fsGoal (caState c) = Some g \<Longrightarrow> gsPhase g = PhaseComplete" and obj: "TrimSpace objective \<noteq> []" and cap: "safe_from 1 cap"
  obtains w' v c' e where "commitSnapshotLocked now w a c OperationCreate (created_goal random objective cap) 0 now now ActivationArmed = (w', Ok v)"
    "gvSnapshot v = created_goal random objective cap" "ready w' a c'" "caActivation c' = ActivationArmed" "elsewhere a w w'" "agent_log w' a = agent_log w a @ [e]"
    "foldedOf (caState c') = \<lparr>fgGoal = Some (created_goal random objective cap), fgRoundsStarted = 0, fgCreatedAt = Some now, fgUpdatedAt = Some now,
       fgLastRef = Some \<lparr>grID = newGoalID random, grRevision = 1\<rparr>\<rparr>"
proof -
  let ?g = "created_goal random objective cap"
  have wf: "snapshot_wf ?g" using obj cap by (simp add: snapshot_wf_def created_goal_def safe_from_def maxSafeInteger_def normalized_Trim)
  have zero: "safe_from 0 0" by (simp add: safe_from_def maxSafeInteger_def)
  let ?c = "newSnapshotChange OperationCreate ?g 0 now now"
  have cwf: "change_wf ?c" using wf now zero by (auto simp: change_wf_def snapshotOperations_def)
  have ad: "createAdmitted (caState c) ?g 0" using fresh cur by (auto simp: createAdmitted_def created_goal_def split: option.splits)
  have app: "ApplyGoalChange (caState c) ?c = Ok ((caState c)\<lparr>fsSeenGoalIDs := gsID ?g # fsSeenGoalIDs (caState c), fsGoal := Some ?g,
      fsRoundsStarted := 0, fsCreatedAt := Some now, fsUpdatedAt := Some now, fsLastRef := Some (snapshotRef ?g)\<rparr>)"
    using ad by (simp add: ApplyGoalChange_def installSnapshot_def)
  show ?thesis
  proof (rule commit_accepted [OF rd cwf app, of ActivationArmed now])
    fix w' c' e
    assume r: "commitLocked now w a c ?c ActivationArmed = (w', Ok c')" "ready w' a c'" "caActivation c' = ActivationArmed" "elsewhere a w w'"
      "agent_log w' a = agent_log w a @ [e]"
      "caState c' = (caState c)\<lparr>fsSeenGoalIDs := gsID ?g # fsSeenGoalIDs (caState c), fsGoal := Some ?g,
          fsRoundsStarted := 0, fsCreatedAt := Some now, fsUpdatedAt := Some now, fsLastRef := Some (snapshotRef ?g)\<rparr>"
    obtain v where v: "view c' = Ok (Some v)" "gvSnapshot v = ?g" using view_ready [OF r(2), of ?g] r(6) by auto
    show thesis
      using that [of w' v c' e] r v by (simp add: commitSnapshotLocked_def foldedOf_def snapshotRef_def created_goal_def)
  qed (simp add: created_goal_def)
qed

definition requested_cap :: "goal_world \<Rightarrow> int option \<Rightarrow> int" where
  "requested_cap w cap = (case cap of None \<Rightarrow> gwDefaultMaxGoalRounds w | Some n \<Rightarrow> n)"

definition may_create :: "folded_goal \<Rightarrow> bool" where
  "may_create f \<longleftrightarrow> (case fgGoal f of None \<Rightarrow> True | Some g \<Rightarrow> gsPhase g = PhaseComplete)"

lemma create_run:
  assumes p: "prepareMutationLocked w a = (w1, Ok c)" and obj: "TrimSpace objective \<noteq> []" and cap: "safe_from 1 (requested_cap w cap)"
    and may: "may_create (foldedOf (caState c))"
  shows "CreateGoal now random w a objective cap = emitChanged OperationCreate (commitSnapshotLocked now w1 a c OperationCreate
    (created_goal random objective (requested_cap w cap)) 0 now now ActivationArmed)"
  using obj cap may by (auto simp: CreateGoal_def p resolveObjective_def resolveMaxGoalRounds_def requested_cap_def safe_from_def guard_err_def
      may_create_def foldedOf_def created_goal_def split: option.splits)

text \<open>C3: The mutations of the goal service implement their contract: in every reachable world, for a live agent whose log folds, a command
  is refused exactly when the contract refuses it (the stale or missing reference, the wrong phase, the exhausted round budget, the invalid
  argument), and then no log changes; otherwise exactly one event is appended to the agent's own log, the log then folds to exactly the goal the
  contract names, automatic continuation is armed exactly when the contract says so, and one notice carries the new reference.\<close>

theorem goal_service_refines:
  assumes "goal_reach w" and "gwAgents w (gaID a) = Some a" and "FoldGoal (agent_log w a) = Ok f"
    and "0 \<le> now" and "now \<le> maxSafeInteger" and "\<forall>g. fgGoal f = Some g \<longrightarrow> gsRevision g < maxSafeInteger"
  shows "case goal_spec (armed w a) now f ref cmd of
      Ok (f', armed') \<Rightarrow>
        (\<exists>w' n e. run_command now w a ref cmd = (w', [n], Ok ()) \<and> agent_log w' a = agent_log w a @ [e]
           \<and> FoldGoal (agent_log w' a) = Ok f' \<and> (armed w' a \<longleftrightarrow> armed') \<and> Some (gcRef n) = fgLastRef f'
           \<and> (\<forall>p. p \<noteq> gaSession a \<longrightarrow> gwSessions w' p = gwSessions w p \<and> gwCaches w' p = gwCaches w p))
    | Err x \<Rightarrow> (\<exists>w'. run_command now w a ref cmd = (w', [], Err x) \<and> gwSessions w' = gwSessions w)
    | Panic \<Rightarrow> False"
proof -
  have "meets now w a (goal_spec (armed w a) now f ref cmd) (run_command now w a ref cmd)"
    using command_meets [OF goal_reach_ok [OF assms(1)] assms(2,3)] assms(4-6) by (simp add: safe_from_def)
  moreover have "armed w' a \<longleftrightarrow> armed'" if "ready w' a c'" "caActivation c' = ActivationArmed \<longleftrightarrow> armed'" for w' c' armed'
    using ready_armed [OF that(1)] ready_armed_goal [OF that(1)] that(2) by blast
  ultimately show ?thesis
    using ready_fold [of _ a] by (fastforce simp: meets_def accepted_def refused_def elsewhere_def split: outcome.splits)
qed

text \<open>Creating a goal with a fresh identity succeeds exactly when the objective is not blank, the round cap is a positive safe integer and no goal is
  current but a completed one; the log then folds to an active revision-one goal without rounds, armed.  Otherwise no log changes.\<close>

theorem goal_create_outcome:
  assumes "goal_reach w" and "gwAgents w (gaID a) = Some a" and "FoldGoal (agent_log w a) = Ok f"
    and "0 \<le> now" and "now \<le> maxSafeInteger" and "revisions_of (newGoalID random) (agent_log w a) = []"
  shows "if TrimSpace objective \<noteq> [] \<and> 1 \<le> requested_cap w cap \<and> requested_cap w cap \<le> maxSafeInteger \<and> may_create f
    then (\<exists>w' v n e. CreateGoal now random w a objective cap = (w', [n], Ok v) \<and> agent_log w' a = agent_log w a @ [e]
       \<and> FoldGoal (agent_log w' a) = Ok \<lparr>fgGoal = Some (created_goal random objective (requested_cap w cap)), fgRoundsStarted = 0,
           fgCreatedAt = Some now, fgUpdatedAt = Some now, fgLastRef = Some \<lparr>grID = newGoalID random, grRevision = 1\<rparr>\<rparr> \<and> armed w' a)
    else (\<exists>w' x. CreateGoal now random w a objective cap = (w', [], Err x) \<and> gwSessions w' = gwSessions w)"
proof -
  have ok: "world_ok w" by (rule goal_reach_ok [OF assms(1)])
  obtain st where st: "foldM ApplyGoalEvent EmptyFoldState (agent_log w a) = Ok st" and f: "f = foldedOf st" using assms(3) by (auto simp: FoldGoal_Ok)
  obtain w1 c where p: "prepareMutationLocked w a = (w1, Ok c)" and rd: "ready w1 a c" and c: "caState c = st"
    and sess: "gwSessions w1 = gwSessions w" and els: "elsewhere a w w1"
    by (rule prepare_ready [OF ok assms(2) st])
  show ?thesis
  proof (cases "TrimSpace objective \<noteq> [] \<and> safe_from 1 (requested_cap w cap) \<and> may_create f")
    case True
    have fresh: "newGoalID random \<notin> set (fsSeenGoalIDs (caState c))" using unseen_id [OF st assms(6)] c by simp
    have cur: "\<And>g. fsGoal (caState c) = Some g \<Longrightarrow> gsPhase g = PhaseComplete" using True c f by (simp add: may_create_def foldedOf_def)
    have now: "safe_from 0 now" using assms(4,5) by (simp add: safe_from_def)
    have obj: "TrimSpace objective \<noteq> []" and cap: "safe_from 1 (requested_cap w cap)" using True by blast+
    obtain w' v c' e where r: "commitSnapshotLocked now w1 a c OperationCreate (created_goal random objective (requested_cap w cap)) 0 now now ActivationArmed = (w', Ok v)"
      "gvSnapshot v = created_goal random objective (requested_cap w cap)" "ready w' a c'" "caActivation c' = ActivationArmed" "agent_log w' a = agent_log w1 a @ [e]"
      "foldedOf (caState c') = \<lparr>fgGoal = Some (created_goal random objective (requested_cap w cap)), fgRoundsStarted = 0, fgCreatedAt = Some now, fgUpdatedAt = Some now,
         fgLastRef = Some \<lparr>grID = newGoalID random, grRevision = 1\<rparr>\<rparr>"
      by (rule create_commits [OF rd fresh now cur obj cap])
    have "CreateGoal now random w a objective cap = (w', [\<lparr>gcOperation = OperationCreate, gcRef = snapshotRef (gvSnapshot v), gcGoal = Some v\<rparr>], Ok v)"
      using create_run [OF p obj cap, of now random] True c f r(1) by (simp add: emitChanged_def)
    then show ?thesis
      using True r sess ready_fold [OF r(3)] ready_armed_goal [OF r(3,4)] by (auto simp: safe_from_def)
  next
    case False
    have "\<exists>w' x. CreateGoal now random w a objective cap = (w', [], Err x) \<and> gwSessions w' = gwSessions w"
      using False sess by (auto simp: CreateGoal_def p resolveObjective_def resolveMaxGoalRounds_def requested_cap_def safe_from_def guard_err_def
          may_create_def foldedOf_def emitChanged_def f c split: option.splits)
    then show ?thesis using False by (auto simp: safe_from_def)
  qed
qed

lemma syncLoop_disarmed:
  "syncLoop c es = (c', r) \<Longrightarrow> caPendingActivation c = None \<Longrightarrow> caActivation c = ActivationDisarmed \<Longrightarrow> caActivation c' = ActivationDisarmed"
proof (induction c es rule: syncLoop.induct)
  case (2 c e es)
  then show ?case by (cases "ApplyGoalEvent (caState c) e") (auto cong: if_cong)
qed auto

lemma goal_view_from_log_facts:
  assumes "goal_reach w" and "gwAgents w (gaID a) = Some a" and "GetGoal w a = (w', r)"
  shows "\<forall>f. FoldGoal (agent_log w a) = Ok f \<longrightarrow>
      (\<exists>act. r = Ok (map_option (\<lambda>g. \<lparr>gvSnapshot = g, gvRoundsStarted = fgRoundsStarted f, gvCreatedAt = the (fgCreatedAt f),
           gvUpdatedAt = the (fgUpdatedAt f), gvActivation = act\<rparr>) (fgGoal f))
         \<and> (act = ActivationArmed \<longrightarrow> map_option gsPhase (fgGoal f) = Some PhaseActive))"
    and "\<forall>x. FoldGoal (agent_log w a) = Err x \<longrightarrow> r = Err x" and "r \<noteq> Panic" and "gwSessions w' = gwSessions w"
proof -
  have ok: "world_ok w" by (rule goal_reach_ok [OF assms(1)])
  obtain w1 q where p: "prepareMutationLocked w a = (w1, q)" by (metis surj_pair)
  note spec = prepare_spec [OF ok assms(2) p]
  have np: "foldM ApplyGoalEvent EmptyFoldState (agent_log w a) \<noteq> Panic" using fold_not_Panic [OF fold_wf [of "[]"]] by simp
  show "\<forall>f. FoldGoal (agent_log w a) = Ok f \<longrightarrow>
      (\<exists>act. r = Ok (map_option (\<lambda>g. \<lparr>gvSnapshot = g, gvRoundsStarted = fgRoundsStarted f, gvCreatedAt = the (fgCreatedAt f),
           gvUpdatedAt = the (fgUpdatedAt f), gvActivation = act\<rparr>) (fgGoal f))
         \<and> (act = ActivationArmed \<longrightarrow> map_option gsPhase (fgGoal f) = Some PhaseActive))"
  proof (intro allI impI)
    fix f assume "FoldGoal (agent_log w a) = Ok f"
    then obtain st where st: "foldM ApplyGoalEvent EmptyFoldState (agent_log w a) = Ok st" and f: "f = foldedOf st" by (auto simp: FoldGoal_Ok)
    then obtain c where c: "q = Ok c" "cache_ok (agent_log w a) c" "caState c = st" using spec by auto
    have r: "r = view c" using assms(3) by (simp add: GetGoal_def p c)
    have "\<exists>ca ua. fsCreatedAt st = Some ca \<and> fsUpdatedAt st = Some ua" if "fsGoal st \<noteq> None"
      using fold_wf [OF st] that by (auto simp: state_wf_def)
    then show "\<exists>act. r = Ok (map_option (\<lambda>g. \<lparr>gvSnapshot = g, gvRoundsStarted = fgRoundsStarted f, gvCreatedAt = the (fgCreatedAt f),
           gvUpdatedAt = the (fgUpdatedAt f), gvActivation = act\<rparr>) (fgGoal f))
         \<and> (act = ActivationArmed \<longrightarrow> map_option gsPhase (fgGoal f) = Some PhaseActive)"
      using c by (intro exI [of _ "caActivation c"]) (auto simp: r f foldedOf_def view_def cache_ok_def armed_ok_def split: option.splits)
  qed
  show "\<forall>x. FoldGoal (agent_log w a) = Err x \<longrightarrow> r = Err x"
    using spec assms(3) by (auto simp: FoldGoal_def GetGoal_def p outcome_simps)
  show "r \<noteq> Panic"
    using spec assms(3) np by (cases "foldM ApplyGoalEvent EmptyFoldState (agent_log w a)") (auto simp: GetGoal_def p view_def split: option.splits)
  show "gwSessions w' = gwSessions w" using spec assms(3) by (cases q) (auto simp: GetGoal_def p)
qed

text \<open>C35: Reading the goal gives what a fold of the whole log gives, although only the events since the last look are folded; an armed view is always of
  an active goal; a log that does not fold fails the read with the fold's error.\<close>

theorem goal_view_from_log:
  assumes "goal_reach w" and "gwAgents w (gaID a) = Some a" and "GetGoal w a = (w', r)"
  shows "(\<forall>f. FoldGoal (agent_log w a) = Ok f \<longrightarrow>
      (\<exists>act. r = Ok (map_option (\<lambda>g. \<lparr>gvSnapshot = g, gvRoundsStarted = fgRoundsStarted f, gvCreatedAt = the (fgCreatedAt f),
           gvUpdatedAt = the (fgUpdatedAt f), gvActivation = act\<rparr>) (fgGoal f))
         \<and> (act = ActivationArmed \<longrightarrow> map_option gsPhase (fgGoal f) = Some PhaseActive)))
    \<and> (\<forall>x. FoldGoal (agent_log w a) = Err x \<longrightarrow> r = Err x) \<and> r \<noteq> Panic \<and> gwSessions w' = gwSessions w"
  using goal_view_from_log_facts [OF assms] by blast

lemma view_activation: "view c = Ok (Some v) \<Longrightarrow> gvActivation v = caActivation c"
  by (auto simp: view_def split: option.splits)

text \<open>Automatic continuation never survives a session start: whatever the log holds by the time of the next look, the goal is not armed.\<close>

theorem session_start_disarms:
  assumes "goal_reach w" and "onSessionStart w (gaSession a) = (w1, u)"
  shows "\<not> armed w1 a"
proof (cases "gwAgents w1 (gaID a) = Some a")
  case False
  then show ?thesis by (simp add: armed_def GetGoal_def prepareMutationLocked_def assertLive_def guard_err_def)
next
  case live: True
  let ?p = "gaSession a"
  obtain w2 r where c: "cacheLocked w ?p = (w2, r)" by (metis surj_pair)
  from cacheLocked_spec [OF goal_reach_ok [OF assms(1)] c] show ?thesis
  proof
    assume "\<exists>c. r = Ok c \<and> cache_ok (sLog (gwSessions w ?p)) c \<and> w2 = w\<lparr>gwCaches := (gwCaches w)(?p := Some c)\<rparr>"
    then obtain c0 where c0: "r = Ok c0" "cache_ok (sLog (gwSessions w ?p)) c0" "w2 = w\<lparr>gwCaches := (gwCaches w)(?p := Some c0)\<rparr>" by blast
    let ?c = "c0\<lparr>caActivation := ActivationDisarmed\<rparr>"
    have w1: "gwCaches w1 ?p = Some ?c" "gwSessions w1 = gwSessions w" using assms(2) c c0 by (auto simp: onSessionStart_def)
    obtain c' q where s: "syncLoop ?c (drop (nat (caObservedSeq ?c)) (sLog (gwSessions w ?p))) = (c', q)" by (metis surj_pair)
    have "caActivation c' = ActivationDisarmed" using syncLoop_disarmed [OF s] c0(2) by (simp add: cache_ok_def)
    moreover have "snd (GetGoal w1 a) = andThen q (\<lambda>_. view c') \<or> snd (GetGoal w1 a) = Panic"
      using live w1 s by (cases q) (simp_all add: GetGoal_def prepareMutationLocked_def assertLive_def guard_err_def cacheLocked_def syncLocked_def Let_def)
    ultimately show ?thesis using view_activation [of c']
      by (cases q) (auto simp: armed_def split: outcome.splits option.splits)
  next
    assume n: "w2 = w \<and> gwCaches w ?p = None \<and> r = andThen (foldM ApplyGoalEvent EmptyFoldState (sLog (gwSessions w ?p))) (\<lambda>_. Panic)
      \<and> \<not> is_Ok (foldM ApplyGoalEvent EmptyFoldState (sLog (gwSessions w ?p)))"
    then have "w1 = w" using assms(2) c by (cases "foldM ApplyGoalEvent EmptyFoldState (sLog (gwSessions w ?p))") (auto simp: onSessionStart_def)
    then show ?thesis using n
      by (cases "foldM ApplyGoalEvent EmptyFoldState (sLog (gwSessions w ?p))")
        (auto simp: armed_def GetGoal_def prepareMutationLocked_def assertLive_def guard_err_def cacheLocked_def)
  qed
qed

lemma fold_stuck: "foldM f s xs = Err x \<Longrightarrow> foldM f s (xs @ ys) = Err x"
  by (simp add: foldM_append)

text \<open>The change is appended before the fold validates it, so a refusal comes too late: a goal created while the clock reads a time before the epoch is
  reported as failed, but its event stays in the log, and from then on the log folds no more and every read of the goal fails.\<close>

theorem refused_create_poisons_log:
  assumes "goal_reach w" and "gwAgents w (gaID a) = Some a" and "FoldGoal (agent_log w a) = Ok f" and "now < 0"
    and "TrimSpace objective \<noteq> []" and "1 \<le> requested_cap w cap" and "requested_cap w cap \<le> maxSafeInteger" and "may_create f"
  shows "\<exists>w' x e. CreateGoal now random w a objective cap = (w', [], Err x) \<and> agent_log w' a = agent_log w a @ [e]
    \<and> (\<forall>later. FoldGoal (agent_log w' a @ later) = Err x)"
proof -
  have ok: "world_ok w" by (rule goal_reach_ok [OF assms(1)])
  obtain st where st: "foldM ApplyGoalEvent EmptyFoldState (agent_log w a) = Ok st" and f: "f = foldedOf st" using assms(3) by (auto simp: FoldGoal_Ok)
  obtain w1 c where p: "prepareMutationLocked w a = (w1, Ok c)" and rd: "ready w1 a c" and c: "caState c = st"
    and sess: "gwSessions w1 = gwSessions w" and els: "elsewhere a w w1"
    by (rule prepare_ready [OF ok assms(2) st])
  let ?g = "created_goal random objective (requested_cap w cap)"
  define e where "e = plain_event (gwSessions w1 (gaSession a)) now EventChange (enc_change_meta (newSnapshotChange OperationCreate ?g 0 now now))"
  have bad: "ApplyGoalEvent (caState c) e = Err (NotNonNegative ''createdAt'')"
    using assms(4) by (simp add: ApplyGoalEvent_def e_def DecodeGoalChange_def enc_change_meta_def newSnapshotChange_def mem_def mem_opt_def obj_index_Cons
        ChangeVersion_def maxSafeInteger_def decodeSnapshotChange_def sortedKeys_eq key_fingerprints guard_err_def snapshotOperations_def safe_from_def operation_defs)
  obtain w' r where run: "commitLocked now w1 a c (newSnapshotChange OperationCreate ?g 0 now now) ActivationArmed = (w', r)" by (metis surj_pair)
  have cm: "r = Err (NotNonNegative ''createdAt'')" "agent_log w' a = agent_log w1 a @ [e]"
    using commit_spec(3,5) [OF rd e_def _ run] bad by simp_all
  have "safe_from 1 (requested_cap w cap)" using assms(6,7) by (simp add: safe_from_def)
  then have "CreateGoal now random w a objective cap = (w', [], Err (NotNonNegative ''createdAt''))"
    using create_run [OF p assms(5), of cap now random] assms(8) f c run cm(1) by (simp add: commitSnapshotLocked_def emitChanged_def)
  moreover have "foldM ApplyGoalEvent EmptyFoldState (agent_log w a @ [e]) = Err (NotNonNegative ''createdAt'')"
    using st bad c by (simp add: foldM_append)
  then have "FoldGoal ((agent_log w a @ [e]) @ later) = Err (NotNonNegative ''createdAt'')" for later
    using fold_stuck [of ApplyGoalEvent EmptyFoldState "agent_log w a @ [e]" _ later] by (simp add: FoldGoal_def)
  ultimately show ?thesis using cm(2) sess by auto
qed

definition demo_agent :: goal_agent where
  "demo_agent = \<lparr>gaAddress = 1, gaID = ''a'', gaSession = 7\<rparr>"

definition demo_world :: goal_world where
  "demo_world = \<lparr>gwSessions = (\<lambda>_. demo_start), gwCaches = (\<lambda>_. None), gwAgents = (\<lambda>k. if k = ''a'' then Some demo_agent else None),
     gwDefaultMaxGoalRounds = 256\<rparr>"

definition demo_created :: goal_world where
  "demo_created = fst (CreateGoal 5 (replicate 16 0) demo_world demo_agent '' ship '' None)"

lemma demo_world_reach: "goal_reach demo_world"
proof (rule goal_reach.opened)
  show "\<forall>p. session_inv ((\<lambda>_. demo_start) (p :: nat))" using session_reach_inv [OF demo_start_reach] by simp
  show "NewGoalService (\<lambda>_. demo_start) (\<lambda>k. if k = ''a'' then Some demo_agent else None) None = Ok demo_world"
    by (simp add: NewGoalService_def demo_world_def resolveMaxGoalRounds_def defaultMaxGoalRoundsDefault_def maxSafeInteger_def)
qed

lemma demo_created_reach: "goal_reach demo_created"
  unfolding demo_created_def
  by (rule goal_reach.created [OF demo_world_reach, where notices = "fst (snd (CreateGoal 5 (replicate 16 0) demo_world demo_agent '' ship '' None))"
        and res = "snd (snd (CreateGoal 5 (replicate 16 0) demo_world demo_agent '' ship '' None))"]) simp

lemma demo_world_facts:
  "gwAgents demo_world (gaID demo_agent) = Some demo_agent" "agent_log demo_world demo_agent = []"
  by (simp_all add: demo_world_def demo_agent_def demo_start_def blank_session_def)

lemma demo_empty_fold: "FoldGoal [] = Ok \<lparr>fgGoal = None, fgRoundsStarted = 0, fgCreatedAt = None, fgUpdatedAt = None, fgLastRef = None\<rparr>"
  by (simp add: FoldGoal_def foldedOf_def EmptyFoldState_def)

definition demo_goal_id :: string where "demo_goal_id = newGoalID (replicate 16 0)"

definition demo_created_fold :: folded_goal where
  "demo_created_fold = \<lparr>fgGoal = Some \<lparr>gsID = demo_goal_id, gsRevision = 1, gsObjective = ''ship'', gsPhase = PhaseActive, gsBlockedReason = None,
     gsMaxGoalRounds = 256\<rparr>, fgRoundsStarted = 0, fgCreatedAt = Some 5, fgUpdatedAt = Some 5, fgLastRef = Some \<lparr>grID = demo_goal_id, grRevision = 1\<rparr>\<rparr>"

lemma demo_created_facts:
  "gwAgents demo_created (gaID demo_agent) = Some demo_agent" 
  "FoldGoal (agent_log demo_created demo_agent) = Ok demo_created_fold"
  "armed demo_created demo_agent"
  "length (agent_log demo_created demo_agent) = 1"
  by code_simp+

lemma demo_pause_spec:
  "goal_spec True 4 demo_created_fold \<lparr>grID = demo_goal_id, grRevision = 1\<rparr> CmdPause = Ok (demo_created_fold\<lparr>fgGoal := Some \<lparr>gsID = demo_goal_id, gsRevision = 2,
     gsObjective = ''ship'', gsPhase = PhasePaused, gsBlockedReason = None, gsMaxGoalRounds = 256\<rparr>, fgLastRef := Some \<lparr>grID = demo_goal_id, grRevision = 2\<rparr>\<rparr>, False)"
  by (simp add: goal_spec_def demo_created_fold_def snapshotRef_def)

theorem goal_service_refines_witness:
  "\<exists>w' n. run_command 4 demo_created demo_agent \<lparr>grID = demo_goal_id, grRevision = 1\<rparr> CmdPause = (w', [n], Ok ())
     \<and> FoldGoal (agent_log w' demo_agent) = Ok (demo_created_fold\<lparr>fgGoal := Some \<lparr>gsID = demo_goal_id, gsRevision = 2,
     gsObjective = ''ship'', gsPhase = PhasePaused, gsBlockedReason = None, gsMaxGoalRounds = 256\<rparr>, fgLastRef := Some \<lparr>grID = demo_goal_id, grRevision = 2\<rparr>\<rparr>)
     \<and> \<not> armed w' demo_agent"
proof -
  have s: "goal_spec (armed demo_created demo_agent) 4 demo_created_fold \<lparr>grID = demo_goal_id, grRevision = 1\<rparr> CmdPause
      = Ok (demo_created_fold\<lparr>fgGoal := Some \<lparr>gsID = demo_goal_id, gsRevision = 2,
     gsObjective = ''ship'', gsPhase = PhasePaused, gsBlockedReason = None, gsMaxGoalRounds = 256\<rparr>, fgLastRef := Some \<lparr>grID = demo_goal_id, grRevision = 2\<rparr>\<rparr>, False)"
    using demo_pause_spec demo_created_facts(3) by simp
  show ?thesis
    using goal_service_refines [OF demo_created_reach demo_created_facts(1,2), of 4 "\<lparr>grID = demo_goal_id, grRevision = 1\<rparr>" CmdPause, unfolded s]
    by (auto simp: maxSafeInteger_def demo_created_fold_def)
qed

theorem goal_create_outcome_witness:
  "\<exists>w' v n. CreateGoal 5 (replicate 16 0) demo_world demo_agent '' ship '' None = (w', [n], Ok v) \<and> armed w' demo_agent"
proof -
  have t: "TrimSpace '' ship '' \<noteq> []" by code_simp
  have r: "revisions_of k [] = []" for k by simp
  have c: "requested_cap demo_world None = 256" by (simp add: requested_cap_def demo_world_def)
  show ?thesis
    using goal_create_outcome [OF demo_world_reach demo_world_facts(1), unfolded demo_world_facts(2), OF demo_empty_fold _ _ r, of 5 "'' ship ''" None "replicate 16 0"] t
    by (auto simp: maxSafeInteger_def may_create_def c split: if_splits)
qed

theorem goal_view_from_log_witness:
  "\<exists>w' act. GetGoal demo_created demo_agent = (w', Ok (Some \<lparr>gvSnapshot = \<lparr>gsID = demo_goal_id, gsRevision = 1, gsObjective = ''ship'',
     gsPhase = PhaseActive, gsBlockedReason = None, gsMaxGoalRounds = 256\<rparr>, gvRoundsStarted = 0, gvCreatedAt = 5, gvUpdatedAt = 5, gvActivation = act\<rparr>))"
proof -
  obtain w' r where g: "GetGoal demo_created demo_agent = (w', r)" by (metis surj_pair)
  show ?thesis
    using goal_view_from_log [OF demo_created_reach demo_created_facts(1) g] demo_created_facts(2) g by (auto simp: demo_created_fold_def)
qed

theorem session_start_disarms_witness:
  "armed demo_created demo_agent \<and> \<not> armed (fst (onSessionStart demo_created (gaSession demo_agent))) demo_agent"
  using session_start_disarms [OF demo_created_reach, of demo_agent "fst (onSessionStart demo_created (gaSession demo_agent))"
      "snd (onSessionStart demo_created (gaSession demo_agent))"] demo_created_facts(3) by simp

theorem refused_create_poisons_log_witness:
  "\<exists>w' x e. CreateGoal (- 1) (replicate 16 0) demo_world demo_agent '' ship '' None = (w', [], Err x)
     \<and> agent_log w' demo_agent = [e] \<and> (\<forall>later. FoldGoal (e # later) = Err x)"
proof -
  have t: "TrimSpace '' ship '' \<noteq> []" by code_simp
  have c: "requested_cap demo_world None = 256" by (simp add: requested_cap_def demo_world_def)
  show ?thesis
    using refused_create_poisons_log [OF demo_world_reach demo_world_facts(1), unfolded demo_world_facts(2), OF demo_empty_fold _ t, of "- 1" None "replicate 16 0"]
    by (auto simp: maxSafeInteger_def may_create_def c)
qed

end
