(* ===== verification/Token_Meter.thy ===== *)
theory Token_Meter
  imports Assistant_Stream Session_Log
begin

text \<open>
  \<open>tokenmeter/estimate.go\<close>, \<open>surfacefold.go\<close>, \<open>routepricing.go\<close> and \<open>meter.go\<close>: the request pressure of a session.
  The meter replays a session's log into a priced copy of its surface, remembers the surface at the start of a step and the
  provider-reported usage of the last call, and prices the surface for the route of the request.  A parameter gives the number of bytes
  that \<open>json.Marshal\<close> writes for a value; a route's image prices and the text of a file are functions the meter is built with.  Estimates are
  sums of lengths of values in memory and are exact integers; sums that take in prices or usage of the provider wrap at 64 bits.
  Shown here: measuring is independent of the cache, the priced surface is the session's, the pressure never falls below the estimate.
\<close>

section \<open>The fixed heuristic\<close>

definition charsPerToken :: int where "charsPerToken = 4"
definition blockOverhead :: int where "blockOverhead = 4"
definition RoleOverhead :: int where "RoleOverhead = 4"

definition ceilDiv :: "nat \<Rightarrow> int" where
  "ceilDiv n = (int n + charsPerToken - 1) div charsPerToken"

definition EstimateStructuralBlock :: "(json \<Rightarrow> nat) \<Rightarrow> content_block \<Rightarrow> int" where
  "EstimateStructuralBlock size' block = blockOverhead + ceilDiv (size' (enc_block block))"

fun EstimateBlock :: "(json \<Rightarrow> nat) \<Rightarrow> content_block \<Rightarrow> int" where
  "EstimateBlock size' (ContentBlock ty tx att i n ar tc c e) =
     (if ty = ''text'' \<or> ty = ''reasoning'' then ceilDiv (length tx) + blockOverhead
      else if ty = ''tool-call'' then ceilDiv (length n) + ceilDiv (length ar) + blockOverhead
      else if ty = ''tool-result''
        then (case c of None \<Rightarrow> 0 | Some bs \<Rightarrow> sum_list (map (EstimateBlock size') bs)) + blockOverhead
      else EstimateStructuralBlock size' (ContentBlock ty tx att i n ar tc c e))"

definition EstimateContent :: "(json \<Rightarrow> nat) \<Rightarrow> content_block list \<Rightarrow> int" where
  "EstimateContent size' blocks = sum_list (map (EstimateBlock size') blocks)"

definition contentOf :: "message \<Rightarrow> content_block list" where
  "contentOf m = (case msgContent m of None \<Rightarrow> [] | Some bs \<Rightarrow> bs)"

definition EstimateMessage :: "(json \<Rightarrow> nat) \<Rightarrow> message \<Rightarrow> int" where
  "EstimateMessage size' m = EstimateContent size' (contentOf m) + RoleOverhead"

definition EstimateSystemTokens :: "epoch_header option \<Rightarrow> int" where
  "EstimateSystemTokens header =
     (case header of None \<Rightarrow> 0 | Some h \<Rightarrow> if ehSystem h = [] then 0 else ceilDiv (length (ehSystem h)) + RoleOverhead)"

definition EstimateToolsTokens :: "(json \<Rightarrow> nat) \<Rightarrow> epoch_header option \<Rightarrow> int" where
  "EstimateToolsTokens size' header =
     (case header of
        None \<Rightarrow> 0
      | Some h \<Rightarrow> (case ehTools h of
                     Some (t # ts) \<Rightarrow> ceilDiv (size' (JArr (map enc_schema (t # ts)))) + blockOverhead
                   | _ \<Rightarrow> 0))"

definition EstimateHeader :: "(json \<Rightarrow> nat) \<Rightarrow> epoch_header option \<Rightarrow> int" where
  "EstimateHeader size' header = EstimateSystemTokens header + EstimateToolsTokens size' header"

definition BaselineNone :: string where "BaselineNone = ''none''"
definition BaselineEstimated :: string where "BaselineEstimated = ''estimated''"
definition BaselineUsage :: string where "BaselineUsage = ''usage''"

record baseline =
  blKind :: string
  blTokens :: int
  blUsage :: "token_usage option"

record token_surface_node =
  tnSeq :: int
  tnTokens :: int
  tnHeuristicTokens :: int

record measurement =
  meLogRevision :: int
  meBaseline :: baseline
  meSurfaceDeltaTokens :: int
  meTotalTokens :: int
  meSurfaceTokens :: int
  meNodes :: "token_surface_node list"

definition usageTokens :: "token_usage \<Rightarrow> int" where
  "usageTokens u =
     (let total = i64 (tuInputTokens u + tuOutputTokens u);
          total = (case tuCacheReadTokens u of None \<Rightarrow> total | Some n \<Rightarrow> i64 (total + n))
      in case tuCacheWriteTokens u of None \<Rightarrow> total | Some n \<Rightarrow> i64 (total + n))"

definition maxInt64 :: "int \<Rightarrow> int" where
  "maxInt64 v = (if v < 0 then 0 else if v > 9007199254740991 then max_int64 else v)"

definition optionalHeaderEquals :: "epoch_header option \<Rightarrow> epoch_header option \<Rightarrow> ('e, bool) outcome" where
  "optionalHeaderEquals left right =
     (case (left, right) of (Some a, Some b) \<Rightarrow> HeaderEquals a b | (None, None) \<Rightarrow> Ok True | _ \<Rightarrow> Ok False)"

section \<open>The priced surface\<close>

record meter_node =
  mnSeq :: int
  mnHeuristicTokens :: int
  mnImageFreeTokens :: int
  mnImages :: "json list"
  mnFiles :: "json list"

record surface_token_plan =
  stTokens :: int
  stDeltaTokens :: int
  stNode :: meter_node
  stReplace :: "(nat \<times> nat) option"

fun collectBlock :: "string \<Rightarrow> content_block \<Rightarrow> content_block list" where
  "collectBlock kind (ContentBlock ty tx att i n ar tc c e) =
     (if ty = kind then [ContentBlock ty tx att i n ar tc c e]
      else if ty = ''tool-result'' then (case c of None \<Rightarrow> [] | Some bs \<Rightarrow> concat (map (collectBlock kind) bs))
      else [])"

definition collectImages :: "(json \<Rightarrow> nat) \<Rightarrow> content_block list \<Rightarrow> json list \<times> int" where
  "collectImages size' blocks =
     (let found = concat (map (collectBlock ''image'') blocks)
      in (map cbAttachment found, sum_list (map (EstimateStructuralBlock size') found)))"

definition collectFiles :: "content_block list \<Rightarrow> json list" where
  "collectFiles blocks = map cbAttachment (concat (map (collectBlock ''file'') blocks))"

definition analyzeNode :: "(json \<Rightarrow> nat) \<Rightarrow> int \<Rightarrow> message option \<Rightarrow> meter_node" where
  "analyzeNode size' seq message =
     (case message of
        None \<Rightarrow> \<lparr>mnSeq = seq, mnHeuristicTokens = 0, mnImageFreeTokens = 0, mnImages = [], mnFiles = []\<rparr>
      | Some m \<Rightarrow>
          let heuristicTokens = EstimateMessage size' m; (images, structural) = collectImages size' (contentOf m)
          in \<lparr>mnSeq = seq, mnHeuristicTokens = heuristicTokens, mnImageFreeTokens = heuristicTokens - structural,
              mnImages = images, mnFiles = collectFiles (contentOf m)\<rparr>)"

datatype meter_error =
    InvalidCurrentRange int int int | HeaderPayload int | StepOpen int | StepPayload int | StepUnmatched int
  | AssistantUnmatched int | AssistantPayload int | SourceNotEarlier int int | SourceRepeated int int
  | SourceNotChunk int int | SourcePayload int int | SourceOtherStep int int | EmbeddedStream int stream_error
  | AssemblyFailed stream_error | ImagePriceCount int int

definition firstIndexOfSeq :: "meter_node list \<Rightarrow> int \<Rightarrow> nat option" where
  "firstIndexOfSeq nodes seq = index_of seq (map mnSeq nodes)"

definition PlanSurfaceTokens :: "(json \<Rightarrow> nat) \<Rightarrow> meter_node list \<Rightarrow> event \<Rightarrow> (meter_error, surface_token_plan) outcome" where
  "PlanSurfaceTokens size' nodes event =
     (let node = analyzeNode size' (evSeq event) (DeriveEventMessage event); tokens = mnHeuristicTokens node;
          appended = Ok \<lparr>stTokens = tokens, stDeltaTokens = tokens, stNode = node, stReplace = None\<rparr> in
      case evSurfaceOp event of
        None \<Rightarrow> appended
      | Some o' \<Rightarrow>
          if opKind o' = ''append'' then appended
          else (case (firstIndexOfSeq nodes (opStart o'), firstIndexOfSeq nodes (opEnd o')) of
                  (Some startIdx, Some endIdx) \<Rightarrow>
                    if startIdx > endIdx then Err (InvalidCurrentRange (evSeq event) (opStart o') (opEnd o'))
                    else
                      let removed = sum_list (map mnHeuristicTokens (take (endIdx + 1 - startIdx) (drop startIdx nodes)))
                      in Ok \<lparr>stTokens = tokens, stDeltaTokens = tokens - removed, stNode = node, stReplace = Some (startIdx, endIdx)\<rparr>
                | _ \<Rightarrow> Err (InvalidCurrentRange (evSeq event) (opStart o') (opEnd o'))))"

definition CommitSurfaceTokens :: "meter_node list \<Rightarrow> surface_token_plan \<Rightarrow> meter_node list" where
  "CommitSurfaceTokens nodes plan =
     (case stReplace plan of
        None \<Rightarrow> nodes @ [stNode plan]
      | Some (startIdx, endIdx) \<Rightarrow> take startIdx nodes @ [stNode plan] @ drop (endIdx + 1) nodes)"

section \<open>Route pricing\<close>

record image_price =
  ipVisualTokens :: int
  ipText :: string

type_synonym pricing = "json list \<Rightarrow> image_price list"

record priced_surface =
  psNodes :: "token_surface_node list"
  psSurfaceTokens :: int

definition textPrice :: "(json \<Rightarrow> nat) \<Rightarrow> string \<Rightarrow> int" where
  "textPrice size' s = EstimateContent size' [ContentBlock ''text'' s JNull [] [] [] [] None False]"

definition pricedSurface :: "token_surface_node list \<Rightarrow> priced_surface" where
  "pricedSurface nodes = \<lparr>psNodes = nodes, psSurfaceTokens = foldl (\<lambda>t n. i64 (t + tnTokens n)) 0 nodes\<rparr>"

definition publicNode :: "meter_node \<Rightarrow> int \<Rightarrow> token_surface_node" where
  "publicNode node tokens = \<lparr>tnSeq = mnSeq node, tnTokens = tokens, tnHeuristicTokens = mnHeuristicTokens node\<rparr>"

definition filePrice :: "(json \<Rightarrow> nat) \<Rightarrow> (json \<Rightarrow> string) \<Rightarrow> meter_node \<Rightarrow> int \<Rightarrow> int" where
  "filePrice size' fileText node tokens = foldl (\<lambda>t file. i64 (t + textPrice size' (fileText file))) tokens (mnFiles node)"

definition withFiles :: "(json \<Rightarrow> nat) \<Rightarrow> (json \<Rightarrow> string) option \<Rightarrow> meter_node \<Rightarrow> int \<Rightarrow> int" where
  "withFiles size' fileText node tokens = (case fileText of None \<Rightarrow> tokens | Some ft \<Rightarrow> filePrice size' ft node tokens)"

definition heuristicSurface :: "meter_node list \<Rightarrow> priced_surface" where
  "heuristicSurface nodes = pricedSurface (map (\<lambda>n. publicNode n (mnHeuristicTokens n)) nodes)"

definition fileAwareSurface :: "(json \<Rightarrow> nat) \<Rightarrow> (json \<Rightarrow> string) option \<Rightarrow> meter_node list \<Rightarrow> priced_surface" where
  "fileAwareSurface size' fileText nodes =
     pricedSurface (map (\<lambda>n. publicNode n (withFiles size' fileText n (mnHeuristicTokens n))) nodes)"

text \<open>The loop over the nodes; the prices are consumed in order, one per image occurrence.\<close>

fun priceNodes :: "(json \<Rightarrow> nat) \<Rightarrow> (json \<Rightarrow> string) option \<Rightarrow> image_price list \<Rightarrow> meter_node list \<Rightarrow> token_surface_node list" where
  "priceNodes size' fileText prices [] = []"
| "priceNodes size' fileText prices (node # rest) =
     (let mine = take (length (mnImages node)) prices;
          tokens = (if mnImages node = [] then mnHeuristicTokens node
                    else foldl (\<lambda>t p. i64 (t + ipVisualTokens p + textPrice size' (ipText p))) (mnImageFreeTokens node) mine)
      in publicNode node (withFiles size' fileText node tokens)
           # priceNodes size' fileText (drop (length (mnImages node)) prices) rest)"

definition PriceSurface ::
    "(json \<Rightarrow> nat) \<Rightarrow> meter_node list \<Rightarrow> pricing option \<Rightarrow> (json \<Rightarrow> string) option \<Rightarrow> (meter_error, priced_surface) outcome" where
  "PriceSurface size' nodes pricing fileText =
     (case pricing of
        None \<Rightarrow> Ok (if fileText = None then heuristicSurface nodes else fileAwareSurface size' fileText nodes)
      | Some price \<Rightarrow>
          let images = concat (map mnImages nodes) in
          if images = [] then Ok (fileAwareSurface size' fileText nodes)
          else let prices = price images in
               if length prices \<noteq> length images then Err (ImagePriceCount (int (length prices)) (int (length images)))
               else Ok (pricedSurface (priceNodes size' fileText prices nodes)))"

section \<open>The replay state\<close>

record measurement_anchor =
  maHeader :: "epoch_header option"
  maNodes :: "meter_node list"
  maAssistantTokens :: int
  maUsage :: "token_usage option"

record step_start_mark =
  smTurn :: int
  smStep :: int
  smNodes :: "meter_node list"

record replay_state =
  rsConsumedEvents :: int
  rsHeader :: "epoch_header option"
  rsSurface :: "meter_node list"
  rsStepStart :: "step_start_mark option"
  rsAnchor :: "measurement_anchor option"

definition empty_replay :: replay_state where
  "empty_replay = \<lparr>rsConsumedEvents = 0, rsHeader = None, rsSurface = [], rsStepStart = None, rsAnchor = None\<rparr>"

record chunk_data =
  cdTurn :: int
  cdStep :: int
  cdChunk :: stream_chunk

definition dec_chunk_data :: "chunk_data decoder" where
  "dec_chunk_data = dec_struct [(''turn'', fld cdTurn cdTurn_update dec_int64), (''step'', fld cdStep cdStep_update dec_int64),
     (''chunk'', fld cdChunk cdChunk_update dec_chunk)]"

text \<open>The price of assembled provider output: nothing for no block.\<close>

definition assembledTokens :: "(json \<Rightarrow> nat) \<Rightarrow> assembler \<Rightarrow> (meter_error, int) outcome" where
  "assembledTokens size' a =
     andThen (map_err AssemblyFailed (Blocks a)) (\<lambda>blocks.
       Ok (if blocks = [] then 0 else EstimateContent size' blocks + RoleOverhead))"

definition embeddedStream :: "event \<Rightarrow> raw" where
  "embeddedStream event = (case unmarshal_ok (dec_struct [(''stream'', dec_raw)]) None (evData event) of None \<Rightarrow> None | Some stream \<Rightarrow> stream)"

definition embeddedStreamTokens :: "(json \<Rightarrow> nat) \<Rightarrow> event \<Rightarrow> raw \<Rightarrow> (meter_error, int) outcome" where
  "embeddedStreamTokens size' event stream =
     andThen (map_err (EmbeddedStream (evSeq event)) (ParseAssistantStream stream)) (\<lambda>records.
     andThen (map_err (EmbeddedStream (evSeq event)) (ExpandAssistantStream records)) (\<lambda>timed.
     andThen (map_err AssemblyFailed (foldM (\<lambda>a member. Push a (tmChunk member)) NewBlockAssembler timed)) (assembledTokens size')))"

fun sourceChunks :: "event \<Rightarrow> event list \<Rightarrow> assistant_message_data \<Rightarrow> int list \<Rightarrow> assembler \<Rightarrow> int list \<Rightarrow> (meter_error, assembler) outcome" where
  "sourceChunks event events messageData seen a [] = Ok a"
| "sourceChunks event events messageData seen a (seq # rest) =
     (if seq \<ge> evSeq event then Err (SourceNotEarlier (evSeq event) seq)
      else if seq \<in> set seen then Err (SourceRepeated (evSeq event) seq)
      else if seq \<ge> int (length events) then Err (SourceNotEarlier (evSeq event) seq)
      else if seq < 0 then Panic
      else
        let source = events ! nat seq in
        if evType source \<noteq> EventAssistantChunk then Err (SourceNotChunk (evSeq event) seq)
        else (case unmarshal_ok dec_chunk_data \<lparr>cdTurn = 0, cdStep = 0, cdChunk = zero_chunk\<rparr> (evData source) of
                None \<Rightarrow> Err (SourcePayload (evSeq event) seq)
              | Some chunkData \<Rightarrow>
                  if cdTurn chunkData \<noteq> amTurn messageData \<or> cdStep chunkData \<noteq> amStep messageData
                  then Err (SourceOtherStep (evSeq event) seq)
                  else andThen (map_err AssemblyFailed (Push a (cdChunk chunkData))) (\<lambda>a'.
                         sourceChunks event events messageData (seq # seen) a' rest)))"

definition estimateProviderAssistant :: "(json \<Rightarrow> nat) \<Rightarrow> event \<Rightarrow> event list \<Rightarrow> int \<Rightarrow> (meter_error, int) outcome" where
  "estimateProviderAssistant size' event events durableEventTokens =
     (case evSourceEventSeqs event of
        None \<Rightarrow> (case embeddedStream event of None \<Rightarrow> Ok durableEventTokens | Some j \<Rightarrow> embeddedStreamTokens size' event (Some j))
      | Some sourceSeqs \<Rightarrow>
          (case unmarshal_ok dec_assistant zero_assistant (evData event) of
             None \<Rightarrow> Err (AssistantPayload (evSeq event))
           | Some messageData \<Rightarrow>
               andThen (sourceChunks event events messageData [] NewBlockAssembler sourceSeqs) (assembledTokens size')))"

text \<open>The three fallible parts of \<open>foldEvent\<close>: envelope and step bracket, surface plan, anchor; the state changes after all of them.\<close>

definition nextHeaderStep :: "replay_state \<Rightarrow> event \<Rightarrow> (meter_error, epoch_header option \<times> step_start_mark option) outcome" where
  "nextHeaderStep state event =
     (if evType event = EventRequestHeader then
        (case unmarshal_ok dec_request_header zero_request_header (evData event) of
           None \<Rightarrow> Err (HeaderPayload (evSeq event))
         | Some payload \<Rightarrow> Ok (Some (CanonicalHeader (rhHeader payload)), rsStepStart state))
      else if evType event = EventStepStart then
        (if rsStepStart state \<noteq> None then Err (StepOpen (evSeq event))
         else case unmarshal_ok dec_step_data \<lparr>sdTurn = 0, sdStep = 0\<rparr> (evData event) of
                None \<Rightarrow> Err (StepPayload (evSeq event))
              | Some payload \<Rightarrow> Ok (rsHeader state, Some \<lparr>smTurn = sdTurn payload, smStep = sdStep payload, smNodes = rsSurface state\<rparr>))
      else if evType event = EventStepEnd then
        (case unmarshal_ok dec_step_data \<lparr>sdTurn = 0, sdStep = 0\<rparr> (evData event) of
           None \<Rightarrow> Err (StepPayload (evSeq event))
         | Some payload \<Rightarrow>
             (case rsStepStart state of
                Some mark \<Rightarrow> if smTurn mark \<noteq> sdTurn payload \<or> smStep mark \<noteq> sdStep payload then Err (StepUnmatched (evSeq event))
                             else Ok (rsHeader state, None)
              | None \<Rightarrow> Err (StepUnmatched (evSeq event))))
      else Ok (rsHeader state, rsStepStart state))"

definition surfacePlan :: "(json \<Rightarrow> nat) \<Rightarrow> replay_state \<Rightarrow> event \<Rightarrow> (meter_error, surface_token_plan option) outcome" where
  "surfacePlan size' state event =
     (if IsSurfaceEventType (evType event) then andThen (PlanSurfaceTokens size' (rsSurface state) event) (\<lambda>p. Ok (Some p)) else Ok None)"

definition nextAnchor ::
    "(json \<Rightarrow> nat) \<Rightarrow> replay_state \<Rightarrow> event \<Rightarrow> event list \<Rightarrow> epoch_header option \<Rightarrow> surface_token_plan option
       \<Rightarrow> (meter_error, measurement_anchor option) outcome" where
  "nextAnchor size' state event events header plan =
     (if evType event \<noteq> EventAssistantMsg then Ok (rsAnchor state)
      else case rsStepStart state of
             None \<Rightarrow> Err (AssistantUnmatched (evSeq event))
           | Some stepStart \<Rightarrow>
               (case unmarshal_ok dec_assistant zero_assistant (evData event) of
                  None \<Rightarrow> Err (AssistantPayload (evSeq event))
                | Some payload \<Rightarrow>
                    if smTurn stepStart \<noteq> amTurn payload \<or> smStep stepStart \<noteq> amStep payload then Err (AssistantUnmatched (evSeq event))
                    else (case plan of
                            None \<Rightarrow> Panic
                          | Some p \<Rightarrow>
                              if amUsage payload \<noteq> None \<and> header \<noteq> None then
                                andThen (estimateProviderAssistant size' event events (stTokens p)) (\<lambda>assistantTokens.
                                  Ok (Some \<lparr>maHeader = header, maNodes = smNodes stepStart, maAssistantTokens = assistantTokens, maUsage = amUsage payload\<rparr>))
                              else Ok (Some \<lparr>maHeader = header, maNodes = smNodes stepStart, maAssistantTokens = stTokens p, maUsage = None\<rparr>))))"

definition foldEvent :: "(json \<Rightarrow> nat) \<Rightarrow> replay_state \<Rightarrow> event \<Rightarrow> event list \<Rightarrow> (meter_error, replay_state) outcome" where
  "foldEvent size' state event events =
     andThen (nextHeaderStep state event) (\<lambda>(header, stepStart).
     andThen (surfacePlan size' state event) (\<lambda>plan.
     andThen (nextAnchor size' state event events header plan) (\<lambda>anchor.
       Ok (state\<lparr>rsHeader := header, rsStepStart := stepStart,
             rsSurface := (case plan of None \<Rightarrow> rsSurface state | Some p \<Rightarrow> CommitSurfaceTokens (rsSurface state) p), rsAnchor := anchor\<rparr>))))"

text \<open>\<open>Sync\<close> keeps the state of the last event that folded; the counter is the position in the log.\<close>

fun syncMeter :: "(json \<Rightarrow> nat) \<Rightarrow> event list \<Rightarrow> replay_state \<Rightarrow> event list \<Rightarrow> replay_state \<times> (meter_error, unit) outcome" where
  "syncMeter size' events state [] = (state, Ok ())"
| "syncMeter size' events state (event # rest) =
     (case foldEvent size' state event events of
        Err e \<Rightarrow> (state, Err e)
      | Panic \<Rightarrow> (state, Panic)
      | Ok state' \<Rightarrow> syncMeter size' events (state'\<lparr>rsConsumedEvents := rsConsumedEvents state' + 1\<rparr>) rest)"

definition Sync :: "(json \<Rightarrow> nat) \<Rightarrow> replay_state option \<Rightarrow> event list \<Rightarrow> replay_state \<times> (meter_error, unit) outcome" where
  "Sync size' entry events =
     (let state = (case entry of None \<Rightarrow> empty_replay | Some st \<Rightarrow> st)
      in syncMeter size' events state (drop (nat (rsConsumedEvents state)) events))"

section \<open>Measurement\<close>

record meter =
  mtRoutePricing :: "(string \<Rightarrow> string \<Rightarrow> pricing option) option"
  mtFileText :: "(json \<Rightarrow> string) option"

definition routeFor :: "meter \<Rightarrow> epoch_header option \<Rightarrow> pricing option" where
  "routeFor m header =
     (case (header, mtRoutePricing m) of (Some h, Some f) \<Rightarrow> f (ccProvider (ehConfig h)) (ccModel (ehConfig h)) | _ \<Rightarrow> None)"

definition unanchored :: "(json \<Rightarrow> nat) \<Rightarrow> epoch_header option \<Rightarrow> priced_surface \<Rightarrow> baseline" where
  "unanchored size' header surface =
     (if header = None \<and> psSurfaceTokens surface = 0 then \<lparr>blKind = BaselineNone, blTokens = 0, blUsage = None\<rparr>
      else \<lparr>blKind = BaselineEstimated, blTokens = i64 (EstimateHeader size' header + psSurfaceTokens surface), blUsage = None\<rparr>)"

definition baselineOf ::
    "(json \<Rightarrow> nat) \<Rightarrow> meter \<Rightarrow> replay_state \<Rightarrow> epoch_header option \<Rightarrow> priced_surface \<Rightarrow> (meter_error, baseline \<times> int) outcome" where
  "baselineOf size' m state header surface =
     andThen (case rsAnchor state of None \<Rightarrow> Ok False | Some anchor \<Rightarrow> optionalHeaderEquals (maHeader anchor) header) (\<lambda>matched.
     case rsAnchor state of
       Some anchor \<Rightarrow>
         if matched then
           andThen (PriceSurface size' (maNodes anchor) (routeFor m header) (mtFileText m)) (\<lambda>anchorPriced.
             let anchorSurfaceTokens = i64 (psSurfaceTokens anchorPriced + maAssistantTokens anchor);
                 estimatedAnchorTokens = i64 (EstimateHeader size' header + anchorSurfaceTokens);
                 base = (case maUsage anchor of
                           Some usage \<Rightarrow>
                             if usageTokens usage \<ge> estimatedAnchorTokens
                             then \<lparr>blKind = BaselineUsage, blTokens = usageTokens usage, blUsage = Some usage\<rparr>
                             else \<lparr>blKind = BaselineEstimated, blTokens = estimatedAnchorTokens, blUsage = None\<rparr>
                         | None \<Rightarrow> \<lparr>blKind = BaselineEstimated, blTokens = estimatedAnchorTokens, blUsage = None\<rparr>)
             in Ok (base, i64 (psSurfaceTokens surface - anchorSurfaceTokens)))
         else Ok (unanchored size' header surface, 0)
     | None \<Rightarrow> Ok (unanchored size' header surface, 0))"

definition Measure ::
    "(json \<Rightarrow> nat) \<Rightarrow> meter \<Rightarrow> replay_state option \<Rightarrow> event list \<Rightarrow> epoch_header option
       \<Rightarrow> replay_state \<times> (meter_error, measurement) outcome" where
  "Measure size' m entry events requestHeader =
     (case Sync size' entry events of
        (state, synced) \<Rightarrow>
          (state, andThen synced (\<lambda>_.
             let header = (case requestHeader of Some h \<Rightarrow> Some (CanonicalHeader h) | None \<Rightarrow> rsHeader state) in
             andThen (PriceSurface size' (rsSurface state) (routeFor m header) (mtFileText m)) (\<lambda>surface.
             andThen (baselineOf size' m state header surface) (\<lambda>(base, delta).
               Ok \<lparr>meLogRevision = rsConsumedEvents state, meBaseline = base, meSurfaceDeltaTokens = delta,
                   meTotalTokens = maxInt64 (i64 (blTokens base + delta)), meSurfaceTokens = psSurfaceTokens surface,
                   meNodes = psNodes surface\<rparr>)))))"

section \<open>What the fold of one event reads\<close>

text \<open>The cited chunks lie before the event, so a longer log makes no difference.\<close>

lemma sourceChunks_prefix:
  "evSeq e \<le> int (length evs) \<Longrightarrow> sourceChunks e (evs @ ys) md seen a xs = sourceChunks e evs md seen a xs"
proof (induction xs arbitrary: seen a)
  case (Cons x xs)
  then show ?case
    by (cases "x \<ge> evSeq e") (auto simp: nth_append nat_less_iff Let_def intro!: option.case_cong outcome.case_cong)
qed simp

lemma estimateProviderAssistant_prefix:
  assumes "evSeq e \<le> int (length evs)"
  shows "estimateProviderAssistant size' e (evs @ ys) = estimateProviderAssistant size' e evs"
  unfolding estimateProviderAssistant_def sourceChunks_prefix [OF assms] ..

lemma foldEvent_prefix:
  assumes "evSeq e \<le> int (length evs)"
  shows "foldEvent size' st e (evs @ ys) = foldEvent size' st e evs"
  unfolding foldEvent_def nextAnchor_def estimateProviderAssistant_prefix [OF assms] ..

lemma syncMeter_append:
  "syncMeter size' evs st (xs @ zs) =
     (case syncMeter size' evs st xs of (st', Ok u) \<Rightarrow> syncMeter size' evs st' zs | r \<Rightarrow> r)"
  by (induction xs arbitrary: st) (auto split: outcome.split)

lemma syncMeter_prefix:
  assumes "\<forall>e \<in> set xs. evSeq e \<le> int (length evs)"
  shows "syncMeter size' (evs @ ys) st xs = syncMeter size' evs st xs"
  using assms by (induction xs arbitrary: st) (auto simp: foldEvent_prefix split: outcome.split)

lemma foldEvent_consumed: "foldEvent size' st e evs = Ok st' \<Longrightarrow> rsConsumedEvents st' = rsConsumedEvents st"
  by (auto simp: foldEvent_def outcome_simps)

lemma syncMeter_consumed:
  "syncMeter size' evs st xs = (st', Ok u) \<Longrightarrow> rsConsumedEvents st' = rsConsumedEvents st + int (length xs)"
  by (induction xs arbitrary: st) (auto dest: foldEvent_consumed split: outcome.splits)

text \<open>A run stops at some position: the events before it folded, the state is theirs.\<close>

lemma syncMeter_stops:
  assumes "syncMeter size' evs st xs = (st', r)"
  obtains k where "k \<le> length xs" "syncMeter size' evs st (take k xs) = (st', Ok ())"
    "r = Ok () \<Longrightarrow> k = length xs"
    "r \<noteq> Ok () \<Longrightarrow> k < length xs"
proof -
  have "\<exists>k \<le> length xs. syncMeter size' evs st (take k xs) = (st', Ok ()) \<and> (r = Ok () \<longrightarrow> k = length xs) \<and> (r \<noteq> Ok () \<longrightarrow> k < length xs)"
    using assms
  proof (induction xs arbitrary: st)
    case (Cons x xs)
    show ?case
    proof (cases "foldEvent size' st x evs")
      case (Ok st1)
      then have run: "syncMeter size' evs (st1\<lparr>rsConsumedEvents := rsConsumedEvents st1 + 1\<rparr>) xs = (st', r)"
        using Cons.prems by simp
      obtain k where k: "k \<le> length xs"
        "syncMeter size' evs (st1\<lparr>rsConsumedEvents := rsConsumedEvents st1 + 1\<rparr>) (take k xs) = (st', Ok ())"
        "(r = Ok () \<longrightarrow> k = length xs)" "(r \<noteq> Ok () \<longrightarrow> k < length xs)"
        using Cons.IH [OF run] by blast
      from k Ok show ?thesis by (intro exI [of _ "Suc k"]) simp
    qed (use Cons.prems in \<open>auto intro!: exI [of _ 0]\<close>)
  qed auto
  with that show thesis by blast
qed

section \<open>The cache of one session\<close>

definition meter_ok :: "(json \<Rightarrow> nat) \<Rightarrow> replay_state \<Rightarrow> event list \<Rightarrow> bool" where
  "meter_ok size' st evs \<longleftrightarrow>
     (\<exists>k \<le> length evs. syncMeter size' evs empty_replay (take k evs) = (st, Ok ()))"

definition contiguous_log :: "event list \<Rightarrow> bool" where
  "contiguous_log evs \<longleftrightarrow> (\<forall>i < length evs. evSeq (evs ! i) = int i)"

lemma meter_ok_empty [simp]: "meter_ok size' empty_replay evs"
  by (auto simp: meter_ok_def intro!: exI [of _ 0])

lemma meter_ok_grows:
  assumes "meter_ok size' st evs" and "contiguous_log evs"
  shows "meter_ok size' st (evs @ ys)"
proof -
  from assms(1) obtain k where k: "k \<le> length evs" "syncMeter size' evs empty_replay (take k evs) = (st, Ok ())"
    unfolding meter_ok_def by blast
  have "\<forall>e \<in> set (take k evs). evSeq e \<le> int (length evs)"
    using assms(2) k(1) by (force simp: contiguous_log_def in_set_conv_nth)
  from syncMeter_prefix [OF this, of size' ys empty_replay] k show ?thesis
    by (auto simp: meter_ok_def intro!: exI [of _ k])
qed

lemma Sync_resume:
  assumes "meter_ok size' st evs"
  shows "Sync size' (Some st) evs = Sync size' None evs"
proof -
  from assms obtain k where k: "k \<le> length evs" "syncMeter size' evs empty_replay (take k evs) = (st, Ok ())"
    unfolding meter_ok_def by blast
  have "rsConsumedEvents st = int k"
    using syncMeter_consumed [OF k(2)] k(1) by (simp add: empty_replay_def)
  moreover have "Sync size' None evs = syncMeter size' evs empty_replay (take k evs @ drop k evs)"
    by (simp add: Sync_def empty_replay_def)
  ultimately show ?thesis
    unfolding syncMeter_append k(2) by (simp add: Sync_def)
qed

lemma Sync_keeps:
  assumes "Sync size' None evs = (st, r)"
  shows "meter_ok size' st evs"
proof -
  have "syncMeter size' evs empty_replay evs = (st, r)"
    using assms by (simp add: Sync_def empty_replay_def)
  from syncMeter_stops [OF this] obtain k where "k \<le> length evs" "syncMeter size' evs empty_replay (take k evs) = (st, Ok ())"
    by metis
  then show ?thesis unfolding meter_ok_def by blast
qed

section \<open>Prices\<close>

lemma i64_add_left: "i64 (i64 a + b) = i64 (a + b)"
  by (simp add: i64_def mod_simps algebra_simps)

lemma foldl_i64: "foldl (\<lambda>t n. i64 (t + f n)) (i64 a) xs = i64 (a + sum_list (map f xs))"
  by (induction xs arbitrary: a) (simp_all add: i64_add_left add.assoc)

lemma psSurfaceTokens_pricedSurface:
  "psSurfaceTokens (pricedSurface nodes) = i64 (sum_list (map tnTokens nodes))"
  using foldl_i64 [of tnTokens 0 nodes] by (simp add: pricedSurface_def)

lemma priceNodes_identity:
  "map tnSeq (priceNodes size' ft prices nodes) = map mnSeq nodes"
  "map tnHeuristicTokens (priceNodes size' ft prices nodes) = map mnHeuristicTokens nodes"
  by (induction nodes arbitrary: prices) (simp_all add: publicNode_def Let_def)

text \<open>However the nodes are priced, the rows keep the nodes' order and identity and the total is the wrapped sum of the rows.\<close>

lemma PriceSurface_rows:
  assumes "PriceSurface size' nodes pricing ft = Ok s"
  shows "map tnSeq (psNodes s) = map mnSeq nodes"
    and "map tnHeuristicTokens (psNodes s) = map mnHeuristicTokens nodes"
    and "psSurfaceTokens s = i64 (sum_list (map tnTokens (psNodes s)))"
proof -
  from assms obtain rows where s: "s = pricedSurface rows"
    and rows: "map tnSeq rows = map mnSeq nodes" "map tnHeuristicTokens rows = map mnHeuristicTokens nodes"
    by (auto simp: PriceSurface_def heuristicSurface_def fileAwareSurface_def Let_def publicNode_def o_def
        priceNodes_identity split: option.splits if_splits)
  then show "map tnSeq (psNodes s) = map mnSeq nodes"
    "map tnHeuristicTokens (psNodes s) = map mnHeuristicTokens nodes"
    by (simp_all add: pricedSurface_def)
  show "psSurfaceTokens s = i64 (sum_list (map tnTokens (psNodes s)))"
    using s psSurfaceTokens_pricedSurface [of rows] by (simp add: pricedSurface_def)
qed

lemma maxInt64_bounds: "0 \<le> maxInt64 v" "in_i64 v \<Longrightarrow> in_i64 (maxInt64 v)"
  by (auto simp: maxInt64_def in_i64_def max_int64_def min_int64_def)

section \<open>The folded surface is the session's\<close>

definition priced_node :: "(json \<Rightarrow> nat) \<Rightarrow> event list \<Rightarrow> int \<Rightarrow> meter_node" where
  "priced_node size' evs seq = analyzeNode size' seq (deriveNode evs seq)"

lemma analyzeNode_seq [simp]: "mnSeq (analyzeNode size' seq m) = seq"
  by (simp add: analyzeNode_def Let_def split: option.split prod.split)

lemma mnSeq_priced [simp]: "map mnSeq (map (priced_node size' evs) seqs) = seqs"
  by (simp add: o_def priced_node_def)

lemma priced_node_new: "priced_node size' (evs @ [e]) (int (length evs)) = analyzeNode size' (int (length evs)) (DeriveEventMessage e)"
  by (simp add: priced_node_def deriveNode_def)

lemma priced_nodes_grow:
  assumes "surface_ok ss evs" and "set seqs \<subseteq> set (ssNodes ss)"
  shows "map (priced_node size' (evs @ [e])) seqs = map (priced_node size' evs) seqs"
proof (rule map_cong [OF refl])
  fix x assume "x \<in> set seqs"
  then have "0 \<le> x" "x < int (length evs)" using assms by (auto simp: surface_ok_def)
  then show "priced_node size' (evs @ [e]) x = priced_node size' evs x"
    by (simp add: priced_node_def deriveNode_def nth_append nat_less_iff)
qed

lemma nextHeaderStep_header:
  "nextHeaderStep st e = Ok (h, mark) \<Longrightarrow> h = headerStep (rsHeader st) e"
  by (auto simp: nextHeaderStep_def headerStep_def EventRequestHeader_def EventStepStart_def EventStepEnd_def
      split: if_splits option.splits)

lemma foldEvent_parts:
  assumes "foldEvent size' st e evs = Ok st'"
  obtains plan where "surfacePlan size' st e = Ok plan" "rsHeader st' = headerStep (rsHeader st) e"
    "rsSurface st' = (case plan of None \<Rightarrow> rsSurface st | Some p \<Rightarrow> CommitSurfaceTokens (rsSurface st) p)"
  using assms by (auto simp: foldEvent_def outcome_simps dest!: nextHeaderStep_header)

text \<open>One event: the meter's plan is the session's plan, and committing it prices the session's new node list.\<close>

lemma commit_follows_plan:
  assumes ok: "surface_ok ss evs" and plan: "planSurfaceEvent ss e (int (length evs)) evs 0 = Ok p"
    and ap: "applySurfacePlan ss p = Ok (ss', r)" and surf: "rsSurface st = map (priced_node size' evs) (ssNodes ss)"
    and mp: "surfacePlan size' st e = Ok plan'"
  shows "(case plan' of None \<Rightarrow> rsSurface st | Some q \<Rightarrow> CommitSurfaceTokens (rsSurface st) q)
     = map (priced_node size' (evs @ [e])) (ssNodes ss')"
  using plan
proof (cases rule: planSurfaceEvent_cases)
  case none
  with mp ap surf show ?thesis
    by (auto simp: surfacePlan_def applySurfacePlan_def priced_nodes_grow [OF ok])
next
  case (app o')
  with mp ap surf show ?thesis
    by (auto simp: surfacePlan_def applySurfacePlan_def PlanSurfaceTokens_def CommitSurfaceTokens_def Let_def SurfaceAppend_def
        priced_node_new outcome_simps priced_nodes_grow [OF ok, of "ssNodes ss"])
next
  case (rep o' s t sh)
  note range = replacementRange_Ok [OF rep(6)]
  have idx: "firstIndexOfSeq (rsSurface st) (opStart o') = Some s" "firstIndexOfSeq (rsSurface st) (opEnd o') = Some t"
    using rep(6) unfolding firstIndexOfSeq_def surf mnSeq_priced
    by (auto simp: replacementRange_def split: option.splits if_splits)
  have ss': "ssNodes ss' = take s (ssNodes ss) @ [int (length evs)] @ drop (t + 1) (ssNodes ss)"
    using ap rep(5) range by (auto simp: applySurfacePlan_def)
  have "opKind o' \<noteq> ''append''" using rep(4) by (simp add: SurfaceReplace_def)
  then obtain q where q: "plan' = Some q" "stReplace q = Some (s, t)"
    "stNode q = analyzeNode size' (int (length evs)) (DeriveEventMessage e)"
    using mp rep(1-3) range(1) idx by (auto simp: surfacePlan_def PlanSurfaceTokens_def Let_def outcome_simps)
  have "map (priced_node size' (evs @ [e])) (ssNodes ss') =
      take s (rsSurface st) @ [stNode q] @ drop (t + 1) (rsSurface st)"
    using priced_nodes_grow [OF ok, of "take s (ssNodes ss)" size' e] priced_nodes_grow [OF ok, of "drop (t + 1) (ssNodes ss)" size' e]
    by (simp add: ss' surf q(3) priced_node_new take_map drop_map set_take_subset set_drop_subset)
  then show ?thesis using q by (simp add: CommitSurfaceTokens_def)
qed

lemma contiguous_log_snoc: "contiguous_log (evs @ [e]) \<longleftrightarrow> contiguous_log evs \<and> evSeq e = int (length evs)"
  by (auto simp: contiguous_log_def nth_append less_Suc_eq)

lemma contiguous_log_take: "contiguous_log evs \<Longrightarrow> contiguous_log (take k evs)"
  by (auto simp: contiguous_log_def)

lemma contiguous_seqs: "contiguous_log evs \<Longrightarrow> \<forall>e \<in> set evs. evSeq e \<le> int (length evs)"
  by (force simp: contiguous_log_def in_set_conv_nth)

lemma surface_run_contiguous: "surface_run evs = Ok (ss, rs) \<Longrightarrow> contiguous_log evs"
proof (induction rule: surface_run_induct)
  case (step evs e st rs p st' r)
  then show ?case by (auto simp: contiguous_log_snoc elim: planSurfaceEvent_cases)
qed (simp add: contiguous_log_def)

lemma scratch_state:
  assumes "surface_run evs = Ok (ss, rs)" and "syncMeter size' evs empty_replay evs = (st, Ok ())"
  shows "rsSurface st = map (priced_node size' evs) (ssNodes ss) \<and> rsHeader st = FoldRequestHeader evs None"
  using assms
proof (induction arbitrary: st rule: surface_run_induct)
  case empty
  then show ?case by (auto simp: empty_replay_def empty_state_def FoldRequestHeader_def)
next
  case (step evs e ss rs p ss' r)
  have cont: "contiguous_log evs" by (rule surface_run_contiguous [OF step.hyps(1)])
  have pre: "syncMeter size' (evs @ [e]) empty_replay evs = syncMeter size' evs empty_replay evs"
    by (rule syncMeter_prefix [OF contiguous_seqs [OF cont]])
  obtain st0 st1 where st0: "syncMeter size' evs empty_replay evs = (st0, Ok ())"
    and st1: "foldEvent size' st0 e (evs @ [e]) = Ok st1" and st: "st = st1\<lparr>rsConsumedEvents := rsConsumedEvents st1 + 1\<rparr>"
    using step.prems unfolding syncMeter_append pre
    by (auto split: prod.splits outcome.splits)
  note IH = step.IH [OF st0]
  obtain plan' where plan': "surfacePlan size' st0 e = Ok plan'" "rsHeader st1 = headerStep (rsHeader st0) e"
    "rsSurface st1 = (case plan' of None \<Rightarrow> rsSurface st0 | Some q \<Rightarrow> CommitSurfaceTokens (rsSurface st0) q)"
    by (rule foldEvent_parts [OF st1])
  then show ?case
    using commit_follows_plan [OF step.hyps(2-4) conjunct1 [OF IH] plan'(1)] IH st by (simp add: FoldRequestHeader_def)
qed

section \<open>Properties\<close>

definition effective_header :: "replay_state \<Rightarrow> epoch_header option \<Rightarrow> epoch_header option" where
  "effective_header st requestHeader = (case requestHeader of Some h \<Rightarrow> Some (CanonicalHeader h) | None \<Rightarrow> rsHeader st)"

lemma Measure_Ok:
  assumes "Measure size' m entry evs h = (st, Ok me)"
  obtains surface base delta where "Sync size' entry evs = (st, Ok ())"
    "PriceSurface size' (rsSurface st) (routeFor m (effective_header st h)) (mtFileText m) = Ok surface"
    "baselineOf size' m st (effective_header st h) surface = Ok (base, delta)"
    "me = \<lparr>meLogRevision = rsConsumedEvents st, meBaseline = base, meSurfaceDeltaTokens = delta,
        meTotalTokens = maxInt64 (i64 (blTokens base + delta)), meSurfaceTokens = psSurfaceTokens surface, meNodes = psNodes surface\<rparr>"
  using assms by (auto simp: Measure_def effective_header_def Let_def outcome_simps split: prod.splits)

definition cache_ok :: "(json \<Rightarrow> nat) \<Rightarrow> replay_state option \<Rightarrow> event list \<Rightarrow> bool" where
  "cache_ok size' entry evs \<longleftrightarrow> (case entry of None \<Rightarrow> True | Some st \<Rightarrow> meter_ok size' st evs)"

lemma Sync_cache: "cache_ok size' entry evs \<Longrightarrow> Sync size' entry evs = Sync size' None evs"
  by (auto simp: cache_ok_def Sync_resume split: option.splits)

lemma Measure_cache: "cache_ok size' entry evs \<Longrightarrow> Measure size' m entry evs h = Measure size' m None evs h"
  by (simp add: Measure_def Sync_cache)

lemma Measure_keeps:
  assumes "cache_ok size' entry evs"
  shows "cache_ok size' (Some (fst (Measure size' m entry evs h))) evs"
proof -
  obtain st r where "Sync size' None evs = (st, r)" by fastforce
  with Sync_keeps [OF this] show ?thesis by (simp add: cache_ok_def Measure_def Sync_cache [OF assms])
qed

text \<open>A run of the meter: at each round the log has grown by some events and is measured; only the cache is carried over.\<close>

fun meter_run :: "(json \<Rightarrow> nat) \<Rightarrow> meter \<Rightarrow> replay_state option \<Rightarrow> event list \<Rightarrow> (event list \<times> epoch_header option) list
    \<Rightarrow> (meter_error, measurement) outcome list" where
  "meter_run size' m entry evs [] = []"
| "meter_run size' m entry evs ((ys, h) # rounds) =
     (let (st, r) = Measure size' m entry (evs @ ys) h in r # meter_run size' m (Some st) (evs @ ys) rounds)"

fun scratch_run :: "(json \<Rightarrow> nat) \<Rightarrow> meter \<Rightarrow> event list \<Rightarrow> (event list \<times> epoch_header option) list
    \<Rightarrow> (meter_error, measurement) outcome list" where
  "scratch_run size' m evs [] = []"
| "scratch_run size' m evs ((ys, h) # rounds) = snd (Measure size' m None (evs @ ys) h) # scratch_run size' m (evs @ ys) rounds"

lemma cache_ok_grows: "cache_ok size' entry evs \<Longrightarrow> contiguous_log evs \<Longrightarrow> cache_ok size' entry (evs @ ys)"
  by (auto simp: cache_ok_def meter_ok_grows split: option.splits)

lemma contiguous_log_appendD: "contiguous_log (evs @ ys) \<Longrightarrow> contiguous_log evs"
  using contiguous_log_take [of "evs @ ys" "length evs"] by simp

lemma meter_run_scratch:
  "cache_ok size' entry evs \<Longrightarrow> contiguous_log (evs @ concat (map fst rounds)) \<Longrightarrow>
     meter_run size' m entry evs rounds = scratch_run size' m evs rounds"
proof (induction rounds arbitrary: entry evs)
  case (Cons r rounds)
  obtain ys h where r: "r = (ys, h)" by (cases r)
  have c: "contiguous_log ((evs @ ys) @ concat (map fst rounds))" using Cons.prems(2) r by simp
  have ok: "cache_ok size' entry (evs @ ys)"
    using cache_ok_grows [OF Cons.prems(1)] contiguous_log_appendD [of evs "ys @ concat (map fst rounds)"] c by simp
  show ?case
    using Cons.IH [OF Measure_keeps [OF ok, of m h] c] Measure_cache [OF ok, of m h]
    by (cases "Measure size' m None (evs @ ys) h") (simp add: r)
qed simp

lemma Sync_scratch: "Sync size' None evs = syncMeter size' evs empty_replay evs"
  by (simp add: Sync_def empty_replay_def)

text \<open>C22: The meter is incremental: whatever was measured before and whether those measurements failed, every measurement of a log that
  grows by contiguous events gives what a fresh meter gives on the whole log.\<close>

theorem meter_incremental:
  assumes "contiguous_log (concat (map fst rounds))"
  shows "meter_run size' m None [] rounds = scratch_run size' m [] rounds"
  using meter_run_scratch [of size' None "[]" rounds m] assms by (simp add: cache_ok_def)

theorem meter_incremental_witness:
  "meter_run (\<lambda>_. 2) \<lparr>mtRoutePricing = None, mtFileText = None\<rparr> None [] [([demo_event], None), ([], None)]
     = scratch_run (\<lambda>_. 2) \<lparr>mtRoutePricing = None, mtFileText = None\<rparr> [] [([demo_event], None), ([], None)]"
  by (rule meter_incremental) (simp add: contiguous_log_def demo_event_def)

text \<open>C21: What a measurement of a session says: it has read the whole log, its rows are the nodes of the session's surface in
  surface order, each with the estimate of the message derived from that node, and the surface total is the sum of the rows.\<close>

theorem meter_measures_surface:
  assumes "session_reach s" and "cache_ok size' entry (sLog s)" and "Measure size' m entry (sLog s) h = (st, Ok me)"
  shows "\<exists>res. FoldSurface (sLog s) = Ok res \<and> meLogRevision me = int (length (sLog s)) \<and> map tnSeq (meNodes me) = sfNodes res
     \<and> map tnHeuristicTokens (meNodes me) = map (\<lambda>seq. mnHeuristicTokens (priced_node size' (sLog s) seq)) (sfNodes res)
     \<and> rsHeader st = FoldRequestHeader (sLog s) None \<and> meSurfaceTokens me = i64 (sum_list (map tnTokens (meNodes me)))
     \<and> 0 \<le> meTotalTokens me"
proof -
  obtain ss rs where run: "surface_run (sLog s) = Ok (ss, rs)"
    using session_run [OF session_reach_inv [OF assms(1)]] by auto
  obtain surface base delta where sync: "Sync size' entry (sLog s) = (st, Ok ())"
    and price: "PriceSurface size' (rsSurface st) (routeFor m (effective_header st h)) (mtFileText m) = Ok surface"
    and me: "me = \<lparr>meLogRevision = rsConsumedEvents st, meBaseline = base, meSurfaceDeltaTokens = delta,
        meTotalTokens = maxInt64 (i64 (blTokens base + delta)), meSurfaceTokens = psSurfaceTokens surface, meNodes = psNodes surface\<rparr>"
    using Measure_Ok [OF assms(3)] by metis
  have full: "syncMeter size' (sLog s) empty_replay (sLog s) = (st, Ok ())"
    using sync Sync_cache [OF assms(2)] Sync_scratch by simp
  have "rsConsumedEvents st = int (length (sLog s))"
    using syncMeter_consumed [OF full] by (simp add: empty_replay_def)
  moreover have "rsSurface st = map (priced_node size' (sLog s)) (ssNodes ss)" "rsHeader st = FoldRequestHeader (sLog s) None"
    using scratch_state [OF run full] by simp_all
  ultimately show ?thesis
    using run PriceSurface_rows [OF price] maxInt64_bounds(1)
    by (auto simp: FoldSurface_run me o_def priced_node_def intro!: exI [of _ "\<lparr>sfNodes = ssNodes ss, sfReplacements = rs\<rparr>"])
qed

theorem meter_measures_surface_witness:
  "\<exists>st me res. Measure (\<lambda>_. 2) \<lparr>mtRoutePricing = None, mtFileText = None\<rparr> None (sLog (fst demo_appended)) None = (st, Ok me)
     \<and> FoldSurface (sLog (fst demo_appended)) = Ok res \<and> map tnSeq (meNodes me) = sfNodes res \<and> meLogRevision me = 1"
proof -
  let ?r = "Measure (\<lambda>_. 2) \<lparr>mtRoutePricing = None, mtFileText = None\<rparr> None (sLog (fst demo_appended)) None"
  have "is_Ok (snd ?r)" unfolding demo_appended_log by code_simp
  then obtain st me where r: "?r = (st, Ok me)" by (cases ?r) (auto simp: outcome_simps)
  show ?thesis
    using r meter_measures_surface [OF demo_appended_reach _ r] by (auto simp: cache_ok_def demo_appended_log)
qed

section \<open>The pressure is never below the estimate\<close>

lemma i64_shift_back:
  assumes "in_i64 a" and "in_i64 (s - i64 (s - a))"
  shows "a = s - i64 (s - a)"
proof -
  have "i64 (s - i64 (s - a)) = i64 a" by (simp add: i64_def mod_simps algebra_simps)
  with assms show ?thesis by simp
qed

lemma baselineOf_anchored:
  assumes "rsAnchor st = Some anchor" and "optionalHeaderEquals (maHeader anchor) header = (Ok True :: (meter_error, bool) outcome)"
    and "baselineOf size' m st header surface = Ok (base, delta)"
  shows "\<exists>a. in_i64 a \<and> delta = i64 (psSurfaceTokens surface - a) \<and> i64 (EstimateHeader size' header + a) \<le> blTokens base
     \<and> (blKind base = BaselineUsage \<or> blTokens base = i64 (EstimateHeader size' header + a))"
proof -
  obtain ap where ap: "PriceSurface size' (maNodes anchor) (routeFor m header) (mtFileText m) = Ok ap"
    using assms by (auto simp: baselineOf_def outcome_simps)
  have "delta = i64 (psSurfaceTokens surface - i64 (psSurfaceTokens ap + maAssistantTokens anchor))"
    "base = (case maUsage anchor of
        Some usage \<Rightarrow> if usageTokens usage \<ge> i64 (EstimateHeader size' header + i64 (psSurfaceTokens ap + maAssistantTokens anchor))
          then \<lparr>blKind = BaselineUsage, blTokens = usageTokens usage, blUsage = Some usage\<rparr>
          else \<lparr>blKind = BaselineEstimated, blTokens = i64 (EstimateHeader size' header + i64 (psSurfaceTokens ap + maAssistantTokens anchor)), blUsage = None\<rparr>
      | None \<Rightarrow> \<lparr>blKind = BaselineEstimated, blTokens = i64 (EstimateHeader size' header + i64 (psSurfaceTokens ap + maAssistantTokens anchor)), blUsage = None\<rparr>)"
    using assms ap by (simp_all add: baselineOf_def Let_def)
  then show ?thesis
    by (intro exI [of _ "i64 (psSurfaceTokens ap + maAssistantTokens anchor)"]) (simp split: option.split)
qed

lemma EstimateHeader_None: "EstimateHeader size' None = 0"
  by (simp add: EstimateHeader_def EstimateSystemTokens_def EstimateToolsTokens_def)

lemma baselineOf_unanchored:
  assumes "baselineOf size' m st header surface = Ok (base, delta)"
    and "\<And>anchor. rsAnchor st = Some anchor \<Longrightarrow> optionalHeaderEquals (maHeader anchor) header \<noteq> (Ok True :: (meter_error, bool) outcome)"
  shows "delta = 0 \<and> blTokens base = i64 (EstimateHeader size' header + psSurfaceTokens surface)"
proof -
  have "base = unanchored size' header surface \<and> delta = 0"
    using assms by (auto simp: baselineOf_def outcome_simps split: option.splits)
  then show ?thesis by (auto simp: unanchored_def EstimateHeader_None)
qed

text \<open>C39: The measured pressure is never below the estimate of the request as it stands, envelope plus priced surface, and without a
  provider-reported baseline it is that estimate: for estimates up to the safe-integer ceiling \<open>2\<^sup>5\<^sup>3 - 1\<close>, and as long as
  the surface total, its change since the baseline and the baseline stay within \<open>2\<^sup>6\<^sup>1\<close>, so that no sum wraps.  Above
  the ceiling the code answers the largest \<open>int64\<close> instead.\<close>

theorem meter_never_underestimates:
  assumes "Measure size' m entry evs h = (st, Ok me)"
    and "estimate = EstimateHeader size' (effective_header st h) + meSurfaceTokens me"
    and "0 \<le> estimate" "estimate \<le> maxSafeInteger" "\<bar>meSurfaceTokens me\<bar> \<le> 2 ^ 61" "\<bar>meSurfaceDeltaTokens me\<bar> \<le> 2 ^ 61"
    and "blTokens (meBaseline me) \<le> 2 ^ 61"
  shows "estimate \<le> meTotalTokens me \<and> (blKind (meBaseline me) \<noteq> BaselineUsage \<longrightarrow> meTotalTokens me = estimate)"
proof -
  have small: "estimate \<le> 2 ^ 61" using assms(4) by (simp add: maxSafeInteger_def)
  obtain surface base delta where bl: "baselineOf size' m st (effective_header st h) surface = Ok (base, delta)"
    and me: "me = \<lparr>meLogRevision = rsConsumedEvents st, meBaseline = base, meSurfaceDeltaTokens = delta,
        meTotalTokens = maxInt64 (i64 (blTokens base + delta)), meSurfaceTokens = psSurfaceTokens surface, meNodes = psNodes surface\<rparr>"
    using Measure_Ok [OF assms(1)] by metis
  have low: "estimate \<le> blTokens base + delta" "blKind base \<noteq> BaselineUsage \<Longrightarrow> blTokens base + delta = estimate"
    if anchor: "rsAnchor st = Some anchor" "optionalHeaderEquals (maHeader anchor) (effective_header st h) = (Ok True :: (meter_error, bool) outcome)" for anchor
  proof -
    obtain a where a: "in_i64 a" "delta = i64 (psSurfaceTokens surface - a)" "i64 (EstimateHeader size' (effective_header st h) + a) \<le> blTokens base"
      "blKind base = BaselineUsage \<or> blTokens base = i64 (EstimateHeader size' (effective_header st h) + a)"
      using baselineOf_anchored [OF anchor bl] by blast
    have "in_i64 (psSurfaceTokens surface - delta)" using assms(5,6) by (simp add: me in_i64_def min_int64_def max_int64_def abs_le_iff)
    then have "a = psSurfaceTokens surface - delta" using i64_shift_back [OF a(1)] a(2) by simp
    moreover from this have "i64 (EstimateHeader size' (effective_header st h) + a) = estimate - delta"
      using assms(2,3,5,6) small by (subst i64_id) (simp_all add: me in_i64_def min_int64_def max_int64_def abs_le_iff)
    ultimately show "estimate \<le> blTokens base + delta" "blKind base \<noteq> BaselineUsage \<Longrightarrow> blTokens base + delta = estimate"
      using a(3,4) by auto
  qed
  have "i64 estimate = estimate" using assms(3) small by (simp add: in_i64_def min_int64_def max_int64_def)
  then have "estimate \<le> blTokens base + delta" "blKind base \<noteq> BaselineUsage \<Longrightarrow> blTokens base + delta = estimate"
    if "\<nexists>anchor. rsAnchor st = Some anchor \<and> optionalHeaderEquals (maHeader anchor) (effective_header st h) = (Ok True :: (meter_error, bool) outcome)"
    using baselineOf_unanchored [OF bl] that assms(2) by (simp_all add: me)
  with low have sum: "estimate \<le> blTokens base + delta" "blKind base \<noteq> BaselineUsage \<Longrightarrow> blTokens base + delta = estimate"
    by blast+
  have "i64 (blTokens base + delta) = blTokens base + delta"
    using sum(1) assms(3,6,7) by (intro i64_id) (simp add: me in_i64_def min_int64_def max_int64_def abs_le_iff)
  moreover have "v \<le> maxInt64 v" if "v \<le> 2 ^ 62" for v using that by (simp add: maxInt64_def max_int64_def)
  moreover have "blTokens base + delta \<le> 2 ^ 62" using assms(6,7) by (simp add: me)
  moreover have "maxInt64 estimate = estimate" using assms(3,4) by (simp add: maxInt64_def maxSafeInteger_def)
  ultimately show ?thesis using sum by (auto simp: me intro: order_trans)
qed

theorem meter_never_underestimates_witness:
  "\<exists>st me. Measure (\<lambda>_. 2) \<lparr>mtRoutePricing = None, mtFileText = None\<rparr> None [demo_event] None = (st, Ok me)
     \<and> 4 \<le> meTotalTokens me"
proof -
  let ?r = "Measure (\<lambda>_. 2) \<lparr>mtRoutePricing = None, mtFileText = None\<rparr> None [demo_event] None"
  have e: "(case snd ?r of Ok me \<Rightarrow> EstimateHeader (\<lambda>_. 2) (effective_header (fst ?r) None) + meSurfaceTokens me = 4
      \<and> meSurfaceTokens me = 4 \<and> meSurfaceDeltaTokens me = 0 \<and> blTokens (meBaseline me) = 4 | _ \<Rightarrow> False)" by code_simp
  then obtain st me where r: "?r = (st, Ok me)" by (cases ?r) (auto split: outcome.splits)
  with e have "EstimateHeader (\<lambda>_. 2) (effective_header st None) + meSurfaceTokens me = 4" "meSurfaceTokens me = 4"
    "meSurfaceDeltaTokens me = 0" "blTokens (meBaseline me) = 4" by simp_all
  with meter_never_underestimates [OF r, of 4] r show ?thesis by (auto simp: maxSafeInteger_def)
qed

end
