(* ===== verification/Compaction_Range.thy ===== *)
theory Compaction_Range
  imports Token_Meter Event_Sourcing
begin

text \<open>
  \<open>compaction/tool-pairing.go\<close> and the selection of \<open>compactionbasic/region.go\<close>: which part of a surface may be replaced by a
  summary.  A balance caches, per surface position, whether a tool call before it is still unanswered; it follows the surface of one
  session at a time and is rebuilt when the surface was rewritten.  The range to compact is the head of the surface up to the last
  balanced position that leaves a tail of the wanted price.  The lemmas say what a cached balance is worth (also after a failed
  update), that a cut is answered from the current surface alone, and what selection and validation return on every branch.
\<close>

section \<open>Tool pairing\<close>

record tool_pairing_balance =
  tbOwner :: "nat option"
  tbGeneration :: int
  tbCutBalanced :: "bool list"
  tbIndexBySeq :: "int \<Rightarrow> nat option"
  tbInProgressToolCalls :: int

definition NewToolPairingBalance :: tool_pairing_balance where
  "NewToolPairingBalance = \<lparr>tbOwner = None, tbGeneration = - 1, tbCutBalanced = [True], tbIndexBySeq = (\<lambda>_. None), tbInProgressToolCalls = 0\<rparr>"

datatype manual_kind = ManualBusy | ManualCommit | ManualChanged | ManualSummary | ManualPersistence | ManualCancelled

datatype compact_error =
    SurfaceSeqUnmatched int | ResultUnmatched int | CutNotFound int
  | MeterSurfaceMismatch | StartNotOnSurface int | EndNotOnSurface int | RangeReversed int nat int nat
  | StartUnbalanced int | EndUnbalanced int
  | ManualCompactionError manual_kind "compact_error option" | NoOpenTurn | SignalCancelled
  | SurfaceChanged string | MeterFailed meter_error | SummarizeFailed string | SummaryNotSmaller int int
  | StartPayloadUnreadable | AppendFailed session_error | Recovered | CloseWithoutFailure | NoResult | FlushFailed

record compact_world =
  cwSession :: session
  cwBalance :: tool_pairing_balance
  cwMeter :: "replay_state option"

definition eventDelta :: "event \<Rightarrow> int" where
  "eventDelta event =
     (if evType event = EventAssistantMsg then
        (case DecodeAssistantMessage event of
           Ok decoded \<Rightarrow> int (length (filter (\<lambda>block. cbType block = BlockToolCall) (contentOf (amMessage decoded))))
         | _ \<Rightarrow> 0)
      else if evType event = EventToolResult then - 1
      else 0)"

definition eventForSeq :: "event list \<Rightarrow> int \<Rightarrow> (compact_error, event) outcome" where
  "eventForSeq events seq =
     (if seq < 0 \<or> seq \<ge> int (length events) then Err (SurfaceSeqUnmatched seq)
      else let event = events ! nat seq in
           if evSeq event \<noteq> seq then Err (SurfaceSeqUnmatched seq) else Ok event)"

text \<open>The loop over the unseen tail; the count is written through to the balance at once, the cuts are not.\<close>

fun pendingLoop :: "event list \<Rightarrow> int \<Rightarrow> int list \<Rightarrow> int \<times> (compact_error, bool list) outcome" where
  "pendingLoop events inProgress [] = (inProgress, Ok [])"
| "pendingLoop events inProgress (seq # rest) =
     bindW (inProgress, eventForSeq events seq) (\<lambda>inProgress event.
       let inProgress' = inProgress + eventDelta event in
       if inProgress' < 0 then (inProgress', Err (ResultUnmatched seq))
       else bindW (pendingLoop events inProgress' rest) (\<lambda>final cuts. (final, Ok ((inProgress' = 0) # cuts))))"

text \<open>The surface is read through its manager, which may advance.\<close>

definition surfaceNodes :: "compact_world \<Rightarrow> compact_world \<times> (compact_error, int list) outcome" where
  "surfaceNodes w =
     (case Nodes (sSurface (cwSession w)) (sLog (cwSession w)) of
        Ok (m, nodes) \<Rightarrow> (w\<lparr>cwSession := (cwSession w)\<lparr>sSurface := m\<rparr>\<rparr>, Ok nodes)
      | _ \<Rightarrow> (w, Panic))"

definition surfaceGeneration :: "compact_world \<Rightarrow> compact_world \<times> (compact_error, int) outcome" where
  "surfaceGeneration w =
     (case ReplaceGeneration (sSurface (cwSession w)) (sLog (cwSession w)) of
        Ok (m, generation) \<Rightarrow> (w\<lparr>cwSession := (cwSession w)\<lparr>sSurface := m\<rparr>\<rparr>, Ok generation)
      | _ \<Rightarrow> (w, Panic))"

definition foldPending :: "event list \<Rightarrow> int list \<Rightarrow> tool_pairing_balance \<Rightarrow> tool_pairing_balance \<times> (compact_error, unit) outcome" where
  "foldPending events seqs b =
     (let processed = length (tbCutBalanced b) - 1; pending = drop processed seqs;
          (inProgress, r) = pendingLoop events (tbInProgressToolCalls b) pending; b' = b\<lparr>tbInProgressToolCalls := inProgress\<rparr>
      in case r of
           Ok cuts \<Rightarrow>
             (b'\<lparr>tbIndexBySeq := foldl (\<lambda>m (offset, seq). m(seq \<mapsto> processed + offset)) (tbIndexBySeq b') (enumerate 0 pending),
                tbCutBalanced := tbCutBalanced b' @ cuts\<rparr>, Ok ())
         | Err e \<Rightarrow> (b', Err e)
         | Panic \<Rightarrow> (b', Panic))"

definition synchronize :: "nat \<Rightarrow> compact_world \<Rightarrow> compact_world \<times> (compact_error, unit) outcome" where
  "synchronize sess w =
     bindW (surfaceNodes w) (\<lambda>w seqs.
     bindW (surfaceGeneration w) (\<lambda>w generation.
       let b = cwBalance w in
       if tbOwner b = Some sess \<and> tbGeneration b = generation \<and> length (tbCutBalanced b) - 1 \<ge> length seqs then (w, Ok ())
       else
         let b' = (if tbOwner b \<noteq> Some sess \<or> tbGeneration b \<noteq> generation \<or> length (tbCutBalanced b) - 1 > length seqs
                   then \<lparr>tbOwner = Some sess, tbGeneration = generation, tbCutBalanced = [True], tbIndexBySeq = (\<lambda>_. None), tbInProgressToolCalls = 0\<rparr>
                   else b);
             (b'', r) = foldPending (sLog (cwSession w)) seqs b'
         in (w\<lparr>cwBalance := b''\<rparr>, r)))"

definition cutBalance :: "tool_pairing_balance \<Rightarrow> int \<Rightarrow> nat \<Rightarrow> (compact_error, bool) outcome" where
  "cutBalance b seq offset =
     (case tbIndexBySeq b seq of
        Some index \<Rightarrow> if index + offset < length (tbCutBalanced b) then Ok (tbCutBalanced b ! (index + offset)) else Err (CutNotFound seq)
      | None \<Rightarrow> Err (CutNotFound seq))"

definition ToolPairingBalancedBefore :: "nat \<Rightarrow> compact_world \<Rightarrow> int \<Rightarrow> compact_world \<times> (compact_error, bool) outcome" where
  "ToolPairingBalancedBefore sess w seq = bindW (synchronize sess w) (\<lambda>w _. (w, cutBalance (cwBalance w) seq 0))"

definition ToolPairingBalancedAfter :: "nat \<Rightarrow> compact_world \<Rightarrow> int \<Rightarrow> compact_world \<times> (compact_error, bool) outcome" where
  "ToolPairingBalancedAfter sess w seq = bindW (synchronize sess w) (\<lambda>w _. (w, cutBalance (cwBalance w) seq 1))"

section \<open>Selecting a range\<close>

text \<open>The walk from the tail that stops once the kept nodes reach the retained price.\<close>

fun retainLoop :: "token_surface_node list \<Rightarrow> int \<Rightarrow> int \<Rightarrow> nat \<Rightarrow> nat" where
  "retainLoop pricedNodes retainTokens accumulated 0 = 0"
| "retainLoop pricedNodes retainTokens accumulated (Suc index) =
     (let accumulated' = i64 (accumulated + tnTokens (pricedNodes ! index)) in
      if accumulated' \<ge> retainTokens then index else retainLoop pricedNodes retainTokens accumulated' index)"

fun balancedLoop :: "nat \<Rightarrow> compact_world \<Rightarrow> int list \<Rightarrow> nat \<Rightarrow> compact_world \<times> (compact_error, nat) outcome" where
  "balancedLoop sess w surface 0 = (w, Ok 0)"
| "balancedLoop sess w surface (Suc k) =
     bindW (ToolPairingBalancedBefore sess w (surface ! Suc k)) (\<lambda>w balanced.
       if balanced then (w, Ok (Suc k)) else balancedLoop sess w surface k)"

definition SelectCompactableRange ::
    "nat \<Rightarrow> compact_world \<Rightarrow> measurement \<Rightarrow> int \<Rightarrow> compact_world \<times> (compact_error, (int \<times> int) option) outcome" where
  "SelectCompactableRange sess w measurement retainTokens =
     (let pricedNodes = meNodes measurement in
      if pricedNodes = [] then (w, Ok None)
      else bindW (surfaceNodes w) (\<lambda>w surface.
        if length surface \<noteq> length pricedNodes then (w, Err MeterSurfaceMismatch)
        else if surface \<noteq> map tnSeq pricedNodes then (w, Err MeterSurfaceMismatch)
        else
          let keepFromIdx = retainLoop pricedNodes retainTokens 0 (length pricedNodes) in
          if keepFromIdx = 0 then (w, Ok None)
          else bindW (balancedLoop sess w surface keepFromIdx) (\<lambda>w keepFromIdx.
            if keepFromIdx = 0 then (w, Ok None)
            else (w, Ok (Some (surface ! 0, surface ! (keepFromIdx - 1)))))))"

record surface_selection =
  slStart :: int
  slEnd :: int
  slStartIdx :: nat
  slEndIdx :: nat
  slShadowedSeqs :: "int list"

definition ValidateSurfaceRegion ::
    "nat \<Rightarrow> compact_world \<Rightarrow> int \<Rightarrow> int \<Rightarrow> compact_world \<times> (compact_error, surface_selection) outcome" where
  "ValidateSurfaceRegion sess w start end' =
     bindW (surfaceNodes w) (\<lambda>w nodes.
     case (index_of start nodes, index_of end' nodes) of
       (None, _) \<Rightarrow> (w, Err (StartNotOnSurface start))
     | (Some startIdx, None) \<Rightarrow> (w, Err (EndNotOnSurface end'))
     | (Some startIdx, Some endIdx) \<Rightarrow>
         if startIdx > endIdx then (w, Err (RangeReversed start startIdx end' endIdx))
         else bindW (ToolPairingBalancedBefore sess w (nodes ! startIdx)) (\<lambda>w balanced.
           if \<not> balanced then (w, Err (StartUnbalanced start))
           else bindW (ToolPairingBalancedAfter sess w (nodes ! endIdx)) (\<lambda>w balanced.
             if \<not> balanced then (w, Err (EndUnbalanced end'))
             else (w, Ok \<lparr>slStart = start, slEnd = end', slStartIdx = startIdx, slEndIdx = endIdx,
                          slShadowedSeqs = take (endIdx + 1 - startIdx) (drop startIdx nodes)\<rparr>))))"

section \<open>Open calls\<close>

definition open_calls :: "event list \<Rightarrow> int list \<Rightarrow> int" where
  "open_calls evs seqs = sum_list (map (\<lambda>seq. eventDelta (evs ! nat seq)) seqs)"

text \<open>No result without a call before it, and the cuts at which no call is open.\<close>

definition paired :: "event list \<Rightarrow> int list \<Rightarrow> bool" where
  "paired evs seqs \<longleftrightarrow> (\<forall>i \<le> length seqs. 0 \<le> open_calls evs (take i seqs))"

definition cuts :: "event list \<Rightarrow> int list \<Rightarrow> bool list" where
  "cuts evs seqs = map (\<lambda>i. open_calls evs (take i seqs) = 0) [0..<Suc (length seqs)]"

definition seqs_valid :: "event list \<Rightarrow> int list \<Rightarrow> bool" where
  "seqs_valid evs seqs \<longleftrightarrow> (\<forall>seq \<in> set seqs. 0 \<le> seq \<and> seq < int (length evs) \<and> evSeq (evs ! nat seq) = seq)"

lemma open_calls_simps [simp]:
  "open_calls evs [] = 0" "open_calls evs (seq # seqs) = eventDelta (evs ! nat seq) + open_calls evs seqs"
  "open_calls evs (xs @ ys) = open_calls evs xs + open_calls evs ys"
  by (simp_all add: open_calls_def)

lemma length_cuts [simp]: "length (cuts evs seqs) = Suc (length seqs)"
  by (simp add: cuts_def)

lemma nth_cuts: "i \<le> length seqs \<Longrightarrow> cuts evs seqs ! i = (open_calls evs (take i seqs) = 0)"
  unfolding cuts_def by (subst nth_map) (auto simp del: upt_Suc)

lemma paired_prefix: "paired evs (xs @ ys) \<Longrightarrow> paired evs xs"
  unfolding paired_def
proof (intro allI impI)
  fix i assume all: "\<forall>i \<le> length (xs @ ys). 0 \<le> open_calls evs (take i (xs @ ys))" and i: "i \<le> length xs"
  from all [rule_format, of i] i show "0 \<le> open_calls evs (take i xs)" by simp
qed

lemma paired_append: "paired evs (xs @ ys) \<longleftrightarrow> paired evs xs \<and> (\<forall>i \<le> length ys. 0 \<le> open_calls evs xs + open_calls evs (take i ys))"
proof
  assume p: "paired evs (xs @ ys)"
  have "0 \<le> open_calls evs xs + open_calls evs (take i ys)" if "i \<le> length ys" for i
    using p [unfolded paired_def, rule_format, of "length xs + i"] that by simp
  then show "paired evs xs \<and> (\<forall>i \<le> length ys. 0 \<le> open_calls evs xs + open_calls evs (take i ys))"
    using paired_prefix [OF p] by blast
next
  assume p: "paired evs xs \<and> (\<forall>i \<le> length ys. 0 \<le> open_calls evs xs + open_calls evs (take i ys))"
  show "paired evs (xs @ ys)"
    unfolding paired_def
  proof (intro allI impI)
    fix i assume "i \<le> length (xs @ ys)"
    with p show "0 \<le> open_calls evs (take i (xs @ ys))"
      by (cases "i \<le> length xs") (auto simp: paired_def)
  qed
qed

lemma cuts_append: "cuts evs (xs @ ys) = cuts evs xs @ map (\<lambda>i. open_calls evs xs + open_calls evs (take (Suc i) ys) = 0) [0..<length ys]"
proof (rule nth_equalityI)
  fix i assume i: "i < length (cuts evs (xs @ ys))"
  show "cuts evs (xs @ ys) ! i = (cuts evs xs @ map (\<lambda>i. open_calls evs xs + open_calls evs (take (Suc i) ys) = 0) [0..<length ys]) ! i"
  proof (cases "i \<le> length xs")
    case True
    then show ?thesis by (simp add: nth_append nth_cuts)
  next
    case False
    then have "Suc (i - Suc (length xs)) = i - length xs" "i - Suc (length xs) < length ys" using i by auto
    with False i show ?thesis by (simp add: nth_append nth_cuts)
  qed
qed simp

lemma open_calls_grow: "\<forall>seq \<in> set seqs. 0 \<le> seq \<and> seq < int (length evs) \<Longrightarrow> open_calls (evs @ ys) seqs = open_calls evs seqs"
  by (induction seqs) (simp_all add: nth_append nat_less_iff)

lemma open_calls_take_grow:
  "\<forall>seq \<in> set seqs. 0 \<le> seq \<and> seq < int (length evs) \<Longrightarrow> open_calls (evs @ ys) (take i seqs) = open_calls evs (take i seqs)"
  by (rule open_calls_grow) (auto dest: in_set_takeD)

lemma paired_grow: "\<forall>seq \<in> set seqs. 0 \<le> seq \<and> seq < int (length evs) \<Longrightarrow> paired (evs @ ys) seqs = paired evs seqs"
  by (simp add: paired_def open_calls_take_grow)

lemma cuts_grow: "\<forall>seq \<in> set seqs. 0 \<le> seq \<and> seq < int (length evs) \<Longrightarrow> cuts (evs @ ys) seqs = cuts evs seqs"
  by (simp add: cuts_def open_calls_take_grow)

section \<open>The loop over the unseen tail\<close>

lemma pendingLoop_ok:
  "seqs_valid evs seqs \<Longrightarrow> \<forall>i \<le> length seqs. 0 \<le> c + open_calls evs (take i seqs) \<Longrightarrow>
     pendingLoop evs c seqs = (c + open_calls evs seqs, Ok (map (\<lambda>i. c + open_calls evs (take (Suc i) seqs) = 0) [0..<length seqs]))"
proof (induction seqs arbitrary: c)
  case (Cons seq seqs)
  let ?c = "c + eventDelta (evs ! nat seq)"
  have step: "0 \<le> ?c + open_calls evs (take i seqs)" if "i \<le> length seqs" for i
    using Cons.prems(2) [rule_format, of "Suc i"] that by (simp add: add.assoc)
  have "eventForSeq evs seq = Ok (evs ! nat seq)" "seqs_valid evs seqs"
    using Cons.prems(1) by (auto simp: seqs_valid_def eventForSeq_def Let_def)
  moreover have "0 \<le> ?c" using step [of 0] by simp
  ultimately show ?case
    using Cons.IH [of ?c] step by (simp add: Let_def upt_conv_Cons map_Suc_upt [symmetric] add.assoc o_def del: upt_Suc map_Suc_upt)
qed simp

lemma pendingLoop_err:
  "seqs_valid evs seqs \<Longrightarrow> \<exists>i < length seqs. c + open_calls evs (take (Suc i) seqs) < 0 \<Longrightarrow>
     \<exists>c' seq. pendingLoop evs c seqs = (c', Err (ResultUnmatched seq)) \<and> c' < 0"
proof (induction seqs arbitrary: c)
  case (Cons seq seqs)
  let ?c = "c + eventDelta (evs ! nat seq)"
  have ev: "eventForSeq evs seq = Ok (evs ! nat seq)" and v: "seqs_valid evs seqs"
    using Cons.prems(1) by (auto simp: seqs_valid_def eventForSeq_def Let_def)
  show ?case
  proof (cases "?c < 0")
    case False
    from Cons.prems(2) obtain i where i: "i < length (seq # seqs)" "c + open_calls evs (take (Suc i) (seq # seqs)) < 0" by blast
    with False obtain j where "i = Suc j" by (cases i) auto
    with i have "\<exists>j < length seqs. ?c + open_calls evs (take (Suc j) seqs) < 0" by (auto simp: add.assoc)
    from Cons.IH [OF v this] False ev show ?thesis by (auto simp: Let_def)
  qed (use ev in \<open>simp add: Let_def\<close>)
qed simp

text \<open>The positions of a duplicate-free list.\<close>

lemma index_of_append:
  "index_of x (xs @ ys) = (if x \<in> set xs then index_of x xs else map_option (\<lambda>i. length xs + i) (index_of x ys))"
proof (induction xs)
  case Nil
  have "(+) 0 = (id :: nat \<Rightarrow> nat)" by auto
  then show ?case by (simp add: option.map_id)
next
  case (Cons z xs)
  then show ?case by (auto simp: option.map_comp o_def)
qed

lemma index_of_snoc: "y \<notin> set xs \<Longrightarrow> (\<lambda>x. index_of x (xs @ [y])) = (\<lambda>x. index_of x xs)(y \<mapsto> length xs)"
  by (rule ext) (auto simp: index_of_append dest: index_of_Some_ex intro!: sym [of _ None])

lemma index_map_extend:
  assumes "distinct (xs @ ys)"
  shows "foldl (\<lambda>m (offset, seq). m(seq \<mapsto> length xs + offset)) (\<lambda>x. index_of x xs) (enumerate 0 ys) = (\<lambda>x. index_of x (xs @ ys))"
  using assms
proof (induction ys rule: rev_induct)
  case (snoc y ys)
  then have IH: "foldl (\<lambda>m (offset, seq). m(seq \<mapsto> length xs + offset)) (\<lambda>x. index_of x xs) (enumerate 0 ys) = (\<lambda>x. index_of x (xs @ ys))"
    by (intro snoc.IH) simp
  have "y \<notin> set (xs @ ys)" using snoc.prems by simp
  from index_of_snoc [OF this] show ?case
    unfolding enumerate_append_eq foldl_append IH by (simp add: fun_eq_iff)
qed simp

section \<open>The balance of a session\<close>

text \<open>The cache describes the processed part of a surface the session had at the cached generation; after a failed run the count is
  negative and that surface is not paired.\<close>

definition balance_ok :: "nat \<Rightarrow> tool_pairing_balance \<Rightarrow> event list \<Rightarrow> bool" where
  "balance_ok sess b evs \<longleftrightarrow> tbOwner b = Some sess \<longrightarrow>
     (\<exists>k st rs done more'. k \<le> length evs \<and> surface_run (take k evs) = Ok (st, rs) \<and> tbGeneration b = ssReplaceGeneration st
        \<and> ssNodes st = done @ more' \<and> tbCutBalanced b = cuts evs done \<and> tbIndexBySeq b = (\<lambda>seq. index_of seq done) \<and> paired evs done
        \<and> (tbInProgressToolCalls b = open_calls evs done \<or> tbInProgressToolCalls b < 0 \<and> \<not> paired evs (ssNodes st)))"

definition balanced_with :: "tool_pairing_balance \<Rightarrow> event list \<Rightarrow> int list \<Rightarrow> bool" where
  "balanced_with b evs nodes \<longleftrightarrow> tbCutBalanced b = cuts evs nodes \<and> tbIndexBySeq b = (\<lambda>seq. index_of seq nodes)"

lemma surface_nodes_valid:
  assumes "surface_run (take k evs) = Ok (st, rs)" and "k \<le> length evs"
  shows "seqs_valid evs (ssNodes st)" and "\<forall>seq \<in> set (ssNodes st). 0 \<le> seq \<and> seq < int (length evs)"
proof -
  have ok: "surface_ok st (take k evs)" by (rule surface_run_ok [OF assms(1)])
  have "\<forall>i < length (take k evs). evSeq (take k evs ! i) = int i" by (rule surface_run_seq [OF assms(1)])
  with ok assms(2) show "seqs_valid evs (ssNodes st)" by (force simp: seqs_valid_def surface_ok_def nat_less_iff)
  then show "\<forall>seq \<in> set (ssNodes st). 0 \<le> seq \<and> seq < int (length evs)" by (auto simp: seqs_valid_def)
qed

lemma balance_ok_grow:
  assumes "balance_ok sess b evs"
  shows "balance_ok sess b (evs @ ys)"
  unfolding balance_ok_def
proof
  assume "tbOwner b = Some sess"
  with assms obtain k st rs done' rest where k: "k \<le> length evs" and run: "surface_run (take k evs) = Ok (st, rs)"
    and b: "tbGeneration b = ssReplaceGeneration st" "ssNodes st = done' @ rest" "tbCutBalanced b = cuts evs done'"
      "tbIndexBySeq b = (\<lambda>seq. index_of seq done')" "paired evs done'"
      "tbInProgressToolCalls b = open_calls evs done' \<or> tbInProgressToolCalls b < 0 \<and> \<not> paired evs (ssNodes st)"
    unfolding balance_ok_def by blast
  have v: "\<forall>seq \<in> set (ssNodes st). 0 \<le> seq \<and> seq < int (length evs)" by (rule surface_nodes_valid(2) [OF run k])
  then have v': "\<forall>seq \<in> set done'. 0 \<le> seq \<and> seq < int (length evs)" using b(2) by simp
  show "\<exists>k st rs done more'. k \<le> length (evs @ ys) \<and> surface_run (take k (evs @ ys)) = Ok (st, rs) \<and> tbGeneration b = ssReplaceGeneration st
        \<and> ssNodes st = done @ more' \<and> tbCutBalanced b = cuts (evs @ ys) done \<and> tbIndexBySeq b = (\<lambda>seq. index_of seq done) \<and> paired (evs @ ys) done
        \<and> (tbInProgressToolCalls b = open_calls (evs @ ys) done \<or> tbInProgressToolCalls b < 0 \<and> \<not> paired (evs @ ys) (ssNodes st))"
    by (rule exI [of _ k], rule exI [of _ st], rule exI [of _ rs], rule exI [of _ done'], rule exI [of _ rest])
      (use k run b(1,3-6) in \<open>simp add: open_calls_grow [OF v'] paired_grow [OF v'] cuts_grow [OF v'] paired_grow [OF v] b(2) [symmetric]\<close>)
qed

text \<open>Folding the unseen tail of the current surface.\<close>

lemma foldPending_spec:
  assumes valid: "seqs_valid evs nodes" and dist: "distinct nodes" and nodes: "nodes = done' @ rest"
    and b: "tbCutBalanced b = cuts evs done'" "tbIndexBySeq b = (\<lambda>seq. index_of seq done')" "paired evs done'"
    and prog: "tbInProgressToolCalls b = open_calls evs done' \<or> tbInProgressToolCalls b < 0 \<and> \<not> paired evs nodes"
  shows "if paired evs nodes
     then foldPending evs nodes b = (b\<lparr>tbInProgressToolCalls := open_calls evs nodes, tbIndexBySeq := (\<lambda>seq. index_of seq nodes), tbCutBalanced := cuts evs nodes\<rparr>, Ok ())
     else \<exists>c seq. foldPending evs nodes b = (b\<lparr>tbInProgressToolCalls := c\<rparr>, Err (ResultUnmatched seq)) \<and> c < 0"
proof -
  have p: "length (tbCutBalanced b) - 1 = length done'" "drop (length done') nodes = rest" by (simp_all add: b(1) nodes)
  have v: "seqs_valid evs rest" using valid nodes by (simp add: seqs_valid_def)
  show ?thesis
  proof (cases "paired evs nodes")
    case True
    then have all: "\<forall>i \<le> length rest. 0 \<le> open_calls evs done' + open_calls evs (take i rest)"
      using nodes paired_append by simp
    have "tbInProgressToolCalls b = open_calls evs done'" using prog True by simp
    with True pendingLoop_ok [OF v all] show ?thesis
      using index_map_extend [of done' rest] dist nodes
      unfolding foldPending_def p by (simp add: p b(1,2) Let_def cuts_append)
  next
    case False
    then obtain i where i: "i \<le> length rest" "open_calls evs done' + open_calls evs (take i rest) < 0"
      using nodes b(3) paired_append [of evs done' rest] by fastforce
    have "tbInProgressToolCalls b \<le> open_calls evs done'"
      using prog b(3) [unfolded paired_def, rule_format, of "length done'"] by auto
    moreover obtain j where "i = Suc j"
      using i(2) b(3) [unfolded paired_def, rule_format, of "length done'"] by (cases i) auto
    ultimately have "\<exists>i < length rest. tbInProgressToolCalls b + open_calls evs (take (Suc i) rest) < 0"
      using i by (intro exI [of _ j]) auto
    from pendingLoop_err [OF v this] False show ?thesis
      unfolding foldPending_def p by (auto simp: p Let_def)
  qed
qed

definition compact_ok :: "nat \<Rightarrow> compact_world \<Rightarrow> bool" where
  "compact_ok sess w \<longleftrightarrow> session_inv (cwSession w) \<and> balance_ok sess (cwBalance w) (sLog (cwSession w))"

text \<open>What a read leaves alone: the log and the meter.\<close>

definition same_log :: "compact_world \<Rightarrow> compact_world \<Rightarrow> bool" where
  "same_log w w' \<longleftrightarrow> sLog (cwSession w') = sLog (cwSession w) \<and> cwMeter w' = cwMeter w"

lemma same_log_refl [simp]: "same_log w w"
  by (simp add: same_log_def)

lemma same_log_trans: "same_log w w' \<Longrightarrow> same_log w' w'' \<Longrightarrow> same_log w w''"
  by (simp add: same_log_def)

lemma surface_reads:
  assumes inv: "session_inv (cwSession w)" and run: "surface_run (sLog (cwSession w)) = Ok (st, rs)"
  obtains m where "processDelta (sSurface (cwSession w)) (sLog (cwSession w)) = Ok m" "smState m = st"
    "session_inv ((cwSession w)\<lparr>sSurface := m\<rparr>)"
proof -
  have mok: "manager_ok (sSurface (cwSession w)) (sLog (cwSession w))" using inv by (simp add: session_inv_def)
  obtain m rs' where m: "processDelta (sSurface (cwSession w)) (sLog (cwSession w)) = Ok m"
    "surface_run (sLog (cwSession w)) = Ok (smState m, rs')" by (rule processDelta_correct [OF mok])
  have "Nodes (sSurface (cwSession w)) (sLog (cwSession w)) = Ok (m, ssNodes (smState m))" using m by (simp add: Nodes_def)
  from Nodes_inv [OF inv this] m run that show thesis by simp
qed

lemma surfaceNodes_spec:
  assumes "compact_ok sess w" and run: "surface_run (sLog (cwSession w)) = Ok (st, rs)"
  obtains w' where "surfaceNodes w = (w', Ok (ssNodes st))" "compact_ok sess w'" "same_log w w'" "cwBalance w' = cwBalance w"
proof -
  obtain m where "processDelta (sSurface (cwSession w)) (sLog (cwSession w)) = Ok m" "smState m = st"
    "session_inv ((cwSession w)\<lparr>sSurface := m\<rparr>)"
    using surface_reads [OF _ run] assms(1) by (auto simp: compact_ok_def)
  with assms(1) show thesis
    by (intro that [of "w\<lparr>cwSession := (cwSession w)\<lparr>sSurface := m\<rparr>\<rparr>"]) (simp_all add: surfaceNodes_def Nodes_def compact_ok_def same_log_def)
qed

lemma surfaceGeneration_spec:
  assumes "compact_ok sess w" and run: "surface_run (sLog (cwSession w)) = Ok (st, rs)"
  obtains w' where "surfaceGeneration w = (w', Ok (ssReplaceGeneration st))" "compact_ok sess w'" "same_log w w'" "cwBalance w' = cwBalance w"
proof -
  obtain m where "processDelta (sSurface (cwSession w)) (sLog (cwSession w)) = Ok m" "smState m = st"
    "session_inv ((cwSession w)\<lparr>sSurface := m\<rparr>)"
    using surface_reads [OF _ run] assms(1) by (auto simp: compact_ok_def)
  with assms(1) show thesis
    by (intro that [of "w\<lparr>cwSession := (cwSession w)\<lparr>sSurface := m\<rparr>\<rparr>"]) (simp_all add: surfaceGeneration_def ReplaceGeneration_def compact_ok_def same_log_def)
qed

lemma balance_okI:
  assumes "surface_run evs = Ok (st, rs)" and "tbGeneration b = ssReplaceGeneration st" and "ssNodes st = done' @ rest"
    and "tbCutBalanced b = cuts evs done'" and "tbIndexBySeq b = (\<lambda>seq. index_of seq done')" and "paired evs done'"
    and "tbInProgressToolCalls b = open_calls evs done' \<or> tbInProgressToolCalls b < 0 \<and> \<not> paired evs (ssNodes st)"
  shows "balance_ok sess b evs"
  unfolding balance_ok_def
  by (rule impI, rule exI [of _ "length evs"], rule exI [of _ st], rule exI [of _ rs], rule exI [of _ done'], rule exI [of _ rest])
    (use assms in simp)

text \<open>The state the unseen tail is folded into: the cache, when it is of the current generation, or a fresh one.\<close>

definition balance_start :: "nat \<Rightarrow> int \<Rightarrow> int list \<Rightarrow> tool_pairing_balance \<Rightarrow> tool_pairing_balance" where
  "balance_start sess generation seqs b =
     (if tbOwner b \<noteq> Some sess \<or> tbGeneration b \<noteq> generation \<or> length (tbCutBalanced b) - 1 > length seqs
      then \<lparr>tbOwner = Some sess, tbGeneration = generation, tbCutBalanced = [True], tbIndexBySeq = (\<lambda>_. None), tbInProgressToolCalls = 0\<rparr>
      else b)"

lemma balance_start_spec:
  assumes ok: "balance_ok sess b evs" and run: "surface_run evs = Ok (st, rs)"
  obtains done' rest where "ssNodes st = done' @ rest"
    "tbCutBalanced (balance_start sess (ssReplaceGeneration st) (ssNodes st) b) = cuts evs done'"
    "tbIndexBySeq (balance_start sess (ssReplaceGeneration st) (ssNodes st) b) = (\<lambda>seq. index_of seq done')" "paired evs done'"
    "tbInProgressToolCalls (balance_start sess (ssReplaceGeneration st) (ssNodes st) b) = open_calls evs done'
      \<or> tbInProgressToolCalls (balance_start sess (ssReplaceGeneration st) (ssNodes st) b) < 0 \<and> \<not> paired evs (ssNodes st)"
    "tbGeneration (balance_start sess (ssReplaceGeneration st) (ssNodes st) b) = ssReplaceGeneration st"
proof (cases "tbOwner b = Some sess \<and> tbGeneration b = ssReplaceGeneration st")
  case True
  with ok obtain k st0 rs0 done' rest where k: "k \<le> length evs" and run0: "surface_run (take k evs) = Ok (st0, rs0)"
    and b: "tbGeneration b = ssReplaceGeneration st0" "ssNodes st0 = done' @ rest" "tbCutBalanced b = cuts evs done'"
      "tbIndexBySeq b = (\<lambda>seq. index_of seq done')" "paired evs done'"
      "tbInProgressToolCalls b = open_calls evs done' \<or> tbInProgressToolCalls b < 0 \<and> \<not> paired evs (ssNodes st0)"
    unfolding balance_ok_def by blast
  obtain tl where tl: "ssNodes st = ssNodes st0 @ tl"
    using surface_run_extend [OF run0, of "drop k evs" st rs] run True b(1) by auto
  have "balance_start sess (ssReplaceGeneration st) (ssNodes st) b = b"
    using True b(2,3) tl by (auto simp: balance_start_def)
  moreover have "paired evs (ssNodes st) \<Longrightarrow> paired evs (ssNodes st0)" using tl paired_prefix by metis
  ultimately show thesis using that [of done' "rest @ tl"] b tl True by auto
next
  case False
  then show thesis by (intro that [of "[]" "ssNodes st"]) (auto simp: balance_start_def cuts_def paired_def)
qed

lemma synchronize_spec:
  assumes ok: "compact_ok sess w" and run: "surface_run (sLog (cwSession w)) = Ok (st, rs)"
  obtains w' seq where "compact_ok sess w'" "same_log w w'"
    "synchronize sess w = (w', if paired (sLog (cwSession w)) (ssNodes st) then Ok () else Err (ResultUnmatched seq))"
    "paired (sLog (cwSession w)) (ssNodes st) \<longrightarrow> balanced_with (cwBalance w') (sLog (cwSession w)) (ssNodes st)"
proof -
  let ?evs = "sLog (cwSession w)" and ?nodes = "ssNodes st"
  obtain w1 where w1: "surfaceNodes w = (w1, Ok ?nodes)" "compact_ok sess w1" "same_log w w1" "cwBalance w1 = cwBalance w"
    by (rule surfaceNodes_spec [OF ok run])
  have run1: "surface_run (sLog (cwSession w1)) = Ok (st, rs)" using w1(3) run by (simp add: same_log_def)
  obtain w2 where w2: "surfaceGeneration w1 = (w2, Ok (ssReplaceGeneration st))" "compact_ok sess w2" "same_log w1 w2" "cwBalance w2 = cwBalance w1"
    by (rule surfaceGeneration_spec [OF w1(2) run1])
  have log: "sLog (cwSession w2) = ?evs" "same_log w w2" using w1(3) w2(3) by (auto simp: same_log_def)
  let ?b = "balance_start sess (ssReplaceGeneration st) ?nodes (cwBalance w2)"
  have bok: "balance_ok sess (cwBalance w2) ?evs" using w2(2) log by (simp add: compact_ok_def)
  obtain done' rest where d: "?nodes = done' @ rest" "tbCutBalanced ?b = cuts ?evs done'" "tbIndexBySeq ?b = (\<lambda>seq. index_of seq done')"
      "paired ?evs done'" "tbInProgressToolCalls ?b = open_calls ?evs done' \<or> tbInProgressToolCalls ?b < 0 \<and> \<not> paired ?evs ?nodes"
      "tbGeneration ?b = ssReplaceGeneration st"
    by (rule balance_start_spec [OF bok run])
  have surf: "seqs_valid ?evs ?nodes" "distinct ?nodes"
    using surface_nodes_valid(1) [of "length ?evs" ?evs st rs] run surface_run_ok [OF run] by (auto simp: surface_ok_def)
  have sync: "synchronize sess w =
      (if tbOwner (cwBalance w2) = Some sess \<and> tbGeneration (cwBalance w2) = ssReplaceGeneration st
          \<and> length (tbCutBalanced (cwBalance w2)) - 1 \<ge> length ?nodes then (w2, Ok ())
       else (let (b, r) = foldPending ?evs ?nodes ?b in (w2\<lparr>cwBalance := b\<rparr>, r)))"
    by (simp add: synchronize_def w1(1) w2(1) log balance_start_def Let_def split: prod.split)
  show thesis
  proof (cases "tbOwner (cwBalance w2) = Some sess \<and> tbGeneration (cwBalance w2) = ssReplaceGeneration st
          \<and> length (tbCutBalanced (cwBalance w2)) - 1 \<ge> length ?nodes")
    case True
    have b: "?b = cwBalance w2"
    proof (rule ccontr)
      assume "?b \<noteq> cwBalance w2"
      with True have "length (tbCutBalanced (cwBalance w2)) - 1 > length ?nodes" by (auto simp: balance_start_def split: if_splits)
      moreover from bok True obtain k st0 rs0 done0 rest0 where "k \<le> length ?evs" "surface_run (take k ?evs) = Ok (st0, rs0)"
        "tbGeneration (cwBalance w2) = ssReplaceGeneration st0" "ssNodes st0 = done0 @ rest0" "tbCutBalanced (cwBalance w2) = cuts ?evs done0"
        unfolding balance_ok_def by blast
      moreover from this obtain tl where "?nodes = ssNodes st0 @ tl"
        using surface_run_extend [of "take k ?evs" st0 rs0 "drop k ?evs" st rs] run True by auto
      ultimately show False by simp
    qed
    then have "length done' \<ge> length ?nodes" using True d(2) by simp
    then have "rest = []" using d(1) by simp
    then have "paired ?evs ?nodes" "balanced_with (cwBalance w2) ?evs ?nodes" using d b by (simp_all add: balanced_with_def)
    with True sync w2(2) log(2) show thesis by (intro that [of w2]) simp_all
  next
    case False
    note fold = foldPending_spec [OF surf d(1-5)] and sync = sync [unfolded if_not_P [OF False]]
    show thesis
    proof (cases "paired ?evs ?nodes")
      case True
      let ?b' = "?b\<lparr>tbInProgressToolCalls := open_calls ?evs ?nodes, tbIndexBySeq := (\<lambda>seq. index_of seq ?nodes), tbCutBalanced := cuts ?evs ?nodes\<rparr>"
      have "balance_ok sess ?b' ?evs" by (rule balance_okI [OF run, of _ ?nodes "[]"]) (use True d(6) in simp_all)
      with True fold sync w2(2) log show thesis
        by (intro that [of "w2\<lparr>cwBalance := ?b'\<rparr>"]) (simp_all add: compact_ok_def same_log_def balanced_with_def)
    next
      case np: False
      then obtain c seq where c: "foldPending ?evs ?nodes ?b = (?b\<lparr>tbInProgressToolCalls := c\<rparr>, Err (ResultUnmatched seq))" "c < 0"
        using fold by auto
      have "balance_ok sess (?b\<lparr>tbInProgressToolCalls := c\<rparr>) ?evs" by (rule balance_okI [OF run _ d(1)]) (use np d c(2) in simp_all)
      with np c sync w2(2) log show thesis
        by (intro that [of "w2\<lparr>cwBalance := ?b\<lparr>tbInProgressToolCalls := c\<rparr>\<rparr>" seq]) (simp_all add: compact_ok_def same_log_def)
    qed
  qed
qed

section \<open>Cuts\<close>

definition cut_answer :: "event list \<Rightarrow> int list \<Rightarrow> nat \<Rightarrow> int \<Rightarrow> int \<Rightarrow> (compact_error, bool) outcome" where
  "cut_answer evs nodes offset unmatched seq =
     (if \<not> paired evs nodes then Err (ResultUnmatched unmatched)
      else case index_of seq nodes of
             None \<Rightarrow> Err (CutNotFound seq)
           | Some i \<Rightarrow> Ok (open_calls evs (take (i + offset) nodes) = 0))"

lemma cutBalance_spec:
  assumes "balanced_with b evs nodes" and "offset \<le> 1" and "paired evs nodes"
  shows "cutBalance b seq offset = cut_answer evs nodes offset u seq"
  using assms by (auto simp: cutBalance_def cut_answer_def balanced_with_def nth_cuts dest: index_of_SomeD split: option.split)

lemma balanced_spec:
  assumes ok: "compact_ok sess w" and run: "surface_run (sLog (cwSession w)) = Ok (st, rs)" and "offset \<le> 1"
  obtains w' u where "compact_ok sess w'" "same_log w w'"
    "bindW (synchronize sess w) (\<lambda>w _. (w, cutBalance (cwBalance w) seq offset)) = (w', cut_answer (sLog (cwSession w)) (ssNodes st) offset u seq)"
proof -
  obtain w' u where w': "compact_ok sess w'" "same_log w w'"
    "synchronize sess w = (w', if paired (sLog (cwSession w)) (ssNodes st) then Ok () else Err (ResultUnmatched u))"
    "paired (sLog (cwSession w)) (ssNodes st) \<longrightarrow> balanced_with (cwBalance w') (sLog (cwSession w)) (ssNodes st)"
    by (rule synchronize_spec [OF ok run])
  have "bindW (synchronize sess w) (\<lambda>w _. (w, cutBalance (cwBalance w) seq offset)) = (w', cut_answer (sLog (cwSession w)) (ssNodes st) offset u seq)"
  proof (cases "paired (sLog (cwSession w)) (ssNodes st)")
    case True
    with w' cutBalance_spec [OF _ assms(3) True, of "cwBalance w'" seq u] show ?thesis by simp
  qed (use w'(3) in \<open>simp add: cut_answer_def\<close>)
  with w' that show thesis by blast
qed

lemma Before_spec:
  assumes "compact_ok sess w" and "surface_run (sLog (cwSession w)) = Ok (st, rs)"
  obtains w' u where "compact_ok sess w'" "same_log w w'"
    "ToolPairingBalancedBefore sess w seq = (w', cut_answer (sLog (cwSession w)) (ssNodes st) 0 u seq)"
  unfolding ToolPairingBalancedBefore_def using balanced_spec [OF assms, of 0 seq] by auto

lemma After_spec:
  assumes "compact_ok sess w" and "surface_run (sLog (cwSession w)) = Ok (st, rs)"
  obtains w' u where "compact_ok sess w'" "same_log w w'"
    "ToolPairingBalancedAfter sess w seq = (w', cut_answer (sLog (cwSession w)) (ssNodes st) 1 u seq)"
  unfolding ToolPairingBalancedAfter_def using balanced_spec [OF assms, of 1 seq] by auto

lemma cut_answer_nth:
  assumes "distinct nodes" and "i < length nodes"
  shows "cut_answer evs nodes offset u (nodes ! i) =
     (if paired evs nodes then Ok (open_calls evs (take (i + offset) nodes) = 0) else Err (ResultUnmatched u))"
  using index_of_nth [OF assms] by (simp add: cut_answer_def)

section \<open>Selection\<close>

lemma balancedLoop_spec:
  assumes "compact_ok sess w" and run: "surface_run (sLog (cwSession w)) = Ok (st, rs)" and "k < length (ssNodes st)"
  shows "\<exists>w' u r. balancedLoop sess w (ssNodes st) k = (w', r) \<and> compact_ok sess w' \<and> same_log w w'
     \<and> (if k = 0 then r = Ok 0 else if \<not> paired (sLog (cwSession w)) (ssNodes st) then r = Err (ResultUnmatched u)
        else \<exists>k' \<le> k. r = Ok k' \<and> open_calls (sLog (cwSession w)) (take k' (ssNodes st)) = 0
               \<and> (\<forall>j. k' < j \<and> j \<le> k \<longrightarrow> open_calls (sLog (cwSession w)) (take j (ssNodes st)) \<noteq> 0))"
  using assms
proof (induction k arbitrary: w)
  case 0
  then show ?case by (auto intro: exI [of _ w])
next
  case (Suc k)
  let ?evs = "sLog (cwSession w)" and ?nodes = "ssNodes st"
  have dist: "distinct ?nodes" using surface_run_ok [OF Suc.prems(2)] by (simp add: surface_ok_def)
  obtain w1 u where w1: "compact_ok sess w1" "same_log w w1"
    "ToolPairingBalancedBefore sess w (?nodes ! Suc k) = (w1, cut_answer ?evs ?nodes 0 u (?nodes ! Suc k))"
    by (rule Before_spec [OF Suc.prems(1,2)])
  note ans = w1(3) [unfolded cut_answer_nth [OF dist Suc.prems(3)] add_0_right]
  have log: "sLog (cwSession w1) = ?evs" using w1(2) by (simp add: same_log_def)
  consider (np) "\<not> paired ?evs ?nodes" | (here) "paired ?evs ?nodes" "open_calls ?evs (take (Suc k) ?nodes) = 0"
    | (down) "paired ?evs ?nodes" "open_calls ?evs (take (Suc k) ?nodes) \<noteq> 0" by blast
  then show ?case
  proof cases
    case np
    with ans w1 show ?thesis by auto
  next
    case here
    with ans w1 show ?thesis by auto
  next
    case down
    have k: "k < length ?nodes" and run1: "surface_run (sLog (cwSession w1)) = Ok (st, rs)" using Suc.prems(2,3) log by simp_all
    from Suc.IH [OF w1(1) run1 k] down(1) obtain w2 r where w2: "balancedLoop sess w1 ?nodes k = (w2, r)" "compact_ok sess w2" "same_log w1 w2"
      "if k = 0 then r = Ok 0 else \<exists>k' \<le> k. r = Ok k' \<and> open_calls ?evs (take k' ?nodes) = 0
               \<and> (\<forall>j. k' < j \<and> j \<le> k \<longrightarrow> open_calls ?evs (take j ?nodes) \<noteq> 0)"
      unfolding log by auto
    then obtain k' where k': "k' \<le> k" "r = Ok k'" "open_calls ?evs (take k' ?nodes) = 0"
      "\<forall>j. k' < j \<and> j \<le> k \<longrightarrow> open_calls ?evs (take j ?nodes) \<noteq> 0"
      by (cases "k = 0") auto
    have "balancedLoop sess w ?nodes (Suc k) = (w2, Ok k')" using ans down w2(1) k'(2) by simp
    moreover have "\<forall>j. k' < j \<and> j \<le> Suc k \<longrightarrow> open_calls ?evs (take j ?nodes) \<noteq> 0"
      using k'(4) down(2) by (auto simp: le_Suc_eq)
    ultimately show ?thesis using w2(2,3) w1(2) k'(1,3) down(1) same_log_trans by (auto intro: le_SucI)
  qed
qed

text \<open>The walk from the tail keeps the shortest tail that reaches the retained price.\<close>

lemma retainLoop_spec:
  assumes "n \<le> length nodes" and "0 < n" and "r = retainLoop nodes retain (i64 a) n"
  shows "r < n \<and> (r = 0 \<or> retain \<le> i64 (a + sum_list (map tnTokens (take (n - r) (drop r nodes)))))
     \<and> (\<forall>j. r < j \<and> j < n \<longrightarrow> i64 (a + sum_list (map tnTokens (take (n - j) (drop j nodes)))) < retain)"
  using assms
proof (induction n arbitrary: a r)
  case (Suc n)
  let ?a = "a + tnTokens (nodes ! n)"
  have n: "n < length nodes" using Suc.prems(1) by simp
  have split: "a + sum_list (map tnTokens (take (Suc n - j) (drop j nodes))) = ?a + sum_list (map tnTokens (take (n - j) (drop j nodes)))" if "j \<le> n" for j
  proof -
    have "take (Suc n - j) (drop j nodes) = take (n - j) (drop j nodes) @ [nodes ! n]"
      using that n take_Suc_conv_app_nth [of "n - j" "drop j nodes"] by (simp add: Suc_diff_le)
    then show ?thesis by simp
  qed
  show ?case
  proof (cases "retain \<le> i64 ?a")
    case True
    then have "r = n" using Suc.prems(3) by (simp add: i64_add_left)
    then show ?thesis using True split [of n] by simp
  next
    case False
    then have r: "r = retainLoop nodes retain (i64 ?a) n" using Suc.prems(3) by (simp add: i64_add_left)
    show ?thesis
    proof (cases "n = 0")
      case True
      with r show ?thesis by simp
    next
      case n0: False
      have IH: "r < n" "r = 0 \<or> retain \<le> i64 (?a + sum_list (map tnTokens (take (n - r) (drop r nodes))))"
        "\<forall>j. r < j \<and> j < n \<longrightarrow> i64 (?a + sum_list (map tnTokens (take (n - j) (drop j nodes)))) < retain"
        using Suc.IH [OF _ _ r] n n0 by auto
      have "i64 (a + sum_list (map tnTokens (take (Suc n - j) (drop j nodes)))) < retain" if "r < j" "j < Suc n" for j
        using IH(3) False split [of j] that by (cases "j = n") (auto simp: add.assoc)
      then show ?thesis using IH(1,2) split [of r] by (auto simp: add.assoc)
    qed
  qed
qed simp

definition safe_cut :: "event list \<Rightarrow> int list \<Rightarrow> nat \<Rightarrow> bool" where
  "safe_cut evs nodes k \<longleftrightarrow> 0 < k \<and> k < length nodes \<and> open_calls evs (take k nodes) = 0"

definition kept_from :: "measurement \<Rightarrow> int \<Rightarrow> nat" where
  "kept_from me retain = retainLoop (meNodes me) retain 0 (length (meNodes me))"

lemma Select_spec:
  assumes "compact_ok sess w" and run: "surface_run (sLog (cwSession w)) = Ok (st, rs)"
    and priced: "map tnSeq (meNodes me) = ssNodes st"
  obtains w' u where "compact_ok sess w'" "same_log w w'"
    "SelectCompactableRange sess w me retain = (w',
       if kept_from me retain = 0 then Ok None
       else if \<not> paired (sLog (cwSession w)) (ssNodes st) then Err (ResultUnmatched u)
       else if \<exists>k \<le> kept_from me retain. safe_cut (sLog (cwSession w)) (ssNodes st) k
       then (let k = Max {k. k \<le> kept_from me retain \<and> safe_cut (sLog (cwSession w)) (ssNodes st) k}
             in Ok (Some (ssNodes st ! 0, ssNodes st ! (k - 1))))
       else Ok None)"
proof (cases "meNodes me = []")
  case True
  then show thesis using that [of w] assms(1) by (simp add: SelectCompactableRange_def kept_from_def)
next
  case False
  let ?evs = "sLog (cwSession w)" and ?nodes = "ssNodes st" and ?k = "kept_from me retain"
  have len: "length (meNodes me) = length ?nodes" using arg_cong [OF priced, of length] by simp
  have kb: "?k < length ?nodes"
    using retainLoop_spec [of "length (meNodes me)" "meNodes me" ?k retain 0] False len
    by (auto simp: kept_from_def simp flip: length_greater_0_conv)
  obtain w1 where w1: "surfaceNodes w = (w1, Ok ?nodes)" "compact_ok sess w1" "same_log w w1"
    by (rule surfaceNodes_spec [OF assms(1) run])
  have log: "sLog (cwSession w1) = ?evs" using w1(3) by (simp add: same_log_def)
  have sel: "SelectCompactableRange sess w me retain =
      (if ?k = 0 then (w1, Ok None)
       else bindW (balancedLoop sess w1 ?nodes ?k) (\<lambda>w k. if k = 0 then (w, Ok None) else (w, Ok (Some (?nodes ! 0, ?nodes ! (k - 1))))))"
    using False len priced by (simp add: SelectCompactableRange_def w1(1) kept_from_def Let_def)
  have run1: "surface_run (sLog (cwSession w1)) = Ok (st, rs)" using run log by simp
  from balancedLoop_spec [OF w1(2) run1 kb] obtain w2 u r where w2: "balancedLoop sess w1 ?nodes ?k = (w2, r)" "compact_ok sess w2" "same_log w1 w2"
    and r: "if ?k = 0 then r = Ok 0 else if \<not> paired ?evs ?nodes then r = Err (ResultUnmatched u)
        else \<exists>k' \<le> ?k. r = Ok k' \<and> open_calls ?evs (take k' ?nodes) = 0
               \<and> (\<forall>j. k' < j \<and> j \<le> ?k \<longrightarrow> open_calls ?evs (take j ?nodes) \<noteq> 0)"
    unfolding log by blast
  have same: "same_log w w2" using w1(3) w2(3) by (rule same_log_trans)
  show thesis
  proof (cases "?k = 0 \<or> \<not> paired ?evs ?nodes")
    case True
    then show thesis
    proof (cases "?k = 0")
      case True
      with sel w1(2,3) show thesis by (intro that [of w1]) simp_all
    next
      case False
      with True sel r w2(1,2) same show thesis by (intro that [of w2 u]) simp_all
    qed
  next
    case False
    with r obtain k' where k': "k' \<le> ?k" "r = Ok k'" "open_calls ?evs (take k' ?nodes) = 0"
      "\<forall>j. k' < j \<and> j \<le> ?k \<longrightarrow> open_calls ?evs (take j ?nodes) \<noteq> 0" by auto
    show thesis
    proof (cases "k' = 0")
      case True
      then have "\<not> (\<exists>k \<le> ?k. safe_cut ?evs ?nodes k)" using k'(4) by (auto simp: safe_cut_def)
      with False True sel w2(1,2) k'(2) same show thesis by (intro that [of w2]) simp_all
    next
      case pos: False
      then have s: "safe_cut ?evs ?nodes k'" using k'(1,3) kb by (simp add: safe_cut_def)
      have "Max {k. k \<le> ?k \<and> safe_cut ?evs ?nodes k} = k'"
      proof (rule Max_eqI)
        fix j assume "j \<in> {k. k \<le> ?k \<and> safe_cut ?evs ?nodes k}"
        with k'(4) show "j \<le> k'" by (auto simp: safe_cut_def intro: leI)
      qed (use s k'(1) in simp_all)
      with False pos s sel w2(1,2) k'(1,2) same show thesis by (intro that [of w2]) auto
    qed
  qed
qed

lemma Validate_spec:
  assumes "compact_ok sess w" and run: "surface_run (sLog (cwSession w)) = Ok (st, rs)"
  shows "\<exists>w' r. ValidateSurfaceRegion sess w start end' = (w', r) \<and> compact_ok sess w' \<and> same_log w w' \<and> r \<noteq> Panic
     \<and> (\<forall>sel. r = Ok sel \<longleftrightarrow> (\<exists>i j. index_of start (ssNodes st) = Some i \<and> index_of end' (ssNodes st) = Some j \<and> i \<le> j
          \<and> paired (sLog (cwSession w)) (ssNodes st) \<and> open_calls (sLog (cwSession w)) (take i (ssNodes st)) = 0
          \<and> open_calls (sLog (cwSession w)) (take (j + 1) (ssNodes st)) = 0
          \<and> sel = \<lparr>slStart = start, slEnd = end', slStartIdx = i, slEndIdx = j, slShadowedSeqs = take (j + 1 - i) (drop i (ssNodes st))\<rparr>))"
proof -
  let ?evs = "sLog (cwSession w)" and ?nodes = "ssNodes st"
  have dist: "distinct ?nodes" using surface_run_ok [OF run] by (simp add: surface_ok_def)
  obtain w1 where w1: "surfaceNodes w = (w1, Ok ?nodes)" "compact_ok sess w1" "same_log w w1"
    by (rule surfaceNodes_spec [OF assms(1) run])
  show ?thesis
  proof (cases "index_of start ?nodes")
    case None
    with w1 show ?thesis by (auto simp: ValidateSurfaceRegion_def simp del: index_of_None_iff)
  next
    case (Some i)
    show ?thesis
    proof (cases "index_of end' ?nodes")
      case None
      with Some w1 show ?thesis by (auto simp: ValidateSurfaceRegion_def simp del: index_of_None_iff)
    next
      case (Some j)
      note idx = \<open>index_of start ?nodes = Some i\<close> Some
      have ij: "i < length ?nodes" "j < length ?nodes" using idx index_of_SomeD by metis+
      have run1: "surface_run (sLog (cwSession w1)) = Ok (st, rs)" and log1: "sLog (cwSession w1) = ?evs" using run w1(3) by (simp_all add: same_log_def)
      obtain w2 u where w2: "compact_ok sess w2" "same_log w1 w2" "ToolPairingBalancedBefore sess w1 (?nodes ! i) = (w2, cut_answer ?evs ?nodes 0 u (?nodes ! i))"
        using Before_spec [OF w1(2) run1] log1 by metis
      have run2: "surface_run (sLog (cwSession w2)) = Ok (st, rs)" and log2: "sLog (cwSession w2) = ?evs" using run1 log1 w2(2) by (simp_all add: same_log_def)
      obtain w3 u' where w3: "compact_ok sess w3" "same_log w2 w3" "ToolPairingBalancedAfter sess w2 (?nodes ! j) = (w3, cut_answer ?evs ?nodes 1 u' (?nodes ! j))"
        using After_spec [OF w2(1) run2] log2 by metis
      note ans = w2(3) [unfolded cut_answer_nth [OF dist ij(1)]] w3(3) [unfolded cut_answer_nth [OF dist ij(2)]]
      have same: "same_log w w2" "same_log w w3" using w1(3) w2(2) w3(2) same_log_trans by blast+
      have v: "ValidateSurfaceRegion sess w start end' =
          (if i > j then (w1, Err (RangeReversed start i end' j))
           else if \<not> paired ?evs ?nodes then (w2, Err (ResultUnmatched u))
           else if open_calls ?evs (take i ?nodes) \<noteq> 0 then (w2, Err (StartUnbalanced start))
           else if open_calls ?evs (take (j + 1) ?nodes) \<noteq> 0 then (w3, Err (EndUnbalanced end'))
           else (w3, Ok \<lparr>slStart = start, slEnd = end', slStartIdx = i, slEndIdx = j, slShadowedSeqs = take (j + 1 - i) (drop i ?nodes)\<rparr>))"
        using ans idx by (simp add: ValidateSurfaceRegion_def w1(1))
      show ?thesis unfolding v using idx w1 w2(1) w3(1) same by auto
    qed
  qed
qed

end
