(* ===== verification/Compaction.thy ===== *)
theory Compaction
  imports Compaction_Range
begin

text \<open>
  \<open>compaction/types.go\<close>, \<open>compaction/checkpoint.go\<close> and \<open>compactionbasic/region.go\<close>: the transaction that replaces a span of the
  surface by a summary.  An opening event is the lock; the span is priced and summarised while others may append to the session; the
  surface is checked again, the summary and the replacing checkpoint are appended, and the bracket is closed, with an error text when any
  of it failed.  The summarizer, the meter's prices, the clock, random bytes, the signal, the flush and what others append meanwhile are
  arguments; others are taken to append only while the summarizer runs.  Shown here: a committed transaction replaces exactly
  the span, the bracket is always closed, and it excludes other transactions.
\<close>

section \<open>Events of a compaction\<close>

definition EventCompactionStart :: string where "EventCompactionStart = ''compaction/start''"
definition EventCompactionSummary :: string where "EventCompactionSummary = ''compaction/summary''"
definition EventCompactionEnd :: string where "EventCompactionEnd = ''compaction/end''"

record seq_range =
  rgStart :: int
  rgEnd :: int

record start_payload =
  cspCompactionID :: string
  cspSourceCommandID :: string
  cspTurn :: "int option"

record summary_payload =
  cmCompactionID :: string
  cmSourceCommandID :: string
  cmSummary :: "content_block list option"
  cmShadowedRange :: seq_range
  cmShadowedSeqs :: "int list"
  cmShadowedTokenCount :: int
  cmProvider :: string
  cmModel :: string
  cmMaxTokens :: "int option"
  cmUsage :: "token_usage option"
  cmRawOutput :: "content_block list option"
  cmLLMStreamCall :: bool

record end_payload =
  cepCompactionID :: string
  cepSourceCommandID :: string
  cepTurn :: "int option"
  cepError :: string

record compaction_result =
  crCompactionID :: string
  crSourceCommandID :: string
  crStartSeq :: int
  crSummarySeq :: int
  crEndSeq :: int
  crSummary :: "content_block list option"
  crShadowedRange :: seq_range
  crShadowedSeqs :: "int list"
  crShadowedTokenCount :: int

definition enc_turn :: "int option \<Rightarrow> json" where
  "enc_turn t = (case t of None \<Rightarrow> JNull | Some n \<Rightarrow> JInt n)"

definition enc_seq_range :: "seq_range \<Rightarrow> json" where
  "enc_seq_range r = JObj (mem ''start'' (JInt (rgStart r)) @ mem ''end'' (JInt (rgEnd r)))"

definition enc_start_payload :: "start_payload \<Rightarrow> json" where
  "enc_start_payload p = JObj (mem ''compactionId'' (JStr (cspCompactionID p)) @ mem_str ''sourceCommandId'' (cspSourceCommandID p)
     @ mem ''turn'' (enc_turn (cspTurn p)))"

definition dec_start_payload :: "start_payload decoder" where
  "dec_start_payload = dec_struct
     [(''compactionId'', fld cspCompactionID cspCompactionID_update dec_string),
      (''sourceCommandId'', fld cspSourceCommandID cspSourceCommandID_update dec_string),
      (''turn'', fld cspTurn cspTurn_update (dec_ptr 0 dec_int64))]"

definition enc_summary_payload :: "summary_payload \<Rightarrow> json" where
  "enc_summary_payload p = JObj (mem ''compactionId'' (JStr (cmCompactionID p)) @ mem_str ''sourceCommandId'' (cmSourceCommandID p)
     @ mem ''summary'' (enc_slice enc_block (cmSummary p)) @ mem ''shadowedRange'' (enc_seq_range (cmShadowedRange p))
     @ mem ''shadowedSeqs'' (JArr (map JInt (cmShadowedSeqs p))) @ mem ''shadowedTokenCount'' (JInt (cmShadowedTokenCount p))
     @ mem ''provider'' (JStr (cmProvider p)) @ mem ''model'' (JStr (cmModel p))
     @ mem_opt ''maxTokens'' (map_option JInt (cmMaxTokens p)) @ mem_opt ''usage'' (map_option enc_usage (cmUsage p))
     @ mem_slice ''rawOutput'' enc_block (cmRawOutput p) @ mem_bool ''llmStreamCall'' (cmLLMStreamCall p))"

definition enc_end_payload :: "end_payload \<Rightarrow> json" where
  "enc_end_payload p = JObj (mem ''compactionId'' (JStr (cepCompactionID p)) @ mem_str ''sourceCommandId'' (cepSourceCommandID p)
     @ mem ''turn'' (enc_turn (cepTurn p)) @ mem_str ''error'' (cepError p))"

definition checkpointPlugin :: string where "checkpointPlugin = ''compact''"

definition CompactCheckpointSource :: "string \<Rightarrow> string \<Rightarrow> json" where
  "CompactCheckpointSource compactionID sourceCommandID =
     JObj (mem ''kind'' (JStr ''plugin'') @ mem ''plugin'' (JStr checkpointPlugin) @ mem ''compactionId'' (JStr compactionID)
       @ mem_str ''sourceCommandId'' sourceCommandID)"

definition IsCompactCheckpointSource :: "message_source \<Rightarrow> bool" where
  "IsCompactCheckpointSource source \<longleftrightarrow> srcKind source = ''plugin'' \<and> srcPlugin source = checkpointPlugin"

definition messageSourceFor :: "json \<Rightarrow> message_source" where
  "messageSourceFor source = zero_source\<lparr>srcKind := ''plugin'', srcPlugin := ''compact'', srcReplayState := Some source\<rparr>"

definition newUUID :: "8 word list \<Rightarrow> string" where
  "newUUID random =
     (let b = random[6 := (random ! 6 AND 0x0F) OR 0x40, 8 := (random ! 8 AND 0x3F) OR 0x80];
          part = (\<lambda>i j. hex_bytes (take (j - i) (drop i b)))
      in part 0 4 @ ''-'' @ part 4 6 @ ''-'' @ part 6 8 @ ''-'' @ part 8 10 @ ''-'' @ part 10 16)"

section \<open>The summary\<close>

definition SummaryOpenTag :: string where "SummaryOpenTag = ''<compacted-summary>''"
definition SummaryCloseTag :: string where "SummaryCloseTag = ''</compacted-summary>''"

definition CheckpointPreamble :: string where
  "CheckpointPreamble = ''This is an automatically generated checkpoint condensing an earlier span of the conversation to free up context. Treat the captured context as established background and build on it without restating it. Continue the task directly from the messages that follow, without acknowledging this checkpoint.''"

record summarization_input =
  siSystem :: string
  siTools :: "tool_schema list option"
  siMessages :: "message list"

record summary_result =
  smSummary :: "content_block list option"
  smRawOutput :: "content_block list option"
  smLlmStreamCall :: bool
  smProvider :: string
  smModel :: string
  smMaxTokens :: "int option"
  smUsage :: "token_usage option"

definition textBlock :: "string \<Rightarrow> content_block" where
  "textBlock text = ContentBlock BlockText text JNull [] [] [] [] None False"

definition FrameSummary :: "content_block list option \<Rightarrow> content_block list" where
  "FrameSummary summary =
     [textBlock (CheckpointPreamble @ [CHR 0x0A, CHR 0x0A] @ SummaryOpenTag)]
     @ (case summary of None \<Rightarrow> [] | Some bs \<Rightarrow> bs) @ [textBlock SummaryCloseTag]"

section \<open>The entry state of a log\<close>

record entry_state =
  esOpenTurn :: "int option"
  esUnmatchedCompactionStart :: "event option"
  esLatestEndSeedSeq :: "int option"

text \<open>One step of the backward scan: the state and what is already known of the turn and of the compaction.\<close>

definition entryStep :: "entry_state \<times> bool \<times> bool \<Rightarrow> event \<Rightarrow> entry_state \<times> bool \<times> bool" where
  "entryStep acc event =
     (case acc of (state, turnKnown, compactionKnown) \<Rightarrow>
        let state = (if esLatestEndSeedSeq state = None \<and> evType event = EventEndSeed
                     then state\<lparr>esLatestEndSeedSeq := Some (evSeq event)\<rparr> else state);
            (state, compactionKnown) =
              (if compactionKnown then (state, True)
               else if evType event = EventCompactionStart then (state\<lparr>esUnmatchedCompactionStart := Some event\<rparr>, True)
               else (state, evType event = EventCompactionEnd));
            (state, turnKnown) =
              (if turnKnown then (state, True)
               else if evType event = EventTurnStart then
                 (case unmarshal_ok dec_turn_data \<lparr>tdTurn = 0\<rparr> (evData event) of
                    Some d \<Rightarrow> (state\<lparr>esOpenTurn := Some (tdTurn d)\<rparr>, True)
                  | None \<Rightarrow> (state, True))
               else (state, evType event = EventTurnEnd))
        in (state, turnKnown, compactionKnown))"

fun entryLoop :: "entry_state \<times> bool \<times> bool \<Rightarrow> event list \<Rightarrow> entry_state" where
  "entryLoop acc [] = fst acc"
| "entryLoop acc (event # earlier) =
     (case entryStep acc event of (state, turnKnown, compactionKnown) \<Rightarrow>
        if turnKnown \<and> compactionKnown \<and> esLatestEndSeedSeq state \<noteq> None then state
        else entryLoop (state, turnKnown, compactionKnown) earlier)"

definition inspectCompactionEntryState :: "event list \<Rightarrow> entry_state" where
  "inspectCompactionEntryState events =
     entryLoop (\<lparr>esOpenTurn = None, esUnmatchedCompactionStart = None, esLatestEndSeedSeq = None\<rparr>, False, False) (rev events)"

definition assertCompactionInactive :: "entry_state \<Rightarrow> (compact_error, unit) outcome" where
  "assertCompactionInactive state =
     (case esUnmatchedCompactionStart state of
        None \<Rightarrow> Ok ()
      | Some start \<Rightarrow>
          (case esLatestEndSeedSeq state of
             Some seq \<Rightarrow> if seq > evSeq start then Ok () else Err (ManualCompactionError ManualBusy None)
           | None \<Rightarrow> Err (ManualCompactionError ManualBusy None)))"

definition AssertNoActiveCompaction :: "session \<Rightarrow> (compact_error, unit) outcome" where
  "AssertNoActiveCompaction sess = assertCompactionInactive (inspectCompactionEntryState (sLog sess))"

section \<open>The transaction\<close>

definition StabilityWholeSurface :: string where "StabilityWholeSurface = ''whole-surface''"
definition StabilitySelectedSpan :: string where "StabilitySelectedSpan = ''selected-span''"

datatype transaction_stage = StageSummary | StageCommit

record transaction_options =
  toOwnerCurrentTurn :: bool
  toStability :: string
  toFlush :: "(compact_error, unit) outcome option"
  toSourceCommandID :: string

text \<open>What a transaction runs against: the meter and the size of JSON texts, the summarizer, the appends that others make to the session
  while the summarizer runs, the rendering of an error, random bytes, the clock of its own appends, and whether the signal is
  cancelled at each of its three readings.\<close>

record region_env =
  enSize :: "json \<Rightarrow> nat"
  enMeter :: meter
  enSummarize :: "summarization_input \<Rightarrow> (compact_error, summary_result) outcome"
  enMeanwhile :: "(int \<times> string \<times> json option \<times> surface_intent option) list"
  enErrorChain :: "compact_error \<Rightarrow> string"
  enIDBytes :: "8 word list"
  enMessageBytes :: "8 word list"
  enClock :: "nat \<Rightarrow> int"
  enCancelled :: "nat \<Rightarrow> bool"

record prepared_compaction =
  pcSelection :: surface_selection
  pcMeasuredNodes :: "token_surface_node list"
  pcSelectedNodes :: "token_surface_node list"
  pcShadowedTokenCount :: int
  pcShadowedRouteTokenCount :: int
  pcInput :: summarization_input

record summarized_compaction =
  scPrepared :: prepared_compaction
  scResult :: summary_result
  scCheckpointMessage :: message

definition measureNow :: "region_env \<Rightarrow> compact_world \<Rightarrow> compact_world \<times> (compact_error, measurement) outcome" where
  "measureNow env w =
     (case Measure (enSize env) (enMeter env) (cwMeter w) (sLog (cwSession w)) None of
        (state, r) \<Rightarrow> (w\<lparr>cwMeter := Some state\<rparr>, map_err MeterFailed r))"

definition appendNow ::
    "region_env \<Rightarrow> nat \<Rightarrow> compact_world \<Rightarrow> string \<Rightarrow> json \<Rightarrow> surface_intent option \<Rightarrow> compact_world \<times> (compact_error, event) outcome" where
  "appendNow env tick w ty data intent =
     (case Append (enClock env tick) (cwSession w) ty (Some data) intent of
        (s, r) \<Rightarrow> (w\<lparr>cwSession := s\<rparr>, map_err AppendFailed r))"

definition buildSummarizationInput :: "compact_world \<Rightarrow> int list \<Rightarrow> compact_world \<times> (compact_error, summarization_input) outcome" where
  "buildSummarizationInput w shadowedSeqs =
     (case RequestHeader (cwSession w) of
        (s, header) \<Rightarrow>
          (w\<lparr>cwSession := s\<rparr>,
           if \<exists>seq \<in> set shadowedSeqs. seq < 0 then Panic
           else Ok \<lparr>siSystem = (case header of None \<Rightarrow> [] | Some h \<Rightarrow> ehSystem h), siTools = (case header of None \<Rightarrow> None | Some h \<Rightarrow> ehTools h),
                    siMessages = List.map_filter (\<lambda>seq. if seq \<ge> int (length (sLog s)) then None else DeriveEventMessage (sLog s ! nat seq)) shadowedSeqs\<rparr>))"

definition prepareCompaction ::
    "region_env \<Rightarrow> compact_world \<Rightarrow> surface_selection \<Rightarrow> compact_world \<times> (compact_error, prepared_compaction) outcome" where
  "prepareCompaction env w selection =
     bindW (measureNow env w) (\<lambda>w measurement.
       let nodes = meNodes measurement; changed = SurfaceChanged ''compaction: selected surface changed before summarization began'' in
       if slEndIdx selection \<ge> length nodes \<or> slStartIdx selection > slEndIdx selection then (w, Err changed)
       else
         let selectedNodes = take (slEndIdx selection + 1 - slStartIdx selection) (drop (slStartIdx selection) nodes) in
         if map tnSeq selectedNodes \<noteq> slShadowedSeqs selection then (w, Err changed)
         else bindW (buildSummarizationInput w (slShadowedSeqs selection)) (\<lambda>w input.
           (w, Ok \<lparr>pcSelection = selection, pcMeasuredNodes = nodes, pcSelectedNodes = selectedNodes,
                   pcShadowedTokenCount = foldl (\<lambda>t n. i64 (t + tnHeuristicTokens n)) 0 selectedNodes,
                   pcShadowedRouteTokenCount = foldl (\<lambda>t n. i64 (t + tnTokens n)) 0 selectedNodes, pcInput = input\<rparr>)))"

definition summarizeCompaction ::
    "region_env \<Rightarrow> prepared_compaction \<Rightarrow> string \<Rightarrow> string \<Rightarrow> (compact_error, summarized_compaction) outcome" where
  "summarizeCompaction env prepared compactionID sourceCommandID =
     andThen (enSummarize env (pcInput prepared)) (\<lambda>result.
       let checkpointMessage = NewUserMessage (NewMessageID (enMessageBytes env)) (Some (FrameSummary (smSummary result)))
             (messageSourceFor (CompactCheckpointSource compactionID sourceCommandID));
           framed = EstimateMessage (enSize env) checkpointMessage in
       if framed \<ge> pcShadowedRouteTokenCount prepared then Err (SummaryNotSmaller framed (pcShadowedRouteTokenCount prepared))
       else Ok \<lparr>scPrepared = prepared, scResult = result, scCheckpointMessage = checkpointMessage\<rparr>)"

definition assertWholeSurfaceUnchanged :: "region_env \<Rightarrow> compact_world \<Rightarrow> prepared_compaction \<Rightarrow> compact_world \<times> (compact_error, unit) outcome" where
  "assertWholeSurfaceUnchanged env w prepared =
     bindW (measureNow env w) (\<lambda>w current.
       if meNodes current \<noteq> pcMeasuredNodes prepared
       then (w, Err (SurfaceChanged ''compaction: session surface changed during summarization'')) else (w, Ok ()))"

definition assertSelectedSpanStable ::
    "region_env \<Rightarrow> nat \<Rightarrow> compact_world \<Rightarrow> prepared_compaction \<Rightarrow> compact_world \<times> (compact_error, unit) outcome" where
  "assertSelectedSpanStable env sess w prepared =
     (case ValidateSurfaceRegion sess w (slStart (pcSelection prepared)) (slEnd (pcSelection prepared)) of
        (w, Err _) \<Rightarrow> (w, Err (SurfaceChanged ''compaction: the selected span is no longer a valid replacement target''))
      | (w, Panic) \<Rightarrow> (w, Panic)
      | (w, Ok current) \<Rightarrow>
          if slShadowedSeqs current \<noteq> slShadowedSeqs (pcSelection prepared)
          then (w, Err (SurfaceChanged ''compaction: the selected span changed during summarization''))
          else bindW (measureNow env w) (\<lambda>w measured.
            if length (meNodes measured) \<le> slEndIdx current
               \<or> take (slEndIdx current + 1 - slStartIdx current) (drop (slStartIdx current) (meNodes measured)) \<noteq> pcSelectedNodes prepared
            then (w, Err (SurfaceChanged ''compaction: the selected span was rewritten during summarization'')) else (w, Ok ())))"

definition assertStable ::
    "region_env \<Rightarrow> nat \<Rightarrow> string \<Rightarrow> compact_world \<Rightarrow> summarized_compaction \<Rightarrow> compact_world \<times> (compact_error, unit) outcome" where
  "assertStable env sess stability w summarized =
     (if stability = StabilitySelectedSpan then assertSelectedSpanStable env sess w (scPrepared summarized)
      else assertWholeSurfaceUnchanged env w (scPrepared summarized))"

definition summaryPayload :: "start_payload \<Rightarrow> summarized_compaction \<Rightarrow> summary_payload" where
  "summaryPayload start summarized =
     (let p = scPrepared summarized; r = scResult summarized
      in \<lparr>cmCompactionID = cspCompactionID start, cmSourceCommandID = cspSourceCommandID start, cmSummary = smSummary r,
          cmShadowedRange = \<lparr>rgStart = slStart (pcSelection p), rgEnd = slEnd (pcSelection p)\<rparr>,
          cmShadowedSeqs = slShadowedSeqs (pcSelection p), cmShadowedTokenCount = pcShadowedTokenCount p,
          cmProvider = smProvider r, cmModel = smModel r, cmMaxTokens = smMaxTokens r, cmUsage = smUsage r,
          cmRawOutput = smRawOutput r, cmLLMStreamCall = smLlmStreamCall r\<rparr>)"

definition commitCompactionBody ::
    "region_env \<Rightarrow> compact_world \<Rightarrow> event \<Rightarrow> summarized_compaction \<Rightarrow> compact_world \<times> (compact_error, compaction_result) outcome" where
  "commitCompactionBody env w startEvent summarized =
     (case unmarshal_ok dec_start_payload \<lparr>cspCompactionID = [], cspSourceCommandID = [], cspTurn = None\<rparr> (evData startEvent) of
        None \<Rightarrow> (w, Err StartPayloadUnreadable)
      | Some start \<Rightarrow>
          let p = scPrepared summarized; sel = pcSelection p in
          bindW (appendNow env 1 w EventCompactionSummary (enc_summary_payload (summaryPayload start summarized)) None) (\<lambda>w summaryEvent.
          bindW (appendNow env 2 w EventUserMessage (enc_message (scCheckpointMessage summarized))
                   (Some \<lparr>siSurfaceOp = \<lparr>opKind = SurfaceReplace, opStart = slStart sel, opEnd = slEnd sel\<rparr>,
                          siSourceEventSeqs = Some (evSeq startEvent # evSeq summaryEvent # slShadowedSeqs sel)\<rparr>)) (\<lambda>w _.
            (w, Ok \<lparr>crCompactionID = cspCompactionID start, crSourceCommandID = cspSourceCommandID start, crStartSeq = evSeq startEvent,
                    crSummarySeq = evSeq summaryEvent, crEndSeq = 0, crSummary = smSummary (scResult summarized),
                    crShadowedRange = \<lparr>rgStart = slStart sel, rgEnd = slEnd sel\<rparr>, crShadowedSeqs = slShadowedSeqs sel,
                    crShadowedTokenCount = pcShadowedTokenCount p\<rparr>))))"

definition meanwhile :: "region_env \<Rightarrow> compact_world \<Rightarrow> compact_world" where
  "meanwhile env w = w\<lparr>cwSession := foldl (\<lambda>s (now, ty, data, intent). fst (Append now s ty data intent)) (cwSession w) (enMeanwhile env)\<rparr>"

definition summaryStage ::
    "region_env \<Rightarrow> nat \<Rightarrow> transaction_options \<Rightarrow> surface_selection \<Rightarrow> string \<Rightarrow> compact_world
       \<Rightarrow> compact_world \<times> (compact_error, summarized_compaction) outcome" where
  "summaryStage env sess options selection compactionID w =
     bindW (prepareCompaction env w selection) (\<lambda>w prepared.
     bindW (meanwhile env w, summarizeCompaction env prepared compactionID (toSourceCommandID options)) (\<lambda>w summarized.
       if \<not> toOwnerCurrentTurn options \<and> enCancelled env 1 then (w, Err SignalCancelled)
       else bindW (assertStable env sess (toStability options) w summarized) (\<lambda>w _. (w, Ok summarized))))"

text \<open>A panic of the body is recovered as a failure of the stage it happened in.\<close>

primrec failureOf :: "transaction_stage \<Rightarrow> (compact_error, 'a) outcome \<Rightarrow> (compact_error \<times> transaction_stage) option" where
  "failureOf stage (Ok x) = None"
| "failureOf stage (Err e) = Some (e, stage)"
| "failureOf stage Panic = Some (Recovered, stage)"

definition endPayload :: "transaction_options \<Rightarrow> string \<Rightarrow> int option \<Rightarrow> string \<Rightarrow> json" where
  "endPayload options compactionID owner err =
     enc_end_payload \<lparr>cepCompactionID = compactionID, cepSourceCommandID = toSourceCommandID options, cepTurn = owner, cepError = err\<rparr>"

record attempt =
  atFailure :: "(compact_error \<times> transaction_stage) option"
  atClosed :: bool
  atPending :: "compaction_result option"

text \<open>The single attempt to close a failed transaction runs outside the recovered body.\<close>

definition closeFailed ::
    "region_env \<Rightarrow> transaction_options \<Rightarrow> string \<Rightarrow> int option \<Rightarrow> compact_world \<Rightarrow> compact_error \<times> transaction_stage
       \<Rightarrow> compact_world \<times> (compact_error, attempt) outcome" where
  "closeFailed env options compactionID owner w failure =
     (case appendNow env 3 w EventCompactionEnd (endPayload options compactionID owner (enErrorChain env (fst failure))) None of
        (w, Ok _) \<Rightarrow> (w, Ok \<lparr>atFailure = Some failure, atClosed = True, atPending = None\<rparr>)
      | (w, Err e) \<Rightarrow> (w, Ok \<lparr>atFailure = Some (e, StageCommit), atClosed = False, atPending = None\<rparr>)
      | (w, Panic) \<Rightarrow> (w, Panic))"

definition runAttempt ::
    "region_env \<Rightarrow> nat \<Rightarrow> transaction_options \<Rightarrow> surface_selection \<Rightarrow> string \<Rightarrow> int option \<Rightarrow> event \<Rightarrow> compact_world
       \<Rightarrow> compact_world \<times> (compact_error, attempt) outcome" where
  "runAttempt env sess options selection compactionID owner startEvent w =
     (case summaryStage env sess options selection compactionID w of
        (w, Ok summarized) \<Rightarrow>
          (case commitCompactionBody env w startEvent summarized of
             (w, Ok body) \<Rightarrow>
               (case appendNow env 3 w EventCompactionEnd (endPayload options compactionID owner []) None of
                  (w, Ok endEvent) \<Rightarrow> (w, Ok \<lparr>atFailure = None, atClosed = True, atPending = Some (body\<lparr>crEndSeq := evSeq endEvent\<rparr>)\<rparr>)
                | (w, r) \<Rightarrow> (w, Ok \<lparr>atFailure = failureOf StageCommit r, atClosed = False, atPending = None\<rparr>))
           | (w, r) \<Rightarrow> closeFailed env options compactionID owner w (the (failureOf StageCommit r)))
      | (w, r) \<Rightarrow> closeFailed env options compactionID owner w (the (failureOf StageSummary r)))"

definition throwManualFailure :: "compact_error \<times> transaction_stage \<Rightarrow> compact_error" where
  "throwManualFailure failure =
     (case failure of
        (e, StageCommit) \<Rightarrow> ManualCompactionError ManualCommit (Some e)
      | (SurfaceChanged m, _) \<Rightarrow> ManualCompactionError ManualChanged (Some (SurfaceChanged m))
      | (e, _) \<Rightarrow> ManualCompactionError ManualSummary (Some e))"

definition transactionOwner :: "transaction_options \<Rightarrow> entry_state \<Rightarrow> (compact_error, int option) outcome" where
  "transactionOwner options state =
     (if \<not> toOwnerCurrentTurn options then
        (if esOpenTurn state \<noteq> None then Err (ManualCompactionError ManualBusy None) else Ok None)
      else if esOpenTurn state = None then Err NoOpenTurn else Ok (esOpenTurn state))"

definition settle :: "region_env \<Rightarrow> transaction_options \<Rightarrow> attempt \<Rightarrow> (compact_error, compaction_result) outcome" where
  "settle env options a =
     (let flushed = (if atClosed a then (case toFlush options of None \<Rightarrow> Ok () | Some r \<Rightarrow> r) else Ok ()) in
      if flushed = Panic then Panic
      else if \<not> toOwnerCurrentTurn options \<and> enCancelled env 2 then Err SignalCancelled
      else case atFailure a of
             Some failure \<Rightarrow> Err (if \<not> toOwnerCurrentTurn options then throwManualFailure failure else fst failure)
           | None \<Rightarrow>
               (case flushed of
                  Err e \<Rightarrow> Err (ManualCompactionError ManualPersistence (Some e))
                | _ \<Rightarrow> (case atPending a of None \<Rightarrow> Err NoResult | Some result \<Rightarrow> Ok result)))"

definition CompactSurfaceRegion ::
    "region_env \<Rightarrow> nat \<Rightarrow> compact_world \<Rightarrow> int \<Rightarrow> int \<Rightarrow> transaction_options \<Rightarrow> compact_world \<times> (compact_error, compaction_result) outcome" where
  "CompactSurfaceRegion env sess w start end' options =
     (if \<not> toOwnerCurrentTurn options \<and> enCancelled env 0 then (w, Err SignalCancelled)
      else bindW (ValidateSurfaceRegion sess w start end') (\<lambda>w selection.
        let state = inspectCompactionEntryState (sLog (cwSession w)); compactionID = newUUID (enIDBytes env) in
        bindW (w, assertCompactionInactive state) (\<lambda>w _.
        bindW (w, transactionOwner options state) (\<lambda>w owner.
        bindW (appendNow env 0 w EventCompactionStart
                 (enc_start_payload \<lparr>cspCompactionID = compactionID, cspSourceCommandID = toSourceCommandID options, cspTurn = owner\<rparr>) None) (\<lambda>w startEvent.
        bindW (runAttempt env sess options selection compactionID owner startEvent w) (\<lambda>w a. (w, settle env options a)))))))"

section \<open>Steps of the transaction\<close>

definition tx_ok :: "region_env \<Rightarrow> nat \<Rightarrow> compact_world \<Rightarrow> bool" where
  "tx_ok env sess w \<longleftrightarrow> compact_ok sess w \<and> cache_ok (enSize env) (cwMeter w) (sLog (cwSession w))"

definition log_surface :: "event list \<Rightarrow> int list" where
  "log_surface evs = (case FoldSurface evs of Ok res \<Rightarrow> sfNodes res | _ \<Rightarrow> [])"

definition surface_of :: "compact_world \<Rightarrow> int list" where
  "surface_of w = log_surface (sLog (cwSession w))"

lemma tx_run: "tx_ok env sess w \<Longrightarrow> \<exists>st rs. surface_run (sLog (cwSession w)) = Ok (st, rs) \<and> surface_of w = ssNodes st"
  using session_run [of "cwSession w"] by (auto simp: tx_ok_def compact_ok_def surface_of_def log_surface_def FoldSurface_def surface_run_def outcome_simps)

lemma tx_contiguous: "tx_ok env sess w \<Longrightarrow> contiguous_log (sLog (cwSession w))"
  using tx_run surface_run_contiguous by blast

lemma tx_ok_cong:
  assumes "tx_ok env sess w" and "compact_ok sess w'" and "same_log w w'"
  shows "tx_ok env sess w' \<and> surface_of w' = surface_of w"
  using assms by (auto simp: tx_ok_def same_log_def surface_of_def)

text \<open>A step that appends: the log grows, and every part of the state stays good.\<close>

lemma tx_ok_append:
  assumes "tx_ok env sess w" and "Append now (cwSession w) ty data intent = (s, r)"
  shows "tx_ok env sess (w\<lparr>cwSession := s\<rparr>) \<and> (\<exists>es. sLog s = sLog (cwSession w) @ es \<and> (\<forall>e \<in> set es. evType e = ty))"
proof -
  have inv: "session_inv (cwSession w)" and b: "balance_ok sess (cwBalance w) (sLog (cwSession w))" and c: "cache_ok (enSize env) (cwMeter w) (sLog (cwSession w))"
    using assms(1) by (auto simp: tx_ok_def compact_ok_def)
  have "\<exists>es. sLog s = sLog (cwSession w) @ es \<and> (\<forall>e \<in> set es. evType e = ty)"
    using assms(2) by (auto simp: Append_def Let_def split: option.splits outcome.splits prod.splits)
  then obtain es where es: "sLog s = sLog (cwSession w) @ es" "\<forall>e \<in> set es. evType e = ty" by blast
  with Append_inv [OF inv assms(2)] balance_ok_grow [OF b] cache_ok_grows [OF c tx_contiguous [OF assms(1)]] show ?thesis
    by (auto simp: tx_ok_def compact_ok_def)
qed

lemma surface_run_plain:
  assumes "surface_run evs = Ok (st, rs)" and "plain_type (evType e)" and "evSeq e = int (length evs)"
    and "evSurfaceOp e = None" and "evSourceEventSeqs e = None"
  shows "surface_run (evs @ [e]) = Ok (st, rs)"
proof -
  have "\<not> IsSurfaceEventType (evType e)" using assms(2) by (simp add: plain_type_def IsSurfaceEventType_def SurfaceEventTypes_def)
  with assms show ?thesis by (simp add: surface_run_snoc [OF assms(1)] planSurfaceEvent_def surfaceOpOf_def applySurfacePlan_def)
qed

lemma surface_of_run: "surface_run (sLog (cwSession w)) = Ok (st, rs) \<Longrightarrow> surface_of w = ssNodes st"
  by (simp add: surface_of_def log_surface_def FoldSurface_def surface_run_def)

text \<open>The log-only events of a compaction are always accepted and leave the surface alone.\<close>

lemma appendNow_plain:
  assumes ok: "tx_ok env sess w" and ty: "plain_type ty"
  obtains w' where "appendNow env tick w ty j None = (w', Ok (plain_event (cwSession w) (enClock env tick) ty j))" "tx_ok env sess w'"
    "sLog (cwSession w') = sLog (cwSession w) @ [plain_event (cwSession w) (enClock env tick) ty j]" "surface_of w' = surface_of w"
proof -
  have inv: "session_inv (cwSession w)" using ok by (simp add: tx_ok_def compact_ok_def)
  obtain s where s: "Append (enClock env tick) (cwSession w) ty (Some j) None = (s, Ok (plain_event (cwSession w) (enClock env tick) ty j))"
    "sLog s = sLog (cwSession w) @ [plain_event (cwSession w) (enClock env tick) ty j]"
    using Append_plain [OF inv ty] by blast
  obtain st rs where st: "surface_run (sLog (cwSession w)) = Ok (st, rs)" "surface_of w = ssNodes st" using tx_run [OF ok] by blast
  have "surface_run (sLog (cwSession (w\<lparr>cwSession := s\<rparr>))) = Ok (st, rs)"
    using surface_run_plain [OF st(1)] ty s(2) by (simp add: plain_event_def)
  from surface_of_run [OF this] have "surface_of (w\<lparr>cwSession := s\<rparr>) = surface_of w" using st(2) by simp
  with that [of "w\<lparr>cwSession := s\<rparr>"] s tx_ok_append [OF ok s(1)] show thesis by (simp add: appendNow_def)
qed

lemma compaction_plain [simp]:
  "plain_type EventCompactionStart" "plain_type EventCompactionSummary" "plain_type EventCompactionEnd"
  by (simp_all add: plain_type_def EventCompactionStart_def EventCompactionSummary_def EventCompactionEnd_def event_type_defs)

lemma measureNow_spec:
  assumes ok: "tx_ok env sess w" and m: "measureNow env w = (w', r)"
  shows "tx_ok env sess w' \<and> cwSession w' = cwSession w \<and> (\<forall>me. r = Ok me \<longrightarrow> map tnSeq (meNodes me) = surface_of w)"
proof -
  let ?log = "sLog (cwSession w)"
  have c: "cache_ok (enSize env) (cwMeter w) ?log" using ok by (simp add: tx_ok_def)
  obtain st0 r0 where m0: "Measure (enSize env) (enMeter env) (cwMeter w) ?log None = (st0, r0)" by fastforce
  have w': "w' = w\<lparr>cwMeter := Some st0\<rparr>" and r: "r = map_err MeterFailed r0" using m m0 by (auto simp: measureNow_def)
  have "cache_ok (enSize env) (Some st0) ?log" using Measure_keeps [OF c, of "enMeter env" None] m0 by simp
  then have tx: "tx_ok env sess w'" using ok by (auto simp: tx_ok_def compact_ok_def w')
  have "map tnSeq (meNodes me) = surface_of w" if "r = Ok me" for me
  proof -
    have me: "Measure (enSize env) (enMeter env) (cwMeter w) ?log None = (st0, Ok me)" using that r m0 by (simp add: outcome_simps)
    obtain ss rs where run: "surface_run ?log = Ok (ss, rs)" "surface_of w = ssNodes ss" using tx_run [OF ok] by blast
    obtain surface where sync: "Sync (enSize env) (cwMeter w) ?log = (st0, Ok ())"
      and price: "PriceSurface (enSize env) (rsSurface st0) (routeFor (enMeter env) (effective_header st0 None)) (mtFileText (enMeter env)) = Ok surface"
      and nodes: "meNodes me = psNodes surface"
      using Measure_Ok [OF me] by (metis measurement.select_convs(6))
    have "syncMeter (enSize env) ?log empty_replay ?log = (st0, Ok ())" using sync Sync_cache [OF c] Sync_scratch by simp
    from scratch_state [OF run(1) this] PriceSurface_rows(1) [OF price] nodes run(2) show ?thesis by (simp add: o_def priced_node_def)
  qed
  with tx w' show ?thesis by simp
qed

lemma meanwhile_spec:
  assumes "tx_ok env sess w"
  shows "tx_ok env sess (meanwhile env w)
     \<and> (\<exists>es. sLog (cwSession (meanwhile env w)) = sLog (cwSession w) @ es \<and> evType ` set es \<subseteq> (fst \<circ> snd) ` set (enMeanwhile env))"
proof -
  have "tx_ok env sess (w\<lparr>cwSession := foldl (\<lambda>s (now, ty, data, intent). fst (Append now s ty data intent)) (cwSession w) reqs\<rparr>)
     \<and> (\<exists>es. sLog (foldl (\<lambda>s (now, ty, data, intent). fst (Append now s ty data intent)) (cwSession w) reqs) = sLog (cwSession w) @ es
           \<and> evType ` set es \<subseteq> (fst \<circ> snd) ` set reqs)" for reqs
  proof (induction reqs rule: rev_induct)
    case Nil
    then show ?case using assms by simp
  next
    case (snoc q reqs)
    let ?s = "foldl (\<lambda>s (now, ty, data, intent). fst (Append now s ty data intent)) (cwSession w) reqs"
    obtain now ty data intent where q: "q = (now, ty, data, intent)" by (cases q)
    obtain s r where a: "Append now ?s ty data intent = (s, r)" by fastforce
    from snoc obtain es where es: "sLog ?s = sLog (cwSession w) @ es" "evType ` set es \<subseteq> (fst \<circ> snd) ` set reqs" by blast
    have a': "Append now (cwSession (w\<lparr>cwSession := ?s\<rparr>)) ty data intent = (s, r)" using a by simp
    from tx_ok_append [OF conjunct1 [OF snoc] a'] obtain fs where "tx_ok env sess (w\<lparr>cwSession := s\<rparr>)" "sLog s = sLog ?s @ fs" "\<forall>e \<in> set fs. evType e = ty"
      by auto
    with es q a show ?case by (auto intro!: exI [of _ "es @ fs"])
  qed
  then show "tx_ok env sess (meanwhile env w)
     \<and> (\<exists>es. sLog (cwSession (meanwhile env w)) = sLog (cwSession w) @ es \<and> evType ` set es \<subseteq> (fst \<circ> snd) ` set (enMeanwhile env))"
    by (simp add: meanwhile_def)
qed

section \<open>The replacement target\<close>

definition target :: "event list \<Rightarrow> int list \<Rightarrow> int \<Rightarrow> int \<Rightarrow> int list \<Rightarrow> bool" where
  "target evs nodes start end' shadowed \<longleftrightarrow>
     (\<exists>i j. index_of start nodes = Some i \<and> index_of end' nodes = Some j \<and> i \<le> j \<and> paired evs nodes
        \<and> open_calls evs (take i nodes) = 0 \<and> open_calls evs (take (j + 1) nodes) = 0 \<and> shadowed = take (j + 1 - i) (drop i nodes))"

abbreviation target_in :: "compact_world \<Rightarrow> surface_selection \<Rightarrow> bool" where
  "target_in w sel \<equiv> target (sLog (cwSession w)) (surface_of w) (slStart sel) (slEnd sel) (slShadowedSeqs sel)"

lemma target_grow:
  assumes "tx_ok env sess w" and "target (sLog (cwSession w)) (surface_of w) start end' shadowed"
  shows "target (sLog (cwSession w) @ es) (surface_of w) start end' shadowed"
proof -
  obtain st rs where run: "surface_run (sLog (cwSession w)) = Ok (st, rs)" "surface_of w = ssNodes st" using tx_run [OF assms(1)] by blast
  have v: "\<forall>seq \<in> set (surface_of w). 0 \<le> seq \<and> seq < int (length (sLog (cwSession w)))"
    using surface_run_ok [OF run(1)] run(2) by (auto simp: surface_ok_def)
  from assms(2) show ?thesis by (simp add: target_def paired_grow [OF v] open_calls_take_grow [OF v])
qed

lemma ValidateSurfaceRegion_target:
  assumes "tx_ok env sess w" and "ValidateSurfaceRegion sess w start end' = (w', r)"
  shows "tx_ok env sess w' \<and> sLog (cwSession w') = sLog (cwSession w) \<and> surface_of w' = surface_of w \<and> r \<noteq> Panic
     \<and> (\<forall>sel. r = Ok sel \<longrightarrow> slStart sel = start \<and> slEnd sel = end' \<and> target_in w sel)"
proof -
  obtain st rs where run: "surface_run (sLog (cwSession w)) = Ok (st, rs)" "surface_of w = ssNodes st" using tx_run [OF assms(1)] by blast
  have c: "compact_ok sess w" using assms(1) by (simp add: tx_ok_def)
  from Validate_spec [OF c run(1), of start end'] assms(2) run(2) tx_ok_cong [OF assms(1), of w']
  show ?thesis by (auto simp: target_def same_log_def)
qed

lemma prepareCompaction_spec:
  assumes ok: "tx_ok env sess w" and "prepareCompaction env w sel = (w', r)"
  shows "tx_ok env sess w' \<and> sLog (cwSession w') = sLog (cwSession w) \<and> surface_of w' = surface_of w
     \<and> (\<forall>p. r = Ok p \<longrightarrow> pcSelection p = sel \<and> map tnSeq (pcMeasuredNodes p) = surface_of w)"
proof -
  obtain w1 r1 where m: "measureNow env w = (w1, r1)" by fastforce
  note spec = measureNow_spec [OF ok m]
  have inv: "session_inv (cwSession w1)" using spec by (auto simp: tx_ok_def compact_ok_def)
  have hdr: "tx_ok env sess (w1\<lparr>cwSession := fst (RequestHeader (cwSession w1))\<rparr>)" "sLog (fst (RequestHeader (cwSession w1))) = sLog (cwSession w)"
    using RequestHeader_inv [OF inv] spec by (auto simp: tx_ok_def compact_ok_def)
  have surf: "surface_of w1 = surface_of w" "surface_of (w1\<lparr>cwSession := fst (RequestHeader (cwSession w1))\<rparr>) = surface_of w"
    using hdr(2) spec by (simp_all add: surface_of_def)
  obtain r2 where b: "buildSummarizationInput w1 (slShadowedSeqs sel) = (w1\<lparr>cwSession := fst (RequestHeader (cwSession w1))\<rparr>, r2)"
    by (cases "RequestHeader (cwSession w1)") (simp add: buildSummarizationInput_def)
  have "w' = w1 \<and> (\<forall>p. r \<noteq> Ok p) \<or> w' = w1\<lparr>cwSession := fst (RequestHeader (cwSession w1))\<rparr>
      \<and> (\<forall>p. r = Ok p \<longrightarrow> (\<exists>me. r1 = Ok me \<and> pcSelection p = sel \<and> pcMeasuredNodes p = meNodes me))"
    using assms(2) m b by (cases r1; cases r2) (auto simp: prepareCompaction_def Let_def split: if_splits)
  then show ?thesis using spec hdr surf by auto
qed

lemma assertStable_spec:
  assumes ok: "tx_ok env sess w" and "assertStable env sess stability w summarized = (w', r)"
  shows "tx_ok env sess w' \<and> sLog (cwSession w') = sLog (cwSession w) \<and> surface_of w' = surface_of w
     \<and> (r = Ok u \<longrightarrow> target_in w (pcSelection (scPrepared summarized)) \<or> map tnSeq (pcMeasuredNodes (scPrepared summarized)) = surface_of w)"
proof (cases "stability = StabilitySelectedSpan")
  case True
  let ?sel = "pcSelection (scPrepared summarized)"
  obtain w1 r1 where v: "ValidateSurfaceRegion sess w (slStart ?sel) (slEnd ?sel) = (w1, r1)" by fastforce
  note vs = ValidateSurfaceRegion_target [OF ok v]
  obtain w2 r2 where m: "measureNow env w1 = (w2, r2)" by fastforce
  note ms = measureNow_spec [OF conjunct1 [OF vs] m]
  have w2: "tx_ok env sess w2" "sLog (cwSession w2) = sLog (cwSession w)" "surface_of w2 = surface_of w" using ms vs by (simp_all add: surface_of_def)
  have "w' = w1 \<and> r \<noteq> Ok u \<or> w' = w2 \<and> (r = Ok u \<longrightarrow> (\<exists>cur. r1 = Ok cur \<and> slShadowedSeqs cur = slShadowedSeqs ?sel))"
    using assms(2) True by (cases r1; cases r2) (auto simp: assertStable_def assertSelectedSpanStable_def v m split: if_splits)
  then show ?thesis
  proof
    assume "w' = w1 \<and> r \<noteq> Ok u"
    with vs show ?thesis by simp
  next
    assume res: "w' = w2 \<and> (r = Ok u \<longrightarrow> (\<exists>cur. r1 = Ok cur \<and> slShadowedSeqs cur = slShadowedSeqs ?sel))"
    have "target_in w ?sel" if ok': "r = Ok u"
    proof -
      from res ok' obtain cur where "r1 = Ok cur" "slShadowedSeqs cur = slShadowedSeqs ?sel" by blast
      with vs show ?thesis by (metis (no_types, lifting))
    qed
    with res w2 show ?thesis by simp
  qed
next
  case False
  obtain w1 r1 where m: "measureNow env w = (w1, r1)" by fastforce
  have "surface_of w1 = surface_of w" using measureNow_spec [OF ok m] by (simp add: surface_of_def)
  then show ?thesis
    using assms(2) False measureNow_spec [OF ok m]
    by (cases r1) (auto simp: assertStable_def assertWholeSurfaceUnchanged_def m split: if_splits)
qed

lemma summaryStage_spec:
  assumes ok: "tx_ok env sess w" and tg: "target_in w sel" and "summaryStage env sess options sel cid w = (w', r)"
  shows "tx_ok env sess w' \<and> (\<exists>es. sLog (cwSession w') = sLog (cwSession w) @ es \<and> evType ` set es \<subseteq> (fst \<circ> snd) ` set (enMeanwhile env))
     \<and> (\<forall>summarized. r = Ok summarized \<longrightarrow> pcSelection (scPrepared summarized) = sel \<and> target_in w' sel
          \<and> EstimateMessage (enSize env) (scCheckpointMessage summarized) < pcShadowedRouteTokenCount (scPrepared summarized))"
proof -
  obtain w1 r1 where p: "prepareCompaction env w sel = (w1, r1)" by fastforce
  note ps = prepareCompaction_spec [OF ok p]
  show ?thesis
  proof (cases r1)
    case (Ok prepared)
    let ?w2 = "meanwhile env w1"
    obtain es where es: "tx_ok env sess ?w2" "sLog (cwSession ?w2) = sLog (cwSession w) @ es" "evType ` set es \<subseteq> (fst \<circ> snd) ` set (enMeanwhile env)"
      using meanwhile_spec [OF conjunct1 [OF ps]] ps by auto
    show ?thesis
    proof (cases "summarizeCompaction env prepared cid (toSourceCommandID options)")
      case s: (Ok summarized)
      have sm: "scPrepared summarized = prepared" "EstimateMessage (enSize env) (scCheckpointMessage summarized) < pcShadowedRouteTokenCount prepared"
        using s by (auto simp: summarizeCompaction_def outcome_simps Let_def split: if_splits)
      obtain w3 r3 where a: "assertStable env sess (toStability options) ?w2 summarized = (w3, r3)" by fastforce
      note st = assertStable_spec [OF es(1) a, of "()"]
      have "target_in w3 sel" if "r3 = Ok ()"
      proof -
        have "target_in ?w2 (pcSelection (scPrepared summarized)) \<or> map tnSeq (pcMeasuredNodes (scPrepared summarized)) = surface_of ?w2"
          using st that by blast
        moreover have "pcSelection prepared = sel" "map tnSeq (pcMeasuredNodes prepared) = surface_of w" using ps Ok by simp_all
        ultimately consider "target_in ?w2 sel" | "surface_of w = surface_of ?w2" unfolding sm(1) by auto
        then have "target_in ?w2 sel"
        proof cases
          case 2
          with target_grow [OF ok tg, of es] es(2) show ?thesis by simp
        qed
        with st show ?thesis by simp
      qed
      moreover have "w' = ?w2 \<and> r = Err SignalCancelled \<or> w' = w3 \<and> (\<forall>x. r = Ok x \<longrightarrow> r3 = Ok () \<and> x = summarized)"
        using assms(3) p Ok s a by (cases r3) (auto simp: summaryStage_def split: if_splits)
      moreover have "pcSelection prepared = sel" using ps Ok by simp
      ultimately show ?thesis using st es sm by auto
    qed (use assms(3) p Ok es in \<open>auto simp: summaryStage_def\<close>)
  qed (use assms(3) p ps in \<open>auto simp: summaryStage_def\<close>)
qed

section \<open>The commit\<close>

lemma Append_result:
  assumes "Append now s ty data intent = (s', r)"
  shows "case r of
      Ok e \<Rightarrow> sLog s' = sLog s @ [e] \<and> evType e = ty \<and> evSeq e = int (length (sLog s)) \<and> evSurfaceOp e = map_option siSurfaceOp intent
    | _ \<Rightarrow> sLog s' = sLog s"
  using assms by (auto simp: Append_def Let_def split: option.splits outcome.splits prod.splits)

lemma paired_replace:
  assumes "paired evs nodes" and "open_calls evs (take i nodes) = 0" and "open_calls evs (take (j + 1) nodes) = 0"
    and "eventDelta (evs ! nat n) = 0"
  shows "paired evs (take i nodes @ [n] @ drop (j + 1) nodes)"
proof -
  have "paired evs (take i nodes)" using assms(1) paired_prefix [of evs "take i nodes" "drop i nodes"] by simp
  moreover have "paired evs [n]" using assms(4) by (auto simp: paired_def le_Suc_eq take_Cons')
  moreover have "\<forall>k \<le> length (drop (j + 1) nodes). 0 \<le> open_calls evs (take k (drop (j + 1) nodes))"
    using assms(1,3) paired_append [of evs "take (j + 1) nodes" "drop (j + 1) nodes"] by simp
  ultimately show ?thesis
    using assms(2,4) unfolding append_assoc [symmetric] paired_append [of _ _ "drop (j + 1) nodes"] paired_append [of _ _ "[n]"]
    by (auto simp: paired_def)
qed

lemma eventDelta_user: "evType e = EventUserMessage \<Longrightarrow> eventDelta e = 0"
  by (simp add: eventDelta_def event_type_defs)

text \<open>Appending the checkpoint: it replaces exactly the target, or nothing changes.\<close>

definition replaced :: "compact_world \<Rightarrow> compact_world \<Rightarrow> surface_selection \<Rightarrow> event \<Rightarrow> bool" where
  "replaced w w' sel e \<longleftrightarrow>
     (\<exists>i j. index_of (slStart sel) (surface_of w) = Some i \<and> index_of (slEnd sel) (surface_of w) = Some j \<and> i \<le> j
        \<and> slShadowedSeqs sel = take (j + 1 - i) (drop i (surface_of w))
        \<and> surface_of w' = take i (surface_of w) @ [evSeq e] @ drop (j + 1) (surface_of w)
        \<and> paired (sLog (cwSession w')) (surface_of w'))"

lemma append_checkpoint:
  assumes ok: "tx_ok env sess w" and tg: "target_in w sel"
    and ap: "appendNow env tick w EventUserMessage j (Some \<lparr>siSurfaceOp = \<lparr>opKind = SurfaceReplace, opStart = slStart sel, opEnd = slEnd sel\<rparr>, siSourceEventSeqs = srcs\<rparr>) = (w', r)"
  shows "tx_ok env sess w' \<and> (case r of
      Ok e \<Rightarrow> sLog (cwSession w') = sLog (cwSession w) @ [e] \<and> evType e = EventUserMessage \<and> evSeq e = int (length (sLog (cwSession w))) \<and> replaced w w' sel e
    | _ \<Rightarrow> sLog (cwSession w') = sLog (cwSession w) \<and> surface_of w' = surface_of w)"
proof -
  obtain s r0 where a: "Append (enClock env tick) (cwSession w) EventUserMessage (Some j)
      (Some \<lparr>siSurfaceOp = \<lparr>opKind = SurfaceReplace, opStart = slStart sel, opEnd = slEnd sel\<rparr>, siSourceEventSeqs = srcs\<rparr>) = (s, r0)" by fastforce
  have w': "w' = w\<lparr>cwSession := s\<rparr>" "r = map_err AppendFailed r0" using ap a by (auto simp: appendNow_def)
  have tx: "tx_ok env sess w'" using tx_ok_append [OF ok a] w' by simp
  show ?thesis
  proof (cases r0)
    case (Ok e)
    note e = Append_result [OF a, unfolded Ok, simplified]
    obtain st rs where run: "surface_run (sLog (cwSession w)) = Ok (st, rs)" "surface_of w = ssNodes st" using tx_run [OF ok] by blast
    obtain st2 rs2 where run2: "surface_run (sLog (cwSession w) @ [e]) = Ok (st2, rs2)" "surface_of w' = ssNodes st2"
      using tx_run [OF tx] e w'(1) by auto
    from run2(1) obtain p r2 where p: "planSurfaceEvent st e (int (length (sLog (cwSession w)))) (sLog (cwSession w)) 0 = Ok p"
      and ap2: "applySurfacePlan st p = Ok (st2, r2)"
      unfolding surface_run_snoc [OF run(1)] by (auto simp: outcome_simps)
    from p obtain i k sh where range: "replacementRange st \<lparr>opKind = SurfaceReplace, opStart = slStart sel, opEnd = slEnd sel\<rparr> = Ok (i, k, sh)"
      and pl: "p = Some (PlanReplace (evSeq e) (slStart sel) (slEnd sel) i k sh)"
      using e by (cases rule: planSurfaceEvent_cases) (auto simp: SurfaceAppend_def SurfaceReplace_def IsSurfaceEventType_def SurfaceEventTypes_def)
    have idx: "index_of (slStart sel) (surface_of w) = Some i" "index_of (slEnd sel) (surface_of w) = Some k" "i \<le> k" "k < length (surface_of w)"
      using range run(2) by (auto simp: replacementRange_def dest: index_of_SomeD split: option.splits if_splits)
    have nodes: "surface_of w' = take i (surface_of w) @ [evSeq e] @ drop (k + 1) (surface_of w)"
      using ap2 pl idx(3,4) run(2) run2(2) by (auto simp: applySurfacePlan_def)
    have log: "sLog (cwSession w') = sLog (cwSession w) @ [e]" using e w'(1) by simp
    have tg': "target (sLog (cwSession w')) (surface_of w) (slStart sel) (slEnd sel) (slShadowedSeqs sel)"
      unfolding log by (rule target_grow [OF ok tg])
    then have t: "paired (sLog (cwSession w')) (surface_of w)" "open_calls (sLog (cwSession w')) (take i (surface_of w)) = 0"
      "open_calls (sLog (cwSession w')) (take (k + 1) (surface_of w)) = 0" "slShadowedSeqs sel = take (k + 1 - i) (drop i (surface_of w))"
      using idx(1,2) by (auto simp: target_def)
    have "eventDelta (sLog (cwSession w') ! nat (evSeq e)) = 0" using e eventDelta_user by (simp add: log)
    from paired_replace [OF t(1-3) this] have "replaced w w' sel e" using idx(1-3) t(4) nodes by (auto simp: replaced_def)
    with tx log e w' Ok show ?thesis by simp
  qed (use tx w' Append_result [OF a] in \<open>simp_all add: surface_of_def\<close>)
qed

lemma commit_body_spec:
  assumes ok: "tx_ok env sess w" and tg: "target_in w sel" and sel: "pcSelection (scPrepared summarized) = sel"
    and "commitCompactionBody env w startEvent summarized = (w', r)"
  shows "tx_ok env sess w' \<and> (case r of
      Ok body \<Rightarrow> (\<exists>sumEv cp. sLog (cwSession w') = sLog (cwSession w) @ [sumEv, cp] \<and> evType sumEv = EventCompactionSummary \<and> evType cp = EventUserMessage
          \<and> replaced w w' sel cp \<and> crStartSeq body = evSeq startEvent \<and> crSummarySeq body = evSeq sumEv \<and> crShadowedSeqs body = slShadowedSeqs sel)
    | _ \<Rightarrow> (\<exists>mid. sLog (cwSession w') = sLog (cwSession w) @ mid \<and> (\<forall>e \<in> set mid. evType e = EventCompactionSummary) \<and> surface_of w' = surface_of w))"
proof (cases "unmarshal_ok dec_start_payload \<lparr>cspCompactionID = [], cspSourceCommandID = [], cspTurn = None\<rparr> (evData startEvent)")
  case None
  with assms(4) ok show ?thesis by (auto simp: commitCompactionBody_def)
next
  case (Some start)
  let ?j = "enc_summary_payload (summaryPayload start summarized)"
  obtain w1 where w1: "appendNow env 1 w EventCompactionSummary ?j None = (w1, Ok (plain_event (cwSession w) (enClock env 1) EventCompactionSummary ?j))"
    "tx_ok env sess w1" "sLog (cwSession w1) = sLog (cwSession w) @ [plain_event (cwSession w) (enClock env 1) EventCompactionSummary ?j]"
    "surface_of w1 = surface_of w"
    by (rule appendNow_plain [OF ok compaction_plain(2)])
  let ?e = "plain_event (cwSession w) (enClock env 1) EventCompactionSummary ?j"
  have tg1: "target_in w1 sel" using target_grow [OF ok tg] w1(3,4) by simp
  obtain w2 r2 where cp: "appendNow env 2 w1 EventUserMessage (enc_message (scCheckpointMessage summarized))
      (Some \<lparr>siSurfaceOp = \<lparr>opKind = SurfaceReplace, opStart = slStart sel, opEnd = slEnd sel\<rparr>,
             siSourceEventSeqs = Some (evSeq startEvent # evSeq ?e # slShadowedSeqs sel)\<rparr>) = (w2, r2)" by fastforce
  note cps = append_checkpoint [OF w1(2) tg1 cp]
  have rep: "replaced w w2 sel e \<longleftrightarrow> replaced w1 w2 sel e" for e by (simp add: replaced_def w1(4))
  show ?thesis
  proof (cases r2)
    case (Ok cpEv)
    then show ?thesis using assms(4) Some w1 cp cps sel rep
      by (auto simp: commitCompactionBody_def Let_def intro!: exI [of _ ?e] exI [of _ cpEv])
  next
    case (Err x)
    then have "w' = w2 \<and> r = Err x" using assms(4) Some w1(1) cp sel by (simp add: commitCompactionBody_def Let_def)
    with Err cps w1(3,4) show ?thesis by auto
  next
    case Panic
    then have "w' = w2 \<and> r = Panic" using assms(4) Some w1(1) cp sel by (simp add: commitCompactionBody_def Let_def)
    with Panic cps w1(3,4) show ?thesis by auto
  qed
qed

section \<open>The outcome of a transaction\<close>

text \<open>The log of a closed transaction: what others appended, the body, the closing event.\<close>

definition closed_log :: "region_env \<Rightarrow> compact_world \<Rightarrow> compact_world \<Rightarrow> event list \<Rightarrow> event list \<Rightarrow> event \<Rightarrow> bool" where
  "closed_log env w w' es mid endEv \<longleftrightarrow> sLog (cwSession w') = sLog (cwSession w) @ es @ mid @ [endEv] \<and> evType endEv = EventCompactionEnd
     \<and> evType ` set es \<subseteq> (fst \<circ> snd) ` set (enMeanwhile env) \<and> evType ` set mid \<subseteq> {EventCompactionSummary, EventUserMessage}"

definition committed_body :: "surface_selection \<Rightarrow> event \<Rightarrow> event list \<Rightarrow> event list \<Rightarrow> event \<Rightarrow> compaction_result \<Rightarrow> bool" where
  "committed_body sel startEv before mid endEv res \<longleftrightarrow>
     (\<exists>sumEv cp i j. mid = [sumEv, cp] \<and> evType sumEv = EventCompactionSummary \<and> evType cp = EventUserMessage
        \<and> index_of (slStart sel) (log_surface before) = Some i \<and> index_of (slEnd sel) (log_surface before) = Some j \<and> i \<le> j
        \<and> slShadowedSeqs sel = take (j + 1 - i) (drop i (log_surface before))
        \<and> log_surface (before @ mid @ [endEv]) = take i (log_surface before) @ [evSeq cp] @ drop (j + 1) (log_surface before)
        \<and> paired (before @ mid) (log_surface (before @ mid @ [endEv]))
        \<and> crStartSeq res = evSeq startEv \<and> crSummarySeq res = evSeq sumEv \<and> crEndSeq res = evSeq endEv \<and> crShadowedSeqs res = slShadowedSeqs sel)"

lemma closeFailed_spec:
  assumes ok: "tx_ok env sess w" and "closeFailed env options cid owner w f = (w', r)"
  shows "\<exists>endEv. r = Ok \<lparr>atFailure = Some f, atClosed = True, atPending = None\<rparr> \<and> tx_ok env sess w' \<and> evType endEv = EventCompactionEnd
     \<and> sLog (cwSession w') = sLog (cwSession w) @ [endEv] \<and> surface_of w' = surface_of w"
proof -
  obtain w1 where "appendNow env 3 w EventCompactionEnd (endPayload options cid owner (enErrorChain env (fst f))) None =
      (w1, Ok (plain_event (cwSession w) (enClock env 3) EventCompactionEnd (endPayload options cid owner (enErrorChain env (fst f)))))"
    "tx_ok env sess w1" "sLog (cwSession w1) = sLog (cwSession w) @
      [plain_event (cwSession w) (enClock env 3) EventCompactionEnd (endPayload options cid owner (enErrorChain env (fst f)))]"
    "surface_of w1 = surface_of w"
    by (rule appendNow_plain [OF ok compaction_plain(3)])
  with assms(2) show ?thesis by (auto simp: closeFailed_def)
qed

lemma runAttempt_spec:
  assumes ok: "tx_ok env sess w" and tg: "target_in w sel"
    and "runAttempt env sess options sel cid owner startEv w = (w', r)"
  shows "tx_ok env sess w' \<and> (\<exists>a es mid endEv. r = Ok a \<and> atClosed a \<and> closed_log env w w' es mid endEv
     \<and> (case atFailure a of
          Some f \<Rightarrow> atPending a = None \<and> surface_of w' = log_surface (sLog (cwSession w) @ es)
        | None \<Rightarrow> (\<exists>res. atPending a = Some res \<and> committed_body sel startEv (sLog (cwSession w) @ es) mid endEv res)))"
proof -
  obtain w1 r1 where s: "summaryStage env sess options sel cid w = (w1, r1)" by fastforce
  note ss = summaryStage_spec [OF ok tg s]
  then obtain es where es: "tx_ok env sess w1" "sLog (cwSession w1) = sLog (cwSession w) @ es" "evType ` set es \<subseteq> (fst \<circ> snd) ` set (enMeanwhile env)" by blast
  show ?thesis
  proof (cases "\<exists>summarized. r1 = Ok summarized")
    case False
    then obtain f where f: "failureOf StageSummary r1 = Some f" by (cases r1) auto
    have c: "closeFailed env options cid owner w1 f = (w', r)" using assms(3) s False f by (cases r1) (auto simp: runAttempt_def)
    from closeFailed_spec [OF es(1) c] obtain endEv where e: "r = Ok \<lparr>atFailure = Some f, atClosed = True, atPending = None\<rparr>" "tx_ok env sess w'"
      "evType endEv = EventCompactionEnd" "sLog (cwSession w') = sLog (cwSession w1) @ [endEv]" "surface_of w' = surface_of w1" by blast
    then have "closed_log env w w' es [] endEv" "surface_of w' = log_surface (sLog (cwSession w) @ es)"
      using es(2,3) by (simp_all add: closed_log_def surface_of_def)
    with e(1,2) show ?thesis by auto
  next
    case True
    then obtain summarized where sm: "r1 = Ok summarized" by blast
    then have tg1: "target_in w1 sel" and sel: "pcSelection (scPrepared summarized) = sel" using ss by auto
    obtain w2 r2 where c: "commitCompactionBody env w1 startEv summarized = (w2, r2)" by fastforce
    note cs = commit_body_spec [OF es(1) tg1 sel c]
    show ?thesis
    proof (cases "\<exists>body. r2 = Ok body")
      case False
      then obtain f where f: "failureOf StageCommit r2 = Some f" by (cases r2) auto
      have cf: "closeFailed env options cid owner w2 f = (w', r)" using assms(3) s sm c False f by (cases r2) (auto simp: runAttempt_def)
      obtain mid where mid: "sLog (cwSession w2) = sLog (cwSession w1) @ mid" "\<forall>e \<in> set mid. evType e = EventCompactionSummary" "surface_of w2 = surface_of w1"
        using cs False by (cases r2) auto
      from closeFailed_spec [OF conjunct1 [OF cs] cf] obtain endEv where e: "r = Ok \<lparr>atFailure = Some f, atClosed = True, atPending = None\<rparr>" "tx_ok env sess w'"
        "evType endEv = EventCompactionEnd" "sLog (cwSession w') = sLog (cwSession w2) @ [endEv]" "surface_of w' = surface_of w2" by blast
      have "closed_log env w w' es mid endEv" using e(3,4) es(2,3) mid(1,2) by (auto simp: closed_log_def)
      moreover have "surface_of w' = log_surface (sLog (cwSession w) @ es)" using e(5) mid(3) es(2) by (simp add: surface_of_def)
      ultimately show ?thesis using e(1,2) by auto
    next
      case True
      then obtain body where b: "r2 = Ok body" by blast
      with cs obtain sumEv cp where cp: "sLog (cwSession w2) = sLog (cwSession w1) @ [sumEv, cp]" "evType sumEv = EventCompactionSummary"
        "evType cp = EventUserMessage" "replaced w1 w2 sel cp" "crStartSeq body = evSeq startEv" "crSummarySeq body = evSeq sumEv"
        "crShadowedSeqs body = slShadowedSeqs sel" by auto
      obtain w3 where w3: "appendNow env 3 w2 EventCompactionEnd (endPayload options cid owner []) None =
          (w3, Ok (plain_event (cwSession w2) (enClock env 3) EventCompactionEnd (endPayload options cid owner [])))"
        "tx_ok env sess w3" "sLog (cwSession w3) = sLog (cwSession w2) @ [plain_event (cwSession w2) (enClock env 3) EventCompactionEnd (endPayload options cid owner [])]"
        "surface_of w3 = surface_of w2"
        using appendNow_plain [OF conjunct1 [OF cs] compaction_plain(3)] by blast
      define endEv where "endEv = plain_event (cwSession w2) (enClock env 3) EventCompactionEnd (endPayload options cid owner [])"
      have res: "w' = w3 \<and> r = Ok \<lparr>atFailure = None, atClosed = True, atPending = Some (body\<lparr>crEndSeq := evSeq endEv\<rparr>)\<rparr>"
        using assms(3) s sm c b w3(1) by (simp add: runAttempt_def endEv_def)
      have "committed_body sel startEv (sLog (cwSession w) @ es) [sumEv, cp] endEv (body\<lparr>crEndSeq := evSeq endEv\<rparr>)"
        using cp w3(3,4) es(2) by (auto simp: committed_body_def replaced_def surface_of_def endEv_def)
      moreover have "closed_log env w w3 es [sumEv, cp] endEv" using cp(1-3) w3(3) es(2,3) by (simp add: closed_log_def endEv_def)
      ultimately show ?thesis using res w3(2) by auto
    qed
  qed
qed

text \<open>A transaction either stops before it wrote anything, or writes the whole bracket.\<close>

definition closed_transaction :: "region_env \<Rightarrow> compact_world \<Rightarrow> int \<Rightarrow> int \<Rightarrow> compact_world \<Rightarrow> (compact_error, compaction_result) outcome \<Rightarrow> bool" where
  "closed_transaction env w start end' w' r \<longleftrightarrow>
     (\<exists>startEv es mid endEv sel. sLog (cwSession w') = sLog (cwSession w) @ [startEv] @ es @ mid @ [endEv]
        \<and> evType startEv = EventCompactionStart \<and> evSeq startEv = int (length (sLog (cwSession w))) \<and> evType endEv = EventCompactionEnd
        \<and> evType ` set es \<subseteq> (fst \<circ> snd) ` set (enMeanwhile env) \<and> evType ` set mid \<subseteq> {EventCompactionSummary, EventUserMessage}
        \<and> slStart sel = start \<and> slEnd sel = end'
        \<and> ((surface_of w' = log_surface (sLog (cwSession w) @ [startEv] @ es) \<and> (\<forall>res. r \<noteq> Ok res))
           \<or> (\<exists>res. committed_body sel startEv (sLog (cwSession w) @ [startEv] @ es) mid endEv res \<and> (\<forall>res'. r = Ok res' \<longrightarrow> res' = res))))"

lemma settle_Ok: "settle env options a = Ok res \<Longrightarrow> atFailure a = None \<and> atPending a = Some res"
  by (auto simp: settle_def Let_def split: if_splits option.splits outcome.splits)

lemma CompactSurfaceRegion_spec:
  assumes ok: "tx_ok env sess w" and "CompactSurfaceRegion env sess w start end' options = (w', r)"
  shows "tx_ok env sess w' \<and> (sLog (cwSession w') = sLog (cwSession w) \<and> (\<exists>e. r = Err e) \<or> closed_transaction env w start end' w' r)"
proof (cases "\<not> toOwnerCurrentTurn options \<and> enCancelled env 0")
  case True
  with assms show ?thesis by (auto simp: CompactSurfaceRegion_def)
next
  case False
  obtain w1 r1 where v: "ValidateSurfaceRegion sess w start end' = (w1, r1)" by fastforce
  note vs = ValidateSurfaceRegion_target [OF ok v]
  let ?state = "inspectCompactionEntryState (sLog (cwSession w1))"
  have stop: ?thesis if "w' = w1" "\<exists>e. r = Err e" using that vs by auto
  show ?thesis
  proof (cases "\<exists>sel owner. r1 = Ok sel \<and> assertCompactionInactive ?state = Ok () \<and> transactionOwner options ?state = Ok owner")
    case stopped: False
    have np: "assertCompactionInactive ?state \<noteq> Panic" "transactionOwner options ?state \<noteq> Panic"
      by (auto simp: assertCompactionInactive_def transactionOwner_def split: option.splits)
    have "w' = w1 \<and> (\<exists>e. r = Err e)"
      using assms(2) False stopped v vs np
      by (cases r1; cases "assertCompactionInactive ?state"; cases "transactionOwner options ?state") (auto simp: CompactSurfaceRegion_def Let_def)
    with stop show ?thesis by blast
  next
    case True
    then obtain sel owner where o': "r1 = Ok sel" "assertCompactionInactive ?state = Ok ()" "transactionOwner options ?state = Ok owner" by blast
    let ?cid = "newUUID (enIDBytes env)"
    let ?j = "enc_start_payload \<lparr>cspCompactionID = ?cid, cspSourceCommandID = toSourceCommandID options, cspTurn = owner\<rparr>"
    let ?start = "plain_event (cwSession w1) (enClock env 0) EventCompactionStart ?j"
    obtain w2 where w2: "appendNow env 0 w1 EventCompactionStart ?j None = (w2, Ok ?start)" "tx_ok env sess w2"
      "sLog (cwSession w2) = sLog (cwSession w1) @ [?start]" "surface_of w2 = surface_of w1"
      using appendNow_plain [OF conjunct1 [OF vs] compaction_plain(1)] by blast
    have sel: "slStart sel = start" "slEnd sel = end'" "target_in w sel" using vs o'(1) by auto
    have tg: "target_in w2 sel" using target_grow [OF ok sel(3)] w2(3,4) vs by simp
    obtain w3 r3 where ra: "runAttempt env sess options sel ?cid owner ?start w2 = (w3, r3)" by fastforce
    from runAttempt_spec [OF w2(2) tg ra] obtain a es mid endEv where tx: "tx_ok env sess w3" and r3: "r3 = Ok a"
      and cl: "closed_log env w2 w3 es mid endEv"
      and fin: "case atFailure a of
          Some f \<Rightarrow> atPending a = None \<and> surface_of w3 = log_surface (sLog (cwSession w2) @ es)
        | None \<Rightarrow> (\<exists>res. atPending a = Some res \<and> committed_body sel ?start (sLog (cwSession w2) @ es) mid endEv res)" by blast
    have res: "w' = w3" "r = settle env options a"
      using assms(2) False v o' w2(1) ra r3 by (auto simp: CompactSurfaceRegion_def Let_def)
    have "closed_transaction env w start end' w' r"
      unfolding closed_transaction_def
    proof (rule exI [of _ ?start], rule exI [of _ es], rule exI [of _ mid], rule exI [of _ endEv], rule exI [of _ sel], intro conjI)
      show "(surface_of w' = log_surface (sLog (cwSession w) @ [?start] @ es) \<and> (\<forall>res. r \<noteq> Ok res))
         \<or> (\<exists>res. committed_body sel ?start (sLog (cwSession w) @ [?start] @ es) mid endEv res \<and> (\<forall>res'. r = Ok res' \<longrightarrow> res' = res))"
        using fin res settle_Ok [of env options a] w2(3) vs by (auto split: option.splits)
    qed (use cl w2(3) vs res sel in \<open>auto simp: closed_log_def\<close>)
    with tx res show ?thesis by blast
  qed
qed

section \<open>Reachable states\<close>

text \<open>The state of a compaction backend for one session: others append to the session, the meter measures it, ranges are selected,
  transactions run, and the balance may be used for another session in between.\<close>

inductive compact_reach :: "(json \<Rightarrow> nat) \<Rightarrow> nat \<Rightarrow> compact_world \<Rightarrow> bool" for size' :: "json \<Rightarrow> nat" and sess :: nat where
  start: "session_reach s \<Longrightarrow> compact_reach size' sess \<lparr>cwSession = s, cwBalance = NewToolPairingBalance, cwMeter = None\<rparr>"
| append: "compact_reach size' sess w \<Longrightarrow> Append now (cwSession w) ty data intent = (s, r) \<Longrightarrow> compact_reach size' sess (w\<lparr>cwSession := s\<rparr>)"
| measure: "compact_reach size' sess w \<Longrightarrow> enSize env = size' \<Longrightarrow> measureNow env w = (w', m) \<Longrightarrow> compact_reach size' sess w'"
| select: "compact_reach size' sess w \<Longrightarrow> SelectCompactableRange sess w me retain = (w', rg) \<Longrightarrow> compact_reach size' sess w'"
| compact: "compact_reach size' sess w \<Longrightarrow> enSize env = size' \<Longrightarrow> CompactSurfaceRegion env sess w a b options = (w', res) \<Longrightarrow> compact_reach size' sess w'"
| elsewhere: "compact_reach size' sess w \<Longrightarrow> tbOwner b \<noteq> Some sess \<Longrightarrow> compact_reach size' sess (w\<lparr>cwBalance := b\<rparr>)"

lemma Select_keeps:
  assumes ok: "tx_ok env sess w" and s: "SelectCompactableRange sess w me retain = (w', r)"
  shows "tx_ok env sess w' \<and> sLog (cwSession w') = sLog (cwSession w)"
proof -
  obtain st rs where run: "surface_run (sLog (cwSession w)) = Ok (st, rs)" using tx_run [OF ok] by blast
  have c: "compact_ok sess w" using ok by (simp add: tx_ok_def)
  show ?thesis
  proof (cases "map tnSeq (meNodes me) = ssNodes st")
    case True
    show ?thesis
    proof (rule Select_spec [OF c run True, of retain])
      fix w1 u
      assume w1: "compact_ok sess w1" "same_log w w1" and eq: "SelectCompactableRange sess w me retain = (w1, if kept_from me retain = 0 then Ok None
        else if \<not> paired (sLog (cwSession w)) (ssNodes st) then Err (ResultUnmatched u)
        else if \<exists>k \<le> kept_from me retain. safe_cut (sLog (cwSession w)) (ssNodes st) k
        then (let k = Max {k. k \<le> kept_from me retain \<and> safe_cut (sLog (cwSession w)) (ssNodes st) k}
              in Ok (Some (ssNodes st ! 0, ssNodes st ! (k - 1))))
        else Ok None)"
      have "w' = w1" using arg_cong [OF s, of fst] arg_cong [OF eq, of fst] by simp
      with tx_ok_cong [OF ok w1] w1(2) show ?thesis by (simp add: same_log_def)
    qed
  next
    case False
    obtain w1 where w1: "surfaceNodes w = (w1, Ok (ssNodes st))" "compact_ok sess w1" "same_log w w1"
      by (rule surfaceNodes_spec [OF c run])
    have "w' = w \<or> w' = w1" using s False w1(1) by (auto simp: SelectCompactableRange_def Let_def split: if_splits)
    with ok tx_ok_cong [OF ok w1(2,3)] w1(3) show ?thesis by (auto simp: same_log_def)
  qed
qed

lemma compact_reach_ok: "compact_reach size' sess w \<Longrightarrow> enSize env = size' \<Longrightarrow> tx_ok env sess w"
proof (induction rule: compact_reach.induct)
  case (start s)
  then show ?case
    by (simp add: tx_ok_def compact_ok_def session_reach_inv balance_ok_def NewToolPairingBalance_def cache_ok_def)
next
  case (append w now ty data intent s r)
  then show ?case using tx_ok_append by blast
next
  case (measure w env' w' m)
  have "tx_ok env' sess w" using measure by (simp add: tx_ok_def)
  from measureNow_spec [OF this measure.hyps(3)] measure show ?case by (auto simp: tx_ok_def)
next
  case (select w me retain w' rg)
  then show ?case using Select_keeps by blast
next
  case (compact w env' a b options w' res)
  have "tx_ok env' sess w" using compact by (simp add: tx_ok_def)
  from CompactSurfaceRegion_spec [OF this compact.hyps(3)] compact show ?case by (simp add: tx_ok_def)
next
  case (elsewhere w b)
  then show ?case by (simp add: tx_ok_def compact_ok_def balance_ok_def)
qed

section \<open>A demonstration\<close>

definition demo_image_message :: "string \<Rightarrow> json" where
  "demo_image_message ident = JObj [(''id'', JStr ident), (''role'', JStr ''user''),
     (''content'', JArr [JObj [(''type'', JStr ''image'')]]),
     (''source'', JObj [(''kind'', JStr ''user'')])]"

definition demo_two :: session where
  "demo_two = fst (Append 8 (fst (Append 7 demo_start EventUserMessage (Some (demo_image_message ''a''))
      (Some \<lparr>siSurfaceOp = append_op, siSourceEventSeqs = None\<rparr>))) EventUserMessage (Some (demo_image_message ''b''))
      (Some \<lparr>siSurfaceOp = append_op, siSourceEventSeqs = None\<rparr>))"

definition demo_env :: region_env where
  "demo_env = \<lparr>enSize = (\<lambda>_. 2000), enMeter = \<lparr>mtRoutePricing = None, mtFileText = None\<rparr>,
     enSummarize = (\<lambda>_. Ok \<lparr>smSummary = Some [textBlock ''sum''], smRawOutput = None, smLlmStreamCall = False, smProvider = ''p'', smModel = ''m'',
        smMaxTokens = None, smUsage = None\<rparr>), enMeanwhile = [], enErrorChain = (\<lambda>_. ''failed''), enIDBytes = replicate 16 0, enMessageBytes = replicate 16 0,
     enClock = int, enCancelled = (\<lambda>_. False)\<rparr>"

definition demo_compact_world :: compact_world where
  "demo_compact_world = \<lparr>cwSession = demo_two, cwBalance = NewToolPairingBalance, cwMeter = None\<rparr>"

definition demo_options :: transaction_options where
  "demo_options = \<lparr>toOwnerCurrentTurn = False, toStability = StabilityWholeSurface, toFlush = None, toSourceCommandID = []\<rparr>"

lemma demo_two_reach: "session_reach demo_two"
  unfolding demo_two_def by (intro session_reach.append [OF session_reach.append [OF demo_start_reach prod.collapse [symmetric]] prod.collapse [symmetric]])

lemma demo_compact_reach: "compact_reach (\<lambda>_. 2000) 0 demo_compact_world"
  unfolding demo_compact_world_def by (rule compact_reach.start [OF demo_two_reach])

lemma demo_nodes: "surface_of demo_compact_world = [0, 1]" by code_simp

section \<open>The compaction lock\<close>

lemma entryStep_known:
  "\<exists>st' tk'. entryStep (st, tk, True) e = (st', tk', True) \<and> esUnmatchedCompactionStart st' = esUnmatchedCompactionStart st
     \<and> (esLatestEndSeedSeq st' = esLatestEndSeedSeq st \<or> esLatestEndSeedSeq st = None \<and> esLatestEndSeedSeq st' = Some (evSeq e))"
  by (auto simp: entryStep_def Let_def split: option.split)

lemma entryLoop_known:
  "esUnmatchedCompactionStart (entryLoop (st, tk, True) evs) = esUnmatchedCompactionStart st
     \<and> (esLatestEndSeedSeq (entryLoop (st, tk, True) evs) = esLatestEndSeedSeq st
        \<or> esLatestEndSeedSeq st = None \<and> (\<exists>e \<in> set evs. esLatestEndSeedSeq (entryLoop (st, tk, True) evs) = Some (evSeq e)))"
proof (induction evs arbitrary: st tk)
  case (Cons e evs)
  obtain st' tk' where s: "entryStep (st, tk, True) e = (st', tk', True)" "esUnmatchedCompactionStart st' = esUnmatchedCompactionStart st"
    "esLatestEndSeedSeq st' = esLatestEndSeedSeq st \<or> esLatestEndSeedSeq st = None \<and> esLatestEndSeedSeq st' = Some (evSeq e)"
    using entryStep_known by blast
  from Cons.IH [of st' tk'] s show ?case by auto
qed simp

lemma entryStep_other:
  assumes "evType e \<notin> {EventCompactionStart, EventCompactionEnd, EventEndSeed}"
  shows "\<exists>st' tk'. entryStep (st, tk, False) e = (st', tk', False) \<and> esUnmatchedCompactionStart st' = esUnmatchedCompactionStart st
     \<and> esLatestEndSeedSeq st' = esLatestEndSeedSeq st"
  using assms by (auto simp: entryStep_def Let_def split: option.split)

lemma entryLoop_other:
  assumes "\<forall>e \<in> set es. evType e \<notin> {EventCompactionStart, EventCompactionEnd, EventEndSeed}"
  shows "\<exists>st' tk'. entryLoop (st, tk, False) (es @ evs) = entryLoop (st', tk', False) evs
     \<and> esUnmatchedCompactionStart st' = esUnmatchedCompactionStart st \<and> esLatestEndSeedSeq st' = esLatestEndSeedSeq st"
  using assms
proof (induction es arbitrary: st tk)
  case (Cons e es)
  obtain st' tk' where s: "entryStep (st, tk, False) e = (st', tk', False)" "esUnmatchedCompactionStart st' = esUnmatchedCompactionStart st"
    "esLatestEndSeedSeq st' = esLatestEndSeedSeq st" using entryStep_other [of e st tk] Cons.prems by auto
  from Cons.IH [of st' tk'] Cons.prems s show ?case by auto
qed auto

lemma inspect_closed:
  assumes "evType e = EventCompactionEnd"
  shows "assertCompactionInactive (inspectCompactionEntryState (evs @ [e])) = Ok ()"
proof -
  let ?z = "\<lparr>esOpenTurn = None, esUnmatchedCompactionStart = None, esLatestEndSeedSeq = None\<rparr>"
  have "entryStep (?z, False, False) e = (?z, False, True)"
    using assms by (simp add: entryStep_def Let_def EventCompactionEnd_def EventCompactionStart_def event_type_defs)
  then have "inspectCompactionEntryState (evs @ [e]) = entryLoop (?z, False, True) (rev evs)" by (simp add: inspectCompactionEntryState_def)
  then show ?thesis using entryLoop_known [of ?z False "rev evs"] by (simp add: assertCompactionInactive_def)
qed

lemma inspect_open:
  assumes "evType startEv = EventCompactionStart" and "\<forall>e \<in> set es. evType e \<notin> {EventCompactionStart, EventCompactionEnd, EventEndSeed}"
    and "\<forall>e \<in> set pre. evSeq e < evSeq startEv"
  shows "assertCompactionInactive (inspectCompactionEntryState (pre @ [startEv] @ es)) = Err (ManualCompactionError ManualBusy None)"
proof -
  let ?z = "\<lparr>esOpenTurn = None, esUnmatchedCompactionStart = None, esLatestEndSeedSeq = None\<rparr>"
  have rev: "\<forall>e \<in> set (rev es). evType e \<notin> {EventCompactionStart, EventCompactionEnd, EventEndSeed}" using assms(2) by simp
  obtain st tk where s: "inspectCompactionEntryState (pre @ [startEv] @ es) = entryLoop (st, tk, False) (startEv # rev pre)"
    "esUnmatchedCompactionStart st = None" "esLatestEndSeedSeq st = None"
    using entryLoop_other [OF rev, of ?z False "startEv # rev pre"] by (auto simp: inspectCompactionEntryState_def)
  have "entryStep (st, tk, False) startEv = (st\<lparr>esUnmatchedCompactionStart := Some startEv\<rparr>, tk, True)"
    using assms(1) by (simp add: entryStep_def Let_def EventCompactionStart_def event_type_defs)
  with s have "inspectCompactionEntryState (pre @ [startEv] @ es) = entryLoop (st\<lparr>esUnmatchedCompactionStart := Some startEv\<rparr>, tk, True) (rev pre)"
    by simp
  then show ?thesis
    using entryLoop_known [of "st\<lparr>esUnmatchedCompactionStart := Some startEv\<rparr>" tk "rev pre"] s(3) assms(3)
    by (auto simp: assertCompactionInactive_def split: option.split)
qed

section \<open>Properties\<close>

text \<open>A cut is reported balanced exactly when no tool call before it is unanswered on the current surface, whatever was cached before
  and whichever sessions the cache served in between; a surface with a result that answers nothing is always refused.\<close>

theorem tool_cuts_sound:
  assumes "compact_reach size' sess w" and "FoldSurface (sLog (cwSession w)) = Ok res"
  shows "\<exists>u v. snd (ToolPairingBalancedBefore sess w seq) = cut_answer (sLog (cwSession w)) (sfNodes res) 0 u seq
     \<and> snd (ToolPairingBalancedAfter sess w seq) = cut_answer (sLog (cwSession w)) (sfNodes res) 1 v seq"
proof -
  have c: "compact_ok sess w" using compact_reach_ok [OF assms(1), of "demo_env\<lparr>enSize := size'\<rparr>"] by (simp add: tx_ok_def)
  obtain st rs where run: "surface_run (sLog (cwSession w)) = Ok (st, rs)" "sfNodes res = ssNodes st" using assms(2) by (auto simp: FoldSurface_run)
  show ?thesis
    by (rule Before_spec [OF c run(1), of seq], rule After_spec [OF c run(1), of seq]) (auto simp: run(2))
qed

theorem tool_cuts_sound_witness:
  "\<exists>u. snd (ToolPairingBalancedBefore 0 demo_compact_world 1) = cut_answer (sLog demo_two) [0, 1] 0 u 1"
proof -
  have "is_Ok (FoldSurface (sLog demo_two))" by code_simp
  then obtain res where res: "FoldSurface (sLog (cwSession demo_compact_world)) = Ok res" by (auto simp: demo_compact_world_def outcome_simps)
  have "sfNodes res = [0, 1]" using demo_nodes res by (simp add: surface_of_def log_surface_def)
  with tool_cuts_sound [OF demo_compact_reach res, of 1] show ?thesis by (auto simp: demo_compact_world_def)
qed

text \<open>The price of the tail that a cut keeps.\<close>

definition tail_price :: "measurement \<Rightarrow> nat \<Rightarrow> int" where
  "tail_price me k = i64 (sum_list (map tnTokens (drop k (meNodes me))))"

text \<open>C28: Selection never splits a tool call from its result and keeps the tail it was asked to keep.  Let \<open>keep\<close> be the start of the
  shortest tail whose price reaches the retained price; the selected range is the head of the surface up to the last balanced cut at or
  before \<open>keep\<close>, and the range is accepted when the compaction starts.\<close>

theorem selection_never_splits:
  assumes "compact_reach size' sess w" and "FoldSurface (sLog (cwSession w)) = Ok res" and "map tnSeq (meNodes me) = sfNodes res"
    and "SelectCompactableRange sess w me retain = (w', Ok (Some (a, b)))"
  shows "\<exists>keep k w'' sel. keep < length (meNodes me) \<and> retain \<le> tail_price me keep
     \<and> (\<forall>j. keep < j \<and> j < length (meNodes me) \<longrightarrow> tail_price me j < retain)
     \<and> safe_cut (sLog (cwSession w)) (sfNodes res) k \<and> k \<le> keep
     \<and> (\<forall>j. safe_cut (sLog (cwSession w)) (sfNodes res) j \<and> j \<le> keep \<longrightarrow> j \<le> k)
     \<and> ValidateSurfaceRegion sess w' a b = (w'', Ok sel) \<and> slShadowedSeqs sel = take k (sfNodes res)"
proof -
  define env where "env = demo_env\<lparr>enSize := size'\<rparr>"
  let ?evs = "sLog (cwSession w)" and ?nodes = "sfNodes res" and ?K = "kept_from me retain"
  have tx: "tx_ok env sess w" by (rule compact_reach_ok [OF assms(1)]) (simp add: env_def)
  then have c: "compact_ok sess w" by (simp add: tx_ok_def)
  obtain st rs where run: "surface_run ?evs = Ok (st, rs)" "?nodes = ssNodes st" using assms(2) by (auto simp: FoldSurface_run)
  have priced: "map tnSeq (meNodes me) = ssNodes st" using assms(3) run(2) by simp
  obtain w1 u where s: "SelectCompactableRange sess w me retain = (w1,
       if ?K = 0 then Ok None else if \<not> paired ?evs (ssNodes st) then Err (ResultUnmatched u)
       else if \<exists>k \<le> ?K. safe_cut ?evs (ssNodes st) k
       then (let k = Max {k. k \<le> ?K \<and> safe_cut ?evs (ssNodes st) k} in Ok (Some (ssNodes st ! 0, ssNodes st ! (k - 1))))
       else Ok None)" by (rule Select_spec [OF c run(1) priced, of retain])
  let ?S = "{k. k \<le> ?K \<and> safe_cut ?evs ?nodes k}"
  have K: "?K \<noteq> 0" "paired ?evs ?nodes" "?S \<noteq> {}" "a = ?nodes ! 0" "b = ?nodes ! (Max ?S - 1)"
    using s assms(4) run(2) by (auto simp: Let_def split: if_splits)
  have fin: "finite ?S" by simp
  have k: "Max ?S \<in> ?S" by (rule Max_in [OF fin K(3)])
  have top: "\<forall>j. safe_cut ?evs ?nodes j \<and> j \<le> ?K \<longrightarrow> j \<le> Max ?S" using Max_ge [OF fin] by blast
  have "meNodes me \<noteq> []" using K(1) by (auto simp: kept_from_def)
  then have ret: "?K < length (meNodes me)" "retain \<le> tail_price me ?K" "\<forall>j. ?K < j \<and> j < length (meNodes me) \<longrightarrow> tail_price me j < retain"
    using retainLoop_spec [of "length (meNodes me)" "meNodes me" ?K retain 0] K(1) by (auto simp: kept_from_def tail_price_def)
  have dist: "distinct ?nodes" using surface_run_ok [OF run(1)] run(2) by (simp add: surface_ok_def)
  have len: "0 < Max ?S" "Max ?S < length ?nodes" "open_calls ?evs (take (Max ?S) ?nodes) = 0" using k by (auto simp: safe_cut_def)
  have tx': "tx_ok env sess w'" "sLog (cwSession w') = ?evs" using Select_keeps [OF tx assms(4)] by auto
  have run': "surface_run (sLog (cwSession w')) = Ok (st, rs)" and c': "compact_ok sess w'" using run(1) tx' by (simp_all add: tx_ok_def)
  have idx: "index_of a ?nodes = Some 0" "index_of b ?nodes = Some (Max ?S - 1)"
    using index_of_nth [OF dist, of 0] index_of_nth [OF dist, of "Max ?S - 1"] order_less_trans [OF len(1,2)] len K(4,5) by simp_all
  let ?sel = "\<lparr>slStart = a, slEnd = b, slStartIdx = 0, slEndIdx = Max ?S - 1, slShadowedSeqs = take (Max ?S) ?nodes\<rparr>"
  have "\<exists>w''. ValidateSurfaceRegion sess w' a b = (w'', Ok ?sel)"
    using Validate_spec [OF c' run', of a b] idx len K(2) tx'(2) run(2) by auto
  then show ?thesis using k top ret by (intro exI [of _ ?K] exI [of _ "Max ?S"]) auto
qed

theorem selection_never_splits_witness:
  "\<exists>res me w' keep k. FoldSurface (sLog demo_two) = Ok res \<and> SelectCompactableRange 0 demo_compact_world me 508 = (w', Ok (Some (0, 0)))
     \<and> safe_cut (sLog demo_two) (sfNodes res) k \<and> k \<le> keep \<and> 508 \<le> tail_price me keep"
proof -
  let ?me = "\<lparr>meLogRevision = 2, meBaseline = \<lparr>blKind = BaselineNone, blTokens = 0, blUsage = None\<rparr>, meSurfaceDeltaTokens = 0, meTotalTokens = 0,
     meSurfaceTokens = 1008, meNodes = [\<lparr>tnSeq = 0, tnTokens = 508, tnHeuristicTokens = 508\<rparr>, \<lparr>tnSeq = 1, tnTokens = 508, tnHeuristicTokens = 508\<rparr>]\<rparr>"
  have "is_Ok (FoldSurface (sLog demo_two))" by code_simp
  then obtain res where res: "FoldSurface (sLog (cwSession demo_compact_world)) = Ok res" by (auto simp: demo_compact_world_def outcome_simps)
  have nodes: "map tnSeq (meNodes ?me) = sfNodes res" using demo_nodes res by (simp add: surface_of_def log_surface_def)
  have "snd (SelectCompactableRange 0 demo_compact_world ?me 508) = Ok (Some (0, 0))" by code_simp
  then obtain w' where s: "SelectCompactableRange 0 demo_compact_world ?me 508 = (w', Ok (Some (0, 0)))" by (metis prod.collapse)
  from selection_never_splits [OF demo_compact_reach res nodes s] obtain keep k where
    "508 \<le> tail_price ?me keep" "safe_cut (sLog (cwSession demo_compact_world)) (sfNodes res) k" "k \<le> keep" by blast
  then show ?thesis using s res
    by (intro exI [of _ res] exI [of _ ?me] exI [of _ w'] exI [of _ keep] exI [of _ k]) (simp add: demo_compact_world_def)
qed

text \<open>C4: A compaction that succeeds replaces exactly the requested span: after its start, the events others appended, the summary and the
  checkpoint, the surface is the surface before with the span between start and end replaced by the checkpoint, no tool call is separated
  from its result, and the reported positions are those of the events.\<close>

theorem compaction_commits:
  assumes "compact_reach (enSize env) sess w" and "CompactSurfaceRegion env sess w start end' options = (w', Ok res)"
  shows "\<exists>startEv es sumEv cp endEv i j before.
     sLog (cwSession w') = sLog (cwSession w) @ [startEv] @ es @ [sumEv, cp, endEv]
     \<and> map evType [startEv, sumEv, cp, endEv] = [EventCompactionStart, EventCompactionSummary, EventUserMessage, EventCompactionEnd]
     \<and> before = log_surface (sLog (cwSession w) @ [startEv] @ es)
     \<and> index_of start before = Some i \<and> index_of end' before = Some j \<and> i \<le> j \<and> crShadowedSeqs res = take (j + 1 - i) (drop i before)
     \<and> log_surface (sLog (cwSession w')) = take i before @ [evSeq cp] @ drop (j + 1) before
     \<and> paired (sLog (cwSession w) @ [startEv] @ es @ [sumEv, cp]) (log_surface (sLog (cwSession w')))
     \<and> crStartSeq res = evSeq startEv \<and> crSummarySeq res = evSeq sumEv \<and> crEndSeq res = evSeq endEv"
proof -
  have tx: "tx_ok env sess w" using compact_reach_ok [OF assms(1)] by simp
  from CompactSurfaceRegion_spec [OF tx assms(2)] obtain startEv es mid endEv sel where
    log: "sLog (cwSession w') = sLog (cwSession w) @ [startEv] @ es @ mid @ [endEv]" "evType startEv = EventCompactionStart" "evType endEv = EventCompactionEnd"
    and sel: "slStart sel = start" "slEnd sel = end'"
    and body: "committed_body sel startEv (sLog (cwSession w) @ [startEv] @ es) mid endEv res"
    unfolding closed_transaction_def by auto
  from body obtain sumEv cp i j where b: "mid = [sumEv, cp]" "evType sumEv = EventCompactionSummary" "evType cp = EventUserMessage"
    "index_of start (log_surface (sLog (cwSession w) @ [startEv] @ es)) = Some i" "index_of end' (log_surface (sLog (cwSession w) @ [startEv] @ es)) = Some j" "i \<le> j"
    "slShadowedSeqs sel = take (j + 1 - i) (drop i (log_surface (sLog (cwSession w) @ [startEv] @ es)))"
    "log_surface ((sLog (cwSession w) @ [startEv] @ es) @ mid @ [endEv]) = take i (log_surface (sLog (cwSession w) @ [startEv] @ es)) @ [evSeq cp]
       @ drop (j + 1) (log_surface (sLog (cwSession w) @ [startEv] @ es))"
    "paired ((sLog (cwSession w) @ [startEv] @ es) @ mid) (log_surface ((sLog (cwSession w) @ [startEv] @ es) @ mid @ [endEv]))"
    "crStartSeq res = evSeq startEv" "crSummarySeq res = evSeq sumEv" "crEndSeq res = evSeq endEv" "crShadowedSeqs res = slShadowedSeqs sel"
    unfolding committed_body_def sel by blast
  show ?thesis
    by (rule exI [of _ startEv], rule exI [of _ es], rule exI [of _ sumEv], rule exI [of _ cp], rule exI [of _ endEv],
        rule exI [of _ i], rule exI [of _ j]) (use log b in simp)
qed

lemma demo_compacts: "is_Ok (snd (CompactSurfaceRegion demo_env 0 demo_compact_world 0 0 demo_options))"
  by code_simp

theorem compaction_commits_witness:
  "\<exists>w' res startEv es sumEv cp endEv. CompactSurfaceRegion demo_env 0 demo_compact_world 0 0 demo_options = (w', Ok res)
     \<and> sLog (cwSession w') = sLog demo_two @ [startEv] @ es @ [sumEv, cp, endEv] \<and> crEndSeq res = evSeq endEv"
proof -
  obtain w' res where c: "CompactSurfaceRegion demo_env 0 demo_compact_world 0 0 demo_options = (w', Ok res)"
    using demo_compacts by (cases "CompactSurfaceRegion demo_env 0 demo_compact_world 0 0 demo_options") (auto simp: outcome_simps)
  have r: "compact_reach (enSize demo_env) 0 demo_compact_world" using demo_compact_reach by (simp add: demo_env_def)
  from compaction_commits [OF r c] c show ?thesis by (auto simp: demo_compact_world_def)
qed

text \<open>C9: A compaction never leaves its lock behind: whatever the summarizer, the meter, the signal, the flush and other writers do, either
  nothing was written and the caller gets an error, or the bracket is closed, at once and exactly once after the opening event, and the
  session accepts the next compaction.\<close>

theorem compaction_always_closes:
  assumes "compact_reach (enSize env) sess w" and "CompactSurfaceRegion env sess w start end' options = (w', r)"
  shows "sLog (cwSession w') = sLog (cwSession w) \<and> (\<exists>e. r = Err e)
     \<or> (\<exists>startEv es mid endEv. sLog (cwSession w') = sLog (cwSession w) @ [startEv] @ es @ mid @ [endEv]
          \<and> evType startEv = EventCompactionStart \<and> evType endEv = EventCompactionEnd
          \<and> evType ` set es \<subseteq> (fst \<circ> snd) ` set (enMeanwhile env) \<and> evType ` set mid \<subseteq> {EventCompactionSummary, EventUserMessage}
          \<and> AssertNoActiveCompaction (cwSession w') = Ok ())"
proof -
  have tx: "tx_ok env sess w" using compact_reach_ok [OF assms(1)] by simp
  have closed: "AssertNoActiveCompaction (cwSession w') = Ok ()"
    if "sLog (cwSession w') = sLog (cwSession w) @ [startEv] @ es @ mid @ [endEv]" "evType endEv = EventCompactionEnd" for startEv es mid endEv
    using inspect_closed [of endEv "sLog (cwSession w) @ [startEv] @ es @ mid"] that by (simp add: AssertNoActiveCompaction_def)
  from CompactSurfaceRegion_spec [OF tx assms(2)] consider "sLog (cwSession w') = sLog (cwSession w) \<and> (\<exists>e. r = Err e)"
    | startEv es mid endEv where "sLog (cwSession w') = sLog (cwSession w) @ [startEv] @ es @ mid @ [endEv]"
        "evType startEv = EventCompactionStart" "evType endEv = EventCompactionEnd"
        "evType ` set es \<subseteq> (fst \<circ> snd) ` set (enMeanwhile env)" "evType ` set mid \<subseteq> {EventCompactionSummary, EventUserMessage}"
    unfolding closed_transaction_def by (elim conjE disjE exE) blast+
  then show ?thesis
  proof cases
    case 2
    with closed [OF 2(1,3)] show ?thesis by blast
  qed blast
qed

theorem compaction_always_closes_witness:
  "\<exists>w' r. CompactSurfaceRegion (demo_env\<lparr>enSummarize := (\<lambda>_. Panic)\<rparr>) 0 demo_compact_world 0 0 demo_options = (w', r)
     \<and> (sLog (cwSession w') \<noteq> sLog demo_two \<longrightarrow> AssertNoActiveCompaction (cwSession w') = Ok ())"
proof -
  obtain w' r where c: "CompactSurfaceRegion (demo_env\<lparr>enSummarize := (\<lambda>_. Panic)\<rparr>) 0 demo_compact_world 0 0 demo_options = (w', r)" by fastforce
  have reach: "compact_reach (enSize (demo_env\<lparr>enSummarize := (\<lambda>_. Panic)\<rparr>)) 0 demo_compact_world" using demo_compact_reach by (simp add: demo_env_def)
  from compaction_always_closes [OF reach c] c show ?thesis by (auto simp: demo_compact_world_def)
qed

text \<open>C27: The opening event is a lock: while it is the last compaction event of a log and no end-of-seed marker follows it, every further
  compaction of the session is refused before it writes anything.  A later marker, which a restored session gets, releases the lock.\<close>

theorem compaction_lock_excludes:
  assumes "compact_reach (enSize env) sess w" and "sLog (cwSession w) = pre @ [startEv] @ es" and "evType startEv = EventCompactionStart"
    and "\<forall>e \<in> set es. evType e \<notin> {EventCompactionStart, EventCompactionEnd, EventEndSeed}"
    and "CompactSurfaceRegion env sess w start end' options = (w', r)"
  shows "sLog (cwSession w') = sLog (cwSession w) \<and> (\<exists>e. r = Err e)"
proof -
  have tx: "tx_ok env sess w" using compact_reach_ok [OF assms(1)] by simp
  have cont: "\<forall>i < length (pre @ [startEv] @ es). evSeq ((pre @ [startEv] @ es) ! i) = int i"
    using tx_contiguous [OF tx] assms(2) by (simp add: contiguous_log_def)
  have s: "evSeq startEv = int (length pre)" using cont [rule_format, of "length pre"] by (simp add: nth_append)
  have "evSeq e < evSeq startEv" if "e \<in> set pre" for e
  proof -
    from that obtain i where "i < length pre" "e = pre ! i" by (metis in_set_conv_nth)
    then show ?thesis using cont [rule_format, of i] s by (simp add: nth_append)
  qed
  then have busy: "assertCompactionInactive (inspectCompactionEntryState (sLog (cwSession w))) = Err (ManualCompactionError ManualBusy None)"
    using inspect_open [OF assms(3,4)] assms(2) by simp
  obtain w1 r1 where v: "ValidateSurfaceRegion sess w start end' = (w1, r1)" by fastforce
  note vs = ValidateSurfaceRegion_target [OF tx v]
  have "w' = w \<and> r = Err SignalCancelled \<or> w' = w1 \<and> (\<exists>e. r = Err e)"
    using assms(5) v vs busy by (cases r1) (auto simp: CompactSurfaceRegion_def Let_def split: if_splits)
  with vs show ?thesis by auto
qed

definition demo_locked :: compact_world where
  "demo_locked = demo_compact_world\<lparr>cwSession := fst (Append 9 demo_two EventCompactionStart (Some JNull) None)\<rparr>"

theorem compaction_lock_excludes_witness:
  "\<exists>w' e. CompactSurfaceRegion demo_env 0 demo_locked 0 0 demo_options = (w', Err e) \<and> sLog (cwSession w') = sLog (cwSession demo_locked)"
proof -
  obtain s r where a: "Append 9 demo_two EventCompactionStart (Some JNull) None = (s, r)" by fastforce
  have inv: "session_inv demo_two" by (rule session_reach_inv [OF demo_two_reach])
  have l: "sLog s = sLog demo_two @ [plain_event demo_two 9 EventCompactionStart JNull]" using Append_plain [OF inv, of EventCompactionStart 9 JNull] a by auto
  have reach: "compact_reach (enSize demo_env) 0 demo_locked"
    using compact_reach.append [OF demo_compact_reach, of 9 EventCompactionStart "Some JNull" None s r] a
    by (simp add: demo_locked_def demo_compact_world_def demo_env_def)
  have log: "sLog (cwSession demo_locked) = sLog demo_two @ [plain_event demo_two 9 EventCompactionStart JNull] @ []" using l a by (simp add: demo_locked_def)
  obtain w' r' where c: "CompactSurfaceRegion demo_env 0 demo_locked 0 0 demo_options = (w', r')" by fastforce
  from compaction_lock_excludes [OF reach log _ _ c] c show ?thesis by auto
qed

end
