(* ===== verification/Turn_Usage.thy ===== *)
theory Turn_Usage
  imports Token_Meter
begin

text \<open>
  \<open>tokenmeter/turnusage.go\<close>: the exact provider-reported usage of one completed turn, folded from the turn's events.  An attempt is
  opened by a step or a retry and closed by the assistant message, a failed finish, a retry or the end of the step; anything out of order,
  a report that contradicts itself or a sum that leaves 64 bits makes the whole disclosure unavailable.  Shown here: what is disclosed
  accounts for every attempt once, and its buckets add up.
\<close>

section \<open>Attempts\<close>

definition EventLlmRetry :: string where "EventLlmRetry = ''llm/retry''"
definition EventLlmRetryStarted :: string where "EventLlmRetryStarted = ''llm/retry-started''"
definition FinishError :: string where "FinishError = ''error''"
definition FinishAborted :: string where "FinishAborted = ''aborted''"

record usage_route =
  roProvider :: string
  roModel :: string

record turn_token_usage =
  ttUncachedInputTokens :: int
  ttOutputTokens :: int
  ttTotalTokens :: int
  ttCacheReadTokens :: "int option"
  ttCacheWriteTokens :: "int option"
  ttReasoningTokens :: "int option"
  ttRoutes :: "usage_route list"

record normalized_attempt =
  naInputTokens :: int
  naOutputTokens :: int
  naTotalTokens :: int
  naCacheReadTokens :: "int option"
  naCacheWriteTokens :: "int option"
  naReasoningTokens :: "int option"
  naRoute :: "usage_route option"

datatype attempt_state_kind = AttemptIdle | AttemptOpen | AttemptFinishClosed | AttemptSettled

record attempt_state =
  asKind :: attempt_state_kind
  asSettledBy :: string
  asTurn :: int
  asStep :: int
  asSample :: "token_usage option"

definition idleAttempt :: attempt_state where
  "idleAttempt = \<lparr>asKind = AttemptIdle, asSettledBy = [], asTurn = 0, asStep = 0, asSample = None\<rparr>"

definition isCount :: "int \<Rightarrow> bool" where
  "isCount value' \<longleftrightarrow> value' \<ge> 0"

fun safeSumFrom :: "int \<Rightarrow> int list \<Rightarrow> int option" where
  "safeSumFrom acc [] = Some acc"
| "safeSumFrom acc (v # vs) = (if v > 0 \<and> acc > max_int64 - v then None else safeSumFrom (i64 (acc + v)) vs)"

definition safeSum :: "int list \<Rightarrow> int option" where
  "safeSum values = safeSumFrom 0 values"

definition messageRoute :: "message \<Rightarrow> usage_route option" where
  "messageRoute m =
     (if srcProvider (msgSource m) = [] \<or> srcModel (msgSource m) = [] then None
      else Some \<lparr>roProvider = srcProvider (msgSource m), roModel = srcModel (msgSource m)\<rparr>)"

definition optList :: "'a option \<Rightarrow> 'a list" where
  "optList x = (case x of None \<Rightarrow> [] | Some v \<Rightarrow> [v])"

text \<open>The exact total of one report.  Both terms of the difference are counts, so it stays in range.\<close>

definition exactTotalOf :: "token_usage \<Rightarrow> int \<Rightarrow> int option" where
  "exactTotalOf usage promptSum =
     (case tuTotalTokens usage of
        Some tot \<Rightarrow>
          if \<not> isCount tot then None
          else
            let exactPrompt = tot - tuOutputTokens usage in
            if \<not> isCount exactPrompt \<or> exactPrompt < promptSum then None
            else if tuCacheReadTokens usage \<noteq> None \<and> tuCacheWriteTokens usage \<noteq> None \<and> exactPrompt \<noteq> promptSum then None
            else Some tot
      | None \<Rightarrow>
          if tuCacheReadTokens usage = None \<or> tuCacheWriteTokens usage = None then None
          else safeSum [promptSum, tuOutputTokens usage])"

definition normalizeUsage :: "token_usage \<Rightarrow> usage_route option \<Rightarrow> normalized_attempt option" where
  "normalizeUsage usage route =
     (if \<not> isCount (tuInputTokens usage) \<or> \<not> isCount (tuOutputTokens usage) then None
      else if \<not> list_all isCount (optList (tuCacheReadTokens usage)) then None
      else if \<not> list_all isCount (optList (tuCacheWriteTokens usage)) then None
      else if \<not> list_all (\<lambda>n. isCount n \<and> n \<le> tuOutputTokens usage) (optList (tuReasoningTokens usage)) then None
      else Option.bind (safeSum (tuInputTokens usage # optList (tuCacheReadTokens usage) @ optList (tuCacheWriteTokens usage))) (\<lambda>promptSum.
           Option.bind (exactTotalOf usage promptSum) (\<lambda>exactTotal.
             Some \<lparr>naInputTokens = tuInputTokens usage, naOutputTokens = tuOutputTokens usage, naTotalTokens = exactTotal,
               naCacheReadTokens = tuCacheReadTokens usage, naCacheWriteTokens = tuCacheWriteTokens usage,
               naReasoningTokens = tuReasoningTokens usage, naRoute = route\<rparr>)))"

definition sumOptional :: "(normalized_attempt \<Rightarrow> int option) \<Rightarrow> normalized_attempt list \<Rightarrow> int option option" where
  "sumOptional pick attempts =
     (if list_ex (\<lambda>a. pick a = None) attempts then Some None
      else map_option Some (safeSum (map (\<lambda>a. the (pick a)) attempts)))"

fun dedupeRoutes :: "usage_route list \<Rightarrow> usage_route list \<Rightarrow> usage_route list" where
  "dedupeRoutes routes [] = routes"
| "dedupeRoutes routes (r # rs) = dedupeRoutes (if r \<in> set routes then routes else routes @ [r]) rs"

definition aggregateAttempts :: "normalized_attempt list \<Rightarrow> turn_token_usage option" where
  "aggregateAttempts attempts =
     (if attempts = [] then None
      else
        Option.bind (safeSum (map naInputTokens attempts)) (\<lambda>inputSum.
        Option.bind (safeSum (map naOutputTokens attempts)) (\<lambda>outputSum.
        Option.bind (safeSum (map naTotalTokens attempts)) (\<lambda>totalSum.
        Option.bind (sumOptional naCacheReadTokens attempts) (\<lambda>cacheRead.
        Option.bind (sumOptional naCacheWriteTokens attempts) (\<lambda>cacheWrite.
        Option.bind (sumOptional naReasoningTokens attempts) (\<lambda>reasoning.
          Some \<lparr>ttUncachedInputTokens = inputSum, ttOutputTokens = outputSum, ttTotalTokens = totalSum, ttCacheReadTokens = cacheRead,
            ttCacheWriteTokens = cacheWrite, ttReasoningTokens = reasoning,
            ttRoutes = (if list_ex (\<lambda>a. naRoute a = None) attempts then [] else dedupeRoutes [] (map (\<lambda>a. the (naRoute a)) attempts))\<rparr>)))))))"

section \<open>The lifecycle\<close>

definition dec_cancel_cause :: "cancel_cause decoder" where
  "dec_cancel_cause = dec_struct [(''kind'', fld tcKind tcKind_update dec_string), (''reason'', fld tcReason tcReason_update dec_string)]"

definition dec_turn_end_reason :: "turn_end_reason decoder" where
  "dec_turn_end_reason = dec_struct
     [(''kind'', fld teKind teKind_update dec_string),
      (''reason'', fld teReason teReason_update (dec_ptr \<lparr>tcKind = [], tcReason = []\<rparr> dec_cancel_cause)),
      (''error'', fld teError teError_update (dec_ptr zero_failure dec_failure))]"

definition dec_turn_end_data :: "turn_end_data decoder" where
  "dec_turn_end_data = dec_struct [(''turn'', fld edTurn edTurn_update dec_int64), (''reason'', fld edReason edReason_update dec_turn_end_reason)]"

definition zero_turn_end :: turn_end_data where
  "zero_turn_end = \<lparr>edTurn = 0, edReason = \<lparr>teKind = [], teReason = None, teError = None\<rparr>\<rparr>"

record turn_fold =
  tfState :: attempt_state
  tfAttempts :: "normalized_attempt list"
  tfTurn :: int
  tfSawStart :: bool
  tfSawEnd :: bool

definition empty_turn_fold :: turn_fold where
  "empty_turn_fold = \<lparr>tfState = idleAttempt, tfAttempts = [], tfTurn = -1, tfSawStart = False, tfSawEnd = False\<rparr>"

definition closeOpen :: "turn_fold \<Rightarrow> usage_route option \<Rightarrow> turn_fold option" where
  "closeOpen f route =
     (if asKind (tfState f) \<noteq> AttemptOpen then None
      else Option.bind (asSample (tfState f)) (\<lambda>sample.
           Option.bind (normalizeUsage sample route) (\<lambda>normalized. Some (f\<lparr>tfAttempts := tfAttempts f @ [normalized]\<rparr>))))"

definition enter :: "turn_fold \<Rightarrow> attempt_state_kind \<Rightarrow> string \<Rightarrow> int \<Rightarrow> turn_fold" where
  "enter f kind settledBy step =
     f\<lparr>tfState := \<lparr>asKind = kind, asSettledBy = settledBy, asTurn = tfTurn f, asStep = step, asSample = None\<rparr>\<rparr>"

definition sameAttempt :: "turn_fold \<Rightarrow> int \<Rightarrow> int \<Rightarrow> bool" where
  "sameAttempt f turn step \<longleftrightarrow> asTurn (tfState f) = turn \<and> asStep (tfState f) = step"

definition sampled :: "turn_fold \<Rightarrow> token_usage option \<Rightarrow> turn_fold" where
  "sampled f usage = (case usage of None \<Rightarrow> f | Some u \<Rightarrow> f\<lparr>tfState := (tfState f)\<lparr>asSample := Some u\<rparr>\<rparr>)"

definition chunkStep :: "turn_fold \<Rightarrow> chunk_data \<Rightarrow> turn_fold option" where
  "chunkStep f data =
     (if cdTurn data \<noteq> tfTurn f \<or> asKind (tfState f) \<noteq> AttemptOpen \<or> \<not> sameAttempt f (cdTurn data) (cdStep data) then None
      else if scType (cdChunk data) = ChunkUsage then Some (sampled f (scUsage (cdChunk data)))
      else if scType (cdChunk data) = ChunkFinish \<and> (case scReason (cdChunk data) of None \<Rightarrow> False | Some r \<Rightarrow> frKind r \<in> {FinishError, FinishAborted})
        then Option.bind (closeOpen f None) (\<lambda>f. Some (enter f AttemptFinishClosed [] (cdStep data)))
      else Some f)"

text \<open>One event; \<open>None\<close> makes the disclosure unavailable.\<close>

definition turnStep :: "turn_fold \<Rightarrow> event \<Rightarrow> turn_fold option" where
  "turnStep f event =
     (let ty = evType event; data = evData event in
      if ty = EventTurnStart then
        Option.bind (unmarshal_ok dec_turn_data \<lparr>tdTurn = 0\<rparr> data) (\<lambda>d.
          if tfSawStart f \<or> asKind (tfState f) \<noteq> AttemptIdle then None else Some (f\<lparr>tfSawStart := True, tfTurn := tdTurn d\<rparr>))
      else if \<not> tfSawStart f then None
      else if ty = EventTurnEnd then
        Option.bind (unmarshal_ok dec_turn_end_data zero_turn_end data) (\<lambda>d.
          if edTurn d \<noteq> tfTurn f \<or> asKind (tfState f) \<noteq> AttemptIdle \<or> tfSawEnd f then None else Some (f\<lparr>tfSawEnd := True\<rparr>))
      else if ty = EventStepStart then
        Option.bind (unmarshal_ok dec_step_data \<lparr>sdTurn = 0, sdStep = 0\<rparr> data) (\<lambda>d.
          if sdTurn d \<noteq> tfTurn f \<or> asKind (tfState f) \<noteq> AttemptIdle then None else Some (enter f AttemptOpen [] (sdStep d)))
      else if ty = EventLlmRetryStarted then
        Option.bind (unmarshal_ok dec_step_data \<lparr>sdTurn = 0, sdStep = 0\<rparr> data) (\<lambda>d.
          if sdTurn d \<noteq> tfTurn f \<or> asKind (tfState f) \<noteq> AttemptSettled \<or> asSettledBy (tfState f) \<noteq> ''retry'' \<or> \<not> sameAttempt f (sdTurn d) (sdStep d)
          then None else Some (enter f AttemptOpen [] (sdStep d)))
      else if ty = EventLlmRetry then
        Option.bind (unmarshal_ok dec_step_data \<lparr>sdTurn = 0, sdStep = 0\<rparr> data) (\<lambda>d.
          if sdTurn d \<noteq> tfTurn f \<or> asKind (tfState f) = AttemptIdle \<or> \<not> sameAttempt f (sdTurn d) (sdStep d) then None
          else if asKind (tfState f) = AttemptSettled then None
          else Option.bind (if asKind (tfState f) = AttemptOpen then closeOpen f None else Some f) (\<lambda>f. Some (enter f AttemptSettled ''retry'' (sdStep d))))
      else if ty = EventAssistantChunk then
        Option.bind (unmarshal_ok dec_chunk_data \<lparr>cdTurn = 0, cdStep = 0, cdChunk = zero_chunk\<rparr> data) (chunkStep f)
      else if ty = EventAssistantMsg then
        Option.bind (unmarshal_ok dec_assistant zero_assistant data) (\<lambda>d.
          if amTurn d \<noteq> tfTurn f \<or> asKind (tfState f) \<noteq> AttemptOpen \<or> \<not> sameAttempt f (amTurn d) (amStep d) then None
          else Option.bind (closeOpen (sampled f (amUsage d)) (messageRoute (amMessage d))) (\<lambda>f. Some (enter f AttemptSettled ''message'' (amStep d))))
      else if ty = EventStepEnd then
        Option.bind (unmarshal_ok dec_step_data \<lparr>sdTurn = 0, sdStep = 0\<rparr> data) (\<lambda>d.
          if sdTurn d \<noteq> tfTurn f \<or> asKind (tfState f) = AttemptIdle \<or> \<not> sameAttempt f (sdTurn d) (sdStep d) then None
          else Option.bind (if asKind (tfState f) = AttemptOpen then closeOpen f None else Some f) (\<lambda>f. Some (f\<lparr>tfState := idleAttempt\<rparr>)))
      else Some f)"

fun turnRun :: "turn_fold \<Rightarrow> event list \<Rightarrow> turn_fold option" where
  "turnRun f [] = Some f"
| "turnRun f (e # es) = Option.bind (turnStep f e) (\<lambda>f. turnRun f es)"

definition DeriveTurnTokenUsage :: "event list \<Rightarrow> turn_token_usage option" where
  "DeriveTurnTokenUsage events =
     Option.bind (turnRun empty_turn_fold events) (\<lambda>f.
       if \<not> tfSawEnd f \<or> asKind (tfState f) \<noteq> AttemptIdle then None else aggregateAttempts (tfAttempts f))"

section \<open>Sums\<close>

lemma safeSumFrom_exact:
  "safeSumFrom t vs = Some s \<Longrightarrow> 0 \<le> t \<Longrightarrow> t \<le> max_int64 \<Longrightarrow> \<forall>v \<in> set vs. 0 \<le> v \<Longrightarrow> s = t + sum_list vs \<and> s \<le> max_int64"
proof (induction vs arbitrary: t)
  case (Cons v vs)
  then have "t \<le> max_int64 - v" by (cases "v = 0") (auto split: if_splits)
  then have r: "0 \<le> t + v" "t + v \<le> max_int64" using Cons.prems by auto
  then have "i64 (t + v) = t + v" by (simp add: in_i64_def min_int64_def max_int64_def)
  moreover have "safeSumFrom (i64 (t + v)) vs = Some s" using Cons.prems(1) by (simp split: if_split_asm)
  ultimately show ?case using Cons.IH [of "t + v"] Cons.prems(4) r by simp
qed simp

lemma safeSum_exact: "safeSum vs = Some s \<Longrightarrow> \<forall>v \<in> set vs. 0 \<le> v \<Longrightarrow> s = sum_list vs \<and> 0 \<le> s \<and> s \<le> max_int64"
  using safeSumFrom_exact [of 0 vs s] by (simp add: safeSum_def max_int64_def sum_list_nonneg)

definition opt0 :: "int option \<Rightarrow> int" where
  "opt0 x = (case x of None \<Rightarrow> 0 | Some v \<Rightarrow> v)"

lemma opt0_simps [simp]: "opt0 None = 0" "opt0 (Some v) = v"
  by (simp_all add: opt0_def)

text \<open>What an accepted report says: its buckets are counts, and they add up to at most its total, exactly when all are known.\<close>

definition attempt_ok :: "normalized_attempt \<Rightarrow> bool" where
  "attempt_ok a \<longleftrightarrow> 0 \<le> naInputTokens a \<and> 0 \<le> naOutputTokens a \<and> 0 \<le> opt0 (naCacheReadTokens a) \<and> 0 \<le> opt0 (naCacheWriteTokens a)
     \<and> (\<forall>n. naReasoningTokens a = Some n \<longrightarrow> 0 \<le> n \<and> n \<le> naOutputTokens a)
     \<and> naInputTokens a + opt0 (naCacheReadTokens a) + opt0 (naCacheWriteTokens a) + naOutputTokens a \<le> naTotalTokens a
     \<and> (naCacheReadTokens a \<noteq> None \<longrightarrow> naCacheWriteTokens a \<noteq> None \<longrightarrow>
          naTotalTokens a = naInputTokens a + opt0 (naCacheReadTokens a) + opt0 (naCacheWriteTokens a) + naOutputTokens a)"

lemma normalizeUsage_ok:
  assumes "normalizeUsage usage route = Some a"
  shows "attempt_ok a"
proof -
  from assms obtain p t where c: "0 \<le> tuInputTokens usage" "0 \<le> tuOutputTokens usage" "list_all isCount (optList (tuCacheReadTokens usage))"
    "list_all isCount (optList (tuCacheWriteTokens usage))" "list_all (\<lambda>n. isCount n \<and> n \<le> tuOutputTokens usage) (optList (tuReasoningTokens usage))"
    and p: "safeSum (tuInputTokens usage # optList (tuCacheReadTokens usage) @ optList (tuCacheWriteTokens usage)) = Some p"
    and t: "exactTotalOf usage p = Some t"
    and a: "a = \<lparr>naInputTokens = tuInputTokens usage, naOutputTokens = tuOutputTokens usage, naTotalTokens = t,
               naCacheReadTokens = tuCacheReadTokens usage, naCacheWriteTokens = tuCacheWriteTokens usage,
               naReasoningTokens = tuReasoningTokens usage, naRoute = route\<rparr>"
    by (auto simp: normalizeUsage_def isCount_def bind_eq_Some_conv split: if_splits)
  have n: "0 \<le> opt0 (tuCacheReadTokens usage)" "0 \<le> opt0 (tuCacheWriteTokens usage)"
    using c(3,4) by (auto simp: opt0_def optList_def isCount_def split: option.splits)
  have "\<forall>v \<in> set (tuInputTokens usage # optList (tuCacheReadTokens usage) @ optList (tuCacheWriteTokens usage)). 0 \<le> v"
    using c by (auto simp: list_all_iff isCount_def)
  from safeSum_exact [OF p this] have ps: "p = tuInputTokens usage + opt0 (tuCacheReadTokens usage) + opt0 (tuCacheWriteTokens usage)"
    by (auto simp: optList_def split: option.splits)
  have "p + tuOutputTokens usage \<le> t \<and> (tuCacheReadTokens usage \<noteq> None \<longrightarrow> tuCacheWriteTokens usage \<noteq> None \<longrightarrow> t = p + tuOutputTokens usage)"
  proof (cases "tuTotalTokens usage")
    case None
    then have s: "safeSum [p, tuOutputTokens usage] = Some t" using t by (simp add: exactTotalOf_def split: if_splits)
    have "0 \<le> p" using ps c n by simp
    then show ?thesis using safeSum_exact [OF s] c(2) by simp
  qed (use t in \<open>auto simp: exactTotalOf_def Let_def split: if_splits\<close>)
  then show ?thesis using c n ps by (auto simp: attempt_ok_def a isCount_def optList_def list_all_iff split: option.splits)
qed

section \<open>No attempt is missed, none is counted twice\<close>

text \<open>The events that open an attempt: a step, or a retry within it.\<close>

definition opens :: "event \<Rightarrow> bool" where
  "opens e \<longleftrightarrow> evType e \<in> {EventStepStart, EventLlmRetryStarted}"

text \<open>What the events report, read off the log without the lifecycle: the attempts in the order they were opened, each with the usage its
  events reported last and the route its message names.\<close>

definition reportedUsage :: "event \<Rightarrow> token_usage option" where
  "reportedUsage e =
     (if evType e = EventAssistantChunk then
        Option.bind (unmarshal_ok dec_chunk_data \<lparr>cdTurn = 0, cdStep = 0, cdChunk = zero_chunk\<rparr> (evData e)) (\<lambda>d.
          if scType (cdChunk d) = ChunkUsage then scUsage (cdChunk d) else None)
      else if evType e = EventAssistantMsg then Option.bind (unmarshal_ok dec_assistant zero_assistant (evData e)) amUsage
      else None)"

definition reportedRoute :: "event \<Rightarrow> usage_route option" where
  "reportedRoute e =
     (if evType e = EventAssistantMsg then Option.bind (unmarshal_ok dec_assistant zero_assistant (evData e)) (\<lambda>d. messageRoute (amMessage d)) else None)"

definition later :: "'a option \<Rightarrow> 'a option \<Rightarrow> 'a option" where
  "later new old = (case new of None \<Rightarrow> old | Some _ \<Rightarrow> new)"

definition reported :: "(token_usage option \<times> usage_route option) list \<Rightarrow> event \<Rightarrow> (token_usage option \<times> usage_route option) list" where
  "reported reports e =
     (if opens e then reports @ [(None, None)]
      else if reports = [] then []
      else butlast reports @ [(later (reportedUsage e) (fst (last reports)), later (reportedRoute e) (snd (last reports)))])"

definition attempt_reports :: "event list \<Rightarrow> (token_usage option \<times> usage_route option) list" where
  "attempt_reports events = foldl reported [] events"

definition accounted :: "token_usage option \<times> usage_route option \<Rightarrow> normalized_attempt \<Rightarrow> bool" where
  "accounted report a \<longleftrightarrow> (case fst report of None \<Rightarrow> False | Some usage \<Rightarrow> normalizeUsage usage (snd report) = Some a)"

lemma later_None [simp]: "later None old = old" "later new None = new"
  by (simp_all add: later_def split: option.split)

lemma attempt_reports_snoc: "attempt_reports (evs @ [e]) = reported (attempt_reports evs) e"
  by (simp add: attempt_reports_def)

lemma length_reported: "length (reported reports e) = length reports + (if opens e then 1 else 0)"
  by (cases reports rule: rev_cases) (simp_all add: reported_def)

lemma length_attempt_reports: "length (attempt_reports evs) = length (filter opens evs)"
  by (induction evs rule: rev_induct) (simp_all add: attempt_reports_snoc length_reported, simp add: attempt_reports_def)

lemma accounted_ok: "accounted report a \<Longrightarrow> attempt_ok a"
  by (auto simp: accounted_def split: option.splits dest: normalizeUsage_ok)

lemma all_accounted_ok: "list_all2 accounted reports attempts \<Longrightarrow> \<forall>a \<in> set attempts. attempt_ok a"
  by (induction rule: list_all2_induct) (auto intro: accounted_ok)

definition fold_balanced :: "event list \<Rightarrow> turn_fold \<Rightarrow> bool" where
  "fold_balanced evs f \<longleftrightarrow>
     (if asKind (tfState f) = AttemptOpen
      then \<exists>done. attempt_reports evs = done @ [(asSample (tfState f), None)] \<and> list_all2 accounted done (tfAttempts f)
      else list_all2 accounted (attempt_reports evs) (tfAttempts f))"

lemma closeOpen_Some:
  assumes "closeOpen f route = Some f'"
  obtains a where "asKind (tfState f) = AttemptOpen" "f' = f\<lparr>tfAttempts := tfAttempts f @ [a]\<rparr>" "accounted (asSample (tfState f), route) a"
  using assms by (auto simp: closeOpen_def bind_eq_Some_conv accounted_def split: if_splits)

lemma reported_plain: "\<not> opens e \<Longrightarrow> reportedUsage e = None \<Longrightarrow> reportedRoute e = None \<Longrightarrow> reported reports e = reports"
  by (simp add: reported_def)

lemma reported_last:
  "\<not> opens e \<Longrightarrow> reported (done @ [(sample, None)]) e = done @ [(later (reportedUsage e) sample, reportedRoute e)]"
  by (simp add: reported_def)

text \<open>An event that opens an attempt, one that leaves the open attempt open with its report, one that closes it, and one that is about none.\<close>

lemma balanced_opened:
  assumes "fold_balanced evs f" "opens e" "asKind (tfState f) \<noteq> AttemptOpen" "tfAttempts g = tfAttempts f" "asKind (tfState g) = AttemptOpen" "asSample (tfState g) = None"
  shows "fold_balanced (evs @ [e]) g"
  using assms by (simp add: fold_balanced_def attempt_reports_snoc reported_def)

lemma balanced_kept:
  assumes "fold_balanced evs f" "\<not> opens e" "tfAttempts g = tfAttempts f" "reportedRoute e = None"
    and "asKind (tfState g) = AttemptOpen \<longleftrightarrow> asKind (tfState f) = AttemptOpen"
    and "asKind (tfState f) = AttemptOpen \<Longrightarrow> asSample (tfState g) = later (reportedUsage e) (asSample (tfState f))"
    and "asKind (tfState f) \<noteq> AttemptOpen \<Longrightarrow> reportedUsage e = None"
  shows "fold_balanced (evs @ [e]) g"
  using assms by (cases "asKind (tfState f) = AttemptOpen") (auto simp: fold_balanced_def attempt_reports_snoc reported_last reported_plain)

lemma balanced_closed:
  assumes "fold_balanced evs f" "\<not> opens e" "asKind (tfState f) = AttemptOpen" "asKind (tfState g) \<noteq> AttemptOpen" "tfAttempts g = tfAttempts f @ [a]"
    and "accounted (later (reportedUsage e) (asSample (tfState f)), reportedRoute e) a"
  shows "fold_balanced (evs @ [e]) g"
  using assms by (auto simp: fold_balanced_def attempt_reports_snoc reported_last list_all2_appendI)

lemmas turn_type_defs = event_type_defs EventLlmRetry_def EventLlmRetryStarted_def

lemma enter_sel [simp]: "asKind (tfState (enter f k b n)) = k" "tfAttempts (enter f k b n) = tfAttempts f" "tfSawStart (enter f k b n) = tfSawStart f"
    "asSample (tfState (enter f k b n)) = None"
  by (simp_all add: enter_def)

lemma sampled_sel [simp]: "asKind (tfState (sampled f u)) = asKind (tfState f)" "tfAttempts (sampled f u) = tfAttempts f"
    "asSample (tfState (sampled f u)) = later u (asSample (tfState f))"
  by (simp_all add: sampled_def later_def split: option.split)

lemma reports_nothing: "evType e \<notin> {EventAssistantChunk, EventAssistantMsg} \<Longrightarrow> reportedUsage e = None \<and> reportedRoute e = None"
  by (simp add: reportedUsage_def reportedRoute_def)

lemma chunkStep_cases:
  assumes "chunkStep f d = Some f'"
  obtains (sample) "asKind (tfState f) = AttemptOpen" "asKind (tfState f') = AttemptOpen" "tfAttempts f' = tfAttempts f"
      "asSample (tfState f') = later (if scType (cdChunk d) = ChunkUsage then scUsage (cdChunk d) else None) (asSample (tfState f))"
    | (closing) a where "asKind (tfState f) = AttemptOpen" "asKind (tfState f') = AttemptFinishClosed" "tfAttempts f' = tfAttempts f @ [a]"
      "scType (cdChunk d) \<noteq> ChunkUsage" "accounted (asSample (tfState f), None) a"
  using assms by (auto simp: chunkStep_def bind_eq_Some_conv elim!: closeOpen_Some split: if_split_asm)

text \<open>An event that closes the open attempt, or finds none open.\<close>

lemma closing_balanced:
  assumes "fold_balanced evs f" "\<not> opens e" "reportedUsage e = None" "reportedRoute e = None"
    and "(if asKind (tfState f) = AttemptOpen then closeOpen f None else Some f) = Some g" "tfAttempts f' = tfAttempts g" "asKind (tfState f') \<noteq> AttemptOpen"
  shows "fold_balanced (evs @ [e]) f'"
proof (cases "asKind (tfState f) = AttemptOpen")
  case True
  then obtain a where "g = f\<lparr>tfAttempts := tfAttempts f @ [a]\<rparr>" "accounted (asSample (tfState f), None) a"
    using assms(5) by (auto elim!: closeOpen_Some)
  then show ?thesis using balanced_closed [OF assms(1,2) True assms(7), of a] assms(3,4,6) by simp
qed (use balanced_kept [OF assms(1,2), of f'] assms in auto)

lemma step_balanced:
  assumes "fold_balanced evs f" "turnStep f e = Some f'"
  shows "fold_balanced (evs @ [e]) f'"
proof -
  have idle: "asKind (tfState (g\<lparr>tfState := idleAttempt\<rparr>)) = AttemptIdle" for g :: turn_fold by (simp add: idleAttempt_def)
  consider "evType e = EventTurnStart" | "evType e = EventTurnEnd" | "evType e = EventStepStart" | "evType e = EventLlmRetryStarted"
    | "evType e = EventLlmRetry" | "evType e = EventAssistantChunk" | "evType e = EventAssistantMsg" | "evType e = EventStepEnd"
    | "evType e \<notin> {EventTurnStart, EventTurnEnd, EventStepStart, EventLlmRetryStarted, EventLlmRetry, EventAssistantChunk, EventAssistantMsg, EventStepEnd}"
    by blast
  then show ?thesis
  proof cases
    case 5
    then have no: "\<not> opens e" "reportedUsage e = None" "reportedRoute e = None"
      using reports_nothing [of e] by (simp_all add: opens_def turn_type_defs)
    from 5 obtain g n where "(if asKind (tfState f) = AttemptOpen then closeOpen f None else Some f) = Some g" "f' = enter g AttemptSettled ''retry'' n"
      using assms(2) by (auto simp: turnStep_def bind_eq_Some_conv Let_def turn_type_defs split: if_split_asm)
    then show ?thesis using closing_balanced [OF assms(1) no] by simp
  next
    case 8
    then have no: "\<not> opens e" "reportedUsage e = None" "reportedRoute e = None"
      using reports_nothing [of e] by (simp_all add: opens_def turn_type_defs)
    from 8 obtain g where "(if asKind (tfState f) = AttemptOpen then closeOpen f None else Some f) = Some g" "f' = g\<lparr>tfState := idleAttempt\<rparr>"
      using assms(2) by (auto simp: turnStep_def bind_eq_Some_conv Let_def turn_type_defs split: if_split_asm)
    then show ?thesis using closing_balanced [OF assms(1) no] idle by simp
  next
    case 6
    then obtain d where d: "unmarshal_ok dec_chunk_data \<lparr>cdTurn = 0, cdStep = 0, cdChunk = zero_chunk\<rparr> (evData e) = Some d" "chunkStep f d = Some f'"
      using assms(2) by (auto simp: turnStep_def bind_eq_Some_conv Let_def turn_type_defs split: if_split_asm)
    have e: "\<not> opens e" "reportedRoute e = None" "reportedUsage e = (if scType (cdChunk d) = ChunkUsage then scUsage (cdChunk d) else None)"
      using 6 d(1) by (simp_all add: opens_def reportedRoute_def reportedUsage_def turn_type_defs)
    from d(2) show ?thesis
    proof (cases rule: chunkStep_cases)
      case sample
      then show ?thesis using balanced_kept [OF assms(1) e(1), of f'] e(2,3) by simp
    next
      case (closing a)
      then show ?thesis using balanced_closed [OF assms(1) e(1), of f' a] e(2,3) by simp
    qed
  next
    case 7
    then obtain d g where d: "unmarshal_ok dec_assistant zero_assistant (evData e) = Some d"
        "closeOpen (sampled f (amUsage d)) (messageRoute (amMessage d)) = Some g" "f' = enter g AttemptSettled ''message'' (amStep d)"
      using assms(2) by (auto simp: turnStep_def bind_eq_Some_conv Let_def turn_type_defs split: if_split_asm)
    have e: "\<not> opens e" "reportedRoute e = messageRoute (amMessage d)" "reportedUsage e = amUsage d"
      using 7 d(1) by (simp_all add: opens_def reportedRoute_def reportedUsage_def turn_type_defs)
    from d(2) obtain a where a: "asKind (tfState f) = AttemptOpen" "tfAttempts g = tfAttempts f @ [a]"
        "accounted (later (amUsage d) (asSample (tfState f)), messageRoute (amMessage d)) a"
      by (auto elim!: closeOpen_Some)
    show ?thesis using balanced_closed [OF assms(1) e(1) a(1), of f' a] a(2,3) d(3) e(2,3) by simp
  next
    case 1
    then show ?thesis using assms(2) balanced_kept [OF assms(1), of e f'] reports_nothing [of e]
      by (auto simp: turnStep_def bind_eq_Some_conv Let_def turn_type_defs opens_def split: if_split_asm)
  next
    case 2
    then show ?thesis using assms(2) balanced_kept [OF assms(1), of e f'] reports_nothing [of e]
      by (auto simp: turnStep_def bind_eq_Some_conv Let_def turn_type_defs opens_def split: if_split_asm)
  next
    case 3
    then show ?thesis using assms(2) balanced_opened [OF assms(1), of e f']
      by (auto simp: turnStep_def bind_eq_Some_conv Let_def turn_type_defs opens_def split: if_split_asm)
  next
    case 4
    then show ?thesis using assms(2) balanced_opened [OF assms(1), of e f']
      by (auto simp: turnStep_def bind_eq_Some_conv Let_def turn_type_defs opens_def split: if_split_asm)
  next
    case 9
    then show ?thesis using assms(2) balanced_kept [OF assms(1), of e f'] reports_nothing [of e]
      by (auto simp: turnStep_def Let_def opens_def split: if_split_asm)
  qed
qed

lemma run_balanced: "turnRun f es = Some f' \<Longrightarrow> fold_balanced evs f \<Longrightarrow> fold_balanced (evs @ es) f'"
proof (induction es arbitrary: evs f)
  case (Cons e es)
  then obtain g where "turnStep f e = Some g" "turnRun g es = Some f'" by (auto simp: bind_eq_Some_conv)
  then show ?case using Cons.IH [of g "evs @ [e]"] step_balanced [OF Cons.prems(2)] by simp
qed simp

lemma sumOptional_exact:
  assumes "sumOptional pick attempts = Some r" "\<forall>a \<in> set attempts. 0 \<le> opt0 (pick a)"
  shows "r = (if \<exists>a \<in> set attempts. pick a = None then None else Some (sum_list (map (\<lambda>a. opt0 (pick a)) attempts)))"
proof (cases "list_ex (\<lambda>a. pick a = None) attempts")
  case True
  then show ?thesis using assms(1) by (auto simp: sumOptional_def list_ex_iff)
next
  case False
  then obtain s where s: "safeSum (map (\<lambda>a. the (pick a)) attempts) = Some s" "r = Some s" using assms(1) by (auto simp: sumOptional_def)
  have e: "map (\<lambda>a. the (pick a)) attempts = map (\<lambda>a. opt0 (pick a)) attempts" using False by (auto simp: list_ex_iff opt0_def split: option.split)
  have "s = sum_list (map (\<lambda>a. opt0 (pick a)) attempts)" using safeSum_exact [OF s(1) [unfolded e]] assms(2) by simp
  then show ?thesis using s(2) False by (auto simp: list_ex_iff)
qed

lemma sum_list_le: "(\<And>x. x \<in> set xs \<Longrightarrow> f x \<le> (g x :: int)) \<Longrightarrow> sum_list (map f xs) \<le> sum_list (map g xs)"
  by (induction xs) (auto intro: add_mono)

text \<open>The routes in first-seen order.\<close>

definition in_first_order :: "'a list \<Rightarrow> 'a list" where
  "in_first_order xs = rev (remdups (rev xs))"

lemma dedupeRoutes_in_order: "dedupeRoutes (in_first_order seen) routes = in_first_order (seen @ routes)"
proof (induction routes arbitrary: seen)
  case (Cons r rs)
  have "(if r \<in> set (in_first_order seen) then in_first_order seen else in_first_order seen @ [r]) = in_first_order (seen @ [r])"
    by (simp add: in_first_order_def)
  then show ?case using Cons [of "seen @ [r]"] by simp
qed simp

text \<open>The exact disclosure of a list of reports: every bucket is its sum, an optional one when every report has it.\<close>

definition known_sum :: "('a \<Rightarrow> int option) \<Rightarrow> 'a list \<Rightarrow> int option" where
  "known_sum pick attempts = (if \<exists>a \<in> set attempts. pick a = None then None else Some (sum_list (map (\<lambda>a. the (pick a)) attempts)))"

definition usage_of :: "normalized_attempt list \<Rightarrow> turn_token_usage" where
  "usage_of attempts =
     \<lparr>ttUncachedInputTokens = sum_list (map naInputTokens attempts), ttOutputTokens = sum_list (map naOutputTokens attempts),
      ttTotalTokens = sum_list (map naTotalTokens attempts), ttCacheReadTokens = known_sum naCacheReadTokens attempts,
      ttCacheWriteTokens = known_sum naCacheWriteTokens attempts, ttReasoningTokens = known_sum naReasoningTokens attempts,
      ttRoutes = (if \<exists>a \<in> set attempts. naRoute a = None then [] else in_first_order (map (\<lambda>a. the (naRoute a)) attempts))\<rparr>"

lemma known_sum_opt0:
  "known_sum pick attempts = (if \<exists>a \<in> set attempts. pick a = None then None else Some (sum_list (map (\<lambda>a. opt0 (pick a)) attempts)))"
proof (cases "\<exists>a \<in> set attempts. pick a = None")
  case False
  then have "map (\<lambda>a. the (pick a)) attempts = map (\<lambda>a. opt0 (pick a)) attempts" by (auto simp: opt0_def split: option.split)
  then have "sum_list (map (\<lambda>a. the (pick a)) attempts) = sum_list (map (\<lambda>a. opt0 (pick a)) attempts)" by (rule arg_cong)
  then show ?thesis using False by (simp add: known_sum_def)
qed (auto simp: known_sum_def)

lemma sumOptional_known: "sumOptional pick attempts = Some r \<Longrightarrow> \<forall>a \<in> set attempts. 0 \<le> opt0 (pick a) \<Longrightarrow> r = known_sum pick attempts"
  by (simp add: sumOptional_exact known_sum_opt0)

lemma aggregateAttempts_exact:
  assumes "aggregateAttempts as = Some u" "\<forall>a \<in> set as. attempt_ok a"
  shows "as \<noteq> [] \<and> u = usage_of as \<and> ttTotalTokens u \<le> max_int64"
proof -
  obtain i out t rd wr rs where r: "as \<noteq> []" "safeSum (map naInputTokens as) = Some i" "safeSum (map naOutputTokens as) = Some out"
    "safeSum (map naTotalTokens as) = Some t" "sumOptional naCacheReadTokens as = Some rd"
    "sumOptional naCacheWriteTokens as = Some wr" "sumOptional naReasoningTokens as = Some rs"
    "u = \<lparr>ttUncachedInputTokens = i, ttOutputTokens = out, ttTotalTokens = t, ttCacheReadTokens = rd, ttCacheWriteTokens = wr, ttReasoningTokens = rs,
       ttRoutes = (if list_ex (\<lambda>a. naRoute a = None) as then [] else dedupeRoutes [] (map (\<lambda>a. the (naRoute a)) as))\<rparr>"
    using assms(1) by (auto simp: aggregateAttempts_def bind_eq_Some_conv split: if_split_asm)
  have "i = sum_list (map naInputTokens as)" using safeSum_exact [OF r(2)] assms(2) by (auto simp: attempt_ok_def)
  moreover have "out = sum_list (map naOutputTokens as)" using safeSum_exact [OF r(3)] assms(2) by (auto simp: attempt_ok_def)
  moreover have "t = sum_list (map naTotalTokens as)" "t \<le> max_int64"
    using safeSum_exact [OF r(4)] assms(2) by (fastforce simp: attempt_ok_def)+
  moreover have "rd = known_sum naCacheReadTokens as" "wr = known_sum naCacheWriteTokens as" "rs = known_sum naReasoningTokens as"
    using sumOptional_known [OF r(5)] sumOptional_known [OF r(6)] sumOptional_known [OF r(7)] assms(2)
    by (auto simp: attempt_ok_def opt0_def split: option.splits)
  moreover have "dedupeRoutes [] routes = in_first_order routes" for routes :: "usage_route list"
    using dedupeRoutes_in_order [of "[]" routes] by (simp add: in_first_order_def)
  ultimately show ?thesis using r(1,8) by (auto simp: usage_of_def list_ex_iff)
qed

text \<open>The buckets of the disclosure fit together as those of the reports do.\<close>

lemma usage_of_fits:
  assumes "\<forall>a \<in> set as. attempt_ok a" "u = usage_of as"
  shows "ttUncachedInputTokens u + opt0 (ttCacheReadTokens u) + opt0 (ttCacheWriteTokens u) + ttOutputTokens u \<le> ttTotalTokens u"
    and "ttCacheReadTokens u \<noteq> None \<Longrightarrow> ttCacheWriteTokens u \<noteq> None \<Longrightarrow>
          ttTotalTokens u = ttUncachedInputTokens u + opt0 (ttCacheReadTokens u) + opt0 (ttCacheWriteTokens u) + ttOutputTokens u"
    and "\<forall>n. ttReasoningTokens u = Some n \<longrightarrow> 0 \<le> n \<and> n \<le> ttOutputTokens u"
proof -
  let ?S = "\<lambda>g. sum_list (map g as)"
  let ?bucket = "\<lambda>a. naInputTokens a + opt0 (naCacheReadTokens a) + opt0 (naCacheWriteTokens a) + naOutputTokens a"
  have part: "?S ?bucket = ?S naInputTokens + ?S (\<lambda>a. opt0 (naCacheReadTokens a)) + ?S (\<lambda>a. opt0 (naCacheWriteTokens a)) + ?S naOutputTokens"
    by (simp add: sum_list_addf)
  have le: "?S ?bucket \<le> ?S naTotalTokens" using assms(1) by (intro sum_list_le) (auto simp: attempt_ok_def)
  note known = known_sum_opt0 [where attempts = as]
  have below: "opt0 (known_sum pick as) \<le> ?S (\<lambda>a. opt0 (pick a))" if "\<forall>a \<in> set as. 0 \<le> opt0 (pick a)" for pick
    using that by (auto simp: known intro!: sum_list_nonneg)
  have "opt0 (known_sum naCacheReadTokens as) \<le> ?S (\<lambda>a. opt0 (naCacheReadTokens a))"
    "opt0 (known_sum naCacheWriteTokens as) \<le> ?S (\<lambda>a. opt0 (naCacheWriteTokens a))"
    using assms(1) by (auto intro!: below simp: attempt_ok_def)
  then show "ttUncachedInputTokens u + opt0 (ttCacheReadTokens u) + opt0 (ttCacheWriteTokens u) + ttOutputTokens u \<le> ttTotalTokens u"
    using le part by (simp add: assms(2) usage_of_def)
  show "ttTotalTokens u = ttUncachedInputTokens u + opt0 (ttCacheReadTokens u) + opt0 (ttCacheWriteTokens u) + ttOutputTokens u"
    if "ttCacheReadTokens u \<noteq> None" "ttCacheWriteTokens u \<noteq> None"
  proof -
    have none: "\<forall>a \<in> set as. naCacheReadTokens a \<noteq> None \<and> naCacheWriteTokens a \<noteq> None"
      using that by (auto simp: assms(2) usage_of_def known split: if_split_asm)
    then have "map naTotalTokens as = map ?bucket as" using assms(1) by (auto simp: attempt_ok_def)
    then have "?S naTotalTokens = ?S ?bucket" by (rule arg_cong)
    then show ?thesis using none part by (auto simp: assms(2) usage_of_def known)
  qed
  have "?S (\<lambda>a. opt0 (naReasoningTokens a)) \<le> ?S naOutputTokens" "0 \<le> ?S (\<lambda>a. opt0 (naReasoningTokens a))"
    using assms(1) by (auto intro!: sum_list_le sum_list_nonneg simp: attempt_ok_def opt0_def split: option.split)
  then show "\<forall>n. ttReasoningTokens u = Some n \<longrightarrow> 0 \<le> n \<and> n \<le> ttOutputTokens u"
    by (auto simp: assms(2) usage_of_def known)
qed

text \<open>C26: The usage disclosed for a turn is a proof of account.  There was at least one attempt; every step and retry that was started reported
  its usage, and the report read off the events, the last of the attempt with the route of its message, is accepted; and every bucket disclosed is
  the exact sum over those reports, within \<open>int64\<close> (not within the \<open>2\<^sup>5\<^sup>3 - 1\<close> the code's comments name): an optional one when every report has
  it, and the routes when every report has one, in first-seen order.  Prompt buckets and output add up to at most the total, and exactly to it
  when both cache buckets are disclosed; reasoning is part of the output.\<close>

theorem turn_usage_accounts:
  assumes "DeriveTurnTokenUsage events = Some u"
  shows "\<exists>attempts. attempts \<noteq> [] \<and> list_all2 accounted (attempt_reports events) attempts \<and> length attempts = length (filter opens events)
     \<and> u = usage_of attempts \<and> ttTotalTokens u \<le> max_int64
     \<and> ttUncachedInputTokens u + opt0 (ttCacheReadTokens u) + opt0 (ttCacheWriteTokens u) + ttOutputTokens u \<le> ttTotalTokens u
     \<and> (ttCacheReadTokens u \<noteq> None \<longrightarrow> ttCacheWriteTokens u \<noteq> None \<longrightarrow>
          ttTotalTokens u = ttUncachedInputTokens u + opt0 (ttCacheReadTokens u) + opt0 (ttCacheWriteTokens u) + ttOutputTokens u)
     \<and> (\<forall>n. ttReasoningTokens u = Some n \<longrightarrow> 0 \<le> n \<and> n \<le> ttOutputTokens u)"
proof -
  obtain f where f: "turnRun empty_turn_fold events = Some f" "asKind (tfState f) = AttemptIdle" "aggregateAttempts (tfAttempts f) = Some u"
    using assms by (auto simp: DeriveTurnTokenUsage_def bind_eq_Some_conv split: if_splits)
  have "fold_balanced [] empty_turn_fold" by (simp add: fold_balanced_def empty_turn_fold_def idleAttempt_def attempt_reports_def)
  from run_balanced [OF f(1) this] f(2) have b: "list_all2 accounted (attempt_reports events) (tfAttempts f)" by (simp add: fold_balanced_def)
  then have ok: "\<forall>a \<in> set (tfAttempts f). attempt_ok a" by (rule all_accounted_ok)
  from aggregateAttempts_exact [OF f(3) ok] have u: "tfAttempts f \<noteq> []" "u = usage_of (tfAttempts f)" "ttTotalTokens u \<le> max_int64" by blast+
  have "length (tfAttempts f) = length (filter opens events)" using list_all2_lengthD [OF b] length_attempt_reports by metis
  with b u show ?thesis by (intro exI [of _ "tfAttempts f"] conjI impI) (use usage_of_fits [OF ok u(2)] in \<open>blast+\<close>)
qed

definition demo_turn_event :: "string \<Rightarrow> json \<Rightarrow> event" where
  "demo_turn_event ty data = \<lparr>evType = ty, evSeq = 0, evTime = 0, evData = Some data, evSourceEventSeqs = None, evSurfaceOp = None, evIgnorable = False\<rparr>"

definition demo_turn :: "event list" where
  "demo_turn =
     (let here = [(''turn'', JInt 1), (''step'', JInt 2)];
          usage = (\<lambda>n. JObj [(''inputTokens'', JInt n), (''outputTokens'', JInt 5), (''cacheReadTokens'', JInt 3), (''cacheWriteTokens'', JInt 0)]) in
      [demo_turn_event EventTurnStart (JObj [(''turn'', JInt 1)]), demo_turn_event EventStepStart (JObj here),
       demo_turn_event EventAssistantChunk (JObj (here @ [(''chunk'', JObj [(''type'', JStr ''usage''), (''usage'', usage 10)])])),
       demo_turn_event EventLlmRetry (JObj here), demo_turn_event EventLlmRetryStarted (JObj here),
       demo_turn_event EventAssistantMsg (JObj (here @ [(''usage'', usage 20)])), demo_turn_event EventStepEnd (JObj here),
       demo_turn_event EventTurnEnd (JObj [(''turn'', JInt 1)])])"

lemma demo_turn_usage:
  "DeriveTurnTokenUsage demo_turn = Some \<lparr>ttUncachedInputTokens = 30, ttOutputTokens = 10, ttTotalTokens = 46, ttCacheReadTokens = Some 6,
     ttCacheWriteTokens = Some 0, ttReasoningTokens = None, ttRoutes = []\<rparr>"
  by code_simp

theorem turn_usage_accounts_witness:
  "\<exists>attempts. list_all2 accounted (attempt_reports demo_turn) attempts \<and> length attempts = length (filter opens demo_turn)
     \<and> ttTotalTokens (usage_of attempts) = 46"
proof -
  from turn_usage_accounts [OF demo_turn_usage] obtain attempts where "list_all2 accounted (attempt_reports demo_turn) attempts"
    "length attempts = length (filter opens demo_turn)"
    "usage_of attempts = \<lparr>ttUncachedInputTokens = 30, ttOutputTokens = 10, ttTotalTokens = 46, ttCacheReadTokens = Some 6,
       ttCacheWriteTokens = Some 0, ttReasoningTokens = None, ttRoutes = []\<rparr>" by (metis (no_types))
  then show ?thesis by (intro exI [of _ attempts]) simp
qed

end
