(* ===== verification/Token_Projection.thy ===== *)
theory Token_Projection
  imports Compaction Turn_Usage
begin

text \<open>
  \<open>tokenmeter/projection.go\<close> and \<open>projectionfold.go\<close>: the three persisted projections of token figures, each a fold of the
  session log with a bounded state.  Cumulative usage keeps the last sample; occupancy and composition keep a running price of the surface, which a
  replacement corrects by the shadow price that the metering event just before it states.  A decode failure is a panic of the fold.
  Shown here: usage counts every attempt once, and on a log whose replacements are metered the running price is that of the surface.
\<close>

section \<open>Shadow prices\<close>

definition EventCompactionPrune :: string where "EventCompactionPrune = ''compaction/prune''"

record prune_payload =
  prShadowedRange :: seq_range
  prShadowedSeqs :: "int list option"
  prShadowedTokenCount :: int

definition zero_prune :: prune_payload where
  "zero_prune = \<lparr>prShadowedRange = \<lparr>rgStart = 0, rgEnd = 0\<rparr>, prShadowedSeqs = None, prShadowedTokenCount = 0\<rparr>"

definition zero_summary :: summary_payload where
  "zero_summary = \<lparr>cmCompactionID = [], cmSourceCommandID = [], cmSummary = None, cmShadowedRange = \<lparr>rgStart = 0, rgEnd = 0\<rparr>, cmShadowedSeqs = [],
     cmShadowedTokenCount = 0, cmProvider = [], cmModel = [], cmMaxTokens = None, cmUsage = None, cmRawOutput = None, cmLLMStreamCall = False\<rparr>"

definition dec_seq_range :: "seq_range decoder" where
  "dec_seq_range = dec_struct [(''start'', fld rgStart rgStart_update dec_int64), (''end'', fld rgEnd rgEnd_update dec_int64)]"

definition dec_prune :: "prune_payload decoder" where
  "dec_prune = dec_struct
     [(''shadowedRange'', fld prShadowedRange prShadowedRange_update dec_seq_range),
      (''shadowedSeqs'', fld prShadowedSeqs prShadowedSeqs_update (dec_slice 0 dec_int64)),
      (''shadowedTokenCount'', fld prShadowedTokenCount prShadowedTokenCount_update dec_int64)]"

text \<open>A nil and an empty slice of seqs are one value of the summary record.\<close>

definition summary_fields :: "(string \<times> summary_payload decoder) list" where
  "summary_fields =
     [(''compactionId'', fld cmCompactionID cmCompactionID_update dec_string),
      (''sourceCommandId'', fld cmSourceCommandID cmSourceCommandID_update dec_string),
      (''summary'', fld cmSummary cmSummary_update (dec_slice zero_block dec_block)),
      (''shadowedRange'', fld cmShadowedRange cmShadowedRange_update dec_seq_range),
      (''shadowedSeqs'', fld (\<lambda>p. Some (cmShadowedSeqs p)) (\<lambda>f. cmShadowedSeqs_update (\<lambda>x. case f (Some x) of None \<Rightarrow> [] | Some y \<Rightarrow> y)) (dec_slice 0 dec_int64)),
      (''shadowedTokenCount'', fld cmShadowedTokenCount cmShadowedTokenCount_update dec_int64),
      (''provider'', fld cmProvider cmProvider_update dec_string),
      (''model'', fld cmModel cmModel_update dec_string),
      (''maxTokens'', fld cmMaxTokens cmMaxTokens_update (dec_ptr 0 dec_int64)),
      (''usage'', fld cmUsage cmUsage_update (dec_ptr zero_usage dec_usage)),
      (''rawOutput'', fld cmRawOutput cmRawOutput_update (dec_slice zero_block dec_block)),
      (''llmStreamCall'', fld cmLLMStreamCall cmLLMStreamCall_update dec_bool)]"

definition dec_summary :: "summary_payload decoder" where
  "dec_summary = dec_struct summary_fields"

record shadow_price_claim =
  spStart :: int
  spEnd :: int
  spTokens :: int

record surface_tokens_fold =
  stfDeltaTokens :: int
  stfClaim :: "shadow_price_claim option"

datatype projection_error = ProjectionPayload string int | NoShadowPrice int int int int int

definition decodeEventPayload :: "'a decoder \<Rightarrow> 'a \<Rightarrow> event \<Rightarrow> (projection_error, 'a) outcome" where
  "decodeEventPayload d zero event =
     (case unmarshal_ok d zero (evData event) of None \<Rightarrow> Err (ProjectionPayload (evType event) (evSeq event)) | Some v \<Rightarrow> Ok v)"

definition FoldSurfaceTokens :: "(json \<Rightarrow> nat) \<Rightarrow> shadow_price_claim option \<Rightarrow> event \<Rightarrow> (projection_error, surface_tokens_fold) outcome" where
  "FoldSurfaceTokens size' claim event =
     (if evType event = EventCompactionSummary then
        andThen (decodeEventPayload dec_summary zero_summary event) (\<lambda>data.
          Ok \<lparr>stfDeltaTokens = 0, stfClaim = Some \<lparr>spStart = rgStart (cmShadowedRange data), spEnd = rgEnd (cmShadowedRange data),
            spTokens = cmShadowedTokenCount data\<rparr>\<rparr>)
      else if evType event = EventCompactionPrune then
        andThen (decodeEventPayload dec_prune zero_prune event) (\<lambda>data.
          Ok \<lparr>stfDeltaTokens = 0, stfClaim = Some \<lparr>spStart = rgStart (prShadowedRange data), spEnd = rgEnd (prShadowedRange data),
            spTokens = prShadowedTokenCount data\<rparr>\<rparr>)
      else if \<not> IsSurfaceEventType (evType event) then Ok \<lparr>stfDeltaTokens = 0, stfClaim = None\<rparr>
      else
        let tokens = (case DeriveEventMessage event of None \<Rightarrow> 0 | Some m \<Rightarrow> EstimateMessage size' m) in
        case evSurfaceOp event of
          None \<Rightarrow> Ok \<lparr>stfDeltaTokens = tokens, stfClaim = None\<rparr>
        | Some o' \<Rightarrow>
            if opKind o' = SurfaceAppend then Ok \<lparr>stfDeltaTokens = tokens, stfClaim = None\<rparr>
            else (case claim of
                    None \<Rightarrow> Ok \<lparr>stfDeltaTokens = 0, stfClaim = None\<rparr>
                  | Some c \<Rightarrow>
                      if spStart c \<noteq> opStart o' \<or> spEnd c \<noteq> opEnd o'
                      then Err (NoShadowPrice (evSeq event) (opStart o') (opEnd o') (spStart c) (spEnd c))
                      else Ok \<lparr>stfDeltaTokens = i64 (tokens - spTokens c), stfClaim = None\<rparr>))"

section \<open>Cumulative usage\<close>

record token_usage_projection =
  tpUncachedInputTokens :: int
  tpOutputTokens :: int
  tpCacheReadTokens :: int
  tpCacheWriteTokens :: int

record token_usage_sample =
  tsTurn :: int
  tsStep :: int
  tsBuckets :: token_usage_projection

record token_usage_state =
  tuTotals :: token_usage_projection
  tuLast :: "token_usage_sample option"

definition zero_buckets :: token_usage_projection where
  "zero_buckets = \<lparr>tpUncachedInputTokens = 0, tpOutputTokens = 0, tpCacheReadTokens = 0, tpCacheWriteTokens = 0\<rparr>"

definition optionalTokens :: "int option \<Rightarrow> int" where
  "optionalTokens value' = (case value' of None \<Rightarrow> 0 | Some n \<Rightarrow> n)"

definition bucketsFrom :: "token_usage \<Rightarrow> token_usage_projection" where
  "bucketsFrom usage =
     \<lparr>tpUncachedInputTokens = tuInputTokens usage, tpOutputTokens = tuOutputTokens usage,
      tpCacheReadTokens = optionalTokens (tuCacheReadTokens usage), tpCacheWriteTokens = optionalTokens (tuCacheWriteTokens usage)\<rparr>"

definition subtractBuckets :: "token_usage_projection \<Rightarrow> token_usage_projection \<Rightarrow> token_usage_projection" where
  "subtractBuckets totals previous =
     \<lparr>tpUncachedInputTokens = i64 (tpUncachedInputTokens totals - tpUncachedInputTokens previous),
      tpOutputTokens = i64 (tpOutputTokens totals - tpOutputTokens previous),
      tpCacheReadTokens = i64 (tpCacheReadTokens totals - tpCacheReadTokens previous),
      tpCacheWriteTokens = i64 (tpCacheWriteTokens totals - tpCacheWriteTokens previous)\<rparr>"

definition addBuckets :: "token_usage_projection \<Rightarrow> token_usage_projection \<Rightarrow> token_usage_projection" where
  "addBuckets totals next =
     \<lparr>tpUncachedInputTokens = i64 (tpUncachedInputTokens totals + tpUncachedInputTokens next),
      tpOutputTokens = i64 (tpOutputTokens totals + tpOutputTokens next),
      tpCacheReadTokens = i64 (tpCacheReadTokens totals + tpCacheReadTokens next),
      tpCacheWriteTokens = i64 (tpCacheWriteTokens totals + tpCacheWriteTokens next)\<rparr>"

definition addReplacing :: "token_usage_projection \<Rightarrow> token_usage_projection option \<Rightarrow> token_usage_projection \<Rightarrow> token_usage_projection" where
  "addReplacing totals previous next =
     addBuckets (case previous of None \<Rightarrow> totals | Some p \<Rightarrow> subtractBuckets totals p) next"

text \<open>A projection unit has no way to fail but a panic.\<close>

definition orPanic :: "('e, 'a) outcome \<Rightarrow> ('f, 'a) outcome" where
  "orPanic r = (case r of Ok x \<Rightarrow> Ok x | _ \<Rightarrow> Panic)"

definition usageOf :: "event \<Rightarrow> (projection_error, token_usage_sample option) outcome" where
  "usageOf event =
     (if evType event = EventAssistantChunk then
        andThen (orPanic (decodeEventPayload dec_chunk_data \<lparr>cdTurn = 0, cdStep = 0, cdChunk = zero_chunk\<rparr> event)) (\<lambda>data.
          Ok (case scUsage (cdChunk data) of
                Some usage \<Rightarrow>
                  if scType (cdChunk data) \<noteq> ChunkUsage then None
                  else Some \<lparr>tsTurn = cdTurn data, tsStep = cdStep data, tsBuckets = bucketsFrom usage\<rparr>
              | None \<Rightarrow> None))
      else if evType event = EventAssistantMsg then
        andThen (orPanic (decodeEventPayload dec_assistant zero_assistant event)) (\<lambda>data.
          Ok (case amUsage data of
                None \<Rightarrow> None
              | Some usage \<Rightarrow> Some \<lparr>tsTurn = amTurn data, tsStep = amStep data, tsBuckets = bucketsFrom usage\<rparr>))
      else Ok None)"

definition sameStep :: "token_usage_sample option \<Rightarrow> int \<Rightarrow> int \<Rightarrow> bool" where
  "sameStep latest turn step = (case latest of None \<Rightarrow> False | Some s \<Rightarrow> tsTurn s = turn \<and> tsStep s = step)"

text \<open>A unit answers the next state and whether it changed.\<close>

definition tokenUsageApply :: "token_usage_state \<Rightarrow> event \<Rightarrow> (projection_error, token_usage_state \<times> bool) outcome" where
  "tokenUsageApply state event =
     (if evType event = EventLlmRetryStarted then
        andThen (orPanic (decodeEventPayload dec_step_data \<lparr>sdTurn = 0, sdStep = 0\<rparr> event)) (\<lambda>data.
          Ok (if sameStep (tuLast state) (sdTurn data) (sdStep data) then (\<lparr>tuTotals = tuTotals state, tuLast = None\<rparr>, True) else (state, False)))
      else andThen (usageOf event) (\<lambda>usage.
        case usage of
          None \<Rightarrow> Ok (state, False)
        | Some u \<Rightarrow>
            let previous = (if sameStep (tuLast state) (tsTurn u) (tsStep u) then map_option tsBuckets (tuLast state) else None) in
            if previous = Some (tsBuckets u) then Ok (state, False)
            else Ok (\<lparr>tuTotals = addReplacing (tuTotals state) previous (tsBuckets u), tuLast = Some u\<rparr>, True)))"

definition tokenUsageInit :: token_usage_state where
  "tokenUsageInit = \<lparr>tuTotals = zero_buckets, tuLast = None\<rparr>"

section \<open>Context occupancy\<close>

record context_pressure_state =
  cpContextWindow :: "int option"
  cpPressureTokens :: "int option"
  cpSurfaceTokens :: int
  cpSampledSurfaceTokens :: "int option"
  cpClaim :: "shadow_price_claim option"

record context_pressure_projection =
  cvPressureTokens :: "int option"
  cvProjectedTokens :: "int option"
  cvContextWindow :: "int option"

definition pressureInit :: context_pressure_state where
  "pressureInit = \<lparr>cpContextWindow = None, cpPressureTokens = None, cpSurfaceTokens = 0, cpSampledSurfaceTokens = None, cpClaim = None\<rparr>"

definition withContext :: "context_pressure_state \<Rightarrow> event \<Rightarrow> (projection_error, context_pressure_state) outcome" where
  "withContext state event =
     (if evType event = EventRequestCtx
      then andThen (orPanic (decodeEventPayload dec_context zero_context event)) (\<lambda>data. Ok (state\<lparr>cpContextWindow := rcContextWindow data\<rparr>))
      else Ok state)"

definition withSample :: "context_pressure_state \<Rightarrow> token_usage_sample option \<Rightarrow> context_pressure_state \<times> bool" where
  "withSample next usage =
     (case usage of
        None \<Rightarrow> (next, False)
      | Some u \<Rightarrow>
          let b = tsBuckets u; pressureTokens = i64 (i64 (tpUncachedInputTokens b + tpCacheReadTokens b) + tpCacheWriteTokens b);
              sampledTokens = optionalTokens (cpSampledSurfaceTokens next) in
          if cpPressureTokens next = Some pressureTokens \<and> sampledTokens = cpSurfaceTokens next then (next, False)
          else (next\<lparr>cpPressureTokens := Some pressureTokens, cpSampledSurfaceTokens := Some (cpSurfaceTokens next)\<rparr>, True))"

text \<open>The states are compared field by field, pointers by identity: a decoded window is a new pointer.\<close>

definition pressureApply :: "(json \<Rightarrow> nat) \<Rightarrow> context_pressure_state \<Rightarrow> event \<Rightarrow> (projection_error, context_pressure_state \<times> bool) outcome" where
  "pressureApply size' state event =
     andThen (orPanic (FoldSurfaceTokens size' (cpClaim state) event)) (\<lambda>fold.
     andThen (withContext state event) (\<lambda>next.
     andThen (usageOf event) (\<lambda>usage.
       let (next, sampledAnew) = withSample next usage;
           next' = (if stfDeltaTokens fold \<noteq> 0 then next\<lparr>cpSurfaceTokens := i64 (cpSurfaceTokens next + stfDeltaTokens fold)\<rparr> else next);
           windowAnew = (evType event = EventRequestCtx \<and> (cpContextWindow next \<noteq> None \<or> cpContextWindow state \<noteq> None)) in
       if cpClaim state = None \<and> stfClaim fold = None
       then Ok (next', sampledAnew \<or> windowAnew \<or> cpSurfaceTokens next' \<noteq> cpSurfaceTokens state)
       else Ok (next'\<lparr>cpClaim := stfClaim fold\<rparr>, True))))"

definition pressureView :: "context_pressure_state \<Rightarrow> context_pressure_projection" where
  "pressureView state =
     \<lparr>cvPressureTokens = cpPressureTokens state,
      cvProjectedTokens =
        (case (cpPressureTokens state, cpSampledSurfaceTokens state) of
           (Some pressure, Some sampledTokens) \<Rightarrow>
             let projected = i64 (i64 (pressure + cpSurfaceTokens state) - sampledTokens) in Some (if projected < 0 then 0 else projected)
         | _ \<Rightarrow> None),
      cvContextWindow = cpContextWindow state\<rparr>"

section \<open>Context composition\<close>

record context_breakdown_state =
  cbSystemTokens :: int
  cbToolsTokens :: int
  cbMessageTokens :: int
  cbClaim :: "shadow_price_claim option"

definition breakdownInit :: context_breakdown_state where
  "breakdownInit = \<lparr>cbSystemTokens = 0, cbToolsTokens = 0, cbMessageTokens = 0, cbClaim = None\<rparr>"

definition envelopeTokens :: "(json \<Rightarrow> nat) \<Rightarrow> context_breakdown_state \<Rightarrow> event \<Rightarrow> (projection_error, int \<times> int) outcome" where
  "envelopeTokens size' state event =
     (if evType event = EventRequestHeader
      then andThen (orPanic (decodeEventPayload dec_request_header zero_request_header event)) (\<lambda>data.
             let canonical = CanonicalHeader (rhHeader data) in
             Ok (EstimateSystemTokens (Some canonical), EstimateToolsTokens size' (Some canonical)))
      else Ok (cbSystemTokens state, cbToolsTokens state))"

definition breakdownApply :: "(json \<Rightarrow> nat) \<Rightarrow> context_breakdown_state \<Rightarrow> event \<Rightarrow> (projection_error, context_breakdown_state \<times> bool) outcome" where
  "breakdownApply size' state event =
     andThen (orPanic (FoldSurfaceTokens size' (cbClaim state) event)) (\<lambda>fold.
     andThen (envelopeTokens size' state event) (\<lambda>(systemTokens, toolsTokens).
       if systemTokens = cbSystemTokens state \<and> toolsTokens = cbToolsTokens state \<and> stfDeltaTokens fold = 0 \<and> stfClaim fold = None \<and> cbClaim state = None
       then Ok (state, False)
       else Ok (\<lparr>cbSystemTokens = systemTokens, cbToolsTokens = toolsTokens, cbMessageTokens = i64 (cbMessageTokens state + stfDeltaTokens fold),
                 cbClaim = stfClaim fold\<rparr>, True)))"

record context_breakdown_projection =
  bvSystemTokens :: int
  bvToolsTokens :: int
  bvMessageTokens :: int

definition breakdownView :: "context_breakdown_state \<Rightarrow> context_breakdown_projection" where
  "breakdownView state = \<lparr>bvSystemTokens = cbSystemTokens state, bvToolsTokens = cbToolsTokens state, bvMessageTokens = cbMessageTokens state\<rparr>"

definition tokenUsageView :: "token_usage_state \<Rightarrow> token_usage_projection" where
  "tokenUsageView state = tuTotals state"

section \<open>The persisted states\<close>

definition enc_buckets :: "token_usage_projection \<Rightarrow> json" where
  "enc_buckets b = JObj (mem ''uncachedInputTokens'' (JInt (tpUncachedInputTokens b)) @ mem ''outputTokens'' (JInt (tpOutputTokens b))
     @ mem ''cacheReadTokens'' (JInt (tpCacheReadTokens b)) @ mem ''cacheWriteTokens'' (JInt (tpCacheWriteTokens b)))"

definition dec_buckets :: "token_usage_projection decoder" where
  "dec_buckets = dec_struct
     [(''uncachedInputTokens'', fld tpUncachedInputTokens tpUncachedInputTokens_update dec_int64),
      (''outputTokens'', fld tpOutputTokens tpOutputTokens_update dec_int64),
      (''cacheReadTokens'', fld tpCacheReadTokens tpCacheReadTokens_update dec_int64),
      (''cacheWriteTokens'', fld tpCacheWriteTokens tpCacheWriteTokens_update dec_int64)]"

definition enc_sample :: "token_usage_sample \<Rightarrow> json" where
  "enc_sample s = JObj (mem ''turn'' (JInt (tsTurn s)) @ mem ''step'' (JInt (tsStep s)) @ mem ''buckets'' (enc_buckets (tsBuckets s)))"

definition dec_sample :: "token_usage_sample decoder" where
  "dec_sample = dec_struct [(''turn'', fld tsTurn tsTurn_update dec_int64), (''step'', fld tsStep tsStep_update dec_int64),
     (''buckets'', fld tsBuckets tsBuckets_update dec_buckets)]"

definition enc_usage_state :: "token_usage_state \<Rightarrow> json" where
  "enc_usage_state st = JObj (mem ''totals'' (enc_buckets (tuTotals st))
     @ mem ''last'' (case tuLast st of None \<Rightarrow> JNull | Some s \<Rightarrow> enc_sample s))"

definition dec_usage_state :: "token_usage_state decoder" where
  "dec_usage_state = dec_struct [(''totals'', fld tuTotals tuTotals_update dec_buckets),
     (''last'', fld tuLast tuLast_update (dec_ptr \<lparr>tsTurn = 0, tsStep = 0, tsBuckets = zero_buckets\<rparr> dec_sample))]"

definition enc_claim :: "shadow_price_claim \<Rightarrow> json" where
  "enc_claim c = JObj (mem ''start'' (JInt (spStart c)) @ mem ''end'' (JInt (spEnd c)) @ mem ''tokens'' (JInt (spTokens c)))"

definition dec_claim :: "shadow_price_claim option decoder" where
  "dec_claim = dec_ptr \<lparr>spStart = 0, spEnd = 0, spTokens = 0\<rparr> (dec_struct [(''start'', fld spStart spStart_update dec_int64),
     (''end'', fld spEnd spEnd_update dec_int64), (''tokens'', fld spTokens spTokens_update dec_int64)])"

definition enc_pressure_state :: "context_pressure_state \<Rightarrow> json" where
  "enc_pressure_state st = JObj (mem_opt ''contextWindow'' (map_option JInt (cpContextWindow st))
     @ mem_opt ''pressureTokens'' (map_option JInt (cpPressureTokens st)) @ mem ''surfaceTokens'' (JInt (cpSurfaceTokens st))
     @ mem_opt ''sampledSurfaceTokens'' (map_option JInt (cpSampledSurfaceTokens st)) @ mem_opt ''claim'' (map_option enc_claim (cpClaim st)))"

definition dec_pressure_state :: "context_pressure_state decoder" where
  "dec_pressure_state = dec_struct
     [(''contextWindow'', fld cpContextWindow cpContextWindow_update (dec_ptr 0 dec_int64)),
      (''pressureTokens'', fld cpPressureTokens cpPressureTokens_update (dec_ptr 0 dec_int64)),
      (''surfaceTokens'', fld cpSurfaceTokens cpSurfaceTokens_update dec_int64),
      (''sampledSurfaceTokens'', fld cpSampledSurfaceTokens cpSampledSurfaceTokens_update (dec_ptr 0 dec_int64)),
      (''claim'', fld cpClaim cpClaim_update dec_claim)]"

definition enc_breakdown_state :: "context_breakdown_state \<Rightarrow> json" where
  "enc_breakdown_state st = JObj (mem ''systemTokens'' (JInt (cbSystemTokens st)) @ mem ''toolsTokens'' (JInt (cbToolsTokens st))
     @ mem ''messageTokens'' (JInt (cbMessageTokens st)) @ mem_opt ''claim'' (map_option enc_claim (cbClaim st)))"

definition dec_breakdown_state :: "context_breakdown_state decoder" where
  "dec_breakdown_state = dec_struct
     [(''systemTokens'', fld cbSystemTokens cbSystemTokens_update dec_int64),
      (''toolsTokens'', fld cbToolsTokens cbToolsTokens_update dec_int64),
      (''messageTokens'', fld cbMessageTokens cbMessageTokens_update dec_int64),
      (''claim'', fld cbClaim cbClaim_update dec_claim)]"

definition decodeJSONState :: "'s decoder \<Rightarrow> 's \<Rightarrow> raw \<Rightarrow> 's option" where
  "decodeJSONState d zero r = unmarshal_ok d zero r"

section \<open>Runs\<close>

text \<open>A unit over a log.\<close>

definition unitRun :: "('s \<Rightarrow> event \<Rightarrow> (projection_error, 's \<times> bool) outcome) \<Rightarrow> 's \<Rightarrow> event list \<Rightarrow> (projection_error, 's) outcome" where
  "unitRun unit = foldM (\<lambda>st e. andThen (unit st e) (\<lambda>(st', changed). Ok st'))"

section \<open>The running surface total\<close>

text \<open>Wrap-around sums: only the last wrap counts.\<close>

lemma i64_add_right: "i64 (a + i64 b) = i64 (a + b)"
  by (simp add: i64_def mod_simps algebra_simps)

lemma i64_diff_left: "i64 (i64 a - b) = i64 (a - b)"
  using i64_add_left [of a "- b"] by simp

lemma i64_diff_right: "i64 (a - i64 b) = i64 (a - b)"
  by (simp add: i64_def mod_simps algebra_simps)

text \<open>The two numbers that both units keep of the surface: the running total and the armed claim.\<close>

definition surface_total_step :: "(json \<Rightarrow> nat) \<Rightarrow> int \<times> shadow_price_claim option \<Rightarrow> event \<Rightarrow> (projection_error, int \<times> shadow_price_claim option) outcome" where
  "surface_total_step size' tc event =
     andThen (FoldSurfaceTokens size' (snd tc) event) (\<lambda>f. Ok (i64 (fst tc + stfDeltaTokens f), stfClaim f))"

definition payload_ok :: "event \<Rightarrow> bool" where
  "payload_ok e \<longleftrightarrow>
     (evType e = EventCompactionSummary \<longrightarrow> unmarshal_ok dec_summary zero_summary (evData e) \<noteq> None)
     \<and> (evType e = EventCompactionPrune \<longrightarrow> unmarshal_ok dec_prune zero_prune (evData e) \<noteq> None)
     \<and> (evType e = EventRequestHeader \<longrightarrow> unmarshal_ok dec_request_header zero_request_header (evData e) \<noteq> None)
     \<and> (evType e = EventRequestCtx \<longrightarrow> unmarshal_ok dec_context zero_context (evData e) \<noteq> None)
     \<and> (evType e = EventAssistantChunk \<longrightarrow> unmarshal_ok dec_chunk_data \<lparr>cdTurn = 0, cdStep = 0, cdChunk = zero_chunk\<rparr> (evData e) \<noteq> None)
     \<and> (evType e = EventAssistantMsg \<longrightarrow> unmarshal_ok dec_assistant zero_assistant (evData e) \<noteq> None)
     \<and> (evType e = EventLlmRetryStarted \<longrightarrow> unmarshal_ok dec_step_data \<lparr>sdTurn = 0, sdStep = 0\<rparr> (evData e) \<noteq> None)"

text \<open>The claim that a metering event arms.\<close>

definition armed :: "event \<Rightarrow> shadow_price_claim option" where
  "armed e =
     (if evType e = EventCompactionSummary
      then map_option (\<lambda>d. \<lparr>spStart = rgStart (cmShadowedRange d), spEnd = rgEnd (cmShadowedRange d), spTokens = cmShadowedTokenCount d\<rparr>)
             (unmarshal_ok dec_summary zero_summary (evData e))
      else if evType e = EventCompactionPrune
      then map_option (\<lambda>d. \<lparr>spStart = rgStart (prShadowedRange d), spEnd = rgEnd (prShadowedRange d), spTokens = prShadowedTokenCount d\<rparr>)
             (unmarshal_ok dec_prune zero_prune (evData e))
      else None)"

definition armed_last :: "event list \<Rightarrow> shadow_price_claim option" where
  "armed_last evs = (if evs = [] then None else armed (last evs))"

lemma armed_last_snoc [simp]: "armed_last (evs @ [e]) = armed e"
  by (simp add: armed_last_def)

lemma metering_off_surface: "\<not> IsSurfaceEventType EventCompactionSummary" "\<not> IsSurfaceEventType EventCompactionPrune"
  by code_simp+

lemma fold_arms:
  assumes "payload_ok e" and "FoldSurfaceTokens size' claim e = Ok f"
  shows "stfClaim f = armed e"
  using assms
  by (auto simp: FoldSurfaceTokens_def payload_ok_def decodeEventPayload_def armed_def metering_off_surface outcome_simps Let_def
      split: if_splits option.splits)

lemma fold_off_surface:
  assumes "payload_ok e" and "\<not> IsSurfaceEventType (evType e)"
  shows "\<exists>f. FoldSurfaceTokens size' claim e = Ok f \<and> stfDeltaTokens f = 0"
  using assms by (auto simp: FoldSurfaceTokens_def payload_ok_def decodeEventPayload_def outcome_simps)

definition surface_price :: "(json \<Rightarrow> nat) \<Rightarrow> event list \<Rightarrow> int list \<Rightarrow> int" where
  "surface_price size' evs seqs = sum_list (map (mnHeuristicTokens \<circ> priced_node size' evs) seqs)"

text \<open>A replacement is metered when the event just before it states its range and the price of what it removes.\<close>

definition metered :: "(json \<Rightarrow> nat) \<Rightarrow> event list \<Rightarrow> surface_fold_replacement \<Rightarrow> bool" where
  "metered size' evs r \<longleftrightarrow> 0 < rpSeq r
     \<and> armed (evs ! nat (rpSeq r - 1)) = Some \<lparr>spStart = rpStart r, spEnd = rpEnd r,
         spTokens = i64 (surface_price size' evs (rpShadowedSeqs r))\<rparr>"

lemma surface_price_append: "surface_price size' evs (xs @ ys) = surface_price size' evs xs + surface_price size' evs ys"
  by (simp add: surface_price_def)

lemma surface_price_grow:
  assumes "\<forall>x \<in> set seqs. 0 \<le> x \<and> x < int (length evs)"
  shows "surface_price size' (evs @ ys) seqs = surface_price size' evs seqs"
  unfolding surface_price_def using assms
  by (intro arg_cong [of _ _ sum_list] map_cong) (auto simp: priced_node_def deriveNode_def nth_append nat_less_iff)

lemma surface_price_new:
  "surface_price size' (evs @ [e]) [int (length evs)] = (case DeriveEventMessage e of None \<Rightarrow> 0 | Some m \<Rightarrow> EstimateMessage size' m)"
  by (simp add: surface_price_def priced_node_new analyzeNode_def Let_def split: option.split prod.split)

lemma metered_append:
  assumes "replacement_sound evs r"
  shows "metered size' (evs @ ys) r \<longleftrightarrow> metered size' evs r"
proof -
  have b: "\<forall>x \<in> set (rpShadowedSeqs r). 0 \<le> x \<and> x < int (length evs)" "rpSeq r < int (length evs)"
    using assms by (fastforce simp: replacement_sound_def)+
  show ?thesis
    using surface_price_grow [OF b(1), of size' ys] b(2) by (auto simp: metered_def nth_append nat_less_iff)
qed

lemma surface_total_exact:
  assumes "surface_run evs = Ok (ss, rs)" and "\<forall>e \<in> set evs. payload_ok e" and "\<forall>r \<in> set rs. metered size' evs r"
  shows "foldM (surface_total_step size') (0, None) evs = Ok (i64 (surface_price size' evs (ssNodes ss)), armed_last evs)"
  using assms
proof (induction rule: surface_run_induct)
  case empty
  then show ?case by (simp add: surface_price_def empty_state_def armed_last_def)
next
  case (step evs e ss rs p ss' r)
  have ok: "payload_ok e" "\<forall>e \<in> set evs. payload_ok e" using step.prems(1) by auto
  have "\<forall>x \<in> set rs. metered size' evs x"
    using run_replacements_within [OF step.hyps(1)] step.prems(2) by (auto simp: metered_append split: option.splits)
  then have IH: "foldM (surface_total_step size') (0, None) evs = Ok (i64 (surface_price size' evs (ssNodes ss)), armed_last evs)"
    using step.IH ok(2) by simp
  have within: "\<forall>x \<in> set (ssNodes ss). 0 \<le> x \<and> x < int (length evs)" using step.hyps(2) by (auto simp: surface_ok_def)
  have goal: ?case if "FoldSurfaceTokens size' (armed_last evs) e = Ok f"
    "i64 (surface_price size' evs (ssNodes ss) + stfDeltaTokens f) = i64 (surface_price size' (evs @ [e]) (ssNodes ss'))" for f
    using that IH fold_arms [OF ok(1) that(1)]
    by (simp add: foldM_append surface_total_step_def [of size' "(i64 (surface_price size' evs (ssNodes ss)), armed_last evs)"] i64_add_left)
  show ?case
    using step.hyps(3)
  proof (cases rule: planSurfaceEvent_cases)
    case none
    obtain f where "FoldSurfaceTokens size' (armed_last evs) e = Ok f" "stfDeltaTokens f = 0"
      using fold_off_surface [OF ok(1) none(2)] by blast
    then show ?thesis
      using none(3) step.hyps(4) within by (intro goal [of f]) (auto simp: applySurfacePlan_def surface_price_grow)
  next
    case (app o')
    let ?t = "case DeriveEventMessage e of None \<Rightarrow> 0 | Some m \<Rightarrow> EstimateMessage size' m"
    have "FoldSurfaceTokens size' (armed_last evs) e = Ok \<lparr>stfDeltaTokens = ?t, stfClaim = None\<rparr>"
      using app metering_off_surface by (auto simp: FoldSurfaceTokens_def Let_def)
    moreover have "ssNodes ss' = ssNodes ss @ [int (length evs)]" using app(5) step.hyps(4) by (auto simp: applySurfacePlan_def)
    ultimately show ?thesis
      by (intro goal) (auto simp: surface_price_append surface_price_grow [OF within] surface_price_new)
  next
    case (rep o' s t sh)
    let ?t = "case DeriveEventMessage e of None \<Rightarrow> 0 | Some m \<Rightarrow> EstimateMessage size' m"
    note range = replacementRange_Ok [OF rep(6)] and ap = apply_replace [OF rep(6)]
    let ?r = "\<lparr>rpSeq = int (length evs), rpStart = opStart o', rpEnd = opEnd o', rpShadowedSeqs = sh\<rparr>"
    have r: "r = Some ?r" "ssNodes ss' = take s (ssNodes ss) @ [int (length evs)] @ drop (s + length sh) (ssNodes ss)"
      using ap(1) step.hyps(4) rep(5) by (auto simp: splice_list_def)
    have parts: "\<forall>x \<in> set (take s (ssNodes ss)). 0 \<le> x \<and> x < int (length evs)"
      "\<forall>x \<in> set (drop (s + length sh) (ssNodes ss)). 0 \<le> x \<and> x < int (length evs)" "\<forall>x \<in> set sh. 0 \<le> x \<and> x < int (length evs)"
      using within range(5) by (auto dest: in_set_takeD in_set_dropD)
    have before: "nat (int (length evs) - 1) = length evs - 1" by linarith
    have "metered size' (evs @ [e]) ?r" using step.prems(2) r(1) by simp
    then have m: "evs \<noteq> []" "armed_last evs = Some \<lparr>spStart = opStart o', spEnd = opEnd o', spTokens = i64 (surface_price size' evs sh)\<rparr>"
      using surface_price_grow [OF parts(3), of size' "[e]"]
      by (auto simp: metered_def armed_last_def nth_append last_conv_nth before)
    have f: "FoldSurfaceTokens size' (armed_last evs) e = Ok \<lparr>stfDeltaTokens = i64 (?t - surface_price size' evs sh), stfClaim = None\<rparr>"
      using rep(2-4) metering_off_surface by (auto simp: FoldSurfaceTokens_def Let_def m(2) SurfaceAppend_def SurfaceReplace_def i64_diff_right)
    have old: "surface_price size' evs (ssNodes ss) = surface_price size' evs (take s (ssNodes ss)) + surface_price size' evs sh
        + surface_price size' evs (drop (s + length sh) (ssNodes ss))"
      by (subst ap(2)) (simp add: surface_price_append)
    have new: "surface_price size' (evs @ [e]) (ssNodes ss') = surface_price size' evs (take s (ssNodes ss)) + ?t
        + surface_price size' evs (drop (s + length sh) (ssNodes ss))"
      unfolding r(2) surface_price_append surface_price_new using parts by (simp add: surface_price_grow)
    show ?thesis by (rule goal [OF f]) (simp only: old new surface_tokens_fold.simps i64_add_right, simp add: algebra_simps)
  qed
qed

section \<open>The units follow the surface\<close>

lemma andThen_Ok_right [simp]: "andThen r Ok = r"
  by (cases r) simp_all

lemma unitRun_snoc:
  "unitRun unit s0 (evs @ [e]) = andThen (unitRun unit s0 evs) (\<lambda>st. andThen (unit st e) (\<lambda>(st', changed). Ok st'))"
  by (simp add: unitRun_def foldM_append)

text \<open>The interface of a unit that follows the surface: its state agrees with the running total before the first event and after every
  step, and it takes every step that the total takes.\<close>

locale surface_unit =
  fixes size' :: "json \<Rightarrow> nat" and unit :: "'s \<Rightarrow> event \<Rightarrow> (projection_error, 's \<times> bool) outcome" and s0 :: 's
    and follows :: "event list \<Rightarrow> 's \<Rightarrow> int \<times> shadow_price_claim option \<Rightarrow> bool"
  assumes follows_start: "follows [] s0 (0, None)"
    and follows_step: "foldM (surface_total_step size') (0, None) evs = Ok tc \<Longrightarrow> follows evs st tc \<Longrightarrow> payload_ok e \<Longrightarrow>
      surface_total_step size' tc e = Ok tc' \<Longrightarrow> \<exists>st' changed. unit st e = Ok (st', changed) \<and> follows (evs @ [e]) st' tc'"
begin

lemma follows_log:
  "\<forall>e \<in> set evs. payload_ok e \<Longrightarrow> foldM (surface_total_step size') (0, None) evs = Ok tc \<Longrightarrow>
     \<exists>st. unitRun unit s0 evs = Ok st \<and> follows evs st tc"
proof (induction evs arbitrary: tc rule: rev_induct)
  case Nil
  then show ?case using follows_start by (simp add: unitRun_def)
next
  case (snoc e evs)
  then obtain tc0 where tc0: "foldM (surface_total_step size') (0, None) evs = Ok tc0" "surface_total_step size' tc0 e = Ok tc"
    by (auto simp: foldM_append outcome_simps)
  then obtain st where st: "unitRun unit s0 evs = Ok st" "follows evs st tc0" using snoc by auto
  then obtain st' ch where "unit st e = Ok (st', ch)" "follows (evs @ [e]) st' tc"
    using follows_step [OF tc0(1) st(2) _ tc0(2)] snoc.prems(1) by auto
  then show ?case using st(1) by (simp add: unitRun_snoc)
qed

end

lemma surface_total_step_Ok:
  assumes "surface_total_step size' tc e = Ok tc'"
  obtains f where "FoldSurfaceTokens size' (snd tc) e = Ok f" "tc' = (i64 (fst tc + stfDeltaTokens f), stfClaim f)"
  using assms by (auto simp: surface_total_step_def outcome_simps)

lemma surface_total_in_i64: "foldM (surface_total_step size') (0, None) evs = Ok tc \<Longrightarrow> in_i64 (fst tc)"
  by (erule foldM_invariant [where I = "\<lambda>tc. in_i64 (fst tc)"]) (auto elim: surface_total_step_Ok)

lemma EstimateSystem_None [simp]: "EstimateSystemTokens None = 0" "EstimateToolsTokens size' None = 0"
  by (simp_all add: EstimateSystemTokens_def EstimateToolsTokens_def)

definition breakdown_follows :: "(json \<Rightarrow> nat) \<Rightarrow> event list \<Rightarrow> context_breakdown_state \<Rightarrow> int \<times> shadow_price_claim option \<Rightarrow> bool" where
  "breakdown_follows size' evs st tc \<longleftrightarrow> cbMessageTokens st = fst tc \<and> cbClaim st = snd tc
     \<and> cbSystemTokens st = EstimateSystemTokens (FoldRequestHeader evs None)
     \<and> cbToolsTokens st = EstimateToolsTokens size' (FoldRequestHeader evs None)"

lemma envelopeTokens_follow:
  assumes "payload_ok e" and "cbSystemTokens st = EstimateSystemTokens h" and "cbToolsTokens st = EstimateToolsTokens size' h"
  shows "envelopeTokens size' st e = Ok (EstimateSystemTokens (headerStep h e), EstimateToolsTokens size' (headerStep h e))"
  using assms
  by (auto simp: envelopeTokens_def headerStep_def payload_ok_def decodeEventPayload_def orPanic_def Let_def)

lemma FoldRequestHeader_snoc: "FoldRequestHeader (evs @ [e]) h = headerStep (FoldRequestHeader evs h) e"
  by (simp add: FoldRequestHeader_def)

lemma breakdown_step:
  assumes "in_i64 (fst tc)" and "breakdown_follows size' evs st tc" and "payload_ok e" and "surface_total_step size' tc e = Ok tc'"
  shows "\<exists>st' changed. breakdownApply size' st e = Ok (st', changed) \<and> breakdown_follows size' (evs @ [e]) st' tc'"
proof -
  obtain f where f: "FoldSurfaceTokens size' (snd tc) e = Ok f" "tc' = (i64 (fst tc + stfDeltaTokens f), stfClaim f)"
    by (rule surface_total_step_Ok [OF assms(4)])
  have env: "envelopeTokens size' st e = Ok (EstimateSystemTokens (headerStep (FoldRequestHeader evs None) e),
      EstimateToolsTokens size' (headerStep (FoldRequestHeader evs None) e))"
    using assms(2) by (intro envelopeTokens_follow [OF assms(3)]) (simp_all add: breakdown_follows_def)
  show ?thesis
    using assms(1,2) f by (auto simp: breakdownApply_def env breakdown_follows_def orPanic_def FoldRequestHeader_snoc)
qed

interpretation composition: surface_unit size' "breakdownApply size'" breakdownInit "breakdown_follows size'" for size'
proof unfold_locales
  show "breakdown_follows size' [] breakdownInit (0, None)"
    by (simp add: breakdown_follows_def breakdownInit_def FoldRequestHeader_def)
qed (rule breakdown_step [OF surface_total_in_i64])


section \<open>The occupancy\<close>

definition usage_at :: "event \<Rightarrow> token_usage_sample option" where
  "usage_at e = (case usageOf e of Ok u \<Rightarrow> u | _ \<Rightarrow> None)"

lemma usageOf_ok: "payload_ok e \<Longrightarrow> usageOf e = Ok (usage_at e)"
  by (auto simp: usageOf_def usage_at_def payload_ok_def decodeEventPayload_def orPanic_def)

definition prompt_tokens :: "token_usage_sample \<Rightarrow> int" where
  "prompt_tokens u = i64 (tpUncachedInputTokens (tsBuckets u) + tpCacheReadTokens (tsBuckets u) + tpCacheWriteTokens (tsBuckets u))"

text \<open>The last usage report of a log, with the log before it.\<close>

fun last_report :: "event list \<Rightarrow> (event list \<times> token_usage_sample) option" where
  "last_report evs =
     (if evs = [] then None
      else case usage_at (last evs) of Some u \<Rightarrow> Some (butlast evs, u) | None \<Rightarrow> last_report (butlast evs))"

declare last_report.simps [simp del]

lemma last_report_simps [simp]:
  "last_report [] = None"
  "last_report (evs @ [e]) = (case usage_at e of Some u \<Rightarrow> Some (evs, u) | None \<Rightarrow> last_report evs)"
  by (simp_all add: last_report.simps [of "[]"] last_report.simps [of "evs @ [e]"] split: option.split)

lemma last_report_prefix: "last_report evs = Some (before, u) \<Longrightarrow> \<exists>ys. evs = before @ ys"
proof (induction evs rule: rev_induct)
  case (snoc e evs)
  then show ?case by (auto split: option.splits)
qed simp

definition pressure_follows :: "(json \<Rightarrow> nat) \<Rightarrow> event list \<Rightarrow> context_pressure_state \<Rightarrow> int \<times> shadow_price_claim option \<Rightarrow> bool" where
  "pressure_follows size' evs st tc \<longleftrightarrow> cpSurfaceTokens st = fst tc \<and> cpClaim st = snd tc
     \<and> cpContextWindow st = (case foldl contextStep None evs of None \<Rightarrow> None | Some c \<Rightarrow> rcContextWindow c)
     \<and> cpPressureTokens st = map_option (prompt_tokens \<circ> snd) (last_report evs)
     \<and> (case last_report evs of
          None \<Rightarrow> cpSampledSurfaceTokens st = None
        | Some (before, u) \<Rightarrow> \<exists>t c. foldM (surface_total_step size') (0, None) before = Ok (t, c) \<and> cpSampledSurfaceTokens st = Some t)"

lemma prompt_tokens_nested:
  "i64 (i64 (tpUncachedInputTokens (tsBuckets u) + tpCacheReadTokens (tsBuckets u)) + tpCacheWriteTokens (tsBuckets u)) = prompt_tokens u"
  by (simp add: prompt_tokens_def i64_add_left)

lemma withContext_follow:
  assumes "payload_ok e" and "cpContextWindow st = (case c of None \<Rightarrow> None | Some c \<Rightarrow> rcContextWindow c)"
  shows "withContext st e = Ok (st\<lparr>cpContextWindow := (case contextStep c e of None \<Rightarrow> None | Some c \<Rightarrow> rcContextWindow c)\<rparr>)"
  using assms by (auto simp: withContext_def contextStep_def payload_ok_def decodeEventPayload_def orPanic_def)

lemma withSample_parts:
  assumes "withSample st u = (st', ch)"
  shows "cpSurfaceTokens st' = cpSurfaceTokens st \<and> cpClaim st' = cpClaim st \<and> cpContextWindow st' = cpContextWindow st
     \<and> cpPressureTokens st' = (case u of None \<Rightarrow> cpPressureTokens st | Some u \<Rightarrow> Some (prompt_tokens u))
     \<and> (u = None \<longrightarrow> cpSampledSurfaceTokens st' = cpSampledSurfaceTokens st)
     \<and> (u \<noteq> None \<longrightarrow> (cpPressureTokens st \<noteq> None \<longrightarrow> cpSampledSurfaceTokens st \<noteq> None) \<longrightarrow> cpSampledSurfaceTokens st' = Some (cpSurfaceTokens st))"
  using assms
  by (auto simp: withSample_def prompt_tokens_nested Let_def optionalTokens_def split: option.splits if_splits)

lemma pressure_step:
  assumes total: "foldM (surface_total_step size') (0, None) evs = Ok tc" and P: "pressure_follows size' evs st tc"
    and ok: "payload_ok e" and step: "surface_total_step size' tc e = Ok tc'"
  shows "\<exists>st' changed. pressureApply size' st e = Ok (st', changed) \<and> pressure_follows size' (evs @ [e]) st' tc'"
proof -
  obtain f where f: "FoldSurfaceTokens size' (snd tc) e = Ok f" "tc' = (i64 (fst tc + stfDeltaTokens f), stfClaim f)"
    by (rule surface_total_step_Ok [OF step])
  let ?st1 = "st\<lparr>cpContextWindow := (case foldl contextStep None (evs @ [e]) of None \<Rightarrow> None | Some c \<Rightarrow> rcContextWindow c)\<rparr>"
  have w: "withContext st e = Ok ?st1"
    using withContext_follow [OF ok, of st "foldl contextStep None evs"] P by (simp add: pressure_follows_def)
  obtain st2 ch where s: "withSample ?st1 (usage_at e) = (st2, ch)" by (cases "withSample ?st1 (usage_at e)")
  have sampled: "cpPressureTokens st \<noteq> None \<longrightarrow> cpSampledSurfaceTokens st \<noteq> None"
    using P by (auto simp: pressure_follows_def split: option.splits)
  let ?st3 = "if stfDeltaTokens f \<noteq> 0 then st2\<lparr>cpSurfaceTokens := i64 (cpSurfaceTokens st2 + stfDeltaTokens f)\<rparr> else st2"
  have P2: "pressure_follows size' (evs @ [e]) (?st3\<lparr>cpClaim := stfClaim f\<rparr>) tc'"
    using P total sampled withSample_parts [OF s] surface_total_in_i64 [OF total] f(2)
    by (cases tc) (auto simp: pressure_follows_def split: option.splits)
  have "?st3\<lparr>cpClaim := stfClaim f\<rparr> = ?st3" if "cpClaim st = None" "stfClaim f = None"
    using that withSample_parts [OF s] by auto
  then show ?thesis
    using P P2 f(1) w s by (auto simp: pressureApply_def orPanic_def usageOf_ok [OF ok] Let_def pressure_follows_def [of size' evs])
qed

interpretation occupancy: surface_unit size' "pressureApply size'" pressureInit "pressure_follows size'" for size'
proof unfold_locales
  show "pressure_follows size' [] pressureInit (0, None)" by (simp add: pressure_follows_def pressureInit_def)
qed (rule pressure_step)

lemma surface_run_grows:
  "surface_run (evs @ ys) = Ok (ss', rs') \<Longrightarrow> \<exists>ss rs. surface_run evs = Ok (ss, rs) \<and> set rs \<subseteq> set rs'"
proof (induction ys arbitrary: ss' rs' rule: rev_induct)
  case (snoc y ys)
  then obtain ss0 rs0 where r0: "surface_run (evs @ ys) = Ok (ss0, rs0)"
    using surface_run_prefix [of "evs @ ys" "[y]"] by fastforce
  from snoc.prems have "surface_run ((evs @ ys) @ [y]) = Ok (ss', rs')" by simp
  then have "set rs0 \<subseteq> set rs'"
    unfolding surface_run_snoc [OF r0] by (auto simp: outcome_simps split: option.splits prod.splits)
  then show ?case using snoc.IH [OF r0] by blast
qed simp

lemma metered_replay:
  assumes "FoldSurface (evs @ ys) = Ok res" and "\<forall>e \<in> set (evs @ ys). payload_ok e"
    and "\<forall>r \<in> set (sfReplacements res). metered size' (evs @ ys) r"
  obtains res0 where "FoldSurface evs = Ok res0"
    "foldM (surface_total_step size') (0, None) evs = Ok (i64 (surface_price size' evs (sfNodes res0)), armed_last evs)"
proof -
  obtain ss' where "surface_run (evs @ ys) = Ok (ss', sfReplacements res)" using assms(1) by (auto simp: FoldSurface_run)
  then obtain ss rs where run: "surface_run evs = Ok (ss, rs)" "set rs \<subseteq> set (sfReplacements res)" using surface_run_grows by blast
  then have "\<forall>r \<in> set rs. metered size' evs r"
    using assms(3) run_replacements_within [OF run(1)] metered_append by blast
  then show ?thesis
    using that [of "\<lparr>sfNodes = ssNodes ss, sfReplacements = rs\<rparr>"] run(1) surface_total_exact [OF run(1)] assms(2) by (simp add: FoldSurface_run)
qed

text \<open>C24: The context-occupancy projection is anchored to the provider: with every replacement metered, the unit never panics; it shows the
  prompt size of the last usage report, and as projected size that prompt plus the heuristic price of the surface now less its price
  just before that report, never below zero; the window is that of the last request context.\<close>

theorem context_pressure_exact:
  assumes "FoldSurface evs = Ok res" and "\<forall>e \<in> set evs. payload_ok e" and "\<forall>r \<in> set (sfReplacements res). metered size' evs r"
  shows "\<exists>st. unitRun (pressureApply size') pressureInit evs = Ok st
     \<and> cvContextWindow (pressureView st) = (case foldl contextStep None evs of None \<Rightarrow> None | Some c \<Rightarrow> rcContextWindow c)
     \<and> (case last_report evs of
          None \<Rightarrow> cvPressureTokens (pressureView st) = None \<and> cvProjectedTokens (pressureView st) = None
        | Some (before, u) \<Rightarrow> cvPressureTokens (pressureView st) = Some (prompt_tokens u)
            \<and> (\<exists>res0. FoldSurface before = Ok res0 \<and> cvProjectedTokens (pressureView st)
                 = Some (max 0 (i64 (prompt_tokens u + surface_price size' evs (sfNodes res) - surface_price size' before (sfNodes res0))))))"
proof -
  have total: "foldM (surface_total_step size') (0, None) evs = Ok (i64 (surface_price size' evs (sfNodes res)), armed_last evs)"
    by (rule metered_replay [of evs "[]" res size']) (use assms in simp_all)
  have "\<exists>st. unitRun (pressureApply size') pressureInit evs = Ok st
      \<and> pressure_follows size' evs st (i64 (surface_price size' evs (sfNodes res)), armed_last evs)"
    by (rule occupancy.follows_log [OF assms(2) total])
  then obtain st where st: "unitRun (pressureApply size') pressureInit evs = Ok st"
    "pressure_follows size' evs st (i64 (surface_price size' evs (sfNodes res)), armed_last evs)" by blast
  show ?thesis
  proof (cases "last_report evs")
    case None
    then show ?thesis using st by (simp add: pressure_follows_def pressureView_def)
  next
    case (Some bu)
    obtain before u where bu: "bu = (before, u)" by (cases bu)
    obtain ys where ys: "evs = before @ ys" using last_report_prefix Some bu by blast
    obtain res0 where res0: "FoldSurface before = Ok res0"
      "foldM (surface_total_step size') (0, None) before = Ok (i64 (surface_price size' before (sfNodes res0)), armed_last before)"
      using metered_replay [of before ys res size'] assms unfolding ys by blast
    have wrap: "i64 (i64 (p + i64 a) - i64 b) = i64 (p + a - b)" for p a b
      by (simp only: i64_add_right i64_diff_left i64_diff_right)
    show ?thesis
      using st Some bu res0 by (auto simp: pressure_follows_def pressureView_def Let_def max_def wrap)
  qed
qed

section \<open>Every attempt once\<close>

text \<open>The reference: the samples of the attempts that are over, and the open one.  A report for the step of the open attempt replaces its
  sample, any other report opens an attempt; a started retry ends the attempt of its step.\<close>

definition attempt_step :: "token_usage_sample list \<times> token_usage_sample option \<Rightarrow> event \<Rightarrow> token_usage_sample list \<times> token_usage_sample option" where
  "attempt_step = (\<lambda>(over, running) e.
     if evType e = EventLlmRetryStarted
     then (case (running, unmarshal_ok dec_step_data \<lparr>sdTurn = 0, sdStep = 0\<rparr> (evData e)) of
             (Some s, Some d) \<Rightarrow> if tsTurn s = sdTurn d \<and> tsStep s = sdStep d then (over @ [s], None) else (over, running)
           | _ \<Rightarrow> (over, running))
     else (case usage_at e of
             None \<Rightarrow> (over, running)
           | Some u \<Rightarrow>
               (case running of
                  Some s \<Rightarrow> if tsTurn s = tsTurn u \<and> tsStep s = tsStep u then (over, Some u) else (over @ [s], Some u)
                | None \<Rightarrow> (over, Some u))))"

definition attempt_samples :: "event list \<Rightarrow> token_usage_sample list" where
  "attempt_samples evs = (let (over, running) = foldl attempt_step ([], None) evs in over @ (case running of None \<Rightarrow> [] | Some s \<Rightarrow> [s]))"

definition bucket_sum :: "token_usage_sample list \<Rightarrow> token_usage_projection" where
  "bucket_sum ss =
     \<lparr>tpUncachedInputTokens = i64 (sum_list (map (tpUncachedInputTokens \<circ> tsBuckets) ss)),
      tpOutputTokens = i64 (sum_list (map (tpOutputTokens \<circ> tsBuckets) ss)),
      tpCacheReadTokens = i64 (sum_list (map (tpCacheReadTokens \<circ> tsBuckets) ss)),
      tpCacheWriteTokens = i64 (sum_list (map (tpCacheWriteTokens \<circ> tsBuckets) ss))\<rparr>"

lemma bucket_sum_add: "addBuckets (bucket_sum ss) (tsBuckets u) = bucket_sum (ss @ [u])"
  by (simp add: addBuckets_def bucket_sum_def i64_add_left)

lemma bucket_sum_replace: "addBuckets (subtractBuckets (bucket_sum (ss @ [s])) (tsBuckets s)) (tsBuckets u) = bucket_sum (ss @ [u])"
  by (simp add: addBuckets_def subtractBuckets_def bucket_sum_def i64_diff_left i64_add_left)

definition usage_follows :: "token_usage_sample list \<times> token_usage_sample option \<Rightarrow> token_usage_state \<Rightarrow> bool" where
  "usage_follows os st \<longleftrightarrow> tuLast st = snd os \<and> tuTotals st = bucket_sum (fst os @ (case snd os of None \<Rightarrow> [] | Some s \<Rightarrow> [s]))"

lemma sample_eqI: "tsTurn s = tsTurn u \<Longrightarrow> tsStep s = tsStep u \<Longrightarrow> tsBuckets s = tsBuckets u \<Longrightarrow> s = (u :: token_usage_sample)"
  by (cases s; cases u) simp

lemma usage_step:
  assumes "usage_follows os st" and "payload_ok e"
  shows "\<exists>st' changed. tokenUsageApply st e = Ok (st', changed) \<and> usage_follows (attempt_step os e) st'"
proof -
  obtain over running where os: "os = (over, running)" by (cases os)
  show ?thesis
  proof (cases "evType e = EventLlmRetryStarted")
    case True
    then obtain d where d: "unmarshal_ok dec_step_data \<lparr>sdTurn = 0, sdStep = 0\<rparr> (evData e) = Some d"
      using assms(2) by (auto simp: payload_ok_def)
    then show ?thesis
      using True assms(1)
      by (cases running) (auto simp: os tokenUsageApply_def decodeEventPayload_def orPanic_def usage_follows_def attempt_step_def sameStep_def)
  next
    case False
    show ?thesis
    proof (cases "usage_at e")
      case None
      then show ?thesis using False assms(1) by (auto simp: os tokenUsageApply_def usageOf_ok [OF assms(2)] attempt_step_def)
    next
      case (Some u)
      show ?thesis
        using False Some assms(1) bucket_sum_add [of "over @ (case running of None \<Rightarrow> [] | Some s \<Rightarrow> [s])" u] bucket_sum_replace [of over _ u]
        by (cases running)
          (auto simp: os tokenUsageApply_def usageOf_ok [OF assms(2)] attempt_step_def sameStep_def usage_follows_def addReplacing_def Let_def
            dest: sample_eqI)
    qed
  qed
qed

text \<open>C25: The usage projection counts every attempt once: its totals are the sums of the final samples of the attempts of the whole log,
  though it keeps only the last sample.\<close>

theorem token_usage_counts_attempts:
  assumes "\<forall>e \<in> set evs. payload_ok e"
  shows "\<exists>st. unitRun tokenUsageApply tokenUsageInit evs = Ok st \<and> tuTotals st = bucket_sum (attempt_samples evs)"
proof -
  have "\<exists>st. unitRun tokenUsageApply tokenUsageInit evs = Ok st \<and> usage_follows (foldl attempt_step ([], None) evs) st"
    using assms
  proof (induction evs rule: rev_induct)
    case Nil
    then show ?case by (simp add: unitRun_def usage_follows_def tokenUsageInit_def bucket_sum_def zero_buckets_def)
  next
    case (snoc e evs)
    then obtain st where st: "unitRun tokenUsageApply tokenUsageInit evs = Ok st" "usage_follows (foldl attempt_step ([], None) evs) st" by auto
    then show ?case using usage_step [OF st(2), of e] snoc.prems by (auto simp: unitRun_snoc)
  qed
  then show ?thesis by (auto simp: usage_follows_def attempt_samples_def split: prod.split)
qed

definition demo_projected :: "event list" where
  "demo_projected =
     [demo_user 0, demo_user 1,
      zero_event\<lparr>evType := EventAssistantChunk, evSeq := 2, evData := Some (JObj [(''turn'', JInt 1), (''step'', JInt 2),
        (''chunk'', JObj [(''type'', JStr ''usage''),
          (''usage'', JObj [(''inputTokens'', JInt 10), (''outputTokens'', JInt 5), (''cacheReadTokens'', JInt 3)])])])\<rparr>,
      zero_event\<lparr>evType := EventLlmRetryStarted, evSeq := 3, evData := Some (JObj [(''turn'', JInt 1), (''step'', JInt 2)])\<rparr>,
      zero_event\<lparr>evType := EventAssistantChunk, evSeq := 4, evData := Some (JObj [(''turn'', JInt 1), (''step'', JInt 2),
        (''chunk'', JObj [(''type'', JStr ''usage''),
          (''usage'', JObj [(''inputTokens'', JInt 20), (''outputTokens'', JInt 5)])])])\<rparr>,
      zero_event\<lparr>evType := EventCompactionPrune, evSeq := 5, evData := Some (JObj [(''shadowedRange'', JObj [(''start'', JInt 0), (''end'', JInt 1)]),
        (''shadowedTokenCount'', JInt 8)])\<rparr>,
      demo_replace 6 0 1 [0, 1]]"

lemma demo_projected_fold:
  "FoldSurface demo_projected = Ok \<lparr>sfNodes = [6], sfReplacements = [\<lparr>rpSeq = 6, rpStart = 0, rpEnd = 1, rpShadowedSeqs = [0, 1]\<rparr>]\<rparr>"
  by code_simp

lemma demo_projected_payloads: "\<forall>e \<in> set demo_projected. payload_ok e"
  by code_simp

lemma demo_projected_metered: "metered (\<lambda>_. 2) demo_projected \<lparr>rpSeq = 6, rpStart = 0, rpEnd = 1, rpShadowedSeqs = [0, 1]\<rparr>"
  by code_simp


theorem context_pressure_exact_witness:
  "\<exists>st. unitRun (pressureApply (\<lambda>_. 2)) pressureInit demo_projected = Ok st \<and> cvPressureTokens (pressureView st) = Some 20"
proof -
  have "map_option (prompt_tokens \<circ> snd) (last_report demo_projected) = Some 20" by code_simp
  then show ?thesis
    using context_pressure_exact [OF demo_projected_fold demo_projected_payloads, of "\<lambda>_. 2"] demo_projected_metered by (auto split: option.splits)
qed

theorem token_usage_counts_attempts_witness:
  "\<exists>st. unitRun tokenUsageApply tokenUsageInit demo_projected = Ok st
     \<and> tuTotals st = \<lparr>tpUncachedInputTokens = 30, tpOutputTokens = 10, tpCacheReadTokens = 3, tpCacheWriteTokens = 0\<rparr>"
proof -
  have "bucket_sum (attempt_samples demo_projected) = \<lparr>tpUncachedInputTokens = 30, tpOutputTokens = 10, tpCacheReadTokens = 3, tpCacheWriteTokens = 0\<rparr>"
    by code_simp
  then show ?thesis using token_usage_counts_attempts [OF demo_projected_payloads] by auto
qed

section \<open>Checkpoints\<close>

lemmas checkpoint_defs = dec_struct_def find_field_def fld_def dec_int64_def mem_defs Let_def

definition buckets_in_i64 :: "token_usage_projection \<Rightarrow> bool" where
  "buckets_in_i64 b \<longleftrightarrow> in_i64 (tpUncachedInputTokens b) \<and> in_i64 (tpOutputTokens b) \<and> in_i64 (tpCacheReadTokens b) \<and> in_i64 (tpCacheWriteTokens b)"

definition claim_in_i64 :: "shadow_price_claim option \<Rightarrow> bool" where
  "claim_in_i64 c \<longleftrightarrow> (case c of None \<Rightarrow> True | Some c \<Rightarrow> in_i64 (spStart c) \<and> in_i64 (spEnd c) \<and> in_i64 (spTokens c))"

lemma buckets_roundtrip: "buckets_in_i64 b \<Longrightarrow> dec_buckets v (enc_buckets b) = (b, True)"
  by (cases b; cases v) (simp add: buckets_in_i64_def dec_buckets_def enc_buckets_def checkpoint_defs)

lemma sample_roundtrip:
  "in_i64 (tsTurn s) \<Longrightarrow> in_i64 (tsStep s) \<Longrightarrow> buckets_in_i64 (tsBuckets s) \<Longrightarrow> dec_ptr zero dec_sample v (enc_sample s) = (Some s, True)"
  by (cases s) (auto simp: dec_ptr_def dec_sample_def enc_sample_def checkpoint_defs buckets_roundtrip split: option.split)

lemma claim_roundtrip: "claim_in_i64 (Some c) \<Longrightarrow> dec_claim v (enc_claim c) = (Some c, True)"
  by (cases c; cases v) (auto simp: claim_in_i64_def dec_claim_def dec_ptr_def enc_claim_def checkpoint_defs)

lemma int_ptr_roundtrip: "in_i64 n \<Longrightarrow> dec_ptr 0 dec_int64 v (JInt n) = (Some n, True)"
  by (simp add: dec_ptr_def dec_int64_def)

text \<open>Every checkpointed state is read back as it was written.\<close>

lemma usage_state_roundtrip:
  assumes "buckets_in_i64 (tuTotals st)"
    and "\<forall>s. tuLast st = Some s \<longrightarrow> in_i64 (tsTurn s) \<and> in_i64 (tsStep s) \<and> buckets_in_i64 (tsBuckets s)"
  shows "decodeJSONState dec_usage_state tokenUsageInit (Some (enc_usage_state st)) = Some st"
  using assms
  by (cases st; cases "tuLast st")
    (auto simp: decodeJSONState_def unmarshal_ok_def unmarshal_def dec_usage_state_def enc_usage_state_def checkpoint_defs buckets_roundtrip
      sample_roundtrip tokenUsageInit_def dec_ptr_def [of _ _ _ JNull])

lemma pressure_state_roundtrip:
  assumes "in_i64 (cpSurfaceTokens st)" and "claim_in_i64 (cpClaim st)"
    and "\<forall>n \<in> set_option (cpContextWindow st) \<union> set_option (cpPressureTokens st) \<union> set_option (cpSampledSurfaceTokens st). in_i64 n"
  shows "decodeJSONState dec_pressure_state pressureInit (Some (enc_pressure_state st)) = Some st"
proof -
  obtain a b c d e where st: "st = \<lparr>cpContextWindow = a, cpPressureTokens = b, cpSurfaceTokens = c, cpSampledSurfaceTokens = d, cpClaim = e\<rparr>" by (cases st)
  show ?thesis
    using assms unfolding st
    by (cases a; cases b; cases d; cases e)
      (simp_all add: decodeJSONState_def unmarshal_ok_def unmarshal_def dec_pressure_state_def enc_pressure_state_def checkpoint_defs
        claim_roundtrip int_ptr_roundtrip pressureInit_def)
qed

lemma breakdown_state_roundtrip:
  assumes "in_i64 (cbSystemTokens st)" "in_i64 (cbToolsTokens st)" "in_i64 (cbMessageTokens st)" and "claim_in_i64 (cbClaim st)"
  shows "decodeJSONState dec_breakdown_state breakdownInit (Some (enc_breakdown_state st)) = Some st"
proof -
  obtain a b c e where st: "st = \<lparr>cbSystemTokens = a, cbToolsTokens = b, cbMessageTokens = c, cbClaim = e\<rparr>" by (cases st)
  show ?thesis
    using assms unfolding st
    by (cases e) (simp_all add: decodeJSONState_def unmarshal_ok_def unmarshal_def dec_breakdown_state_def enc_breakdown_state_def checkpoint_defs
        claim_roundtrip breakdownInit_def)
qed

end
