(* ===== verification/Compaction_Metered.thy ===== *)
theory Compaction_Metered
  imports Token_Projection
begin

text \<open>
  How \<open>compactionbasic/region.go\<close> and \<open>tokenmeter/projectionfold.go\<close> fit together: the producer of shadow prices and
  their consumer.  The price a transaction states is taken when it is prepared and read after it is committed.  Shown here: a
  successful compaction adds exactly one replacement, and that replacement is metered.
\<close>

section \<open>Compactions are metered\<close>

lemma dec_members_append:
  "dec_members fs v (xs @ ys) =
     (fst (dec_members fs (fst (dec_members fs v xs)) ys), snd (dec_members fs v xs) \<and> snd (dec_members fs (fst (dec_members fs v xs)) ys))"
  by (induction xs arbitrary: v) (auto simp: case_prod_unfold Let_def split: option.split)

lemma dec_seq_range_written:
  "snd (dec_seq_range v (enc_seq_range r)) \<Longrightarrow> fst (dec_seq_range v (enc_seq_range r)) = r"
  by (cases r) (auto simp: dec_seq_range_def enc_seq_range_def dec_struct_def mem_def find_field_def fld_def dec_int64_def Let_def split: if_splits)

text \<open>What a consumer reads of a written summary, when it can read it at all.\<close>

lemma summary_written:
  assumes "unmarshal_ok dec_summary zero_summary (Some (enc_summary_payload p)) = Some d"
  shows "cmShadowedRange d = cmShadowedRange p \<and> cmShadowedTokenCount d = cmShadowedTokenCount p"
proof -
  let ?A = "mem ''compactionId'' (JStr (cmCompactionID p)) @ mem_str ''sourceCommandId'' (cmSourceCommandID p) @ mem ''summary'' (enc_slice enc_block (cmSummary p))"
  let ?B = "mem ''shadowedSeqs'' (JArr (map JInt (cmShadowedSeqs p)))"
  let ?C = "mem ''provider'' (JStr (cmProvider p)) @ mem ''model'' (JStr (cmModel p))
     @ mem_opt ''maxTokens'' (map_option JInt (cmMaxTokens p)) @ mem_opt ''usage'' (map_option enc_usage (cmUsage p))
     @ mem_slice ''rawOutput'' enc_block (cmRawOutput p) @ mem_bool ''llmStreamCall'' (cmLLMStreamCall p)"
  let ?r = "(''shadowedRange'', enc_seq_range (cmShadowedRange p))" and ?c = "(''shadowedTokenCount'', JInt (cmShadowedTokenCount p))"
  have d: "dec_members summary_fields zero_summary (?A @ [?r] @ ?B @ [?c] @ ?C) = (d, True)"
    using assms by (simp add: unmarshal_ok_def unmarshal_def dec_summary_def dec_struct_def enc_summary_payload_def mem_def
        split: prod.splits if_splits)
  define v1 where "v1 = fst (dec_members summary_fields zero_summary ?A)"
  define v2 where "v2 = fst (dec_members summary_fields v1 [?r])"
  define v3 where "v3 = fst (dec_members summary_fields v2 ?B)"
  define v4 where "v4 = fst (dec_members summary_fields v3 [?c])"
  have ok: "snd (dec_members summary_fields v1 [?r])" "snd (dec_members summary_fields v3 [?c])" "d = fst (dec_members summary_fields v4 ?C)"
    using d by (simp_all add: dec_members_append v1_def v2_def v3_def v4_def del: append_Cons append_assoc)
  have keep: "cmShadowedRange d = cmShadowedRange v4 \<and> cmShadowedTokenCount d = cmShadowedTokenCount v4" "cmShadowedRange v3 = cmShadowedRange v2"
    unfolding ok(3) v3_def
    by (intro conjI dec_members_other; auto simp: mem_defs summary_fields_def find_field_def fld_def Let_def case_prod_unfold split: option.splits if_splits)+
  have "cmShadowedRange v2 = cmShadowedRange p"
    using ok(1) dec_seq_range_written [of "cmShadowedRange v1" "cmShadowedRange p"]
    by (auto simp: v2_def summary_fields_def find_field_def fld_def Let_def case_prod_unfold)
  moreover have "cmShadowedRange v4 = cmShadowedRange v3" "cmShadowedTokenCount v4 = cmShadowedTokenCount p"
    using ok(2) by (auto simp: v4_def summary_fields_def find_field_def fld_def Let_def case_prod_unfold dec_int64_def)
  ultimately show ?thesis using keep by simp
qed


lemma compaction_claim:
  assumes "payload_ok e" and "evType e = EventCompactionSummary" and "evData e = Some (enc_summary_payload p)"
  shows "armed e = Some \<lparr>spStart = rgStart (cmShadowedRange p), spEnd = rgEnd (cmShadowedRange p), spTokens = cmShadowedTokenCount p\<rparr>"
proof -
  obtain d where d: "unmarshal_ok dec_summary zero_summary (Some (enc_summary_payload p)) = Some d" using assms by (auto simp: payload_ok_def)
  with summary_written [OF d] assms(2,3) show ?thesis by (simp add: armed_def)
qed

text \<open>The price in a summary is the heuristic price of what the checkpoint replaces.\<close>

lemma measureNow_prices:
  assumes ok: "tx_ok env sess w" and m: "measureNow env w = (w', Ok me)" and n: "n \<in> set (meNodes me)"
  shows "tnHeuristicTokens n = mnHeuristicTokens (priced_node (enSize env) (sLog (cwSession w)) (tnSeq n))"
proof -
  let ?log = "sLog (cwSession w)"
  have c: "cache_ok (enSize env) (cwMeter w) ?log" using ok by (simp add: tx_ok_def)
  obtain st0 where me: "Measure (enSize env) (enMeter env) (cwMeter w) ?log None = (st0, Ok me)"
    using m by (auto simp: measureNow_def outcome_simps split: prod.splits)
  obtain ss rs where run: "surface_run ?log = Ok (ss, rs)" using tx_run [OF ok] by blast
  obtain surface where sync: "Sync (enSize env) (cwMeter w) ?log = (st0, Ok ())"
    and price: "PriceSurface (enSize env) (rsSurface st0) (routeFor (enMeter env) (effective_header st0 None)) (mtFileText (enMeter env)) = Ok surface"
    and nodes: "meNodes me = psNodes surface"
    using Measure_Ok [OF me] by (metis measurement.select_convs(6))
  have full: "syncMeter (enSize env) ?log empty_replay ?log = (st0, Ok ())" using sync Sync_cache [OF c] Sync_scratch by simp
  have seqs: "map tnSeq (meNodes me) = ssNodes ss"
    and "map tnHeuristicTokens (meNodes me) = map (mnHeuristicTokens \<circ> priced_node (enSize env) ?log) (ssNodes ss)"
    using scratch_state [OF run full] PriceSurface_rows(1,2) [OF price] nodes by (simp_all add: o_def priced_node_def)
  then have "map tnHeuristicTokens (meNodes me) = map (mnHeuristicTokens \<circ> priced_node (enSize env) ?log \<circ> tnSeq) (meNodes me)"
    unfolding seqs [symmetric] by simp
  then show ?thesis using n unfolding map_eq_conv by auto
qed

lemma prepareCompaction_price:
  assumes ok: "tx_ok env sess w" and p: "prepareCompaction env w sel = (w', Ok p)"
  shows "pcShadowedTokenCount p = i64 (surface_price (enSize env) (sLog (cwSession w)) (slShadowedSeqs sel))"
proof -
  obtain w1 me where m: "measureNow env w = (w1, Ok me)"
    using p by (cases "measureNow env w"; cases "snd (measureNow env w)") (auto simp: prepareCompaction_def)
  obtain ns where ns: "set ns \<subseteq> set (meNodes me)" "map tnSeq ns = slShadowedSeqs sel"
    "pcShadowedTokenCount p = foldl (\<lambda>t n. i64 (t + tnHeuristicTokens n)) 0 ns"
  proof -
    let ?ns = "take (slEndIdx sel + 1 - slStartIdx sel) (drop (slStartIdx sel) (meNodes me))"
    obtain w2 r where b: "buildSummarizationInput w1 (slShadowedSeqs sel) = (w2, r)" by fastforce
    have "map tnSeq ?ns = slShadowedSeqs sel" "pcShadowedTokenCount p = foldl (\<lambda>t n. i64 (t + tnHeuristicTokens n)) 0 ?ns"
      using p m b by (cases r; auto simp: prepareCompaction_def Let_def split: if_splits)+
    moreover have "set ?ns \<subseteq> set (meNodes me)" by (auto dest: in_set_takeD in_set_dropD)
    ultimately show ?thesis using that by blast
  qed
  have "map tnHeuristicTokens ns = map (mnHeuristicTokens \<circ> priced_node (enSize env) (sLog (cwSession w))) (slShadowedSeqs sel)"
    unfolding ns(2) [symmetric] using measureNow_prices [OF ok m] ns(1) by auto
  then show ?thesis using ns(3) foldl_i64 [of tnHeuristicTokens 0 ns] by (simp add: surface_price_def)
qed

lemma summaryStage_price:
  assumes ok: "tx_ok env sess w" and s: "summaryStage env sess options sel cid w = (w', Ok summarized)"
  shows "pcSelection (scPrepared summarized) = sel
     \<and> pcShadowedTokenCount (scPrepared summarized) = i64 (surface_price (enSize env) (sLog (cwSession w)) (slShadowedSeqs sel))"
proof -
  obtain w1 p sm where p: "prepareCompaction env w sel = (w1, Ok p)" and sm: "summarizeCompaction env p cid (toSourceCommandID options) = Ok sm"
    and "summarized = sm"
    using s by (auto simp: summaryStage_def outcome_simps split: if_splits)
  moreover have "scPrepared sm = p" using sm by (auto simp: summarizeCompaction_def outcome_simps Let_def split: if_splits)
  moreover have "pcSelection p = sel" using prepareCompaction_spec [OF ok p] by blast
  ultimately show ?thesis using prepareCompaction_price [OF ok p] by metis
qed

lemma surface_price_of_target:
  assumes "tx_ok env sess w" and "target_in w sel"
  shows "surface_price size' (sLog (cwSession w) @ es) (slShadowedSeqs sel) = surface_price size' (sLog (cwSession w)) (slShadowedSeqs sel)"
proof -
  obtain st rs where run: "surface_run (sLog (cwSession w)) = Ok (st, rs)" "surface_of w = ssNodes st" using tx_run [OF assms(1)] by blast
  have "set (slShadowedSeqs sel) \<subseteq> set (surface_of w)" using assms(2) unfolding target_def by (auto dest!: in_set_takeD in_set_dropD)
  then show ?thesis using surface_run_ok [OF run(1)] run(2) by (intro surface_price_grow) (auto simp: surface_ok_def)
qed

text \<open>The replacement that an appended event makes.\<close>

lemma replacement_of_append:
  assumes "surface_run (evs @ [e]) = Ok (ss', rs')" and "evType e = EventUserMessage"
    and "evSurfaceOp e = Some \<lparr>opKind = SurfaceReplace, opStart = a, opEnd = b\<rparr>"
  obtains ss rs i j where "surface_run evs = Ok (ss, rs)" "index_of a (ssNodes ss) = Some i" "index_of b (ssNodes ss) = Some j"
    "rs' = rs @ [\<lparr>rpSeq = int (length evs), rpStart = a, rpEnd = b, rpShadowedSeqs = take (j + 1 - i) (drop i (ssNodes ss))\<rparr>]"
proof -
  obtain ss rs where run: "surface_run evs = Ok (ss, rs)" using surface_run_prefix [OF assms(1)] by auto
  from assms(1) obtain p r where p: "planSurfaceEvent ss e (int (length evs)) evs 0 = Ok p" and ap: "applySurfacePlan ss p = Ok (ss', r)"
    and rs': "rs' = (case r of None \<Rightarrow> rs | Some x \<Rightarrow> rs @ [x])"
    unfolding surface_run_snoc [OF run] by (auto simp: outcome_simps)
  from p show ?thesis
  proof (cases rule: planSurfaceEvent_cases)
    case (rep o' i j sh)
    have o': "opStart o' = a" "opEnd o' = b" using rep(3) assms(3) by auto
    have idx: "index_of a (ssNodes ss) = Some i" "index_of b (ssNodes ss) = Some j"
      using rep(6) o' by (auto simp: replacementRange_def split: option.splits if_splits)
    have "rs' = rs @ [\<lparr>rpSeq = int (length evs), rpStart = a, rpEnd = b, rpShadowedSeqs = sh\<rparr>]"
      using ap apply_replace(1) [OF rep(6)] rep(5) rs' o' by auto
    then show ?thesis using that [OF run idx] replacementRange_Ok(5) [OF rep(6)] by simp
  qed (use assms(2,3) in \<open>auto simp: SurfaceAppend_def SurfaceReplace_def IsSurfaceEventType_def SurfaceEventTypes_def\<close>)
qed

text \<open>A committed body is a metering event and its replacement.\<close>

definition metered_body :: "(json \<Rightarrow> nat) \<Rightarrow> event list \<Rightarrow> event list \<Rightarrow> int \<Rightarrow> int \<Rightarrow> int list \<Rightarrow> bool" where
  "metered_body size' before mid start end' shadowed \<longleftrightarrow>
     (\<exists>sumEv cp p. mid = [sumEv, cp] \<and> evType sumEv = EventCompactionSummary \<and> evData sumEv = Some (enc_summary_payload p)
        \<and> cmShadowedRange p = \<lparr>rgStart = start, rgEnd = end'\<rparr> \<and> cmShadowedTokenCount p = i64 (surface_price size' before shadowed)
        \<and> evType cp = EventUserMessage \<and> evSeq cp = int (length before) + 1
        \<and> evSurfaceOp cp = Some \<lparr>opKind = SurfaceReplace, opStart = start, opEnd = end'\<rparr>)"

lemma run_off_surface:
  assumes "surface_run (evs @ [e]) = Ok (ss', rs')" and "\<not> IsSurfaceEventType (evType e)"
  shows "surface_run evs = Ok (ss', rs')"
proof -
  obtain ss rs where run: "surface_run evs = Ok (ss, rs)" using surface_run_prefix [OF assms(1)] by auto
  from assms(1) obtain p r where p: "planSurfaceEvent ss e (int (length evs)) evs 0 = Ok p" and ap: "applySurfacePlan ss p = Ok (ss', r)"
    and rs': "rs' = (case r of None \<Rightarrow> rs | Some x \<Rightarrow> rs @ [x])"
    unfolding surface_run_snoc [OF run] by (auto simp: outcome_simps)
  from p have "p = None" by (cases rule: planSurfaceEvent_cases) (use assms(2) in auto)
  with ap rs' run show ?thesis by (simp add: applySurfacePlan_def)
qed

lemma commit_body_metered:
  assumes ok: "tx_ok env sess w" and sel: "pcSelection (scPrepared summarized) = sel"
    and price: "pcShadowedTokenCount (scPrepared summarized) = i64 (surface_price (enSize env) (sLog (cwSession w)) (slShadowedSeqs sel))"
    and c: "commitCompactionBody env w startEvent summarized = (w', Ok body)"
  shows "\<exists>mid. sLog (cwSession w') = sLog (cwSession w) @ mid \<and> crShadowedSeqs body = slShadowedSeqs sel
     \<and> metered_body (enSize env) (sLog (cwSession w)) mid (slStart sel) (slEnd sel) (slShadowedSeqs sel)"
proof -
  obtain start where start: "unmarshal_ok dec_start_payload \<lparr>cspCompactionID = [], cspSourceCommandID = [], cspTurn = None\<rparr> (evData startEvent) = Some start"
    using c by (auto simp: commitCompactionBody_def split: option.splits)
  let ?p = "summaryPayload start summarized"
  obtain w1 where w1: "appendNow env 1 w EventCompactionSummary (enc_summary_payload ?p) None
      = (w1, Ok (plain_event (cwSession w) (enClock env 1) EventCompactionSummary (enc_summary_payload ?p)))"
    "sLog (cwSession w1) = sLog (cwSession w) @ [plain_event (cwSession w) (enClock env 1) EventCompactionSummary (enc_summary_payload ?p)]"
    using appendNow_plain [OF ok compaction_plain(2)] by metis
  define sumEv where "sumEv = plain_event (cwSession w) (enClock env 1) EventCompactionSummary (enc_summary_payload ?p)"
  let ?intent = "Some \<lparr>siSurfaceOp = \<lparr>opKind = SurfaceReplace, opStart = slStart sel, opEnd = slEnd sel\<rparr>,
      siSourceEventSeqs = Some (evSeq startEvent # evSeq sumEv # slShadowedSeqs sel)\<rparr>"
  obtain w2 cp where cp: "appendNow env 2 w1 EventUserMessage (enc_message (scCheckpointMessage summarized)) ?intent = (w2, Ok cp)"
    and res: "w' = w2" "crShadowedSeqs body = slShadowedSeqs sel"
    using c start w1(1) sel unfolding sumEv_def by (auto simp: commitCompactionBody_def outcome_simps Let_def)
  obtain s where s: "Append (enClock env 2) (cwSession w1) EventUserMessage (Some (enc_message (scCheckpointMessage summarized))) ?intent = (s, Ok cp)" "w2 = w1\<lparr>cwSession := s\<rparr>"
    using cp by (auto simp: appendNow_def outcome_simps split: prod.splits)
  have e: "sLog (cwSession w') = sLog (cwSession w) @ [sumEv, cp]" "evType cp = EventUserMessage" "evSeq cp = int (length (sLog (cwSession w))) + 1"
    "evSurfaceOp cp = Some \<lparr>opKind = SurfaceReplace, opStart = slStart sel, opEnd = slEnd sel\<rparr>"
    using Append_result [OF s(1)] s(2) w1(2) res(1) by (simp_all add: sumEv_def)
  have "metered_body (enSize env) (sLog (cwSession w)) [sumEv, cp] (slStart sel) (slEnd sel) (slShadowedSeqs sel)"
    unfolding metered_body_def
    by (rule exI [of _ sumEv], rule exI [of _ cp], rule exI [of _ ?p])
       (use e price sel in \<open>simp add: sumEv_def plain_event_def summaryPayload_def Let_def\<close>)
  with e(1) res(2) show ?thesis by blast
qed

lemma runAttempt_metered:
  assumes ok: "tx_ok env sess w" and tg: "target_in w sel" and "runAttempt env sess options sel cid owner startEv w = (w', Ok a)"
    and "atFailure a = None" and "atPending a = Some res"
  shows "\<exists>es mid endEv. sLog (cwSession w') = sLog (cwSession w) @ es @ mid @ [endEv] \<and> evSurfaceOp endEv = None \<and> evType endEv = EventCompactionEnd
     \<and> crEndSeq res = evSeq endEv \<and> evSeq endEv = int (length (sLog (cwSession w) @ es @ mid)) \<and> crShadowedSeqs res = slShadowedSeqs sel
     \<and> metered_body (enSize env) (sLog (cwSession w) @ es) mid (slStart sel) (slEnd sel) (slShadowedSeqs sel)
     \<and> target (sLog (cwSession w) @ es) (log_surface (sLog (cwSession w) @ es)) (slStart sel) (slEnd sel) (slShadowedSeqs sel)"
proof -
  obtain w1 r1 where s: "summaryStage env sess options sel cid w = (w1, r1)" by fastforce
  have closed: "False" if "closeFailed env options cid owner w0 f = (w', Ok a)" for w0 f
    using that assms(4,5) by (auto simp: closeFailed_def split: prod.splits outcome.splits)
  obtain summarized where sm: "r1 = Ok summarized"
    using assms(3) s closed by (cases r1) (auto simp: runAttempt_def)
  obtain w2 r2 where c: "commitCompactionBody env w1 startEv summarized = (w2, r2)" by fastforce
  obtain body where b: "r2 = Ok body"
    using assms(3) s sm c closed by (cases r2) (auto simp: runAttempt_def)
  from summaryStage_spec [OF ok tg s] obtain es where es: "tx_ok env sess w1" "sLog (cwSession w1) = sLog (cwSession w) @ es" by blast
  have price: "pcSelection (scPrepared summarized) = sel"
    "pcShadowedTokenCount (scPrepared summarized) = i64 (surface_price (enSize env) (sLog (cwSession w1)) (slShadowedSeqs sel))"
    using summaryStage_price [OF ok s [unfolded sm]] surface_price_of_target [OF ok tg] es(2) by simp_all
  from commit_body_metered [OF es(1) price c [unfolded b]] obtain mid where mid: "sLog (cwSession w2) = sLog (cwSession w1) @ mid"
    "crShadowedSeqs body = slShadowedSeqs sel"
    "metered_body (enSize env) (sLog (cwSession w1)) mid (slStart sel) (slEnd sel) (slShadowedSeqs sel)" by blast
  have tx2: "tx_ok env sess w2"
    using commit_body_spec [OF es(1) _ price(1) c] summaryStage_spec [OF ok tg s] sm by simp
  obtain w3 where w3: "appendNow env 3 w2 EventCompactionEnd (endPayload options cid owner []) None
      = (w3, Ok (plain_event (cwSession w2) (enClock env 3) EventCompactionEnd (endPayload options cid owner [])))"
    "sLog (cwSession w3) = sLog (cwSession w2) @ [plain_event (cwSession w2) (enClock env 3) EventCompactionEnd (endPayload options cid owner [])]"
    using appendNow_plain [OF tx2 compaction_plain(3)] by metis
  define endEv where "endEv = plain_event (cwSession w2) (enClock env 3) EventCompactionEnd (endPayload options cid owner [])"
  have fin: "w' = w3 \<and> res = body\<lparr>crEndSeq := evSeq endEv\<rparr>"
    using assms(3,5) s sm c b w3(1) by (auto simp: runAttempt_def endEv_def)
  have "target_in w1 sel" using summaryStage_spec [OF ok tg s] sm by simp
  then show ?thesis
    by (intro exI [of _ es] exI [of _ mid] exI [of _ endEv])
       (use fin mid es(2) w3(2) in \<open>simp add: endEv_def plain_event_def surface_of_def\<close>)
qed

text \<open>C10: Compaction and metering fit together: the one replacement that a successful compaction adds to the log is metered, so a consumer of the
  log that folds prices (the composition and the occupancy shown to the user) stays exact across compactions, whatever happened
  between the preparation and the commit.\<close>

theorem compaction_keeps_metering:
  assumes "compact_reach (enSize env) sess w" and "CompactSurfaceRegion env sess w start end' options = (w', Ok res)"
    and "\<forall>e \<in> set (sLog (cwSession w')). payload_ok e"
  shows "\<exists>before after r f0 f. sLog (cwSession w') = before @ after \<and> length after = 3 \<and> FoldSurface before = Ok f0
     \<and> FoldSurface (sLog (cwSession w')) = Ok f \<and> sfReplacements f = sfReplacements f0 @ [r]
     \<and> rpSeq r = crEndSeq res - 1 \<and> rpStart r = start \<and> rpEnd r = end' \<and> rpShadowedSeqs r = crShadowedSeqs res
     \<and> metered (enSize env) (sLog (cwSession w')) r
     \<and> ((\<forall>r0 \<in> set (sfReplacements f0). metered (enSize env) before r0)
          \<longrightarrow> (\<forall>r \<in> set (sfReplacements f). metered (enSize env) (sLog (cwSession w')) r))"
proof -
  have ok: "tx_ok env sess w" using compact_reach_ok [OF assms(1)] by simp
  obtain w1 sel w2 a owner startEv where v: "ValidateSurfaceRegion sess w start end' = (w1, Ok sel)"
    and st: "appendNow env 0 w1 EventCompactionStart (enc_start_payload \<lparr>cspCompactionID = newUUID (enIDBytes env),
        cspSourceCommandID = toSourceCommandID options, cspTurn = owner\<rparr>) None = (w2, Ok startEv)"
    and ra: "runAttempt env sess options sel (newUUID (enIDBytes env)) owner startEv w2 = (w', Ok a)" and se: "settle env options a = Ok res"
    using assms(2) by (auto simp: CompactSurfaceRegion_def outcome_simps Let_def split: if_splits)
  note vs = ValidateSurfaceRegion_target [OF ok v]
  let ?j = "enc_start_payload \<lparr>cspCompactionID = newUUID (enIDBytes env), cspSourceCommandID = toSourceCommandID options, cspTurn = owner\<rparr>"
  have w2: "tx_ok env sess w2" "sLog (cwSession w2) = sLog (cwSession w1) @ [startEv]" "surface_of w2 = surface_of w1"
    by (rule appendNow_plain [OF conjunct1 [OF vs] compaction_plain(1), of 0 ?j]; use st in simp)+
  have sel: "slStart sel = start" "slEnd sel = end'" "target_in w sel" using vs by auto
  have tg: "target_in w2 sel" using target_grow [OF ok sel(3)] w2(2,3) vs by simp
  from runAttempt_metered [OF w2(1) tg ra] settle_Ok [OF se] obtain es mid endEv where
    log: "sLog (cwSession w') = (sLog (cwSession w2) @ es) @ mid @ [endEv]"
    and en: "evSurfaceOp endEv = None" "evType endEv = EventCompactionEnd" "crEndSeq res = evSeq endEv" "evSeq endEv = int (length (sLog (cwSession w2) @ es @ mid))"
    and sh: "crShadowedSeqs res = slShadowedSeqs sel"
    and body: "metered_body (enSize env) (sLog (cwSession w2) @ es) mid (slStart sel) (slEnd sel) (slShadowedSeqs sel)"
    and tgt: "target (sLog (cwSession w2) @ es) (log_surface (sLog (cwSession w2) @ es)) (slStart sel) (slEnd sel) (slShadowedSeqs sel)"
    by auto
  define before where "before = sLog (cwSession w2) @ es"
  from body obtain sumEv cp p where b: "mid = [sumEv, cp]" "evType sumEv = EventCompactionSummary" "evData sumEv = Some (enc_summary_payload p)"
    "cmShadowedRange p = \<lparr>rgStart = start, rgEnd = end'\<rparr>" "cmShadowedTokenCount p = i64 (surface_price (enSize env) before (slShadowedSeqs sel))"
    "evType cp = EventUserMessage" "evSurfaceOp cp = Some \<lparr>opKind = SurfaceReplace, opStart = start, opEnd = end'\<rparr>"
    unfolding metered_body_def before_def [symmetric] sel(1,2) by blast
  have target: "target before (log_surface before) start end' (slShadowedSeqs sel)" using tgt sel unfolding before_def by simp
  have log': "sLog (cwSession w') = ((before @ [sumEv]) @ [cp]) @ [endEv]" using log b(1) by (simp add: before_def)
  have tx': "tx_ok env sess w'" using compact_reach_ok [OF compact_reach.compact [OF assms(1) refl assms(2)]] by simp
  obtain ss' rs' where full: "surface_run (((before @ [sumEv]) @ [cp]) @ [endEv]) = Ok (ss', rs')" using tx_run [OF tx'] unfolding log' by blast
  have "surface_run ((before @ [sumEv]) @ [cp]) = Ok (ss', rs')"
    by (rule run_off_surface [OF full]) (simp add: en(2) IsSurfaceEventType_def SurfaceEventTypes_def EventCompactionEnd_def event_type_defs)
  from replacement_of_append [OF this b(6,7)] obtain ss1 rs1 i j where run1: "surface_run (before @ [sumEv]) = Ok (ss1, rs1)"
    and ij: "index_of start (ssNodes ss1) = Some i" "index_of end' (ssNodes ss1) = Some j"
    and rs': "rs' = rs1 @ [\<lparr>rpSeq = int (length (before @ [sumEv])), rpStart = start, rpEnd = end',
        rpShadowedSeqs = take (j + 1 - i) (drop i (ssNodes ss1))\<rparr>]" by blast
  have run': "surface_run (sLog (cwSession w')) = Ok (ss', rs')" using full unfolding log' .
  have run0: "surface_run before = Ok (ss1, rs1)" by (rule run_off_surface [OF run1]) (simp add: b(2) metering_off_surface)
  then have "FoldSurface before = Ok \<lparr>sfNodes = ssNodes ss1, sfReplacements = rs1\<rparr>" by (simp add: FoldSurface_run)
  then have "log_surface before = ssNodes ss1" by (simp add: log_surface_def)
  with target ij have shadowed: "take (j + 1 - i) (drop i (ssNodes ss1)) = slShadowedSeqs sel" "set (slShadowedSeqs sel) \<subseteq> set (ssNodes ss1)"
    by (auto simp: target_def dest!: in_set_takeD in_set_dropD)
  have within: "\<forall>x \<in> set (slShadowedSeqs sel). 0 \<le> x \<and> x < int (length before)"
    using surface_run_ok [OF run0] shadowed(2) by (auto simp: surface_ok_def)
  let ?r = "\<lparr>rpSeq = int (length before) + 1, rpStart = start, rpEnd = end', rpShadowedSeqs = slShadowedSeqs sel\<rparr>"
  have rs1: "rs' = rs1 @ [?r]" using rs' shadowed(1) by simp
  have "armed sumEv = Some \<lparr>spStart = start, spEnd = end', spTokens = i64 (surface_price (enSize env) before (slShadowedSeqs sel))\<rparr>"
    using compaction_claim [OF _ b(2,3)] assms(3) b(4,5) unfolding log' by simp
  then have m: "metered (enSize env) (sLog (cwSession w')) ?r"
    using surface_price_grow [OF within, of "enSize env" "[sumEv, cp, endEv]"] by (simp add: metered_def log' nth_append)
  have old: "\<forall>r0 \<in> set rs1. metered (enSize env) before r0 \<longrightarrow> metered (enSize env) (sLog (cwSession w')) r0"
    using run_replacements_within [OF run0] metered_append [of before _ "enSize env" "[sumEv, cp, endEv]"] unfolding log' by simp
  show ?thesis
    by (rule exI [of _ before], rule exI [of _ "[sumEv, cp, endEv]"], rule exI [of _ ?r],
        rule exI [of _ "\<lparr>sfNodes = ssNodes ss1, sfReplacements = rs1\<rparr>"], rule exI [of _ "\<lparr>sfNodes = ssNodes ss', sfReplacements = rs'\<rparr>"])
       (use run0 run' rs1 m old en sh log' in \<open>auto simp: FoldSurface_run before_def b(1)\<close>)
qed


theorem compaction_keeps_metering_witness:
  "\<exists>w' res r f. CompactSurfaceRegion demo_env 0 demo_compact_world 0 0 demo_options = (w', Ok res)
     \<and> FoldSurface (sLog (cwSession w')) = Ok f \<and> sfReplacements f = [r] \<and> metered (enSize demo_env) (sLog (cwSession w')) r"
proof -
  obtain w' res where c: "CompactSurfaceRegion demo_env 0 demo_compact_world 0 0 demo_options = (w', Ok res)"
    using demo_compacts by (cases "CompactSurfaceRegion demo_env 0 demo_compact_world 0 0 demo_options") (auto simp: outcome_simps)
  have r: "compact_reach (enSize demo_env) 0 demo_compact_world" using demo_compact_reach by (simp add: demo_env_def)
  have "case CompactSurfaceRegion demo_env 0 demo_compact_world 0 0 demo_options of (w, _) \<Rightarrow> list_all payload_ok (sLog (cwSession w))" by code_simp
  then have p: "\<forall>e \<in> set (sLog (cwSession w')). payload_ok e" using c by (simp add: list_all_iff)
  have "case CompactSurfaceRegion demo_env 0 demo_compact_world 0 0 demo_options of (w, _) \<Rightarrow>
      (case FoldSurface (sLog (cwSession w)) of Ok f \<Rightarrow> length (sfReplacements f) = 1 | _ \<Rightarrow> False)" by code_simp
  then have one: "case FoldSurface (sLog (cwSession w')) of Ok f \<Rightarrow> length (sfReplacements f) = 1 | _ \<Rightarrow> False" using c by simp
  from compaction_keeps_metering [OF r c p] one c show ?thesis by (auto simp: length_Suc_conv)
qed

end
