(* ===== verification/Go_Time.thy ===== *)
theory Go_Time
  imports Go_Json
begin

text \<open>
  The part of Go's \<open>time\<close> package the schedules use: the proleptic Gregorian calendar in UTC, its fields at an epoch
  millisecond and back (with the normalisation of \<open>time.Date\<close>), and the one layout written and read, a four-digit-year RFC 3339 instant
  with milliseconds.  Shown here: fields and milliseconds are inverse on real dates, the years 1 to 9999 are exactly the representable
  range, and writing and strict reading of an instant are inverse on it.
\<close>

section \<open>The calendar\<close>

record calendar_parts =
  cpYear :: int
  cpMonth :: int
  cpDay :: int
  cpHour :: int
  cpMinute :: int
  cpSecond :: int
  cpMillisecond :: int

definition isLeap :: "int \<Rightarrow> bool" where
  "isLeap y \<longleftrightarrow> y mod 4 = 0 \<and> (y mod 100 \<noteq> 0 \<or> y mod 400 = 0)"

definition monthLengths :: "int \<Rightarrow> int list" where
  "monthLengths y = [31, if isLeap y then 29 else 28, 31, 30, 31, 30, 31, 31, 30, 31, 30, 31]"

definition daysBeforeYear :: "int \<Rightarrow> int" where
  "daysBeforeYear y = 365 * (y - 1) + (y - 1) div 4 - (y - 1) div 100 + (y - 1) div 400"

definition daysBeforeMonth :: "int \<Rightarrow> int \<Rightarrow> int" where
  "daysBeforeMonth y m = sum_list (take (nat (m - 1)) (monthLengths y))"

text \<open>The day number of 1970-01-01, counted from 0001-01-01.\<close>

definition unixDay :: int where "unixDay = 719162"

text \<open>\<open>time.Date(...).UnixMilli()\<close> in UTC: months outside 1 to 12 carry into the year, every other field is linear.\<close>

definition dateMilli :: "calendar_parts \<Rightarrow> int" where
  "dateMilli p =
     (let y = cpYear p + (cpMonth p - 1) div 12; m = (cpMonth p - 1) mod 12 + 1;
          days = daysBeforeYear y + daysBeforeMonth y m + (cpDay p - 1) - unixDay
      in (((days * 24 + cpHour p) * 60 + cpMinute p) * 60 + cpSecond p) * 1000 + cpMillisecond p)"

text \<open>The year of a day, through the 400, 100, 4 and 1 year cycles; the last cycle of each kind may be a day longer.\<close>

definition yearOfDay :: "int \<Rightarrow> int" where
  "yearOfDay d =
     (let n400 = d div 146097; r = d mod 146097; n100 = min 3 (r div 36524); r1 = r - 36524 * n100;
          n4 = r1 div 1461; r2 = r1 mod 1461; n1 = min 3 (r2 div 365)
      in 400 * n400 + 100 * n100 + 4 * n4 + n1 + 1)"

fun monthDay :: "int list \<Rightarrow> int \<Rightarrow> int \<Rightarrow> int \<times> int" where
  "monthDay [] m d = (m, d + 1)"
| "monthDay (l # ls) m d = (if d < l then (m, d + 1) else monthDay ls (m + 1) (d - l))"

text \<open>The fields of \<open>time.UnixMilli(epoch).UTC()\<close>.\<close>

definition fieldsOf :: "int \<Rightarrow> calendar_parts" where
  "fieldsOf epoch =
     (let secs = epoch div 1000; days = secs div 86400 + unixDay; y = yearOfDay days;
          (m, d) = monthDay (monthLengths y) 1 (days - daysBeforeYear y)
      in \<lparr>cpYear = y, cpMonth = m, cpDay = d, cpHour = secs mod 86400 div 3600, cpMinute = secs mod 3600 div 60,
          cpSecond = secs mod 60, cpMillisecond = epoch mod 1000\<rparr>)"

section \<open>Real dates\<close>

definition daysIn :: "int \<Rightarrow> int \<Rightarrow> int" where
  "daysIn y m = monthLengths y ! nat (m - 1)"

definition real_date :: "calendar_parts \<Rightarrow> bool" where
  "real_date p \<longleftrightarrow> 1 \<le> cpMonth p \<and> cpMonth p \<le> 12 \<and> 1 \<le> cpDay p \<and> cpDay p \<le> daysIn (cpYear p) (cpMonth p)
     \<and> 0 \<le> cpHour p \<and> cpHour p < 24 \<and> 0 \<le> cpMinute p \<and> cpMinute p < 60 \<and> 0 \<le> cpSecond p \<and> cpSecond p < 60
     \<and> 0 \<le> cpMillisecond p \<and> cpMillisecond p < 1000"

lemma daysBeforeYear_cycles:
  assumes "0 \<le> b" "b \<le> 3" "0 \<le> c" "c \<le> 24" "0 \<le> e" "e \<le> 3"
  shows "daysBeforeYear (400 * a + 100 * b + 4 * c + e + 1) = 146097 * a + 36524 * b + 1461 * c + 365 * e"
proof -
  let ?z = "400 * a + 100 * b + 4 * c + e"
  have q4: "?z div 4 = 100 * a + 25 * b + c" using assms by (intro int_div_pos_eq [where r = e]) auto
  have q100: "?z div 100 = 4 * a + b" using assms by (intro int_div_pos_eq [where r = "4 * c + e"]) auto
  have q400: "?z div 400 = a" using assms by (intro int_div_pos_eq [where r = "100 * b + 4 * c + e"]) auto
  show ?thesis by (simp only: daysBeforeYear_def add_diff_cancel_right' q4 q100 q400) simp
qed

lemma leap_count:
  "(B \<Longrightarrow> A) \<Longrightarrow> (C \<Longrightarrow> B) \<Longrightarrow> 365 + (if A then 1 else 0) - (if B then 1 else 0) + (if C then 1 else 0) = (if A \<and> (\<not> B \<or> C) then 366 else (365 :: int))"
  by (cases A; cases B; cases C) simp_all

lemma daysBeforeYear_Suc: "daysBeforeYear (y + 1) = daysBeforeYear y + (if isLeap y then 366 else 365)"
proof -
  have "(y - 1) div n = y div n - (if y mod n = 0 then 1 else 0)" if "n > 0" for n :: int
  proof -
    have y: "y = n * (y div n) + y mod n" "0 \<le> y mod n" "y mod n < n" using that by simp_all
    show ?thesis
    proof (cases "y mod n = 0")
      case True
      then have "(y - 1) div n = y div n - 1"
        using y that by (intro int_div_pos_eq [where r = "n - 1"]) (auto simp: algebra_simps)
      then show ?thesis using True by simp
    next
      case False
      then have "(y - 1) div n = y div n"
        using y by (intro int_div_pos_eq [where r = "y mod n - 1"]) auto
      then show ?thesis using False by simp
    qed
  qed
  note step = this
  have m: "y mod 100 = 0 \<Longrightarrow> y mod 4 = 0" "y mod 400 = 0 \<Longrightarrow> y mod 100 = 0"
    using mod_mod_cancel [of 4 100 y] mod_mod_cancel [of 100 400 y] by auto
  have "daysBeforeYear (y + 1) = 365 * y + y div 4 - y div 100 + y div 400" by (simp add: daysBeforeYear_def)
  also have "\<dots> = daysBeforeYear y + 365 + (if y mod 4 = 0 then 1 else 0) - (if y mod 100 = 0 then 1 else 0) + (if y mod 400 = 0 then 1 else 0)"
    by (simp only: daysBeforeYear_def step [of 4, simplified] step [of 100, simplified] step [of 400, simplified] algebra_simps)
  also have "\<dots> = daysBeforeYear y + (365 + (if y mod 4 = 0 then 1 else 0) - (if y mod 100 = 0 then 1 else 0) + (if y mod 400 = 0 then 1 else 0))"
    by (simp only: algebra_simps)
  also have "365 + (if y mod 4 = 0 then 1 else 0) - (if y mod 100 = 0 then 1 else 0) + (if y mod 400 = 0 then 1 else 0) = (if isLeap y then 366 else (365 :: int))"
    unfolding isLeap_def using m by (rule leap_count)
  finally show ?thesis .
qed

lemma daysBeforeYear_mono: "a \<le> b \<Longrightarrow> daysBeforeYear a \<le> daysBeforeYear b"
proof (induction b rule: int_ge_induct)
  case (step b)
  then show ?case using daysBeforeYear_Suc [of b] by (auto split: if_splits)
qed simp

lemma yearOfDay_bounds: "daysBeforeYear (yearOfDay d) \<le> d \<and> d < daysBeforeYear (yearOfDay d + 1)"
proof -
  define a where "a = d div 146097"
  define r where "r = d mod 146097"
  define b where "b = min 3 (r div 36524)"
  define r1 where "r1 = r - 36524 * b"
  define c where "c = r1 div 1461"
  define r2 where "r2 = r1 mod 1461"
  define e where "e = min 3 (r2 div 365)"
  have d: "d = 146097 * a + r" by (simp add: a_def r_def)
  have r: "0 \<le> r" "r < 146097" by (simp_all add: r_def)
  have b: "0 \<le> b" "b \<le> 3" using r by (auto simp: b_def)
  have r1: "0 \<le> r1" "r1 \<le> 36524" "b < 3 \<Longrightarrow> r1 < 36524" using r by (auto simp: r1_def b_def min_def split: if_splits)
  have c: "0 \<le> c" "c \<le> 24" using r1 by (auto simp: c_def)
  have r1': "r1 = 1461 * c + r2" by (simp add: c_def r2_def)
  have r2: "0 \<le> r2" "r2 < 1461" by (simp_all add: r2_def)
  have e: "0 \<le> e" "e \<le> 3" using r2 by (auto simp: e_def)
  have rest: "0 \<le> r2 - 365 * e" "e < 3 \<Longrightarrow> r2 - 365 * e < 365" "r2 - 365 * e \<le> 365" using r2 by (auto simp: e_def min_def split: if_splits)
  have y: "yearOfDay d = 400 * a + 100 * b + 4 * c + e + 1"
    by (simp add: yearOfDay_def Let_def a_def r_def b_def r1_def c_def r2_def e_def)
  have before: "daysBeforeYear (yearOfDay d) = 146097 * a + 36524 * b + 1461 * c + 365 * e"
    unfolding y using daysBeforeYear_cycles [OF b c e] .
  have leap: "r2 - 365 * e = 365 \<Longrightarrow> isLeap (yearOfDay d)"
  proof -
    assume last: "r2 - 365 * e = 365"
    then have e3: "e = 3" using rest(2) e by linarith
    have "b = 3 \<or> c < 24" using last e3 r1 r1' c b by linarith
    then have m: "(400 * a + 100 * b + 4 * c + 4) mod 4 = 0"
      and "b = 3 \<and> c = 24 \<or> c < 24" using c by (presburger, linarith)
    then show ?thesis
    proof (elim disjE conjE)
      assume "b = 3" "c = 24"
      then have "yearOfDay d = 400 * (a + 1)" using y e3 by simp
      then show ?thesis by (simp add: isLeap_def)
    next
      assume "c < 24"
      then have "(4 * c + 4 + 100 * (4 * a + b)) mod 100 = 4 * c + 4" using c by (simp only: mod_mult_self2) simp
      then have "(400 * a + 100 * b + 4 * c + 4) mod 100 = 4 * c + 4" by (simp add: algebra_simps)
      then have "yearOfDay d mod 100 = 4 * c + 4" "yearOfDay d mod 4 = 0" using m y e3 by (simp_all add: add.commute add.left_commute)
      then show ?thesis using c by (simp add: isLeap_def)
    qed
  qed
  have off: "d = daysBeforeYear (yearOfDay d) + (r2 - 365 * e)" using before d r1_def r1' by simp
  show ?thesis
  proof (cases "isLeap (yearOfDay d)")
    case True
    then show ?thesis using off rest daysBeforeYear_Suc [of "yearOfDay d"] by simp
  next
    case False
    then have "r2 - 365 * e < 365" using leap rest(3) by linarith
    then show ?thesis using False off rest daysBeforeYear_Suc [of "yearOfDay d"] by simp
  qed
qed

lemma yearOfDay_eq: "daysBeforeYear y \<le> d \<Longrightarrow> d < daysBeforeYear (y + 1) \<Longrightarrow> yearOfDay d = y"
  using yearOfDay_bounds [of d] daysBeforeYear_mono [of "y + 1" "yearOfDay d"] daysBeforeYear_mono [of "yearOfDay d + 1" y] by linarith

lemma monthLengths_len [simp]: "length (monthLengths y) = 12"
  by (simp add: monthLengths_def)

lemma sum_monthLengths: "sum_list (monthLengths y) = (if isLeap y then 366 else 365)"
  by (simp add: monthLengths_def)

lemma monthLengths_pos: "\<forall>l \<in> set (monthLengths y). 28 \<le> l"
  by (simp add: monthLengths_def)

lemma monthDay_split:
  assumes "0 \<le> d" "d < sum_list ls" and "monthDay ls m d = (m', d')"
  shows "\<exists>k < length ls. m' = m + int k \<and> d' = d - sum_list (take k ls) + 1 \<and> 1 \<le> d' \<and> d' \<le> ls ! k"
  using assms
proof (induction ls arbitrary: m d)
  case (Cons l ls)
  show ?case
  proof (cases "d < l")
    case True
    with Cons.prems show ?thesis by (intro exI [of _ 0]) auto
  next
    case False
    with Cons.prems have "monthDay ls (m + 1) (d - l) = (m', d')" "0 \<le> d - l" "d - l < sum_list ls" by auto
    from Cons.IH [OF this(2,3,1)] obtain k where "k < length ls" "m' = m + 1 + int k" "d' = d - l - sum_list (take k ls) + 1" "1 \<le> d'" "d' \<le> ls ! k"
      by blast
    then show ?thesis by (intro exI [of _ "Suc k"]) auto
  qed
qed simp

lemma monthDay_join:
  assumes "k < length ls" "1 \<le> d" "d \<le> ls ! k" "\<forall>l \<in> set ls. 0 \<le> l"
  shows "monthDay ls m (sum_list (take k ls) + d - 1) = (m + int k, d)"
  using assms
proof (induction ls arbitrary: m k)
  case (Cons l ls)
  show ?case
  proof (cases k)
    case 0
    then show ?thesis using Cons.prems by auto
  next
    case (Suc j)
    have "0 \<le> sum_list (take j ls)" using Cons.prems(4) by (intro sum_list_nonneg) (auto dest: in_set_takeD)
    then show ?thesis using Suc Cons.IH [of j "m + 1"] Cons.prems by (auto simp: algebra_simps)
  qed
qed simp

text \<open>Time of day: a moment is a day and the milliseconds since its midnight.\<close>

lemma quot_rem:
  fixes q n r :: int
  assumes "0 \<le> r" "r < n" and "x = q * n + r"
  shows "x div n = q" "x mod n = r"
  using assms by (auto intro: int_div_pos_eq int_mod_pos_eq simp: mult.commute)

lemma clock_fields:
  fixes days h mi s ms :: int
  assumes "0 \<le> h" "h < 24" "0 \<le> mi" "mi < 60" "0 \<le> s" "s < 60" "0 \<le> ms" "ms < 1000"
    and "e = (((days * 24 + h) * 60 + mi) * 60 + s) * 1000 + ms"
  shows "e mod 1000 = ms" "e div 1000 div 86400 = days" "e div 1000 mod 86400 div 3600 = h" "e div 1000 mod 3600 div 60 = mi" "e div 1000 mod 60 = s"
proof -
  define t where "t = ((days * 24 + h) * 60 + mi) * 60 + s"
  have e: "e div 1000 = t" "e mod 1000 = ms" using quot_rem [OF assms(7,8), of e t] assms(9) by (simp_all add: t_def)
  have d: "t div 86400 = days" "t mod 86400 = h * 3600 + mi * 60 + s"
    using quot_rem [of "h * 3600 + mi * 60 + s" 86400 t days] assms(1-6) by (simp_all add: t_def)
  have h: "(h * 3600 + mi * 60 + s) div 3600 = h" using quot_rem(1) [of "mi * 60 + s" 3600 _ h] assms(3-6) by simp
  have m: "t mod 3600 = mi * 60 + s" using quot_rem(2) [of "mi * 60 + s" 3600 t "days * 24 + h"] assms(3-6) by (simp add: t_def)
  have m': "(mi * 60 + s) div 60 = mi" using quot_rem(1) [OF assms(5,6)] by simp
  have s: "t mod 60 = s" using quot_rem(2) [OF assms(5,6), of t "(days * 24 + h) * 60 + mi"] by (simp add: t_def)
  show "e mod 1000 = ms" "e div 1000 div 86400 = days" "e div 1000 mod 86400 div 3600 = h"
    "e div 1000 mod 3600 div 60 = mi" "e div 1000 mod 60 = s"
    by (simp_all only: e d h m m' s)
qed

lemma clock_sum:
  fixes t :: int
  shows "a * 3600 + b = c \<Longrightarrow> d * 60 + e = b \<Longrightarrow> q * 86400 + c = t \<Longrightarrow> ((q * 24 + a) * 60 + d) * 60 + e = t"
  by simp

lemma clock_join:
  fixes t :: int
  shows "((t div 86400 * 24 + t mod 86400 div 3600) * 60 + t mod 3600 div 60) * 60 + t mod 60 = t"
proof (rule clock_sum)
  show "t mod 86400 div 3600 * 3600 + t mod 3600 = t mod 86400"
    using div_mult_mod_eq [of "t mod 86400" 3600] mod_mod_cancel [of 3600 86400 t] by simp
  show "t mod 3600 div 60 * 60 + t mod 60 = t mod 3600"
    using div_mult_mod_eq [of "t mod 3600" 60] mod_mod_cancel [of 60 3600 t] by simp
qed (rule div_mult_mod_eq)

lemma quot_range:
  fixes t :: int
  assumes "0 < n" "0 < k"
  shows "0 \<le> t mod (n * k) div n \<and> t mod (n * k) div n < k"
proof -
  have "t mod (n * k) < k * n" using assms pos_mod_bound [of "n * k" t] by (simp add: mult.commute)
  also have "k * n \<le> t mod (n * k) div n * n" if "k \<le> t mod (n * k) div n" using mult_right_mono [OF that, of n] assms(1) by simp
  moreover have "t mod (n * k) div n * n \<le> t mod (n * k)"
    using div_mult_mod_eq [of "t mod (n * k)" n] pos_mod_sign [OF assms(1), of "t mod (n * k)"] by linarith
  ultimately show ?thesis using assms pos_imp_zdiv_nonneg_iff [of n "t mod (n * k)"] pos_mod_sign [of "n * k" t] by fastforce
qed

lemma fieldsOf_day:
  "\<exists>k < 12. cpMonth (fieldsOf e) = 1 + int k \<and> 1 \<le> cpDay (fieldsOf e) \<and> cpDay (fieldsOf e) \<le> monthLengths (cpYear (fieldsOf e)) ! k
     \<and> daysBeforeYear (cpYear (fieldsOf e)) + sum_list (take k (monthLengths (cpYear (fieldsOf e)))) + cpDay (fieldsOf e) - 1
         = e div 1000 div 86400 + unixDay"
proof -
  define days where "days = e div 1000 div 86400 + unixDay"
  define y where "y = yearOfDay days"
  obtain m d where md: "monthDay (monthLengths y) 1 (days - daysBeforeYear y) = (m, d)" by (cases "monthDay (monthLengths y) 1 (days - daysBeforeYear y)")
  have "0 \<le> days - daysBeforeYear y" "days - daysBeforeYear y < sum_list (monthLengths y)"
    using yearOfDay_bounds [of days] daysBeforeYear_Suc [of y] sum_monthLengths [of y] by (auto simp: y_def)
  from monthDay_split [OF this md] obtain k where "k < 12" "m = 1 + int k" "d = days - daysBeforeYear y - sum_list (take k (monthLengths y)) + 1" "1 \<le> d" "d \<le> monthLengths y ! k"
    by auto
  moreover have "cpYear (fieldsOf e) = y" "cpMonth (fieldsOf e) = m" "cpDay (fieldsOf e) = d"
    using md by (simp_all add: fieldsOf_def Let_def days_def y_def)
  ultimately show ?thesis unfolding days_def [symmetric] by (intro exI [of _ k]) simp
qed

lemma fieldsOf_clock:
  "cpHour (fieldsOf e) = e div 1000 mod 86400 div 3600" "cpMinute (fieldsOf e) = e div 1000 mod 3600 div 60"
  "cpSecond (fieldsOf e) = e div 1000 mod 60" "cpMillisecond (fieldsOf e) = e mod 1000"
  by (simp_all add: fieldsOf_def Let_def split_beta)

lemma fieldsOf_real: "real_date (fieldsOf e)"
proof -
  obtain k where k: "k < 12" "cpMonth (fieldsOf e) = 1 + int k" and d: "1 \<le> cpDay (fieldsOf e)" "cpDay (fieldsOf e) \<le> monthLengths (cpYear (fieldsOf e)) ! k"
    using fieldsOf_day [of e] by blast
  have m: "nat (cpMonth (fieldsOf e) - 1) = k" "1 \<le> cpMonth (fieldsOf e)" "cpMonth (fieldsOf e) \<le> 12" using k by simp_all
  have "0 \<le> cpHour (fieldsOf e) \<and> cpHour (fieldsOf e) < 24" using quot_range [of 3600 24 "e div 1000"] by (simp add: fieldsOf_clock)
  moreover have "0 \<le> cpMinute (fieldsOf e) \<and> cpMinute (fieldsOf e) < 60" using quot_range [of 60 60 "e div 1000"] by (simp add: fieldsOf_clock)
  moreover have "0 \<le> cpSecond (fieldsOf e) \<and> cpSecond (fieldsOf e) < 60" by (simp add: fieldsOf_clock)
  moreover have "0 \<le> cpMillisecond (fieldsOf e) \<and> cpMillisecond (fieldsOf e) < 1000" by (simp add: fieldsOf_clock)
  ultimately show ?thesis unfolding real_date_def daysIn_def m(1) by (simp only: d m(2,3) simp_thms)
qed

theorem dateMilli_fieldsOf: "dateMilli (fieldsOf e) = e"
proof -
  obtain k where k: "k < 12" "cpMonth (fieldsOf e) = 1 + int k"
    "daysBeforeYear (cpYear (fieldsOf e)) + sum_list (take k (monthLengths (cpYear (fieldsOf e)))) + cpDay (fieldsOf e) - 1 = e div 1000 div 86400 + unixDay"
    using fieldsOf_day [of e] by blast
  have d: "daysBeforeYear (cpYear (fieldsOf e)) + daysBeforeMonth (cpYear (fieldsOf e)) (1 + int k) + (cpDay (fieldsOf e) - 1) - unixDay = e div 1000 div 86400"
    using k(3) by (simp add: daysBeforeMonth_def)
  have m: "(1 + int k - 1) div 12 = 0" "(1 + int k - 1) mod 12 + 1 = 1 + int k" using k(1) by simp_all
  have "dateMilli (fieldsOf e) = (((e div 1000 div 86400 * 24 + cpHour (fieldsOf e)) * 60 + cpMinute (fieldsOf e)) * 60 + cpSecond (fieldsOf e)) * 1000
      + cpMillisecond (fieldsOf e)"
    by (simp only: dateMilli_def Let_def k(2) m add_0_right d)
  then show ?thesis by (simp only: fieldsOf_clock clock_join div_mult_mod_eq)
qed

theorem fieldsOf_dateMilli:
  assumes "real_date p"
  shows "fieldsOf (dateMilli p) = p"
proof -
  let ?y = "cpYear p" and ?k = "nat (cpMonth p - 1)"
  let ?days = "daysBeforeYear ?y + sum_list (take ?k (monthLengths ?y)) + (cpDay p - 1) - unixDay"
  have m: "1 \<le> cpMonth p" "cpMonth p \<le> 12" "?k < 12" using assms by (auto simp: real_date_def)
  have e: "dateMilli p = (((?days * 24 + cpHour p) * 60 + cpMinute p) * 60 + cpSecond p) * 1000 + cpMillisecond p"
    using m by (simp add: dateMilli_def Let_def daysBeforeMonth_def)
  have r: "0 \<le> cpHour p" "cpHour p < 24" "0 \<le> cpMinute p" "cpMinute p < 60" "0 \<le> cpSecond p" "cpSecond p < 60"
    "0 \<le> cpMillisecond p" "cpMillisecond p < 1000"
    using assms by (simp_all add: real_date_def)
  note c = clock_fields [OF r e]
  have d: "1 \<le> cpDay p" "cpDay p \<le> monthLengths ?y ! ?k" using assms by (auto simp: real_date_def daysIn_def)
  have nn: "\<forall>l \<in> set (monthLengths ?y). 0 \<le> l" using monthLengths_pos [of ?y] by auto
  have md: "monthDay (monthLengths ?y) 1 (sum_list (take ?k (monthLengths ?y)) + cpDay p - 1) = (cpMonth p, cpDay p)"
    using monthDay_join [of ?k "monthLengths ?y" "cpDay p" 1] m d nn by simp
  have "0 \<le> sum_list (take ?k (monthLengths ?y))" using nn by (intro sum_list_nonneg) (auto dest: in_set_takeD)
  moreover have "sum_list (take ?k (monthLengths ?y)) + monthLengths ?y ! ?k \<le> sum_list (monthLengths ?y)"
  proof -
    have "sum_list (monthLengths ?y) = sum_list (take (Suc ?k) (monthLengths ?y)) + sum_list (drop (Suc ?k) (monthLengths ?y))"
      by (metis append_take_drop_id sum_list_append)
    moreover have "0 \<le> sum_list (drop (Suc ?k) (monthLengths ?y))" using nn by (intro sum_list_nonneg) (auto dest: in_set_dropD)
    ultimately show ?thesis using m(3) by (simp add: take_Suc_conv_app_nth)
  qed
  ultimately have y: "yearOfDay (?days + unixDay) = ?y"
    using d daysBeforeYear_Suc [of ?y] sum_monthLengths [of ?y] by (intro yearOfDay_eq) auto
  then have "fieldsOf (dateMilli p) = \<lparr>cpYear = cpYear p, cpMonth = cpMonth p, cpDay = cpDay p, cpHour = cpHour p, cpMinute = cpMinute p,
      cpSecond = cpSecond p, cpMillisecond = cpMillisecond p\<rparr>"
    using md unfolding fieldsOf_def Let_def c by (simp add: add_diff_eq)
  then show ?thesis by simp
qed

lemma fieldsOf_eq_iff: "fieldsOf e = p \<longleftrightarrow> real_date p \<and> e = dateMilli p"
  using fieldsOf_dateMilli fieldsOf_real dateMilli_fieldsOf by metis

section \<open>Digits\<close>

definition isDigit :: "char \<Rightarrow> bool" where
  "isDigit c \<longleftrightarrow> CHR ''0'' \<le> c \<and> c \<le> CHR ''9''"

definition digitVal :: "char \<Rightarrow> int" where
  "digitVal c = of_char c - 48"

definition dig :: "int \<Rightarrow> char" where
  "dig n = char_of (48 + nat n)"

text \<open>The number a run of digits denotes.\<close>

definition numVal :: "string \<Rightarrow> int" where
  "numVal cs = foldl (\<lambda>value digit. value * 10 + digitVal digit) 0 cs"

text \<open>\<open>appendInt\<close>: at least \<open>width\<close> digits, zero-padded.\<close>

function decimal :: "int \<Rightarrow> string" where
  "decimal n = (if n < 10 then [dig n] else decimal (n div 10) @ [dig (n mod 10)])"
  by pat_completeness auto
termination
  by (relation "measure nat") auto

declare decimal.simps [simp del]

definition padInt :: "nat \<Rightarrow> int \<Rightarrow> string" where
  "padInt width n =
     (let ds = decimal \<bar>n\<bar> in (if n < 0 then ''-'' else []) @ replicate (width - length ds) CHR ''0'' @ ds)"

fun fixed :: "nat \<Rightarrow> int \<Rightarrow> string" where
  "fixed 0 n = []"
| "fixed (Suc w) n = fixed w (n div 10) @ [dig (n mod 10)]"

lemma of_char_nat: "of_char c = int (of_char c)"
  by (simp add: of_char_def)

lemma of_char_bounds: "0 \<le> (of_char c :: int)" "(of_char c :: int) < 256"
  using nat_of_char_less_256 [of c] of_char_nat [of c] by auto

lemma isDigit_val: "isDigit c \<longleftrightarrow> 0 \<le> digitVal c \<and> digitVal c < 10"
  using of_char_nat [of c] by (auto simp: isDigit_def digitVal_def less_eq_char_def)

lemma digitVal_dig: "0 \<le> n \<Longrightarrow> n < 10 \<Longrightarrow> digitVal (dig n) = n"
proof -
  assume n: "0 \<le> n" "n < 10"
  then have "(of_char (dig n) :: nat) = 48 + nat n" by (simp add: dig_def)
  then show ?thesis using n of_char_nat [of "dig n"] by (simp add: digitVal_def)
qed

lemma dig_digitVal: "isDigit c \<Longrightarrow> dig (digitVal c) = c"
proof -
  assume "isDigit c"
  then have d: "0 \<le> digitVal c" by (simp add: isDigit_val)
  then have "48 + nat (digitVal c) = (of_char c :: nat)" using of_char_nat [of c] by (simp add: digitVal_def)
  then show ?thesis unfolding dig_def by simp
qed

lemma length_fixed [simp]: "length (fixed w n) = w"
  by (induction w arbitrary: n) auto

lemma fixed_digits: "list_all isDigit (fixed w n)"
  by (induction w arbitrary: n) (auto simp: isDigit_val digitVal_dig)

lemma numVal_snoc: "numVal (cs @ [c]) = numVal cs * 10 + digitVal c"
  by (simp add: numVal_def)

lemma numVal_Nil [simp]: "numVal [] = 0"
  by (simp add: numVal_def)

lemma numVal_fixed: "0 \<le> n \<Longrightarrow> n < 10 ^ w \<Longrightarrow> numVal (fixed w n) = n"
proof (induction w arbitrary: n)
  case (Suc w)
  have "n div 10 < 10 ^ w" using Suc.prems quot_rem(1) by (auto simp: div_less_iff_less_mult)
  then have "numVal (fixed w (n div 10)) = n div 10" using Suc by (simp add: pos_imp_zdiv_nonneg_iff)
  then show ?case by (simp add: numVal_snoc digitVal_dig)
qed simp

lemma numVal_digits: "list_all isDigit cs \<Longrightarrow> 0 \<le> numVal cs \<and> numVal cs < 10 ^ length cs \<and> fixed (length cs) (numVal cs) = cs"
proof (induction cs rule: rev_induct)
  case (snoc c cs)
  then have c: "0 \<le> digitVal c" "digitVal c < 10" "dig (digitVal c) = c" by (auto simp: isDigit_val dig_digitVal)
  have q: "numVal (cs @ [c]) div 10 = numVal cs" "numVal (cs @ [c]) mod 10 = digitVal c"
    using quot_rem [OF c(1,2), of _ "numVal cs"] by (simp_all add: numVal_snoc)
  have "0 \<le> numVal cs \<and> numVal cs < 10 ^ length cs \<and> fixed (length cs) (numVal cs) = cs" using snoc by simp
  moreover from this have "numVal cs + 1 \<le> 10 ^ length cs" by simp
  ultimately show ?case using c unfolding length_append_singleton fixed.simps q by (simp add: numVal_snoc)
qed simp

lemma fixed_zero: "fixed k 0 = replicate k CHR ''0''"
proof (induction k)
  case (Suc k)
  have "dig 0 = CHR ''0''" using dig_digitVal [of "CHR ''0''"] by (simp add: isDigit_def digitVal_def)
  then show ?case using Suc by (simp add: replicate_append_same)
qed simp

lemma decimal_fixed:
  "0 \<le> n \<Longrightarrow> n < 10 ^ w \<Longrightarrow> 0 < w \<Longrightarrow> replicate (w - length (decimal n)) CHR ''0'' @ decimal n = fixed w n \<and> length (decimal n) \<le> w"
proof (induction w arbitrary: n)
  case (Suc w)
  show ?case
  proof (cases "n < 10")
    case True
    then have "decimal n = [dig n]" by (simp add: decimal.simps [of n])
    moreover have "n div 10 = 0" "n mod 10 = n" using True Suc.prems(1) by simp_all
    ultimately show ?thesis by (simp add: fixed_zero)
  next
    case False
    then have w: "0 < w" using Suc.prems by (cases w) auto
    have sh: "decimal n = decimal (n div 10) @ [dig (n mod 10)]" using False by (simp add: decimal.simps [of n])
    have "0 \<le> n div 10" "n div 10 < 10 ^ w" using Suc.prems(1,2) by auto
    from Suc.IH [OF this w] show ?thesis unfolding sh by simp
  qed
qed simp

lemma padInt_fixed: "0 \<le> n \<Longrightarrow> n < 10 ^ w \<Longrightarrow> 0 < w \<Longrightarrow> padInt w n = fixed w n"
  using decimal_fixed [of n w] by (simp add: padInt_def Let_def)

section \<open>The canonical instant\<close>

text \<open>\<open>Format("2006-01-02T15:04:05.000Z")\<close>.\<close>

definition formatParts :: "calendar_parts \<Rightarrow> string" where
  "formatParts p = padInt 4 (cpYear p) @ ''-'' @ padInt 2 (cpMonth p) @ ''-'' @ padInt 2 (cpDay p) @ ''T'' @ padInt 2 (cpHour p) @ '':''
     @ padInt 2 (cpMinute p) @ '':'' @ padInt 2 (cpSecond p) @ ''.'' @ padInt 3 (cpMillisecond p) @ ''Z''"

definition isoMilli :: "int \<Rightarrow> string" where
  "isoMilli epoch = formatParts (fieldsOf epoch)"

text \<open>
  \<open>time.Parse\<close> with the same layout.  The library is more liberal than the layout: the hour may have one digit,
  the fraction may begin with a comma and its digits with a sign.
\<close>

definition literal :: "char \<Rightarrow> string \<Rightarrow> string option" where
  "literal c s = (case s of [] \<Rightarrow> None | x # r \<Rightarrow> if x = c then Some r else None)"

definition getnum :: "bool \<Rightarrow> string \<Rightarrow> (int \<times> string) option" where
  "getnum twoDigits s =
     (case s of
        [] \<Rightarrow> None
      | c # r \<Rightarrow>
          if \<not> isDigit c then None
          else if r \<noteq> [] \<and> isDigit (hd r) then Some (digitVal c * 10 + digitVal (hd r), tl r)
          else if twoDigits then None else Some (digitVal c, r))"

definition yearField :: "string \<Rightarrow> (int \<times> string) option" where
  "yearField s = (if length s < 4 \<or> \<not> list_all isDigit (take 4 s) then None else Some (numVal (take 4 s), drop 4 s))"

definition fractionField :: "string \<Rightarrow> (int \<times> string) option" where
  "fractionField s =
     (if length s < 4 \<or> hd s \<notin> {CHR ''.'', CHR '',''} then None
      else let ds = take 3 (tl s); signed = hd ds \<in> {CHR ''-'', CHR ''+''}; body = (if signed then tl ds else ds) in
        if \<not> list_all isDigit body then None
        else if hd ds = CHR ''-'' \<and> numVal body > 0 then None else Some (numVal body, drop 4 s))"

definition inRange :: "int \<Rightarrow> int \<Rightarrow> (int \<times> string) option \<Rightarrow> (int \<times> string) option" where
  "inRange low high r = Option.bind r (\<lambda>(n, s). if n < low \<or> high < n then None else Some (n, s))"

definition parseInstantMs :: "string \<Rightarrow> int option" where
  "parseInstantMs value' =
     Option.bind (yearField value') (\<lambda>(year, v).
     Option.bind (literal CHR ''-'' v) (\<lambda>v. Option.bind (inRange 1 12 (getnum True v)) (\<lambda>(month, v).
     Option.bind (literal CHR ''-'' v) (\<lambda>v. Option.bind (getnum True v) (\<lambda>(day, v).
     Option.bind (literal CHR ''T'' v) (\<lambda>v. Option.bind (inRange 0 23 (getnum False v)) (\<lambda>(hour, v).
     Option.bind (literal CHR '':'' v) (\<lambda>v. Option.bind (inRange 0 59 (getnum True v)) (\<lambda>(minute, v).
     Option.bind (literal CHR '':'' v) (\<lambda>v. Option.bind (inRange 0 59 (getnum True v)) (\<lambda>(second, v).
     Option.bind (fractionField v) (\<lambda>(milli, v). Option.bind (literal CHR ''Z'' v) (\<lambda>v.
       if v \<noteq> [] \<or> day < 1 \<or> day > daysIn year month then None
       else Some (dateMilli \<lparr>cpYear = year, cpMonth = month, cpDay = day, cpHour = hour, cpMinute = minute, cpSecond = second,
                    cpMillisecond = milli\<rparr>))))))))))))))"

text \<open>\<open>utcInstantPattern\<close>: the exact shape of a canonical instant.\<close>

definition utcInstantPattern :: "string \<Rightarrow> bool" where
  "utcInstantPattern s \<longleftrightarrow>
     length s = 24 \<and> list_all isDigit (take 4 s) \<and> s ! 4 = CHR ''-''
     \<and> (s ! 5 = CHR ''0'' \<and> isDigit (s ! 6) \<and> s ! 6 \<noteq> CHR ''0'' \<or> s ! 5 = CHR ''1'' \<and> s ! 6 \<in> {CHR ''0'', CHR ''1'', CHR ''2''})
     \<and> s ! 7 = CHR ''-''
     \<and> (s ! 8 = CHR ''0'' \<and> isDigit (s ! 9) \<and> s ! 9 \<noteq> CHR ''0'' \<or> s ! 8 \<in> {CHR ''1'', CHR ''2''} \<and> isDigit (s ! 9)
        \<or> s ! 8 = CHR ''3'' \<and> s ! 9 \<in> {CHR ''0'', CHR ''1''})
     \<and> s ! 10 = CHR ''T''
     \<and> (s ! 11 \<in> {CHR ''0'', CHR ''1''} \<and> isDigit (s ! 12) \<or> s ! 11 = CHR ''2'' \<and> s ! 12 \<in> {CHR ''0'', CHR ''1'', CHR ''2'', CHR ''3''})
     \<and> s ! 13 = CHR '':'' \<and> s ! 14 \<in> set ''012345'' \<and> isDigit (s ! 15)
     \<and> s ! 16 = CHR '':'' \<and> s ! 17 \<in> set ''012345'' \<and> isDigit (s ! 18)
     \<and> s ! 19 = CHR ''.'' \<and> list_all isDigit (take 3 (drop 20 s)) \<and> s ! 23 = CHR ''Z''"

definition MIN_FOUR_DIGIT_YEAR_MS :: int where "MIN_FOUR_DIGIT_YEAR_MS = -62135596800000"
definition MAX_FOUR_DIGIT_YEAR_MS :: int where "MAX_FOUR_DIGIT_YEAR_MS = 253402300799999"

definition representable :: "int \<Rightarrow> bool" where
  "representable e \<longleftrightarrow> MIN_FOUR_DIGIT_YEAR_MS \<le> e \<and> e \<le> MAX_FOUR_DIGIT_YEAR_MS"


text \<open>The fields of a representable instant.\<close>

lemma year_of_representable: "representable e \<longleftrightarrow> 1 \<le> cpYear (fieldsOf e) \<and> cpYear (fieldsOf e) \<le> 9999"
proof -
  define q where "q = e div 1000 div 86400"
  define r where "r = e mod 86400000"
  define days where "days = q + unixDay"
  have y: "cpYear (fieldsOf e) = yearOfDay days" by (simp add: fieldsOf_def days_def q_def Let_def split_beta)
  have "q = e div 86400000" by (simp add: q_def zdiv_zmult2_eq [symmetric])
  then have e: "e = q * 86400000 + r" "0 \<le> r" "r < 86400000" by (simp_all add: r_def)
  have b: "daysBeforeYear (yearOfDay days) \<le> days" "days < daysBeforeYear (yearOfDay days + 1)" using yearOfDay_bounds [of days] by simp_all
  have c: "daysBeforeYear 1 = 0" "daysBeforeYear 10000 = 3652059" by (simp_all add: daysBeforeYear_def)
  have low: "1 \<le> yearOfDay days \<longleftrightarrow> 0 \<le> days"
    using b c daysBeforeYear_mono [of 1 "yearOfDay days"] daysBeforeYear_mono [of "yearOfDay days + 1" 1] by linarith
  have high: "yearOfDay days \<le> 9999 \<longleftrightarrow> days < 3652059"
    using b c daysBeforeYear_mono [of 10000 "yearOfDay days"] daysBeforeYear_mono [of "yearOfDay days + 1" 10000] by linarith
  show ?thesis unfolding y low high unfolding representable_def MIN_FOUR_DIGIT_YEAR_MS_def MAX_FOUR_DIGIT_YEAR_MS_def days_def unixDay_def
    using e by linarith
qed

text \<open>A canonical text is seven digit groups between fixed separators.\<close>

definition digits :: "nat \<Rightarrow> string \<Rightarrow> bool" where
  "digits w g \<longleftrightarrow> length g = w \<and> list_all isDigit g"

definition grouped :: "string \<Rightarrow> string \<Rightarrow> string \<Rightarrow> string \<Rightarrow> string \<Rightarrow> string \<Rightarrow> string \<Rightarrow> string" where
  "grouped y m d h mi s ms = y @ CHR ''-'' # m @ CHR ''-'' # d @ CHR ''T'' # h @ CHR '':'' # mi @ CHR '':'' # s @ CHR ''.'' # ms @ ''Z''"

lemma digits_fixed [simp]: "digits w (fixed w n)"
  by (simp add: digits_def fixed_digits)

lemma digits_val: "digits w g \<Longrightarrow> 0 \<le> numVal g \<and> numVal g < 10 ^ w \<and> fixed w (numVal g) = g"
  using numVal_digits [of g] by (auto simp: digits_def)

lemma padInt_digits: "digits w g \<Longrightarrow> 0 < w \<Longrightarrow> padInt w (numVal g) = g"
  using digits_val [of w g] padInt_fixed [of "numVal g" w] by simp

lemma literal_Cons [simp]: "literal c (c # r) = Some r"
  by (simp add: literal_def)

lemma yearField_digits: "digits 4 g \<Longrightarrow> yearField (g @ r) = Some (numVal g, r)"
  by (simp add: yearField_def digits_def)

lemma digits_two: "digits 2 g \<longleftrightarrow> (\<exists>a b. g = [a, b] \<and> isDigit a \<and> isDigit b)"
  by (auto simp: digits_def numeral_2_eq_2 length_Suc_conv)

lemma digits_three: "digits 3 g \<longleftrightarrow> (\<exists>a b c. g = [a, b, c] \<and> isDigit a \<and> isDigit b \<and> isDigit c)"
  by (auto simp: digits_def numeral_3_eq_3 length_Suc_conv)

lemma digits_four: "digits 4 g \<longleftrightarrow> (\<exists>a b c d. g = [a, b, c, d] \<and> isDigit a \<and> isDigit b \<and> isDigit c \<and> isDigit d)"
  by (auto simp: digits_def numeral_eq_Suc length_Suc_conv)

lemma getnum_digits: "digits 2 g \<Longrightarrow> getnum b (g @ r) = Some (numVal g, r)"
  by (auto simp: digits_two getnum_def numVal_def)

lemma fraction_digits: "digits 3 g \<Longrightarrow> fractionField (CHR ''.'' # g @ r) = Some (numVal g, r)"
proof -
  assume "digits 3 g"
  then obtain a b c where g: "g = [a, b, c]" "isDigit a" "isDigit b" "isDigit c" by (auto simp: digits_three)
  then have "a \<noteq> CHR ''-''" "a \<noteq> CHR ''+''" by (auto simp: isDigit_def)
  then show ?thesis using g by (simp add: fractionField_def)
qed

definition groupParts :: "string \<Rightarrow> string \<Rightarrow> string \<Rightarrow> string \<Rightarrow> string \<Rightarrow> string \<Rightarrow> string \<Rightarrow> calendar_parts" where
  "groupParts y m d h mi s ms = \<lparr>cpYear = numVal y, cpMonth = numVal m, cpDay = numVal d, cpHour = numVal h, cpMinute = numVal mi,
     cpSecond = numVal s, cpMillisecond = numVal ms\<rparr>"

lemma parse_grouped:
  assumes "digits 4 y" "digits 2 m" "digits 2 d" "digits 2 h" "digits 2 mi" "digits 2 s" "digits 3 ms"
  shows "parseInstantMs (grouped y m d h mi s ms)
    = (if real_date (groupParts y m d h mi s ms) then Some (dateMilli (groupParts y m d h mi s ms)) else None)"
proof -
  have pos: "0 \<le> numVal m" "0 \<le> numVal h" "0 \<le> numVal mi" "0 \<le> numVal s" "0 \<le> numVal ms" "numVal ms < 1000"
    using assms digits_val by force+
  have tail: "literal CHR ''Z'' ''Z'' = Some []" by (simp add: literal_def)
  show ?thesis
    using pos by (simp add: grouped_def groupParts_def parseInstantMs_def yearField_digits getnum_digits fraction_digits assms inRange_def tail real_date_def)
qed

lemma format_grouped:
  assumes "digits 4 y" "digits 2 m" "digits 2 d" "digits 2 h" "digits 2 mi" "digits 2 s" "digits 3 ms"
  shows "formatParts (groupParts y m d h mi s ms) = grouped y m d h mi s ms"
  by (simp add: formatParts_def groupParts_def grouped_def padInt_digits assms)

lemma daysIn_le: "1 \<le> m \<Longrightarrow> m \<le> 12 \<Longrightarrow> daysIn y m \<le> 31"
proof -
  assume "1 \<le> m" "m \<le> 12"
  then have "monthLengths y ! nat (m - 1) \<in> set (monthLengths y)" by auto
  moreover have "\<forall>l \<in> set (monthLengths y). l \<le> 31" by (simp add: monthLengths_def)
  ultimately show ?thesis unfolding daysIn_def by blast
qed

lemma real_date_grouped:
  assumes "real_date p" "1 \<le> cpYear p" "cpYear p \<le> 9999"
  shows "\<exists>y m d h mi s ms. digits 4 y \<and> digits 2 m \<and> digits 2 d \<and> digits 2 h \<and> digits 2 mi \<and> digits 2 s \<and> digits 3 ms
    \<and> p = groupParts y m d h mi s ms"
proof -
  have "daysIn (cpYear p) (cpMonth p) \<le> 31" using assms(1) daysIn_le by (simp add: real_date_def)
  then have "p = groupParts (fixed 4 (cpYear p)) (fixed 2 (cpMonth p)) (fixed 2 (cpDay p)) (fixed 2 (cpHour p)) (fixed 2 (cpMinute p))
      (fixed 2 (cpSecond p)) (fixed 3 (cpMillisecond p))"
    using assms unfolding groupParts_def by (simp add: numVal_fixed real_date_def)
  then show ?thesis by (metis digits_fixed)
qed

lemma pattern_grouped:
  "utcInstantPattern t \<Longrightarrow> \<exists>y m d h mi s ms. digits 4 y \<and> digits 2 m \<and> digits 2 d \<and> digits 2 h \<and> digits 2 mi \<and> digits 2 s \<and> digits 3 ms
    \<and> t = grouped y m d h mi s ms"
proof -
  assume p: "utcInstantPattern t"
  then have len: "length t = 24" by (simp add: utcInstantPattern_def)
  have at: "t = [t ! 0, t ! 1, t ! 2, t ! 3, t ! 4, t ! 5, t ! 6, t ! 7, t ! 8, t ! 9, t ! 10, t ! 11, t ! 12, t ! 13, t ! 14, t ! 15, t ! 16, t ! 17, t ! 18, t ! 19, t ! 20, t ! 21, t ! 22, t ! 23]"
  proof -
    have "[0 ..< 24] = [0, 1, 2, 3, 4, 5, 6, 7, 8, 9, 10, 11, 12, 13, 14, 15, 16, 17, 18, 19, 20, 21, 22, 23]" by code_simp
    then show ?thesis using map_nth [of t] unfolding len by (simp only: list.map)
  qed
  have four: "take 4 t = [t ! 0, t ! 1, t ! 2, t ! 3]" and three: "take 3 (drop 20 t) = [t ! 20, t ! 21, t ! 22]" by (subst at, simp)+
  let ?y = "[t ! 0, t ! 1, t ! 2, t ! 3]" and ?m = "[t ! 5, t ! 6]" and ?d = "[t ! 8, t ! 9]" and ?h = "[t ! 11, t ! 12]" and ?mi = "[t ! 14, t ! 15]"
    and ?s = "[t ! 17, t ! 18]" and ?ms = "[t ! 20, t ! 21, t ! 22]"
  have g: "digits 4 ?y" "digits 3 ?ms" using p by (simp_all add: utcInstantPattern_def digits_four digits_three four three)
  have m: "t ! 5 = CHR ''0'' \<and> isDigit (t ! 6) \<and> t ! 6 \<noteq> CHR ''0'' \<or> t ! 5 = CHR ''1'' \<and> t ! 6 \<in> {CHR ''0'', CHR ''1'', CHR ''2''}"
    using p unfolding utcInstantPattern_def by (elim conjE)
  have d: "t ! 8 = CHR ''0'' \<and> isDigit (t ! 9) \<and> t ! 9 \<noteq> CHR ''0'' \<or> t ! 8 \<in> {CHR ''1'', CHR ''2''} \<and> isDigit (t ! 9)
        \<or> t ! 8 = CHR ''3'' \<and> t ! 9 \<in> {CHR ''0'', CHR ''1''}"
    using p unfolding utcInstantPattern_def by (elim conjE)
  have h: "t ! 11 \<in> {CHR ''0'', CHR ''1''} \<and> isDigit (t ! 12) \<or> t ! 11 = CHR ''2'' \<and> t ! 12 \<in> {CHR ''0'', CHR ''1'', CHR ''2'', CHR ''3''}"
    using p unfolding utcInstantPattern_def by (elim conjE)
  have mi: "t ! 14 \<in> set ''012345''" "isDigit (t ! 15)" and se: "t ! 17 \<in> set ''012345''" "isDigit (t ! 18)"
    using p unfolding utcInstantPattern_def by simp_all
  have lead: "c \<in> set ''012345'' \<Longrightarrow> isDigit c" for c by (auto simp: isDigit_def)
  have "isDigit (t ! 5)" "isDigit (t ! 6)" using m lead by auto
  moreover have "isDigit (t ! 8)" "isDigit (t ! 9)" using d lead by auto
  moreover have "isDigit (t ! 11)" "isDigit (t ! 12)" using h lead by auto
  moreover have "isDigit (t ! 14)" "isDigit (t ! 17)" using mi(1) se(1) lead by blast+
  ultimately have d2: "digits 2 ?m" "digits 2 ?d" "digits 2 ?h" "digits 2 ?mi" "digits 2 ?s" using mi(2) se(2) by (simp_all add: digits_def)
  have sep: "t ! 4 = CHR ''-''" "t ! 7 = CHR ''-''" "t ! 10 = CHR ''T''" "t ! 13 = CHR '':''" "t ! 16 = CHR '':''" "t ! 19 = CHR ''.''" "t ! 23 = CHR ''Z''"
    using p by (simp_all add: utcInstantPattern_def)
  have "t = grouped ?y ?m ?d ?h ?mi ?s ?ms" by (subst at, simp only: grouped_def sep append.simps)
  with g d2 show ?thesis by blast
qed

text \<open>Formatting and parsing are inverse on the instants of the years 1 to 9999.\<close>

theorem parse_isoMilli: "representable e \<Longrightarrow> parseInstantMs (isoMilli e) = Some e"
proof -
  assume "representable e"
  then obtain y m d h mi s ms where g: "digits 4 y" "digits 2 m" "digits 2 d" "digits 2 h" "digits 2 mi" "digits 2 s" "digits 3 ms"
    and p: "fieldsOf e = groupParts y m d h mi s ms"
    using real_date_grouped [OF fieldsOf_real [of e]] year_of_representable [of e] by blast
  have "isoMilli e = grouped y m d h mi s ms" using format_grouped [OF g] p by (simp add: isoMilli_def)
  then show ?thesis using parse_grouped [OF g] fieldsOf_real [of e] dateMilli_fieldsOf [of e] by (simp add: p)
qed

theorem isoMilli_parse:
  assumes "utcInstantPattern t" and "parseInstantMs t = Some e"
  shows "isoMilli e = t" and "take 5 t \<noteq> ''0000-'' \<Longrightarrow> representable e"
proof -
  from pattern_grouped [OF assms(1)] obtain y m d h mi s ms where g: "digits 4 y" "digits 2 m" "digits 2 d" "digits 2 h" "digits 2 mi" "digits 2 s" "digits 3 ms"
    and t: "t = grouped y m d h mi s ms" by blast
  have r: "real_date (groupParts y m d h mi s ms)" and e: "e = dateMilli (groupParts y m d h mi s ms)"
    using assms(2) parse_grouped [OF g] by (auto simp: t split: if_splits)
  have f: "fieldsOf e = groupParts y m d h mi s ms" using fieldsOf_dateMilli [OF r] e by simp
  then show "isoMilli e = t" using format_grouped [OF g] t by (simp add: isoMilli_def)
  assume n: "take 5 t \<noteq> ''0000-''"
  have y: "0 \<le> numVal y" "numVal y < 10000" "fixed 4 (numVal y) = y" using digits_val [OF g(1)] by simp_all
  have "numVal y \<noteq> 0"
  proof
    assume "numVal y = 0"
    then have "y = ''0000''" using y(3) fixed_zero [of 4] by (simp add: numeral_eq_Suc)
    then show False using n t by (simp add: grouped_def)
  qed
  then show "representable e" unfolding year_of_representable f using y by (simp add: groupParts_def)
qed

text \<open>Every representable instant is written in the canonical shape.\<close>

lemma digit_eq: "isDigit c \<Longrightarrow> isDigit k \<Longrightarrow> c = k \<longleftrightarrow> digitVal c = digitVal k"
  using dig_digitVal [of c] dig_digitVal [of k] by metis

lemma digit_chars:
  "isDigit CHR ''0''" "isDigit CHR ''1''" "isDigit CHR ''2''" "isDigit CHR ''3''" "isDigit CHR ''4''" "isDigit CHR ''5''"
  "digitVal CHR ''0'' = 0" "digitVal CHR ''1'' = 1" "digitVal CHR ''2'' = 2" "digitVal CHR ''3'' = 3" "digitVal CHR ''4'' = 4" "digitVal CHR ''5'' = 5"
  by (simp_all add: isDigit_def digitVal_def)

lemma group_value: "isDigit a \<Longrightarrow> isDigit b \<Longrightarrow> numVal [a, b] = digitVal a * 10 + digitVal b \<and> 0 \<le> digitVal a \<and> digitVal a < 10 \<and> 0 \<le> digitVal b \<and> digitVal b < 10"
  by (simp add: numVal_def isDigit_val)

lemmas digit_pair = digit_eq digit_chars

lemma month_shape:
  "isDigit a \<Longrightarrow> isDigit b \<Longrightarrow> 1 \<le> numVal [a, b] \<Longrightarrow> numVal [a, b] \<le> 12 \<Longrightarrow>
     a = CHR ''0'' \<and> b \<noteq> CHR ''0'' \<or> a = CHR ''1'' \<and> b \<in> {CHR ''0'', CHR ''1'', CHR ''2''}"
  using group_value [of a b] by (simp add: digit_pair) presburger

lemma day_shape:
  "isDigit a \<Longrightarrow> isDigit b \<Longrightarrow> 1 \<le> numVal [a, b] \<Longrightarrow> numVal [a, b] \<le> 31 \<Longrightarrow>
     a = CHR ''0'' \<and> b \<noteq> CHR ''0'' \<or> a \<in> {CHR ''1'', CHR ''2''} \<or> a = CHR ''3'' \<and> b \<in> {CHR ''0'', CHR ''1''}"
  using group_value [of a b] by (simp add: digit_pair) presburger

lemma hour_shape:
  "isDigit a \<Longrightarrow> isDigit b \<Longrightarrow> numVal [a, b] < 24 \<Longrightarrow>
     a \<in> {CHR ''0'', CHR ''1''} \<or> a = CHR ''2'' \<and> b \<in> {CHR ''0'', CHR ''1'', CHR ''2'', CHR ''3''}"
  using group_value [of a b] by (simp add: digit_pair) presburger

lemma sixty_shape: "isDigit a \<Longrightarrow> isDigit b \<Longrightarrow> numVal [a, b] < 60 \<Longrightarrow> a \<in> set ''012345''"
  using group_value [of a b] by (simp add: digit_pair) presburger

lemma grouped_pattern:
  assumes "digits 4 y" "digits 2 m" "digits 2 d" "digits 2 h" "digits 2 mi" "digits 2 s" "digits 3 ms" and r: "real_date (groupParts y m d h mi s ms)"
  shows "utcInstantPattern (grouped y m d h mi s ms)"
proof -
  obtain y1 y2 y3 y4 where y: "y = [y1, y2, y3, y4]" "isDigit y1" "isDigit y2" "isDigit y3" "isDigit y4" using assms(1) by (auto simp: digits_four)
  obtain m1 m2 where m: "m = [m1, m2]" "isDigit m1" "isDigit m2" using assms(2) by (auto simp: digits_two)
  obtain d1 d2 where d: "d = [d1, d2]" "isDigit d1" "isDigit d2" using assms(3) by (auto simp: digits_two)
  obtain h1 h2 where h: "h = [h1, h2]" "isDigit h1" "isDigit h2" using assms(4) by (auto simp: digits_two)
  obtain i1 i2 where i: "mi = [i1, i2]" "isDigit i1" "isDigit i2" using assms(5) by (auto simp: digits_two)
  obtain s1 s2 where s: "s = [s1, s2]" "isDigit s1" "isDigit s2" using assms(6) by (auto simp: digits_two)
  obtain f1 f2 f3 where f: "ms = [f1, f2, f3]" "isDigit f1" "isDigit f2" "isDigit f3" using assms(7) by (auto simp: digits_three)
  have rs: "1 \<le> numVal m" "numVal m \<le> 12" "1 \<le> numVal d" "numVal d \<le> daysIn (numVal y) (numVal m)" "numVal h < 24" "numVal mi < 60" "numVal s < 60"
    using r by (simp_all add: real_date_def groupParts_def)
  have "numVal d \<le> 31" using rs(4) daysIn_le [OF rs(1,2)] by (rule order_trans)
  note shapes = month_shape [OF m(2,3) rs(1,2) [unfolded m(1)]] day_shape [OF d(2,3) rs(3) [unfolded d(1)] this [unfolded d(1)]]
    hour_shape [OF h(2,3) rs(5) [unfolded h(1)]] sixty_shape [OF i(2,3) rs(6) [unfolded i(1)]] sixty_shape [OF s(2,3) rs(7) [unfolded s(1)]]
  show ?thesis
    unfolding utcInstantPattern_def grouped_def y(1) m(1) d(1) h(1) i(1) s(1) f(1)
    by (intro conjI) (use shapes y m d h i s f in simp_all)
qed

lemma isoMilli_pattern: "representable e \<Longrightarrow> utcInstantPattern (isoMilli e) \<and> take 5 (isoMilli e) \<noteq> ''0000-''"
proof -
  assume e: "representable e"
  then obtain y m d h mi s ms where g: "digits 4 y" "digits 2 m" "digits 2 d" "digits 2 h" "digits 2 mi" "digits 2 s" "digits 3 ms"
    and p: "fieldsOf e = groupParts y m d h mi s ms"
    using real_date_grouped [OF fieldsOf_real [of e]] year_of_representable [of e] by blast
  have i: "isoMilli e = grouped y m d h mi s ms" using format_grouped [OF g] p by (simp add: isoMilli_def)
  have "take 5 (isoMilli e) = y @ ''-''" unfolding i grouped_def using g(1) by (simp add: digits_def)
  moreover have "y \<noteq> ''0000''"
  proof
    assume "y = ''0000''"
    then have "cpYear (fieldsOf e) = 0" by (simp add: p groupParts_def numVal_def digit_chars)
    then show False using e year_of_representable [of e] by simp
  qed
  ultimately show ?thesis using grouped_pattern [OF g] fieldsOf_real [of e] i p by simp
qed

end
