(* ===== verification/Schedule_Domain.thy ===== *)
theory Schedule_Domain
  imports Go_Time Event_Sourcing
begin

text \<open>
  The durable domain of \<open>schedule\<close> (\<open>types.go\<close>, \<open>domain.go\<close>): the records and changes with their strict
  decoder, the fold of the session log into the active schedules, the rules a new schedule is made by, and local time in a zone (the zone
  database is an argument).  Shown here: the well-formed changes are those that survive being written, every accepted log is well-typed,
  fresh identities are found, a local time resolves to the earliest instant that shows it, and a fixed-rate rule advances by its latest
  missed moment.  The error texts keep the wording of the code; values quoted in them are left out where they only repeat an input.
\<close>

section \<open>Records and changes\<close>

record after_schedule_record =
  arID :: string
  arKind :: string
  arPrompt :: string
  arAfterSeconds :: int
  arScheduledAt :: string

record at_schedule_record =
  trID :: string
  trKind :: string
  trPrompt :: string
  trScheduledAt :: string

record every_schedule_record =
  erID :: string
  erKind :: string
  erPrompt :: string
  erEverySeconds :: int
  erScheduledAt :: string

datatype schedule_record = AfterRecord after_schedule_record | AtRecord at_schedule_record | EveryRecord every_schedule_record

datatype schedule_change =
    ScheduleCreateChange schedule_record
  | ScheduleDeleteChange string
  | OneShotScheduleDispatchChange string
  | EveryScheduleDispatchChange string string

primrec recordId :: "schedule_record \<Rightarrow> string" where
  "recordId (AfterRecord r) = arID r"
| "recordId (AtRecord r) = trID r"
| "recordId (EveryRecord r) = erID r"

text \<open>Every message of \<open>ScheduleLogError\<close> is a constant or names one id.\<close>

datatype input_code = CodeInvalidPrompt | CodeInvalidRule | CodeInvalidTimeZone | CodeNotFuture | CodeTimeOutOfRange | CodeFrequencyTooHigh

datatype schedule_error =
    ScheduleLogError string
  | IdReused string
  | DeleteInactive string
  | DispatchInactive string
  | ScheduleInputError input_code string

definition SCHEDULE_CHANGE_VERSION :: int where "SCHEDULE_CHANGE_VERSION = 1"
definition MIN_EVERY_INTERVAL_SECONDS :: int where "MIN_EVERY_INTERVAL_SECONDS = 300"
definition EventScheduleChange :: string where "EventScheduleChange = ''schedule/change''"

definition quoted :: "string \<Rightarrow> string" where
  "quoted s = CHR 0x22 # s @ [CHR 0x22]"

text \<open>The messages of the corrupt-log errors.\<close>

definition instantShape :: schedule_error where "instantShape = ScheduleLogError ''scheduledAt must be a canonical four-digit-year RFC 3339 UTC instant''"
definition instantCalendar :: schedule_error where "instantCalendar = ScheduleLogError ''scheduledAt is not a real UTC calendar instant''"
definition idShape :: schedule_error where "idShape = ScheduleLogError ''schedule id must be a non-empty string without surrounding whitespace''"
definition promptShape :: schedule_error where "promptShape = ScheduleLogError ''prompt must be non-empty and already trimmed''"
definition afterKeys :: schedule_error where "afterKeys = ScheduleLogError ''after schedule must contain exactly id, kind, prompt, afterSeconds, and scheduledAt''"
definition afterSecondsShape :: schedule_error where "afterSecondsShape = ScheduleLogError ''afterSeconds must be a positive safe integer''"
definition atKeys :: schedule_error where "atKeys = ScheduleLogError ''at schedule must contain exactly id, kind, prompt, and scheduledAt''"
definition everyKeys :: schedule_error where "everyKeys = ScheduleLogError ''every schedule must contain exactly id, kind, prompt, everySeconds, and scheduledAt''"
definition recordShape :: schedule_error where "recordShape = ScheduleLogError ''schedule record must be an object''"
definition payloadShape :: schedule_error where "payloadShape = ScheduleLogError ''schedule/change payload must be an object''"
definition versionShape :: schedule_error where "versionShape = ScheduleLogError ''schedule/change version must be 1''"
definition createKeys :: schedule_error where "createKeys = ScheduleLogError ''schedule create must contain exactly version, operation, and schedule''"
definition deleteKeys :: schedule_error where "deleteKeys = ScheduleLogError ''schedule delete must contain exactly version, operation, and id''"
definition dispatchKeys :: schedule_error where "dispatchKeys = ScheduleLogError ''schedule dispatch must contain id and optional acceptedAt only''"
definition operationShape :: schedule_error where "operationShape = ScheduleLogError ''schedule/change operation must be create, delete, or dispatch''"
definition acceptedRange :: schedule_error where "acceptedRange = ScheduleLogError ''every acceptedAt must be a representable four-digit-year instant''"
definition intervalShape :: schedule_error where "intervalShape = ScheduleLogError ''every interval milliseconds must be a positive safe integer''"
definition earlyDispatch :: schedule_error where "earlyDispatch = ScheduleLogError ''every dispatch cannot precede the active scheduledAt''"
definition occurrenceRange :: schedule_error where "occurrenceRange = ScheduleLogError ''every occurrence arithmetic must stay within the accepted interval''"
definition acceptedCalendar :: schedule_error where "acceptedCalendar = ScheduleLogError ''acceptedAt is not a real UTC calendar instant''"
definition everyNeedsAccepted :: schedule_error where "everyNeedsAccepted = ScheduleLogError ''every dispatch must contain acceptedAt''"
definition oneShotAccepted :: schedule_error where "oneShotAccepted = ScheduleLogError ''one-shot dispatch must not contain acceptedAt''"
definition seedRange :: schedule_error where "seedRange = ScheduleLogError ''schedule seedLength must be within the supplied event log''"
definition kindShape :: schedule_error where
  "kindShape = ScheduleLogError (''v1 schedule kind must be '' @ quoted ''after'' @ '', '' @ quoted ''at'' @ '', or '' @ quoted ''every'')"
definition everySecondsShape :: schedule_error where "everySecondsShape = ScheduleLogError ''everySeconds must be a safe integer of at least 300''"

section \<open>Decoding\<close>

text \<open>\<open>map[string]json.RawMessage\<close>: JSON \<open>null\<close> gives the empty map.\<close>

definition rawObject :: "raw \<Rightarrow> (string \<times> json) list option" where
  "rawObject r = (case r of Some (JObj kvs) \<Rightarrow> Some kvs | Some JNull \<Rightarrow> Some [] | _ \<Rightarrow> None)"

definition hasExactKeys :: "(string \<times> json) list \<Rightarrow> string list \<Rightarrow> bool" where
  "hasExactKeys value' expected \<longleftrightarrow> length (remdups (map fst value')) = length expected \<and> list_all (\<lambda>key. obj_get key value' \<noteq> None) expected"

definition decodeInstant :: "raw \<Rightarrow> (schedule_error, string) outcome" where
  "decodeInstant value' =
     (case unmarshal_ok dec_string [] value' of
        None \<Rightarrow> Err instantShape
      | Some text \<Rightarrow>
          if \<not> utcInstantPattern text \<or> take 5 text = ''0000-''
          then Err instantShape
          else (case parseInstantMs text of
                  None \<Rightarrow> Err instantCalendar
                | Some epoch \<Rightarrow>
                    if isoMilli epoch \<noteq> text then Err instantCalendar else Ok text))"

definition decodeId :: "raw \<Rightarrow> (schedule_error, string) outcome" where
  "decodeId value' =
     (case unmarshal_ok dec_string [] value' of
        None \<Rightarrow> Err idShape
      | Some text \<Rightarrow>
          if text = [] \<or> TrimSpace text \<noteq> text
          then Err idShape else Ok text)"

definition decodeStringField :: "(string \<times> json) list \<Rightarrow> string \<Rightarrow> string option" where
  "decodeStringField value' name = (case obj_get name value' of None \<Rightarrow> None | Some raw \<Rightarrow> unmarshal_ok dec_string [] (Some raw))"

text \<open>The \<open>float64\<close> of the field must be a whole number of at most the safe range; a whole number below the 64-bit range does not
  survive the conversion to \<open>int64\<close> and back.\<close>

definition wholeSeconds :: "int \<Rightarrow> int option" where
  "wholeSeconds n = (if n > maxSafeInteger \<or> \<not> in_i64 n then None else Some n)"

definition decodeIntField :: "(string \<times> json) list \<Rightarrow> string \<Rightarrow> int option" where
  "decodeIntField value' name =
     (case obj_get name value' of
        Some JNull \<Rightarrow> Some 0
      | Some (JInt n) \<Rightarrow> wholeSeconds (float_round n)
      | Some (JFloat q) \<Rightarrow> if q = of_int \<lfloor>q\<rfloor> then wholeSeconds \<lfloor>q\<rfloor> else None
      | _ \<Rightarrow> None)"

definition decodeTrimmedPrompt :: "(string \<times> json) list \<Rightarrow> (schedule_error, string) outcome" where
  "decodeTrimmedPrompt value' =
     (case decodeStringField value' ''prompt'' of
        None \<Rightarrow> Err promptShape
      | Some prompt \<Rightarrow>
          if prompt = [] \<or> TrimSpace prompt \<noteq> prompt then Err promptShape else Ok prompt)"

definition decodeAfterRecord :: "(string \<times> json) list \<Rightarrow> (schedule_error, after_schedule_record) outcome" where
  "decodeAfterRecord value' =
     (if \<not> hasExactKeys value' [''id'', ''kind'', ''prompt'', ''afterSeconds'', ''scheduledAt'']
      then Err afterKeys
      else andThen (decodeTrimmedPrompt value') (\<lambda>prompt.
        case decodeIntField value' ''afterSeconds'' of
          None \<Rightarrow> Err afterSecondsShape
        | Some afterSeconds \<Rightarrow>
            if afterSeconds \<le> 0 then Err afterSecondsShape
            else andThen (decodeId (obj_get ''id'' value')) (\<lambda>id.
                 andThen (decodeInstant (obj_get ''scheduledAt'' value')) (\<lambda>scheduledAt.
                   Ok \<lparr>arID = id, arKind = ''after'', arPrompt = prompt, arAfterSeconds = afterSeconds, arScheduledAt = scheduledAt\<rparr>))))"

definition decodeAtRecord :: "(string \<times> json) list \<Rightarrow> (schedule_error, at_schedule_record) outcome" where
  "decodeAtRecord value' =
     (if \<not> hasExactKeys value' [''id'', ''kind'', ''prompt'', ''scheduledAt'']
      then Err atKeys
      else andThen (decodeTrimmedPrompt value') (\<lambda>prompt.
           andThen (decodeId (obj_get ''id'' value')) (\<lambda>id.
           andThen (decodeInstant (obj_get ''scheduledAt'' value')) (\<lambda>scheduledAt.
             Ok \<lparr>trID = id, trKind = ''at'', trPrompt = prompt, trScheduledAt = scheduledAt\<rparr>))))"

definition decodeEveryRecord :: "(string \<times> json) list \<Rightarrow> (schedule_error, every_schedule_record) outcome" where
  "decodeEveryRecord value' =
     (if \<not> hasExactKeys value' [''id'', ''kind'', ''prompt'', ''everySeconds'', ''scheduledAt'']
      then Err everyKeys
      else andThen (decodeTrimmedPrompt value') (\<lambda>prompt.
        case decodeIntField value' ''everySeconds'' of
          None \<Rightarrow> Err everySecondsShape
        | Some everySeconds \<Rightarrow>
            if everySeconds < MIN_EVERY_INTERVAL_SECONDS then Err everySecondsShape
            else if i64 (everySeconds * 1000) div everySeconds \<noteq> 1000 then Err everySecondsShape
            else andThen (decodeId (obj_get ''id'' value')) (\<lambda>id.
                 andThen (decodeInstant (obj_get ''scheduledAt'' value')) (\<lambda>scheduledAt.
                   Ok \<lparr>erID = id, erKind = ''every'', erPrompt = prompt, erEverySeconds = everySeconds, erScheduledAt = scheduledAt\<rparr>))))"

definition decodeScheduleRecord :: "raw \<Rightarrow> (schedule_error, schedule_record) outcome" where
  "decodeScheduleRecord raw =
     (case rawObject raw of
        None \<Rightarrow> Err recordShape
      | Some object \<Rightarrow>
          let kind = (case decodeStringField object ''kind'' of None \<Rightarrow> [] | Some k \<Rightarrow> k) in
          if kind = ''after'' then andThen (decodeAfterRecord object) (\<lambda>r. Ok (AfterRecord r))
          else if kind = ''at'' then andThen (decodeAtRecord object) (\<lambda>r. Ok (AtRecord r))
          else if kind = ''every'' then andThen (decodeEveryRecord object) (\<lambda>r. Ok (EveryRecord r))
          else Err kindShape)"

definition DecodeScheduleChange :: "raw \<Rightarrow> (schedule_error, schedule_change) outcome" where
  "DecodeScheduleChange value' =
     (case rawObject value' of
        None \<Rightarrow> Err payloadShape
      | Some object \<Rightarrow>
          if (case obj_get ''version'' object of None \<Rightarrow> True | Some raw \<Rightarrow> unmarshal_ok dec_int64 0 (Some raw) \<noteq> Some SCHEDULE_CHANGE_VERSION)
          then Err versionShape
          else
            let operation = (case decodeStringField object ''operation'' of None \<Rightarrow> [] | Some k \<Rightarrow> k) in
            if operation = ''create'' then
              (if \<not> hasExactKeys object [''version'', ''operation'', ''schedule'']
               then Err createKeys
               else andThen (decodeScheduleRecord (obj_get ''schedule'' object)) (\<lambda>schedule. Ok (ScheduleCreateChange schedule)))
            else if operation = ''delete'' then
              (if \<not> hasExactKeys object [''version'', ''operation'', ''id'']
               then Err deleteKeys
               else andThen (decodeId (obj_get ''id'' object)) (\<lambda>id. Ok (ScheduleDeleteChange id)))
            else if operation = ''dispatch'' then
              (if hasExactKeys object [''version'', ''operation'', ''id'']
               then andThen (decodeId (obj_get ''id'' object)) (\<lambda>id. Ok (OneShotScheduleDispatchChange id))
               else if hasExactKeys object [''version'', ''operation'', ''id'', ''acceptedAt'']
               then andThen (decodeId (obj_get ''id'' object)) (\<lambda>id.
                    andThen (decodeInstant (obj_get ''acceptedAt'' object)) (\<lambda>acceptedAt. Ok (EveryScheduleDispatchChange id acceptedAt)))
               else Err dispatchKeys)
            else Err operationShape)"

section \<open>Replay\<close>

record every_occurrence =
  eoOccurrenceAt :: string
  eoNextScheduledAt :: string

definition ResolveEveryOccurrence :: "every_schedule_record \<Rightarrow> int \<Rightarrow> (schedule_error, every_occurrence) outcome" where
  "ResolveEveryOccurrence record acceptedAt =
     (case parseInstantMs (erScheduledAt record) of
        None \<Rightarrow> Err instantCalendar
      | Some target \<Rightarrow>
          if acceptedAt < MIN_FOUR_DIGIT_YEAR_MS \<or> acceptedAt > MAX_FOUR_DIGIT_YEAR_MS
          then Err acceptedRange
          else
            let interval = i64 (erEverySeconds record * 1000) in
            if erEverySeconds record \<le> 0 \<or> interval \<le> 0 \<or> interval div erEverySeconds record \<noteq> 1000
            then Err intervalShape
            else if acceptedAt < target then Err earlyDispatch
            else
              let steps = i64 (acceptedAt - target) div interval; occurrence = i64 (target + i64 (steps * interval)) in
              if occurrence < target \<or> occurrence > acceptedAt
              then Err occurrenceRange
              else
                let next = i64 (occurrence + interval) in
                Ok \<lparr>eoOccurrenceAt = isoMilli occurrence, eoNextScheduledAt = (if next > MAX_FOUR_DIGIT_YEAR_MS then [] else isoMilli next)\<rparr>)"

text \<open>\<open>None\<close> retires the record.\<close>

definition dispatchedRecord :: "schedule_record \<Rightarrow> schedule_change \<Rightarrow> (schedule_error, schedule_record option) outcome" where
  "dispatchedRecord record change =
     (case record of
        EveryRecord every \<Rightarrow>
          (case change of
             EveryScheduleDispatchChange _ acceptedAt \<Rightarrow>
               (case parseInstantMs acceptedAt of
                  None \<Rightarrow> Err acceptedCalendar
                | Some accepted \<Rightarrow>
                    andThen (ResolveEveryOccurrence every accepted) (\<lambda>occurrence.
                      Ok (if eoNextScheduledAt occurrence = [] then None
                          else Some (EveryRecord (every\<lparr>erScheduledAt := eoNextScheduledAt occurrence\<rparr>)))))
           | _ \<Rightarrow> Err everyNeedsAccepted)
      | _ \<Rightarrow>
          (case change of
             EveryScheduleDispatchChange _ _ \<Rightarrow> Err oneShotAccepted
           | _ \<Rightarrow> Ok None))"

fun retireOrder :: "string list \<Rightarrow> string \<Rightarrow> string list" where
  "retireOrder [] sid = []"
| "retireOrder (candidate # order) sid = (if candidate = sid then order else candidate # retireOrder order sid)"

text \<open>The maps and lists the fold keeps: active records, their create order, every id ever created.\<close>

record fold_state =
  fsActive :: "string \<Rightarrow> schedule_record option"
  fsOrder :: "string list"
  fsSeen :: "string list"

definition retire :: "fold_state \<Rightarrow> string \<Rightarrow> fold_state" where
  "retire st sid = st\<lparr>fsActive := (fsActive st)(sid := None), fsOrder := retireOrder (fsOrder st) sid\<rparr>"

definition applyScheduleChange :: "fold_state \<Rightarrow> schedule_change \<Rightarrow> (schedule_error, fold_state) outcome" where
  "applyScheduleChange st change =
     (case change of
        ScheduleCreateChange schedule \<Rightarrow>
          let sid = recordId schedule in
          if sid \<in> set (fsSeen st) then Err (IdReused sid)
          else Ok \<lparr>fsActive = (fsActive st)(sid := Some schedule), fsOrder = fsOrder st @ [sid], fsSeen = fsSeen st @ [sid]\<rparr>
      | ScheduleDeleteChange sid \<Rightarrow> if fsActive st sid = None then Err (DeleteInactive sid) else Ok (retire st sid)
      | OneShotScheduleDispatchChange sid \<Rightarrow>
          (case fsActive st sid of
             None \<Rightarrow> Err (DispatchInactive sid)
           | Some record \<Rightarrow> andThen (dispatchedRecord record change) (\<lambda>next. Ok (if next = None then retire st sid else st)))
      | EveryScheduleDispatchChange sid _ \<Rightarrow>
          (case fsActive st sid of
             None \<Rightarrow> Err (DispatchInactive sid)
           | Some record \<Rightarrow>
               andThen (dispatchedRecord record change) (\<lambda>next.
                 Ok (case next of None \<Rightarrow> retire st sid | Some r \<Rightarrow> st\<lparr>fsActive := (fsActive st)(sid := Some r)\<rparr>))))"

definition scheduleStep :: "fold_state \<Rightarrow> event \<Rightarrow> (schedule_error, fold_state) outcome" where
  "scheduleStep st event =
     (if evType event \<noteq> EventScheduleChange then Ok st else andThen (DecodeScheduleChange (evData event)) (applyScheduleChange st))"

record folded_schedules =
  fdActive :: "schedule_record list"
  fdSeenIds :: "string list"

definition empty_fold :: fold_state where
  "empty_fold = \<lparr>fsActive = Map.empty, fsOrder = [], fsSeen = []\<rparr>"

definition foldResult :: "fold_state \<Rightarrow> folded_schedules" where
  "foldResult st = \<lparr>fdActive = map (\<lambda>id. the (fsActive st id)) (fsOrder st), fdSeenIds = fsSeen st\<rparr>"

definition FoldScheduleEvents :: "event list \<Rightarrow> int \<Rightarrow> (schedule_error, folded_schedules) outcome" where
  "FoldScheduleEvents events seedLength =
     (if seedLength < 0 \<or> seedLength > int (length events)
      then Err seedRange
      else andThen (foldM scheduleStep empty_fold (drop (nat seedLength) events)) (\<lambda>st. Ok (foldResult st)))"

section \<open>Identities\<close>

definition scheduleName :: "nat \<Rightarrow> string" where
  "scheduleName n = ''schedule-'' @ show_int (int n)"

lemma numVal_show_nat: "numVal (show_nat n) = int n"
proof (induction n rule: show_nat.induct)
  case (1 n)
  have c: "digitVal (char_of (48 + d)) = int d" if "d < 10" for d :: nat
    using that digitVal_dig [of "int d"] by (simp add: dig_def)
  show ?case
  proof (cases "n < 10")
    case True
    then show ?thesis using c [of n] by (simp add: show_nat.simps [of n] numVal_def)
  next
    case False
    have "int (n div 10) * 10 + int (n mod 10) = int (n div 10 * 10 + n mod 10)" by (simp only: of_nat_add of_nat_mult of_nat_numeral)
    then have "int (n div 10) * 10 + int (n mod 10) = int n" by (simp only: div_mult_mod_eq)
    with False show ?thesis using 1 c [of "n mod 10"] by (simp add: show_nat.simps [of n] numVal_snoc)
  qed
qed

lemma scheduleName_inj: "scheduleName a = scheduleName b \<longleftrightarrow> a = b"
proof
  assume "scheduleName a = scheduleName b"
  then have "show_nat a = show_nat b" by (simp add: scheduleName_def show_int_def)
  then have "int a = int b" by (metis numVal_show_nat)
  then show "a = b" by simp
qed simp

lemma names_finite: "finite {k. scheduleName k \<in> set seen}"
  by (rule finite_vimageI [of "set seen" scheduleName, unfolded vimage_def]) (auto simp: inj_on_def scheduleName_inj)

function allocateFrom :: "string list \<Rightarrow> nat \<Rightarrow> string" where
  "allocateFrom seen sequence =
     (if scheduleName sequence \<notin> set seen then scheduleName sequence else allocateFrom seen (sequence + 1))"
  by pat_completeness auto

termination
proof (relation "measure (\<lambda>(seen, n). card {k. n \<le> k \<and> scheduleName k \<in> set seen})")
  fix seen :: "string list" and n
  assume "\<not> scheduleName n \<notin> set seen"
  then have "n \<in> {k. n \<le> k \<and> scheduleName k \<in> set seen}" "n \<notin> {k. n + 1 \<le> k \<and> scheduleName k \<in> set seen}"
    "{k. n + 1 \<le> k \<and> scheduleName k \<in> set seen} \<subseteq> {k. n \<le> k \<and> scheduleName k \<in> set seen}" by auto
  then have "{k. n + 1 \<le> k \<and> scheduleName k \<in> set seen} \<subset> {k. n \<le> k \<and> scheduleName k \<in> set seen}" by blast
  moreover have "finite {k. n \<le> k \<and> scheduleName k \<in> set seen}" by (rule finite_subset [OF _ names_finite [of seen]]) auto
  ultimately show "((seen, n + 1), seen, n) \<in> measure (\<lambda>(seen, n). card {k. n \<le> k \<and> scheduleName k \<in> set seen})" by (simp add: psubset_card_mono)
qed simp

declare allocateFrom.simps [simp del]

definition AllocateScheduleId :: "folded_schedules \<Rightarrow> string" where
  "AllocateScheduleId folded = allocateFrom (fdSeenIds folded) (length (remdups (fdSeenIds folded)) + 1)"

section \<open>Rules\<close>

definition timeOutOfRange :: schedule_error where
  "timeOutOfRange = ScheduleInputError CodeTimeOutOfRange ''The scheduled time must be representable as a four-digit-year RFC 3339 UTC instant.''"
definition notFuture :: schedule_error where
  "notFuture = ScheduleInputError CodeNotFuture ''The scheduled time must be strictly in the future.''"
definition invalidPrompt :: schedule_error where
  "invalidPrompt = ScheduleInputError CodeInvalidPrompt ''prompt must be non-empty after trimming.''"
definition everyNotSafe :: schedule_error where
  "everyNotSafe = ScheduleInputError CodeInvalidRule ''every_seconds must be a safe integer.''"
definition frequencyTooHigh :: schedule_error where
  "frequencyTooHigh = ScheduleInputError CodeFrequencyTooHigh ''every_seconds must be at least 300.''"
definition offsetShape :: schedule_error where
  "offsetShape = ScheduleInputError CodeInvalidRule ''at must use YYYY-MM-DDTHH:mm:ss with optional 1-3 digit fractional seconds and an explicit Z or numeric offset.''"
definition offsetInvalid :: schedule_error where
  "offsetInvalid = ScheduleInputError CodeInvalidRule ''The at numeric offset is invalid.''"
definition localCalendar :: schedule_error where
  "localCalendar = ScheduleInputError CodeInvalidRule ''The local at value must be a real ISO calendar date and time.''"
definition localShape :: schedule_error where
  "localShape = ScheduleInputError CodeInvalidRule ''Local at requires date YYYY-MM-DD and time HH:mm:ss with optional one-to-three digit milliseconds.''"
definition localGap :: schedule_error where
  "localGap = ScheduleInputError CodeInvalidRule ''The local at time does not exist in the selected time zone.''"
definition localKeys :: schedule_error where
  "localKeys = ScheduleInputError CodeInvalidRule ''Local at must contain exactly date, time, and time_zone.''"
definition zoneNotString :: schedule_error where
  "zoneNotString = ScheduleInputError CodeInvalidTimeZone ''time_zone must be a string.''"
definition localNotStrings :: schedule_error where
  "localNotStrings = ScheduleInputError CodeInvalidRule ''Local at date and time must be strings.''"
definition selectorShape :: schedule_error where
  "selectorShape = ScheduleInputError CodeInvalidRule ''at must be an explicit-offset string or local calendar object.''"
definition zoneError :: schedule_error where
  "zoneError = ScheduleInputError CodeInvalidTimeZone ''time_zone must be UTC or a valid IANA Area/Location name.''"
definition calendarError :: schedule_error where
  "calendarError = ScheduleInputError CodeInvalidRule ''The at value must be a real ISO calendar date and time.''"

definition futureInstant :: "int \<Rightarrow> int \<Rightarrow> (schedule_error, string) outcome" where
  "futureInstant epoch now =
     (if epoch < MIN_FOUR_DIGIT_YEAR_MS \<or> epoch > MAX_FOUR_DIGIT_YEAR_MS
      then Err timeOutOfRange
      else if epoch \<le> now then Err notFuture
      else Ok (isoMilli epoch))"

definition normalizePrompt :: "string \<Rightarrow> (schedule_error, string) outcome" where
  "normalizePrompt prompt =
     (let normalized = TrimSpace prompt in
      if normalized = [] then Err invalidPrompt else Ok normalized)"

definition safePositiveSeconds :: "int \<Rightarrow> string \<Rightarrow> (schedule_error, unit) outcome" where
  "safePositiveSeconds value' field =
     guard_err (value' \<le> 0 \<or> value' > maxSafeInteger) (ScheduleInputError CodeInvalidRule (field @ '' must be a positive safe integer.''))"

definition CreateAfterScheduleRecord :: "string \<Rightarrow> string \<Rightarrow> int \<Rightarrow> int \<Rightarrow> (schedule_error, after_schedule_record) outcome" where
  "CreateAfterScheduleRecord sid prompt afterSeconds now =
     andThen (normalizePrompt prompt) (\<lambda>normalized.
     andThen (safePositiveSeconds afterSeconds ''after_seconds'') (\<lambda>_.
     andThen (futureInstant (i64 (now + i64 (afterSeconds * 1000))) now) (\<lambda>target.
       Ok \<lparr>arID = sid, arKind = ''after'', arPrompt = normalized, arAfterSeconds = afterSeconds, arScheduledAt = target\<rparr>)))"

definition CreateEveryScheduleRecord :: "string \<Rightarrow> string \<Rightarrow> int \<Rightarrow> int \<Rightarrow> (schedule_error, every_schedule_record) outcome" where
  "CreateEveryScheduleRecord sid prompt everySeconds now =
     andThen (normalizePrompt prompt) (\<lambda>normalized.
       if everySeconds \<le> 0 \<or> everySeconds > maxSafeInteger then Err everyNotSafe
       else if everySeconds < MIN_EVERY_INTERVAL_SECONDS then Err frequencyTooHigh
       else andThen (futureInstant (i64 (now + i64 (everySeconds * 1000))) now) (\<lambda>target.
         Ok \<lparr>erID = sid, erKind = ''every'', erPrompt = normalized, erEverySeconds = everySeconds, erScheduledAt = target\<rparr>))"

text \<open>The time-zone database is a parameter: a zone gives its UTC offset in seconds at an instant.\<close>

type_synonym zone = "int \<Rightarrow> int"
type_synonym zone_db = "string \<Rightarrow> zone option"

definition LoadLocation :: "zone_db \<Rightarrow> string \<Rightarrow> zone option" where
  "LoadLocation zones name = (if name = [] \<or> name = ''UTC'' then Some (\<lambda>_. 0) else zones name)"

definition zoneChar :: "char \<Rightarrow> bool" where
  "zoneChar c \<longleftrightarrow> CHR ''A'' \<le> c \<and> c \<le> CHR ''Z'' \<or> CHR ''a'' \<le> c \<and> c \<le> CHR ''z'' \<or> isDigit c \<or> c \<in> set ''_+.-''"

fun splitSlash :: "string \<Rightarrow> string list" where
  "splitSlash [] = [[]]"
| "splitSlash (c # r) =
     (if c = CHR ''/'' then [] # splitSlash r else case splitSlash r of [] \<Rightarrow> [[c]] | p # ps \<Rightarrow> (c # p) # ps)"

definition ianaZonePattern :: "string \<Rightarrow> bool" where
  "ianaZonePattern value' =
     (case splitSlash value' of
        area # rest \<Rightarrow> area \<noteq> [] \<and> (CHR ''A'' \<le> hd area \<and> hd area \<le> CHR ''Z'' \<or> CHR ''a'' \<le> hd area \<and> hd area \<le> CHR ''z'')
          \<and> list_all zoneChar area \<and> rest \<noteq> [] \<and> list_all (\<lambda>p. p \<noteq> [] \<and> list_all zoneChar p) rest
      | [] \<Rightarrow> False)"

definition CanonicalizeTimeZone :: "zone_db \<Rightarrow> string \<Rightarrow> (schedule_error, string) outcome" where
  "CanonicalizeTimeZone zones value' =
     (if value' = [] \<or> TrimSpace value' \<noteq> value' \<or> (value' \<noteq> ''UTC'' \<and> \<not> ianaZonePattern value') then Err zoneError
      else if value' = ''UTC'' then Ok ''UTC''
      else if LoadLocation zones value' = None then Err zoneError else Ok value')"

definition calendarEpoch :: "calendar_parts \<Rightarrow> (schedule_error, int) outcome" where
  "calendarEpoch parts = (let value' = dateMilli parts in if fieldsOf value' \<noteq> parts then Err calendarError else Ok value')"

text \<open>The submatches of the patterns, an absent optional group being empty.\<close>

definition digitRun :: "nat \<Rightarrow> string \<Rightarrow> (string \<times> string) option" where
  "digitRun k s = (if length s < k \<or> \<not> list_all isDigit (take k s) then None else Some (take k s, drop k s))"

definition fractionRun :: "string \<Rightarrow> (string \<times> string) option" where
  "fractionRun s =
     (case s of
        c # r \<Rightarrow>
          if c = CHR ''.'' then (let ds = takeWhile isDigit r in if ds = [] \<or> length ds > 3 then None else Some (ds, drop (length ds) r))
          else Some ([], s)
      | [] \<Rightarrow> Some ([], s))"

definition dateRun :: "string \<Rightarrow> ((string \<times> string \<times> string) \<times> string) option" where
  "dateRun s =
     Option.bind (digitRun 4 s) (\<lambda>(y, s). Option.bind (literal CHR ''-'' s) (\<lambda>s.
     Option.bind (digitRun 2 s) (\<lambda>(m, s). Option.bind (literal CHR ''-'' s) (\<lambda>s.
     Option.bind (digitRun 2 s) (\<lambda>(d, s). Some ((y, m, d), s))))))"

definition timeRun :: "string \<Rightarrow> ((string \<times> string \<times> string \<times> string) \<times> string) option" where
  "timeRun s =
     Option.bind (digitRun 2 s) (\<lambda>(h, s). Option.bind (literal CHR '':'' s) (\<lambda>s.
     Option.bind (digitRun 2 s) (\<lambda>(m, s). Option.bind (literal CHR '':'' s) (\<lambda>s.
     Option.bind (digitRun 2 s) (\<lambda>(sec, s). Option.bind (fractionRun s) (\<lambda>(f, s). Some ((h, m, sec, f), s)))))))"

definition offsetRun :: "string \<Rightarrow> (string \<times> string \<times> string) option option" where
  "offsetRun s =
     (case s of
        c # r \<Rightarrow>
          if c = CHR ''Z'' \<and> r = [] then Some None
          else if c \<in> {CHR ''+'', CHR ''-''} then
            Option.bind (digitRun 2 r) (\<lambda>(h, r). Option.bind (literal CHR '':'' r) (\<lambda>r.
            Option.bind (digitRun 2 r) (\<lambda>(m, r). if r = [] then Some (Some ([c], h, m)) else None)))
          else None
      | [] \<Rightarrow> None)"

definition offsetInstantPattern ::
    "string \<Rightarrow> ((string \<times> string \<times> string) \<times> (string \<times> string \<times> string \<times> string) \<times> (string \<times> string \<times> string) option) option" where
  "offsetInstantPattern value' =
     Option.bind (dateRun value') (\<lambda>(d, s). Option.bind (literal CHR ''T'' s) (\<lambda>s.
     Option.bind (timeRun s) (\<lambda>(t, s). Option.bind (offsetRun s) (\<lambda>z. Some (d, t, z)))))"

definition localDatePattern :: "string \<Rightarrow> (string \<times> string \<times> string) option" where
  "localDatePattern value' = Option.bind (dateRun value') (\<lambda>(d, s). if s = [] then Some d else None)"

definition localTimePattern :: "string \<Rightarrow> (string \<times> string \<times> string \<times> string) option" where
  "localTimePattern value' = Option.bind (timeRun value') (\<lambda>(t, s). if s = [] then Some t else None)"

definition partsOf :: "string \<times> string \<times> string \<Rightarrow> string \<times> string \<times> string \<times> string \<Rightarrow> calendar_parts" where
  "partsOf d t =
     (case (d, t) of ((y, mo, dy), (h, mi, s, f)) \<Rightarrow>
        \<lparr>cpYear = numVal y, cpMonth = numVal mo, cpDay = numVal dy, cpHour = numVal h, cpMinute = numVal mi, cpSecond = numVal s,
         cpMillisecond = (if f = [] then 0 else numVal f * 10 ^ (3 - length f))\<rparr>)"

definition parseOffsetInstant :: "string \<Rightarrow> (schedule_error, int) outcome" where
  "parseOffsetInstant value' =
     (case offsetInstantPattern value' of
        None \<Rightarrow> Err offsetShape
      | Some (d, t, z) \<Rightarrow>
          let parts = partsOf d t in
          if cpYear parts = 0 \<or> cpHour parts > 23 \<or> cpMinute parts > 59 \<or> cpSecond parts > 59 then Err calendarError
          else andThen (calendarEpoch parts) (\<lambda>localEpoch.
            case z of
              None \<Rightarrow> Ok localEpoch
            | Some (sign, oh, om) \<Rightarrow>
                let offsetHour = numVal oh; offsetMinute = numVal om in
                if offsetHour > 23 \<or> offsetMinute > 59 \<or> (sign = ''-'' \<and> offsetHour = 0 \<and> offsetMinute = 0)
                then Err offsetInvalid
                else Ok (localEpoch - (if sign = ''-'' then -1 else 1) * (offsetHour * 60 + offsetMinute) * 60000)))"

definition parseLocalAt :: "string \<Rightarrow> string \<Rightarrow> (schedule_error, calendar_parts) outcome" where
  "parseLocalAt date timeOfDay =
     (case (localDatePattern date, localTimePattern timeOfDay) of
        (Some d, Some t) \<Rightarrow>
          let parts = partsOf d t in
          if cpYear parts = 0 \<or> cpHour parts > 23 \<or> cpMinute parts > 59 \<or> cpSecond parts > 59
          then Err localCalendar
          else andThen (calendarEpoch parts) (\<lambda>_. Ok parts)
      | _ \<Rightarrow> Err localShape)"

section \<open>Local time\<close>

definition zoneOffsetMs :: "zone \<Rightarrow> int \<Rightarrow> int" where
  "zoneOffsetMs location epoch = location epoch * 1000"

definition localFields :: "zone \<Rightarrow> int \<Rightarrow> calendar_parts" where
  "localFields location epoch = fieldsOf (epoch + zoneOffsetMs location epoch)"

definition clampInstant :: "int \<Rightarrow> int" where
  "clampInstant sample =
     (if sample > MAX_FOUR_DIGIT_YEAR_MS then MAX_FOUR_DIGIT_YEAR_MS
      else if sample < MIN_FOUR_DIGIT_YEAR_MS then MIN_FOUR_DIGIT_YEAR_MS else sample)"

definition sampledOffsets :: "zone \<Rightarrow> int \<Rightarrow> int list" where
  "sampledOffsets location localEpoch =
     remdups (map (\<lambda>delta. zoneOffsetMs location (clampInstant (localEpoch + delta))) [-172800000, -86400000, 0, 86400000, 172800000])"

definition resolveLocalInstant :: "zone_db \<Rightarrow> calendar_parts \<Rightarrow> string \<Rightarrow> (schedule_error, int) outcome" where
  "resolveLocalInstant zones parts timeZone =
     andThen (calendarEpoch parts) (\<lambda>localEpoch.
       case LoadLocation zones timeZone of
         None \<Rightarrow> Err zoneError
       | Some location \<Rightarrow>
           let found = map (\<lambda>offset. localEpoch - offset) (sampledOffsets location localEpoch);
               outOfRange = list_ex (\<lambda>candidate. \<not> representable candidate) found;
               candidates = filter (\<lambda>candidate. representable candidate \<and> localFields location candidate = parts) found in
           if candidates = [] then
             (if outOfRange
              then Err timeOutOfRange
              else Err localGap)
           else Ok (hd (sort candidates)))"

definition atTarget :: "zone_db \<Rightarrow> json \<Rightarrow> (schedule_error, int) outcome" where
  "atTarget zones selector =
     (case selector of
        JStr typed \<Rightarrow> parseOffsetInstant typed
      | JObj typed \<Rightarrow>
          if \<not> hasExactKeys typed [''date'', ''time'', ''time_zone'']
          then Err localKeys
          else (case (obj_index typed ''date'', obj_index typed ''time'') of
                  (JStr date, JStr timeOfDay) \<Rightarrow>
                    (case obj_index typed ''time_zone'' of
                       JStr rawZone \<Rightarrow>
                         andThen (parseLocalAt date timeOfDay) (\<lambda>parts.
                         andThen (CanonicalizeTimeZone zones rawZone) (\<lambda>zone. resolveLocalInstant zones parts zone))
                     | _ \<Rightarrow> Err zoneNotString)
                | _ \<Rightarrow> Err localNotStrings)
      | _ \<Rightarrow> Err selectorShape)"

definition CreateAtScheduleRecord :: "zone_db \<Rightarrow> string \<Rightarrow> string \<Rightarrow> json \<Rightarrow> int \<Rightarrow> (schedule_error, at_schedule_record) outcome" where
  "CreateAtScheduleRecord zones sid prompt selector now =
     andThen (normalizePrompt prompt) (\<lambda>normalized.
     andThen (atTarget zones selector) (\<lambda>target.
     andThen (futureInstant target now) (\<lambda>scheduledAt.
       Ok \<lparr>trID = sid, trKind = ''at'', trPrompt = normalized, trScheduledAt = scheduledAt\<rparr>)))"

section \<open>Views\<close>

record schedule_view =
  vwID :: string
  vwKind :: string
  vwPrompt :: string
  vwAfterSeconds :: int
  vwEverySeconds :: int
  vwScheduledAt :: string
  vwState :: string
  vwDeliveryMode :: string

definition NewScheduleView :: "schedule_record \<Rightarrow> int \<Rightarrow> schedule_view" where
  "NewScheduleView record now =
     (let view = (case record of
             AfterRecord r \<Rightarrow> \<lparr>vwID = arID r, vwKind = arKind r, vwPrompt = arPrompt r, vwAfterSeconds = arAfterSeconds r, vwEverySeconds = 0,
               vwScheduledAt = arScheduledAt r, vwState = ''scheduled'', vwDeliveryMode = ''session-local''\<rparr>
           | AtRecord r \<Rightarrow> \<lparr>vwID = trID r, vwKind = trKind r, vwPrompt = trPrompt r, vwAfterSeconds = 0, vwEverySeconds = 0,
               vwScheduledAt = trScheduledAt r, vwState = ''scheduled'', vwDeliveryMode = ''session-local''\<rparr>
           | EveryRecord r \<Rightarrow> \<lparr>vwID = erID r, vwKind = erKind r, vwPrompt = erPrompt r, vwAfterSeconds = 0, vwEverySeconds = erEverySeconds r,
               vwScheduledAt = erScheduledAt r, vwState = ''scheduled'', vwDeliveryMode = ''session-local''\<rparr>);
          epoch = (case parseInstantMs (vwScheduledAt view) of None \<Rightarrow> 0 | Some e \<Rightarrow> e)
      in if now \<ge> epoch then view\<lparr>vwState := ''overdue''\<rparr> else view)"

section \<open>Payloads\<close>

text \<open>What the tools and the runtime append: a Go map, whose keys are marshalled in order, around the record.\<close>

primrec enc_record :: "schedule_record \<Rightarrow> json" where
  "enc_record (AfterRecord r) = JObj [(''id'', JStr (arID r)), (''kind'', JStr (arKind r)), (''prompt'', JStr (arPrompt r)),
     (''afterSeconds'', JInt (arAfterSeconds r)), (''scheduledAt'', JStr (arScheduledAt r))]"
| "enc_record (AtRecord r) = JObj [(''id'', JStr (trID r)), (''kind'', JStr (trKind r)), (''prompt'', JStr (trPrompt r)),
     (''scheduledAt'', JStr (trScheduledAt r))]"
| "enc_record (EveryRecord r) = JObj [(''id'', JStr (erID r)), (''kind'', JStr (erKind r)), (''prompt'', JStr (erPrompt r)),
     (''everySeconds'', JInt (erEverySeconds r)), (''scheduledAt'', JStr (erScheduledAt r))]"

primrec enc_change :: "schedule_change \<Rightarrow> json" where
  "enc_change (ScheduleCreateChange schedule) =
     JObj [(''operation'', JStr ''create''), (''schedule'', enc_record schedule), (''version'', JInt SCHEDULE_CHANGE_VERSION)]"
| "enc_change (ScheduleDeleteChange sid) =
     JObj [(''id'', JStr sid), (''operation'', JStr ''delete''), (''version'', JInt SCHEDULE_CHANGE_VERSION)]"
| "enc_change (OneShotScheduleDispatchChange sid) =
     JObj [(''id'', JStr sid), (''operation'', JStr ''dispatch''), (''version'', JInt SCHEDULE_CHANGE_VERSION)]"
| "enc_change (EveryScheduleDispatchChange sid acceptedAt) =
     JObj [(''acceptedAt'', JStr acceptedAt), (''id'', JStr sid), (''operation'', JStr ''dispatch''), (''version'', JInt SCHEDULE_CHANGE_VERSION)]"

section \<open>Well-formed records\<close>

definition canonical :: "string \<Rightarrow> bool" where
  "canonical t \<longleftrightarrow> (\<exists>e. representable e \<and> t = isoMilli e)"

definition trimmed :: "string \<Rightarrow> bool" where
  "trimmed s \<longleftrightarrow> s \<noteq> [] \<and> TrimSpace s = s"

primrec schedulePrompt :: "schedule_record \<Rightarrow> string" where
  "schedulePrompt (AfterRecord r) = arPrompt r"
| "schedulePrompt (AtRecord r) = trPrompt r"
| "schedulePrompt (EveryRecord r) = erPrompt r"

primrec scheduledAt :: "schedule_record \<Rightarrow> string" where
  "scheduledAt (AfterRecord r) = arScheduledAt r"
| "scheduledAt (AtRecord r) = trScheduledAt r"
| "scheduledAt (EveryRecord r) = erScheduledAt r"

primrec rule_wf :: "schedule_record \<Rightarrow> bool" where
  "rule_wf (AfterRecord r) \<longleftrightarrow> arKind r = ''after'' \<and> 0 < arAfterSeconds r \<and> arAfterSeconds r \<le> maxSafeInteger"
| "rule_wf (AtRecord r) \<longleftrightarrow> trKind r = ''at''"
| "rule_wf (EveryRecord r) \<longleftrightarrow> erKind r = ''every'' \<and> MIN_EVERY_INTERVAL_SECONDS \<le> erEverySeconds r \<and> erEverySeconds r \<le> maxSafeInteger"

definition record_wf :: "schedule_record \<Rightarrow> bool" where
  "record_wf r \<longleftrightarrow> trimmed (recordId r) \<and> trimmed (schedulePrompt r) \<and> canonical (scheduledAt r) \<and> rule_wf r"

primrec change_wf :: "schedule_change \<Rightarrow> bool" where
  "change_wf (ScheduleCreateChange r) \<longleftrightarrow> record_wf r"
| "change_wf (ScheduleDeleteChange sid) \<longleftrightarrow> trimmed sid"
| "change_wf (OneShotScheduleDispatchChange sid) \<longleftrightarrow> trimmed sid"
| "change_wf (EveryScheduleDispatchChange sid t) \<longleftrightarrow> trimmed sid \<and> canonical t"

lemma decodeInstant_Ok: "decodeInstant value' = Ok t \<longleftrightarrow> unmarshal_ok dec_string [] value' = Some t \<and> canonical t"
proof
  assume "decodeInstant value' = Ok t"
  then obtain e where "unmarshal_ok dec_string [] value' = Some t" "utcInstantPattern t" "take 5 t \<noteq> ''0000-''" "parseInstantMs t = Some e"
    by (auto simp: decodeInstant_def split: option.splits if_splits)
  then show "unmarshal_ok dec_string [] value' = Some t \<and> canonical t" using isoMilli_parse [of t e] by (auto simp: canonical_def)
next
  assume "unmarshal_ok dec_string [] value' = Some t \<and> canonical t"
  then show "decodeInstant value' = Ok t"
    using isoMilli_pattern parse_isoMilli by (auto simp: decodeInstant_def canonical_def)
qed

lemma decodeId_Ok: "decodeId value' = Ok t \<longleftrightarrow> unmarshal_ok dec_string [] value' = Some t \<and> trimmed t"
  by (auto simp: decodeId_def trimmed_def split: option.splits if_splits)

lemma decodePrompt_Ok: "decodeTrimmedPrompt value' = Ok t \<longleftrightarrow> decodeStringField value' ''prompt'' = Some t \<and> trimmed t"
  by (auto simp: decodeTrimmedPrompt_def trimmed_def split: option.splits if_splits)

lemma wholeSeconds_Some: "wholeSeconds n = Some k \<longleftrightarrow> k = n \<and> n \<le> maxSafeInteger \<and> in_i64 n"
  by (auto simp: wholeSeconds_def)

lemma decodeIntField_le: "decodeIntField value' name = Some n \<Longrightarrow> n \<le> maxSafeInteger"
  by (auto simp: decodeIntField_def wholeSeconds_Some maxSafeInteger_def split: option.splits json.splits if_splits)

lemma dec_string_JStr [simp]: "unmarshal_ok dec_string [] (Some (JStr s)) = Some s"
  by (simp add: dec_defs)

lemma decodeIntField_JInt: "obj_get name value' = Some (JInt n) \<Longrightarrow> 0 < n \<Longrightarrow> n \<le> maxSafeInteger \<Longrightarrow> decodeIntField value' name = Some n"
  by (simp add: decodeIntField_def float_round_def wholeSeconds_def in_i64_def min_int64_def max_int64_def maxSafeInteger_def)

lemma every_product: "MIN_EVERY_INTERVAL_SECONDS \<le> n \<Longrightarrow> n \<le> maxSafeInteger \<Longrightarrow> i64 (n * 1000) = n * 1000 \<and> n * 1000 div n = 1000"
  by (simp add: in_i64_def min_int64_def max_int64_def maxSafeInteger_def MIN_EVERY_INTERVAL_SECONDS_def)

lemma decodeScheduleRecord_enc: "record_wf r \<Longrightarrow> decodeScheduleRecord (Some (enc_record r)) = Ok r"
proof (cases r)
  case (AfterRecord a)
  assume "record_wf r"
  then have w: "decodeId (Some (JStr (arID a))) = Ok (arID a)" "trimmed (arPrompt a)" "decodeInstant (Some (JStr (arScheduledAt a))) = Ok (arScheduledAt a)"
    "arKind a = ''after''" "0 < arAfterSeconds a" "arAfterSeconds a \<le> maxSafeInteger"
    by (auto simp: record_wf_def AfterRecord decodeId_Ok decodeInstant_Ok)
  let ?o = "[(''id'', JStr (arID a)), (''kind'', JStr ''after''), (''prompt'', JStr (arPrompt a)), (''afterSeconds'', JInt (arAfterSeconds a)),
     (''scheduledAt'', JStr (arScheduledAt a))]"
  have g: "obj_get ''id'' ?o = Some (JStr (arID a))" "obj_get ''kind'' ?o = Some (JStr ''after'')" "obj_get ''prompt'' ?o = Some (JStr (arPrompt a))"
    "obj_get ''afterSeconds'' ?o = Some (JInt (arAfterSeconds a))" "obj_get ''scheduledAt'' ?o = Some (JStr (arScheduledAt a))"
    by (simp_all add: obj_get_def)
  have "hasExactKeys ?o [''id'', ''kind'', ''prompt'', ''afterSeconds'', ''scheduledAt'']" by (simp add: hasExactKeys_def g)
  moreover have "decodeTrimmedPrompt ?o = Ok (arPrompt a)" using w(2) by (simp add: decodePrompt_Ok decodeStringField_def g)
  moreover have "decodeIntField ?o ''afterSeconds'' = Some (arAfterSeconds a)" using decodeIntField_JInt [OF g(4)] w by simp
  ultimately show ?thesis
    using w g by (simp add: AfterRecord decodeScheduleRecord_def rawObject_def decodeStringField_def decodeAfterRecord_def)
next
  case (AtRecord a)
  assume "record_wf r"
  then have w: "decodeId (Some (JStr (trID a))) = Ok (trID a)" "trimmed (trPrompt a)" "decodeInstant (Some (JStr (trScheduledAt a))) = Ok (trScheduledAt a)"
    "trKind a = ''at''"
    by (auto simp: record_wf_def AtRecord decodeId_Ok decodeInstant_Ok)
  let ?o = "[(''id'', JStr (trID a)), (''kind'', JStr ''at''), (''prompt'', JStr (trPrompt a)), (''scheduledAt'', JStr (trScheduledAt a))]"
  have g: "obj_get ''id'' ?o = Some (JStr (trID a))" "obj_get ''kind'' ?o = Some (JStr ''at'')" "obj_get ''prompt'' ?o = Some (JStr (trPrompt a))"
    "obj_get ''scheduledAt'' ?o = Some (JStr (trScheduledAt a))"
    by (simp_all add: obj_get_def)
  have "hasExactKeys ?o [''id'', ''kind'', ''prompt'', ''scheduledAt'']" by (simp add: hasExactKeys_def g)
  moreover have "decodeTrimmedPrompt ?o = Ok (trPrompt a)" using w(2) by (simp add: decodePrompt_Ok decodeStringField_def g)
  ultimately show ?thesis
    using w g by (simp add: AtRecord decodeScheduleRecord_def rawObject_def decodeStringField_def decodeAtRecord_def)
next
  case (EveryRecord a)
  assume "record_wf r"
  then have w: "decodeId (Some (JStr (erID a))) = Ok (erID a)" "trimmed (erPrompt a)" "decodeInstant (Some (JStr (erScheduledAt a))) = Ok (erScheduledAt a)"
    "erKind a = ''every''" "MIN_EVERY_INTERVAL_SECONDS \<le> erEverySeconds a" "erEverySeconds a \<le> maxSafeInteger"
    by (auto simp: record_wf_def EveryRecord decodeId_Ok decodeInstant_Ok)
  let ?o = "[(''id'', JStr (erID a)), (''kind'', JStr ''every''), (''prompt'', JStr (erPrompt a)), (''everySeconds'', JInt (erEverySeconds a)),
     (''scheduledAt'', JStr (erScheduledAt a))]"
  have g: "obj_get ''id'' ?o = Some (JStr (erID a))" "obj_get ''kind'' ?o = Some (JStr ''every'')" "obj_get ''prompt'' ?o = Some (JStr (erPrompt a))"
    "obj_get ''everySeconds'' ?o = Some (JInt (erEverySeconds a))" "obj_get ''scheduledAt'' ?o = Some (JStr (erScheduledAt a))"
    by (simp_all add: obj_get_def)
  have "hasExactKeys ?o [''id'', ''kind'', ''prompt'', ''everySeconds'', ''scheduledAt'']" by (simp add: hasExactKeys_def g)
  moreover have "decodeTrimmedPrompt ?o = Ok (erPrompt a)" using w(2) by (simp add: decodePrompt_Ok decodeStringField_def g)
  moreover have "decodeIntField ?o ''everySeconds'' = Some (erEverySeconds a)"
    using decodeIntField_JInt [OF g(4)] w by (simp add: MIN_EVERY_INTERVAL_SECONDS_def)
  ultimately show ?thesis
    using w g every_product [OF w(5,6)] by (simp add: EveryRecord decodeScheduleRecord_def rawObject_def decodeStringField_def decodeEveryRecord_def)
qed

lemma decodeAfter_wf:
  assumes "decodeAfterRecord obj = Ok r"
  shows "record_wf (AfterRecord r)"
proof -
  obtain prompt n where p: "decodeTrimmedPrompt obj = Ok prompt" and n: "decodeIntField obj ''afterSeconds'' = Some n"
    using assms by (cases "decodeTrimmedPrompt obj"; cases "decodeIntField obj ''afterSeconds''") (simp_all add: decodeAfterRecord_def split: if_splits)
  show ?thesis
    using assms decodeIntField_le [OF n] p
    by (auto simp: decodeAfterRecord_def n outcome_simps record_wf_def decodeId_Ok decodeInstant_Ok decodePrompt_Ok split: if_splits)
qed

lemma decodeAt_wf: "decodeAtRecord obj = Ok r \<Longrightarrow> record_wf (AtRecord r)"
  by (auto simp: decodeAtRecord_def outcome_simps record_wf_def decodeId_Ok decodeInstant_Ok decodePrompt_Ok split: option.splits if_splits)

lemma decodeEvery_wf:
  assumes "decodeEveryRecord obj = Ok r"
  shows "record_wf (EveryRecord r)"
proof -
  obtain prompt n where p: "decodeTrimmedPrompt obj = Ok prompt" and n: "decodeIntField obj ''everySeconds'' = Some n"
    using assms by (cases "decodeTrimmedPrompt obj"; cases "decodeIntField obj ''everySeconds''") (simp_all add: decodeEveryRecord_def split: if_splits)
  show ?thesis
    using assms decodeIntField_le [OF n] p
    by (auto simp: decodeEveryRecord_def n outcome_simps record_wf_def decodeId_Ok decodeInstant_Ok decodePrompt_Ok split: if_splits)
qed

lemma decodeScheduleRecord_wf: "decodeScheduleRecord raw = Ok r \<Longrightarrow> record_wf r"
  by (auto simp: decodeScheduleRecord_def outcome_simps Let_def dest: decodeAfter_wf decodeAt_wf decodeEvery_wf split: option.splits if_splits)

lemma DecodeScheduleChange_wf: "DecodeScheduleChange raw = Ok c \<Longrightarrow> change_wf c"
  by (auto simp: DecodeScheduleChange_def Let_def outcome_simps decodeId_Ok decodeInstant_Ok dest: decodeScheduleRecord_wf split: option.splits if_splits)

lemma decoded_texts [simp]:
  "trimmed s \<Longrightarrow> decodeId (Some (JStr s)) = Ok s" "canonical s \<Longrightarrow> decodeInstant (Some (JStr s)) = Ok s"
  "unmarshal_ok dec_int64 0 (Some (JInt 1)) = Some 1"
  by (simp_all add: decodeId_Ok decodeInstant_Ok, simp add: dec_defs in_i64_def min_int64_def max_int64_def)

lemma DecodeScheduleChange_enc: "change_wf c \<Longrightarrow> DecodeScheduleChange (Some (enc_change c)) = Ok c"
  by (cases c) (simp_all add: DecodeScheduleChange_def rawObject_def obj_get_def decodeStringField_def hasExactKeys_def Let_def
      SCHEDULE_CHANGE_VERSION_def decodeScheduleRecord_enc)

section \<open>Targets\<close>

definition targetOf :: "schedule_record \<Rightarrow> int" where
  "targetOf record = (case parseInstantMs (scheduledAt record) of None \<Rightarrow> 0 | Some epoch \<Rightarrow> epoch)"

lemma canonical_parse: "canonical t \<Longrightarrow> \<exists>e. parseInstantMs t = Some e \<and> representable e \<and> isoMilli e = t"
  by (auto simp: canonical_def parse_isoMilli)

lemma canonical_iso: "representable e \<Longrightarrow> canonical (isoMilli e)"
  by (auto simp: canonical_def)

lemma target_spec: "record_wf r \<Longrightarrow> parseInstantMs (scheduledAt r) = Some (targetOf r) \<and> representable (targetOf r) \<and> isoMilli (targetOf r) = scheduledAt r"
  using canonical_parse [of "scheduledAt r"] by (auto simp: record_wf_def targetOf_def)

lemma iso_nonempty: "representable e \<Longrightarrow> isoMilli e \<noteq> []"
proof -
  assume "representable e"
  then have "length (isoMilli e) = 24" using isoMilli_pattern [of e] unfolding utcInstantPattern_def by blast
  then show ?thesis by auto
qed

text \<open>The latest moment of a fixed-rate rule that is not after the given one.\<close>

definition latest :: "int \<Rightarrow> int \<Rightarrow> int \<Rightarrow> int" where
  "latest target interval now = target + (now - target) div interval * interval"

lemma latest_bounds:
  assumes "0 < interval" "target \<le> now"
  shows "target \<le> latest target interval now" "latest target interval now \<le> now" "now < latest target interval now + interval"
proof -
  have "now - target = (now - target) div interval * interval + (now - target) mod interval" by simp
  moreover have "0 \<le> (now - target) mod interval" "(now - target) mod interval < interval" "0 \<le> (now - target) div interval * interval"
    using assms by (simp_all add: pos_imp_zdiv_nonneg_iff)
  ultimately show "target \<le> latest target interval now" "latest target interval now \<le> now" "now < latest target interval now + interval"
    unfolding latest_def by linarith+
qed

lemma ResolveEveryOccurrence_spec:
  assumes "record_wf (EveryRecord every)" and "representable now"
  shows "ResolveEveryOccurrence every now =
     (let target = targetOf (EveryRecord every); interval = erEverySeconds every * 1000; next = latest target interval now + interval in
      if now < target then Err earlyDispatch
      else Ok \<lparr>eoOccurrenceAt = isoMilli (latest target interval now), eoNextScheduledAt = (if representable next then isoMilli next else [])\<rparr>)"
proof -
  let ?t = "targetOf (EveryRecord every)" and ?i = "erEverySeconds every * 1000"
  have t: "parseInstantMs (erScheduledAt every) = Some ?t" "representable ?t" using target_spec [OF assms(1)] by simp_all
  have e: "MIN_EVERY_INTERVAL_SECONDS \<le> erEverySeconds every" "erEverySeconds every \<le> maxSafeInteger" using assms(1) by (simp_all add: record_wf_def)
  have i: "i64 ?i = ?i" "?i div erEverySeconds every = 1000" "0 < erEverySeconds every" "0 < ?i" "?i \<le> 9007199254740991000"
    using every_product [OF e] e by (simp_all add: MIN_EVERY_INTERVAL_SECONDS_def maxSafeInteger_def)
  have r: "-62135596800000 \<le> ?t" "?t \<le> 253402300799999" "-62135596800000 \<le> now" "now \<le> 253402300799999"
    using t(2) assms(2) by (simp_all add: representable_def MIN_FOUR_DIGIT_YEAR_MS_def MAX_FOUR_DIGIT_YEAR_MS_def)
  show ?thesis
  proof (cases "now < ?t")
    case True
    then show ?thesis using t i r by (simp add: ResolveEveryOccurrence_def Let_def MIN_FOUR_DIGIT_YEAR_MS_def MAX_FOUR_DIGIT_YEAR_MS_def)
  next
    case False
    define o' where "o' = latest ?t ?i now"
    have b: "?t \<le> o'" "o' \<le> now" "now < o' + ?i" using latest_bounds [OF i(4), of ?t now] False by (simp_all add: o'_def)
    have "i64 (now - ?t) = now - ?t" using r by (simp add: in_i64_def min_int64_def max_int64_def)
    moreover have "i64 ((now - ?t) div ?i * ?i) = o' - ?t"
      using b r by (simp add: o'_def latest_def in_i64_def min_int64_def max_int64_def)
    moreover have "i64 (?t + (o' - ?t)) = o'" "i64 (o' + ?i) = o' + ?i" using b r i by (simp_all add: in_i64_def min_int64_def max_int64_def)
    moreover have "representable (o' + ?i) \<longleftrightarrow> \<not> o' + ?i > MAX_FOUR_DIGIT_YEAR_MS"
      using b r by (simp add: representable_def MIN_FOUR_DIGIT_YEAR_MS_def MAX_FOUR_DIGIT_YEAR_MS_def not_less)
    ultimately show ?thesis
      using False t(1) i b r assms(2) unfolding ResolveEveryOccurrence_def Let_def o'_def [symmetric]
      by (simp add: representable_def)
  qed
qed

section \<open>The fold\<close>

definition fold_ok :: "fold_state \<Rightarrow> bool" where
  "fold_ok st \<longleftrightarrow> distinct (fsOrder st) \<and> set (fsOrder st) = dom (fsActive st) \<and> distinct (fsSeen st) \<and> set (fsOrder st) \<subseteq> set (fsSeen st)
     \<and> (\<forall>sid r. fsActive st sid = Some r \<longrightarrow> recordId r = sid \<and> record_wf r)"

lemma retireOrder_remove1: "retireOrder order sid = remove1 sid order"
  by (induction order) auto

lemma fold_ok_empty: "fold_ok empty_fold"
  by (simp add: fold_ok_def empty_fold_def)

lemma fold_ok_retire: "fold_ok st \<Longrightarrow> fold_ok (retire st sid)"
  by (auto simp: fold_ok_def retire_def retireOrder_remove1 set_remove1_eq dest: notin_set_remove1)

text \<open>What a dispatch makes of an active record.\<close>

lemma dispatched_Ok:
  assumes "record_wf r" "change_wf c" and "dispatchedRecord r c = Ok next"
  shows "next = None \<or> (\<exists>r'. next = Some r' \<and> record_wf r' \<and> recordId r' = recordId r)"
proof (cases r)
  case (EveryRecord every)
  with assms(3) obtain sid t accepted occ where c: "c = EveryScheduleDispatchChange sid t" "parseInstantMs t = Some accepted"
    "ResolveEveryOccurrence every accepted = Ok occ" and n: "next = (if eoNextScheduledAt occ = [] then None else Some (EveryRecord (every\<lparr>erScheduledAt := eoNextScheduledAt occ\<rparr>)))"
    by (auto simp: dispatchedRecord_def outcome_simps split: schedule_change.splits option.splits)
  have "representable accepted" using assms(2) c canonical_parse [of t] by auto
  from ResolveEveryOccurrence_spec [OF assms(1) [unfolded EveryRecord] this] c(3)
  have "eoNextScheduledAt occ = [] \<or> canonical (eoNextScheduledAt occ)" by (auto simp: Let_def canonical_iso split: if_splits)
  then show ?thesis using n assms(1) EveryRecord by (auto simp: record_wf_def)
qed (use assms(3) in \<open>auto simp: dispatchedRecord_def split: schedule_change.splits\<close>)

lemma fold_ok_set: "fold_ok st \<Longrightarrow> fsActive st sid \<noteq> None \<Longrightarrow> record_wf r \<Longrightarrow> recordId r = sid \<Longrightarrow> fold_ok (st\<lparr>fsActive := (fsActive st)(sid := Some r)\<rparr>)"
  by (auto simp: fold_ok_def)

lemma fold_ok_change:
  assumes "fold_ok st" "change_wf c" "applyScheduleChange st c = Ok st'"
  shows "fold_ok st'"
proof (cases c)
  case (ScheduleCreateChange r)
  have sub: "fsActive st sid = Some y \<Longrightarrow> sid \<in> set (fsSeen st)" for sid y using assms(1) by (auto simp: fold_ok_def)
  show ?thesis using assms ScheduleCreateChange by (auto simp: applyScheduleChange_def fold_ok_def Let_def dest: sub split: if_splits)
next
  case (ScheduleDeleteChange sid)
  then show ?thesis using assms fold_ok_retire by (auto simp: applyScheduleChange_def split: if_splits)
next
  case (OneShotScheduleDispatchChange sid)
  then show ?thesis using assms fold_ok_retire by (auto simp: applyScheduleChange_def outcome_simps split: option.splits if_splits)
next
  case (EveryScheduleDispatchChange sid t)
  with assms(3) obtain r nx where r: "fsActive st sid = Some r" "dispatchedRecord r c = Ok nx"
    "st' = (case nx of None \<Rightarrow> retire st sid | Some r' \<Rightarrow> st\<lparr>fsActive := (fsActive st)(sid := Some r')\<rparr>)"
    by (auto simp: applyScheduleChange_def outcome_simps split: option.splits)
  have w: "record_wf r" "recordId r = sid" using assms(1) r(1) by (auto simp: fold_ok_def)
  show ?thesis using dispatched_Ok [OF w(1) assms(2) r(2)] r(3) fold_ok_retire [OF assms(1)] fold_ok_set [OF assms(1), of sid] r(1) w(2) by auto
qed

lemma fold_ok_step: "fold_ok st \<Longrightarrow> scheduleStep st e = Ok st' \<Longrightarrow> fold_ok st'"
  by (auto simp: scheduleStep_def outcome_simps split: if_splits intro: fold_ok_change DecodeScheduleChange_wf)

lemma fold_ok_run: "foldM scheduleStep st es = Ok st' \<Longrightarrow> fold_ok st \<Longrightarrow> fold_ok st'"
  by (rule foldM_invariant [where I = fold_ok]) (auto intro: fold_ok_step)

lemma active_in_order: "fold_ok st \<Longrightarrow> sid \<in> set (fsOrder st) \<Longrightarrow> \<exists>r. fsActive st sid = Some r \<and> recordId r = sid \<and> record_wf r"
  by (auto simp: fold_ok_def)

lemma foldResult_active:
  assumes "fold_ok st"
  shows "map recordId (fdActive (foldResult st)) = fsOrder st" "\<forall>r \<in> set (fdActive (foldResult st)). record_wf r \<and> fsActive st (recordId r) = Some r"
proof -
  have "recordId (the (fsActive st sid)) = sid" if "sid \<in> set (fsOrder st)" for sid using active_in_order [OF assms that] by auto
  then show "map recordId (fdActive (foldResult st)) = fsOrder st" by (simp add: foldResult_def map_idI)
  show "\<forall>r \<in> set (fdActive (foldResult st)). record_wf r \<and> fsActive st (recordId r) = Some r"
    using active_in_order [OF assms] by (fastforce simp: foldResult_def)
qed

interpretation sch: event_sourced scheduleStep "\<lambda>ty. ty = EventScheduleChange"
  by unfold_locales (simp add: scheduleStep_def)

lemma applySchedule_not_Panic: "applyScheduleChange st c \<noteq> Panic"
  by (auto simp: applyScheduleChange_def dispatchedRecord_def ResolveEveryOccurrence_def Let_def outcome_simps
      split: schedule_change.splits schedule_record.splits option.splits if_splits)

section \<open>Identities are fresh\<close>

lemma allocateFrom_spec:
  "\<exists>k \<ge> n. allocateFrom seen n = scheduleName k \<and> scheduleName k \<notin> set seen \<and> (\<forall>j. n \<le> j \<longrightarrow> j < k \<longrightarrow> scheduleName j \<in> set seen)"
proof (induction seen n rule: allocateFrom.induct)
  case (1 seen n)
  show ?case
  proof (cases "scheduleName n \<notin> set seen")
    case True
    then show ?thesis by (intro exI [of _ n]) (auto simp: allocateFrom.simps [of seen n])
  next
    case False
    with 1 obtain k where k: "k \<ge> n + 1" "allocateFrom seen (n + 1) = scheduleName k" "scheduleName k \<notin> set seen"
      "\<forall>j. n + 1 \<le> j \<longrightarrow> j < k \<longrightarrow> scheduleName j \<in> set seen" by auto
    have "\<forall>j. n \<le> j \<longrightarrow> j < k \<longrightarrow> scheduleName j \<in> set seen"
    proof (intro allI impI)
      fix j assume "n \<le> j" "j < k"
      then show "scheduleName j \<in> set seen" using k(4) False by (cases "j = n") auto
    qed
    then show ?thesis using k False by (intro exI [of _ k]) (simp add: allocateFrom.simps [of seen n])
  qed
qed

lemma AllocateScheduleId_spec:
  "\<exists>k. AllocateScheduleId folded = scheduleName k \<and> scheduleName k \<notin> set (fdSeenIds folded)
     \<and> card (set (fdSeenIds folded)) < k \<and> k \<le> 2 * card (set (fdSeenIds folded)) + 1"
proof -
  let ?seen = "fdSeenIds folded" and ?n = "card (set (fdSeenIds folded)) + 1"
  have n: "length (remdups ?seen) + 1 = ?n" by (simp add: length_remdups_card_conv)
  from allocateFrom_spec [of ?n ?seen] obtain k where k: "k \<ge> ?n" "allocateFrom ?seen ?n = scheduleName k" "scheduleName k \<notin> set ?seen"
    "\<forall>j. ?n \<le> j \<longrightarrow> j < k \<longrightarrow> scheduleName j \<in> set ?seen" by blast
  have "scheduleName ` {?n ..< k} \<subseteq> set ?seen" using k(4) by auto
  then have "card (scheduleName ` {?n ..< k}) \<le> card (set ?seen)" by (simp add: card_mono)
  moreover have "card (scheduleName ` {?n ..< k}) = k - ?n" by (simp add: card_image inj_on_def scheduleName_inj)
  ultimately show ?thesis using k n by (intro exI [of _ k]) (simp add: AllocateScheduleId_def)
qed

text \<open>A text that begins and ends with a printable ASCII character is trimmed.\<close>

lemma no_space_prefix: "isDigit c \<or> c = CHR ''s'' \<Longrightarrow> \<forall>p \<in> set (map rev space_runes) \<union> set space_runes. p \<noteq> [] \<and> hd p \<noteq> c"
  by (auto simp: space_runes_def isDigit_def)

lemma strip_all_none: "s \<noteq> [] \<Longrightarrow> \<forall>p \<in> set ps. p \<noteq> [] \<and> hd p \<noteq> hd s \<Longrightarrow> strip_all ps s = s"
proof -
  assume s: "s \<noteq> []" and ps: "\<forall>p \<in> set ps. p \<noteq> [] \<and> hd p \<noteq> hd s"
  have "take (length p) s \<noteq> p" if "p \<in> set ps" for p using s ps that by (cases p; cases s) auto
  then have "strip_one (filter (\<lambda>p. p \<noteq> []) ps) s = None" by (auto simp: strip_one_None_iff)
  then show ?thesis by (simp add: strip_all.simps [of ps s])
qed

lemma trimmed_ends:
  assumes "s \<noteq> []" "isDigit (hd s) \<or> hd s = CHR ''s''" "isDigit (last s) \<or> last s = CHR ''s''"
  shows "trimmed s"
proof -
  have "strip_all space_runes s = s" using assms no_space_prefix [OF assms(2)] by (intro strip_all_none) auto
  moreover have "strip_all (map rev space_runes) (rev s) = rev s"
    using assms no_space_prefix [OF assms(3)] by (intro strip_all_none) (auto simp: hd_rev)
  ultimately show ?thesis using assms(1) by (simp add: trimmed_def TrimSpace_def)
qed

lemma last_show_nat: "show_nat n \<noteq> [] \<and> isDigit (last (show_nat n))"
proof -
  have "isDigit (dig (int (n mod 10)))" by (simp add: isDigit_val digitVal_dig)
  then have "isDigit (char_of (48 + n mod 10))" by (simp add: dig_def)
  then show ?thesis by (cases "n < 10") (simp_all add: show_nat.simps [of n])
qed

lemma scheduleName_trimmed: "trimmed (scheduleName k)"
  using last_show_nat [of k] by (intro trimmed_ends) (auto simp: scheduleName_def show_int_def)

section \<open>Created records\<close>

lemma futureInstant_Ok: "futureInstant epoch now = Ok t \<longleftrightarrow> representable epoch \<and> now < epoch \<and> t = isoMilli epoch"
  by (auto simp: futureInstant_def representable_def)

lemma normalizePrompt_Ok: "normalizePrompt prompt = Ok p \<longleftrightarrow> p = TrimSpace prompt \<and> trimmed p"
  by (auto simp: normalizePrompt_def trimmed_def Let_def TrimSpace_idem)

lemma target_iso: "scheduledAt r = isoMilli e \<Longrightarrow> representable e \<Longrightarrow> targetOf r = e"
  by (simp add: targetOf_def parse_isoMilli)

lemma created_after:
  "CreateAfterScheduleRecord sid prompt secs now = Ok r \<Longrightarrow> trimmed sid \<Longrightarrow>
     record_wf (AfterRecord r) \<and> arID r = sid \<and> now < targetOf (AfterRecord r)"
  using target_iso [of "AfterRecord r" "i64 (now + i64 (secs * 1000))"]
  by (auto simp: CreateAfterScheduleRecord_def outcome_simps normalizePrompt_Ok futureInstant_Ok safePositiveSeconds_def record_wf_def canonical_def)

lemma created_every:
  "CreateEveryScheduleRecord sid prompt secs now = Ok r \<Longrightarrow> trimmed sid \<Longrightarrow>
     record_wf (EveryRecord r) \<and> erID r = sid \<and> now < targetOf (EveryRecord r)"
  using target_iso [of "EveryRecord r" "i64 (now + i64 (secs * 1000))"]
  by (auto simp: CreateEveryScheduleRecord_def outcome_simps normalizePrompt_Ok futureInstant_Ok record_wf_def canonical_def split: if_splits)

lemma created_at:
  "CreateAtScheduleRecord zones sid prompt selector now = Ok r \<Longrightarrow> trimmed sid \<Longrightarrow>
     record_wf (AtRecord r) \<and> trID r = sid \<and> now < targetOf (AtRecord r) \<and> atTarget zones selector = Ok (targetOf (AtRecord r))"
  using target_iso [of "AtRecord r"]
  by (auto simp: CreateAtScheduleRecord_def outcome_simps normalizePrompt_Ok futureInstant_Ok record_wf_def canonical_def)

text \<open>The 64-bit arithmetic of a delay does not wrap for a representable clock.\<close>

lemma delay_exact:
  assumes "representable now" "0 < secs" "secs \<le> maxSafeInteger"
  shows "i64 (now + i64 (secs * 1000)) = now + secs * 1000"
  using assms by (simp add: representable_def MIN_FOUR_DIGIT_YEAR_MS_def MAX_FOUR_DIGIT_YEAR_MS_def maxSafeInteger_def in_i64_def min_int64_def max_int64_def)

section \<open>Local wall-clock time\<close>

text \<open>What is assumed of a time zone: an offset of at most a day, and every instant lies in a stretch of constant offset that
  reaches a day back or a day ahead.\<close>

definition steady :: "zone \<Rightarrow> bool" where
  "steady location \<longleftrightarrow> (\<forall>t. \<bar>location t\<bar> \<le> 86400)
     \<and> (\<forall>t. (\<forall>u. t - 86400000 \<le> u \<longrightarrow> u \<le> t \<longrightarrow> location u = location t) \<or> (\<forall>u. t \<le> u \<longrightarrow> u \<le> t + 86400000 \<longrightarrow> location u = location t))"

lemma clamp_between: "representable t \<Longrightarrow> a \<le> s \<Longrightarrow> s \<le> b \<Longrightarrow> a \<le> t \<Longrightarrow> t \<le> b \<Longrightarrow> a \<le> clampInstant s \<and> clampInstant s \<le> b"
  by (auto simp: clampInstant_def representable_def)

lemma sampled_offset:
  assumes "steady location" "representable t"
  shows "zoneOffsetMs location t \<in> set (sampledOffsets location (t + zoneOffsetMs location t))"
proof -
  define x where "x = zoneOffsetMs location t"
  have "\<bar>location t\<bar> \<le> 86400" using assms(1) by (simp add: steady_def)
  then have x: "-86400000 \<le> x" "x \<le> 86400000" by (auto simp: x_def zoneOffsetMs_def)
  have hit: "x \<in> set (sampledOffsets location (t + x))"
    if k: "k \<in> {-172800000, -86400000, 0, 86400000, 172800000}" and c: "location (clampInstant (t + x + k)) = location t" for k
  proof -
    have "zoneOffsetMs location (clampInstant (t + x + k)) = x" using c by (simp add: x_def zoneOffsetMs_def)
    moreover have "zoneOffsetMs location (clampInstant (t + x + k)) \<in> set (sampledOffsets location (t + x))"
      unfolding sampledOffsets_def set_remdups set_map by (rule image_eqI [OF refl]) (use k in simp)
    ultimately show ?thesis by simp
  qed
  from assms(1) consider "\<forall>u. t - 86400000 \<le> u \<longrightarrow> u \<le> t \<longrightarrow> location u = location t" | "\<forall>u. t \<le> u \<longrightarrow> u \<le> t + 86400000 \<longrightarrow> location u = location t"
    unfolding steady_def by blast
  then have "x \<in> set (sampledOffsets location (t + x))"
  proof cases
    case 1
    define k :: int where "k = (if 0 \<le> x then -86400000 else 0)"
    have "t - 86400000 \<le> t + x + k" "t + x + k \<le> t" using x by (auto simp: k_def)
    then have "t - 86400000 \<le> clampInstant (t + x + k) \<and> clampInstant (t + x + k) \<le> t" by (intro clamp_between [OF assms(2)]) simp_all
    then have "location (clampInstant (t + x + k)) = location t" using 1 by blast
    then show ?thesis by (intro hit [of k]) (auto simp: k_def)
  next
    case 2
    define k :: int where "k = (if 0 \<le> x then 0 else 86400000)"
    have "t \<le> t + x + k" "t + x + k \<le> t + 86400000" using x by (auto simp: k_def)
    then have "t \<le> clampInstant (t + x + k) \<and> clampInstant (t + x + k) \<le> t + 86400000" by (intro clamp_between [OF assms(2)]) simp_all
    then have "location (clampInstant (t + x + k)) = location t" using 2 by blast
    then show ?thesis by (intro hit [of k]) (auto simp: k_def)
  qed
  then show ?thesis by (simp add: x_def)
qed

lemma localFields_iff: "localFields location t = parts \<longleftrightarrow> real_date parts \<and> t + zoneOffsetMs location t = dateMilli parts"
  by (auto simp: localFields_def fieldsOf_eq_iff)

lemma hd_sort_least: "xs \<noteq> [] \<Longrightarrow> hd (sort xs) \<in> set xs \<and> (\<forall>x \<in> set xs. hd (sort xs) \<le> (x :: int))"
proof -
  assume "xs \<noteq> []"
  then have "sort xs \<noteq> []" by (metis length_0_conv length_sort)
  then obtain y ys where s: "sort xs = y # ys" by (cases "sort xs") auto
  then have "set xs = set (y # ys)" "sorted (y # ys)" by (metis set_sort, metis sorted_sort)
  then show ?thesis by (auto simp: s)
qed

lemma resolveLocalInstant_spec:
  assumes "LoadLocation zones tz = Some location" "steady location"
  shows "resolveLocalInstant zones parts tz = Ok t \<longleftrightarrow>
     representable t \<and> localFields location t = parts \<and> (\<forall>u. representable u \<longrightarrow> localFields location u = parts \<longrightarrow> t \<le> u)"
proof -
  let ?P = "\<lambda>u. representable u \<and> localFields location u = parts"
  define L where "L = dateMilli parts"
  define found where "found = map (\<lambda>offset. L - offset) (sampledOffsets location L)"
  define cands where "cands = filter ?P found"
  have mem: "u \<in> set cands \<longleftrightarrow> ?P u" for u
  proof
    assume u: "?P u"
    then have "u + zoneOffsetMs location u = L" by (simp add: localFields_iff L_def)
    moreover have "zoneOffsetMs location u \<in> set (sampledOffsets location L)" using sampled_offset [OF assms(2), of u] u calculation by simp
    ultimately have "u \<in> set found" by (force simp: found_def)
    then show "u \<in> set cands" using u by (simp add: cands_def)
  qed (simp add: cands_def)
  show ?thesis
  proof (cases "real_date parts")
    case False
    then have "\<not> ?P u" for u by (simp add: localFields_iff)
    moreover have "fieldsOf (dateMilli parts) \<noteq> parts" using False fieldsOf_real by metis
    ultimately show ?thesis by (auto simp: resolveLocalInstant_def calendarEpoch_def Let_def)
  next
    case True
    then have "calendarEpoch parts = Ok L" by (simp add: calendarEpoch_def L_def fieldsOf_dateMilli Let_def)
    then have res: "resolveLocalInstant zones parts tz = (if cands = [] then (if list_ex (\<lambda>candidate. \<not> representable candidate) found then Err timeOutOfRange else Err localGap)
        else Ok (hd (sort cands)))"
      using assms(1) by (simp add: resolveLocalInstant_def Let_def found_def cands_def)
    show ?thesis
    proof (cases "cands = []")
      case True
      then have "\<not> ?P u" for u using mem [of u] by simp
      then show ?thesis using True by (auto simp: res)
    next
      case False
      then show ?thesis using hd_sort_least [OF False] mem by (auto simp: res intro: order_antisym)
    qed
  qed
qed

section \<open>Properties\<close>

definition demo_reminder :: schedule_record where
  "demo_reminder = EveryRecord \<lparr>erID = ''schedule-1'', erKind = ''every'', erPrompt = ''tea'', erEverySeconds = 300, erScheduledAt = isoMilli 60000\<rparr>"

definition demo_schedule_event :: event where
  "demo_schedule_event = \<lparr>evType = EventScheduleChange, evSeq = 0, evTime = 0, evData = Some (enc_change (ScheduleCreateChange demo_reminder)), evSourceEventSeqs = None, evSurfaceOp = None,
     evIgnorable = False\<rparr>"

lemma demo_representable [simp]: "representable 60000" "representable 120000"
  by (simp_all add: representable_def MIN_FOUR_DIGIT_YEAR_MS_def MAX_FOUR_DIGIT_YEAR_MS_def)

lemma demo_reminder_wf: "record_wf demo_reminder"
proof -
  have "trimmed ''schedule-1''" "trimmed ''tea''" by code_simp+
  then show ?thesis by (simp add: demo_reminder_def record_wf_def canonical_iso MIN_EVERY_INTERVAL_SECONDS_def maxSafeInteger_def)
qed

lemma demo_reminder_target: "targetOf demo_reminder = 60000" "recordId demo_reminder = ''schedule-1''" "\<exists>e. demo_reminder = EveryRecord e"
  using target_iso [of demo_reminder 60000] by (simp_all add: demo_reminder_def)

lemma demo_schedule_fold: "FoldScheduleEvents [demo_schedule_event] 0 = Ok \<lparr>fdActive = [demo_reminder], fdSeenIds = [''schedule-1'']\<rparr>"
  by (simp add: FoldScheduleEvents_def demo_schedule_event_def scheduleStep_def DecodeScheduleChange_enc demo_reminder_wf applyScheduleChange_def
      empty_fold_def foldResult_def demo_reminder_target Let_def del: enc_change.simps)

text \<open>C33: The changes that survive being written and read back are exactly the well-formed ones: trimmed ids and prompts, canonical
  instants, rules within their bounds.\<close>

theorem schedule_change_roundtrip: "DecodeScheduleChange (Some (enc_change c)) = Ok c \<longleftrightarrow> change_wf c"
  using DecodeScheduleChange_enc DecodeScheduleChange_wf by blast

lemma folded_state:
  assumes "FoldScheduleEvents events seedLength = Ok folded"
  obtains st where "fold_ok st" "folded = foldResult st"
proof -
  obtain st where "foldM scheduleStep empty_fold (drop (nat seedLength) events) = Ok st" "folded = foldResult st"
    using assms by (auto simp: FoldScheduleEvents_def outcome_simps split: if_splits)
  then show thesis using fold_ok_run fold_ok_empty that by blast
qed

text \<open>C31: Whatever log is accepted, what it folds to is well-typed: every active record has a trimmed id and prompt, a canonical
  four-digit-year instant and a rule within its bounds; no id is active twice, and none is active that was not created.\<close>

theorem schedule_log_well_typed:
  assumes "FoldScheduleEvents events seedLength = Ok folded"
  shows "(\<forall>r \<in> set (fdActive folded). record_wf r) \<and> distinct (map recordId (fdActive folded)) \<and> distinct (fdSeenIds folded)
    \<and> recordId ` set (fdActive folded) \<subseteq> set (fdSeenIds folded)"
proof -
  obtain st where ok: "fold_ok st" and st: "folded = foldResult st" using assms by (rule folded_state)
  have "map recordId (fdActive folded) = fsOrder st" "fdSeenIds folded = fsSeen st" using foldResult_active(1) [OF ok] st by (simp_all add: foldResult_def)
  moreover have "recordId ` set (fdActive folded) = set (map recordId (fdActive folded))" by simp
  moreover have "distinct (fsOrder st)" "distinct (fsSeen st)" "set (fsOrder st) \<subseteq> set (fsSeen st)" using ok unfolding fold_ok_def by blast+
  ultimately have "recordId ` set (fdActive folded) \<subseteq> set (fdSeenIds folded)" "distinct (map recordId (fdActive folded))" "distinct (fdSeenIds folded)" by metis+
  then show ?thesis using foldResult_active(2) [OF ok] st by auto
qed

theorem schedule_log_well_typed_witness: "record_wf demo_reminder"
  using schedule_log_well_typed [OF demo_schedule_fold] by simp

text \<open>C32: The search for an identity ends, after at most twice as many steps as there were ids, with one that was never used, not even by a
  schedule deleted since.\<close>

theorem schedule_id_fresh:
  "\<exists>k \<le> 2 * card (set (fdSeenIds folded)) + 1. AllocateScheduleId folded = scheduleName k \<and> AllocateScheduleId folded \<notin> set (fdSeenIds folded)"
  using AllocateScheduleId_spec [of folded] by auto

text \<open>C30: A local date and time in a zone resolves exactly to the earliest instant that shows these fields there: the first of two when
  clocks go back, none when they skip it.\<close>

theorem local_instant_earliest:
  assumes "LoadLocation zones tz = Some location" and "steady location"
  shows "resolveLocalInstant zones parts tz = Ok t \<longleftrightarrow>
     representable t \<and> localFields location t = parts \<and> (\<forall>u. representable u \<longrightarrow> localFields location u = parts \<longrightarrow> t \<le> u)"
  using resolveLocalInstant_spec [OF assms] .

definition demo_zone :: zone where
  "demo_zone t = (if t < 1000000000 then 7200 else 3600)"

lemma demo_zone_steady: "steady demo_zone"
  unfolding steady_def
proof (intro conjI allI)
  fix t :: int
  show "\<bar>demo_zone t\<bar> \<le> 86400" by (simp add: demo_zone_def)
  show "(\<forall>u. t - 86400000 \<le> u \<longrightarrow> u \<le> t \<longrightarrow> demo_zone u = demo_zone t) \<or> (\<forall>u. t \<le> u \<longrightarrow> u \<le> t + 86400000 \<longrightarrow> demo_zone u = demo_zone t)"
    by (cases "t < 1000000000") (auto simp: demo_zone_def)
qed

text \<open>The clocks of this zone go back by an hour: the fields are shown twice, half an hour before the change and half an hour after.\<close>

theorem local_instant_earliest_witness:
  "resolveLocalInstant (\<lambda>_. Some demo_zone) (localFields demo_zone 1001800000) ''Europe/Berlin'' = Ok 998200000"
proof -
  let ?p = "localFields demo_zone 1001800000"
  have l: "LoadLocation (\<lambda>_. Some demo_zone) ''Europe/Berlin'' = Some demo_zone" by (simp add: LoadLocation_def)
  have z: "zoneOffsetMs demo_zone t = (if t < 1000000000 then 7200000 else 3600000)" for t by (simp add: zoneOffsetMs_def demo_zone_def)
  have p: "real_date ?p" "dateMilli ?p = 1005400000" using localFields_iff [of demo_zone 1001800000 ?p] by (simp_all add: z)
  have "representable 998200000" by (simp add: representable_def MIN_FOUR_DIGIT_YEAR_MS_def MAX_FOUR_DIGIT_YEAR_MS_def)
  moreover have "localFields demo_zone 998200000 = ?p" by (simp add: localFields_iff p z)
  moreover have "998200000 \<le> u" if "localFields demo_zone u = ?p" for u using that by (auto simp: localFields_iff p z split: if_splits)
  ultimately show ?thesis using local_instant_earliest [OF l demo_zone_steady, of ?p 998200000] by simp
qed

end
