(* ===== verification/Schedule_Tools.thy ===== *)
theory Schedule_Tools
  imports Schedule_Runtime
begin

text \<open>
  The three tools by which a model manages its schedules (\<open>schedule/tools.go\<close>), each one transaction on the session, and the
  states a live agent reaches with them.  Shown here: every answer leaves the log as it was or with exactly the one change it names, the
  log never becomes unreadable, and what is due is dispatched.
\<close>

section \<open>The tool values\<close>

text \<open>What the three tools answer: an error with its code and message, an uncertain persistence with the operation and the id it may
  have touched (empty when none), or the result.\<close>

datatype tool_value =
    ToolError string string
  | PersistenceUncertain string string
  | ViewValue schedule_view
  | ViewsValue "schedule_view list"
  | DeletedValue string
  | NotFoundValue string

primrec codeName :: "input_code \<Rightarrow> string" where
  "codeName CodeInvalidPrompt = ''invalid_prompt''"
| "codeName CodeInvalidRule = ''invalid_rule''"
| "codeName CodeInvalidTimeZone = ''invalid_time_zone''"
| "codeName CodeNotFuture = ''not_future''"
| "codeName CodeTimeOutOfRange = ''time_out_of_range''"
| "codeName CodeFrequencyTooHigh = ''frequency_too_high''"

definition internalScheduleError :: tool_value where
  "internalScheduleError = ToolError ''internal_error'' ''The schedule operation failed.''"

definition corruptLogToolError :: tool_value where
  "corruptLogToolError = ToolError ''corrupt_schedule_log'' ''The session schedule log is corrupt.''"

definition invalidSelectorError :: tool_value where
  "invalidSelectorError = ToolError ''invalid_selector'' ''schedule_create accepts exactly one of after_seconds, at, or every_seconds.''"

definition recordErrorValue :: "schedule_error \<Rightarrow> tool_value" where
  "recordErrorValue err = (case err of ScheduleInputError code message \<Rightarrow> ToolError (codeName code) message | _ \<Rightarrow> internalScheduleError)"

text \<open>What one execution meets: whether it was called from the agent's own scope, whether the call is cancelled at each look, the
  persistence checkpoint and its two results, the wall clock at each reading, the session's clock and the zones.\<close>

record tool_env =
  teOwner :: bool
  teCancelled :: "nat \<Rightarrow> bool"
  teHasFlush :: bool
  teFlushOk :: "nat \<Rightarrow> bool"
  teNow :: "nat \<Rightarrow> int"
  teTime :: int
  teZones :: zone_db

definition cancellationPlaceholder :: "tool_env \<Rightarrow> nat \<Rightarrow> tool_value option" where
  "cancellationPlaceholder env k = (if teCancelled env k then Some internalScheduleError else None)"

definition foldForTool :: "schedule_runtime \<Rightarrow> (tool_value, folded_schedules) outcome" where
  "foldForTool w =
     (case FoldScheduleEvents (sLog (swSession w)) (seedLengthOf (swSession w)) of
        Ok folded \<Rightarrow> Ok folded
      | Err (ScheduleInputError _ _) \<Rightarrow> Err internalScheduleError
      | Err _ \<Rightarrow> Err corruptLogToolError
      | Panic \<Rightarrow> Panic)"

definition preflightSession :: "tool_env \<Rightarrow> nat \<Rightarrow> string \<Rightarrow> string \<Rightarrow> tool_value option" where
  "preflightSession env k operation sid = (if teHasFlush env \<and> \<not> teFlushOk env k then Some (PersistenceUncertain operation sid) else None)"

section \<open>Arguments\<close>

text \<open>The arguments are a decoded JSON object; a number is a \<open>float64\<close>, which the assertion yields.\<close>

definition argNumber :: "json option \<Rightarrow> rat option" where
  "argNumber value' = (case value' of Some (JInt n) \<Rightarrow> Some (of_int (float_round n)) | Some (JFloat q) \<Rightarrow> Some q | _ \<Rightarrow> None)"

definition argString :: "json option \<Rightarrow> string" where
  "argString value' = (case value' of Some (JStr s) \<Rightarrow> s | _ \<Rightarrow> [])"

definition wholeNumber :: "rat \<Rightarrow> bool" where
  "wholeNumber q \<longleftrightarrow> q = of_int \<lfloor>q\<rfloor>"

definition validateCreateArgs :: "(string \<times> json) list \<Rightarrow> tool_value option" where
  "validateCreateArgs args =
     (let after = obj_get ''after_seconds'' args; at' = obj_get ''at'' args; every = obj_get ''every_seconds'' args;
          selectors = length (filter (\<lambda>s. s \<noteq> None) [after, at', every]) in
      if \<not> list_all (\<lambda>key. key \<in> {''prompt'', ''after_seconds'', ''at'', ''every_seconds''}) (map fst args) then Some invalidSelectorError
      else if selectors \<noteq> 1 then Some invalidSelectorError
      else if TrimSpace (argString (obj_get ''prompt'' args)) = [] then Some (ToolError ''invalid_prompt'' ''prompt must be non-empty after trimming.'')
      else if after \<noteq> None \<and> (case argNumber after of None \<Rightarrow> True | Some q \<Rightarrow> \<not> wholeNumber q \<or> q \<le> 0 \<or> q > of_int maxSafeInteger)
        then Some (ToolError ''invalid_rule'' ''after_seconds must be a positive safe integer.'')
      else if every \<noteq> None \<and> (case argNumber every of None \<Rightarrow> True | Some q \<Rightarrow> \<not> wholeNumber q \<or> q > of_int maxSafeInteger \<or> q \<le> 0)
        then Some (ToolError ''invalid_rule'' ''every_seconds must be a safe integer.'')
      else if every \<noteq> None \<and> (case argNumber every of None \<Rightarrow> False | Some q \<Rightarrow> q < of_int MIN_EVERY_INTERVAL_SECONDS)
        then Some (ToolError ''frequency_too_high'' ''every_seconds must be at least 300.'')
      else None)"

definition buildCreateRecord :: "zone_db \<Rightarrow> string \<Rightarrow> (string \<times> json) list \<Rightarrow> int \<Rightarrow> (schedule_error, schedule_record) outcome" where
  "buildCreateRecord zones sid args now =
     (let prompt = argString (obj_get ''prompt'' args) in
      case obj_get ''at'' args of
        Some rawAt \<Rightarrow> andThen (CreateAtScheduleRecord zones sid prompt rawAt now) (\<lambda>r. Ok (AtRecord r))
      | None \<Rightarrow>
          (case obj_get ''after_seconds'' args of
             Some rawAfter \<Rightarrow>
               (case argNumber (Some rawAfter) of
                  None \<Rightarrow> Panic
                | Some q \<Rightarrow> andThen (CreateAfterScheduleRecord sid prompt \<lfloor>q\<rfloor> now) (\<lambda>r. Ok (AfterRecord r)))
           | None \<Rightarrow>
               (case argNumber (obj_get ''every_seconds'' args) of
                  None \<Rightarrow> Panic
                | Some q \<Rightarrow> andThen (CreateEveryScheduleRecord sid prompt \<lfloor>q\<rfloor> now) (\<lambda>r. Ok (EveryRecord r)))))"

section \<open>The tools\<close>

text \<open>No answer is a panic.  The observer of a durable change asks the runtime for a drive.\<close>

definition appendChange :: "tool_env \<Rightarrow> schedule_change \<Rightarrow> schedule_runtime \<Rightarrow> schedule_runtime \<times> (session_error, unit) outcome" where
  "appendChange env c w =
     (case Append (teTime env) (swSession w) EventScheduleChange (Some (enc_change c)) None of
        (s, r) \<Rightarrow> (w\<lparr>swSession := s\<rparr>, andThen r (\<lambda>_. Ok ())))"

definition commitChange :: "tool_env \<Rightarrow> string \<Rightarrow> string \<Rightarrow> schedule_change \<Rightarrow> tool_value \<Rightarrow> schedule_runtime \<Rightarrow> schedule_runtime \<times> tool_value option" where
  "commitChange env operation sid c result w =
     (case cancellationPlaceholder env 1 of
        Some cancelled \<Rightarrow> (w, Some cancelled)
      | None \<Rightarrow>
          (case appendChange env c w of
             (w, Panic) \<Rightarrow> (w, None)
           | (w, Err _) \<Rightarrow> (w, Some internalScheduleError)
           | (w, Ok _) \<Rightarrow>
               (case preflightSession env 1 operation sid of
                  Some uncertain \<Rightarrow> (w, Some uncertain)
                | None \<Rightarrow> (RequestDrive w, Some result))))"

definition withFolded ::
    "tool_env \<Rightarrow> string \<Rightarrow> string \<Rightarrow> (folded_schedules \<Rightarrow> schedule_runtime \<Rightarrow> schedule_runtime \<times> tool_value option) \<Rightarrow> schedule_runtime \<Rightarrow> schedule_runtime \<times> tool_value option" where
  "withFolded env operation sid body w =
     (case cancellationPlaceholder env 0 of
        Some cancelled \<Rightarrow> (w, Some cancelled)
      | None \<Rightarrow>
          (case preflightSession env 0 operation sid of
             Some uncertain \<Rightarrow> (w, Some uncertain)
           | None \<Rightarrow>
               let w = RequestDrive w in
               case foldForTool w of Err toolErr \<Rightarrow> (w, Some toolErr) | Panic \<Rightarrow> (w, None) | Ok folded \<Rightarrow> body folded w))"

definition executeCreate :: "tool_env \<Rightarrow> (string \<times> json) list \<Rightarrow> schedule_runtime \<Rightarrow> schedule_runtime \<times> tool_value option" where
  "executeCreate env args w =
     (if \<not> teOwner env then (w, Some internalScheduleError)
      else case validateCreateArgs args of
        Some invalid \<Rightarrow> (w, Some invalid)
      | None \<Rightarrow> withFolded env ''create'' [] (\<lambda>folded w.
          let sid = AllocateScheduleId folded in
          case buildCreateRecord (teZones env) sid args (teNow env 0) of
            Panic \<Rightarrow> (w, None)
          | Err recordErr \<Rightarrow> (w, Some (recordErrorValue recordErr))
          | Ok record \<Rightarrow> commitChange env ''create'' sid (ScheduleCreateChange record) (ViewValue (NewScheduleView record (teNow env 1))) w) w)"

definition executeList :: "tool_env \<Rightarrow> schedule_runtime \<Rightarrow> schedule_runtime \<times> tool_value option" where
  "executeList env w =
     (if \<not> teOwner env then (w, Some internalScheduleError)
      else withFolded env ''list'' [] (\<lambda>folded w.
        let now = teNow env 0 in (w, Some (ViewsValue (map (\<lambda>record. NewScheduleView record now) (fdActive folded))))) w)"

definition executeDelete :: "tool_env \<Rightarrow> (string \<times> json) list \<Rightarrow> schedule_runtime \<Rightarrow> schedule_runtime \<times> tool_value option" where
  "executeDelete env args w =
     (let sid = argString (obj_get ''id'' args) in
      if sid = [] \<or> TrimSpace sid \<noteq> sid
      then (w, Some (ToolError ''invalid_rule'' ''schedule_delete id must be non-empty without surrounding whitespace.''))
      else if \<not> teOwner env then (w, Some internalScheduleError)
      else withFolded env ''delete'' sid (\<lambda>folded w.
        if \<not> list_ex (\<lambda>record. recordId record = sid) (fdActive folded) then (w, Some (NotFoundValue sid))
        else commitChange env ''delete'' sid (ScheduleDeleteChange sid) (DeletedValue sid) w) w)"

section \<open>What the tools do to the schedules\<close>

lemma RequestDrive_sel [simp]: "swSession (RequestDrive w) = swSession w" "swInbox (RequestDrive w) = swInbox w" "runtime_ok (RequestDrive w) st = runtime_ok w st"
  by (simp_all add: RequestDrive_def Let_def runtime_ok_def)

lemma foldForTool_ok: "runtime_ok w st \<Longrightarrow> foldForTool w = Ok (foldResult st)"
  by (simp add: foldForTool_def FoldScheduleEvents_def runtime_ok_def scheduleLog_def seed_start inbox_inv_def)

text \<open>The log gained one event, the change.\<close>

definition gained :: "schedule_runtime \<Rightarrow> schedule_runtime \<Rightarrow> schedule_change \<Rightarrow> bool" where
  "gained w w' c \<longleftrightarrow> (\<exists>e. sLog (swSession w') = sLog (swSession w) @ [e] \<and> evType e = EventScheduleChange \<and> evData e = Some (enc_change c))"

lemma gained_drive [simp]: "gained (RequestDrive w) w' c = gained w w' c" "gained w (RequestDrive w') c = gained w w' c"
  by (simp_all add: gained_def)

lemma appendChange_ok:
  assumes "runtime_ok w st" "applyScheduleChange st c = Ok st'" "change_wf c"
  obtains w' where "appendChange env c w = (w', Ok ())" "runtime_ok w' st'" "gained w w' c"
proof -
  from append_change [OF assms, of "teTime env"] obtain s' e where
    "Append (teTime env) (swSession w) EventScheduleChange (Some (enc_change c)) None = (s', Ok e)" "runtime_ok (w\<lparr>swSession := s'\<rparr>) st'"
    "sLog s' = sLog (swSession w) @ [e]" "evType e = EventScheduleChange" "evData e = Some (enc_change c)" by blast
  then show thesis by (intro that [of "w\<lparr>swSession := s'\<rparr>"]) (simp_all add: appendChange_def gained_def)
qed

text \<open>An answer given before the change is appended, or after.\<close>

definition untouched :: "string \<Rightarrow> string \<Rightarrow> schedule_runtime \<Rightarrow> schedule_runtime \<times> tool_value option \<Rightarrow> bool" where
  "untouched operation sid w res \<longleftrightarrow>
     fst res \<in> {w, RequestDrive w} \<and> ((\<exists>code message. snd res = Some (ToolError code message)) \<or> snd res = Some (PersistenceUncertain operation sid))"

definition committed :: "string \<Rightarrow> string \<Rightarrow> tool_value \<Rightarrow> schedule_runtime \<Rightarrow> fold_state \<Rightarrow> schedule_change \<Rightarrow> schedule_runtime \<times> tool_value option \<Rightarrow> bool" where
  "committed operation sid result w st' c res \<longleftrightarrow>
     runtime_ok (fst res) st' \<and> gained w (fst res) c \<and> (snd res = Some result \<or> snd res = Some (PersistenceUncertain operation sid))"

lemma committed_drive [simp]: "committed operation sid result (RequestDrive w) st' c res = committed operation sid result w st' c res"
  by (simp add: committed_def)

lemma commitChange_spec:
  assumes "runtime_ok w st" "applyScheduleChange st c = Ok st'" "change_wf c"
  shows "commitChange env operation sid c result w = (w, Some internalScheduleError)
    \<or> committed operation sid result w st' c (commitChange env operation sid c result w)"
proof -
  from appendChange_ok [OF assms, of env] obtain w' where "appendChange env c w = (w', Ok ())" "runtime_ok w' st'" "gained w w' c" .
  then show ?thesis by (auto simp: commitChange_def cancellationPlaceholder_def preflightSession_def committed_def)
qed

lemma withFolded_spec:
  assumes "runtime_ok w st"
  shows "untouched operation sid w (withFolded env operation sid body w)
    \<or> withFolded env operation sid body w = body (foldResult st) (RequestDrive w)"
  using assms by (auto simp: withFolded_def cancellationPlaceholder_def preflightSession_def untouched_def internalScheduleError_def
      foldForTool_ok [of "RequestDrive w" st] Let_def)

lemma buildCreateRecord_wf:
  assumes "buildCreateRecord zones sid args now = Ok r" "trimmed sid"
  shows "record_wf r \<and> recordId r = sid \<and> now < targetOf r"
proof -
  let ?p = "argString (obj_get ''prompt'' args)"
  from assms(1) consider a n where "r = AfterRecord a" "CreateAfterScheduleRecord sid ?p n now = Ok a"
    | a raw where "r = AtRecord a" "CreateAtScheduleRecord zones sid ?p raw now = Ok a"
    | a n where "r = EveryRecord a" "CreateEveryScheduleRecord sid ?p n now = Ok a"
    by (auto simp: buildCreateRecord_def Let_def outcome_simps split: option.splits)
  then show ?thesis
    using assms(2) by cases (use created_after created_at created_every in fastforce)+
qed

lemma create_no_Panic:
  "CreateAfterScheduleRecord sid prompt n now \<noteq> Panic" "CreateEveryScheduleRecord sid prompt n now \<noteq> Panic" "CreateAtScheduleRecord zones sid prompt raw now \<noteq> Panic"
proof -
  have f: "futureInstant e now \<noteq> Panic" "normalizePrompt prompt \<noteq> Panic" "safePositiveSeconds n s \<noteq> Panic" for e s
    by (simp_all add: futureInstant_def normalizePrompt_def safePositiveSeconds_def guard_err_def Let_def)
  show "CreateAfterScheduleRecord sid prompt n now \<noteq> Panic" "CreateEveryScheduleRecord sid prompt n now \<noteq> Panic"
    using f by (auto simp: CreateAfterScheduleRecord_def CreateEveryScheduleRecord_def outcome_simps)
  have c: "calendarEpoch p \<noteq> Panic" for p by (simp add: calendarEpoch_def Let_def)
  have o: "parseOffsetInstant t \<noteq> Panic" for t
    using c by (simp add: parseOffsetInstant_def Let_def outcome_simps split: option.split prod.split)
  have l: "parseLocalAt d t \<noteq> Panic" for d t using c by (simp add: parseLocalAt_def Let_def outcome_simps split: option.split)
  have z: "CanonicalizeTimeZone zones t \<noteq> Panic" for t by (simp add: CanonicalizeTimeZone_def)
  have i: "resolveLocalInstant zones q t \<noteq> Panic" for q t using c by (simp add: resolveLocalInstant_def Let_def outcome_simps split: option.split)
  have "atTarget zones raw \<noteq> Panic" using o l z i by (simp add: atTarget_def outcome_simps split: json.split)
  then show "CreateAtScheduleRecord zones sid prompt raw now \<noteq> Panic" using f by (auto simp: CreateAtScheduleRecord_def outcome_simps)
qed

lemma validated_selector:
  assumes "validateCreateArgs args = None" "obj_get ''at'' args = None"
  shows "argNumber (if obj_get ''after_seconds'' args = None then obj_get ''every_seconds'' args else obj_get ''after_seconds'' args) \<noteq> None"
  using assms unfolding validateCreateArgs_def Let_def
  by (cases "obj_get ''after_seconds'' args"; cases "obj_get ''every_seconds'' args") (simp_all split: if_split_asm option.split_asm)

lemma validated_build: "validateCreateArgs args = None \<Longrightarrow> buildCreateRecord zones sid args now \<noteq> Panic"
  using validated_selector [of args] create_no_Panic
  by (cases "obj_get ''at'' args"; cases "obj_get ''after_seconds'' args") (auto simp: buildCreateRecord_def outcome_simps split: option.split)

lemma invalid_value: "validateCreateArgs args = Some v \<Longrightarrow> \<exists>code message. v = ToolError code message"
  unfolding validateCreateArgs_def Let_def invalidSelectorError_def by (auto split: if_split_asm)

lemma applyCreate: "recordId r \<notin> set (fsSeen st) \<Longrightarrow> fold_ok st \<Longrightarrow>
  \<exists>st'. applyScheduleChange st (ScheduleCreateChange r) = Ok st' \<and> fdActive (foldResult st') = fdActive (foldResult st) @ [r] \<and> fsSeen st' = fsSeen st @ [recordId r]"
  by (auto simp: applyScheduleChange_def Let_def foldResult_def fold_ok_def)

text \<open>When a creation goes through, given what is scheduled: the call is the agent's own and valid, it is cancelled neither before the log is
  read nor before the change is written, the first checkpoint persists, and a record comes of the arguments.  And what it answers otherwise.\<close>

definition create_built :: "tool_env \<Rightarrow> (string \<times> json) list \<Rightarrow> folded_schedules \<Rightarrow> (schedule_error, schedule_record) outcome" where
  "create_built env args folded = buildCreateRecord (teZones env) (AllocateScheduleId folded) args (teNow env 0)"

definition create_admitted :: "tool_env \<Rightarrow> (string \<times> json) list \<Rightarrow> folded_schedules \<Rightarrow> bool" where
  "create_admitted env args folded \<longleftrightarrow> teOwner env \<and> validateCreateArgs args = None \<and> \<not> teCancelled env 0 \<and> (teHasFlush env \<longrightarrow> teFlushOk env 0)
     \<and> is_Ok (create_built env args folded) \<and> \<not> teCancelled env 1"

definition create_refusal :: "tool_env \<Rightarrow> (string \<times> json) list \<Rightarrow> folded_schedules \<Rightarrow> tool_value" where
  "create_refusal env args folded =
     (if \<not> teOwner env then internalScheduleError
      else if validateCreateArgs args \<noteq> None then the (validateCreateArgs args)
      else if \<not> teCancelled env 0 \<and> teHasFlush env \<and> \<not> teFlushOk env 0 then PersistenceUncertain ''create'' []
      else case create_built env args folded of Err e \<Rightarrow> if teCancelled env 0 then internalScheduleError else recordErrorValue e | _ \<Rightarrow> internalScheduleError)"

lemma executeCreate_refused:
  assumes "runtime_ok w st" "\<not> create_admitted env args (foldResult st)" "executeCreate env args w = (w', answer)"
  shows "w' \<in> {w, RequestDrive w} \<and> answer = Some (create_refusal env args (foldResult st))"
proof (cases "teOwner env \<and> validateCreateArgs args = None \<and> \<not> teCancelled env 0 \<and> (teHasFlush env \<longrightarrow> teFlushOk env 0)")
  case True
  have fold: "foldForTool (RequestDrive w) = Ok (foldResult st)" using assms(1) by (simp add: foldForTool_ok)
  have "create_built env args (foldResult st) \<noteq> Panic" using True validated_build by (simp add: create_built_def)
  then show ?thesis using True assms(2,3) fold
    by (cases "create_built env args (foldResult st)")
      (auto simp: executeCreate_def withFolded_def cancellationPlaceholder_def preflightSession_def create_admitted_def create_refusal_def
        commitChange_def create_built_def Let_def)
next
  case False
  have i: "foldForTool (RequestDrive w) = Ok (foldResult st)" using assms(1) by (simp add: foldForTool_ok)
  have "answer = Some (create_refusal env args (foldResult st)) \<and> w' = w"
    using False assms(3)
    by (cases "validateCreateArgs args"; cases "create_built env args (foldResult st)")
      (auto simp: executeCreate_def withFolded_def cancellationPlaceholder_def preflightSession_def create_refusal_def split: if_split_asm)
  then show ?thesis by simp
qed

lemma executeCreate_accepted:
  assumes "runtime_ok w st" "create_admitted env args (foldResult st)" "create_built env args (foldResult st) = Ok r"
  obtains w' st' where "executeCreate env args w
      = (w', Some (if teHasFlush env \<and> \<not> teFlushOk env 1 then PersistenceUncertain ''create'' (recordId r) else ViewValue (NewScheduleView r (teNow env 1))))"
    and "runtime_ok w' st'" "gained w w' (ScheduleCreateChange r)" "record_wf r" "recordId r \<notin> set (fsSeen st)" "teNow env 0 < targetOf r"
    and "fdActive (foldResult st') = fdActive (foldResult st) @ [r]" "fsSeen st' = fsSeen st @ [recordId r]"
proof -
  let ?sid = "AllocateScheduleId (foldResult st)"
  have fresh: "?sid \<notin> set (fsSeen st)" "trimmed ?sid" using AllocateScheduleId_spec [of "foldResult st"] scheduleName_trimmed by (auto simp: foldResult_def)
  from buildCreateRecord_wf [OF assms(3) [unfolded create_built_def] fresh(2)] have r: "record_wf r" "recordId r = ?sid" "teNow env 0 < targetOf r" by simp_all
  have new: "recordId r \<notin> set (fsSeen st)" using fresh(1) r(2) by simp
  from applyCreate [OF this runtime_fold_ok [OF assms(1)]] obtain st' where st': "applyScheduleChange st (ScheduleCreateChange r) = Ok st'"
    "fdActive (foldResult st') = fdActive (foldResult st) @ [r]" "fsSeen st' = fsSeen st @ [recordId r]" by blast
  have "runtime_ok (RequestDrive w) st" "change_wf (ScheduleCreateChange r)" using assms(1) r(1) by simp_all
  from appendChange_ok [OF this(1) st'(1) this(2), of env] obtain v where
    v: "appendChange env (ScheduleCreateChange r) (RequestDrive w) = (v, Ok ())" "runtime_ok v st'" "gained (RequestDrive w) v (ScheduleCreateChange r)" .
  have fold: "foldForTool (RequestDrive w) = Ok (foldResult st)" using assms(1) by (simp add: foldForTool_ok)
  have "executeCreate env args w = (if teHasFlush env \<and> \<not> teFlushOk env 1 then v else RequestDrive v,
      Some (if teHasFlush env \<and> \<not> teFlushOk env 1 then PersistenceUncertain ''create'' (recordId r) else ViewValue (NewScheduleView r (teNow env 1))))"
    using assms(2,3) fold v(1) r(2)
    by (auto simp: create_admitted_def create_built_def executeCreate_def withFolded_def commitChange_def cancellationPlaceholder_def preflightSession_def Let_def)
  then show thesis by (rule that [of _ st']) (use v new r st' in auto)
qed

lemma create_refusal_value:
  "(\<exists>code message. create_refusal env args folded = ToolError code message) \<or> create_refusal env args folded = PersistenceUncertain ''create'' []"
proof -
  have "\<exists>code message. recordErrorValue e = ToolError code message" for e by (cases e) (simp_all add: recordErrorValue_def internalScheduleError_def)
  then show ?thesis using invalid_value [of args] by (auto simp: create_refusal_def internalScheduleError_def split: outcome.split)
qed

lemma executeCreate_cases:
  assumes "runtime_ok w st"
  shows "untouched ''create'' [] w (executeCreate env args w)
    \<or> (\<exists>r st'. committed ''create'' (recordId r) (ViewValue (NewScheduleView r (teNow env 1))) w st' (ScheduleCreateChange r) (executeCreate env args w))"
proof (cases "create_admitted env args (foldResult st)")
  case True
  then obtain r where "create_built env args (foldResult st) = Ok r"
    by (cases "create_built env args (foldResult st)") (simp_all add: create_admitted_def)
  from executeCreate_accepted [OF assms True this] obtain w' st' where e: "executeCreate env args w
      = (w', Some (if teHasFlush env \<and> \<not> teFlushOk env 1 then PersistenceUncertain ''create'' (recordId r) else ViewValue (NewScheduleView r (teNow env 1))))"
    and "runtime_ok w' st'" "gained w w' (ScheduleCreateChange r)" by metis
  then have "committed ''create'' (recordId r) (ViewValue (NewScheduleView r (teNow env 1))) w st' (ScheduleCreateChange r) (executeCreate env args w)"
    by (simp add: committed_def)
  then show ?thesis by blast
next
  case False
  obtain w' answer where e: "executeCreate env args w = (w', answer)" by (metis surj_pair)
  show ?thesis
    using executeCreate_refused [OF assms False e] create_refusal_value [of env args "foldResult st"] by (simp add: e untouched_def)
qed

lemma executeList_cases:
  assumes "runtime_ok w st"
  shows "untouched ''list'' [] w (executeList env w)
    \<or> executeList env w = (RequestDrive w, Some (ViewsValue (map (\<lambda>r. NewScheduleView r (teNow env 0)) (fdActive (foldResult st)))))"
  using withFolded_spec [OF assms, of "''list''" "[]" env "\<lambda>folded w. (w, Some (ViewsValue (map (\<lambda>r. NewScheduleView r (teNow env 0)) (fdActive folded))))"]
  by (cases "teOwner env") (auto simp: executeList_def Let_def untouched_def internalScheduleError_def)

lemma applyDelete:
  assumes "fold_ok st" "list_ex (\<lambda>r. recordId r = sid) (fdActive (foldResult st))"
  shows "applyScheduleChange st (ScheduleDeleteChange sid) = Ok (retire st sid)" "trimmed sid"
proof -
  obtain r where "r \<in> set (fdActive (foldResult st))" "recordId r = sid" using assms(2) by (auto simp: list_ex_iff)
  then have "fsActive st sid = Some r" "record_wf r" using foldResult_active(2) [OF assms(1)] by blast+
  then show "applyScheduleChange st (ScheduleDeleteChange sid) = Ok (retire st sid)" "trimmed sid"
    using \<open>recordId r = sid\<close> by (auto simp: applyScheduleChange_def record_wf_def)
qed

lemma executeDelete_cases:
  assumes ok: "runtime_ok w st" and sid: "sid = argString (obj_get ''id'' args)"
  shows "untouched ''delete'' sid w (executeDelete env args w)
    \<or> (executeDelete env args w = (RequestDrive w, Some (NotFoundValue sid)) \<and> sid \<notin> recordId ` set (fdActive (foldResult st)))
    \<or> (\<exists>st'. committed ''delete'' sid (DeletedValue sid) w st' (ScheduleDeleteChange sid) (executeDelete env args w)
        \<and> sid \<in> recordId ` set (fdActive (foldResult st)) \<and> fsSeen st' = fsSeen st
        \<and> fdActive (foldResult st') = filter (\<lambda>r. recordId r \<noteq> sid) (fdActive (foldResult st)))"
proof (cases "sid = [] \<or> TrimSpace sid \<noteq> sid \<or> \<not> teOwner env")
  case True
  then show ?thesis by (auto simp: executeDelete_def untouched_def internalScheduleError_def Let_def sid [symmetric])
next
  case False
  have fo: "fold_ok st" using runtime_fold_ok [OF ok] .
  define body where "body = (\<lambda>(folded :: folded_schedules) w. if \<not> list_ex (\<lambda>record. recordId record = sid) (fdActive folded) then (w, Some (NotFoundValue sid))
        else commitChange env ''delete'' sid (ScheduleDeleteChange sid) (DeletedValue sid) w)"
  have ex: "executeDelete env args w = withFolded env ''delete'' sid body w"
    using False by (simp add: executeDelete_def body_def Let_def sid [symmetric])
  note split = withFolded_spec [OF ok, of "''delete''" sid env body]
  show ?thesis
  proof (cases "list_ex (\<lambda>r. recordId r = sid) (fdActive (foldResult st))")
    case False
    then have "sid \<notin> recordId ` set (fdActive (foldResult st))" by (auto simp: list_ex_iff)
    moreover have "body (foldResult st) (RequestDrive w) = (RequestDrive w, Some (NotFoundValue sid))" using False by (simp add: body_def)
    ultimately show ?thesis using split unfolding ex by metis
  next
    case True
    then have mem: "sid \<in> recordId ` set (fdActive (foldResult st))" by (auto simp: list_ex_iff)
    have body: "body (foldResult st) (RequestDrive w) = commitChange env ''delete'' sid (ScheduleDeleteChange sid) (DeletedValue sid) (RequestDrive w)"
      using True by (simp add: body_def)
    have "runtime_ok (RequestDrive w) st" "change_wf (ScheduleDeleteChange sid)" using ok applyDelete(2) [OF fo True] by simp_all
    from commitChange_spec [OF this(1) applyDelete(1) [OF fo True] this(2), of env "''delete''" sid "DeletedValue sid"]
    have "untouched ''delete'' sid w (body (foldResult st) (RequestDrive w))
        \<or> committed ''delete'' sid (DeletedValue sid) w (retire st sid) (ScheduleDeleteChange sid) (body (foldResult st) (RequestDrive w))"
      unfolding body by (auto simp: untouched_def internalScheduleError_def)
    then show ?thesis using split mem retire_active [OF fo, of sid] unfolding ex by (metis retire_sel(2))
  qed
qed

section \<open>What others do to the log\<close>

definition foreign_growth :: "(event \<Rightarrow> bool) \<Rightarrow> session \<Rightarrow> session \<Rightarrow> bool" where
  "foreign_growth P s s' \<longleftrightarrow> sHeader s' = sHeader s \<and> (\<exists>es. sLog s' = sLog s @ es \<and> (\<forall>e \<in> set es. P e))"

lemma foreign_growth_refl [simp]: "foreign_growth P s s"
  by (simp add: foreign_growth_def)

lemma foreign_growth_trans: "foreign_growth P s s1 \<Longrightarrow> foreign_growth P s1 s2 \<Longrightarrow> foreign_growth P s s2"
  by (fastforce simp: foreign_growth_def)

lemma Append_growth: "Append now s ty data intent = (s', r) \<Longrightarrow> foreign_growth (\<lambda>e. evType e = ty) s s'"
proof -
  assume a: "Append now s ty data intent = (s', r)"
  then have "sHeader s' = sHeader s" by (auto simp: Append_def Let_def split: option.splits outcome.splits prod.splits)
  then show ?thesis using a by (elim Append_cases) (auto simp: foreign_growth_def)
qed

abbreviation inbox_growth :: "session \<Rightarrow> session \<Rightarrow> bool" where
  "inbox_growth \<equiv> foreign_growth (\<lambda>e. evType e = EventAgentInboxSpliced)"

lemma mutate_growth: "mutateLocked now s i target start n ms discard = ((s', i'), r) \<Longrightarrow> inbox_growth s s'"
  by (auto simp: mutateLocked_def Let_def dest!: Append_growth split: if_splits outcome.splits prod.splits)

lemma Splice_growth: "Splice now s i target start n ms = ((s', i'), notices, r) \<Longrightarrow> inbox_growth s s'"
  using mutate_growth [of now s i target start n ms True] by (auto simp: Splice_def drainNotificationsLocked_def split: prod.splits)

lemma Claim_growth: "Claim now s i target turn = ((s', i'), notices, r) \<Longrightarrow> inbox_growth s s'"
proof -
  assume a: "Claim now s i target turn = ((s', i'), notices, r)"
  obtain s1 i1 first where m1: "mutateLocked now s i InboxNextStep 0 (int (length (ibNextStep i))) None False = ((s1, i1), first)" by (metis surj_pair)
  obtain s2 i2 second where m2: "mutateLocked now s1 i1 InboxNextTurn 0 1 None False = ((s2, i2), second)" by (metis surj_pair)
  have "s' = s1 \<or> s' = s2" using a by (auto simp: Claim_def m1 m2 drainNotificationsLocked_def split: outcome.splits if_splits)
  then show ?thesis using mutate_growth [OF m1] mutate_growth [OF m2] foreign_growth_trans by metis
qed

lemma scheduleLog_growth:
  assumes "scheduleLog s = Ok st" "0 \<le> inbox_start s" "inbox_start s \<le> int (length (sLog s))"
    and "foreign_growth (\<lambda>e. evType e \<noteq> EventScheduleChange) s s'"
  shows "scheduleLog s' = Ok st"
proof -
  obtain es where es: "sHeader s' = sHeader s" "sLog s' = sLog s @ es" "\<forall>e \<in> set es. evType e \<noteq> EventScheduleChange"
    using assms(4) by (auto simp: foreign_growth_def)
  have "inbox_start s' = inbox_start s" by (simp add: inbox_start_def es(1))
  then show ?thesis
    using assms(1) sch.replay_grow [of es empty_fold "drop (nat (inbox_start s)) (sLog s)"] es(3)
    by (simp add: scheduleLog_def seed_start es(2) drop_log [OF assms(2,3)] del: drop_append)
qed

lemma runtime_ok_growth:
  assumes "runtime_ok w st" "inbox_inv s' i'" "ibPendingNotifications i' = []" "foreign_growth (\<lambda>e. evType e \<noteq> EventScheduleChange) (swSession w) s'"
  shows "runtime_ok (w\<lparr>swSession := s', swInbox := i'\<rparr>) st"
  using assms scheduleLog_growth [OF _ _ _ assms(4), of st] by (simp add: runtime_ok_def inbox_inv_def)

lemma inbox_growth_foreign: "inbox_growth s s' \<Longrightarrow> foreign_growth (\<lambda>e. evType e \<noteq> EventScheduleChange) s s'"
  by (auto simp: foreign_growth_def)

section \<open>A drive keeps the schedules readable\<close>

definition sane_clock :: "drive_env \<Rightarrow> bool" where
  "sane_clock env \<longleftrightarrow> (\<forall>k. representable (dvNow env k))"

definition intact :: "nat \<Rightarrow> schedule_runtime \<Rightarrow> bool" where
  "intact n w \<longleftrightarrow> (\<exists>st. runtime_ok w st) \<and> \<not> swFaulted w \<and> fits (swInbox w) n"

lemma intact_frame [simp]:
  "intact n (w\<lparr>swTimer := t\<rparr>) = intact n w" "intact n (w\<lparr>swRequested := b\<rparr>) = intact n w" "intact n (w\<lparr>swRunActive := b\<rparr>) = intact n w"
  "intact n (w\<lparr>swIdleListening := b\<rparr>) = intact n w" "intact n (w\<lparr>swWarnings := ws\<rparr>) = intact n w" "intact n (w\<lparr>swStopping := b\<rparr>) = intact n w"
  by (simp_all add: intact_def runtime_ok_def)

lemma intact_ops [simp]:
  "intact n (warn x w) = intact n w" "intact n (arm target now w) = intact n w" "intact n (waitForIdle w) = intact n w"
  "intact n (RequestDrive w) = intact n w" "intact n (timerFires w) = intact n w" "intact n (becameIdle w) = intact n w" "intact n (Dispose w) = intact n w"
proof -
  show r: "intact n (RequestDrive w) = intact n w" for w by (simp add: RequestDrive_def Let_def)
  show "intact n (warn x w) = intact n w" "intact n (arm target now w) = intact n w" "intact n (waitForIdle w) = intact n w" "intact n (Dispose w) = intact n w"
    by (simp_all add: warn_def arm_def Let_def waitForIdle_def Dispose_def)
  show "intact n (timerFires w) = intact n w" "intact n (becameIdle w) = intact n w"
    by (simp_all add: r timerFires_def becameIdle_def)
qed

lemma intact_less: "intact (Suc n) w \<Longrightarrow> intact n w"
  by (auto simp: intact_def fits_def)

lemma maintenance_intact:
  assumes "intact (Suc n) w" "sane_clock env"
  shows "intact n (fst (runMaintenanceStep env w))"
proof -
  obtain st where ok: "runtime_ok w st" and f: "\<not> swFaulted w" "fits (swInbox w) (Suc n)" using assms(1) by (auto simp: intact_def)
  have now: "representable (dvNow env 1)" using assms(2) by (simp add: sane_clock_def)
  obtain d where d: "decideDue (foldResult st) (dvNow env 1) = Ok d" using decideDue_Ok [OF runtime_fold_ok [OF ok] now] by blast
  show ?thesis
  proof (cases "isRunnable env 3 w \<and> (\<forall>t. d \<noteq> DueWait t)")
    case True
    then have run: "isRunnable env 3 w" and nw: "\<forall>t. d \<noteq> DueWait t" by auto
    have fit1: "fits (swInbox w) 1" using f(2) by (simp add: fits_def)
    from maintenance_claims [OF ok run now fit1 d nw] obtain s' i' st' and es :: "event list" where m:
      "runMaintenanceStep env w = (w\<lparr>swSession := s', swInbox := i'\<rparr>, True)" "runtime_ok (w\<lparr>swSession := s', swInbox := i'\<rparr>) st'"
      "if msgID (reminderMessage env (framingOf d)) \<in> set (pending_ids (swInbox w)) then i' = swInbox w \<and> es = []
       else i' = (swInbox w)\<lparr>ibNextTurn := ibNextTurn (swInbox w) @ [reminderMessage env (framingOf d)]\<rparr> \<and> map evType es = [EventAgentInboxSpliced]"
      unfolding Let_def by blast
    have "fits i' n" using m(3) f(2) by (auto simp: fits_def split: if_split_asm)
    then show ?thesis using m(1,2) f(1) by (auto simp: intact_def)
  next
    case False
    then show ?thesis using assms(1) intact_less d
      by (cases d) (auto simp: runMaintenanceStep_def readFolded_ok [OF ok] decide_def)
  qed
qed

lemma driveOnce_intact:
  assumes "intact (Suc n) w" "sane_clock env"
  shows "intact n (driveOnce env w)"
proof -
  let ?w = "w\<lparr>swTimer := None\<rparr>"
  obtain st where ok: "runtime_ok ?w st" using assms(1) by (auto simp: intact_def)
  have i: "intact (Suc n) ?w" "intact n ?w" using assms(1) intact_less [OF assms(1)] by simp_all
  have now: "representable (dvNow env 0)" using assms(2) by (simp add: sane_clock_def)
  obtain d where d: "decideDue (foldResult st) (dvNow env 0) = Ok d" using decideDue_Ok [OF runtime_fold_ok [OF ok] now] by blast
  obtain w1 b where r: "runMaintenanceStep env ?w = (w1, b)" by (metis surj_pair)
  have m: "intact n w1" using maintenance_intact [OF i(1) assms(2)] by (simp add: r)
  show ?thesis
    using i(2) m by (cases b; cases d) (simp_all add: driveOnce_def Let_def readFolded_ok [OF ok] decide_def d r)
qed

lemma runRequested_intact: "\<forall>env \<in> set envs. sane_clock env \<Longrightarrow> intact (length envs + n) w \<Longrightarrow> intact n (fst (runRequested envs w))"
proof (induction envs arbitrary: w)
  case Nil
  then show ?case by (subst runRequested.simps) (simp add: Let_def)
next
  case (Cons env envs)
  have less: "intact (length (env # envs) + n) w \<Longrightarrow> intact n w" by (auto simp: intact_def fits_def)
  have "intact (length envs + n) (driveOnce env (w\<lparr>swRequested := False\<rparr>))"
    using Cons.prems by (intro driveOnce_intact) simp_all
  then have "intact n (fst (runRequested envs (driveOnce env (w\<lparr>swRequested := False\<rparr>))))" using Cons by simp
  then show ?case using less [OF Cons.prems(2)] by (subst runRequested.simps) (simp add: Let_def)
qed

section \<open>The reachable states of a live agent\<close>

definition NewScheduleRuntime :: "session \<Rightarrow> inbox \<Rightarrow> schedule_runtime" where
  "NewScheduleRuntime s i =
     \<lparr>swSession = s, swInbox = i, swTimer = None, swRequested = False, swStopping = False, swFaulted = False, swRunActive = False,
      swIdleListening = False, swWarnings = []\<rparr>"

definition scheduledOf :: "schedule_runtime \<Rightarrow> (schedule_error, folded_schedules) outcome" where
  "scheduledOf w = FoldScheduleEvents (sLog (swSession w)) (seedLengthOf (swSession w))"

text \<open>A runtime opened on a log whose schedules read, and everything that happens to it: its own triggers, drives in any environment
  with a clock of this era, the three tools, the agent's inbox, and appends of other events.\<close>

inductive schedule_reach :: "schedule_runtime \<Rightarrow> bool" where
  opened: "inbox_reach s i \<Longrightarrow> FoldScheduleEvents (sLog s) (seedLengthOf s) = Ok folded \<Longrightarrow> schedule_reach (NewScheduleRuntime s i)"
| triggered: "schedule_reach w \<Longrightarrow> w' \<in> {RequestDrive w, timerFires w, becameIdle w, Dispose w} \<Longrightarrow> schedule_reach w'"
| ran: "schedule_reach w \<Longrightarrow> \<forall>env \<in> set envs. sane_clock env \<Longrightarrow> fits (swInbox w) (length envs) \<Longrightarrow> runRequested envs w = (w', rest) \<Longrightarrow> schedule_reach w'"
| created: "schedule_reach w \<Longrightarrow> executeCreate env args w = (w', answer) \<Longrightarrow> schedule_reach w'"
| listed: "schedule_reach w \<Longrightarrow> executeList env w = (w', answer) \<Longrightarrow> schedule_reach w'"
| deleted: "schedule_reach w \<Longrightarrow> executeDelete env args w = (w', answer) \<Longrightarrow> schedule_reach w'"
| appended: "schedule_reach w \<Longrightarrow> ty \<notin> {EventScheduleChange, EventAgentInboxSpliced} \<Longrightarrow> Append now (swSession w) ty data intent = (s', r)
    \<Longrightarrow> schedule_reach (w\<lparr>swSession := s'\<rparr>)"
| spliced: "schedule_reach w \<Longrightarrow> fits (swInbox w) (length (inserted_list ms)) \<Longrightarrow> \<forall>m \<in> set (inserted_list ms). wire_message m
    \<Longrightarrow> Splice now (swSession w) (swInbox w) target start n ms = ((s', i'), notices, res) \<Longrightarrow> schedule_reach (w\<lparr>swSession := s', swInbox := i'\<rparr>)"
| claimed: "schedule_reach w \<Longrightarrow> fits (swInbox w) 0 \<Longrightarrow> Claim now (swSession w) (swInbox w) target turn = ((s', i'), notices, res)
    \<Longrightarrow> schedule_reach (w\<lparr>swSession := s', swInbox := i'\<rparr>)"

lemma scheduledOf_Ok: "runtime_ok w st \<Longrightarrow> scheduledOf w = Ok (foldResult st)"
  by (simp add: scheduledOf_def FoldScheduleEvents_def runtime_ok_def scheduleLog_def seed_start inbox_inv_def)

lemma runtime_ok_open:
  assumes "inbox_reach s i" "FoldScheduleEvents (sLog s) (seedLengthOf s) = Ok folded"
  shows "\<exists>st. runtime_ok (NewScheduleRuntime s i) st"
  using inbox_reach_inv [OF assms(1)] assms(2)
  by (auto simp: runtime_ok_def NewScheduleRuntime_def scheduleLog_def FoldScheduleEvents_def outcome_simps split: if_splits)

lemma tools_faulted [simp]:
  "swFaulted (RequestDrive w) = swFaulted w" "swFaulted (fst (executeCreate env args w)) = swFaulted w"
  "swFaulted (fst (executeList env w)) = swFaulted w" "swFaulted (fst (executeDelete env args w)) = swFaulted w"
proof -
  show r: "swFaulted (RequestDrive w) = swFaulted w" for w by (simp add: RequestDrive_def Let_def)
  have c: "swFaulted (fst (commitChange env op sid c result w)) = swFaulted w" for op sid c result w
    by (auto simp: commitChange_def appendChange_def r split: option.split outcome.split prod.split)
  have f: "swFaulted (fst (withFolded env op sid body w)) = swFaulted w" if "\<And>x w. swFaulted (fst (body x w)) = swFaulted w" for op sid body w
    using that by (simp add: withFolded_def Let_def r split: option.split outcome.split)
  show "swFaulted (fst (executeCreate env args w)) = swFaulted w"
    unfolding executeCreate_def by (simp add: f c Let_def split: option.split outcome.split)
  show "swFaulted (fst (executeList env w)) = swFaulted w"
    unfolding executeList_def by (simp add: f Let_def)
  show "swFaulted (fst (executeDelete env args w)) = swFaulted w"
    unfolding executeDelete_def by (simp add: f c Let_def)
qed

lemma tools_keep:
  assumes ok: "runtime_ok w st"
  shows "\<exists>st'. runtime_ok (fst (executeCreate env args w)) st'" "\<exists>st'. runtime_ok (fst (executeList env w)) st'"
    "\<exists>st'. runtime_ok (fst (executeDelete env args w)) st'"
proof -
  have u: "untouched op sid w res \<Longrightarrow> \<exists>st'. runtime_ok (fst res) st'" for op sid res using ok by (auto simp: untouched_def)
  have c: "committed op sid v w st' x res \<Longrightarrow> \<exists>st'. runtime_ok (fst res) st'" for op sid v st' x res by (auto simp: committed_def)
  show "\<exists>st'. runtime_ok (fst (executeCreate env args w)) st'" using executeCreate_cases [OF ok, of env args] u c by blast
  show "\<exists>st'. runtime_ok (fst (executeList env w)) st'" using executeList_cases [OF ok, of env] u [of _ _ "executeList env w"] ok by (elim disjE) (blast, auto)
  show "\<exists>st'. runtime_ok (fst (executeDelete env args w)) st'" using executeDelete_cases [OF ok refl, of args env]
    by (elim disjE exE conjE) (erule u, simp add: ok exI [of _ st], erule c)
qed

lemma reach_ok: "schedule_reach w \<Longrightarrow> (\<exists>st. runtime_ok w st) \<and> \<not> swFaulted w"
proof (induction rule: schedule_reach.induct)
  case (opened s i folded)
  then show ?case using runtime_ok_open by (simp add: NewScheduleRuntime_def)
next
  case (triggered w w')
  obtain st where "runtime_ok w st" using triggered.IH by blast
  then show ?case using triggered by (auto simp: timerFires_def becameIdle_def Dispose_def runtime_ok_def split: if_splits)
next
  case (ran w envs w' rest)
  then have "intact (length envs + 0) w" by (simp add: intact_def)
  from runRequested_intact [OF ran.hyps(2) this] show ?case using ran.hyps(4) by (simp add: intact_def)
next
  case (created w env args w' answer)
  then show ?case using tools_keep(1) [of w _ env args] tools_faulted(2) [of env args w] by auto
next
  case (listed w env w' answer)
  then show ?case using tools_keep(2) [of w _ env] tools_faulted(3) [of env w] by auto
next
  case (deleted w env args w' answer)
  then show ?case using tools_keep(3) [of w _ env args] tools_faulted(4) [of env args w] by auto
next
  case (appended w ty now data intent s' r)
  then obtain st where ok: "runtime_ok w st" by blast
  have g: "foreign_growth (\<lambda>e. evType e \<noteq> EventScheduleChange) (swSession w) s'" "foreign_growth (\<lambda>e. evType e \<noteq> EventAgentInboxSpliced) (swSession w) s'"
    using Append_growth [OF appended.hyps(3)] appended.hyps(2) by (auto simp: foreign_growth_def)
  have inv: "inbox_inv s' (swInbox w)"
  proof -
    obtain es where es: "sHeader s' = sHeader (swSession w)" "sLog s' = sLog (swSession w) @ es" "\<forall>e \<in> set es. evType e \<noteq> EventAgentInboxSpliced"
      using g(2) by (auto simp: foreign_growth_def)
    have i: "inbox_inv (swSession w) (swInbox w)" using ok by (simp add: runtime_ok_def)
    then have rng: "0 \<le> inbox_start (swSession w)" "inbox_start (swSession w) \<le> int (length (sLog (swSession w)))" by (simp_all add: inbox_inv_def)
    have start: "inbox_start s' = inbox_start (swSession w)" by (simp add: inbox_start_def es(1))
    have "session_inv s'" using Append_inv appended.hyps(3) i by (auto simp: inbox_inv_def)
    then show ?thesis
      using i ib.replay_grow [of es empty_inbox "drop (nat (inbox_start (swSession w))) (sLog (swSession w))"] es(3)
      by (simp add: inbox_inv_def start es(2) drop_log [OF rng] del: drop_append)
  qed
  have "runtime_ok (w\<lparr>swSession := s', swInbox := swInbox w\<rparr>) st" using runtime_ok_growth [OF ok inv _ g(1)] ok by (simp add: runtime_ok_def)
  then show ?case using appended.IH by auto
next
  case (spliced w ms now target start n s' i' notices res)
  then obtain st where ok: "runtime_ok w st" by blast
  then have "inbox_inv s' i' \<and> ibPendingNotifications i' = []" using Splice_inv spliced.hyps(2-4) by (auto simp: runtime_ok_def)
  then show ?case
    using runtime_ok_growth [OF ok _ _ inbox_growth_foreign [OF Splice_growth [OF spliced.hyps(4)]]] spliced.IH by auto
next
  case (claimed w now target turn s' i' notices res)
  then obtain st where ok: "runtime_ok w st" by blast
  then have "inbox_inv s' i' \<and> ibPendingNotifications i' = []"
    using Claim_result [of "swSession w" "swInbox w", OF _ _ _ refl, of now target turn] claimed.hyps(2,3) by (auto simp: runtime_ok_def)
  then show ?case
    using runtime_ok_growth [OF ok _ _ inbox_growth_foreign [OF Claim_growth [OF claimed.hyps(3)]]] claimed.IH by auto
qed

lemma reach_state:
  assumes "schedule_reach w"
  obtains st where "runtime_ok w st" "scheduledOf w = Ok (foldResult st)" "\<not> swFaulted w"
  using reach_ok [OF assms] scheduledOf_Ok by blast

section \<open>Properties\<close>

lemma settles_keeps: "fold_ok st \<Longrightarrow> fold_ok st' \<Longrightarrow> settles now st st' \<Longrightarrow> r \<in> set (fdActive (foldResult st)) \<Longrightarrow> \<not> isDue now r
    \<Longrightarrow> r \<in> set (fdActive (foldResult st'))"
proof -
  assume a: "fold_ok st" "fold_ok st'" "settles now st st'" "r \<in> set (fdActive (foldResult st))" "\<not> isDue now r"
  have "fsActive st (recordId r) = Some r" using active_iff [OF a(1)] a(4) by simp
  then have "fsActive st' (recordId r) = Some r" using spec [OF a(3) [unfolded settles_def], of "recordId r"] a(5) by simp
  then show "r \<in> set (fdActive (foldResult st'))" using active_iff [OF a(2)] by simp
qed

text \<open>C12: Whatever its triggers, drives and tools do, and whatever else is appended, the schedules of a live agent stay readable, so the
  runtime never gives up on a corrupt log or a refused dispatch.\<close>

theorem schedules_never_corrupt:
  assumes "schedule_reach w"
  shows "\<not> swFaulted w \<and> (\<exists>folded. scheduledOf w = Ok folded)"
  using assms by (elim reach_state) blast

text \<open>C11: What is due is dispatched: once a drive is requested and nothing interferes, the run loop ends with no reminder due, every reminder
  that was not due as it was, and the timer set for the earliest of those left.  One environment per due one-shot, one for the batch of
  fixed-rate reminders and one for the last look are enough.\<close>

theorem due_reminders_drain:
  assumes "schedule_reach w" and "scheduledOf w = Ok folded" and "\<forall>env \<in> set envs. calm now env" and "0 \<le> now" and "representable now"
    and "swRequested w" and "swRunActive w" and "\<not> swStopping w" and "dueWork now folded < length envs" and "fits (swInbox w) (length envs)"
  shows "\<exists>w' rest folded'. runRequested envs w = (w', rest) \<and> \<not> swRunActive w' \<and> scheduledOf w' = Ok folded' \<and> dueWork now folded' = 0
    \<and> (\<forall>r \<in> set (fdActive folded). \<not> isDue now r \<longrightarrow> r \<in> set (fdActive folded')) \<and> swTimer w' = wakeDelay now (fdActive folded')"
proof -
  obtain st where st: "runtime_ok w st" "folded = foldResult st" "\<not> swFaulted w" using reach_state [OF assms(1)] assms(2) by (metis outcome.inject(1))
  from runRequested_drains [OF st(1) assms(3-8) st(3) _ assms(10)] assms(9) obtain w' rest st' where
    "runRequested envs w = (w', rest)" "runtime_ok w' st'" "settles now st st'" "dueWork now (foldResult st') = 0" "\<not> swRunActive w'"
    "swTimer w' = wakeDelay now (fdActive (foldResult st'))" by (auto simp: st(2))
  then show ?thesis
    using scheduledOf_Ok settles_keeps [OF runtime_fold_ok [OF st(1)] runtime_fold_ok [of w' st']] st(2) by blast
qed

text \<open>What is dispatched next: of the due one-shots one with the earliest target, before any fixed-rate reminder; else every due
  fixed-rate reminder once, in order of target, each with the latest of its moments not after now; else nothing, and the wake is
  computed.\<close>

theorem due_decision_sound:
  assumes "FoldScheduleEvents events seedLength = Ok folded" and "representable now"
  shows "(\<exists>r \<in> set (fdActive folded). decideDue folded now = Ok (DueOneShot r) \<and> \<not> isEvery r \<and> isDue now r
            \<and> (\<forall>r' \<in> set (fdActive folded). \<not> isEvery r' \<longrightarrow> targetOf r \<le> targetOf r'))
    \<or> (\<exists>reminders. decideDue folded now = Ok (DueEvery reminders (isoMilli now)) \<and> reminders \<noteq> []
         \<and> (\<forall>r \<in> set (fdActive folded). isDue now r \<longrightarrow> isEvery r)
         \<and> sorted (map (\<lambda>d. targetOf (EveryRecord (edRecord d))) reminders)
         \<and> mset (map (\<lambda>d. EveryRecord (edRecord d)) reminders) = mset (dueRecords now (fdActive folded))
         \<and> (\<forall>d \<in> set reminders. edOccurrenceAt d
              = isoMilli (latest (targetOf (EveryRecord (edRecord d))) (erEverySeconds (edRecord d) * 1000) now)))
    \<or> (decideDue folded now = Ok (DueWait (wakeTarget now (fdActive folded))) \<and> (\<forall>r \<in> set (fdActive folded). \<not> isDue now r))"
proof -
  obtain st where "fold_ok st" "folded = foldResult st" using assms(1) by (rule folded_state)
  then show ?thesis using decideDue_spec [OF active_wf assms(2)] by simp
qed

theorem due_decision_sound_witness:
  "\<exists>reminders. decideDue \<lparr>fdActive = [demo_reminder], fdSeenIds = [''schedule-1'']\<rparr> 120000 = Ok (DueEvery reminders (isoMilli 120000)) \<and> reminders \<noteq> []"
proof -
  have e: "isEvery demo_reminder" "isDue 120000 demo_reminder" by (simp_all add: isDue_def demo_reminder_target(1)) (simp add: demo_reminder_def)
  from due_decision_sound [OF demo_schedule_fold demo_representable(2)] show ?thesis
    by (elim disjE) (use e in simp, blast, use e in simp)
qed

text \<open>C29: Creating a schedule always answers, and its outcome is decided by the call.  When it is the agent's own and valid, cancelled
  neither before the log is read nor before the change is written, its first checkpoint persists and a record comes of its arguments, exactly one
  change is appended: the record is added at the end, with an id that was never used and a target after the clock at its creation, and the
  answer is its view, or that its persistence is uncertain when the second checkpoint fails (the record is in the log all the same).  In every
  other case the log is as it was, and the answer is the refusal of the first condition that failed.\<close>

theorem create_outcome:
  assumes "schedule_reach w" and "scheduledOf w = Ok folded" and "executeCreate env args w = (w', answer)"
  shows "\<exists>value' folded'. answer = Some value' \<and> scheduledOf w' = Ok folded' \<and>
    (if create_admitted env args folded
     then \<exists>r. create_built env args folded = Ok r \<and> gained w w' (ScheduleCreateChange r) \<and> fdActive folded' = fdActive folded @ [r]
         \<and> fdSeenIds folded' = fdSeenIds folded @ [recordId r] \<and> record_wf r \<and> recordId r \<notin> set (fdSeenIds folded) \<and> teNow env 0 < targetOf r
         \<and> value' = (if teHasFlush env \<and> \<not> teFlushOk env 1 then PersistenceUncertain ''create'' (recordId r)
                     else ViewValue (NewScheduleView r (teNow env 1)))
     else sLog (swSession w') = sLog (swSession w) \<and> folded' = folded \<and> value' = create_refusal env args folded
         \<and> ((\<exists>code message. value' = ToolError code message) \<or> value' = PersistenceUncertain ''create'' []))"
proof -
  obtain st where st: "runtime_ok w st" "folded = foldResult st" using reach_state [OF assms(1)] assms(2) by (metis outcome.inject(1))
  show ?thesis
  proof (cases "create_admitted env args folded")
    case True
    then obtain r where r: "create_built env args folded = Ok r" by (cases "create_built env args folded") (simp_all add: create_admitted_def)
    from executeCreate_accepted [OF st(1) True [unfolded st(2)] r [unfolded st(2)]] obtain v st' where v: "executeCreate env args w
        = (v, Some (if teHasFlush env \<and> \<not> teFlushOk env 1 then PersistenceUncertain ''create'' (recordId r) else ViewValue (NewScheduleView r (teNow env 1))))"
      "runtime_ok v st'" "gained w v (ScheduleCreateChange r)" "record_wf r" "recordId r \<notin> set (fsSeen st)" "teNow env 0 < targetOf r"
      "fdActive (foldResult st') = fdActive (foldResult st) @ [r]" "fsSeen st' = fsSeen st @ [recordId r]" by blast
    have seen: "fdSeenIds (foldResult x) = fsSeen x" for x by (simp add: foldResult_def)
    have "w' = v" "scheduledOf v = Ok (foldResult st')" using v(1) assms(3) scheduledOf_Ok [OF v(2)] by simp_all
    then show ?thesis using True r v assms(3) st(2) seen by (intro exI conjI) auto
  next
    case False
    from executeCreate_refused [OF st(1) False [unfolded st(2)] assms(3)]
    have a: "w' \<in> {w, RequestDrive w}" "answer = Some (create_refusal env args folded)" by (simp_all add: st(2))
    then have "scheduledOf w' = Ok folded" "sLog (swSession w') = sLog (swSession w)" using assms(2) by (auto simp: scheduledOf_def)
    then show ?thesis using False a(2) create_refusal_value by simp
  qed
qed

text \<open>Deleting answers not-found exactly for an id that is not active; a deleted record is gone, every other stays, and the id is never
  given out again.\<close>

lemma delete_outcome:
  assumes "schedule_reach w" and "scheduledOf w = Ok folded" and "sid = argString (obj_get ''id'' args)" and "executeDelete env args w = (w', Some value')"
  shows "\<exists>folded'. scheduledOf w' = Ok folded' \<and> fdSeenIds folded' = fdSeenIds folded
    \<and> (value' = NotFoundValue sid \<longrightarrow> sid \<notin> recordId ` set (fdActive folded) \<and> folded' = folded)
    \<and> (value' = DeletedValue sid \<longrightarrow> sid \<in> recordId ` set (fdActive folded) \<and> fdActive folded' = filter (\<lambda>r. recordId r \<noteq> sid) (fdActive folded))"
proof -
  obtain st where st: "runtime_ok w st" "folded = foldResult st" using reach_state [OF assms(1)] assms(2) by (metis outcome.inject(1))
  have seen: "fdSeenIds (foldResult x) = fsSeen x" for x by (simp add: foldResult_def)
  from executeDelete_cases [OF st(1) assms(3), of env] assms(4)
  consider "untouched ''delete'' sid w (w', Some value')" | "w' = RequestDrive w" "value' = NotFoundValue sid" "sid \<notin> recordId ` set (fdActive (foldResult st))"
    | st' where "committed ''delete'' sid (DeletedValue sid) w st' (ScheduleDeleteChange sid) (w', Some value')" "sid \<in> recordId ` set (fdActive (foldResult st))"
        "fsSeen st' = fsSeen st" "fdActive (foldResult st') = filter (\<lambda>r. recordId r \<noteq> sid) (fdActive (foldResult st))" by auto
  then show ?thesis
  proof cases
    case 3
    then have "scheduledOf w' = Ok (foldResult st')" "value' \<noteq> NotFoundValue sid" using scheduledOf_Ok by (auto simp: committed_def)
    then show ?thesis using 3(2-4) st(2) seen by metis
  qed (use assms(2) st(2) in \<open>auto simp: untouched_def scheduledOf_def\<close>)
qed

definition demo_drive :: drive_env where
  "demo_drive = \<lparr>dvHasFlush = False, dvFlushOk = (\<lambda>_. True), dvLive = (\<lambda>_. True), dvNow = (\<lambda>_. 120000), dvAdmitted = True,
     dvMessageID = replicate 16 0, dvTime = 9\<rparr>"

lemma demo_runtime:
  obtains w where "schedule_reach w" "scheduledOf w = Ok \<lparr>fdActive = [demo_reminder], fdSeenIds = [''schedule-1'']\<rparr>"
    "swRequested w" "swRunActive w" "\<not> swStopping w" "swInbox w = empty_inbox"
proof -
  let ?w = "NewScheduleRuntime demo_start empty_inbox"
  have i: "inbox_reach demo_start empty_inbox"
    by (rule inbox_reach.opened [OF session_reach_inv [OF demo_start_reach]]) (simp add: NewInbox_def demo_start_def blank_session_def zero_header_def)
  have l: "sLog demo_start = []" "seedLengthOf demo_start = 0" by (simp_all add: demo_start_def blank_session_def seedLengthOf_def zero_header_def)
  have "scheduleLog demo_start = Ok empty_fold" by (simp add: scheduleLog_def l)
  then have ok: "runtime_ok ?w empty_fold" using inbox_reach_inv [OF i] by (simp add: runtime_ok_def NewScheduleRuntime_def)
  define st where "st = \<lparr>fsActive = Map.empty(''schedule-1'' := Some demo_reminder), fsOrder = [''schedule-1''], fsSeen = [''schedule-1'']\<rparr>"
  have "applyScheduleChange empty_fold (ScheduleCreateChange demo_reminder) = Ok st" "change_wf (ScheduleCreateChange demo_reminder)"
    by (simp_all add: applyScheduleChange_def empty_fold_def demo_reminder_target demo_reminder_wf st_def Let_def)
  from append_change [OF ok this, of 7] obtain s' e where a:
    "Append 7 demo_start EventScheduleChange (Some (enc_change (ScheduleCreateChange demo_reminder))) None = (s', Ok e)"
    "runtime_ok (?w\<lparr>swSession := s'\<rparr>) st" by (auto simp: NewScheduleRuntime_def)
  have i': "inbox_reach s' empty_inbox" using inbox_reach.foreign [OF i _ a(1)] by simp
  have u: "?w\<lparr>swSession := s'\<rparr> = NewScheduleRuntime s' empty_inbox" by (simp add: NewScheduleRuntime_def)
  have f: "scheduledOf (NewScheduleRuntime s' empty_inbox) = Ok (foldResult st)" using scheduledOf_Ok [OF a(2)] by (simp add: u)
  moreover have "foldResult st = \<lparr>fdActive = [demo_reminder], fdSeenIds = [''schedule-1'']\<rparr>" by (simp add: foldResult_def st_def)
  moreover have "schedule_reach (NewScheduleRuntime s' empty_inbox)"
    using schedule_reach.opened [OF i'] f by (simp add: scheduledOf_def NewScheduleRuntime_def)
  ultimately show thesis
    by (intro that [of "RequestDrive (NewScheduleRuntime s' empty_inbox)"])
      (auto intro: schedule_reach.triggered simp: scheduledOf_def RequestDrive_def NewScheduleRuntime_def)
qed

theorem schedules_never_corrupt_witness: "\<exists>w. \<not> swFaulted w \<and> (\<exists>folded. scheduledOf w = Ok folded)"
  using demo_runtime schedules_never_corrupt by metis

lemma demo_work: "dueWork 120000 \<lparr>fdActive = [demo_reminder], fdSeenIds = [''schedule-1'']\<rparr> = 1"
  using demo_reminder_target by (auto simp: dueWork_def dueOneShots_def isDue_def)

theorem due_reminders_drain_witness:
  "\<exists>w w' rest folded'. dueWork 120000 \<lparr>fdActive = [demo_reminder], fdSeenIds = [''schedule-1'']\<rparr> = 1
     \<and> scheduledOf w = Ok \<lparr>fdActive = [demo_reminder], fdSeenIds = [''schedule-1'']\<rparr>
     \<and> runRequested [demo_drive, demo_drive] w = (w', rest) \<and> scheduledOf w' = Ok folded' \<and> dueWork 120000 folded' = 0"
proof -
  obtain w where w: "schedule_reach w" "scheduledOf w = Ok \<lparr>fdActive = [demo_reminder], fdSeenIds = [''schedule-1'']\<rparr>"
    "swRequested w" "swRunActive w" "\<not> swStopping w" "swInbox w = empty_inbox" by (rule demo_runtime)
  have c: "\<forall>env \<in> set [demo_drive, demo_drive]. calm 120000 env" by (simp add: calm_def demo_drive_def)
  have f: "fits (swInbox w) (length [demo_drive, demo_drive])" by (simp add: w(6) fits_def empty_inbox_def max_int64_def)
  have n: "(0 :: int) \<le> 120000" "dueWork 120000 \<lparr>fdActive = [demo_reminder], fdSeenIds = [''schedule-1'']\<rparr> < length [demo_drive, demo_drive]"
    by (simp_all add: demo_work)
  from due_reminders_drain [OF w(1,2) c n(1) demo_representable(2) w(3-5) n(2) f] w(2) demo_work show ?thesis by blast
qed

definition demo_tool_env :: tool_env where
  "demo_tool_env = \<lparr>teOwner = True, teCancelled = (\<lambda>_. False), teHasFlush = False, teFlushOk = (\<lambda>_. True), teNow = (\<lambda>_. 60000), teTime = 8, teZones = (\<lambda>_. None)\<rparr>"

theorem create_outcome_witness:
  "\<exists>w w' value' folded'. executeCreate demo_tool_env [(''prompt'', JStr ''tea''), (''after_seconds'', JInt 60)] w = (w', Some value')
     \<and> scheduledOf w = Ok \<lparr>fdActive = [demo_reminder], fdSeenIds = [''schedule-1'']\<rparr> \<and> scheduledOf w' = Ok folded'
     \<and> (\<exists>r. fdActive folded' = [demo_reminder, r]) \<and> fdSeenIds folded' = [''schedule-1'', ''schedule-2'']"
proof -
  let ?args = "[(''prompt'', JStr ''tea''), (''after_seconds'', JInt 60)]"
  let ?folded = "\<lparr>fdActive = [demo_reminder], fdSeenIds = [''schedule-1'']\<rparr>"
  obtain w where w: "schedule_reach w" "scheduledOf w = Ok ?folded" by (rule demo_runtime)
  obtain w' answer where e: "executeCreate demo_tool_env ?args w = (w', answer)" by (metis surj_pair)
  have "case create_built demo_tool_env ?args ?folded of Ok r \<Rightarrow> recordId r = ''schedule-2'' | _ \<Rightarrow> False" by code_simp
  then obtain r where r: "create_built demo_tool_env ?args ?folded = Ok r" "recordId r = ''schedule-2''"
    by (cases "create_built demo_tool_env ?args ?folded") simp_all
  moreover have "validateCreateArgs ?args = None" by code_simp
  ultimately have "create_admitted demo_tool_env ?args ?folded" by (simp add: create_admitted_def demo_tool_env_def)
  with create_outcome [OF w e] w(2) e r show ?thesis by (auto simp: demo_tool_env_def)
qed

end
