(* ===== verification/Spec2Isabelle.thy ===== *)
theory Spec2Isabelle
  imports Session_Scanner Session_Store Assistant_Stream Agent_Inbox Goal_Service Compaction_Metered Schedule_Tools
begin

text \<open>
  A verification development of the session core of \<open>dsh-go\<close>, an agent harness: a conversation is an
  append-only log of events; everything else the program knows about it is folded from that log.

  \<^bold>\<open>The parts and how they interact.\<close>  A \<open>Session\<close> (\<open>session/session.go\<close>) owns a log of events
  (\<open>session/types.go\<close>).  An append is validated (\<open>session/validation.go\<close>), planned against the surface, the
  list of events that are visible to the model (\<open>session/surface.go\<close>), and committed; the request header, the request
  context and the messages of the next model call are folds of the log which the session advances incrementally
  (\<open>session/request-header.go\<close>).  A \<open>Store\<close> (\<open>session/store.go\<close>) holds the live sessions by id, tells listeners
  of creations, appends and disposals, and forks sessions.  A log is stored as lines of JSON, with runs of streamed deltas
  packed into one record (\<open>session/storage.go\<close>), and read back by a streaming scanner that survives a torn last line
  (\<open>session/persistence/jsonl/jsonl.go\<close>); a log whose turn was interrupted is closed by synthetic events
  (\<open>session/repair.go\<close>).  Model output arrives as chunks that are assembled into blocks (\<open>llm/assembler.go\<close>)
  and kept in a compact form (\<open>llm/assistant-stream.go\<close>).  Plugins keep their state in the same log: the inbox of an
  agent (\<open>agent/inbox.go\<close>) and its goal (\<open>goal\<close>) validate a mutation, append an event of their own type and
  apply it, and rebuild their state by a replay.  The reminders of an agent
  (\<open>schedule\<close>) are a third such plugin, with a timer and tools of their own; what is due is queued on the inbox.  The token meter (\<open>tokenmeter\<close>) prices the surface for the next request and projects usage, occupancy and composition for display, and a compaction (\<open>compaction\<close>, \<open>compactionbasic\<close>) replaces a span of it by a summary.

  \<^bold>\<open>The theories.\<close>
  \<^item> \<open>Prelude\<close>: results of Go calls (a value, an error, a panic), wrap-around of \<open>int64\<close>, slices; the collections
    \<open>outcome_simps\<close> and \<open>go_defs\<close> carry the component proofs.
  \<^item> \<open>Log_View\<close>: the interface of a cached reading of a log (locales \<open>incremental_view\<close>, \<open>incremental_fold\<close>).
  \<^item> \<open>Go_Json\<close>: what the program uses of \<open>encoding/json\<close>, \<open>strings\<close> and \<open>sort\<close>.
  \<^item> \<open>Llm_Types\<close>, \<open>Session_Types\<close>: the records of \<open>llm/types.go\<close> and \<open>session/types.go\<close> with their
    codecs; an event is read back as it was written.
  \<^item> \<open>Session_Surface\<close>: the surface fold and the incremental manager; the manager refines the fold, accepts an event exactly
    when the extended log folds, and the fold loses and duplicates nothing.
  \<^item> \<open>Session_Repair\<close>: the closers of an interrupted turn; what they establish and what they miss.
  \<^item> \<open>Session_Log\<close>: validation, header fold and the session; every reachable session is well-formed, append commits exactly the
    admissible events, the cached readings equal folds of the whole log (interpretations of \<open>Log_View\<close>), a live log restores.
  \<^item> \<open>Session_Storage\<close>, \<open>Storage_Roundtrip\<close>: the storage format and its round trips, up to the normal form in which a Go map
    writes a payload.
  \<^item> \<open>Session_Scanner\<close>: the header line and the scanner; it does not depend on how the bytes are cut, and a torn log keeps
    exactly its complete lines.
  \<^item> \<open>Session_Store\<close>: the store as a registry (locale \<open>registry\<close>) and its operations on every branch.
  \<^item> \<open>Llm_Assembler\<close>, \<open>Assistant_Stream\<close>: chunk codecs, assembly block by block, the compact stream and its round trip.
  \<^item> \<open>Event_Sourcing\<close>: the interface of a plugin that lives in the log (locale \<open>event_sourced\<close>): foreign events do not
    matter to a replay, and a log-only event is always accepted.
  \<^item> \<open>Agent_Inbox\<close>, \<open>Goal_Fold\<close>, \<open>Goal_Service\<close>: two such plugins.  The live state equals the replay of the log in
    every reachable state; the goal service implements an abstract contract of its commands.
  \<^item> \<open>Go_Time\<close>: the calendar and the one instant format of Go's \<open>time\<close> package that the schedules use, with its
    round trips.
  \<^item> \<open>Schedule_Domain\<close>, \<open>Schedule_Runtime\<close>, \<open>Schedule_Tools\<close>: the durable schedules and the rules they are made
    by, the drive that dispatches what is due, and the tools.  Every accepted log is well-typed, ids are never reused, a local time resolves to
    the earliest instant that shows it, the log of a live agent never becomes unreadable, a creation is decided by its
    call (ownership, arguments, cancellation, checkpoints), and a calm run drains all that is due.
  \<^item> \<open>Token_Meter\<close>: the request pressure of a session; measuring does not depend on what was cached, the priced surface is the
    session's, the pressure is never below the estimate while that is within the safe-integer ceiling.
  \<^item> \<open>Turn_Usage\<close>, \<open>Token_Projection\<close>: the usage disclosed for a turn and the three persisted projections of token
    figures.  Every attempt is counted once, with the report its own events carry; two of the projections follow the surface (locale \<open>surface_unit\<close>), and their running price is the
    price of the surface as long as every replacement is metered.
  \<^item> \<open>Compaction_Range\<close>, \<open>Compaction\<close>: which span of a surface may be summarised, and the transaction that replaces it; a committed
    transaction replaces exactly the span, the bracket is always closed, and until a later end-of-seed marker it excludes other transactions.
  \<^item> \<open>Compaction_Metered\<close>: the two meet: the replacement a compaction makes is metered.

  Within a theory the definitions come in the order of the code and keep its names; a struct is a record whose fields carry a prefix of
  the type, an operation is a function from the old state to the new state and the result, and the reachable states of a component are
  an inductive predicate with one rule per operation and one for what others may do to the log in between.

  \<^bold>\<open>Conventions and bounds.\<close>  A JSON text is represented by the value it denotes; printing and parsing of texts are arguments of
  the scanner, with the round trip as their hypothesis.  Strings are byte sequences, taken to be valid UTF-8.  An \<open>int64\<close> is the
  integer it holds, and every arithmetic step that can leave the range is wrapped; bytes of random identities are words.  The wall clock,
  random bytes, time zones, persistence checkpoints, listeners and other callbacks are arguments.  A method that runs under a lock is one atomic step; interleaving is
  that of whole methods.  Every loop of the modelled code is a total recursion over the data it consumes, so there is no fuel, except the run loop of
  the schedules: it takes one environment per drive, and one drive per due one-shot plus two are shown to be enough; the only
  method that does not return (it takes a lock twice) has that as a theorem.  \<open>filepath.IsAbs\<close> is the Unix one.

  \<^bold>\<open>Not modelled.\<close>  File systems, subprocesses, HTTP and databases (the backends, the tools, the providers); goroutine drivers
  (agent loop, subagents, persistence coordinator, jobs); the composition of the program (boot, presets, settings, gateway); prompt texts;
  migrations of old formats.  The triggers of compaction and the smaller event-sourced plugins (todos, guards, plan mode) have the shape of
  the components here and are not part of this development.  Of the schedules the registration of the plugin and the queue that runs one transaction
  after another are left out, and of the follow-up that a drive sends only what it does to the inbox is kept (the wake it latches belongs to the agent loop); a tool
  is one transaction, during whose checkpoints nothing else is appended.
\<close>

end
